(* ===== verification/Py_Prelude.thy ===== *)
theory Py_Prelude
  imports Main "HOL-Library.AList" "HOL-Library.Char_ord" "HOL-Library.List_Lexorder"
begin

text \<open>
  Shared vocabulary of the development: what boto uses of Python 2.7 and of its standard
  library, and the lemmas every component needs about it.

  \<^item> Values.  A Python 2 \<open>str\<close> is a byte string: type \<open>string\<close>, one \<open>char\<close> per byte.
    A \<open>dict\<close> is an association list with distinct keys (\<open>AList.update\<close> overwrites in
    place or appends, \<open>AList.delete\<close> removes, \<open>map_of\<close> looks up).
  \<^item> Effects.  A method that mutates an object and may raise is a function of type
    \<open>('s, 'a) py\<close>: from the state to the outcome (\<open>Inl\<close> of an exception or \<open>Inr\<close> of the
    value) and the state it leaves behind, also when it raises.
\<close>

section \<open>Exceptions and effects\<close>

datatype py_exc =
    ValueError | IndexError | KeyError | TypeError | RuntimeError | AssertionError
  | NameError | UnicodeDecodeError | ZeroDivisionError | StopIteration | AttributeError
  | IOError string | Boto_Error string
  | Diverges \<comment> \<open>the call does not return: a mark of the model, which no handler catches\<close>

type_synonym 'a res = "py_exc + 'a"
type_synonym ('s, 'a) py = "'s \<Rightarrow> 'a res \<times> 's"
type_synonym ('k, 'v) dict = "('k \<times> 'v) list"

named_theorems py_simps \<open>unfolding the effectful combinators\<close>

definition py_ret :: "'a \<Rightarrow> ('s, 'a) py" where
  "py_ret x = (\<lambda>s. (Inr x, s))"

definition py_raise :: "py_exc \<Rightarrow> ('s, 'a) py" where
  "py_raise e = (\<lambda>s. (Inl e, s))"

definition py_bind :: "('s, 'a) py \<Rightarrow> ('a \<Rightarrow> ('s, 'b) py) \<Rightarrow> ('s, 'b) py" where
  "py_bind m f = (\<lambda>s. case m s of (Inl e, t) \<Rightarrow> (Inl e, t) | (Inr x, t) \<Rightarrow> f x t)"

definition py_lift :: "'a res \<Rightarrow> ('s, 'a) py" where
  "py_lift r = (\<lambda>s. (r, s))"

definition res_bind :: "'a res \<Rightarrow> ('a \<Rightarrow> 'b res) \<Rightarrow> 'b res" where
  "res_bind r f = (case r of Inl e \<Rightarrow> Inl e | Inr x \<Rightarrow> f x)"

lemmas [py_simps] = py_ret_def py_raise_def py_bind_def py_lift_def

lemma res_bind_simps [simp]:
  "res_bind (Inl e) f = Inl e" "res_bind (Inr x) f = f x"
  by (simp_all add: res_bind_def)

lemma res_bind_Inr_iff: "res_bind r f = Inr y \<longleftrightarrow> (\<exists>x. r = Inr x \<and> f x = Inr y)"
  by (cases r) simp_all

lemma res_bind_assoc: "res_bind (res_bind r f) g = res_bind r (\<lambda>x. res_bind (f x) g)"
  by (cases r) simp_all

lemma py_bind_Inr:
  "m s = (Inr x, t) \<Longrightarrow> py_bind m f s = f x t"
  by (simp add: py_bind_def)

lemma py_bind_Inl:
  "m s = (Inl e, t) \<Longrightarrow> py_bind m f s = (Inl e, t)"
  by (simp add: py_bind_def)

lemma py_bind_InrE:
  assumes "py_bind m f s = (Inr y, u)"
  obtains x t where "m s = (Inr x, t)" and "f x t = (Inr y, u)"
  using assms by (auto simp: py_bind_def split: prod.splits sum.splits)

text \<open>
  A loop \<open>for x in xs: body(x)\<close> whose body may raise: the first exception ends it.
\<close>

fun py_for :: "'x list \<Rightarrow> ('x \<Rightarrow> ('s, unit) py) \<Rightarrow> ('s, unit) py" where
  "py_for [] body s = (Inr (), s)"
| "py_for (x # xs) body s =
     (case body x s of (Inl e, t) \<Rightarrow> (Inl e, t) | (Inr _, t) \<Rightarrow> py_for xs body t)"

lemma py_for_append:
  "py_for (xs @ ys) body s =
     (case py_for xs body s of (Inl e, t) \<Rightarrow> (Inl e, t) | (Inr _, t) \<Rightarrow> py_for ys body t)"
  by (induction xs arbitrary: s) (auto split: prod.splits sum.splits)

section \<open>Lists\<close>

text \<open>The slice \<open>xs[a:b]\<close> for \<open>0 \<le> a \<le> b\<close>.\<close>

definition slice :: "'a list \<Rightarrow> nat \<Rightarrow> nat \<Rightarrow> 'a list" where
  "slice xs a b = take (b - a) (drop a xs)"

lemma slice_append_drop: "a \<le> b \<Longrightarrow> slice xs a b @ drop b xs = drop a xs"
  using append_take_drop_id [of "b - a" "drop a xs"] by (simp add: slice_def)

lemma length_slice: "length (slice xs a b) = min (length xs) b - min (length xs) a"
  by (auto simp: slice_def min_def)

text \<open>\<open>int(math.ceil(n / float(c)))\<close> for \<open>0 < c\<close>.\<close>

definition ceil_div :: "nat \<Rightarrow> nat \<Rightarrow> nat" where
  "ceil_div n c = (n + c - 1) div c"

lemma ceil_div_0 [simp]: "ceil_div 0 c = 0"
  by (cases c) (auto simp: ceil_div_def)

lemma ceil_div_step:
  assumes "0 < c" and "0 < n"
  shows "ceil_div n c = Suc (ceil_div (n - c) c)"
proof (cases "n \<le> c")
  case True
  have "n + c - 1 = (n - 1) + c" using assms by arith
  moreover have "n - 1 < c" using assms True by arith
  ultimately have "(n + c - 1) div c = 1"
    using assms by (metis div_add_self2 div_less less_not_refl plus_nat.add_0 Suc_eq_plus1 One_nat_def)
  then show ?thesis using True assms by (simp add: ceil_div_def)
next
  case False
  then have "n + c - 1 = (n - c + c - 1) + c" using assms by arith
  then have "(n + c - 1) div c = Suc ((n - c + c - 1) div c)"
    using assms by (metis Suc_eq_plus1 div_add_self2 less_numeral_extra(3))
  then show ?thesis by (simp add: ceil_div_def)
qed

lemma ceil_div_le_iff: "0 < c \<Longrightarrow> ceil_div n c \<le> k \<longleftrightarrow> n \<le> k * c"
proof (induction k arbitrary: n)
  case 0
  then show ?case by (cases "n = 0") (simp_all add: ceil_div_step [of c n])
next
  case (Suc k)
  then show ?case
    by (cases "n = 0") (auto simp add: ceil_div_step [of c n] le_diff_conv)
qed

lemma ceil_div_eq_0_iff: "0 < c \<Longrightarrow> ceil_div n c = 0 \<longleftrightarrow> n = 0"
  using ceil_div_le_iff [of c n 0] by simp

text \<open>The pieces of length \<open>c\<close> a list falls into, the last one possibly shorter.\<close>

function pieces :: "nat \<Rightarrow> 'a list \<Rightarrow> 'a list list" where
  "pieces c xs = (if c = 0 \<or> xs = [] then [] else take c xs # pieces c (drop c xs))"
  by pat_completeness auto
termination
  by (relation "measure (\<lambda>(c, xs). length xs)") auto

declare pieces.simps [simp del]

lemma pieces_Nil [simp]: "pieces c [] = []"
  by (simp add: pieces.simps)

lemma pieces_step: "0 < c \<Longrightarrow> xs \<noteq> [] \<Longrightarrow> pieces c xs = take c xs # pieces c (drop c xs)"
  by (simp add: pieces.simps [of c xs])

lemma pieces_eq_Nil_iff: "0 < c \<Longrightarrow> pieces c xs = [] \<longleftrightarrow> xs = []"
  by (cases "xs = []") (auto simp: pieces_step)

lemma concat_pieces: "0 < c \<Longrightarrow> concat (pieces c xs) = xs"
proof (induction c xs rule: pieces.induct)
  case (1 c xs)
  then show ?case by (cases "xs = []") (simp_all add: pieces_step)
qed

lemma length_pieces: "0 < c \<Longrightarrow> length (pieces c xs) = ceil_div (length xs) c"
proof (induction c xs rule: pieces.induct)
  case (1 c xs)
  then show ?case by (cases "xs = []") (simp_all add: pieces_step ceil_div_step)
qed

lemma nth_pieces:
  "0 < c \<Longrightarrow> i < length (pieces c xs) \<Longrightarrow> pieces c xs ! i = take c (drop (i * c) xs)"
proof (induction c xs arbitrary: i rule: pieces.induct)
  case (1 c xs)
  then show ?case
    by (cases "xs = []"; cases i) (auto simp: pieces_step add.commute)
qed

lemma pieces_single: "0 < length xs \<Longrightarrow> length xs \<le> c \<Longrightarrow> pieces c xs = [xs]"
  using pieces_step [of c xs] by (cases "c = 0") simp_all

lemma pieces_nonempty: "p \<in> set (pieces c xs) \<Longrightarrow> p \<noteq> []"
proof (induction c xs rule: pieces.induct)
  case (1 c xs)
  then show ?case by (cases "c = 0 \<or> xs = []") (auto simp: pieces.simps [of c xs])
qed

lemma pieces_full:
  "0 < c \<Longrightarrow> \<forall>p \<in> set ps. length p = c \<Longrightarrow> pieces c (concat ps @ xs) = ps @ pieces c xs"
proof (induction ps)
  case Nil
  then show ?case by simp
next
  case (Cons p ps)
  then show ?case by (subst pieces_step) auto
qed

lemma pieces_append:
  "0 < c \<Longrightarrow> length xs = k * c \<Longrightarrow> pieces c (xs @ ys) = pieces c xs @ pieces c ys"
proof (induction k arbitrary: xs)
  case 0
  then show ?case by simp
next
  case (Suc k)
  then have "xs \<noteq> []" "c \<le> length xs" by auto
  moreover from Suc have "pieces c (drop c xs @ ys) = pieces c (drop c xs) @ pieces c ys"
    by simp
  ultimately show ?case using Suc.prems
    by (simp add: pieces_step)
qed

section \<open>Dictionaries\<close>

lemma delete_middle:
  assumes "distinct (map fst (us @ (k, v) # vs))"
  shows "AList.delete k (us @ (k, v) # vs) = us @ vs"
proof -
  have "AList.delete k (us @ (k, v) # vs) = AList.delete k us @ AList.delete k vs"
    by (simp add: AList.delete_eq)
  then show ?thesis using assms by simp
qed

lemma update_absent: "k \<notin> fst ` set d \<Longrightarrow> AList.update k v d = d @ [(k, v)]"
  by (induction d) auto

lemma update_same: "map_of d k = Some v \<Longrightarrow> AList.update k v d = d"
  by (induction d) auto

lemma update_idem: "AList.update k v (AList.update k w d) = AList.update k v d"
  by (induction d) auto

lemma update_commute:
  "k \<in> fst ` set d \<Longrightarrow> k \<noteq> l \<Longrightarrow> AList.update k v (AList.update l w d) = AList.update l w (AList.update k v d)"
  by (induction d) auto

lemma dom_map_of: "map_of d k \<noteq> None \<longleftrightarrow> k \<in> fst ` set d"
  by (simp add: map_of_eq_None_iff)

section \<open>Strings\<close>

text \<open>Evaluation of \<open>char_of\<close> on numerals.\<close>

lemmas char_eval = char_of_def bit_iff_odd

text \<open>\<open>s.lower()\<close> of a byte string: the ASCII capitals.\<close>

definition lower_char :: "char \<Rightarrow> char" where
  "lower_char c = (if (65::nat) \<le> of_char c \<and> of_char c \<le> (90::nat) then char_of (of_char c + (32::nat)) else c)"

definition str_lower :: "string \<Rightarrow> string" where
  "str_lower s = map lower_char s"

lemma of_char_less [simp]: "(of_char c :: nat) < 256"
  using nat_of_char_less_256 by simp

lemma lower_char_idem [simp]: "lower_char (lower_char c) = lower_char c"
proof -
  have *: "of_char (char_of (of_char c + (32::nat))) = of_char c + (32::nat)"
    if "of_char c \<le> (90::nat)"
    using that by simp
  show ?thesis
    using * by (auto simp: lower_char_def)
qed

lemma str_lower_idem [simp]: "str_lower (str_lower s) = str_lower s"
  by (simp add: str_lower_def)

lemma length_str_lower [simp]: "length (str_lower s) = length s"
  by (simp add: str_lower_def)

lemma str_lower_append [simp]: "str_lower (s @ t) = str_lower s @ str_lower t"
  by (simp add: str_lower_def)

text \<open>\<open>s.strip()\<close>: white space is blank, tab, newline, carriage return, vertical tab, form feed.\<close>

definition is_space :: "char \<Rightarrow> bool" where
  "is_space c \<longleftrightarrow> of_char c \<in> {9, 10, 11, 12, 13, 32 :: nat}"

definition str_lstrip :: "string \<Rightarrow> string" where
  "str_lstrip s = dropWhile is_space s"

definition str_strip :: "string \<Rightarrow> string" where
  "str_strip s = rev (dropWhile is_space (rev (str_lstrip s)))"

text \<open>\<open>s.split(c)\<close> for a separator of one character, and \<open>c.join(ss)\<close>.\<close>

fun str_split :: "char \<Rightarrow> string \<Rightarrow> string list" where
  "str_split c [] = [[]]"
| "str_split c (x # xs) =
     (if x = c then [] # str_split c xs
      else (case str_split c xs of [] \<Rightarrow> [[x]] | w # ws \<Rightarrow> (x # w) # ws))"

fun str_join :: "string \<Rightarrow> string list \<Rightarrow> string" where
  "str_join sep [] = []"
| "str_join sep [w] = w"
| "str_join sep (w # ws) = w @ sep @ str_join sep ws"

lemma str_split_not_Nil [simp]: "str_split c s \<noteq> []"
  by (induction s) (auto split: list.splits)

lemma str_split_no_sep: "c \<notin> set s \<Longrightarrow> str_split c s = [s]"
  by (induction s) auto

lemma str_split_append:
  "c \<notin> set w \<Longrightarrow> str_split c (w @ c # s) = w # str_split c s"
  by (induction w) auto

lemma str_join_Cons: "ws \<noteq> [] \<Longrightarrow> str_join sep (w # ws) = w @ sep @ str_join sep ws"
  by (cases ws) simp_all

lemma str_split_at: "str_split c (x @ c # w) = str_split c x @ str_split c w"
  by (induction x) (auto split: list.splits)

lemma str_split_join:
  "ws \<noteq> [] \<Longrightarrow> \<forall>w \<in> set ws. c \<notin> set w \<Longrightarrow> str_split c (str_join [c] ws) = ws"
proof (induction ws)
  case Nil
  then show ?case by simp
next
  case (Cons w ws)
  then show ?case
    by (cases "ws = []") (simp_all add: str_split_no_sep str_join_Cons str_split_append)
qed

lemma str_join_split: "str_join [c] (str_split c s) = s"
proof (induction s)
  case Nil
  then show ?case by simp
next
  case (Cons x xs)
  obtain w ws where "str_split c xs = w # ws"
    by (metis neq_Nil_conv str_split_not_Nil)
  with Cons show ?case
    by (cases ws) auto
qed

lemma str_split_pieces: "w \<in> set (str_split c s) \<Longrightarrow> c \<notin> set w"
proof (induction s arbitrary: w)
  case Nil
  then show ?case by simp
next
  case (Cons x xs)
  then show ?case
    by (auto split: if_splits list.splits)
qed

text \<open>\<open>s.startswith(p)\<close>, \<open>s.endswith(p)\<close> and \<open>p in s\<close>.\<close>

definition str_startswith :: "string \<Rightarrow> string \<Rightarrow> bool" where
  "str_startswith s p \<longleftrightarrow> take (length p) s = p"

definition str_endswith :: "string \<Rightarrow> string \<Rightarrow> bool" where
  "str_endswith s p \<longleftrightarrow> str_startswith (rev s) (rev p)"

fun str_contains :: "string \<Rightarrow> string \<Rightarrow> bool" where
  "str_contains [] p \<longleftrightarrow> p = []"
| "str_contains (c # s) p \<longleftrightarrow> str_startswith (c # s) p \<or> str_contains s p"

text \<open>\<open>str(n)\<close> of a natural number, and \<open>int(s)\<close> of a string.\<close>

definition digit_char :: "nat \<Rightarrow> char" where
  "digit_char d = char_of (48 + d)"

definition digit_val :: "char \<Rightarrow> nat option" where
  "digit_val c = (if (48::nat) \<le> of_char c \<and> of_char c \<le> (57::nat) then Some (of_char c - 48) else None)"

fun nat_str :: "nat \<Rightarrow> string" where
  "nat_str n = (if n < 10 then [digit_char n] else nat_str (n div 10) @ [digit_char (n mod 10)])"

declare nat_str.simps [simp del]

fun digits_val :: "nat \<Rightarrow> string \<Rightarrow> nat option" where
  "digits_val acc [] = Some acc"
| "digits_val acc (c # s) =
     (case digit_val c of None \<Rightarrow> None | Some d \<Rightarrow> digits_val (10 * acc + d) s)"

definition str_int :: "int \<Rightarrow> string" where
  "str_int n = (if n < 0 then CHR ''-'' # nat_str (nat (- n)) else nat_str (nat n))"

definition int_digits :: "string \<Rightarrow> int res" where
  "int_digits s = (if s = [] then Inl ValueError
     else case digits_val 0 s of None \<Rightarrow> Inl ValueError | Some n \<Rightarrow> Inr (int n))"

definition py_int :: "string \<Rightarrow> int res" where
  "py_int s = (case str_strip s of
     [] \<Rightarrow> Inl ValueError
   | c # t \<Rightarrow> if c = CHR ''-'' then res_bind (int_digits t) (\<lambda>n. Inr (- n))
              else if c = CHR ''+'' then int_digits t else int_digits (c # t))"

lemma digit_val_char: "d < 10 \<Longrightarrow> digit_val (digit_char d) = Some d"
  by (simp add: digit_val_def digit_char_def)

lemma digits_val_append:
  "digits_val acc (s @ t) = (case digits_val acc s of None \<Rightarrow> None | Some n \<Rightarrow> digits_val n t)"
  by (induction s arbitrary: acc) (auto split: option.splits)

lemma nat_str_ne [simp]: "nat_str n \<noteq> []"
  by (subst nat_str.simps) simp

lemma digits_val_nat_str: "digits_val 0 (nat_str n) = Some n"
proof (induction n rule: nat_str.induct)
  case (1 n)
  show ?case
  proof (cases "n < 10")
    case True
    then show ?thesis by (subst nat_str.simps) (simp add: digit_val_char)
  next
    case False
    with 1 show ?thesis
      by (subst nat_str.simps) (simp add: digits_val_append digit_val_char)
  qed
qed

lemma digit_char_cases: "d < 10 \<Longrightarrow> 48 \<le> (of_char (digit_char d) :: nat) \<and> of_char (digit_char d) < (58 :: nat)"
  by (simp add: digit_char_def)

lemma nat_str_digits: "c \<in> set (nat_str n) \<Longrightarrow> 48 \<le> (of_char c :: nat) \<and> of_char c < (58 :: nat)"
proof (induction n rule: nat_str.induct)
  case (1 n)
  show ?case
  proof (cases "n < 10")
    case True
    with 1 show ?thesis by (subst (asm) nat_str.simps) (simp add: digit_char_cases)
  next
    case False
    with 1 have "c \<in> set (nat_str (n div 10)) \<or> c = digit_char (n mod 10)"
      by (subst (asm) nat_str.simps) auto
    with 1 False show ?thesis by (auto simp: digit_char_cases)
  qed
qed

lemma nat_str_not_space: "c \<in> set (nat_str n) \<Longrightarrow> \<not> is_space c"
  using nat_str_digits [of c n] by (auto simp: is_space_def)

lemma dropWhile_all_not: "\<forall>x \<in> set xs. \<not> P x \<Longrightarrow> dropWhile P xs = xs"
  by (cases xs) simp_all

lemma str_strip_nat_str [simp]: "str_strip (nat_str n) = nat_str n"
  by (simp add: str_strip_def str_lstrip_def dropWhile_all_not nat_str_not_space)

lemma py_int_nat_str [simp]: "py_int (nat_str n) = Inr (int n)"
proof -
  obtain c t where ct: "nat_str n = c # t" by (metis neq_Nil_conv nat_str_ne)
  then have "48 \<le> (of_char c :: nat)" using nat_str_digits [of c n] by simp
  then have "c \<noteq> CHR ''-''" "c \<noteq> CHR ''+''" by auto
  moreover have "str_strip (c # t) = c # t" using str_strip_nat_str [of n] ct by simp
  ultimately show ?thesis
    using digits_val_nat_str [of n] ct by (simp add: py_int_def int_digits_def)
qed

lemma nat_str_not_dash: "CHR ''-'' \<notin> set (nat_str n)"
  using nat_str_digits [of "CHR ''-''" n] by auto

lemma nat_str_inj: "nat_str m = nat_str n \<longleftrightarrow> m = n"
  by (metis digits_val_nat_str option.inject)

text \<open>\<open>binascii.hexlify(s)\<close> and \<open>binascii.unhexlify(s)\<close>.\<close>

definition hex_char :: "nat \<Rightarrow> char" where
  "hex_char d = (if d < 10 then char_of (48 + d) else char_of (87 + d))"

definition hex_val :: "char \<Rightarrow> nat option" where
  "hex_val c =
     (if (48::nat) \<le> of_char c \<and> of_char c \<le> (57::nat) then Some (of_char c - 48)
      else if (97::nat) \<le> of_char c \<and> of_char c \<le> (102::nat) then Some (of_char c - 87)
      else if (65::nat) \<le> of_char c \<and> of_char c \<le> (70::nat) then Some (of_char c - 55)
      else None)"

definition hexlify :: "string \<Rightarrow> string" where
  "hexlify s = concat (map (\<lambda>c. [hex_char (of_char c div 16), hex_char (of_char c mod 16)]) s)"

fun unhexlify :: "string \<Rightarrow> string res" where
  "unhexlify [] = Inr []"
| "unhexlify [c] = Inl TypeError"
| "unhexlify (c # d # s) =
     (case (hex_val c, hex_val d) of
        (Some h, Some l) \<Rightarrow> res_bind (unhexlify s) (\<lambda>t. Inr (char_of (16 * h + l) # t))
      | _ \<Rightarrow> Inl TypeError)"

lemma hex_val_char: "d < 16 \<Longrightarrow> hex_val (hex_char d) = Some d"
  by (auto simp: hex_val_def hex_char_def)

lemma unhexlify_hexlify: "unhexlify (hexlify s) = Inr s"
proof (induction s)
  case Nil
  then show ?case by (simp add: hexlify_def)
next
  case (Cons c s)
  have "(of_char c :: nat) div 16 < 16"
    using of_char_less [of c] by (intro less_mult_imp_div_less) simp
  moreover have "16 * (of_char c div 16) + of_char c mod 16 = (of_char c :: nat)" by simp
  ultimately show ?case using Cons by (simp add: hexlify_def hex_val_char)
qed

lemma hexlify_inj: "hexlify s = hexlify t \<longleftrightarrow> s = t"
  by (metis unhexlify_hexlify sum.inject(2))

end
