(* ===== verification/Py_Net.thy ===== *)
theory Py_Net
  imports Py_Prelude
begin

text \<open>
  What boto uses of the network modules of Python's standard library: \<open>urllib.quote\<close> and
  \<open>unquote\<close>, \<open>base64\<close>, and \<open>urlparse\<close> (Python 2.7).
\<close>

section \<open>\<open>urllib.quote\<close> and \<open>urllib.unquote\<close>\<close>

definition is_digit :: "char \<Rightarrow> bool" where
  "is_digit c \<longleftrightarrow> (48::nat) \<le> of_char c \<and> of_char c \<le> (57::nat)"

definition is_upper_case :: "char \<Rightarrow> bool" where
  "is_upper_case c \<longleftrightarrow> (65::nat) \<le> of_char c \<and> of_char c \<le> (90::nat)"

definition is_lower_case :: "char \<Rightarrow> bool" where
  "is_lower_case c \<longleftrightarrow> (97::nat) \<le> of_char c \<and> of_char c \<le> (122::nat)"

definition is_alnum :: "char \<Rightarrow> bool" where
  "is_alnum c \<longleftrightarrow> is_digit c \<or> is_upper_case c \<or> is_lower_case c"

definition always_safe :: "char \<Rightarrow> bool" where
  "always_safe c \<longleftrightarrow> is_alnum c \<or> c \<in> set ''_.-''"

definition upper_hex :: "nat \<Rightarrow> char" where
  "upper_hex d = (if d < 10 then char_of (48 + d) else char_of (55 + d))"

definition quote_char :: "string \<Rightarrow> char \<Rightarrow> string" where
  "quote_char safe c =
     (if always_safe c \<or> c \<in> set safe then [c]
      else [CHR ''%'', upper_hex (of_char c div 16), upper_hex (of_char c mod 16)])"

definition quote :: "string \<Rightarrow> string \<Rightarrow> string" where
  "quote safe s = concat (map (quote_char safe) s)"

fun unquote :: "string \<Rightarrow> string" where
  "unquote (c # a # b # s) =
     (if c = CHR ''%'' then
        (case (hex_val a, hex_val b) of
           (Some h, Some l) \<Rightarrow> char_of (16 * h + l) # unquote s
         | _ \<Rightarrow> c # unquote (a # b # s))
      else c # unquote (a # b # s))"
| "unquote s = s"

lemma hex_val_upper: "d < 16 \<Longrightarrow> hex_val (upper_hex d) = Some d"
  by (auto simp: hex_val_def upper_hex_def)

lemma unquote_plain: "c \<noteq> CHR ''%'' \<Longrightarrow> unquote (c # s) = c # unquote s"
  by (cases s rule: unquote.cases) auto

lemma of_char_nibbles: "(of_char c :: nat) div 16 < 16" "16 * (of_char c div 16) + of_char c mod 16 = (of_char c :: nat)"
  using of_char_less [of c] by (auto intro: less_mult_imp_div_less)

lemma unquote_quote_char:
  assumes "CHR ''%'' \<notin> set safe"
  shows "unquote (quote_char safe c @ s) = c # unquote s"
proof (cases "always_safe c \<or> c \<in> set safe")
  case True
  then have "c \<noteq> CHR ''%''"
    using assms by (auto simp: always_safe_def is_alnum_def is_digit_def is_upper_case_def is_lower_case_def)
  then show ?thesis using True by (simp add: quote_char_def unquote_plain)
next
  case False
  then show ?thesis using of_char_nibbles [of c] by (simp add: quote_char_def hex_val_upper)
qed

text \<open>Quoting can be undone whenever \<open>%\<close> is not declared safe.\<close>

lemma unquote_quote_append: "CHR ''%'' \<notin> set safe \<Longrightarrow> unquote (quote safe s @ t) = s @ unquote t"
  by (induction s) (simp_all add: quote_def unquote_quote_char)

lemma unquote_quote: "CHR ''%'' \<notin> set safe \<Longrightarrow> unquote (quote safe s) = s"
  using unquote_quote_append [of safe s "[]"] by simp

lemma quote_inj: "CHR ''%'' \<notin> set safe \<Longrightarrow> quote safe s = quote safe t \<longleftrightarrow> s = t"
  by (metis unquote_quote)

lemma upper_hex_safe: "d < 16 \<Longrightarrow> always_safe (upper_hex d)"
  by (auto simp: upper_hex_def always_safe_def is_alnum_def is_digit_def is_upper_case_def)

lemma quote_chars:
  assumes "c \<in> set (quote safe s)"
  shows "always_safe c \<or> c \<in> set safe \<or> c = CHR ''%''"
proof -
  from assms obtain d where "c \<in> set (quote_char safe d)" by (auto simp: quote_def)
  then show ?thesis using of_char_nibbles(1) [of d]
    by (auto simp: quote_char_def upper_hex_safe split: if_splits)
qed

lemma quote_id: "\<forall>c \<in> set s. always_safe c \<or> c \<in> set safe \<Longrightarrow> quote safe s = s"
  by (induction s) (simp_all add: quote_def quote_char_def)

lemma quote_Nil [simp]: "quote safe [] = []"
  by (simp add: quote_def)

lemma quote_append: "quote safe (s @ t) = quote safe s @ quote safe t"
  by (simp add: quote_def)

section \<open>\<open>base64.b64encode\<close> and \<open>base64.encodestring\<close>\<close>

definition b64_char :: "nat \<Rightarrow> char" where
  "b64_char d = (''ABCDEFGHIJKLMNOPQRSTUVWXYZabcdefghijklmnopqrstuvwxyz0123456789+/'') ! d"

fun b64encode :: "string \<Rightarrow> string" where
  "b64encode [] = []"
| "b64encode [a] =
     (let x = of_char a * 16 in [b64_char (x div 64), b64_char (x mod 64), CHR ''='', CHR ''=''])"
| "b64encode [a, b] =
     (let x = (of_char a * 256 + of_char b) * 4
      in [b64_char (x div 4096), b64_char (x div 64 mod 64), b64_char (x mod 64), CHR ''=''])"
| "b64encode (a # b # c # s) =
     (let x = (of_char a * 256 + of_char b) * 256 + of_char c
      in b64_char (x div 262144) # b64_char (x div 4096 mod 64) # b64_char (x div 64 mod 64) # b64_char (x mod 64)
         # b64encode s)"

text \<open>\<open>encodestring\<close> encodes 57 bytes a line and ends every line with a newline.\<close>

definition encodestring :: "string \<Rightarrow> string" where
  "encodestring s = concat (map (\<lambda>p. b64encode p @ [CHR 0x0A]) (pieces 57 s))"

section \<open>\<open>urlparse.urlparse\<close>\<close>

definition scheme_char :: "char \<Rightarrow> bool" where
  "scheme_char c \<longleftrightarrow> is_alnum c \<or> c \<in> set ''+-.''"

definition uses_params :: "string set" where
  "uses_params = {'''', ''ftp'', ''hdl'', ''prospero'', ''http'', ''https'', ''shttp'', ''rtsp'', ''rtspu'',
     ''sip'', ''sips'', ''mms'', ''sftp'', ''tel''}"

text \<open>\<open>s.split(c, 1)\<close>: the parts before and after the first \<open>c\<close>, if there is one.\<close>

definition split_first :: "char \<Rightarrow> string \<Rightarrow> string \<times> string option" where
  "split_first c s = (takeWhile (\<lambda>x. x \<noteq> c) s,
     if c \<in> set s then Some (tl (dropWhile (\<lambda>x. x \<noteq> c) s)) else None)"

lemma split_first_sep: "c \<notin> set a \<Longrightarrow> split_first c (a @ c # b) = (a, Some b)"
  by (induction a) (auto simp: split_first_def)

definition url_scheme :: "string \<Rightarrow> string \<times> string" where
  "url_scheme url = (case split_first CHR '':'' url of
     (sch, Some rest) \<Rightarrow>
       if sch = ''http'' then (sch, rest)
       else if sch \<noteq> [] \<and> list_all scheme_char sch \<and> (rest = [] \<or> list_ex (\<lambda>c. \<not> is_digit c) rest)
       then (str_lower sch, rest) else ([], url)
   | (_, None) \<Rightarrow> ([], url))"

definition url_netloc :: "string \<Rightarrow> string \<times> string" where
  "url_netloc u =
     (if str_startswith u ''//'' then (takeWhile (\<lambda>c. c \<notin> set ''/?#'') (drop 2 u), dropWhile (\<lambda>c. c \<notin> set ''/?#'') (drop 2 u))
      else ([], u))"

text \<open>The parameters are those of the last segment of the path.\<close>

definition split_params :: "string \<Rightarrow> string \<times> string" where
  "split_params u =
     (let lst = rev (takeWhile (\<lambda>c. c \<noteq> CHR ''/'') (rev u));
          before = take (length u - length lst) u
      in case split_first CHR '';'' lst of
           (a, Some b) \<Rightarrow> (before @ a, b)
         | (_, None) \<Rightarrow> (u, []))"

record url =
  url_scheme_of :: string
  url_netloc_of :: string
  url_path_of :: string
  url_params_of :: string
  url_query_of :: string
  url_fragment_of :: string

definition urlparse :: "string \<Rightarrow> url res" where
  "urlparse s =
     (let (sch, r) = url_scheme s;
          (netloc, r) = url_netloc r;
          (r, frag) = split_first CHR ''#'' r;
          (r, query) = split_first CHR ''?'' r;
          (path, params) = (if sch \<in> uses_params \<and> CHR '';'' \<in> set r then split_params r else (r, []))
      in if (CHR ''['' \<in> set netloc) \<noteq> (CHR '']'' \<in> set netloc) then Inl ValueError
         else Inr \<lparr>url_scheme_of = sch, url_netloc_of = netloc, url_path_of = path, url_params_of = params,
                   url_query_of = (case query of None \<Rightarrow> [] | Some q \<Rightarrow> q),
                   url_fragment_of = (case frag of None \<Rightarrow> [] | Some f \<Rightarrow> f)\<rparr>)"

section \<open>UTF-8\<close>

text \<open>
  Whether \<open>s.decode('utf-8')\<close> succeeds, by the rules of Python 2.7 (which lets surrogates pass).
\<close>

definition in_range :: "nat \<Rightarrow> nat \<Rightarrow> char \<Rightarrow> bool" where
  "in_range a b c \<longleftrightarrow> a \<le> of_char c \<and> of_char c \<le> b"

fun utf8_valid :: "string \<Rightarrow> bool" where
  "utf8_valid [] \<longleftrightarrow> True"
| "utf8_valid (a # s) \<longleftrightarrow>
     (if in_range 0 127 a then utf8_valid s
      else if in_range 194 223 a then
        (case s of b # t \<Rightarrow> in_range 128 191 b \<and> utf8_valid t | _ \<Rightarrow> False)
      else if in_range 224 239 a then
        (case s of b # c # t \<Rightarrow> in_range (if of_char a = (224 :: nat) then 160 else 128) 191 b \<and> in_range 128 191 c \<and> utf8_valid t
         | _ \<Rightarrow> False)
      else if in_range 240 244 a then
        (case s of b # c # d # t \<Rightarrow> in_range (if of_char a = (240 :: nat) then 144 else 128) (if of_char a = (244 :: nat) then 143 else 191) b
           \<and> in_range 128 191 c \<and> in_range 128 191 d \<and> utf8_valid t
         | _ \<Rightarrow> False)
      else False)"

lemma utf8_valid_ascii: "\<forall>c \<in> set s. of_char c < (128 :: nat) \<Longrightarrow> utf8_valid s"
  by (induction s) (auto simp: in_range_def)

text \<open>
  \<open>s.encode('utf-8')\<close> of a byte string: Python 2 decodes it as ASCII first.
\<close>

definition py2_encode :: "string \<Rightarrow> string res" where
  "py2_encode s = (if list_all (\<lambda>c. of_char c < (128 :: nat)) s then Inr s else Inl UnicodeDecodeError)"

end
