(* ===== verification/Utils_LRU.thy ===== *)
theory Utils_LRU
  imports Py_Prelude
begin

text \<open>
  \<open>LRUCache\<close> of \<^verbatim>\<open>boto/utils.py\<close>: a dictionary of items that are also linked, in both directions,
  from the most to the least recently used.  The items are objects with mutable links, so the
  state has an explicit store from addresses to items.

  The specification is a list of entries, most recently used first.  The locale \<open>cache\<close> is the
  contract of a bounded cache towards its client; the linked structure is its interpretation.
\<close>

section \<open>The linked cache\<close>

record ('k, 'v) item =
  previous :: "nat option"
  next_item :: "nat option"
  item_key :: 'k
  item_value :: 'v

record ('k, 'v) lru =
  heap :: "nat \<Rightarrow> ('k, 'v) item option"
  fresh :: nat
  dict_items :: "('k, nat) dict"
  capacity :: nat
  head :: "nat option"
  tail :: "nat option"

definition lru_init :: "nat \<Rightarrow> ('k, 'v) lru" where
  "lru_init n = \<lparr>heap = (\<lambda>_. None), fresh = 0, dict_items = [], capacity = n, head = None, tail = None\<rparr>"

text \<open>The item a reference points to; an attribute of \<open>None\<close> is an \<open>AttributeError\<close>.\<close>

definition deref :: "('k, 'v) lru \<Rightarrow> nat option \<Rightarrow> ('k, 'v) item res" where
  "deref c p = (case p of None \<Rightarrow> Inl AttributeError
     | Some a \<Rightarrow> (case heap c a of None \<Rightarrow> Inl AttributeError | Some it \<Rightarrow> Inr it))"

text \<open>\<open>p.previous = q\<close> and \<open>p.next = q\<close>.\<close>

definition set_previous :: "nat option \<Rightarrow> nat option \<Rightarrow> ('k, 'v) lru \<Rightarrow> ('k, 'v) lru res" where
  "set_previous p q c = res_bind (deref c p) (\<lambda>it. Inr (c\<lparr>heap := (heap c)(the p \<mapsto> it\<lparr>previous := q\<rparr>)\<rparr>))"

definition set_next :: "nat option \<Rightarrow> nat option \<Rightarrow> ('k, 'v) lru \<Rightarrow> ('k, 'v) lru res" where
  "set_next p q c = res_bind (deref c p) (\<lambda>it. Inr (c\<lparr>heap := (heap c)(the p \<mapsto> it\<lparr>next_item := q\<rparr>)\<rparr>))"

lemma length_delete_less: "map_of xs k = Some v \<Longrightarrow> length (AList.delete k xs) < length xs"
  by (induction xs) (auto simp: AList.delete_eq split: if_splits intro: le_less_trans [OF length_filter_le])

lemma set_next_dict: "set_next p q c = Inr c' \<Longrightarrow> dict_items c' = dict_items c"
  by (auto simp: set_next_def res_bind_Inr_iff)

function manage_size :: "('k, 'v) lru \<Rightarrow> ('k, 'v) lru res" where
  "manage_size c =
     (if length (dict_items c) \<le> capacity c then Inr c
      else case deref c (tail c) of
        Inl e \<Rightarrow> Inl e
      | Inr t \<Rightarrow>
          (case map_of (dict_items c) (item_key t) of
             None \<Rightarrow> Inl KeyError
           | Some _ \<Rightarrow>
             (let c1 = c\<lparr>dict_items := AList.delete (item_key t) (dict_items c)\<rparr>
              in if tail c \<noteq> head c
                 then (case set_next (previous t) None (c1\<lparr>tail := previous t\<rparr>) of
                         Inl e \<Rightarrow> Inl e | Inr c2 \<Rightarrow> manage_size c2)
                 else manage_size (c1\<lparr>head := None, tail := None\<rparr>))))"
  by pat_completeness auto
termination
  by (relation "measure (\<lambda>c. length (dict_items c))")
    (auto simp: length_delete_less dest: set_next_dict)

declare manage_size.simps [simp del]

definition insert_item :: "nat \<Rightarrow> ('k, 'v) lru \<Rightarrow> ('k, 'v) lru res" where
  "insert_item a c =
     res_bind (set_previous (Some a) None c) (\<lambda>c.
     res_bind (set_next (Some a) (head c) c) (\<lambda>c.
     res_bind (if head c \<noteq> None then set_previous (head c) (Some a) c else Inr (c\<lparr>tail := Some a\<rparr>)) (\<lambda>c.
       manage_size (c\<lparr>head := Some a\<rparr>))))"

definition update_item :: "nat \<Rightarrow> ('k, 'v) lru \<Rightarrow> ('k, 'v) lru res" where
  "update_item a c =
     (if head c = Some a then Inr c
      else res_bind (deref c (Some a)) (\<lambda>it.
        let prev = previous it
        in res_bind (set_next prev (next_item it) c) (\<lambda>c.
           res_bind (if next_item it \<noteq> None then set_previous (next_item it) prev c else Inr (c\<lparr>tail := prev\<rparr>)) (\<lambda>c.
           res_bind (set_previous (Some a) None c) (\<lambda>c.
           res_bind (set_next (Some a) (head c) c) (\<lambda>c.
           res_bind (set_previous (head c) (Some a) c) (\<lambda>c.
             Inr (c\<lparr>head := Some a\<rparr>))))))))"

definition lru_contains :: "'k \<Rightarrow> ('k, 'v) lru \<Rightarrow> bool" where
  "lru_contains k c \<longleftrightarrow> map_of (dict_items c) k \<noteq> None"

definition lru_len :: "('k, 'v) lru \<Rightarrow> nat" where
  "lru_len c = length (dict_items c)"

text \<open>The iterator follows the links; a cycle would keep it going, which the count bounds.\<close>

fun lru_iter_from :: "nat \<Rightarrow> nat option \<Rightarrow> ('k, 'v) lru \<Rightarrow> 'k list res" where
  "lru_iter_from n None c = Inr []"
| "lru_iter_from 0 (Some a) c = Inl Diverges"
| "lru_iter_from (Suc n) (Some a) c =
     res_bind (deref c (Some a)) (\<lambda>it. res_bind (lru_iter_from n (next_item it) c) (\<lambda>ks. Inr (item_key it # ks)))"

definition lru_iter :: "('k, 'v) lru \<Rightarrow> 'k list res" where
  "lru_iter c = lru_iter_from (fresh c) (head c) c"

definition lru_getitem :: "'k \<Rightarrow> (('k, 'v) lru, 'v) py" where
  "lru_getitem k c =
     (case map_of (dict_items c) k of
        None \<Rightarrow> (Inl KeyError, c)
      | Some a \<Rightarrow>
        (case update_item a c of
           Inl e \<Rightarrow> (Inl e, c)
         | Inr c' \<Rightarrow> (res_bind (deref c' (Some a)) (\<lambda>it. Inr (item_value it)), c')))"

definition lru_setitem :: "'k \<Rightarrow> 'v \<Rightarrow> (('k, 'v) lru, unit) py" where
  "lru_setitem k v c =
     (case map_of (dict_items c) k of
        None \<Rightarrow>
          (let a = fresh c;
               c1 = c\<lparr>heap := (heap c)(a \<mapsto> \<lparr>previous = None, next_item = None, item_key = k, item_value = v\<rparr>),
                      fresh := a + 1, dict_items := AList.update k a (dict_items c)\<rparr>
           in (case insert_item a c1 of Inl e \<Rightarrow> (Inl e, c1) | Inr c2 \<Rightarrow> (Inr (), c2)))
      | Some a \<Rightarrow>
          (case deref c (Some a) of
             Inl e \<Rightarrow> (Inl e, c)
           | Inr it \<Rightarrow>
             (let c1 = c\<lparr>heap := (heap c)(a \<mapsto> it\<lparr>item_value := v\<rparr>)\<rparr>
              in (case res_bind (update_item a c1) manage_size of
                    Inl e \<Rightarrow> (Inl e, c1) | Inr c2 \<Rightarrow> (Inr (), c2)))))"

section \<open>Linked segments\<close>

text \<open>
  The items \<open>xs\<close> are linked in this order, starting at \<open>p\<close>, between an item \<open>pr\<close> before and an
  item \<open>nx\<close> after them.
\<close>

fun lseg :: "(nat \<Rightarrow> ('k, 'v) item option) \<Rightarrow> nat option \<Rightarrow> nat option \<Rightarrow> nat list \<Rightarrow> nat option \<Rightarrow> bool" where
  "lseg h pr p [] nx \<longleftrightarrow> p = nx"
| "lseg h pr p (a # xs) nx \<longleftrightarrow> p = Some a
     \<and> (\<exists>it. h a = Some it \<and> previous it = pr \<and> lseg h (Some a) (next_item it) xs nx)"

definition last_of :: "nat option \<Rightarrow> nat list \<Rightarrow> nat option" where
  "last_of pr xs = (if xs = [] then pr else Some (last xs))"

lemma last_of_simps [simp]: "last_of pr [] = pr" "last_of pr (a # xs) = last_of (Some a) xs"
  by (simp_all add: last_of_def)

lemma lseg_append:
  "lseg h pr p (xs @ ys) nx \<longleftrightarrow> (\<exists>m. lseg h pr p xs m \<and> lseg h (last_of pr xs) m ys nx)"
  by (induction xs arbitrary: pr p) auto

lemma lseg_frame: "a \<notin> set xs \<Longrightarrow> lseg (h(a := x)) pr p xs nx = lseg h pr p xs nx"
  by (induction xs arbitrary: pr p) auto

lemma lseg_alive: "lseg h pr p xs nx \<Longrightarrow> a \<in> set xs \<Longrightarrow> \<exists>it. h a = Some it"
  by (induction xs arbitrary: pr p) auto

lemma lseg_set_next:
  "lseg h pr p (xs @ [b]) nx \<Longrightarrow> distinct (xs @ [b]) \<Longrightarrow> h b = Some it \<Longrightarrow>
    lseg (h(b \<mapsto> it\<lparr>next_item := q\<rparr>)) pr p (xs @ [b]) q"
  by (auto simp: lseg_append lseg_frame)

lemma lseg_set_previous:
  "lseg h pr p (b # ys) nx \<Longrightarrow> distinct (b # ys) \<Longrightarrow> h b = Some it \<Longrightarrow>
    lseg (h(b \<mapsto> it\<lparr>previous := q\<rparr>)) q p (b # ys) nx"
  by (auto simp: lseg_frame)

section \<open>The invariant\<close>

text \<open>The entry stored at an address; changing links leaves it as it is.\<close>

definition entry_at :: "(nat \<Rightarrow> ('k, 'v) item option) \<Rightarrow> nat \<Rightarrow> ('k \<times> 'v) option" where
  "entry_at h a = map_option (\<lambda>it. (item_key it, item_value it)) (h a)"

lemma entry_at_links [simp]:
  "h a = Some it \<Longrightarrow> entry_at (h(a \<mapsto> it\<lparr>previous := q\<rparr>)) = entry_at h"
  "h a = Some it \<Longrightarrow> entry_at (h(a \<mapsto> it\<lparr>next_item := q\<rparr>)) = entry_at h"
  by (auto simp: entry_at_def fun_eq_iff)

definition indexes :: "(nat \<Rightarrow> ('k \<times> 'v) option) \<Rightarrow> ('k, nat) dict \<Rightarrow> nat list \<Rightarrow> bool" where
  "indexes ent d as \<longleftrightarrow> distinct (map fst d)
     \<and> (\<forall>k a. map_of d k = Some a \<longleftrightarrow> a \<in> set as \<and> (\<exists>v. ent a = Some (k, v)))"

definition linked :: "('k, 'v) lru \<Rightarrow> nat list \<Rightarrow> bool" where
  "linked c as \<longleftrightarrow> lseg (heap c) None (head c) as None \<and> tail c = last_of None as \<and> distinct as
     \<and> (\<forall>a \<in> set as. a < fresh c) \<and> indexes (entry_at (heap c)) (dict_items c) as"

definition entries :: "('k, 'v) lru \<Rightarrow> nat list \<Rightarrow> ('k \<times> 'v) list" where
  "entries c as = map (the \<circ> entry_at (heap c)) as"

lemma linked_entry:
  assumes "linked c as" and "a \<in> set as"
  shows "\<exists>it. heap c a = Some it \<and> entry_at (heap c) a = Some (item_key it, item_value it)"
proof -
  from assms have "lseg (heap c) None (head c) as None" by (simp add: linked_def)
  from lseg_alive [OF this assms(2)] show ?thesis by (auto simp: entry_at_def)
qed

lemma linked_index:
  "linked c as \<Longrightarrow> a \<in> set as \<Longrightarrow> heap c a = Some it \<Longrightarrow> map_of (dict_items c) (item_key it) = Some a"
  by (auto simp: linked_def indexes_def entry_at_def)

lemma indexes_length:
  assumes "indexes ent d as" and "distinct as" and "\<forall>a \<in> set as. \<exists>k v. ent a = Some (k, v)"
  shows "length d = length as"
proof -
  have keys: "distinct (map fst d)" using assms(1) by (simp add: indexes_def)
  then have "distinct d" by (simp add: distinct_map)
  have d: "(k, a) \<in> set d \<longleftrightarrow> a \<in> set as \<and> (\<exists>v. ent a = Some (k, v))" for k a
    using assms(1) map_of_eq_Some_iff [OF keys, of k a] by (simp add: indexes_def)
  have "inj_on snd (set d)"
  proof (rule inj_onI)
    fix x y assume "x \<in> set d" "y \<in> set d" "snd x = snd y"
    from \<open>x \<in> set d\<close> have "(fst x, snd x) \<in> set d" by simp
    moreover from \<open>y \<in> set d\<close> have "(fst y, snd y) \<in> set d" by simp
    ultimately obtain v w where "ent (snd x) = Some (fst x, v)" "ent (snd x) = Some (fst y, w)"
      using \<open>snd x = snd y\<close> d [of "fst x" "snd x"] d [of "fst y" "snd y"] by auto
    with \<open>snd x = snd y\<close> show "x = y" by (simp add: prod_eq_iff)
  qed
  moreover have "snd ` set d = set as"
  proof (intro equalityI subsetI)
    fix a assume "a \<in> set as"
    with assms(3) obtain k v where "ent a = Some (k, v)" by blast
    with d [of k a] \<open>a \<in> set as\<close> have "(k, a) \<in> set d" by blast
    then show "a \<in> snd ` set d" by force
  next
    fix a assume "a \<in> snd ` set d"
    then obtain k where "(k, a) \<in> set d" by force
    with d [of k a] show "a \<in> set as" by blast
  qed
  ultimately have "card (set d) = card (set as)" by (metis card_image)
  with \<open>distinct d\<close> assms(2) show ?thesis by (metis distinct_card)
qed

lemma linked_length:
  assumes "linked c as"
  shows "length (dict_items c) = length as"
proof (rule indexes_length)
  show "indexes (entry_at (heap c)) (dict_items c) as" "distinct as" using assms by (simp_all add: linked_def)
  show "\<forall>a \<in> set as. \<exists>k v. entry_at (heap c) a = Some (k, v)" using linked_entry [OF assms] by blast
qed

section \<open>The operations on linked lists\<close>

lemma indexes_delete:
  assumes "indexes ent d (as @ [b])" and "distinct (as @ [b])" and "ent b = Some (k, v)"
  shows "indexes ent (AList.delete k d) as"
proof -
  have all: "map_of d k' = Some a \<longleftrightarrow> a \<in> set (as @ [b]) \<and> (\<exists>v. ent a = Some (k', v))" for k' a
    using assms(1) by (simp add: indexes_def)
  have other: "k' \<noteq> k" if "a \<in> set as" "ent a = Some (k', v')" for a k' v'
  proof
    assume "k' = k"
    with all [of k a] all [of k b] that assms(3) have "a = b" by auto
    with that(1) assms(2) show False by auto
  qed
  show ?thesis
    unfolding indexes_def
  proof (intro conjI allI)
    show "distinct (map fst (AList.delete k d))" using assms(1) by (simp add: indexes_def distinct_delete)
    fix k' a show "map_of (AList.delete k d) k' = Some a \<longleftrightarrow> a \<in> set as \<and> (\<exists>v. ent a = Some (k', v))"
      using all [of k' a] other [of a k'] assms(3) by (auto simp: delete_conv')
  qed
qed

text \<open>Dropping the least recently used item keeps the others linked.\<close>

lemma lseg_drop_last:
  assumes "lseg h pr p (as @ [b]) None" and "distinct (as @ [b])" and "as \<noteq> []" and "h (last as) = Some it"
  shows "lseg (h(last as \<mapsto> it\<lparr>next_item := None\<rparr>)) pr p as None"
proof -
  obtain m where m: "lseg h pr p as m" using assms(1) by (auto simp: lseg_append)
  obtain xs a where as: "as = xs @ [a]" using assms(3) by (cases as rule: rev_cases) auto
  show ?thesis using lseg_set_next [of h pr p xs a m it None] m assms as by simp
qed

lemma lseg_last_previous:
  "lseg h pr p (as @ [b]) None \<Longrightarrow> h b = Some it \<Longrightarrow> previous it = last_of pr as"
  by (auto simp: lseg_append)

lemma last_of_snoc [simp]: "last_of pr (as @ [b]) = Some b"
  by (simp add: last_of_def)

lemma manage_size_step:
  assumes "linked c (as @ [b])" and "capacity c < length (as @ [b])"
  shows "\<exists>c'. manage_size c = manage_size c' \<and> linked c' as \<and> capacity c' = capacity c
           \<and> entries c' as = entries c as"
proof -
  have dist: "distinct (as @ [b])" and seg: "lseg (heap c) None (head c) (as @ [b]) None"
    and tl: "tail c = Some b" and idx: "indexes (entry_at (heap c)) (dict_items c) (as @ [b])"
    and fr: "\<forall>a \<in> set (as @ [b]). a < fresh c"
    using assms(1) by (simp_all add: linked_def)
  obtain t where t: "heap c b = Some t" and et: "entry_at (heap c) b = Some (item_key t, item_value t)"
    using linked_entry [OF assms(1), of b] by auto
  have k: "map_of (dict_items c) (item_key t) = Some b" using linked_index [OF assms(1) _ t] by simp
  have long: "\<not> length (dict_items c) \<le> capacity c" using linked_length [OF assms(1)] assms(2) by simp
  have pt: "previous t = last_of None as" using lseg_last_previous [OF seg t] .
  define d where "d = AList.delete (item_key t) (dict_items c)"
  have idx': "indexes (entry_at (heap c)) d as"
    unfolding d_def by (rule indexes_delete [OF idx dist et])
  show ?thesis
  proof (cases "as = []")
    case True
    then have hd: "head c = Some b" using seg by simp
    have "manage_size c = manage_size (c\<lparr>dict_items := d, head := None, tail := None\<rparr>)"
      using long tl t k hd by (subst manage_size.simps) (simp add: deref_def d_def Let_def)
    moreover have "linked (c\<lparr>dict_items := d, head := None, tail := None\<rparr>) []"
      using idx' True by (simp add: linked_def)
    ultimately show ?thesis using True by (intro exI [of _ "c\<lparr>dict_items := d, head := None, tail := None\<rparr>"])
        (simp add: entries_def)
  next
    case False
    then have hd: "head c \<noteq> Some b" using seg dist by (cases as) auto
    have pl: "previous t = Some (last as)" using pt False by (simp add: last_of_def)
    obtain l where l: "heap c (last as) = Some l"
      using linked_entry [OF assms(1), of "last as"] False by auto
    define c' where "c' = c\<lparr>dict_items := d, tail := Some (last as),
        heap := (heap c)(last as \<mapsto> l\<lparr>next_item := None\<rparr>)\<rparr>"
    have "manage_size c = manage_size c'"
      using long tl t k hd pl l by (subst manage_size.simps) (simp add: deref_def d_def Let_def set_next_def c'_def)
    moreover have "linked c' as"
      using lseg_drop_last [OF seg dist False l] idx' dist fr l False
      by (simp add: linked_def c'_def last_of_def)
    moreover have "entries c' as = entries c as" using l by (simp add: entries_def c'_def)
    ultimately show ?thesis by (intro exI [of _ c']) (simp add: c'_def)
  qed
qed

lemma manage_size_small: "linked c as \<Longrightarrow> length as \<le> capacity c \<Longrightarrow> manage_size c = Inr c"
  by (subst manage_size.simps) (simp add: linked_length)

text \<open>\<open>_manage_size\<close> keeps the \<open>capacity\<close> most recently used items.\<close>

lemma manage_size_linked:
  assumes "linked c as"
  shows "\<exists>c'. manage_size c = Inr c' \<and> linked c' (take (capacity c) as) \<and> capacity c' = capacity c
           \<and> entries c' (take (capacity c) as) = take (capacity c) (entries c as)"
  using assms
proof (induction as arbitrary: c rule: rev_induct)
  case Nil
  then show ?case by (intro exI [of _ c]) (simp add: manage_size_small entries_def)
next
  case (snoc b as)
  show ?case
  proof (cases "capacity c < length (as @ [b])")
    case False
    with snoc.prems show ?thesis by (intro exI [of _ c]) (simp add: manage_size_small entries_def)
  next
    case True
    from manage_size_step [OF snoc.prems True] obtain c1 where c1: "manage_size c = manage_size c1"
      "linked c1 as" "capacity c1 = capacity c" "entries c1 as = entries c as" by blast
    from snoc.IH [OF c1(2)] obtain c2 where c2: "manage_size c1 = Inr c2" "linked c2 (take (capacity c) as)"
      "capacity c2 = capacity c" "entries c2 (take (capacity c) as) = take (capacity c) (entries c as)"
      using c1 by auto
    with c1(1) True show ?thesis by (intro exI [of _ c2]) (simp add: entries_def)
  qed
qed

text \<open>Linking an item in front, as \<open>_insert_item\<close> and \<open>_update_item\<close> do.\<close>

definition chain :: "('k, 'v) lru \<Rightarrow> nat list \<Rightarrow> bool" where
  "chain c as \<longleftrightarrow> lseg (heap c) None (head c) as None \<and> tail c = last_of None as \<and> distinct as"

definition same_entries :: "('k, 'v) lru \<Rightarrow> ('k, 'v) lru \<Rightarrow> bool" where
  "same_entries c c' \<longleftrightarrow> entry_at (heap c') = entry_at (heap c) \<and> dict_items c' = dict_items c
     \<and> fresh c' = fresh c \<and> capacity c' = capacity c"

lemma linked_chain: "linked c as \<longleftrightarrow> chain c as \<and> (\<forall>a \<in> set as. a < fresh c) \<and> indexes (entry_at (heap c)) (dict_items c) as"
  by (auto simp: linked_def chain_def)

lemma same_entries_trans: "same_entries c c' \<Longrightarrow> same_entries c' c'' \<Longrightarrow> same_entries c c''"
  by (simp add: same_entries_def)

lemma same_entries_alive: "same_entries c c' \<Longrightarrow> heap c a = Some it \<Longrightarrow>
    \<exists>it'. heap c' a = Some it' \<and> item_key it' = item_key it \<and> item_value it' = item_value it"
  by (auto simp: same_entries_def entry_at_def fun_eq_iff map_option_case split: option.splits)
     (metis option.distinct(1) option.inject prod.inject)

definition link_front :: "nat \<Rightarrow> ('k, 'v) lru \<Rightarrow> ('k, 'v) lru res" where
  "link_front a c =
     res_bind (set_previous (Some a) None c) (\<lambda>c.
     res_bind (set_next (Some a) (head c) c) (\<lambda>c.
     res_bind (if head c \<noteq> None then set_previous (head c) (Some a) c else Inr (c\<lparr>tail := Some a\<rparr>)) (\<lambda>c.
       Inr (c\<lparr>head := Some a\<rparr>))))"

lemma insert_item_link: "insert_item a c = res_bind (link_front a c) manage_size"
  by (simp add: insert_item_def link_front_def res_bind_assoc)

lemma link_front_chain:
  assumes "chain c as" and "a \<notin> set as" and "heap c a = Some it"
  shows "\<exists>c'. link_front a c = Inr c' \<and> chain c' (a # as) \<and> same_entries c c'"
proof (cases as)
  case Nil
  define c' where "c' = c\<lparr>heap := (heap c)(a \<mapsto> it\<lparr>previous := None, next_item := None\<rparr>), tail := Some a, head := Some a\<rparr>"
  have "link_front a c = Inr c'" and "chain c' (a # as)" and "same_entries c c'"
    using assms Nil by (auto simp: link_front_def set_previous_def set_next_def deref_def c'_def chain_def
        same_entries_def entry_at_def fun_eq_iff)
  then show ?thesis by blast
next
  case (Cons b bs)
  then have hd: "head c = Some b" and ab: "a \<noteq> b" using assms by (auto simp: chain_def)
  obtain it2 where b: "heap c b = Some it2" using assms(1) Cons by (auto simp: chain_def)
  define c' where "c' = c\<lparr>heap := (heap c)(a \<mapsto> it\<lparr>previous := None, next_item := Some b\<rparr>,
      b \<mapsto> it2\<lparr>previous := Some a\<rparr>), head := Some a\<rparr>"
  have "link_front a c = Inr c'"
    using assms hd b ab by (simp add: link_front_def set_previous_def set_next_def deref_def c'_def)
  moreover have "chain c' (a # as)"
    using assms Cons hd b ab lseg_set_previous [of "heap c" None "Some b" b bs None it2 "Some a"]
    by (auto simp: chain_def c'_def lseg_frame fun_upd_twist)
  moreover have "same_entries c c'"
    using assms b by (auto simp: same_entries_def c'_def entry_at_def fun_eq_iff)
  ultimately show ?thesis by blast
qed

text \<open>Unlinking an item that is not the first.\<close>

definition unlink :: "nat \<Rightarrow> ('k, 'v) lru \<Rightarrow> ('k, 'v) lru res" where
  "unlink a c = res_bind (deref c (Some a)) (\<lambda>it.
     res_bind (set_next (previous it) (next_item it) c) (\<lambda>c.
       if next_item it \<noteq> None then set_previous (next_item it) (previous it) c else Inr (c\<lparr>tail := previous it\<rparr>)))"

lemma set_heads: "set_next p q c = Inr c' \<Longrightarrow> head c' = head c" "set_previous p q c = Inr c' \<Longrightarrow> head c' = head c"
  by (auto simp: set_next_def set_previous_def res_bind_Inr_iff)

lemma unlink_head: "unlink a c = Inr c' \<Longrightarrow> head c' = head c"
  by (auto simp: unlink_def res_bind_Inr_iff set_next_def set_previous_def split: if_splits)

lemma link_front_nonempty: "head c \<noteq> None \<Longrightarrow> link_front a c =
     res_bind (set_previous (Some a) None c) (\<lambda>c.
     res_bind (set_next (Some a) (head c) c) (\<lambda>c.
     res_bind (set_previous (head c) (Some a) c) (\<lambda>c. Inr (c\<lparr>head := Some a\<rparr>))))"
  unfolding link_front_def
  by (cases "set_previous (Some a) None c"; simp; cases "set_next (Some a) (head (projr (set_previous (Some a) None c))) (projr (set_previous (Some a) None c))")
     (auto dest!: set_heads)

lemma update_item_link:
  assumes "head c \<noteq> Some a" and "unlink a c = Inr c1" and "head c \<noteq> None"
  shows "update_item a c = link_front a c1"
proof -
  have "head c1 \<noteq> None" using unlink_head [OF assms(2)] assms(3) by simp
  moreover have "update_item a c = res_bind (unlink a c) (\<lambda>c.
     res_bind (set_previous (Some a) None c) (\<lambda>c.
     res_bind (set_next (Some a) (head c) c) (\<lambda>c.
     res_bind (set_previous (head c) (Some a) c) (\<lambda>c. Inr (c\<lparr>head := Some a\<rparr>)))))"
    using assms(1) by (simp add: update_item_def unlink_def res_bind_assoc Let_def)
  ultimately show ?thesis using assms(2) by (simp add: link_front_nonempty)
qed

lemma lseg_next:
  "lseg h pr p (xs @ a # ys) nx \<Longrightarrow> h a = Some it \<Longrightarrow> next_item it = (if ys = [] then nx else Some (hd ys))"
  by (cases ys) (auto simp: lseg_append)

lemma unlink_chain:
  assumes "chain c (xs @ a # ys)" and "xs \<noteq> []"
  shows "\<exists>c'. unlink a c = Inr c' \<and> chain c' (xs @ ys) \<and> same_entries c c'"
proof -
  obtain zs b where xs: "xs = zs @ [b]" using assms(2) by (cases xs rule: rev_cases) auto
  have seg: "lseg (heap c) None (head c) ((zs @ [b]) @ a # ys) None" and dist: "distinct ((zs @ [b]) @ a # ys)"
    using assms(1) xs by (simp_all add: chain_def)
  obtain itb where b: "heap c b = Some itb" using lseg_alive [OF seg, of b] by auto
  obtain ita where a: "heap c a = Some ita" using lseg_alive [OF seg, of a] by auto
  from seg obtain m where first: "lseg (heap c) None (head c) (zs @ [b]) m" and
      rest: "lseg (heap c) (Some b) m (a # ys) None" unfolding lseg_append by auto
  have pa: "previous ita = Some b" and ys: "lseg (heap c) (Some a) (next_item ita) ys None"
    using rest a by auto
  define h1 where "h1 = (heap c)(b \<mapsto> itb\<lparr>next_item := next_item ita\<rparr>)"
  have first1: "lseg h1 None (head c) (zs @ [b]) (next_item ita)"
    unfolding h1_def using lseg_set_next [OF first _ b] dist by auto
  have ys1: "lseg h1 (Some a) (next_item ita) ys None"
    unfolding h1_def using ys dist by (simp add: lseg_frame)
  have ent1: "entry_at h1 = entry_at (heap c)" unfolding h1_def using b by simp
  show ?thesis
  proof (cases ys)
    case Nil
    define c' where "c' = c\<lparr>heap := h1, tail := Some b\<rparr>"
    have "unlink a c = Inr c'" using a b pa ys Nil
      by (simp add: unlink_def deref_def set_next_def c'_def h1_def)
    moreover have "chain c' (xs @ ys)" using first1 ys1 dist xs Nil by (simp add: chain_def c'_def)
    moreover have "same_entries c c'" using ent1 by (simp add: same_entries_def c'_def)
    ultimately show ?thesis by blast
  next
    case (Cons y ws)
    then have na: "next_item ita = Some y" using ys by simp
    obtain ity where y: "h1 y = Some ity" using ys1 Cons by auto
    define c' where "c' = c\<lparr>heap := h1(y \<mapsto> ity\<lparr>previous := Some b\<rparr>)\<rparr>"
    have un: "unlink a c = Inr c'" using a b pa na y
      by (auto simp: unlink_def deref_def set_next_def set_previous_def c'_def h1_def)
    have "lseg (h1(y \<mapsto> ity\<lparr>previous := Some b\<rparr>)) (Some b) (Some y) ys None"
      using lseg_set_previous [of h1 "Some a" "Some y" y ws None ity "Some b"] ys1 na y Cons dist by simp
    moreover have "lseg (h1(y \<mapsto> ity\<lparr>previous := Some b\<rparr>)) None (head c) (zs @ [b]) (Some y)"
      using first1 na dist Cons by (subst lseg_frame) auto
    ultimately have "lseg (heap c') None (head c) ((zs @ [b]) @ ys) None"
      unfolding lseg_append [of _ _ _ "zs @ [b]"] by (intro exI [of _ "Some y"]) (simp add: c'_def)
    then have "chain c' (xs @ ys)" using assms(1) xs Cons by (simp add: chain_def c'_def last_of_def)
    moreover have "same_entries c c'" using ent1 y by (simp add: same_entries_def c'_def)
    ultimately show ?thesis using un by blast
  qed
qed

text \<open>\<open>_update_item\<close> moves an item to the front and changes nothing else.\<close>

lemma update_item_linked:
  assumes "linked c (xs @ a # ys)"
  shows "\<exists>c'. update_item a c = Inr c' \<and> linked c' (a # xs @ ys) \<and> same_entries c c'"
proof (cases "xs = []")
  case True
  then have "head c = Some a" using assms by (simp add: linked_def)
  then show ?thesis using assms True
    by (intro exI [of _ c]) (simp add: update_item_def same_entries_def)
next
  case False
  have ch: "chain c (xs @ a # ys)" using assms by (simp add: linked_chain)
  then have hd: "head c \<noteq> Some a" "head c \<noteq> None" using False by (cases xs; auto simp: chain_def)+
  from unlink_chain [OF ch False] obtain c1 where c1: "unlink a c = Inr c1" "chain c1 (xs @ ys)"
    "same_entries c c1" by blast
  obtain it where "heap c a = Some it" using linked_entry [OF assms, of a] by auto
  from same_entries_alive [OF c1(3) this] obtain it1 where it1: "heap c1 a = Some it1" by blast
  have "a \<notin> set (xs @ ys)" using ch by (auto simp: chain_def)
  from link_front_chain [OF c1(2) this it1] obtain c2 where c2: "link_front a c1 = Inr c2"
    "chain c2 (a # xs @ ys)" "same_entries c1 c2" by blast
  have same: "same_entries c c2" using same_entries_trans [OF c1(3) c2(3)] .
  have "linked c2 (a # xs @ ys)"
    using assms c2(2) same by (auto simp: linked_chain same_entries_def indexes_def)
  then show ?thesis using update_item_link [OF hd(1) c1(1) hd(2)] c2(1) same by auto
qed

section \<open>The specification: entries by recency\<close>

definition cache_touch :: "'k \<Rightarrow> 'v \<Rightarrow> ('k \<times> 'v) list \<Rightarrow> ('k \<times> 'v) list" where
  "cache_touch k v es = (k, v) # AList.delete k es"

definition cache_put :: "nat \<Rightarrow> 'k \<Rightarrow> 'v \<Rightarrow> ('k \<times> 'v) list \<Rightarrow> ('k \<times> 'v) list" where
  "cache_put n k v es = take n (cache_touch k v es)"

datatype ('k, 'v) cache_op = Get 'k | Put 'k 'v

primrec op_key :: "('k, 'v) cache_op \<Rightarrow> 'k" where
  "op_key (Get k) = k"
| "op_key (Put k v) = k"

text \<open>What a client may rely on: a bounded cache that drops what was not used for longest.\<close>

locale cache =
  fixes rel :: "'s \<Rightarrow> ('k \<times> 'v) list \<Rightarrow> bool"
    and get :: "'k \<Rightarrow> ('s, 'v) py"
    and put :: "'k \<Rightarrow> 'v \<Rightarrow> ('s, unit) py"
    and n :: nat
  assumes get_miss: "rel s es \<Longrightarrow> map_of es k = None \<Longrightarrow> get k s = (Inl KeyError, s)"
    and get_hit: "rel s es \<Longrightarrow> map_of es k = Some v \<Longrightarrow> \<exists>s'. get k s = (Inr v, s') \<and> rel s' (cache_touch k v es)"
    and put_rel: "rel s es \<Longrightarrow> \<exists>s'. put k v s = (Inr (), s') \<and> rel s' (cache_put n k v es)"
    and rel_keys: "rel s es \<Longrightarrow> distinct (map fst es)"
begin

text \<open>A client that goes on after a \<open>KeyError\<close>.\<close>

primrec run :: "('k, 'v) cache_op list \<Rightarrow> 's \<Rightarrow> 's" where
  "run [] s = s"
| "run (p # ps) s = run ps (case p of Get k \<Rightarrow> snd (get k s) | Put k v \<Rightarrow> snd (put k v s))"

definition recent :: "'k \<Rightarrow> 'v \<Rightarrow> 'k set \<Rightarrow> ('k \<times> 'v) list \<Rightarrow> bool" where
  "recent k v K es \<longleftrightarrow> (\<exists>xs ys. es = xs @ (k, v) # ys \<and> fst ` set xs \<subseteq> K)"

lemma recent_touch:
  assumes "recent k v K es" and "k' \<in> K" and "k \<noteq> k'"
  shows "recent k v K (cache_touch k' w es)"
proof -
  from assms(1) obtain xs ys where "es = xs @ (k, v) # ys" "fst ` set xs \<subseteq> K" by (auto simp: recent_def)
  then show ?thesis unfolding recent_def cache_touch_def using assms(2,3)
    by (intro exI [of _ "(k', w) # AList.delete k' xs"] exI [of _ "AList.delete k' ys"])
      (auto simp: AList.delete_eq)
qed

lemma recent_take:
  assumes "recent k v K es" and "distinct (map fst es)" and "finite K" and "card K < n"
  shows "recent k v K (take n es)"
proof -
  from assms(1) obtain xs ys where es: "es = xs @ (k, v) # ys" "fst ` set xs \<subseteq> K" by (auto simp: recent_def)
  have "length xs = card (fst ` set xs)" using assms(2) es(1)
    by (metis distinct_append distinct_card length_map list.set_map map_append)
  also have "\<dots> \<le> card K" using es(2) assms(3) by (rule card_mono [rotated])
  finally have "length xs < n" using assms(4) by simp
  then have "take n es = xs @ (k, v) # take (n - length xs - 1) ys"
    using es(1) by (simp add: take_Cons')
  then show ?thesis using es(2) by (auto simp: recent_def)
qed

lemma recent_lookup: "recent k v K es \<Longrightarrow> distinct (map fst es) \<Longrightarrow> map_of es k = Some v"
  by (auto simp: recent_def map_add_def map_of_eq_None_iff rev_image_eqI split: option.splits)

lemma distinct_touch: "distinct (map fst es) \<Longrightarrow> distinct (map fst (cache_touch k v es))"
  by (simp add: cache_touch_def distinct_delete AList.delete_notin_dom)

lemma run_step:
  assumes "rel s es" and "recent k v K es" and "finite K" and "card K < n" and "op_key p \<in> K" and "k \<notin> K"
  shows "\<exists>es'. rel (run [p] s) es' \<and> recent k v K es'"
proof (cases p)
  case (Get k')
  with assms(5,6) have k': "k' \<in> K" "k \<noteq> k'" by auto
  show ?thesis
  proof (cases "map_of es k'")
    case None
    then show ?thesis using get_miss [OF assms(1) None] Get assms(1,2) by auto
  next
    case (Some w)
    then show ?thesis using get_hit [OF assms(1) Some] Get recent_touch [OF assms(2) k'] by auto
  qed
next
  case (Put k' w)
  with assms(5,6) have k': "k' \<in> K" "k \<noteq> k'" by auto
  have "recent k v K (cache_put n k' w es)" unfolding cache_put_def
    using recent_take [OF recent_touch [OF assms(2) k'] distinct_touch [OF rel_keys [OF assms(1)]] assms(3,4)] .
  then show ?thesis using put_rel [OF assms(1), of k' w] Put by auto
qed

lemma run_recent:
  assumes "rel s es" and "recent k v K es" and "finite K" and "card K < n"
    and "op_key ` set ps \<subseteq> K" and "k \<notin> K"
  shows "\<exists>es'. rel (run ps s) es' \<and> recent k v K es'"
  using assms
proof (induction ps arbitrary: s es)
  case Nil
  then show ?case by auto
next
  case (Cons p ps)
  from Cons.prems(5) have "op_key p \<in> K" "op_key ` set ps \<subseteq> K" by auto
  from run_step [OF Cons.prems(1-4) this(1) Cons.prems(6)] obtain es' where
    "rel (run [p] s) es'" "recent k v K es'" by blast
  from Cons.IH [OF this Cons.prems(3,4) \<open>op_key ` set ps \<subseteq> K\<close> Cons.prems(6)]
  show ?case by simp
qed

text \<open>
  A value stays in the cache as long as fewer than \<open>n\<close> other keys have been used since.
\<close>

lemma still_cached:
  assumes "rel s es" and "finite K" and "card K < n" and "op_key ` set ps \<subseteq> K" and "k \<notin> K"
  shows "fst (get k (run ps (snd (put k v s)))) = Inr v"
proof -
  from put_rel [OF assms(1), of k v] obtain s1 where s1: "put k v s = (Inr (), s1)" "rel s1 (cache_put n k v es)"
    by blast
  have "recent k v K (cache_put n k v es)" using assms(3)
    by (cases n) (simp_all add: cache_put_def cache_touch_def recent_def exI [of _ "[]"])
  from run_recent [OF s1(2) this assms(2-5)] obtain es' where
    es': "rel (run ps s1) es'" "recent k v K es'" by blast
  from get_hit [OF es'(1) recent_lookup [OF es'(2) rel_keys [OF es'(1)]]] s1(1) show ?thesis by auto
qed

end

section \<open>The linked cache implements the specification\<close>

definition lru_rel :: "nat \<Rightarrow> ('k, 'v) lru \<Rightarrow> ('k \<times> 'v) list \<Rightarrow> bool" where
  "lru_rel n c es \<longleftrightarrow> (\<exists>as. linked c as \<and> entries c as = es) \<and> capacity c = n \<and> length es \<le> n"

lemma entries_distinct:
  assumes "linked c as"
  shows "distinct (map fst (entries c as))"
proof -
  have dist: "distinct as" using assms by (simp add: linked_def)
  have "inj_on (\<lambda>a. fst (the (entry_at (heap c) a))) (set as)"
  proof (rule inj_onI)
    fix a b assume ab: "a \<in> set as" "b \<in> set as"
      "fst (the (entry_at (heap c) a)) = fst (the (entry_at (heap c) b))"
    obtain ia ib where i: "heap c a = Some ia" "heap c b = Some ib"
      "entry_at (heap c) a = Some (item_key ia, item_value ia)" "entry_at (heap c) b = Some (item_key ib, item_value ib)"
      using linked_entry [OF assms ab(1)] linked_entry [OF assms ab(2)] by blast
    then show "a = b" using linked_index [OF assms ab(1) i(1)] linked_index [OF assms ab(2) i(2)] ab(3) by simp
  qed
  with dist show ?thesis by (simp add: entries_def distinct_map comp_def)
qed

lemma entries_lookup:
  assumes "linked c as"
  shows "map_of (entries c as) k = (case map_of (dict_items c) k of None \<Rightarrow> None
           | Some a \<Rightarrow> map_option item_value (heap c a))"
proof (cases "map_of (dict_items c) k")
  case None
  have "k \<notin> fst ` set (entries c as)"
  proof
    assume "k \<in> fst ` set (entries c as)"
    then obtain a where "a \<in> set as" "fst (the (entry_at (heap c) a)) = k" by (auto simp: entries_def)
    with linked_entry [OF assms this(1)] linked_index [OF assms this(1)] None show False by force
  qed
  then have "map_of (entries c as) k = None" by (simp add: map_of_eq_None_iff)
  then show ?thesis using None by simp
next
  case (Some a)
  then have a: "a \<in> set as" "\<exists>v. entry_at (heap c) a = Some (k, v)"
    using assms by (auto simp: linked_def indexes_def)
  then obtain it where it: "heap c a = Some it" "item_key it = k" by (auto simp: entry_at_def)
  have "(k, item_value it) \<in> set (entries c as)"
    using a(1) it by (force simp: entries_def entry_at_def)
  then have "map_of (entries c as) k = Some (item_value it)"
    by (rule map_of_is_SomeI [OF entries_distinct [OF assms]])
  then show ?thesis using Some it by simp
qed

lemma same_entries_list: "same_entries c c' \<Longrightarrow> entries c' as = entries c as"
  by (simp add: same_entries_def entries_def)

lemma linked_dict_mem:
  "linked c as \<Longrightarrow> map_of (dict_items c) k = Some a \<Longrightarrow>
    \<exists>xs ys it. as = xs @ a # ys \<and> heap c a = Some it \<and> item_key it = k"
  by (auto simp: linked_def indexes_def entry_at_def dest: split_list)

lemma entries_split:
  assumes "linked c (xs @ a # ys)" and "heap c a = Some it"
  shows "entries c (a # xs @ ys) = cache_touch (item_key it) (item_value it) (entries c (xs @ a # ys))"
proof -
  have e: "entries c (xs @ a # ys) = entries c xs @ (item_key it, item_value it) # entries c ys"
    using assms(2) by (simp add: entries_def entry_at_def)
  have "AList.delete (item_key it) (entries c (xs @ a # ys)) = entries c xs @ entries c ys"
    using entries_distinct [OF assms(1)] unfolding e by (rule delete_middle)
  then show ?thesis using assms(2) by (simp add: cache_touch_def entries_def entry_at_def)
qed

lemma getitem_hit:
  assumes "lru_rel n c es" and "map_of es k = Some v"
  shows "\<exists>c'. lru_getitem k c = (Inr v, c') \<and> lru_rel n c' (cache_touch k v es)"
proof -
  from assms(1) obtain as where as: "linked c as" "entries c as = es" "capacity c = n" "length es \<le> n"
    by (auto simp: lru_rel_def)
  from entries_lookup [OF as(1), of k] assms(2) as(2) obtain a where a: "map_of (dict_items c) k = Some a"
    by (auto split: option.splits)
  from linked_dict_mem [OF as(1) a] obtain xs ys it where it: "as = xs @ a # ys" "heap c a = Some it"
    "item_key it = k" by blast
  have v: "item_value it = v" using entries_lookup [OF as(1), of k] assms(2) as(2) a it(2) by simp
  from update_item_linked [of c xs a ys] as(1) it(1) obtain c' where c': "update_item a c = Inr c'"
    "linked c' (a # xs @ ys)" "same_entries c c'" by blast
  from same_entries_alive [OF c'(3) it(2)] obtain it' where it': "heap c' a = Some it'" "item_value it' = v"
    using v by blast
  have "entries c' (a # xs @ ys) = cache_touch k v es"
    using same_entries_list [OF c'(3)] entries_split [of c xs a ys it] as it v by simp
  moreover have "length (entries c' (a # xs @ ys)) = length es" using as(2) it(1) by (auto simp: entries_def)
  moreover have "lru_getitem k c = (Inr v, c')" using a c'(1) it' by (simp add: lru_getitem_def deref_def)
  ultimately show ?thesis using as(3,4) c'(2,3) by (auto simp: lru_rel_def same_entries_def)
qed

lemma getitem_miss:
  assumes "lru_rel n c es" and "map_of es k = None"
  shows "lru_getitem k c = (Inl KeyError, c)"
proof -
  from assms(1) obtain as where as: "linked c as" "entries c as = es" by (auto simp: lru_rel_def)
  have "map_of (dict_items c) k = None"
  proof (rule ccontr)
    assume "map_of (dict_items c) k \<noteq> None"
    then obtain a where "map_of (dict_items c) k = Some a" by auto
    with linked_dict_mem [OF as(1) this] entries_lookup [OF as(1), of k] assms(2) as(2) show False by auto
  qed
  then show ?thesis by (simp add: lru_getitem_def)
qed

lemma delete_absent: "map_of es k = None \<Longrightarrow> AList.delete k es = es"
  by (simp add: map_of_eq_None_iff)

text \<open>A new item: linked in front, then the size is managed.\<close>

lemma insert_new:
  fixes v :: 'v and c :: "('k, 'v) lru"
  assumes "linked c as" and "map_of (dict_items c) k = None"
  defines "c1 \<equiv> c\<lparr>heap := (heap c)(fresh c \<mapsto> \<lparr>previous = None, next_item = None, item_key = k, item_value = v\<rparr>),
             fresh := fresh c + 1, dict_items := AList.update k (fresh c) (dict_items c)\<rparr>"
  shows "\<exists>c2. link_front (fresh c) c1 = Inr c2 \<and> linked c2 (fresh c # as) \<and> capacity c2 = capacity c
           \<and> entries c2 (fresh c # as) = (k, v) # entries c as"
proof -
  let ?a = "fresh c"
  have new: "?a \<notin> set as" using assms(1) by (auto simp: linked_def)
  have "chain c1 as" using assms(1) new by (simp add: linked_chain chain_def c1_def lseg_frame)
  from link_front_chain [OF this new] obtain c2 where c2: "link_front ?a c1 = Inr c2" "chain c2 (?a # as)"
    "same_entries c1 c2" by (auto simp: c1_def)
  have ent: "entry_at (heap c2) = (entry_at (heap c))(?a \<mapsto> (k, v))"
    using c2(3) by (simp add: same_entries_def c1_def entry_at_def fun_eq_iff)
  have dict: "dict_items c2 = AList.update k ?a (dict_items c)" using c2(3) by (simp add: same_entries_def c1_def)
  have idx: "indexes (entry_at (heap c)) (dict_items c) as" using assms(1) by (simp add: linked_def)
  have keep: "\<forall>k' a. map_of (dict_items c) k' = Some a \<longleftrightarrow> a \<in> set as \<and> (\<exists>v. entry_at (heap c) a = Some (k', v))"
    using idx by (simp add: indexes_def)
  have "indexes ((entry_at (heap c))(?a \<mapsto> (k, v))) (AList.update k ?a (dict_items c)) (?a # as)"
    unfolding indexes_def
  proof (intro conjI allI)
    show "distinct (map fst (AList.update k ?a (dict_items c)))" using idx by (simp add: indexes_def distinct_update)
    fix k' a
    show "map_of (AList.update k ?a (dict_items c)) k' = Some a \<longleftrightarrow>
        a \<in> set (?a # as) \<and> (\<exists>va. ((entry_at (heap c))(?a \<mapsto> (k, v))) a = Some (k', va))"
    proof (cases "k' = k")
      case True
      have "\<not> (\<exists>va. entry_at (heap c) b = Some (k, va))" if "b \<in> set as" for b
        using keep assms(2) that by (metis option.distinct(1))
      with True new show ?thesis by (auto simp: update_conv')
    next
      case False
      with keep new show ?thesis by (auto simp: update_conv')
    qed
  qed
  then have "linked c2 (?a # as)" using c2(2,3) ent dict assms(1)
    by (auto simp: linked_chain same_entries_def c1_def less_Suc_eq)
  moreover have "entries c2 (?a # as) = (k, v) # entries c as" using new by (auto simp: entries_def ent)
  ultimately show ?thesis using c2(1,3) by (auto simp: same_entries_def c1_def)
qed

lemma linked_set_value:
  assumes "linked c as" and "heap c a = Some it" and "a \<in> set as"
  shows "linked (c\<lparr>heap := (heap c)(a \<mapsto> it\<lparr>item_value := v\<rparr>)\<rparr>) as"
proof -
  have "lseg h pr p xs nx \<Longrightarrow> h a = Some it \<Longrightarrow> lseg (h(a \<mapsto> it\<lparr>item_value := v\<rparr>)) pr p xs nx" for h pr p xs nx
    by (induction xs arbitrary: pr p) auto
  moreover have "indexes (entry_at ((heap c)(a \<mapsto> it\<lparr>item_value := v\<rparr>))) (dict_items c) as"
    using assms by (auto simp: linked_def indexes_def entry_at_def)
  ultimately show ?thesis using assms by (simp add: linked_def)
qed

lemma entries_set_value:
  fixes c :: "('k, 'v) lru"
  assumes "linked c (xs @ a # ys)" and "heap c a = Some it"
  shows "AList.delete (item_key it) (entries (c\<lparr>heap := (heap c)(a \<mapsto> it\<lparr>item_value := v\<rparr>)\<rparr>) (xs @ a # ys))
       = AList.delete (item_key it) (entries c (xs @ a # ys))"
proof -
  have "a \<notin> set xs" "a \<notin> set ys" using assms(1) by (auto simp: linked_def)
  then have "entries (c\<lparr>heap := (heap c)(a \<mapsto> it\<lparr>item_value := v\<rparr>)\<rparr>) xs = entries c xs"
    "entries (c\<lparr>heap := (heap c)(a \<mapsto> it\<lparr>item_value := v\<rparr>)\<rparr>) ys = entries c ys"
    by (auto simp: entries_def entry_at_def)
  moreover have "entries d (xs @ a # ys) = entries d xs @ the (entry_at (heap d) a) # entries d ys"
    for d :: "('k, 'v) lru" by (simp add: entries_def)
  ultimately show ?thesis using assms(2) by (simp add: entry_at_def AList.delete_eq)
qed

lemma setitem_rel:
  assumes "lru_rel n c es"
  shows "\<exists>c'. lru_setitem k v c = (Inr (), c') \<and> lru_rel n c' (cache_put n k v es)"
proof -
  from assms obtain as where as: "linked c as" "entries c as = es" "capacity c = n" "length es \<le> n"
    by (auto simp: lru_rel_def)
  show ?thesis
  proof (cases "map_of (dict_items c) k")
    case None
    from insert_new [OF as(1) None, of v] obtain c2 where c2: "link_front (fresh c)
        (c\<lparr>heap := (heap c)(fresh c \<mapsto> \<lparr>previous = None, next_item = None, item_key = k, item_value = v\<rparr>),
             fresh := fresh c + 1, dict_items := AList.update k (fresh c) (dict_items c)\<rparr>) = Inr c2"
      "linked c2 (fresh c # as)" "capacity c2 = n" "entries c2 (fresh c # as) = (k, v) # es"
      using as by auto
    from manage_size_linked [OF c2(2)] obtain c3 where c3: "manage_size c2 = Inr c3"
      "linked c3 (take n (fresh c # as))" "capacity c3 = n" "entries c3 (take n (fresh c # as)) = take n ((k, v) # es)"
      using c2(3,4) by auto
    have "lru_setitem k v c = (Inr (), c3)" using None c2(1) c3(1)
      by (simp add: lru_setitem_def insert_item_link Let_def)
    moreover have "map_of es k = None" using entries_lookup [OF as(1), of k] None as(2) by simp
    then have "cache_put n k v es = take n ((k, v) # es)" by (simp add: cache_put_def cache_touch_def delete_absent)
    ultimately show ?thesis using c3(2-4) by (auto simp: lru_rel_def)
  next
    case (Some a)
    from linked_dict_mem [OF as(1) Some] obtain xs ys it where it: "as = xs @ a # ys" "heap c a = Some it"
      "item_key it = k" by blast
    define c1 where "c1 = c\<lparr>heap := (heap c)(a \<mapsto> it\<lparr>item_value := v\<rparr>)\<rparr>"
    have l1: "linked c1 (xs @ a # ys)" unfolding c1_def using linked_set_value [OF as(1) it(2)] it(1) by simp
    from update_item_linked [OF l1] obtain c2 where c2: "update_item a c1 = Inr c2" "linked c2 (a # xs @ ys)"
      "same_entries c1 c2" by blast
    have len: "length (a # xs @ ys) \<le> n" using as(2,4) it(1) by (auto simp: entries_def)
    have cap: "capacity c2 = n" using c2(3) as(3) by (simp add: same_entries_def c1_def)
    have m: "manage_size c2 = Inr c2" using manage_size_small [OF c2(2)] len cap by simp
    have "heap c1 a = Some (it\<lparr>item_value := v\<rparr>)" by (simp add: c1_def)
    from entries_split [OF l1 this] have "entries c1 (a # xs @ ys) = cache_touch k v (entries c1 (xs @ a # ys))"
      using it(3) by simp
    also have "\<dots> = cache_touch k v es"
      using entries_set_value [of c xs a ys it v] as(1,2) it by (simp add: cache_touch_def c1_def)
    finally have e: "entries c2 (a # xs @ ys) = cache_touch k v es" using same_entries_list [OF c2(3)] by simp
    then have "length (cache_touch k v es) \<le> n" using len by (metis entries_def length_map)
    then have "cache_put n k v es = cache_touch k v es" by (simp add: cache_put_def)
    moreover have "lru_setitem k v c = (Inr (), c2)" using Some it(2) c2(1) m
      by (simp add: lru_setitem_def deref_def c1_def Let_def)
    ultimately show ?thesis using c2(2) e cap \<open>length (cache_touch k v es) \<le> n\<close> by (auto simp: lru_rel_def)
  qed
qed

lemma rel_keys_distinct: "lru_rel n c es \<Longrightarrow> distinct (map fst es)"
  by (auto simp: lru_rel_def entries_distinct)

interpretation lru: cache "lru_rel n" lru_getitem lru_setitem n for n :: nat
  by unfold_locales (rule getitem_miss getitem_hit setitem_rel rel_keys_distinct; assumption?)+

text \<open>Reading off the whole cache.\<close>

lemma iter_from_links:
  "lseg (heap c) pr p as None \<Longrightarrow> length as \<le> m \<Longrightarrow> lru_iter_from m p c = Inr (map fst (entries c as))"
proof (induction as arbitrary: pr p m)
  case Nil
  then show ?case by (simp add: entries_def)
next
  case (Cons a as)
  then obtain m' where "m = Suc m'" by (cases m) auto
  with Cons show ?case by (auto simp: deref_def entries_def entry_at_def)
qed

lemma linked_fresh: "linked c as \<Longrightarrow> length as \<le> fresh c"
proof -
  assume "linked c as"
  then have "distinct as" "set as \<subseteq> {..<fresh c}" by (auto simp: linked_def)
  then show ?thesis by (metis card_lessThan card_mono distinct_card finite_lessThan)
qed

lemma iter_rel: "lru_rel n c es \<Longrightarrow> lru_iter c = Inr (map fst es)"
  by (auto simp: lru_rel_def lru_iter_def linked_fresh linked_def intro!: iter_from_links)

lemma len_rel: "lru_rel n c es \<Longrightarrow> lru_len c = length es"
  by (auto simp: lru_rel_def lru_len_def linked_length entries_def)

lemma contains_rel:
  assumes "lru_rel n c es"
  shows "lru_contains k c \<longleftrightarrow> map_of es k \<noteq> None"
proof -
  from assms obtain as where as: "linked c as" "entries c as = es" by (auto simp: lru_rel_def)
  then show ?thesis using entries_lookup [OF as(1), of k] linked_dict_mem [OF as(1), of k]
    by (auto simp: lru_contains_def split: option.splits)
qed

lemma init_rel: "lru_rel n (lru_init n) []"
  by (auto simp: lru_rel_def lru_init_def linked_def indexes_def entries_def intro!: exI [of _ "[]"])

text \<open>The state after a sequence of operations of a client that goes on after a \<open>KeyError\<close>.\<close>

definition lru_step :: "('k, 'v) cache_op \<Rightarrow> ('k, 'v) lru \<Rightarrow> ('k, 'v) lru" where
  "lru_step p c = (case p of Get k \<Rightarrow> snd (lru_getitem k c) | Put k v \<Rightarrow> snd (lru_setitem k v c))"

definition spec_step :: "nat \<Rightarrow> ('k, 'v) cache_op \<Rightarrow> ('k \<times> 'v) list \<Rightarrow> ('k \<times> 'v) list" where
  "spec_step n p es = (case p of
     Get k \<Rightarrow> (case map_of es k of None \<Rightarrow> es | Some v \<Rightarrow> cache_touch k v es)
   | Put k v \<Rightarrow> cache_put n k v es)"

lemma step_rel: "lru_rel n c es \<Longrightarrow> lru_rel n (lru_step p c) (spec_step n p es)"
proof (cases p)
  case (Get k)
  assume rel: "lru_rel n c es"
  show ?thesis
  proof (cases "map_of es k")
    case None
    then show ?thesis using rel Get getitem_miss [OF rel None] by (simp add: lru_step_def spec_step_def)
  next
    case (Some v)
    then show ?thesis using Get getitem_hit [OF rel Some] by (auto simp: lru_step_def spec_step_def)
  qed
next
  case (Put k v)
  assume rel: "lru_rel n c es"
  then show ?thesis using Put setitem_rel [OF rel, of k v] by (auto simp: lru_step_def spec_step_def)
qed

lemma steps_rel: "lru_rel n c es \<Longrightarrow> lru_rel n (fold lru_step ps c) (fold (spec_step n) ps es)"
  by (induction ps arbitrary: c es) (simp_all add: step_rel)

lemma run_fold: "lru.run ps c = fold lru_step ps c"
proof (induction ps arbitrary: c)
  case Nil
  then show ?case by simp
next
  case (Cons p ps)
  then show ?case by (cases p) (simp_all add: lru_step_def)
qed

section \<open>Properties\<close>

text \<open>
  C37: After any sequence of reads and writes the linked cache of \<open>LRUCache\<close> shows exactly what
  the specification (a list of at most \<open>capacity\<close> entries, most recently used first) holds: its
  iterator, which follows the links, ends and yields the keys in that order, \<open>len\<close> counts them, \<open>in\<close>
  finds exactly them, and no read answers anything else.
\<close>

theorem lru_refines_recency_list:
  "lru_iter (fold lru_step ps (lru_init n)) = Inr (map fst (fold (spec_step n) ps []))
   \<and> lru_len (fold lru_step ps (lru_init n)) = length (fold (spec_step n) ps [])
   \<and> length (fold (spec_step n) ps []) \<le> n
   \<and> lru_contains k (fold lru_step ps (lru_init n)) = (map_of (fold (spec_step n) ps []) k \<noteq> None)
   \<and> fst (lru_getitem k (fold lru_step ps (lru_init n)))
       = (case map_of (fold (spec_step n) ps []) k of None \<Rightarrow> Inl KeyError | Some v \<Rightarrow> Inr v)"
proof -
  have rel: "lru_rel n (fold lru_step ps (lru_init n)) (fold (spec_step n) ps [])"
    by (rule steps_rel [OF init_rel])
  have "fst (lru_getitem k (fold lru_step ps (lru_init n)))
       = (case map_of (fold (spec_step n) ps []) k of None \<Rightarrow> Inl KeyError | Some v \<Rightarrow> Inr v)"
    using getitem_miss [OF rel, of k] getitem_hit [OF rel, of k] by (auto split: option.splits)
  then show ?thesis
    using iter_rel [OF rel] len_rel [OF rel] contains_rel [OF rel] rel by (simp add: lru_rel_def)
qed

text \<open>
  A value written to \<open>LRUCache\<close> can be read back as long as fewer than \<open>capacity\<close> other keys
  were used since, whatever was read or written before and in between.
\<close>

theorem lru_keeps_recent:
  assumes "card (op_key ` set qs) < n" and "k \<notin> op_key ` set qs"
  shows "fst (lru_getitem k (fold lru_step qs (snd (lru_setitem k v (fold lru_step ps (lru_init n)))))) = Inr v"
proof -
  have rel: "lru_rel n (fold lru_step ps (lru_init n)) (fold (spec_step n) ps [])"
    by (rule steps_rel [OF init_rel])
  show ?thesis using lru.still_cached [OF rel _ assms(1) subset_refl assms(2), of v] by (simp add: run_fold)
qed

theorem lru_keeps_recent_witness:
  "fst (lru_getitem (1::nat) (fold lru_step [Put 2 ''b'', Get 2, Get 7, Put 2 ''c'']
     (snd (lru_setitem 1 ''a'' (fold lru_step [Put 3 ''x'', Put 4 ''y'', Put 5 ''z''] (lru_init 3)))))) = Inr ''a''"
  by (rule lru_keeps_recent) (simp_all add: card_insert_if)

end
