(* ===== verification/Utils_Headers.thy ===== *)
theory Utils_Headers
  imports Py_Net "HOL-Library.Multiset"
begin

text \<open>
  The functions of \<^verbatim>\<open>boto/utils.py\<close> on hosts, headers and metadata: host names with ports, case
  insensitive header lookup, the string that is signed for S3 and Google Storage, and the metadata
  kept in headers.
\<close>

section \<open>Header values\<close>

text \<open>
  A header value is \<open>None\<close>, a byte string, or a \<open>unicode\<close> string, given by its UTF-8 encoding.
\<close>

datatype hval = HNone | HStr string | HUni string

type_synonym headers = "(string, hval) dict"

definition is_ascii :: "string \<Rightarrow> bool" where
  "is_ascii s \<longleftrightarrow> list_all (\<lambda>c. of_char c < (128 :: nat)) s"

text \<open>\<open>str(v)\<close>: \<open>UnicodeEncodeError\<close> is a \<open>ValueError\<close>.\<close>

definition hval_str :: "hval \<Rightarrow> string res" where
  "hval_str v = (case v of HNone \<Rightarrow> Inr ''None'' | HStr s \<Rightarrow> Inr s
     | HUni s \<Rightarrow> if is_ascii s then Inr s else Inl ValueError)"

text \<open>Comparison with a byte string constant in ASCII.\<close>

definition hval_is :: "hval \<Rightarrow> string \<Rightarrow> bool" where
  "hval_is v s = (case v of HNone \<Rightarrow> False | HStr t \<Rightarrow> t = s | HUni t \<Rightarrow> t = s)"

definition hval_true :: "hval option \<Rightarrow> bool" where
  "hval_true v = (case v of None \<Rightarrow> False | Some HNone \<Rightarrow> False | Some (HStr s) \<Rightarrow> s \<noteq> [] | Some (HUni s) \<Rightarrow> s \<noteq> [])"

section \<open>Hosts\<close>

definition host_is_ipv6 :: "string \<Rightarrow> bool" where
  "host_is_ipv6 hostname \<longleftrightarrow>
     (if hostname = [] then False
      else if str_startswith hostname ''['' then True
      else 2 < length (str_split CHR '':'' hostname))"

text \<open>\<open>s.strip('[]')\<close> and \<open>s.split(']:', 1)[0]\<close>.\<close>

definition strip_brackets :: "string \<Rightarrow> string" where
  "strip_brackets s = rev (dropWhile (\<lambda>c. c \<in> set ''[]'') (rev (dropWhile (\<lambda>c. c \<in> set ''[]'') s)))"

fun before_bracket_colon :: "string \<Rightarrow> string" where
  "before_bracket_colon (a # b # s) = (if a = CHR '']'' \<and> b = CHR '':'' then [] else a # before_bracket_colon (b # s))"
| "before_bracket_colon s = s"

definition parse_host :: "string \<Rightarrow> string" where
  "parse_host hostname =
     (let h = str_strip hostname
      in if host_is_ipv6 h then strip_brackets (before_bracket_colon h)
         else fst (split_first CHR '':'' h))"

section \<open>Finding and merging headers\<close>

definition find_matching_headers :: "string \<Rightarrow> headers \<Rightarrow> string list" where
  "find_matching_headers name hs = filter (\<lambda>h. str_lower h = str_lower name) (map fst hs)"

fun all_str :: "hval list \<Rightarrow> string list res" where
  "all_str [] = Inr []"
| "all_str (v # vs) = res_bind (hval_str v) (\<lambda>s. res_bind (all_str vs) (\<lambda>ss. Inr (s # ss)))"

definition merge_headers_by_name :: "string \<Rightarrow> headers \<Rightarrow> string res" where
  "merge_headers_by_name name hs =
     res_bind (all_str (filter (\<lambda>v. v \<noteq> HNone) (map (\<lambda>h. the (map_of hs h)) (find_matching_headers name hs))))
       (\<lambda>ss. Inr (str_join '','' ss))"

section \<open>The canonical string\<close>

text \<open>
  What boto uses of a \<open>Provider\<close>: the credentials and the names of the provider's headers.
\<close>

record provider =
  access_key :: string
  secret_key :: string
  security_token :: "string option"
  header_prefix :: string
  metadata_prefix :: string
  date_header :: string
  auth_header :: string
  security_token_header :: string

definition qsa_of_interest :: "string list" where
  "qsa_of_interest = [''acl'', ''cors'', ''defaultObjectAcl'', ''location'', ''logging'',
     ''partNumber'', ''policy'', ''requestPayment'', ''torrent'',
     ''versioning'', ''versionId'', ''versions'', ''website'',
     ''uploads'', ''uploadId'', ''response-content-type'',
     ''response-content-language'', ''response-expires'',
     ''response-cache-control'', ''response-content-disposition'',
     ''response-content-encoding'', ''delete'', ''lifecycle'',
     ''tagging'', ''restore'', ''storageClass'', ''websiteConfig'', ''compose'', ''billing'',
     ''userProject'', ''encryptionConfig'']"

text \<open>A query argument split at the first \<open>=\<close>: its name, and its value if it has one.\<close>

type_synonym qsa = "string \<times> string option"

definition unquote_v :: "qsa \<Rightarrow> qsa" where
  "unquote_v nv = (case nv of (n, None) \<Rightarrow> nv | (n, Some v) \<Rightarrow> (n, Some (unquote v)))"

definition join_qsa :: "qsa \<Rightarrow> string" where
  "join_qsa nv = (case nv of (n, None) \<Rightarrow> n | (n, Some v) \<Rightarrow> n @ ''='' @ v)"

definition interesting :: "provider \<Rightarrow> string \<Rightarrow> bool" where
  "interesting p lk \<longleftrightarrow> lk \<in> {''content-md5'', ''content-type'', ''date''} \<or> str_startswith lk (header_prefix p)"

fun interesting_headers :: "provider \<Rightarrow> headers \<Rightarrow> (string, string) dict \<Rightarrow> (string, string) dict res" where
  "interesting_headers p [] acc = Inr acc"
| "interesting_headers p ((k, v) # hs) acc =
     (if v \<noteq> HNone \<and> interesting p (str_lower k)
      then res_bind (hval_str v) (\<lambda>s. interesting_headers p hs (AList.update (str_lower k) (str_strip s) acc))
      else interesting_headers p hs acc)"

definition set_default :: "'k \<Rightarrow> 'v \<Rightarrow> ('k, 'v) dict \<Rightarrow> ('k, 'v) dict" where
  "set_default k v d = (if map_of d k = None then AList.update k v d else d)"

definition header_lines :: "provider \<Rightarrow> (string, string) dict \<Rightarrow> string" where
  "header_lines p d = concat (map (\<lambda>k. if str_startswith k (header_prefix p)
       then k @ '':'' @ the (map_of d k) @ [CHR 0x0A] else the (map_of d k) @ [CHR 0x0A]) (sort (map fst d)))"

definition canonical_resource :: "string \<Rightarrow> string" where
  "canonical_resource path =
     (let t = str_split CHR ''?'' path
      in t ! 0 @
        (if 1 < length t
         then (let qsa = map unquote_v (filter (\<lambda>a. fst a \<in> set qsa_of_interest)
                            (map (split_first CHR ''='') (str_split CHR ''&'' (t ! 1))))
               in if 0 < length qsa then ''?'' @ str_join ''&'' (map join_qsa (sort_key fst qsa)) else [])
         else []))"

definition canonical_string :: "string \<Rightarrow> string \<Rightarrow> headers \<Rightarrow> string option \<Rightarrow> provider \<Rightarrow> string res" where
  "canonical_string method path hs expires p =
     res_bind (interesting_headers p hs []) (\<lambda>d.
       let d = set_default ''content-type'' [] d;
           d = set_default ''content-md5'' [] d;
           d = (if map_of d (date_header p) \<noteq> None then AList.update ''date'' [] d else d);
           d = (case expires of None \<Rightarrow> d | Some e \<Rightarrow> if e = [] then d else AList.update ''date'' e d)
       in Inr (method @ [CHR 0x0A] @ header_lines p d @ canonical_resource path))"

section \<open>Metadata\<close>

definition base_user_settable_fields :: "string set" where
  "base_user_settable_fields = {''cache-control'', ''content-disposition'', ''content-encoding'',
     ''content-language'', ''content-md5'', ''content-type'', ''x-robots-tag'', ''expires''}"

definition merge_meta :: "(string, 'v) dict \<Rightarrow> (string, 'v) dict \<Rightarrow> provider \<Rightarrow> (string, 'v) dict" where
  "merge_meta hs metadata p =
     fold (\<lambda>(k, v) final. if str_lower k \<in> base_user_settable_fields then AList.update k v final
                    else AList.update (metadata_prefix p @ k) v final) metadata hs"

text \<open>
  \<open>get_aws_metadata\<close> takes the metadata out of the headers.  The values are byte strings; the
  result is their text, decoded if it is UTF-8, which leaves the bytes it stands for as they are.
\<close>

definition get_aws_metadata :: "(string, string) dict \<Rightarrow> provider \<Rightarrow> (string, string) dict \<times> (string, string) dict" where
  "get_aws_metadata hs p =
     fold (\<lambda>hkey (meta, hs). if str_startswith (str_lower hkey) (metadata_prefix p)
             then (AList.update (drop (length (metadata_prefix p)) hkey) (unquote (the (map_of hs hkey))) meta,
                   AList.delete hkey hs)
             else (meta, hs)) (map fst hs) ([], hs)"

section \<open>Metadata round trip\<close>

lemma startswith_append [simp]: "str_startswith (p @ s) p"
  by (simp add: str_startswith_def)

lemma merge_meta_append:
  assumes "\<forall>k \<in> fst ` set ms. str_lower k \<notin> base_user_settable_fields"
    and "\<forall>k \<in> fst ` set ms. metadata_prefix p @ k \<notin> fst ` set hs" and "distinct (map fst ms)"
  shows "merge_meta hs ms p = hs @ map (\<lambda>(k, v). (metadata_prefix p @ k, v)) ms"
  using assms
proof (induction ms arbitrary: hs)
  case Nil
  then show ?case by (simp add: merge_meta_def)
next
  case (Cons m ms)
  obtain k v where m: "m = (k, v)" by fastforce
  have "merge_meta hs (m # ms) p = merge_meta (hs @ [(metadata_prefix p @ k, v)]) ms p"
    using Cons.prems m by (simp add: merge_meta_def update_absent)
  also have "\<dots> = (hs @ [(metadata_prefix p @ k, v)]) @ map (\<lambda>(k, v). (metadata_prefix p @ k, v)) ms"
    using Cons.prems m by (intro Cons.IH) (auto simp: image_iff)
  finally show ?case using m by simp
qed

definition take_meta :: "provider \<Rightarrow> string \<Rightarrow> (string, string) dict \<times> (string, string) dict \<Rightarrow> (string, string) dict \<times> (string, string) dict" where
  "take_meta p hkey mh = (case mh of (meta, hs) \<Rightarrow>
     if str_startswith (str_lower hkey) (metadata_prefix p)
     then (AList.update (drop (length (metadata_prefix p)) hkey) (unquote (the (map_of hs hkey))) meta, AList.delete hkey hs)
     else (meta, hs))"

lemma get_aws_metadata_take: "get_aws_metadata hs p = fold (take_meta p) (map fst hs) ([], hs)"
  by (simp add: get_aws_metadata_def take_meta_def [abs_def])

lemma take_meta_other:
  "\<forall>k \<in> set ks. \<not> str_startswith (str_lower k) (metadata_prefix p) \<Longrightarrow> fold (take_meta p) ks (meta, hs) = (meta, hs)"
  by (induction ks) (simp_all add: take_meta_def)

lemma take_meta_all:
  assumes "str_lower (metadata_prefix p) = metadata_prefix p" and "distinct (map fst (meta @ ms))"
    and "distinct (map fst (hs @ map (\<lambda>(k, v). (metadata_prefix p @ k, v)) ms))"
  shows "fold (take_meta p) (map (\<lambda>(k, v). metadata_prefix p @ k) ms) (meta, hs @ map (\<lambda>(k, v). (metadata_prefix p @ k, v)) ms)
       = (meta @ map (\<lambda>(k, v). (k, unquote v)) ms, hs)"
  using assms
proof (induction ms arbitrary: meta)
  case Nil
  then show ?case by simp
next
  case (Cons m ms)
  obtain k v where m: "m = (k, v)" by fastforce
  let ?pre = "metadata_prefix p"
  have dist: "distinct (map fst (hs @ (?pre @ k, v) # map (\<lambda>(k, v). (?pre @ k, v)) ms))"
    using Cons.prems(3) m by simp
  have del: "AList.delete (?pre @ k) (hs @ (?pre @ k, v) # map (\<lambda>(k, v). (?pre @ k, v)) ms)
      = hs @ map (\<lambda>(k, v). (?pre @ k, v)) ms" by (rule delete_middle [OF dist])
  have look: "map_of (hs @ (?pre @ k, v) # map (\<lambda>(k, v). (?pre @ k, v)) ms) (?pre @ k) = Some v"
    by (rule map_of_is_SomeI [OF dist]) simp
  have pre: "str_startswith (str_lower (?pre @ k)) ?pre" using Cons.prems(1) by simp
  have new: "AList.update k (unquote v) meta = meta @ [(k, unquote v)]"
    using Cons.prems(2) m by (intro update_absent) auto
  have step: "take_meta p (?pre @ k) (meta, hs @ (?pre @ k, v) # map (\<lambda>(k, v). (?pre @ k, v)) ms)
      = (meta @ [(k, unquote v)], hs @ map (\<lambda>(k, v). (?pre @ k, v)) ms)"
    using pre by (simp only: take_meta_def prod.case if_True look del append_eq_conv_conj option.sel new) (simp add: new)
  have "fold (take_meta p) (map (\<lambda>(k, v). ?pre @ k) ms) (meta @ [(k, unquote v)], hs @ map (\<lambda>(k, v). (?pre @ k, v)) ms)
      = ((meta @ [(k, unquote v)]) @ map (\<lambda>(k, v). (k, unquote v)) ms, hs)"
    using Cons.prems m by (intro Cons.IH) auto
  with step m show ?case by simp
qed

lemma metadata_roundtrip_unquoted:
  assumes "str_lower (metadata_prefix p) = metadata_prefix p"
    and "\<forall>k \<in> fst ` set ms. str_lower k \<notin> base_user_settable_fields" and "distinct (map fst ms)"
    and "\<forall>h \<in> fst ` set hs. \<not> str_startswith (str_lower h) (metadata_prefix p)" and "distinct (map fst hs)"
  shows "get_aws_metadata (merge_meta hs ms p) p = (map (\<lambda>(k, v). (k, unquote v)) ms, hs)"
proof -
  let ?ms = "map (\<lambda>(k, v). (metadata_prefix p @ k, v)) ms"
  have fresh: "metadata_prefix p @ k \<notin> fst ` set hs" for k
  proof
    assume "metadata_prefix p @ k \<in> fst ` set hs"
    with assms(4) have "\<not> str_startswith (str_lower (metadata_prefix p @ k)) (metadata_prefix p)" by blast
    with assms(1) show False by simp
  qed
  then have m: "merge_meta hs ms p = hs @ ?ms" using assms(2,3) by (intro merge_meta_append) auto
  have keys: "map fst ?ms = map (\<lambda>(k, v). metadata_prefix p @ k) ms" by (induction ms) auto
  have "map fst ?ms = map (\<lambda>k. metadata_prefix p @ k) (map fst ms)" by (induction ms) auto
  then have "distinct (map fst ?ms)" using assms(3) by (simp add: distinct_map inj_on_def)
  moreover have "x \<notin> fst ` set ?ms" if "x \<in> fst ` set hs" for x
  proof
    assume "x \<in> fst ` set ?ms"
    then obtain k where "x = metadata_prefix p @ k" by auto
    with fresh [of k] that show False by metis
  qed
  then have "fst ` set hs \<inter> fst ` set ?ms = {}" by blast
  ultimately have dist: "distinct (map fst (hs @ ?ms))" using assms(5)
    by (simp only: map_append distinct_append set_map simp_thms)
  have "get_aws_metadata (hs @ ?ms) p = fold (take_meta p) (map fst ?ms) ([], hs @ ?ms)"
    using take_meta_other [of "map fst hs" p "[]" "hs @ ?ms"] assms(4) by (simp add: get_aws_metadata_take)
  also have "\<dots> = (map (\<lambda>(k, v). (k, unquote v)) ms, hs)"
    unfolding keys using take_meta_all [OF assms(1) _ dist, of "[]"] assms(3) by simp
  finally show ?thesis using m by simp
qed

lemma unquote_no_percent: "CHR ''%'' \<notin> set s \<Longrightarrow> unquote s = s"
  by (induction s rule: unquote.induct) auto

section \<open>The canonical string in AWS's own terms\<close>

text \<open>The value a header name stands for: the last header of that name, in any case, that has one.\<close>

definition header_value :: "headers \<Rightarrow> string \<Rightarrow> hval option" where
  "header_value hs lk = map_of (rev (map (\<lambda>(k, v). (str_lower k, v)) (filter (\<lambda>(k, v). v \<noteq> HNone) hs))) lk"

definition header_text :: "headers \<Rightarrow> string \<Rightarrow> string" where
  "header_text hs lk = (case header_value hs lk of None \<Rightarrow> [] | Some v \<Rightarrow> str_strip (projr (hval_str v)))"

lemma interesting_headers_lookup:
  assumes "interesting_headers p hs acc = Inr d"
  shows "map_of d lk = (if interesting p lk \<and> header_value hs lk \<noteq> None then Some (header_text hs lk) else map_of acc lk)"
  using assms
proof (induction hs arbitrary: acc)
  case Nil
  then show ?case by (simp add: header_value_def)
next
  case (Cons h hs)
  obtain k v where h: "h = (k, v)" by fastforce
  have hv: "header_value (h # hs) lk = (case header_value hs lk of Some w \<Rightarrow> Some w
      | None \<Rightarrow> if v \<noteq> HNone \<and> str_lower k = lk then Some v else None)"
    by (auto simp: header_value_def h map_add_def split: option.splits)
  show ?case
  proof (cases "v \<noteq> HNone \<and> interesting p (str_lower k)")
    case True
    with Cons.prems h obtain s where s: "hval_str v = Inr s"
      "interesting_headers p hs (AList.update (str_lower k) (str_strip s) acc) = Inr d" by (auto simp: res_bind_Inr_iff)
    then show ?thesis using Cons.IH [OF s(2)] True hv
      by (auto simp: header_text_def update_conv' split: option.splits)
  next
    case False
    then have "interesting_headers p hs acc = Inr d" using Cons.prems h by auto
    then show ?thesis using Cons.IH False hv by (auto simp: header_text_def split: option.splits)
  qed
qed

lemma interesting_headers_distinct:
  "interesting_headers p hs acc = Inr d \<Longrightarrow> distinct (map fst acc) \<Longrightarrow> distinct (map fst d)"
  by (induction hs arbitrary: acc) (auto simp: res_bind_Inr_iff distinct_update split: if_splits)

definition amz_names :: "provider \<Rightarrow> headers \<Rightarrow> string list" where
  "amz_names p hs = sort (remdups (filter (\<lambda>lk. str_startswith lk (header_prefix p))
     (map (\<lambda>(k, v). str_lower k) (filter (\<lambda>(k, v). v \<noteq> HNone) hs))))"

definition signed_date :: "provider \<Rightarrow> headers \<Rightarrow> string option \<Rightarrow> string" where
  "signed_date p hs expires = (case expires of Some (c # e) \<Rightarrow> c # e
     | _ \<Rightarrow> if header_value hs (date_header p) \<noteq> None then [] else header_text hs ''date'')"

text \<open>
  The canonical resource of the documentation: the path, and the arguments of the query that name sub-resources or
  override headers of the response, in the order of their names, which is spelled out here, with their values decoded.
\<close>

definition subresources :: "string list" where
  "subresources =
    [''acl'', ''billing'', ''compose'', ''cors'', ''defaultObjectAcl'', ''delete'', ''encryptionConfig'',
     ''lifecycle'', ''location'', ''logging'', ''partNumber'', ''policy'', ''requestPayment'',
     ''response-cache-control'', ''response-content-disposition'', ''response-content-encoding'',
     ''response-content-language'', ''response-content-type'', ''response-expires'', ''restore'',
     ''storageClass'', ''tagging'', ''torrent'', ''uploadId'', ''uploads'', ''userProject'', ''versionId'',
     ''versioning'', ''versions'', ''website'', ''websiteConfig'']"

definition query_of :: "string \<Rightarrow> string" where
  "query_of path = takeWhile (\<lambda>c. c \<noteq> CHR ''?'') (tl (dropWhile (\<lambda>c. c \<noteq> CHR ''?'') path))"

definition arg_name :: "string \<Rightarrow> string" where
  "arg_name a = takeWhile (\<lambda>c. c \<noteq> CHR ''='') a"

definition decoded_arg :: "string \<Rightarrow> string" where
  "decoded_arg a = arg_name a @ (if CHR ''='' \<in> set a then ''='' @ unquote (drop (Suc (length (arg_name a))) a) else [])"

definition documented_resource :: "string \<Rightarrow> string" where
  "documented_resource path =
     (let args = str_split CHR ''&'' (query_of path);
          chosen = concat (map (\<lambda>n. map decoded_arg (filter (\<lambda>a. arg_name a = n) args)) subresources)
      in takeWhile (\<lambda>c. c \<noteq> CHR ''?'') path @ (if chosen = [] then [] else ''?'' @ str_join ''&'' chosen))"

text \<open>Sorting by a key gives for every key in order the elements that have it.\<close>

lemma concat_by_key:
  "distinct ns \<Longrightarrow> filter (\<lambda>x. f x = m) (concat (map (\<lambda>n. filter (\<lambda>x. f x = n) xs) ns)) = (if m \<in> set ns then filter (\<lambda>x. f x = m) xs else [])"
  by (induction ns) (auto simp: filter_empty_conv intro: filter_cong)

lemma mset_by_key:
  "distinct ns \<Longrightarrow> mset (concat (map (\<lambda>n. filter (\<lambda>x. f x = n) xs) ns)) = mset (filter (\<lambda>x. f x \<in> set ns) xs)"
proof (induction ns)
  case (Cons n ns)
  have "n \<notin> S \<Longrightarrow> mset (filter (\<lambda>x. f x = n \<or> f x \<in> S) xs) = mset (filter (\<lambda>x. f x = n) xs) + mset (filter (\<lambda>x. f x \<in> S) xs)" for S
    by (induction xs) auto
  then show ?case using Cons by (simp del: mset_filter)
qed simp

lemma sorted_by_key:
  "sorted ns \<Longrightarrow> sorted (map f (concat (map (\<lambda>n. filter (\<lambda>x. f x = n) xs) ns)))"
proof (induction ns)
  case (Cons n ns)
  have "sorted (map f (filter (\<lambda>x. f x = n) xs))" by (induction xs) auto
  with Cons show ?case by (auto simp: sorted_append)
qed simp

lemma sort_key_by_key:
  assumes "sorted ns" "distinct ns"
  shows "sort_key f (filter (\<lambda>x. f x \<in> set ns) xs) = concat (map (\<lambda>n. filter (\<lambda>x. f x = n) xs) ns)"
proof (rule properties_for_sort_key)
  show "mset (concat (map (\<lambda>n. filter (\<lambda>x. f x = n) xs) ns)) = mset (filter (\<lambda>x. f x \<in> set ns) xs)" by (rule mset_by_key [OF assms(2)])
  show "sorted (map f (concat (map (\<lambda>n. filter (\<lambda>x. f x = n) xs) ns)))" by (rule sorted_by_key [OF assms(1)])
  fix k assume "k \<in> set (concat (map (\<lambda>n. filter (\<lambda>x. f x = n) xs) ns))"
  then have "f k \<in> set ns" by auto
  then show "filter (\<lambda>x. f k = f x) (concat (map (\<lambda>n. filter (\<lambda>x. f x = n) xs) ns)) = filter (\<lambda>x. f k = f x) (filter (\<lambda>x. f x \<in> set ns) xs)"
    using concat_by_key [OF assms(2), of f "f k" xs] by (auto simp: eq_commute [of "f k"] intro: filter_cong)
qed

lemma subresources_sorted: "sorted subresources" "distinct subresources" "set subresources = set qsa_of_interest"
proof -
  show "sorted subresources" "distinct subresources" by code_simp+
  show "set subresources = set qsa_of_interest" unfolding subresources_def qsa_of_interest_def by (simp add: insert_commute)
qed

lemma str_split_step:
  "str_split c s = takeWhile (\<lambda>x. x \<noteq> c) s # (if c \<in> set s then str_split c (tl (dropWhile (\<lambda>x. x \<noteq> c) s)) else [])"
  by (induction s) auto

lemma decoded_qsa:
  "join_qsa (unquote_v (split_first CHR ''='' a)) = decoded_arg a" "fst (unquote_v (split_first CHR ''='' a)) = arg_name a"
  by (simp_all add: decoded_arg_def arg_name_def join_qsa_def unquote_v_def split_first_def dropWhile_eq_drop drop_Suc tl_drop)

lemma canonical_resource_documented: "canonical_resource path = documented_resource path"
proof -
  define args where "args = str_split CHR ''&'' (query_of path)"
  let ?named = "\<lambda>a. unquote_v (split_first CHR ''='' a)"
  define ys where "ys = map ?named args"
  have q: "str_split CHR ''?'' path ! 0 = takeWhile (\<lambda>c. c \<noteq> CHR ''?'') path"
    "1 < length (str_split CHR ''?'' path) \<longleftrightarrow> CHR ''?'' \<in> set path"
    "CHR ''?'' \<in> set path \<Longrightarrow> str_split CHR ''?'' path ! 1 = query_of path"
    unfolding query_of_def by (subst str_split_step, subst str_split_step, simp)+
  have pick: "map unquote_v (filter (\<lambda>a. fst a \<in> set qsa_of_interest) (map (split_first CHR ''='') args)) = filter (\<lambda>y. fst y \<in> set subresources) ys"
  proof -
    have "fst (unquote_v a) = fst a" for a by (simp add: unquote_v_def split: prod.splits option.splits)
    then show ?thesis by (simp add: ys_def subresources_sorted(3) filter_map comp_def)
  qed
  define picked where "picked = filter (\<lambda>y. fst y \<in> set subresources) ys"
  define chosen where "chosen = concat (map (\<lambda>n. map decoded_arg (filter (\<lambda>a. arg_name a = n) args)) subresources)"
  have "sort_key fst picked = concat (map (\<lambda>n. filter (\<lambda>y. fst y = n) ys) subresources)"
    unfolding picked_def by (rule sort_key_by_key [OF subresources_sorted(1,2)])
  then have chosen: "map join_qsa (sort_key fst picked) = chosen"
    by (simp add: chosen_def ys_def map_concat filter_map comp_def decoded_qsa)
  then have ne: "picked = [] \<longleftrightarrow> chosen = []" by (metis length_0_conv length_map length_sort)
  have spec: "documented_resource path = takeWhile (\<lambda>c. c \<noteq> CHR ''?'') path @ (if chosen = [] then [] else ''?'' @ str_join ''&'' chosen)"
    by (simp only: documented_resource_def chosen_def args_def Let_def)
  show ?thesis
  proof (cases "CHR ''?'' \<in> set path")
    case True
    then show ?thesis unfolding canonical_resource_def Let_def q(1) q(3) [OF True] args_def [symmetric] pick picked_def [symmetric] chosen spec
      using q(2) ne by simp
  next
    case False
    then have "dropWhile (\<lambda>c. c \<noteq> CHR ''?'') path = []" by auto
    then have "args = [[]]" by (simp only: args_def query_of_def list.sel takeWhile.simps str_split.simps)
    then have "chosen = []" by (simp add: chosen_def arg_name_def subresources_def)
    then show ?thesis using False q(2) by (simp add: canonical_resource_def Let_def q(1) spec)
  qed
qed

text \<open>
  \<open>HTTP-Verb, Content-MD5, Content-Type, Date, CanonicalizedAmzHeaders, CanonicalizedResource\<close>.
\<close>

definition aws_string_to_sign :: "string \<Rightarrow> string \<Rightarrow> headers \<Rightarrow> string option \<Rightarrow> provider \<Rightarrow> string" where
  "aws_string_to_sign method path hs expires p =
     method @ [CHR 0x0A] @ header_text hs ''content-md5'' @ [CHR 0x0A] @ header_text hs ''content-type'' @ [CHR 0x0A]
     @ signed_date p hs expires @ [CHR 0x0A]
     @ concat (map (\<lambda>k. k @ '':'' @ header_text hs k @ [CHR 0x0A]) (amz_names p hs))
     @ documented_resource path"

lemma header_value_names:
  "header_value hs lk \<noteq> None \<longleftrightarrow> lk \<in> set (map (\<lambda>(k, v). str_lower k) (filter (\<lambda>(k, v). v \<noteq> HNone) hs))"
  unfolding header_value_def dom_map_of by (force simp: image_iff)

lemma amz_names_set:
  "set (amz_names p hs) = {lk. str_startswith lk (header_prefix p) \<and> header_value hs lk \<noteq> None}"
  unfolding header_value_names by (auto simp: amz_names_def)

lemma prefix_after_date:
  assumes "header_prefix p \<in> {''x-amz-'', ''x-goog-''}" and "str_startswith k (header_prefix p)"
  shows "''content-md5'' < k \<and> ''content-type'' < k \<and> ''date'' < k"
proof -
  from assms obtain r where "k = CHR ''x'' # r" by (cases k) (auto simp: str_startswith_def)
  then show ?thesis by (simp add: less_char_def)
qed

lemma sort_keys_canonical:
  assumes p: "header_prefix p \<in> {''x-amz-'', ''x-goog-''}" and "distinct (map fst d)"
    and "fst ` set d = {''content-md5'', ''content-type'', ''date''} \<union> set (amz_names p hs)"
  shows "sort (map fst d) = [''content-md5'', ''content-type'', ''date''] @ amz_names p hs"
proof (rule sorted_distinct_set_unique)
  have after: "''content-md5'' < k \<and> ''content-type'' < k \<and> ''date'' < k" if "k \<in> set (amz_names p hs)" for k
    using prefix_after_date [OF p] that amz_names_set by blast
  have "sorted (amz_names p hs)" "distinct (amz_names p hs)" by (simp_all add: amz_names_def)
  then show "sorted ([''content-md5'', ''content-type'', ''date''] @ amz_names p hs)"
    using after by (simp add: less_char_def less_eq_char_def order_less_imp_le)
  have "''content-md5'' \<notin> set (amz_names p hs)" "''content-type'' \<notin> set (amz_names p hs)"
    "''date'' \<notin> set (amz_names p hs)" using after by blast+
  with \<open>distinct (amz_names p hs)\<close>
  show "distinct ([''content-md5'', ''content-type'', ''date''] @ amz_names p hs)" by simp
  show "set (sort (map fst d)) = set ([''content-md5'', ''content-type'', ''date''] @ amz_names p hs)"
    using assms(3) by simp
qed (use assms(2) in simp_all)

lemma set_default_lookup: "map_of (set_default k v d) k' = (if k' = k \<and> map_of d k = None then Some v else map_of d k')"
  by (simp add: set_default_def update_conv')

lemma set_default_distinct: "distinct (map fst d) \<Longrightarrow> distinct (map fst (set_default k v d))"
  by (simp add: set_default_def distinct_update)

text \<open>The dictionary \<open>canonical_string\<close> sorts and prints.\<close>

lemma canonical_dict:
  fixes expires :: "string option"
  assumes p: "header_prefix p \<in> {''x-amz-'', ''x-goog-''}" "str_startswith (date_header p) (header_prefix p)"
    and d0: "interesting_headers p hs [] = Inr d0"
    and date: "expires \<noteq> None \<and> expires \<noteq> Some [] \<or> header_value hs ''date'' \<noteq> None \<or> header_value hs (date_header p) \<noteq> None"
  defines "d1 \<equiv> set_default ''content-md5'' [] (set_default ''content-type'' [] d0)"
  defines "d2 \<equiv> (if map_of d1 (date_header p) \<noteq> None then AList.update ''date'' [] d1 else d1)"
  defines "d \<equiv> (case expires of None \<Rightarrow> d2 | Some e \<Rightarrow> if e = [] then d2 else AList.update ''date'' e d2)"
  shows "distinct (map fst d)"
    and "map_of d k = (if k = ''date'' then Some (signed_date p hs expires)
           else if k \<in> {''content-md5'', ''content-type''} then Some (header_text hs k)
           else if str_startswith k (header_prefix p) \<and> header_value hs k \<noteq> None then Some (header_text hs k) else None)"
proof -
  have "distinct (map fst d0)" using interesting_headers_distinct [OF d0] by simp
  then show "distinct (map fst d)"
    by (auto simp: d_def d2_def d1_def set_default_distinct distinct_update split: option.splits)
  have neq: "date_header p \<noteq> ''date''" "date_header p \<noteq> ''content-md5''" "date_header p \<noteq> ''content-type''"
    "\<not> str_startswith ''date'' (header_prefix p)"
    using p by (auto simp: str_startswith_def)
  have dh: "interesting p (date_header p)" using p(2) by (simp add: interesting_def)
  note look0 = interesting_headers_lookup [OF d0, simplified]
  have look1: "map_of d1 k = (if k \<in> {''content-md5'', ''content-type''} then Some (header_text hs k)
      else if interesting p k \<and> header_value hs k \<noteq> None then Some (header_text hs k) else None)" for k
    by (auto simp: d1_def set_default_lookup look0 interesting_def header_text_def)
  have look2: "map_of d2 k = (if k = ''date'' \<and> header_value hs (date_header p) \<noteq> None then Some [] else map_of d1 k)" for k
    using neq dh look1 [of "date_header p"]
    by (cases "header_value hs (date_header p)"; cases "k = ''date''") (simp_all add: d2_def update_conv')
  have look: "map_of d k = (if k = ''date'' \<and> expires \<noteq> None \<and> expires \<noteq> Some [] then expires else map_of d2 k)" for k
    by (auto simp: d_def update_conv' split: option.splits)
  show "map_of d k = (if k = ''date'' then Some (signed_date p hs expires)
           else if k \<in> {''content-md5'', ''content-type''} then Some (header_text hs k)
           else if str_startswith k (header_prefix p) \<and> header_value hs k \<noteq> None then Some (header_text hs k) else None)"
  proof (cases "k = ''date''")
    case True
    then show ?thesis using date
      by (cases expires; cases "the expires") (auto simp: look look2 look1 signed_date_def interesting_def)
  next
    case False
    then show ?thesis by (simp add: look look2 look1 interesting_def)
  qed
qed

text \<open>
  With a date, the canonical string is the one Amazon documents.
\<close>

lemma canonical_string_aws_format:
  assumes p: "header_prefix p \<in> {''x-amz-'', ''x-goog-''}" "str_startswith (date_header p) (header_prefix p)"
    and ok: "canonical_string method path hs expires p = Inr s"
    and date: "expires \<noteq> None \<and> expires \<noteq> Some [] \<or> header_value hs ''date'' \<noteq> None \<or> header_value hs (date_header p) \<noteq> None"
  shows "s = aws_string_to_sign method path hs expires p"
proof -
  from ok obtain d0 where d0: "interesting_headers p hs [] = Inr d0"
    by (auto simp: canonical_string_def res_bind_Inr_iff)
  define d1 where "d1 = set_default ''content-md5'' [] (set_default ''content-type'' [] d0)"
  define d2 where "d2 = (if map_of d1 (date_header p) \<noteq> None then AList.update ''date'' [] d1 else d1)"
  define d where "d = (case expires of None \<Rightarrow> d2 | Some e \<Rightarrow> if e = [] then d2 else AList.update ''date'' e d2)"
  note cd = canonical_dict [OF p d0 date, folded d1_def, folded d2_def, folded d_def]
  have s: "s = method @ [CHR 0x0A] @ header_lines p d @ canonical_resource path"
    using ok by (simp only: canonical_string_def d0 res_bind_simps Let_def d_def d2_def d1_def sum.inject)
  have keys: "fst ` set d = {''content-md5'', ''content-type'', ''date''} \<union> set (amz_names p hs)"
  proof (rule set_eqI)
    fix x show "x \<in> fst ` set d \<longleftrightarrow> x \<in> {''content-md5'', ''content-type'', ''date''} \<union> set (amz_names p hs)"
      unfolding dom_map_of [symmetric] amz_names_set cd(2) by simp
  qed
  have no: "\<not> str_startswith x (header_prefix p)" if "x \<in> {''content-md5'', ''content-type'', ''date''}" for x
    using that p(1) by (auto simp: str_startswith_def)
  have "header_lines p d = header_text hs ''content-md5'' @ [CHR 0x0A] @ header_text hs ''content-type'' @ [CHR 0x0A]
      @ signed_date p hs expires @ [CHR 0x0A] @ concat (map (\<lambda>k. k @ '':'' @ header_text hs k @ [CHR 0x0A]) (amz_names p hs))"
  proof -
    have amz: "str_startswith k (header_prefix p) \<and> the (map_of d k) = header_text hs k" if "k \<in> set (amz_names p hs)" for k
      using that no unfolding amz_names_set by (auto simp: cd(2))
    have "concat (map (\<lambda>k. if str_startswith k (header_prefix p) then k @ '':'' @ the (map_of d k) @ [CHR 0x0A]
        else the (map_of d k) @ [CHR 0x0A]) (amz_names p hs)) = concat (map (\<lambda>k. k @ '':'' @ header_text hs k @ [CHR 0x0A]) (amz_names p hs))"
      by (rule arg_cong [of _ _ concat], rule map_cong) (simp_all add: amz)
    then show ?thesis unfolding header_lines_def sort_keys_canonical [OF p(1) cd(1) keys]
      using no by (simp add: cd(2))
  qed
  then show ?thesis using s by (simp add: aws_string_to_sign_def canonical_resource_documented)
qed

section \<open>Properties\<close>

text \<open>
  C35: For a request with a date, or one that expires, the string that \<open>canonical_string\<close> gives for
  signing is the one documented by Amazon and Google: the verb, the MD5 and type of the content
  (empty if missing), the date (the expiry if there is one, empty if the provider's date header is
  there), the provider's headers by name, and the resource: the path and the arguments that are sub-resources, by name and
  with their values decoded.  Header names match in any case; the last header of a name counts.
\<close>

theorem canonical_string_documented:
  assumes "header_prefix p \<in> {''x-amz-'', ''x-goog-''}" and "str_startswith (date_header p) (header_prefix p)"
    and "canonical_string method path hs expires p = Inr s"
    and "expires \<noteq> None \<and> expires \<noteq> Some [] \<or> header_value hs ''date'' \<noteq> None \<or> header_value hs (date_header p) \<noteq> None"
  shows "s = aws_string_to_sign method path hs expires p"
  by (rule canonical_string_aws_format [OF assms])

definition aws_provider :: "string \<Rightarrow> string \<Rightarrow> string option \<Rightarrow> provider" where
  "aws_provider key secret token =
     \<lparr>access_key = key, secret_key = secret, security_token = token, header_prefix = ''x-amz-'',
      metadata_prefix = ''x-amz-meta-'', date_header = ''x-amz-date'', auth_header = ''AWS'',
      security_token_header = ''x-amz-security-token''\<rparr>"

theorem canonical_string_documented_witness:
  "canonical_string ''GET'' ''/b/k?acl'' [(''Date'', HStr ''d''), (''X-Amz-A'', HStr '' v '')] None (aws_provider ''k'' ''s'' None)
     = Inr (aws_string_to_sign ''GET'' ''/b/k?acl'' [(''Date'', HStr ''d''), (''X-Amz-A'', HStr '' v '')] None (aws_provider ''k'' ''s'' None))"
proof -
  let ?h = "[(''Date'', HStr ''d''), (''X-Amz-A'', HStr '' v '')]"
  let ?p = "aws_provider ''k'' ''s'' None"
  have "\<exists>s. canonical_string ''GET'' ''/b/k?acl'' ?h None ?p = Inr s"
    by (simp add: canonical_string_def interesting_def str_lower_def lower_char_def hval_str_def Let_def
        aws_provider_def str_startswith_def char_eval)
  then obtain s where s: "canonical_string ''GET'' ''/b/k?acl'' ?h None ?p = Inr s" by blast
  have "s = aws_string_to_sign ''GET'' ''/b/k?acl'' ?h None ?p"
    by (rule canonical_string_documented [OF _ _ s])
      (simp_all add: aws_provider_def str_startswith_def header_value_def str_lower_def lower_char_def char_eval)
  with s show ?thesis by simp
qed

end
