(* ===== verification/Conn_Pool.thy ===== *)
theory Conn_Pool
  imports Complex_Main Py_Prelude "HOL-Library.Multiset"
begin

text \<open>
  The pools of open connections of \<^verbatim>\<open>boto/connection.py\<close>: \<open>HostConnectionPool\<close> (one remote
  host, port and scheme) and \<open>ConnectionPool\<close>.

  \<^item> The clock is \<open>clk\<close>: its \<open>n\<close>-th reading by \<open>time.time()\<close> is \<open>clk n\<close>.  Operations take and
    return the number of readings made so far.
  \<^item> What other threads do to a connection is its response \<open>resp n c\<close> after \<open>n\<close> readings: no
    response attached, or one that is closed or not.
  \<^item> Each \<open>with self.mutex\<close> block is one atomic operation; a run is any sequence of them.
\<close>

section \<open>The pool of one host\<close>

type_synonym clock = "nat \<Rightarrow> real"
type_synonym 'c responses = "nat \<Rightarrow> 'c \<Rightarrow> bool option"
type_synonym 'c host_pool = "('c \<times> real) list"

definition host_pool_init :: "'c host_pool" where
  "host_pool_init = []"

definition host_pool_size :: "'c host_pool \<Rightarrow> nat" where
  "host_pool_size q = length q"

definition host_pool_put :: "clock \<Rightarrow> 'c \<Rightarrow> nat \<Rightarrow> 'c host_pool \<Rightarrow> nat \<times> 'c host_pool" where
  "host_pool_put clk c n q = (Suc n, q @ [(c, clk n)])"

text \<open>\<open>on_gae\<close> is the module constant \<open>ON_APP_ENGINE\<close>.\<close>

definition conn_ready :: "bool \<Rightarrow> bool option \<Rightarrow> bool" where
  "conn_ready on_gae r \<longleftrightarrow> (if on_gae then False else case r of None \<Rightarrow> True | Some is_closed \<Rightarrow> is_closed)"

definition pair_stale :: "real \<Rightarrow> real \<Rightarrow> 'c \<times> real \<Rightarrow> bool" where
  "pair_stale duration now p \<longleftrightarrow> snd p + duration < now"

fun host_pool_clean :: "real \<Rightarrow> clock \<Rightarrow> nat \<Rightarrow> 'c host_pool \<Rightarrow> nat \<times> 'c host_pool" where
  "host_pool_clean d clk n [] = (n, [])"
| "host_pool_clean d clk n (p # q) =
     (if pair_stale d (clk n) p then host_pool_clean d clk (Suc n) q else (Suc n, p # q))"

text \<open>The loop of \<open>get\<close>, \<open>k\<close> rounds left.\<close>

fun get_rounds :: "bool \<Rightarrow> clock \<Rightarrow> 'c responses \<Rightarrow> nat \<Rightarrow> nat \<Rightarrow> 'c host_pool \<Rightarrow> 'c option res \<times> nat \<times> 'c host_pool" where
  "get_rounds g clk resp 0 n q = (Inr None, n, q)"
| "get_rounds g clk resp (Suc k) n [] = (Inl IndexError, n, [])"
| "get_rounds g clk resp (Suc k) n (p # q) =
     (if conn_ready g (resp n (fst p)) then (Inr (Some (fst p)), n, q)
      else case host_pool_put clk (fst p) n q of (n', q') \<Rightarrow> get_rounds g clk resp k n' q')"

definition host_pool_get :: "bool \<Rightarrow> real \<Rightarrow> clock \<Rightarrow> 'c responses \<Rightarrow> nat \<Rightarrow> 'c host_pool \<Rightarrow> 'c option res \<times> nat \<times> 'c host_pool" where
  "host_pool_get g d clk resp n q =
     (case host_pool_clean d clk n q of (n', q') \<Rightarrow> get_rounds g clk resp (length q') n' q')"

section \<open>The pool of all hosts\<close>

text \<open>A port is a number, or the text after the colon of a redirect's host.\<close>

datatype port = PortNum nat | PortStr string

type_synonym conn_key = "string \<times> port \<times> bool"

record 'c conn_pool =
  host_to_pool :: "(conn_key, 'c host_pool) dict"
  last_clean_time :: real

definition CLEAN_INTERVAL :: real where "CLEAN_INTERVAL = 5"
definition STALE_DURATION :: real where "STALE_DURATION = 60"

text \<open>The constructor resets the duration of the class, from the configuration if it has one.\<close>

definition stale_duration_init :: "real option \<Rightarrow> real \<Rightarrow> real" where
  "stale_duration_init configured current = (case configured of None \<Rightarrow> current | Some d \<Rightarrow> d)"

definition conn_pool_init :: "'c conn_pool" where
  "conn_pool_init = \<lparr>host_to_pool = [], last_clean_time = 0\<rparr>"

text \<open>Pickling drops the connections; unpickling starts with a new pool.\<close>

definition conn_pool_getstate :: "'c conn_pool \<Rightarrow> 'c conn_pool" where
  "conn_pool_getstate s = s\<lparr>host_to_pool := []\<rparr>"

definition conn_pool_setstate :: "'c conn_pool \<Rightarrow> 'c conn_pool" where
  "conn_pool_setstate dct = conn_pool_init"

definition conn_pool_size :: "'c conn_pool \<Rightarrow> nat" where
  "conn_pool_size s = sum_list (map (\<lambda>(_, q). host_pool_size q) (host_to_pool s))"

fun clean_hosts :: "real \<Rightarrow> clock \<Rightarrow> nat \<Rightarrow> (conn_key, 'c host_pool) dict \<Rightarrow> nat \<times> (conn_key, 'c host_pool) dict" where
  "clean_hosts d clk n [] = (n, [])"
| "clean_hosts d clk n ((k, q) # hs) =
     (case host_pool_clean d clk n q of (n1, q') \<Rightarrow>
        (case clean_hosts d clk n1 hs of (n2, hs') \<Rightarrow> (n2, (k, q') # hs')))"

definition conn_pool_clean :: "real \<Rightarrow> clock \<Rightarrow> nat \<Rightarrow> 'c conn_pool \<Rightarrow> nat \<times> 'c conn_pool" where
  "conn_pool_clean d clk n s =
     (let now = clk n
      in if last_clean_time s + CLEAN_INTERVAL < now
         then (case clean_hosts d clk (Suc n) (host_to_pool s) of (n', hs) \<Rightarrow>
                 (n', s\<lparr>host_to_pool := filter (\<lambda>(_, q). host_pool_size q \<noteq> 0) hs, last_clean_time := now\<rparr>))
         else (Suc n, s))"

text \<open>The part of \<open>get_http_connection\<close> that holds the mutex, and the whole of it.\<close>

definition get_locked :: "bool \<Rightarrow> real \<Rightarrow> clock \<Rightarrow> 'c responses \<Rightarrow> conn_key \<Rightarrow> nat \<Rightarrow> 'c conn_pool \<Rightarrow> 'c option res \<times> nat \<times> 'c conn_pool" where
  "get_locked g d clk resp k n s =
     (case map_of (host_to_pool s) k of
        None \<Rightarrow> (Inr None, n, s)
      | Some q \<Rightarrow> (case host_pool_get g d clk resp n q of (r, n', q') \<Rightarrow>
          (r, n', s\<lparr>host_to_pool := AList.update k q' (host_to_pool s)\<rparr>)))"

definition get_http_connection :: "bool \<Rightarrow> real \<Rightarrow> clock \<Rightarrow> 'c responses \<Rightarrow> conn_key \<Rightarrow> nat \<Rightarrow> 'c conn_pool \<Rightarrow> 'c option res \<times> nat \<times> 'c conn_pool" where
  "get_http_connection g d clk resp k n s =
     (case conn_pool_clean d clk n s of (n', s') \<Rightarrow> get_locked g d clk resp k n' s')"

definition put_http_connection :: "clock \<Rightarrow> conn_key \<Rightarrow> 'c \<Rightarrow> nat \<Rightarrow> 'c conn_pool \<Rightarrow> nat \<times> 'c conn_pool" where
  "put_http_connection clk k c n s =
     (let q = (case map_of (host_to_pool s) k of None \<Rightarrow> host_pool_init | Some q \<Rightarrow> q)
      in case host_pool_put clk c n q of (n', q') \<Rightarrow>
           (n', s\<lparr>host_to_pool := AList.update k q' (host_to_pool s)\<rparr>))"

section \<open>Operations on one host\<close>

definition sorted_times :: "clock \<Rightarrow> nat \<Rightarrow> 'c host_pool \<Rightarrow> bool" where
  "sorted_times clk n q \<longleftrightarrow> sorted (map snd q) \<and> (\<forall>p \<in> set q. snd p \<le> clk n)"

lemma sorted_times_later: "mono clk \<Longrightarrow> n \<le> n' \<Longrightarrow> sorted_times clk n q \<Longrightarrow> sorted_times clk n' q"
  by (auto simp: sorted_times_def monoD intro: order_trans)

lemma sorted_times_put: "mono clk \<Longrightarrow> sorted_times clk n q \<Longrightarrow> sorted_times clk (Suc n) (q @ [(c, clk n)])"
  using monoD [of clk n "Suc n"] by (auto simp: sorted_times_def sorted_append intro: order_trans)

lemma clean_suffix: "host_pool_clean d clk n q = (n', q') \<Longrightarrow> n \<le> n' \<and> (\<exists>xs. q = xs @ q')"
proof (induction q arbitrary: n)
  case Nil
  then show ?case by simp
next
  case (Cons p q)
  show ?case
  proof (cases "pair_stale d (clk n) p")
    case True
    with Cons.IH [of "Suc n"] Cons.prems obtain xs where "Suc n \<le> n'" "q = xs @ q'" by auto
    then show ?thesis by (intro conjI exI [of _ "p # xs"]) simp_all
  next
    case False
    with Cons.prems show ?thesis by auto
  qed
qed

text \<open>Nothing stale at the start of the clean-up is left, as the queue is in order of time.\<close>

lemma clean_fresh:
  "mono clk \<Longrightarrow> sorted (map snd q) \<Longrightarrow> host_pool_clean d clk n q = (n', q') \<Longrightarrow> p \<in> set q' \<Longrightarrow> clk n \<le> snd p + d"
proof (induction q arbitrary: n)
  case Nil
  then show ?case by simp
next
  case (Cons p0 q)
  show ?case
  proof (cases "pair_stale d (clk n) p0")
    case True
    with Cons have "clk (Suc n) \<le> snd p + d" by simp
    then show ?thesis using monoD [OF Cons.prems(1), of n "Suc n"] by simp
  next
    case False
    with Cons.prems have "clk n \<le> snd p0 + d" "snd p0 \<le> snd p" by (auto simp: pair_stale_def)
    then show ?thesis by simp
  qed
qed

lemma clean_sorted:
  assumes "mono clk" and "sorted_times clk n q" and "host_pool_clean d clk n q = (n', q')"
  shows "sorted_times clk n' q'"
proof -
  from clean_suffix [OF assms(3)] obtain xs where "n \<le> n'" "q = xs @ q'" by auto
  with sorted_times_later [OF assms(1) _ assms(2)] show ?thesis
    by (auto simp: sorted_times_def sorted_append)
qed

lemma rounds_ok:
  "k \<le> length q \<Longrightarrow> get_rounds g clk resp k n q = (r, n', q') \<Longrightarrow>
    (\<exists>o'. r = Inr o') \<and> n \<le> n'"
proof (induction k arbitrary: n q)
  case 0
  then show ?case by auto
next
  case (Suc k)
  then obtain p ps where "q = p # ps" by (cases q) auto
  with Suc.prems Suc.IH [of "ps @ [(fst p, clk n)]" "Suc n"] show ?case
    by (auto simp: host_pool_put_def split: if_splits)
qed

lemma rounds_sorted:
  "mono clk \<Longrightarrow> sorted_times clk n q \<Longrightarrow> get_rounds g clk resp k n q = (r, n', q') \<Longrightarrow> sorted_times clk n' q'"
proof (induction k arbitrary: n q)
  case 0
  then show ?case by simp
next
  case (Suc k)
  show ?case
  proof (cases q)
    case Nil
    with Suc.prems show ?thesis by simp
  next
    case (Cons p ps)
    with Suc.prems have ps: "sorted_times clk n ps" by (auto simp: sorted_times_def)
    from sorted_times_put [OF Suc.prems(1) this] Suc.IH Suc.prems Cons ps show ?thesis
      by (auto simp: host_pool_put_def split: if_splits)
  qed
qed

text \<open>What the rounds take out and what stays.\<close>

definition conns :: "'c host_pool \<Rightarrow> 'c multiset" where
  "conns q = mset (map fst q)"

definition taken :: "'c option res \<Rightarrow> 'c multiset" where
  "taken r = (case r of Inr (Some c) \<Rightarrow> {#c#} | _ \<Rightarrow> {#})"

lemma rounds_conns:
  "get_rounds g clk resp k n q = (r, n', q') \<Longrightarrow> conns q' + taken r = conns q"
proof (induction k arbitrary: n q)
  case 0
  then show ?case by (auto simp: taken_def)
next
  case (Suc k)
  show ?case
  proof (cases q)
    case Nil
    with Suc.prems show ?thesis by (auto simp: taken_def)
  next
    case (Cons p ps)
    with Suc.prems Suc.IH [of "Suc n" "ps @ [(fst p, clk n)]"] show ?thesis
      by (auto simp: host_pool_put_def conns_def taken_def split: if_splits)
  qed
qed

lemma rounds_result:
  "get_rounds g clk resp k n q = (Inr (Some c), n', q') \<Longrightarrow> \<not> g \<and> conn_ready g (resp n' c)"
proof (induction k arbitrary: n q)
  case 0
  then show ?case by simp
next
  case (Suc k)
  then show ?case by (cases q) (auto simp: host_pool_put_def conn_ready_def split: if_splits)
qed

text \<open>
  In \<open>k \<le> length q\<close> rounds a connection is found exactly if one of the first \<open>k\<close> is ready when its
  turn comes, and it is the first such one.
\<close>

lemma find_Suc: "find P [0..<Suc k] = (if P 0 then Some 0 else map_option Suc (find (P \<circ> Suc) [0..<k]))"
proof -
  have map: "find P (map Suc xs) = map_option Suc (find (P \<circ> Suc) xs)" for xs by (induction xs) auto
  have "[0..<Suc k] = 0 # map Suc [0..<k]" by (metis map_Suc_upt upt_conv_Cons zero_less_Suc)
  then show ?thesis by (simp add: map del: upt_Suc)
qed

lemma find_bound: "find P [0..<k] = Some i \<Longrightarrow> i < k"
  by (auto simp: find_Some_iff)

lemma rounds_first:
  "k \<le> length q \<Longrightarrow> get_rounds g clk resp k n q =
     (case find (\<lambda>i. conn_ready g (resp (n + i) (fst (q ! i)))) [0..<k] of
        None \<Rightarrow> (Inr None, n + k, drop k q @ map (\<lambda>i. (fst (q ! i), clk (n + i))) [0..<k])
      | Some i \<Rightarrow> (Inr (Some (fst (q ! i))), n + i, drop (Suc i) q @ map (\<lambda>j. (fst (q ! j), clk (n + j))) [0..<i]))"
proof (induction k arbitrary: n q)
  case 0
  then show ?case by simp
next
  case (Suc k)
  then obtain p ps where q: "q = p # ps" and len: "k \<le> length ps" by (cases q) auto
  define q' where "q' = ps @ [(fst p, clk n)]"
  have nth: "fst (q' ! i) = fst (q ! Suc i)" if "i < k" for i using that len by (simp add: q'_def q nth_append)
  have fnd: "find (\<lambda>i. conn_ready g (resp (Suc n + i) (fst (q' ! i)))) [0..<k]
      = find ((\<lambda>i. conn_ready g (resp (n + i) (fst (q ! i)))) \<circ> Suc) [0..<k]"
    by (rule find_cong) (simp_all add: nth)
  have upt: "map f [0..<Suc m] = f 0 # map (\<lambda>i. f (Suc i)) [0..<m]" for f :: "nat \<Rightarrow> 'b \<times> real" and m
    by (simp add: upt_conv_Cons map_Suc_upt [symmetric] del: upt_Suc)
  show ?case
  proof (cases "conn_ready g (resp n (fst p))")
    case True
    then show ?thesis by (simp add: q find_Suc del: upt_Suc)
  next
    case False
    have "get_rounds g clk resp (Suc k) n q = get_rounds g clk resp k (Suc n) q'"
      using False by (simp add: q q'_def host_pool_put_def)
    also have "\<dots> = (case find ((\<lambda>i. conn_ready g (resp (n + i) (fst (q ! i)))) \<circ> Suc) [0..<k] of
        None \<Rightarrow> (Inr None, Suc n + k, drop k q' @ map (\<lambda>i. (fst (q' ! i), clk (Suc n + i))) [0..<k])
      | Some i \<Rightarrow> (Inr (Some (fst (q' ! i))), Suc n + i, drop (Suc i) q' @ map (\<lambda>j. (fst (q' ! j), clk (Suc n + j))) [0..<i]))"
      using Suc.IH [of q' "Suc n"] len fnd by (simp add: q'_def)
    also have "\<dots> = (case find (\<lambda>i. conn_ready g (resp (n + i) (fst (q ! i)))) [0..<Suc k] of
        None \<Rightarrow> (Inr None, n + Suc k, drop (Suc k) q @ map (\<lambda>i. (fst (q ! i), clk (n + i))) [0..<Suc k])
      | Some i \<Rightarrow> (Inr (Some (fst (q ! i))), n + i, drop (Suc i) q @ map (\<lambda>j. (fst (q ! j), clk (n + j))) [0..<i]))"
    proof (cases "find ((\<lambda>i. conn_ready g (resp (n + i) (fst (q ! i)))) \<circ> Suc) [0..<k]")
      case None
      then show ?thesis using False len nth by (simp add: find_Suc q q'_def upt del: upt_Suc)
    next
      case (Some i)
      then have "i < k" by (rule find_bound)
      then show ?thesis using Some False len nth by (simp add: find_Suc q q'_def upt del: upt_Suc)
    qed
    finally show ?thesis .
  qed
qed

lemma get_conns: "host_pool_get g d clk resp n q = (r, n', q') \<Longrightarrow> conns q' + taken r \<subseteq># conns q"
  by (auto simp: host_pool_get_def conns_def dest!: clean_suffix rounds_conns split: prod.splits)

lemma get_times:
  assumes "mono clk" and "sorted_times clk n q" and "host_pool_get g d clk resp n q = (r, n', q')"
  shows "sorted_times clk n' q'"
proof -
  obtain n1 q1 where q1: "host_pool_clean d clk n q = (n1, q1)" by fastforce
  with assms(3) have "get_rounds g clk resp (length q1) n1 q1 = (r, n', q')" by (simp add: host_pool_get_def)
  from rounds_sorted [OF assms(1) clean_sorted [OF assms(1,2) q1] this] show ?thesis .
qed

lemma get_total: "host_pool_get g d clk resp n q = (r, n', q') \<Longrightarrow> (\<exists>c. r = Inr c) \<and> n \<le> n'"
  by (fastforce simp: host_pool_get_def dest: clean_suffix rounds_ok [OF order_refl] split: prod.splits)

text \<open>The connection handed out is ready, and was returned at most \<open>d\<close> before the call.\<close>

lemma get_fresh:
  assumes "mono clk" and "sorted (map snd q)" and "host_pool_get g d clk resp n q = (Inr (Some c), n', q')"
  shows "conn_ready g (resp n' c) \<and> (\<exists>rt. (c, rt) \<in> set q \<and> clk n \<le> rt + d)"
proof -
  obtain n1 q1 where q1: "host_pool_clean d clk n q = (n1, q1)" by fastforce
  with assms(3) have r: "get_rounds g clk resp (length q1) n1 q1 = (Inr (Some c), n', q')"
    by (simp add: host_pool_get_def)
  have "add_mset c (conns q') = conns q1" using rounds_conns [OF r] by (simp add: taken_def)
  then have "c \<in># conns q1" by (metis union_single_eq_member)
  then obtain rt where "(c, rt) \<in> set q1" by (auto simp: conns_def)
  moreover have "set q1 \<subseteq> set q" using clean_suffix [OF q1] by auto
  ultimately show ?thesis using clean_fresh [OF assms(1,2) q1] rounds_result [OF r] by fastforce
qed

section \<open>Whose a connection is\<close>

text \<open>
  What the users of a pool rely on: a connection in it under a key was put there under that key,
  and taking it out removes it, so that no two of them are given the same connection.
\<close>

datatype 'c pool_op = Tidy | Take conn_key | Give conn_key 'c

definition handed_out :: "conn_key \<Rightarrow> (conn_key \<times> 'c option res) list \<Rightarrow> 'c multiset" where
  "handed_out k out = sum_list (map (\<lambda>(k', r). if k' = k then taken r else {#}) out)"

definition returned :: "conn_key \<Rightarrow> 'c pool_op list \<Rightarrow> 'c multiset" where
  "returned k ps = sum_list (map (\<lambda>p. case p of Give k' c \<Rightarrow> if k' = k then {#c#} else {#} | _ \<Rightarrow> {#}) ps)"

locale conn_store =
  fixes held :: "'s \<Rightarrow> conn_key \<Rightarrow> 'c multiset"
    and ok :: "'s \<Rightarrow> bool"
    and tidy :: "'s \<Rightarrow> 's"
    and fetch :: "conn_key \<Rightarrow> 's \<Rightarrow> 'c option res \<times> 's"
    and give :: "conn_key \<Rightarrow> 'c \<Rightarrow> 's \<Rightarrow> 's"
  assumes ok_tidy: "ok s \<Longrightarrow> ok (tidy s)" and ok_fetch: "ok s \<Longrightarrow> ok (snd (fetch k s))"
    and ok_give: "ok s \<Longrightarrow> ok (give k c s)"
    and held_tidy: "ok s \<Longrightarrow> held (tidy s) k \<subseteq># held s k"
    and held_fetch: "ok s \<Longrightarrow> held (snd (fetch k s)) k + taken (fst (fetch k s)) \<subseteq># held s k"
    and held_fetch_other: "ok s \<Longrightarrow> k' \<noteq> k \<Longrightarrow> held (snd (fetch k s)) k' = held s k'"
    and held_give: "ok s \<Longrightarrow> held (give k c s) k' = held s k' + (if k' = k then {#c#} else {#})"
begin

primrec step :: "'c pool_op \<Rightarrow> 's \<Rightarrow> (conn_key \<times> 'c option res) list \<times> 's" where
  "step Tidy s = ([], tidy s)"
| "step (Take k) s = ([(k, fst (fetch k s))], snd (fetch k s))"
| "step (Give k c) s = ([], give k c s)"

primrec steps :: "'c pool_op list \<Rightarrow> 's \<Rightarrow> (conn_key \<times> 'c option res) list \<times> 's" where
  "steps [] s = ([], s)"
| "steps (p # ps) s = (fst (step p s) @ fst (steps ps (snd (step p s))), snd (steps ps (snd (step p s))))"

lemma ok_step: "ok s \<Longrightarrow> ok (snd (step p s))"
  by (cases p) (simp_all add: ok_tidy ok_fetch ok_give)

lemma held_step:
  assumes "ok s"
  shows "held (snd (step p s)) k + handed_out k (fst (step p s)) \<subseteq># held s k + returned k [p]"
proof (cases p)
  case Tidy
  then show ?thesis using held_tidy [OF assms] by (simp add: handed_out_def returned_def)
next
  case (Take k')
  then show ?thesis using held_fetch [OF assms, of k] held_fetch_other [OF assms, of k k']
    by (cases "k' = k") (simp_all add: handed_out_def returned_def)
next
  case (Give k' c)
  then show ?thesis using held_give [OF assms, of k' c k] by (simp add: handed_out_def returned_def)
qed

lemma held_steps:
  "ok s \<Longrightarrow> held (snd (steps ps s)) k + handed_out k (fst (steps ps s)) \<subseteq># held s k + returned k ps"
proof (induction ps arbitrary: s)
  case Nil
  then show ?case by (simp add: handed_out_def returned_def)
next
  case (Cons p ps)
  let ?t = "snd (step p s)"
  have "held (snd (steps ps ?t)) k + handed_out k (fst (steps ps ?t)) \<subseteq># held ?t k + returned k ps"
    using Cons.IH [OF ok_step [OF Cons.prems]] .
  then have "held (snd (steps ps ?t)) k + handed_out k (fst (steps ps ?t)) + handed_out k (fst (step p s))
      \<subseteq># held ?t k + returned k ps + handed_out k (fst (step p s))"
    by (rule subset_mset.add_right_mono)
  also have "\<dots> \<subseteq># held s k + returned k [p] + returned k ps"
    using subset_mset.add_right_mono [OF held_step [OF Cons.prems, of p k], of "returned k ps"]
    by (simp add: ac_simps)
  finally show ?case by (simp add: handed_out_def returned_def ac_simps)
qed

text \<open>What the store holds and has handed out under a key was put there under that key.\<close>

lemma held_or_handed_out:
  "ok s \<Longrightarrow> held s k = {#} \<Longrightarrow> held (snd (steps ps s)) k + handed_out k (fst (steps ps s)) \<subseteq># returned k ps"
  using held_steps [of s ps k] by simp

end

section \<open>The pool keeps the contract\<close>

definition pool_held :: "nat \<times> 'c conn_pool \<Rightarrow> conn_key \<Rightarrow> 'c multiset" where
  "pool_held s k = (case map_of (host_to_pool (snd s)) k of None \<Rightarrow> {#} | Some q \<Rightarrow> conns q)"

definition pool_ok :: "nat \<times> 'c conn_pool \<Rightarrow> bool" where
  "pool_ok s \<longleftrightarrow> distinct (map fst (host_to_pool (snd s)))"

definition pool_tidy :: "real \<Rightarrow> clock \<Rightarrow> nat \<times> 'c conn_pool \<Rightarrow> nat \<times> 'c conn_pool" where
  "pool_tidy d clk s = conn_pool_clean d clk (fst s) (snd s)"

definition pool_take :: "bool \<Rightarrow> real \<Rightarrow> clock \<Rightarrow> 'c responses \<Rightarrow> conn_key \<Rightarrow> nat \<times> 'c conn_pool \<Rightarrow> 'c option res \<times> (nat \<times> 'c conn_pool)" where
  "pool_take g d clk resp k s = get_locked g d clk resp k (fst s) (snd s)"

definition pool_give :: "clock \<Rightarrow> conn_key \<Rightarrow> 'c \<Rightarrow> nat \<times> 'c conn_pool \<Rightarrow> nat \<times> 'c conn_pool" where
  "pool_give clk k c s = put_http_connection clk k c (fst s) (snd s)"

lemma clean_hosts_keys: "clean_hosts d clk n hs = (n', hs') \<Longrightarrow> map fst hs' = map fst hs"
  by (induction hs arbitrary: n n' hs') (auto split: prod.splits)

lemma clean_hosts_later: "clean_hosts d clk n hs = (n', hs') \<Longrightarrow> n \<le> n'"
  by (induction hs arbitrary: n n' hs') (fastforce dest: clean_suffix split: prod.splits)+

lemma clean_hosts_lookup:
  "clean_hosts d clk n hs = (n', hs') \<Longrightarrow> map_of hs' k = Some q' \<Longrightarrow>
    \<exists>q m m'. map_of hs k = Some q \<and> host_pool_clean d clk m q = (m', q') \<and> n \<le> m \<and> m' \<le> n'"
proof (induction hs arbitrary: n n' hs')
  case Nil
  then show ?case by simp
next
  case (Cons h hs)
  obtain k0 q0 where h: "h = (k0, q0)" by fastforce
  obtain m1 q1 where c1: "host_pool_clean d clk n q0 = (m1, q1)" by fastforce
  obtain m2 hs2 where c2: "clean_hosts d clk m1 hs = (m2, hs2)" by fastforce
  have eq: "n' = m2" "hs' = (k0, q1) # hs2" using Cons.prems(1) h c1 c2 by simp_all
  have n1: "n \<le> m1" using clean_suffix [OF c1] by simp
  show ?case
  proof (cases "k = k0")
    case True
    then show ?thesis using h c1 eq Cons.prems(2) clean_hosts_later [OF c2] by auto
  next
    case False
    then have "map_of hs2 k = Some q'" using Cons.prems(2) eq by simp
    from Cons.IH [OF c2 this] False h eq(1) n1 show ?thesis by force
  qed
qed

lemma map_of_filter_distinct:
  "distinct (map fst xs) \<Longrightarrow> map_of (filter (\<lambda>(_, q). P q) xs) k = Some q \<longleftrightarrow> map_of xs k = Some q \<and> P q"
proof (induction xs)
  case Nil
  then show ?case by simp
next
  case (Cons x xs)
  then show ?case by (cases x) (force simp: map_of_eq_None_iff dest: map_of_SomeD)
qed

lemma pool_clean_lookup:
  assumes "pool_ok s" and "pool_tidy d clk s = (n', s')" and "map_of (host_to_pool s') k = Some q'"
  shows "\<exists>q. map_of (host_to_pool (snd s)) k = Some q \<and>
           (n' = Suc (fst s) \<and> q' = q \<or> (\<exists>m m'. host_pool_clean d clk m q = (m', q') \<and> fst s \<le> m \<and> m' \<le> n'))"
proof (cases "last_clean_time (snd s) + CLEAN_INTERVAL < clk (fst s)")
  case False
  with assms show ?thesis by (auto simp: pool_tidy_def conn_pool_clean_def Let_def)
next
  case True
  obtain m hs where c: "clean_hosts d clk (Suc (fst s)) (host_to_pool (snd s)) = (m, hs)" by fastforce
  then have s': "n' = m" "host_to_pool s' = filter (\<lambda>(_, q). host_pool_size q \<noteq> 0) hs"
    using True assms(2) by (auto simp: pool_tidy_def conn_pool_clean_def Let_def)
  have "distinct (map fst hs)" using assms(1) clean_hosts_keys [OF c] by (simp add: pool_ok_def)
  then have "map_of hs k = Some q'" using assms(3) s'(2) by (simp add: map_of_filter_distinct)
  from clean_hosts_lookup [OF c this] s'(1) show ?thesis by force
qed

lemma pool_ok_tidy:
  assumes "pool_ok s"
  shows "pool_ok (pool_tidy d clk s)"
proof -
  have "distinct (map fst hs) \<Longrightarrow> distinct (map fst (filter P hs))" for hs :: "(conn_key, 'a host_pool) dict" and P
    by (induction hs) auto
  then show ?thesis using assms
    by (auto simp: pool_ok_def pool_tidy_def conn_pool_clean_def Let_def dest!: clean_hosts_keys split: prod.splits)
qed

lemma pool_ok_take: "pool_ok s \<Longrightarrow> pool_ok (snd (pool_take g d clk resp k s))"
  by (auto simp: pool_ok_def pool_take_def get_locked_def distinct_update split: option.splits prod.splits)

lemma pool_ok_give: "pool_ok s \<Longrightarrow> pool_ok (pool_give clk k c s)"
  by (auto simp: pool_ok_def pool_give_def put_http_connection_def distinct_update Let_def split: prod.splits)

lemma pool_held_tidy:
  assumes "pool_ok s"
  shows "pool_held (pool_tidy d clk s) k \<subseteq># pool_held s k"
proof (cases "map_of (host_to_pool (snd (pool_tidy d clk s))) k")
  case None
  then show ?thesis by (simp add: pool_held_def)
next
  case (Some q')
  from pool_clean_lookup [OF assms _ Some] obtain q where q: "map_of (host_to_pool (snd s)) k = Some q"
    and "q' = q \<or> (\<exists>m m'. host_pool_clean d clk m q = (m', q'))" by (metis prod.collapse)
  then have "conns q' \<subseteq># conns q" by (auto simp: conns_def dest!: clean_suffix)
  then show ?thesis using q Some by (simp add: pool_held_def)
qed

lemma pool_held_take:
  "pool_held (snd (pool_take g d clk resp k s)) k + taken (fst (pool_take g d clk resp k s)) \<subseteq># pool_held s k"
  by (auto simp: pool_held_def pool_take_def get_locked_def update_conv' taken_def [of "Inr None"]
      dest: get_conns split: option.splits prod.splits)

lemma pool_held_take_other:
  "k' \<noteq> k \<Longrightarrow> pool_held (snd (pool_take g d clk resp k s)) k' = pool_held s k'"
  by (auto simp: pool_held_def pool_take_def get_locked_def update_conv' split: option.splits prod.splits)

lemma pool_held_give:
  "pool_held (pool_give clk k c s) k' = pool_held s k' + (if k' = k then {#c#} else {#})"
  by (auto simp: pool_held_def pool_give_def put_http_connection_def host_pool_put_def host_pool_init_def
      update_conv' conns_def Let_def split: option.splits)

interpretation pool: conn_store pool_held pool_ok "pool_tidy d clk" "pool_take g d clk resp" "pool_give clk"
  for d clk g resp
  by unfold_locales (rule pool_ok_tidy pool_ok_take pool_ok_give pool_held_tidy pool_held_take
      pool_held_take_other pool_held_give; assumption?)+

section \<open>Runs\<close>

definition pool_op :: "bool \<Rightarrow> real \<Rightarrow> clock \<Rightarrow> 'c responses \<Rightarrow> 'c pool_op \<Rightarrow> nat \<times> 'c conn_pool \<Rightarrow> (conn_key \<times> 'c option res) list \<times> (nat \<times> 'c conn_pool)" where
  "pool_op g d clk resp p s = (case p of
     Tidy \<Rightarrow> ([], pool_tidy d clk s)
   | Take k \<Rightarrow> (case pool_take g d clk resp k s of (r, t) \<Rightarrow> ([(k, r)], t))
   | Give k c \<Rightarrow> ([], pool_give clk k c s))"

primrec pool_run :: "bool \<Rightarrow> real \<Rightarrow> clock \<Rightarrow> 'c responses \<Rightarrow> 'c pool_op list \<Rightarrow> nat \<times> 'c conn_pool \<Rightarrow> (conn_key \<times> 'c option res) list \<times> (nat \<times> 'c conn_pool)" where
  "pool_run g d clk resp [] s = ([], s)"
| "pool_run g d clk resp (p # ps) s =
     (case pool_op g d clk resp p s of (out, t) \<Rightarrow> (case pool_run g d clk resp ps t of (out', u) \<Rightarrow> (out @ out', u)))"

lemma pool_run_steps: "pool_run g d clk resp ps s = pool.steps d clk g resp ps s"
proof (induction ps arbitrary: s)
  case Nil
  then show ?case by simp
next
  case (Cons p ps)
  have "pool_op g d clk resp p s = pool.step d clk g resp p s"
    by (cases p) (simp_all add: pool_op_def split: prod.splits)
  then show ?case by (simp add: Cons.IH split: prod.splits)
qed

definition times_ok :: "clock \<Rightarrow> nat \<times> 'c conn_pool \<Rightarrow> bool" where
  "times_ok clk s \<longleftrightarrow> pool_ok s \<and> (\<forall>k q. map_of (host_to_pool (snd s)) k = Some q \<longrightarrow> sorted_times clk (fst s) q)"

lemma times_okD: "times_ok clk s \<Longrightarrow> map_of (host_to_pool (snd s)) k = Some q \<Longrightarrow> sorted_times clk (fst s) q"
  unfolding times_ok_def by blast

lemma times_okI:
  "pool_ok s \<Longrightarrow> (\<And>k q. map_of (host_to_pool (snd s)) k = Some q \<Longrightarrow> sorted_times clk (fst s) q) \<Longrightarrow> times_ok clk s"
  unfolding times_ok_def by blast

lemma times_tidy:
  assumes "mono clk" and "times_ok clk s"
  shows "times_ok clk (pool_tidy d clk s)"
proof -
  obtain n' s' where t: "pool_tidy d clk s = (n', s')" by fastforce
  have ok: "pool_ok s" using assms(2) by (simp add: times_ok_def)
  have "sorted_times clk n' q'" if look: "map_of (host_to_pool s') k = Some q'" for k q'
  proof -
    from pool_clean_lookup [OF ok t look] obtain q where q: "map_of (host_to_pool (snd s)) k = Some q" and
      c: "n' = Suc (fst s) \<and> q' = q \<or> (\<exists>m m'. host_pool_clean d clk m q = (m', q') \<and> fst s \<le> m \<and> m' \<le> n')" by blast
    note st = times_okD [OF assms(2) q]
    from c show ?thesis
    proof
      assume "n' = Suc (fst s) \<and> q' = q"
      then show ?thesis using sorted_times_later [OF assms(1) _ st, of n'] by simp
    next
      assume "\<exists>m m'. host_pool_clean d clk m q = (m', q') \<and> fst s \<le> m \<and> m' \<le> n'"
      then obtain m m' where m: "host_pool_clean d clk m q = (m', q')" "fst s \<le> m" "m' \<le> n'" by blast
      from clean_sorted [OF assms(1) sorted_times_later [OF assms(1) m(2) st] m(1)] m(3)
      show ?thesis using sorted_times_later [OF assms(1)] by blast
    qed
  qed
  then show ?thesis using pool_ok_tidy [OF ok, of d clk] t by (simp add: times_ok_def)
qed

lemma times_take:
  assumes "mono clk" and "times_ok clk s"
  shows "times_ok clk (snd (pool_take g d clk resp k s))"
proof (cases "map_of (host_to_pool (snd s)) k")
  case None
  then show ?thesis using assms(2) by (simp add: pool_take_def get_locked_def times_ok_def pool_ok_def)
next
  case (Some q)
  obtain r n' q' where r: "host_pool_get g d clk resp (fst s) q = (r, n', q')" by (metis prod.collapse)
  have "sorted_times clk n' q'" by (rule get_times [OF assms(1) times_okD [OF assms(2) Some] r])
  moreover have le: "fst s \<le> n'" using get_total [OF r] by simp
  moreover have "pool_ok s" using assms(2) by (simp add: times_ok_def)
  ultimately show ?thesis
    using Some r sorted_times_later [OF assms(1) le times_okD [OF assms(2)]] pool_ok_take [of s g d clk resp k]
    by (intro times_okI) (auto simp: pool_take_def get_locked_def update_conv' split: if_splits)
qed

lemma times_give:
  assumes "mono clk" and "times_ok clk s"
  shows "times_ok clk (pool_give clk k c s)"
proof -
  have "sorted_times clk (fst s) (case map_of (host_to_pool (snd s)) k of None \<Rightarrow> host_pool_init | Some q \<Rightarrow> q)"
    using times_okD [OF assms(2), of k] by (cases "map_of (host_to_pool (snd s)) k") (simp_all add: sorted_times_def host_pool_init_def)
  from sorted_times_put [OF assms(1) this, of c] show ?thesis
    using sorted_times_later [OF assms(1) _ times_okD [OF assms(2)], of "Suc (fst s)"]
      pool_ok_give [of s clk k c] assms(2)
    by (intro times_okI) (auto simp: pool_give_def put_http_connection_def host_pool_put_def
        times_ok_def update_conv' Let_def split: if_splits)
qed

lemma times_run: "mono clk \<Longrightarrow> times_ok clk s \<Longrightarrow> times_ok clk (snd (pool_run g d clk resp ps s))"
proof (induction ps arbitrary: s)
  case Nil
  then show ?case by simp
next
  case (Cons p ps)
  have "times_ok clk (snd (pool_op g d clk resp p s))"
    using times_take [OF Cons.prems, of g d resp]
    by (cases p) (auto simp: pool_op_def times_tidy [OF Cons.prems] times_give [OF Cons.prems] split: prod.splits, metis snd_conv)
  from Cons.IH [OF Cons.prems(1) this] show ?case by (simp add: split_def)
qed

lemma times_init: "times_ok clk (n, conn_pool_init)"
  by (simp add: times_ok_def pool_ok_def conn_pool_init_def)

section \<open>Properties\<close>

text \<open>
  C36: In any run of critical sections by any number of threads, starting from an empty pool, the connections that the
  pool holds under a host, port and scheme and those it has handed out under them, each counted as often as it occurs, are
  among those put there under the same ones: one that was put there once is handed out at most once, and is then not in
  the pool.
\<close>

theorem pool_ownership:
  "pool_held (snd (pool_run g d clk resp ps (n, conn_pool_init))) k + handed_out k (fst (pool_run g d clk resp ps (n, conn_pool_init)))
     \<subseteq># returned k ps"
  unfolding pool_run_steps
  by (rule pool.held_or_handed_out) (simp_all add: pool_ok_def pool_held_def conn_pool_init_def)

text \<open>
  With a clock that does not go back, the connection that \<open>get_http_connection\<close> hands out after
  any run has no open response (and the program is not on App Engine), and it was returned to the
  pool, or last seen busy, at most the stale duration before the call.
\<close>

theorem pool_hands_out_fresh:
  assumes "mono clk" and "pool_run g d clk resp ps (0, conn_pool_init) = (out, n, s)"
    and "get_http_connection g d clk resp k n s = (Inr (Some c), n', s')"
  shows "\<not> g \<and> resp n' c \<noteq> Some False
    \<and> (\<exists>q rt. map_of (host_to_pool s) k = Some q \<and> (c, rt) \<in> set q \<and> clk n \<le> rt + d)"
proof -
  have ok: "times_ok clk (n, s)" using times_run [OF assms(1) times_init, of g d resp ps 0] assms(2) by simp
  obtain n1 s1 where s1: "conn_pool_clean d clk n s = (n1, s1)" by fastforce
  then have t: "pool_tidy d clk (n, s) = (n1, s1)" by (simp add: pool_tidy_def)
  then have ok1: "times_ok clk (n1, s1)" using times_tidy [OF assms(1) ok, of d] by simp
  from assms(3) s1 obtain q1 q2 where q1: "map_of (host_to_pool s1) k = Some q1"
    "host_pool_get g d clk resp n1 q1 = (Inr (Some c), n', q2)"
    by (auto simp: get_http_connection_def get_locked_def split: option.splits prod.splits)
  have "sorted (map snd q1)" using times_okD [OF ok1] q1(1) by (simp add: sorted_times_def)
  from get_fresh [OF assms(1) this q1(2)] obtain rt where rt: "conn_ready g (resp n' c)" "(c, rt) \<in> set q1"
    "clk n1 \<le> rt + d" by blast
  from ok have "pool_ok (n, s)" by (simp add: times_ok_def)
  from pool_clean_lookup [OF this t q1(1)] obtain q where q: "map_of (host_to_pool s) k = Some q" "set q1 \<subseteq> set q"
    "n \<le> n1" using clean_suffix by (fastforce dest: clean_suffix)
  from rt(1) have "\<not> g \<and> resp n' c \<noteq> Some False" by (auto simp: conn_ready_def split: if_splits option.splits)
  then show ?thesis using q rt(2,3) monoD [OF assms(1) q(3)] by force
qed

theorem pool_hands_out_fresh_witness:
  "\<exists>out n s n' s' q rt. pool_run False 60 real (\<lambda>_ c. if c = 7 then Some False else None)
       [Give (''h'', PortNum 443, True) 7, Give (''h'', PortNum 443, True) (8 :: nat)] (0, conn_pool_init) = (out, n, s)
     \<and> get_http_connection False 60 real (\<lambda>_ c. if c = 7 then Some False else None) (''h'', PortNum 443, True) n s = (Inr (Some 8), n', s')
     \<and> map_of (host_to_pool s) (''h'', PortNum 443, True) = Some q \<and> (8, rt) \<in> set q \<and> real n \<le> rt + 60"
proof -
  let ?k = "(''h'', PortNum 443, True) :: conn_key"
  let ?resp = "\<lambda>(_ :: nat) c. if c = (7 :: nat) then Some False else None"
  let ?s = "\<lparr>host_to_pool = [(?k, [(7 :: nat, real 0), (8, real 1)])], last_clean_time = 0\<rparr>"
  have run: "pool_run False 60 real ?resp [Give ?k 7, Give ?k 8] (0, conn_pool_init) = ([], 2, ?s)"
    by (simp add: pool_op_def pool_give_def put_http_connection_def host_pool_put_def host_pool_init_def
        conn_pool_init_def Let_def)
  have get: "get_http_connection False 60 real ?resp ?k 2 ?s
      = (Inr (Some 8), 5, \<lparr>host_to_pool = [(?k, [(7, real 4)])], last_clean_time = 0\<rparr>)"
    by (simp add: get_http_connection_def conn_pool_clean_def get_locked_def host_pool_get_def pair_stale_def
        CLEAN_INTERVAL_def conn_ready_def host_pool_put_def Let_def eval_nat_numeral)
  have "mono real" by (simp add: mono_def)
  from pool_hands_out_fresh [OF this run get] obtain q rt where
    "map_of (host_to_pool ?s) ?k = Some q" "(8, rt) \<in> set q" "real 2 \<le> rt + 60" by blast
  with run get show ?thesis by blast
qed

text \<open>
  After dropping stale connections from the front, \<open>HostConnectionPool.get\<close> looks at each
  remaining connection once, in order: it hands out the first one that is ready at its turn, and puts
  every busy one before it at the end with the time of its turn; it returns \<open>None\<close> exactly if all
  are busy, and it never raises.
\<close>

theorem pool_first_ready:
  "host_pool_get g d clk resp n q =
     (case host_pool_clean d clk n q of (m, q1) \<Rightarrow>
       (case find (\<lambda>i. conn_ready g (resp (m + i) (fst (q1 ! i)))) [0..<length q1] of
          None \<Rightarrow> (Inr None, m + length q1, map (\<lambda>i. (fst (q1 ! i), clk (m + i))) [0..<length q1])
        | Some i \<Rightarrow> (Inr (Some (fst (q1 ! i))), m + i, drop (Suc i) q1 @ map (\<lambda>j. (fst (q1 ! j), clk (m + j))) [0..<i])))"
  by (simp add: host_pool_get_def rounds_first split: prod.splits option.splits)

end
