(* ===== verification/Conn_Request.thy ===== *)
theory Conn_Request
  imports Utils_Headers Conn_Pool
begin

text \<open>
  How a connection of \<^verbatim>\<open>boto/connection.py\<close> builds a request: the set-up of an
  \<open>AWSAuthConnection\<close> from its arguments, the environment and the configuration, the path and host of
  a request with and without a proxy, the headers, and the parameters of list arguments.

  Ports that come from the configuration or the environment are strings; a proxy port given as a
  number is its decimal string, which \<open>%s\<close>, \<open>str\<close> and \<open>int\<close> do not tell apart.
\<close>

section \<open>The connection\<close>

record aws_conn =
  suppress_consec_slashes :: bool
  num_retries :: nat
  is_secure :: bool
  https_validate_certificates :: bool
  ca_certificates_file :: "string option"
  port :: nat
  proxy :: "string option"
  proxy_port :: "string option"
  proxy_user :: "string option"
  proxy_pass :: "string option"
  no_proxy :: string
  use_proxy :: bool
  has_https_connection_factory :: bool
  protocol :: string
  host :: string
  base_path :: string
  debug :: int
  host_header :: "string option"
  timeout :: int
  connection_key :: conn_key

text \<open>
  The sections \<open>Boto\<close> of the configuration and the environment, by option and variable name, and what
  a provider overrides.
\<close>

type_synonym settings = "string \<Rightarrow> string option"

record provider_hosts =
  provider_host :: "string option"
  provider_port :: "nat option"
  provider_host_header :: "string option"

text \<open>The truth value of an optional string.\<close>

definition str_true :: "string option \<Rightarrow> bool" where
  "str_true s \<longleftrightarrow> s \<noteq> None \<and> s \<noteq> Some []"

subsection \<open>The proxy\<close>

definition proxy_word :: "char \<Rightarrow> bool" where
  "proxy_word c \<longleftrightarrow> is_alnum c \<or> c \<in> set ''_-.''"

record proxy_match =
  m_user :: "string option"
  m_pass :: "string option"
  m_host :: string
  m_port :: "string option"

text \<open>\<open>(?P<host>[\w\-\.]+)(?::(?P<port>\d+))?\<close>\<close>

definition match_host_port :: "string option \<Rightarrow> string option \<Rightarrow> string \<Rightarrow> proxy_match option" where
  "match_host_port u p s =
     (let h = takeWhile proxy_word s; r = dropWhile proxy_word s
      in if h = [] then None
         else Some \<lparr>m_user = u, m_pass = p, m_host = h,
                m_port = (case r of [] \<Rightarrow> None | c # t \<Rightarrow>
                   if c = CHR '':'' \<and> takeWhile is_digit t \<noteq> [] then Some (takeWhile is_digit t) else None)\<rparr>)"

text \<open>
  \<open>(?:(?P<user>[\w\-\.]+):(?P<pass>.*)@)?\<close> before it: the password is greedy, so the last \<open>@\<close> of
  the line that a host can follow ends it.
\<close>

definition match_user :: "string \<Rightarrow> proxy_match option" where
  "match_user s =
     (let u = takeWhile proxy_word s; r = dropWhile proxy_word s
      in case r of [] \<Rightarrow> None
         | c # t \<Rightarrow>
           if u = [] \<or> c \<noteq> CHR '':'' then None
           else (case find (\<lambda>i. t ! i = CHR ''@'' \<and> match_host_port None None (drop (Suc i) t) \<noteq> None)
                       (rev [0..<length (takeWhile (\<lambda>x. x \<noteq> CHR 0x0A) t)]) of
                   None \<Rightarrow> None
                 | Some i \<Rightarrow> match_host_port (Some u) (Some (take i t)) (drop (Suc i) t)))"

definition match_authority :: "string \<Rightarrow> proxy_match option" where
  "match_authority s = (case match_user s of None \<Rightarrow> match_host_port None None s | Some m \<Rightarrow> Some m)"

definition match_proxy :: "string \<Rightarrow> proxy_match option" where
  "match_proxy s =
     (case (if str_startswith s ''http://'' then match_authority (drop 7 s) else None) of
        None \<Rightarrow> match_authority s | Some m \<Rightarrow> Some m)"

definition or_setting :: "string option \<Rightarrow> string option \<Rightarrow> string option" where
  "or_setting v d = (if str_true v then v else d)"

definition handle_proxy :: "settings \<Rightarrow> settings \<Rightarrow> string option \<Rightarrow> string option \<Rightarrow> string option \<Rightarrow> string option \<Rightarrow> aws_conn \<Rightarrow> aws_conn" where
  "handle_proxy cfg env px px_port px_user px_pass c =
     (let c = c\<lparr>proxy := px, proxy_port := px_port, proxy_user := px_user, proxy_pass := px_pass\<rparr>;
          c = (case (env ''http_proxy'', str_true px) of
                 (Some url, False) \<Rightarrow>
                   (case match_proxy url of
                      None \<Rightarrow> c
                    | Some m \<Rightarrow> c\<lparr>proxy := Some (m_host m), proxy_port := m_port m, proxy_user := m_user m, proxy_pass := m_pass m\<rparr>)
               | _ \<Rightarrow> c\<lparr>proxy := or_setting px (cfg ''proxy''), proxy_port := or_setting px_port (cfg ''proxy_port''),
                        proxy_user := or_setting px_user (cfg ''proxy_user''), proxy_pass := or_setting px_pass (cfg ''proxy_pass'')\<rparr>);
          c = (if \<not> str_true (proxy_port c) \<and> str_true (proxy c) then c\<lparr>proxy_port := Some (nat_str (port c))\<rparr> else c);
          np = (case env ''no_proxy'' of None \<Rightarrow> [] | Some v \<Rightarrow> v);
          np = (if np \<noteq> [] then np else case env ''NO_PROXY'' of None \<Rightarrow> [] | Some v \<Rightarrow> v)
      in c\<lparr>no_proxy := np, use_proxy := (proxy c \<noteq> None)\<rparr>)"

definition skip_proxy :: "aws_conn \<Rightarrow> string \<Rightarrow> bool" where
  "skip_proxy c h =
     (if no_proxy c = [] then False
      else if no_proxy c = ''*'' then True
      else list_ex (\<lambda>name. name \<noteq> [] \<and> (str_endswith (str_split CHR '':'' h ! 0) name \<or> str_endswith h name))
             (str_split CHR '','' (no_proxy c)))"

text \<open>\<open>py_version\<close> is \<open>sys.version[:3]\<close>.\<close>

definition server_name :: "bool \<Rightarrow> string \<Rightarrow> aws_conn \<Rightarrow> nat option \<Rightarrow> string" where
  "server_name on_gae py_version c p =
     (let p = (case p of None \<Rightarrow> port c | Some 0 \<Rightarrow> port c | Some q \<Rightarrow> q)
      in if p = 80 then host c
         else if (on_gae \<and> py_version = ''2.5'' \<or> py_version \<in> {''2.6'', ''2.7''}) \<and> p = 443 then host c
         else host c @ '':'' @ nat_str p)"

definition prefix_proxy_to_path :: "bool \<Rightarrow> string \<Rightarrow> aws_conn \<Rightarrow> string \<Rightarrow> string \<Rightarrow> string" where
  "prefix_proxy_to_path g v c path h = protocol c @ ''://'' @ (if h \<noteq> [] then h else server_name g v c None) @ path"

text \<open>\<open>self.proxy_user + ':' + self.proxy_pass\<close> needs both to be strings.\<close>

definition get_proxy_auth_header :: "aws_conn \<Rightarrow> (string \<times> string) res" where
  "get_proxy_auth_header c =
     (case (proxy_user c, proxy_pass c) of
        (Some u, Some p) \<Rightarrow> Inr (''Proxy-Authorization'', ''Basic '' @ encodestring (u @ '':'' @ p))
      | _ \<Rightarrow> Inl TypeError)"

definition opt_str :: "string option \<Rightarrow> string" where
  "opt_str s = (case s of None \<Rightarrow> ''None'' | Some t \<Rightarrow> t)"

definition get_proxy_url_with_auth :: "aws_conn \<Rightarrow> string option" where
  "get_proxy_url_with_auth c =
     (if \<not> use_proxy c then None
      else let login = (if str_true (proxy_user c) \<or> str_true (proxy_pass c)
                        then (if str_true (proxy_pass c) then opt_str (proxy_user c) @ '':'' @ opt_str (proxy_pass c) @ ''@''
                              else opt_str (proxy_user c) @ ''@'')
                        else [])
           in Some (''http://'' @ login @ opt_str (proxy c) @ '':''
                    @ (if str_true (proxy_port c) then the (proxy_port c) else nat_str (port c))))"

subsection \<open>The constructor\<close>

text \<open>
  \<open>Config.getbool\<close> and \<open>Config.getint\<close> of \<^verbatim>\<open>boto/pyami/config.py\<close>, and \<open>getboolean\<close> of \<open>ConfigParser\<close>.
\<close>

definition getbool :: "settings \<Rightarrow> string \<Rightarrow> bool \<Rightarrow> bool" where
  "getbool cfg name d = (case cfg name of None \<Rightarrow> d | Some v \<Rightarrow> str_lower v = ''true'')"

definition getint :: "settings \<Rightarrow> string \<Rightarrow> int \<Rightarrow> int res" where
  "getint cfg name d = (case cfg name of None \<Rightarrow> Inr d | Some v \<Rightarrow> py_int v)"

definition getboolean :: "string \<Rightarrow> bool res" where
  "getboolean v =
     (if str_lower v \<in> {''1'', ''yes'', ''true'', ''on''} then Inr True
      else if str_lower v \<in> {''0'', ''no'', ''false'', ''off''} then Inr False else Inl ValueError)"

definition ports_by_security :: "bool \<Rightarrow> nat" where
  "ports_by_security secure = (if secure then 443 else 80)"

record conn_args =
  a_host :: string
  a_is_secure :: bool
  a_port :: "nat option"
  a_proxy :: "string option"
  a_proxy_port :: "string option"
  a_proxy_user :: "string option"
  a_proxy_pass :: "string option"
  a_debug :: int
  a_factory :: bool
  a_path :: string
  a_suppress :: bool
  a_validate_certs :: bool

text \<open>
  \<open>have_https\<close> is \<open>HAVE_HTTPS_CONNECTION\<close>, \<open>certs\<close> is \<open>DEFAULT_CA_CERTS_FILE\<close>, and \<open>prov\<close> is what the
  provider overrides.  The authentication handler is not part of this record: the theories of the
  handlers model it.
\<close>

definition conn_init :: "settings \<Rightarrow> settings \<Rightarrow> bool \<Rightarrow> string \<Rightarrow> provider_hosts \<Rightarrow> conn_args \<Rightarrow> aws_conn res" where
  "conn_init cfg env have_https certs prov a =
     res_bind (case cfg ''is_secure'' of None \<Rightarrow> Inr (a_is_secure a) | Some v \<Rightarrow> getboolean v) (\<lambda>secure.
     let validate = getbool cfg ''https_validate_certificates'' (a_validate_certs a)
     in if validate \<and> \<not> have_https then Inl (Boto_Error ''BotoClientError'')
        else
          let ca = (case cfg ''ca_certificates_file'' of None \<Rightarrow> certs | Some f \<Rightarrow> f);
              p = (case a_port a of None \<Rightarrow> ports_by_security secure | Some 0 \<Rightarrow> ports_by_security secure | Some q \<Rightarrow> q);
              c = \<lparr>suppress_consec_slashes = a_suppress a, num_retries = 6, is_secure = secure,
                   https_validate_certificates = validate,
                   ca_certificates_file = (if ca = ''system'' then None else Some ca), port = p,
                   proxy = None, proxy_port = None, proxy_user = None, proxy_pass = None, no_proxy = [], use_proxy = False,
                   has_https_connection_factory = a_factory a,
                   protocol = (if secure then ''https'' else ''http''), host = a_host a, base_path = a_path a,
                   debug = 0, host_header = None, timeout = 0, connection_key = ([], PortNum 0, False)\<rparr>;
              c = handle_proxy cfg env (a_proxy a) (a_proxy_port a) (a_proxy_user a) (a_proxy_pass a) c
          in res_bind (getint cfg ''debug'' (a_debug a)) (\<lambda>dbg.
             res_bind (getint cfg ''http_socket_timeout'' 70) (\<lambda>tmo.
               let c = c\<lparr>debug := dbg, timeout := tmo,
                         host := (if str_true (provider_host prov) then the (provider_host prov) else host c),
                         port := (case provider_port prov of None \<Rightarrow> port c | Some 0 \<Rightarrow> port c | Some q \<Rightarrow> q),
                         host_header := (if str_true (provider_host_header prov) then provider_host_header prov else None)\<rparr>
               in Inr (c\<lparr>connection_key := (host c, PortNum (port c), is_secure c)\<rparr>))))"

section \<open>Paths\<close>

definition get_path :: "aws_conn \<Rightarrow> string \<Rightarrow> string res" where
  "get_path c path =
     (if \<not> suppress_consec_slashes c
      then Inr (base_path c @ (case path of [] \<Rightarrow> [] | x # xs \<Rightarrow> if x = CHR ''/'' then xs else path))
      else let params = dropWhile (\<lambda>x. x \<noteq> CHR ''?'') path; path = takeWhile (\<lambda>x. x \<noteq> CHR ''?'') path
           in if path = [] then Inl IndexError
              else let need_trailing = (last path = CHR ''/'');
                       elements = filter (\<lambda>p. p \<noteq> []) (str_split CHR ''/'' (base_path c) @ str_split CHR ''/'' path);
                       path = ''/'' @ str_join ''/'' elements;
                       path = (if last path \<noteq> CHR ''/'' \<and> need_trailing then path @ ''/'' else path)
                   in Inr (path @ params))"

section \<open>Requests\<close>

record request =
  req_method :: string
  req_protocol :: string
  req_host :: string
  req_port :: port
  req_path :: string
  req_auth_path :: string
  req_params :: "(string, string) dict"
  req_headers :: headers
  req_body :: string
  headers_quoted :: bool

definition http_request_init :: "string \<Rightarrow> string \<Rightarrow> string \<Rightarrow> port \<Rightarrow> string \<Rightarrow> string option \<Rightarrow> (string, string) dict \<Rightarrow> headers \<Rightarrow> string \<Rightarrow> request" where
  "http_request_init method proto h p path auth_path params hs body =
     \<lparr>req_method = method, req_protocol = proto, req_host = h, req_port = p, req_path = path,
      req_auth_path = (case auth_path of None \<Rightarrow> path | Some a \<Rightarrow> a), req_params = params,
      req_headers = (case map_of hs ''Transfer-Encoding'' of
          Some v \<Rightarrow> if hval_is v ''chunked'' \<and> method \<noteq> ''PUT'' then AList.delete ''Transfer-Encoding'' hs else hs
        | None \<Rightarrow> hs),
      req_body = body, headers_quoted = False\<rparr>"

text \<open>The characters left alone when the text of a header is quoted.\<close>

definition header_safe :: string where
  "header_safe = ''!'' @ [CHR 0x22] @ ''#$%&'' @ [CHR 0x27] @ ''()*+,/:;<=>?@['' @ [CHR 0x5C] @ '']^'' @ [CHR 0x60] @ ''{|}~ ''"

definition quote_header :: "hval \<Rightarrow> hval" where
  "quote_header v = (case v of HUni s \<Rightarrow> HStr (quote header_safe s) | _ \<Rightarrow> v)"

definition user_agent :: "string \<Rightarrow> request \<Rightarrow> request" where
  "user_agent ua r = r\<lparr>req_headers := AList.update ''User-Agent'' (HStr ua) (req_headers r)\<rparr>"

definition quote_headers :: "request \<Rightarrow> request" where
  "quote_headers r = (if headers_quoted r then r
     else r\<lparr>req_headers := map (\<lambda>(k, v). (k, quote_header v)) (req_headers r), headers_quoted := True\<rparr>)"

definition content_length :: "request \<Rightarrow> request" where
  "content_length r =
     (if map_of (req_headers r) ''Content-Length'' = None
         \<and> (case map_of (req_headers r) ''Transfer-Encoding'' of None \<Rightarrow> True | Some v \<Rightarrow> \<not> hval_is v ''chunked'')
      then r\<lparr>req_headers := AList.update ''Content-Length'' (HStr (nat_str (length (req_body r)))) (req_headers r)\<rparr>
      else r)"

definition authorize :: "string \<Rightarrow> (request \<Rightarrow> request res) \<Rightarrow> request \<Rightarrow> request res" where
  "authorize ua add_auth r = res_bind (add_auth (user_agent ua (quote_headers r))) (\<lambda>r. Inr (content_length r))"

definition build_base_http_request :: "bool \<Rightarrow> string \<Rightarrow> aws_conn \<Rightarrow> string \<Rightarrow> string \<Rightarrow> string option \<Rightarrow> (string, string) dict option \<Rightarrow> headers option \<Rightarrow> string \<Rightarrow> string \<Rightarrow> request res" where
  "build_base_http_request g ver c method path auth_path params hs data h =
     res_bind (get_path c path) (\<lambda>path.
     res_bind (case auth_path of None \<Rightarrow> Inr None | Some a \<Rightarrow> res_bind (get_path c a) (\<lambda>a. Inr (Some a))) (\<lambda>auth_path.
       let params = (case params of None \<Rightarrow> [] | Some p \<Rightarrow> p);
           hs = (case hs of None \<Rightarrow> [] | Some hs \<Rightarrow> hs);
           hs = (if str_true (host_header c) \<and> find_matching_headers ''host'' hs = []
                 then AList.update ''host'' (HStr (the (host_header c))) hs else hs);
           h = (if h \<noteq> [] then h else host c)
       in if use_proxy c \<and> \<not> skip_proxy c h
          then let auth_path = (if str_true auth_path then auth_path else Some path);
                   path = prefix_proxy_to_path g ver c path h
               in res_bind (if str_true (proxy_user c) \<and> str_true (proxy_pass c) \<and> \<not> is_secure c
                            then res_bind (get_proxy_auth_header c) (\<lambda>(k, v). Inr (AList.update k (HStr v) hs))
                            else Inr hs)
                    (\<lambda>hs. Inr (http_request_init method (protocol c) h (PortNum (port c)) path auth_path params hs data))
          else Inr (http_request_init method (protocol c) h (PortNum (port c)) path auth_path params hs data)))"

section \<open>Parameters of queries\<close>

definition build_list_params :: "(string, string) dict \<Rightarrow> string list \<Rightarrow> string \<Rightarrow> (string, string) dict" where
  "build_list_params params items label =
     fold (\<lambda>i ps. AList.update (label @ ''.'' @ nat_str i) (items ! (i - 1)) ps) [1..<length items + 1] params"

definition build_complex_list_params :: "(string, string) dict \<Rightarrow> string list list \<Rightarrow> string \<Rightarrow> string list \<Rightarrow> (string, string) dict" where
  "build_complex_list_params params items label names =
     fold (\<lambda>(i, item) ps.
        let prefix = label @ ''.'' @ nat_str i
        in fold (\<lambda>(key, value) ps. AList.update (prefix @ ''.'' @ key) value ps) (zip names item) ps)
       (zip [1..<length items + 1] items) params"

section \<open>Lemmas on paths\<close>

lemma takeWhile_dropWhile_app:
  "\<forall>x \<in> set s. P x \<Longrightarrow> (r = [] \<or> \<not> P (hd r)) \<Longrightarrow> takeWhile P (s @ r) = s \<and> dropWhile P (s @ r) = r"
  by (induction s) (auto simp: takeWhile_eq_Nil_iff dropWhile_eq_self_iff)

lemma dropWhile_params: "dropWhile (\<lambda>x. x \<noteq> c) s = [] \<or> hd (dropWhile (\<lambda>x. x \<noteq> c) s) = c"
  by (induction s) auto

definition path_elements :: "string \<Rightarrow> string list" where
  "path_elements s = filter (\<lambda>p. p \<noteq> []) (str_split CHR ''/'' s)"

lemma str_split_Cons_sep: "str_split c (c # s) = [] # str_split c s"
  by simp

lemma path_elements_slash [simp]: "path_elements (CHR ''/'' # s) = path_elements s"
  by (simp add: path_elements_def)

lemma split_snoc_sep: "str_split c (s @ [c]) = str_split c s @ [[]]"
proof (induction s)
  case Nil
  then show ?case by simp
next
  case (Cons x s)
  then show ?case by (cases "str_split c s") auto
qed

lemma path_elements_snoc [simp]: "path_elements (s @ ''/'') = path_elements s"
  by (simp add: path_elements_def split_snoc_sep)

lemma path_elements_good: "e \<in> set (path_elements s) \<Longrightarrow> e \<noteq> [] \<and> CHR ''/'' \<notin> set e"
  by (auto simp: path_elements_def dest: str_split_pieces)

lemma split_chars: "w \<in> set (str_split c s) \<Longrightarrow> set w \<subseteq> set s"
proof (induction s arbitrary: w)
  case Nil
  then show ?case by simp
next
  case (Cons x s)
  obtain v vs where v: "str_split c s = v # vs" by (metis neq_Nil_conv str_split_not_Nil)
  with Cons.prems consider "w = []" | "w = x # v" | "w \<in> set (str_split c s)" by (auto split: if_splits)
  then show ?case using Cons.IH [of v] Cons.IH [of w] v by cases auto
qed

lemma path_elements_join:
  assumes "\<forall>e \<in> set es. e \<noteq> [] \<and> CHR ''/'' \<notin> set e"
  shows "path_elements (str_join ''/'' es) = es"
proof (cases "es = []")
  case True
  then show ?thesis by (simp add: path_elements_def)
next
  case False
  then have "str_split CHR ''/'' (str_join ''/'' es) = es" using assms by (intro str_split_join) auto
  then show ?thesis using assms by (simp add: path_elements_def filter_id_conv)
qed

lemma join_ends:
  assumes "es \<noteq> []" and "\<forall>e \<in> set es. e \<noteq> [] \<and> CHR ''/'' \<notin> set e"
  shows "str_join ''/'' es \<noteq> [] \<and> last (str_join ''/'' es) \<noteq> CHR ''/'' \<and> hd (str_join ''/'' es) \<noteq> CHR ''/''"
  using assms
proof (induction es)
  case Nil
  then show ?case by simp
next
  case (Cons e es)
  then have ne: "e \<noteq> []" and no: "CHR ''/'' \<notin> set e" by simp_all
  have e: "last e \<noteq> CHR ''/''" "hd e \<noteq> CHR ''/''"
    using no last_in_set [OF ne] hd_in_set [OF ne] by metis+
  show ?case
  proof (cases "es = []")
    case True
    with e ne show ?thesis by simp
  next
    case False
    have "str_join ''/'' es \<noteq> []" "last (str_join ''/'' es) \<noteq> CHR ''/''"
      using Cons.IH [OF False] Cons.prems(2) by simp_all
    with e ne False show ?thesis by (simp add: str_join_Cons)
  qed
qed

lemma no_double_join:
  assumes "\<forall>e \<in> set es. e \<noteq> [] \<and> CHR ''/'' \<notin> set e"
  shows "\<not> str_contains (str_join ''/'' es) ''//''"
proof -
  have skip: "str_contains (e @ s) ''//'' \<longleftrightarrow> str_contains s ''//''" if "CHR ''/'' \<notin> set e" "s \<noteq> [] \<or> True" for e s
    using that(1) by (induction e) (auto simp: str_startswith_def)
  show ?thesis using assms
  proof (induction es)
    case Nil
    then show ?case by simp
  next
    case (Cons e es)
    show ?case
    proof (cases "es = []")
      case True
      then show ?thesis using Cons.prems skip [of e "[]"] by simp
    next
      case False
      with join_ends [of es] Cons.prems obtain x xs where x: "str_join ''/'' es = x # xs" "x \<noteq> CHR ''/''"
        by (cases "str_join ''/'' es") auto
      have "str_contains (str_join ''/'' (e # es)) ''//'' \<longleftrightarrow> str_contains (CHR ''/'' # x # xs) ''//''"
        using False Cons.prems skip [of e "CHR ''/'' # x # xs"] x(1) by (simp add: str_join_Cons)
      also have "\<dots> \<longleftrightarrow> str_contains (x # xs) ''//''" using x(2) by (simp add: str_startswith_def)
      finally show ?thesis using Cons x(1) by simp
    qed
  qed
qed

text \<open>The path that \<open>get_path\<close> makes of its elements.\<close>

definition joined_path :: "string list \<Rightarrow> bool \<Rightarrow> string" where
  "joined_path es trailing = ''/'' @ str_join ''/'' es @ (if trailing \<and> es \<noteq> [] then ''/'' else [])"

definition path_part :: "string \<Rightarrow> string" where
  "path_part s = takeWhile (\<lambda>x. x \<noteq> CHR ''?'') s"

lemma get_path_joined:
  assumes "suppress_consec_slashes c" and "path_part p \<noteq> []"
  shows "get_path c p = Inr (joined_path (path_elements (base_path c) @ path_elements (path_part p))
           (last (path_part p) = CHR ''/'') @ dropWhile (\<lambda>x. x \<noteq> CHR ''?'') p)"
proof -
  define es where "es = path_elements (base_path c) @ path_elements (path_part p)"
  define r where "r = dropWhile (\<lambda>x. x \<noteq> CHR ''?'') p"
  define s where "s = path_part p"
  have els: "filter (\<lambda>p. p \<noteq> []) (str_split CHR ''/'' (base_path c) @ str_split CHR ''/'' s) = es"
    by (simp add: es_def path_elements_def s_def)
  have "\<forall>e \<in> set es. e \<noteq> [] \<and> CHR ''/'' \<notin> set e" using path_elements_good by (auto simp: es_def)
  then have lst: "last (''/'' @ str_join ''/'' es) = CHR ''/'' \<longleftrightarrow> es = []"
    using join_ends [of es] by (cases "es = []") auto
  have "get_path c p = (let need_trailing = (last s = CHR ''/''); path = ''/'' @ str_join ''/'' es;
      path = (if last path \<noteq> CHR ''/'' \<and> need_trailing then path @ ''/'' else path) in Inr (path @ r))"
    using assms unfolding get_path_def Let_def path_part_def [symmetric] r_def [symmetric] s_def [symmetric] els by simp
  also have "\<dots> = Inr (joined_path es (last s = CHR ''/'') @ r)"
    unfolding Let_def lst joined_path_def by simp
  finally show ?thesis unfolding es_def r_def s_def .
qed

lemma joined_path_part:
  assumes "\<forall>e \<in> set es. e \<noteq> [] \<and> CHR ''/'' \<notin> set e \<and> CHR ''?'' \<notin> set e" and "q = [] \<or> hd q = CHR ''?''"
  shows "path_part (joined_path es t @ q) = joined_path es t"
    and "dropWhile (\<lambda>x. x \<noteq> CHR ''?'') (joined_path es t @ q) = q"
    and "path_elements (joined_path es t) = es"
    and "last (joined_path es t) = CHR ''/'' \<longleftrightarrow> t \<or> es = []"
proof -
  have "set (str_join ''/'' es) \<subseteq> {CHR ''/''} \<union> \<Union> (set ` set es)"
    by (induction es rule: induct_list012) (auto simp: str_join_Cons)
  then have no: "\<forall>x \<in> set (joined_path es t). x \<noteq> CHR ''?''" using assms(1) by (auto simp: joined_path_def)
  show "path_part (joined_path es t @ q) = joined_path es t"
    "dropWhile (\<lambda>x. x \<noteq> CHR ''?'') (joined_path es t @ q) = q"
    unfolding path_part_def using takeWhile_dropWhile_app [OF no, of q] assms(2) by auto
  have "path_elements (str_join ''/'' es) = es" using assms(1) by (intro path_elements_join) auto
  then show "path_elements (joined_path es t) = es" by (simp add: joined_path_def)
  show "last (joined_path es t) = CHR ''/'' \<longleftrightarrow> t \<or> es = []"
    using join_ends [of es] assms(1) by (cases "es = []") (auto simp: joined_path_def)
qed

lemma get_path_normal:
  assumes sup: "suppress_consec_slashes c" and base: "CHR ''?'' \<notin> set (base_path c)" and ok: "get_path c p = Inr q"
  shows "\<not> str_contains (path_part q) ''//'' \<and> hd q = CHR ''/''
    \<and> (base_path c = ''/'' \<longrightarrow> get_path c q = Inr q)"
proof -
  have part: "path_part p \<noteq> []" using ok sup by (auto simp: get_path_def path_part_def Let_def)
  define es where "es = path_elements (base_path c) @ path_elements (path_part p)"
  define t where "t = (last (path_part p) = CHR ''/'')"
  define r where "r = dropWhile (\<lambda>x. x \<noteq> CHR ''?'') p"
  have q: "q = joined_path es t @ r"
    using get_path_joined [OF sup part] ok unfolding es_def t_def r_def by simp
  have good: "\<forall>e \<in> set es. e \<noteq> [] \<and> CHR ''/'' \<notin> set e \<and> CHR ''?'' \<notin> set e"
  proof
    fix e assume e: "e \<in> set es"
    have "CHR ''?'' \<notin> set (path_part p)" using set_takeWhileD by (force simp: path_part_def)
    then have "CHR ''?'' \<notin> set e" using e base split_chars by (fastforce simp: es_def path_elements_def)
    then show "e \<noteq> [] \<and> CHR ''/'' \<notin> set e \<and> CHR ''?'' \<notin> set e" using e path_elements_good by (auto simp: es_def)
  qed
  have r: "r = [] \<or> hd r = CHR ''?''" unfolding r_def by (rule dropWhile_params)
  note jp = joined_path_part [OF good r, of t]
  have "\<not> str_contains (joined_path es t) ''//''"
  proof (cases "es = []")
    case True
    then show ?thesis by (simp add: joined_path_def str_startswith_def)
  next
    case False
    have snoc: "str_contains (s @ ''/'') ''//'' \<longleftrightarrow> str_contains s ''//'' \<or> (s \<noteq> [] \<and> last s = CHR ''/'')" for s
    proof (induction s)
      case Nil
      then show ?case by (simp add: str_startswith_def)
    next
      case (Cons x s)
      then show ?case by (cases s) (auto simp: str_startswith_def)
    qed
    obtain x xs where x: "str_join ''/'' es = x # xs" "x \<noteq> CHR ''/''" "last (x # xs) \<noteq> CHR ''/''"
      using join_ends [OF False] good by (cases "str_join ''/'' es") auto
    have "\<not> str_contains (x # xs) ''//''" using no_double_join [of es] good x(1) by auto
    then have "\<not> str_contains ((x # xs) @ (if t \<and> es \<noteq> [] then ''/'' else [])) ''//''"
      using snoc [of "x # xs"] x(3) by (simp del: str_contains.simps)
    then show ?thesis using x(1,2) by (simp add: joined_path_def str_startswith_def)
  qed
  moreover have "hd q = CHR ''/''" by (simp add: q joined_path_def)
  moreover have "get_path c q = Inr q" if "base_path c = ''/''"
  proof -
    have "path_part q \<noteq> []" unfolding q jp(1) by (simp add: joined_path_def)
    from get_path_joined [OF sup this] have "get_path c q = Inr (joined_path es (t \<or> es = []) @ r)"
      unfolding q jp by (simp add: that path_elements_def)
    also have "joined_path es (t \<or> es = []) = joined_path es t" by (auto simp: joined_path_def)
    finally show ?thesis by (simp add: q)
  qed
  ultimately show ?thesis using q jp(1) by simp
qed

section \<open>Lemmas on proxies\<close>

lemma match_host_port_word:
  assumes "h \<noteq> []" and "\<forall>c \<in> set h. proxy_word c" and "num \<noteq> []" and "\<forall>c \<in> set num. is_digit c"
  shows "match_host_port u p (h @ '':'' @ num) = Some \<lparr>m_user = u, m_pass = p, m_host = h, m_port = Some num\<rparr>"
proof -
  have "\<not> proxy_word CHR '':''"
    by (simp add: proxy_word_def is_alnum_def is_digit_def is_upper_case_def is_lower_case_def)
  then have "takeWhile proxy_word (h @ '':'' @ num) = h \<and> dropWhile proxy_word (h @ '':'' @ num) = '':'' @ num"
    using takeWhile_dropWhile_app [OF assms(2), of "'':'' @ num"] by simp
  moreover have "takeWhile is_digit num = num" using assms(4) by (simp add: takeWhile_eq_all_conv)
  ultimately show ?thesis using assms(1,3)
    by (simp add: match_host_port_def Let_def del: takeWhile_eq_all_conv)
qed

lemma find_rev_last:
  assumes "i < n" and "P i" and "\<And>j. i < j \<Longrightarrow> j < n \<Longrightarrow> \<not> P j"
  shows "find P (rev [0..<n]) = Some i"
  using assms
proof (induction n)
  case 0
  then show ?case by simp
next
  case (Suc n)
  then show ?case
  proof (cases "i = n")
    case True
    then show ?thesis using Suc.prems by simp
  next
    case False
    then have "\<not> P n" using Suc.prems(1,3) by simp
    then show ?thesis using Suc False by simp
  qed
qed

lemma match_user_full:
  assumes u: "u \<noteq> []" "\<forall>c \<in> set u. proxy_word c" and pass: "CHR 0x0A \<notin> set pass"
    and h: "h \<noteq> []" "\<forall>c \<in> set h. proxy_word c" and num: "num \<noteq> []" "\<forall>c \<in> set num. is_digit c"
  shows "match_user (u @ '':'' @ pass @ ''@'' @ h @ '':'' @ num)
       = Some \<lparr>m_user = Some u, m_pass = Some pass, m_host = h, m_port = Some num\<rparr>"
proof -
  define t where "t = pass @ ''@'' @ h @ '':'' @ num"
  define P where "P = (\<lambda>i. t ! i = CHR ''@'' \<and> match_host_port None None (drop (Suc i) t) \<noteq> None)"
  have col: "\<not> proxy_word CHR '':''"
    by (simp add: proxy_word_def is_alnum_def is_digit_def is_upper_case_def is_lower_case_def)
  have parts: "takeWhile proxy_word (u @ '':'' @ t) = u" "dropWhile proxy_word (u @ '':'' @ t) = '':'' @ t"
    using takeWhile_dropWhile_app [OF u(2), of "'':'' @ t"] col by auto
  have word: "c \<noteq> CHR 0x0A \<and> c \<noteq> CHR ''@''" if "proxy_word c" for c
    using that by (auto simp: proxy_word_def is_alnum_def is_digit_def is_upper_case_def is_lower_case_def)
  have dig: "c \<noteq> CHR 0x0A \<and> c \<noteq> CHR ''@''" if "is_digit c" for c using that by (auto simp: is_digit_def)
  have line: "takeWhile (\<lambda>x. x \<noteq> CHR 0x0A) t = t"
    unfolding takeWhile_eq_all_conv t_def using pass h(2) num(2) word dig by auto
  have len: "length t = length pass + length ('':'' @ h @ '':'' @ num)" by (simp add: t_def)
  have fnd: "find P (rev [0..<length t]) = Some (length pass)"
  proof (rule find_rev_last)
    show "length pass < length t" by (simp add: t_def)
    show "P (length pass)" using match_host_port_word [OF h num] by (simp add: P_def t_def)
    fix j assume j: "length pass < j" "j < length t"
    define rest where "rest = h @ '':'' @ num"
    have t: "t = (pass @ ''@'') @ rest" by (simp add: t_def rest_def)
    have "t ! j = rest ! (j - length (pass @ ''@''))" unfolding t nth_append using j by simp
    moreover have "j - length (pass @ ''@'') < length rest" using j by (simp add: t)
    ultimately have "t ! j \<in> set (h @ '':'' @ num)" unfolding rest_def [symmetric] by simp
    then show "\<not> P j" using h(2) num(2) word dig by (auto simp: P_def)
  qed
  have "match_user (u @ '':'' @ t) = match_host_port (Some u) (Some (take (length pass) t)) (drop (Suc (length pass)) t)"
    unfolding match_user_def Let_def parts line using u(1) fnd [unfolded P_def] by (simp add: line del: takeWhile_eq_all_conv)
  also have "\<dots> = Some \<lparr>m_user = Some u, m_pass = Some pass, m_host = h, m_port = Some num\<rparr>"
    using match_host_port_word [OF h num] by (simp add: t_def)
  finally show ?thesis by (simp add: t_def)
qed

text \<open>The four parts of a proxy URL are found again.\<close>

lemma match_proxy_full:
  assumes u: "u \<noteq> []" "\<forall>c \<in> set u. proxy_word c" and pass: "CHR 0x0A \<notin> set pass"
    and h: "h \<noteq> []" "\<forall>c \<in> set h. proxy_word c" and num: "num \<noteq> []" "\<forall>c \<in> set num. is_digit c"
  shows "match_proxy (''http://'' @ u @ '':'' @ pass @ ''@'' @ h @ '':'' @ num)
       = Some \<lparr>m_user = Some u, m_pass = Some pass, m_host = h, m_port = Some num\<rparr>"
  using match_user_full [OF assms] by (simp add: match_proxy_def match_authority_def str_startswith_def)

section \<open>Lemmas on list parameters\<close>

definition list_key :: "string \<Rightarrow> nat \<Rightarrow> string" where
  "list_key label i = label @ ''.'' @ nat_str i"

lemma list_key_inj: "list_key l i = list_key l j \<longleftrightarrow> i = j"
  by (simp add: list_key_def nat_str_inj)

lemma build_list_lookup:
  "i \<le> n \<Longrightarrow> 1 \<le> i \<Longrightarrow>
    map_of (fold (\<lambda>i ps. AList.update (label @ ''.'' @ nat_str i) (items ! (i - 1)) ps) [1..<n + 1] params) (list_key label i)
    = Some (items ! (i - 1))"
proof (induction n)
  case 0
  then show ?case by simp
next
  case (Suc n)
  let ?f = "\<lambda>i ps. AList.update (label @ ''.'' @ nat_str i) (items ! (i - 1)) ps"
  have step: "fold ?f [1..<Suc n + 1] params = ?f (Suc n) (fold ?f [1..<n + 1] params)" by simp
  show ?case unfolding step using Suc by (cases "i = Suc n") (simp_all add: update_conv' list_key_def nat_str_inj)
qed

lemma build_list_other:
  "\<forall>i. 1 \<le> i \<and> i \<le> n \<longrightarrow> k \<noteq> list_key label i \<Longrightarrow>
    map_of (fold (\<lambda>i ps. AList.update (label @ ''.'' @ nat_str i) (items ! (i - 1)) ps) [1..<n + 1] params) k = map_of params k"
proof (induction n)
  case 0
  then show ?case by simp
next
  case (Suc n)
  let ?f = "\<lambda>i ps. AList.update (label @ ''.'' @ nat_str i) (items ! (i - 1)) ps"
  have step: "fold ?f [1..<Suc n + 1] params = ?f (Suc n) (fold ?f [1..<n + 1] params)" by simp
  have "k \<noteq> list_key label (Suc n)" using Suc.prems by simp
  then show ?case unfolding step using Suc by (simp add: update_conv' list_key_def)
qed

section \<open>Lemmas on metadata in headers\<close>

text \<open>What the other side of the connection receives of a header.\<close>

definition on_wire :: "hval \<Rightarrow> string" where
  "on_wire v = (case v of HNone \<Rightarrow> ''None'' | HStr s \<Rightarrow> s | HUni s \<Rightarrow> s)"

lemma header_safe_percent: "CHR ''%'' \<in> set header_safe"
  by (simp add: header_safe_def)

lemma unquote_header_quote:
  assumes "CHR ''%'' \<notin> set s"
  shows "unquote (quote header_safe s) = s"
proof -
  define safe where "safe = filter (\<lambda>c. c \<noteq> CHR ''%'') header_safe"
  have "quote header_safe s = quote safe s"
    using assms by (induction s) (auto simp: quote_def quote_char_def safe_def)
  then show ?thesis using unquote_quote [of safe s] by (simp add: safe_def)
qed

lemma on_wire_quoted: "on_wire (quote_header (HUni v)) = quote header_safe v"
  by (simp add: on_wire_def quote_header_def)

lemma metadata_text_returns:
  assumes p: "str_lower (metadata_prefix p) = metadata_prefix p"
    and keys: "\<forall>k \<in> fst ` set ms. str_lower k \<notin> base_user_settable_fields" "distinct (map fst ms)"
    and hs: "\<forall>h \<in> fst ` set hs. \<not> str_startswith (str_lower h) (metadata_prefix p)" "distinct (map fst hs)"
    and plain: "\<forall>v \<in> snd ` set ms. CHR ''%'' \<notin> set v"
    and r: "req_headers r = merge_meta hs (map (\<lambda>(k, v). (k, HUni v)) ms) p" "\<not> headers_quoted r"
  shows "get_aws_metadata (map (\<lambda>(k, v). (k, on_wire v)) (req_headers (quote_headers r))) p
       = (ms, map (\<lambda>(k, v). (k, on_wire (quote_header v))) hs)"
proof -
  let ?q = "map (\<lambda>(k, v). (k, quote header_safe v)) ms"
  let ?hs = "map (\<lambda>(k, v). (k, on_wire (quote_header v))) hs"
  have fsts: "map fst (map (\<lambda>(k, v). (k, f v)) xs) = map fst xs" for f :: "'a \<Rightarrow> 'b" and xs :: "(string \<times> 'a) list"
    by (induction xs) auto
  have fresh: "metadata_prefix p @ k \<notin> fst ` set hs" for k
  proof
    assume "metadata_prefix p @ k \<in> fst ` set hs"
    with hs(1) have "\<not> str_startswith (str_lower (metadata_prefix p @ k)) (metadata_prefix p)" by blast
    with p show False by simp
  qed
  have ks: "fst ` set (map (\<lambda>(k, v). (k, f v)) xs) = fst ` set xs" for f :: "'a \<Rightarrow> 'b" and xs :: "(string \<times> 'a) list"
    by force
  have m1: "merge_meta hs (map (\<lambda>(k, v). (k, HUni v)) ms) p
      = hs @ map (\<lambda>(k, v). (metadata_prefix p @ k, v)) (map (\<lambda>(k, v). (k, HUni v)) ms)"
    using keys fresh by (intro merge_meta_append) (simp_all only: ks fsts, blast+)
  have m2: "merge_meta ?hs ?q p = ?hs @ map (\<lambda>(k, v). (metadata_prefix p @ k, v)) ?q"
    using keys fresh by (intro merge_meta_append) (simp_all only: ks fsts, blast+)
  have "map (\<lambda>(k, v). (k, on_wire v)) (req_headers (quote_headers r))
      = map (\<lambda>(k, v). (k, on_wire (quote_header v))) (req_headers r)"
    using r(2) by (induction "req_headers r") (auto simp: quote_headers_def)
  also have "\<dots> = merge_meta ?hs ?q p"
    unfolding r(1) m1 m2 by (simp add: on_wire_quoted split_def comp_def)
  finally have "get_aws_metadata (map (\<lambda>(k, v). (k, on_wire v)) (req_headers (quote_headers r))) p
      = get_aws_metadata (merge_meta ?hs ?q p) p" by simp
  also have "\<dots> = (map (\<lambda>(k, v). (k, unquote v)) ?q, ?hs)"
    using p keys hs by (intro metadata_roundtrip_unquoted) (simp_all only: ks fsts)
  also have "map (\<lambda>(k, v). (k, unquote v)) ?q = ms"
    using plain by (induction ms) (auto simp: unquote_header_quote)
  finally show ?thesis .
qed

text \<open>A value with a percent sign does not come back: the sign is among the safe characters.\<close>

lemma metadata_percent_changes: "unquote (quote header_safe ''100%41'') = ''100A''"
  by (simp add: quote_def quote_char_def header_safe_def always_safe_def is_alnum_def is_digit_def is_upper_case_def
      is_lower_case_def hex_val_def char_eval)

text \<open>The value of the proxy header ends with a newline.\<close>

lemma encodestring_newline: "s \<noteq> [] \<Longrightarrow> last (encodestring s) = CHR 0x0A"
proof -
  assume "s \<noteq> []"
  then have "pieces 57 s \<noteq> []" by (simp add: pieces_eq_Nil_iff)
  then obtain ps p where "pieces 57 s = ps @ [p]" by (metis rev_exhaust)
  then show ?thesis by (simp add: encodestring_def)
qed

lemma proxy_auth_header_newline:
  "get_proxy_auth_header c = Inr (k, v) \<Longrightarrow> last v = CHR 0x0A"
proof -
  assume "get_proxy_auth_header c = Inr (k, v)"
  then obtain u p where v: "v = ''Basic '' @ encodestring (u @ '':'' @ p)"
    by (auto simp: get_proxy_auth_header_def split: option.splits)
  have "encodestring (u @ '':'' @ p) \<noteq> []"
    using pieces_eq_Nil_iff [of 57 "u @ '':'' @ p"] by (auto simp: encodestring_def concat_eq_Nil_conv neq_Nil_conv)
  then show ?thesis using v encodestring_newline [of "u @ '':'' @ p"] by (simp del: append_Cons append_Nil)
qed

text \<open>An affirmative answer other than \<open>true\<close> turns the validation of certificates off.\<close>

lemma getbool_yes: "getbool (\<lambda>_. Some ''yes'') ''https_validate_certificates'' True = False"
  by (simp add: getbool_def str_lower_def lower_char_def)

section \<open>Properties\<close>

text \<open>
  Unless told otherwise, \<open>get_path\<close> gives a path that starts with a slash and has no two slashes in
  a row before its query, and a second application changes nothing if the connection has no base
  path.
\<close>

theorem get_path_is_normal:
  assumes "suppress_consec_slashes c" and "CHR ''?'' \<notin> set (base_path c)" and "get_path c p = Inr q"
  shows "\<not> str_contains (path_part q) ''//'' \<and> hd q = CHR ''/''
    \<and> (base_path c = ''/'' \<longrightarrow> get_path c q = Inr q)"
  by (rule get_path_normal [OF assms])

definition plain_conn :: "aws_conn" where
  "plain_conn =
     \<lparr>suppress_consec_slashes = True, num_retries = 6, is_secure = True, https_validate_certificates = True,
      ca_certificates_file = None, port = 443, proxy = None, proxy_port = None, proxy_user = None, proxy_pass = None,
      no_proxy = [], use_proxy = False, has_https_connection_factory = False, protocol = ''https'', host = ''h'',
      base_path = ''/'', debug = 0, host_header = None, timeout = 70, connection_key = (''h'', PortNum 443, True)\<rparr>"

theorem get_path_is_normal_witness:
  "get_path plain_conn ''a//b/?x//y'' = Inr ''/a/b/?x//y'' \<and> get_path plain_conn ''/a/b/?x//y'' = Inr ''/a/b/?x//y''"
proof -
  have g: "get_path plain_conn ''a//b/?x//y'' = Inr ''/a/b/?x//y''"
    by (simp add: get_path_def plain_conn_def Let_def)
  have "get_path plain_conn ''/a/b/?x//y'' = Inr ''/a/b/?x//y''"
    using get_path_is_normal [OF _ _ g] by (simp add: plain_conn_def)
  with g show ?thesis by simp
qed

text \<open>
  The regular expression for \<open>http_proxy\<close> finds the user, the password, the host and the port of a
  full proxy URL again, whatever the password contains but a newline (an \<open>@\<close> or a \<open>:\<close> included).
\<close>

theorem proxy_url_parts:
  assumes "u \<noteq> []" "\<forall>c \<in> set u. proxy_word c" and "CHR 0x0A \<notin> set pass"
    and "h \<noteq> []" "\<forall>c \<in> set h. proxy_word c" and "num \<noteq> []" "\<forall>c \<in> set num. is_digit c"
  shows "match_proxy (''http://'' @ u @ '':'' @ pass @ ''@'' @ h @ '':'' @ num)
       = Some \<lparr>m_user = Some u, m_pass = Some pass, m_host = h, m_port = Some num\<rparr>"
  by (rule match_proxy_full [OF assms])

theorem proxy_url_parts_witness:
  "match_proxy (''http://'' @ ''me'' @ '':'' @ ''p@s:s'' @ ''@'' @ ''a.b-c'' @ '':'' @ ''3128'')
       = Some \<lparr>m_user = Some ''me'', m_pass = Some ''p@s:s'', m_host = ''a.b-c'', m_port = Some ''3128''\<rparr>"
  by (rule proxy_url_parts) (simp_all add: proxy_word_def is_alnum_def is_digit_def is_upper_case_def is_lower_case_def)

text \<open>
  Metadata given as text comes back as it was: merged into the headers of a request, quoted
  when the request is authorised, and taken out of the same headers of a response, it is the
  same, and no other header is lost, provided no value has a percent sign and no name is that of a
  standard field.
\<close>

theorem metadata_roundtrip:
  assumes "str_lower (metadata_prefix p) = metadata_prefix p"
    and "\<forall>k \<in> fst ` set ms. str_lower k \<notin> base_user_settable_fields" "distinct (map fst ms)"
    and "\<forall>h \<in> fst ` set hs. \<not> str_startswith (str_lower h) (metadata_prefix p)" "distinct (map fst hs)"
    and "\<forall>v \<in> snd ` set ms. CHR ''%'' \<notin> set v"
    and "req_headers r = merge_meta hs (map (\<lambda>(k, v). (k, HUni v)) ms) p" "\<not> headers_quoted r"
  shows "get_aws_metadata (map (\<lambda>(k, v). (k, on_wire v)) (req_headers (quote_headers r))) p
       = (ms, map (\<lambda>(k, v). (k, on_wire (quote_header v))) hs)"
  by (rule metadata_text_returns [OF assms])

theorem metadata_roundtrip_witness:
  "get_aws_metadata (map (\<lambda>(k, v). (k, on_wire v)) (req_headers (quote_headers
      (http_request_init ''PUT'' ''https'' ''h'' (PortNum 443) ''/'' None []
        (merge_meta [(''Host'', HStr ''h'')] [(''Name'', HUni [CHR 0xC3, CHR 0xA9, CHR ''x''])] (aws_provider ''k'' ''s'' None)) []))))
      (aws_provider ''k'' ''s'' None)
   = ([(''Name'', [CHR 0xC3, CHR 0xA9, CHR ''x''])], [(''Host'', ''h'')])"
proof -
  let ?p = "aws_provider ''k'' ''s'' None"
  let ?ms = "[(''Name'', [CHR 0xC3, CHR 0xA9, CHR ''x''])]"
  let ?r = "http_request_init ''PUT'' ''https'' ''h'' (PortNum 443) ''/'' None []
        (merge_meta [(''Host'', HStr ''h'')] (map (\<lambda>(k, v). (k, HUni v)) ?ms) ?p) []"
  have lower: "str_lower ''Name'' = ''name''" "str_lower ''Host'' = ''host''"
    "str_lower ''x-amz-meta-'' = ''x-amz-meta-''" by (simp_all add: str_lower_def lower_char_def char_eval)
  have "get_aws_metadata (map (\<lambda>(k, v). (k, on_wire v)) (req_headers (quote_headers ?r))) ?p
       = (?ms, map (\<lambda>(k, v). (k, on_wire (quote_header v))) [(''Host'', HStr ''h'')])"
    by (rule metadata_roundtrip)
      (simp_all add: aws_provider_def lower base_user_settable_fields_def str_startswith_def http_request_init_def
        merge_meta_def)
  then show ?thesis by (simp add: on_wire_def quote_header_def)
qed

end
