(* ===== verification/Conn_Mexe.thy ===== *)
theory Conn_Mexe
  imports Conn_Request
begin

text \<open>
  \<open>AWSAuthConnection._mexe\<close> of \<^verbatim>\<open>boto/connection.py\<close>: sending a request, with retries, redirects and
  the pool of connections, and the making of new connections.

  The network and the service are \<open>answer\<close>: what the \<open>n\<close>-th request of the call gets on a
  connection, a response or an exception.  A round of the loop is \<open>mexe_round\<close>; the loop is a partial
  function, whose value is \<open>None\<close> if it does not return.
\<close>

section \<open>Connections\<close>

text \<open>What \<open>new_http_connection\<close> makes: the class of the connection and its arguments.\<close>

datatype transport =
    ProxyTunnel string nat
  | FactoryHTTPS string
  | ValidatingHTTPS string port "string option"
  | PlainHTTPS string port
  | FactoryHTTP string port
  | PlainHTTP string port

primrec over_tls :: "transport \<Rightarrow> bool" where
  "over_tls (ProxyTunnel h p) = True"
| "over_tls (FactoryHTTPS h) = True"
| "over_tls (ValidatingHTTPS h p ca) = True"
| "over_tls (PlainHTTPS h p) = True"
| "over_tls (FactoryHTTP h p) = False"
| "over_tls (PlainHTTP h p) = False"

type_synonym http_conn = "nat \<times> transport"

definition proxy_port_num :: "aws_conn \<Rightarrow> nat res" where
  "proxy_port_num c = (case proxy_port c of None \<Rightarrow> Inl TypeError
     | Some s \<Rightarrow> res_bind (py_int s) (\<lambda>n. Inr (nat n)))"

text \<open>\<open>have_https\<close> is \<open>HAVE_HTTPS_CONNECTION\<close>; \<open>h\<close> and \<open>kw_port\<close> are the host and the port keyword.\<close>

definition pick_transport :: "bool \<Rightarrow> aws_conn \<Rightarrow> string \<Rightarrow> port \<Rightarrow> bool \<Rightarrow> transport" where
  "pick_transport have_https c h kw_port secure =
     (if secure
      then if use_proxy c \<and> \<not> skip_proxy c h then ProxyTunnel h 443
           else if has_https_connection_factory c then FactoryHTTPS h
           else if https_validate_certificates c \<and> have_https then ValidatingHTTPS h kw_port (ca_certificates_file c)
           else PlainHTTPS h kw_port
      else if has_https_connection_factory c then FactoryHTTP h kw_port else PlainHTTP h kw_port)"

definition proxied_address :: "aws_conn \<Rightarrow> string \<Rightarrow> port \<Rightarrow> bool \<Rightarrow> (string \<times> port) res" where
  "proxied_address c h p secure =
     (if use_proxy c \<and> \<not> secure \<and> \<not> skip_proxy c h
      then res_bind (proxy_port_num c) (\<lambda>pp. Inr (the (proxy c), PortNum pp)) else Inr (h, p))"

definition new_http_connection :: "bool \<Rightarrow> string \<Rightarrow> bool \<Rightarrow> aws_conn \<Rightarrow> string option \<Rightarrow> port \<Rightarrow> bool \<Rightarrow> (transport \<times> aws_conn) res" where
  "new_http_connection g ver have_https c h p secure =
     res_bind (proxied_address c (parse_host (case h of None \<Rightarrow> server_name g ver c None | Some h \<Rightarrow> h)) p secure) (\<lambda>(h, kw_port).
       Inr (pick_transport have_https c h kw_port secure,
            if str_split CHR '':'' h ! 0 = host c \<and> secure = is_secure c
            then c\<lparr>connection_key := (h, p, secure)\<rparr> else c))"

lemma pick_transport_tls [simp]: "over_tls (pick_transport hh c h p secure) = secure"
  by (simp add: pick_transport_def)

lemma new_http_connection_tls: "new_http_connection g ver hh c h p secure = Inr (t, c') \<Longrightarrow> over_tls t = secure"
  by (auto simp: new_http_connection_def res_bind_Inr_iff)

section \<open>Responses, exceptions and the environment\<close>

record response =
  resp_status :: nat
  resp_reason :: string
  resp_location :: "string option"
  resp_connection :: "string option"
  resp_body :: string

datatype mexe_exc =
    PleaseRetry "response option" \<comment> \<open>\<open>PleaseRetryException\<close>\<close>
  | HttpException string          \<comment> \<open>one of \<open>http_exceptions\<close>\<close>
  | CertException                 \<comment> \<open>one of \<open>http_unretryable_exceptions\<close>\<close>
  | Raised py_exc
  | ServerError nat string "string option" \<comment> \<open>\<open>BotoServerError(status, reason, body)\<close>\<close>
  | ClientError

record mexe_env =
  answer :: "nat \<Rightarrow> http_conn \<Rightarrow> request \<Rightarrow> mexe_exc + response"
  tunnel_error :: "nat \<Rightarrow> mexe_exc option"
  random :: "nat \<Rightarrow> real"
  max_retry_delay :: real
  add_auth :: "nat \<Rightarrow> request \<Rightarrow> request res"
  handler_host_header :: "aws_conn \<Rightarrow> request \<Rightarrow> string option"
  retry_handler :: "(nat \<Rightarrow> response \<Rightarrow> nat \<Rightarrow> real \<Rightarrow> mexe_exc + (string option \<times> nat \<times> real) option) option"
  s3_capability :: bool
  anonymous :: bool
  agent :: string
  gae :: bool
  py_version :: string
  have_https :: bool
  stale :: real
  clk :: clock
  resps :: "http_conn responses"

record mexe_state =
  m_self :: aws_conn
  m_pool :: "http_conn conn_pool"
  m_ticks :: nat
  m_conns :: nat
  m_i :: nat
  m_rounds :: nat
  m_request :: request
  m_connection :: http_conn
  m_response :: "response option"
  m_body :: "string option"
  m_ex :: "mexe_exc option"
  m_sleeps :: "real list"
  m_sent :: "(http_conn \<times> request) list"

type_synonym 'a mexe = "mexe_state \<Rightarrow> (mexe_exc + 'a) \<times> mexe_state"

definition new_conn :: "mexe_env \<Rightarrow> string \<Rightarrow> port \<Rightarrow> bool \<Rightarrow> http_conn mexe" where
  "new_conn E h p secure s =
     (case new_http_connection (gae E) (py_version E) (have_https E) (m_self s) (Some h) p secure of
        Inl e \<Rightarrow> (Inl (Raised e), s)
      | Inr (t, c) \<Rightarrow>
         (case (t, tunnel_error E (m_conns s)) of
            (ProxyTunnel _ _, Some e) \<Rightarrow> (Inl e, s\<lparr>m_conns := Suc (m_conns s)\<rparr>)
          | _ \<Rightarrow> (Inr (m_conns s, t), s\<lparr>m_self := c, m_conns := Suc (m_conns s)\<rparr>)))"

definition get_conn :: "mexe_env \<Rightarrow> string \<Rightarrow> port \<Rightarrow> bool \<Rightarrow> http_conn mexe" where
  "get_conn E h p secure s =
     (case get_http_connection (gae E) (stale E) (clk E) (resps E) (h, p, secure) (m_ticks s) (m_pool s) of
        (Inl e, n, q) \<Rightarrow> (Inl (Raised e), s\<lparr>m_ticks := n, m_pool := q\<rparr>)
      | (Inr (Some c), n, q) \<Rightarrow> (Inr c, s\<lparr>m_ticks := n, m_pool := q\<rparr>)
      | (Inr None, n, q) \<Rightarrow> new_conn E h p secure (s\<lparr>m_ticks := n, m_pool := q\<rparr>))"

definition put_conn :: "mexe_env \<Rightarrow> string \<Rightarrow> port \<Rightarrow> bool \<Rightarrow> http_conn \<Rightarrow> mexe_state \<Rightarrow> mexe_state" where
  "put_conn E h p secure c s =
     (case put_http_connection (clk E) (h, p, secure) c (m_ticks s) (m_pool s) of
        (n, q) \<Rightarrow> s\<lparr>m_ticks := n, m_pool := q\<rparr>)"

section \<open>One round\<close>

definition set_host_header :: "mexe_env \<Rightarrow> aws_conn \<Rightarrow> request \<Rightarrow> request" where
  "set_host_header E c r = r\<lparr>req_headers := AList.update ''Host''
     (HStr (case handler_host_header E c r of Some h \<Rightarrow> h | None \<Rightarrow> str_split CHR '':'' (host c) ! 0)) (req_headers r)\<rparr>"

text \<open>The request as it is sent: authorised, and with a host header if it needs one.\<close>

definition prepared :: "mexe_env \<Rightarrow> mexe_state \<Rightarrow> request res" where
  "prepared E s = res_bind (authorize (agent E) (add_auth E (m_rounds s)) (m_request s)) (\<lambda>r.
     Inr (if \<not> s3_capability E \<and> \<not> anonymous E \<and> \<not> hval_true (map_of (req_headers r) ''Host'')
          then set_host_header E (m_self s) r else r))"

definition next_sleep :: "mexe_env \<Rightarrow> mexe_state \<Rightarrow> real" where
  "next_sleep E s = min (random E (m_rounds s) * 2 ^ m_i s) (max_retry_delay E)"

datatype 'a step = Continue 'a | Return response 'a | Raise mexe_exc 'a

definition sleep_and_count :: "real \<Rightarrow> mexe_state \<Rightarrow> mexe_state step" where
  "sleep_and_count d s = Continue (s\<lparr>m_sleeps := m_sleeps s @ [d], m_i := Suc (m_i s), m_rounds := Suc (m_rounds s)\<rparr>)"

text \<open>The two \<open>except\<close> clauses, and an exception that neither catches.\<close>

definition handle_exc :: "mexe_env \<Rightarrow> real \<Rightarrow> mexe_exc \<Rightarrow> mexe_state \<Rightarrow> mexe_state step" where
  "handle_exc E d e s =
     (case e of
        PleaseRetry r \<Rightarrow>
          (case new_conn E (req_host (m_request s)) (req_port (m_request s)) (is_secure (m_self s)) s of
             (Inl e', s') \<Rightarrow> Raise e' s'
           | (Inr c, s') \<Rightarrow> sleep_and_count d (s'\<lparr>m_connection := c, m_response := r, m_ex := Some e\<rparr>))
      | HttpException _ \<Rightarrow>
          (case new_conn E (req_host (m_request s)) (req_port (m_request s)) (is_secure (m_self s)) s of
             (Inl e', s') \<Rightarrow> Raise e' s'
           | (Inr c, s') \<Rightarrow> sleep_and_count d (s'\<lparr>m_connection := c, m_ex := Some e\<rparr>))
      | _ \<Rightarrow> Raise e s)"

definition retried_status :: "nat \<Rightarrow> bool" where
  "retried_status n \<longleftrightarrow> n \<in> {500, 502, 503, 504}"

definition is_redirect :: "response \<Rightarrow> bool" where
  "is_redirect r \<longleftrightarrow> \<not> retried_status (resp_status r) \<and>
     \<not> (resp_status r < 300 \<or> 400 \<le> resp_status r \<or> \<not> str_true (resp_location r))"

definition redirected :: "url \<Rightarrow> request \<Rightarrow> request" where
  "redirected u r =
     (let r = r\<lparr>req_host := url_netloc_of u,
                req_path := url_path_of u @ (if url_query_of u \<noteq> [] then ''?'' @ url_query_of u else [])\<rparr>
      in case split_first CHR '':'' (req_host r) of
           (h, Some p) \<Rightarrow> r\<lparr>req_host := h, req_port := PortStr p\<rparr>
         | (_, None) \<Rightarrow> r)"

definition handle_response :: "mexe_env \<Rightarrow> real \<Rightarrow> response \<Rightarrow> mexe_state \<Rightarrow> mexe_state step" where
  "handle_response E d r s =
     (if retried_status (resp_status r)
      then if utf8_valid (resp_body r) then sleep_and_count d (s\<lparr>m_body := Some (resp_body r)\<rparr>)
           else Raise (Raised UnicodeDecodeError) (s\<lparr>m_body := Some (resp_body r)\<rparr>)
      else if \<not> is_redirect r
      then Return r (if resp_connection r = Some ''close'' then s
                     else put_conn E (req_host (m_request s)) (req_port (m_request s)) (is_secure (m_self s)) (m_connection s) s)
      else case urlparse (the (resp_location r)) of
             Inl e \<Rightarrow> Raise (Raised e) s
           | Inr u \<Rightarrow>
              (let s = s\<lparr>m_request := redirected u (m_request s)\<rparr>
               in case get_conn E (req_host (m_request s)) (req_port (m_request s)) (url_scheme_of u = ''https'') s of
                    (Inl e, s) \<Rightarrow> handle_exc E d e s
                  | (Inr c, s) \<Rightarrow> Continue (s\<lparr>m_connection := c, m_response := None, m_rounds := Suc (m_rounds s)\<rparr>)))"

definition after_response :: "mexe_env \<Rightarrow> real \<Rightarrow> response \<Rightarrow> mexe_state \<Rightarrow> mexe_state step" where
  "after_response E d r s =
     (case retry_handler E of
        None \<Rightarrow> handle_response E d r s
      | Some f \<Rightarrow>
         (case f (m_rounds s) r (m_i s) d of
            Inl e \<Rightarrow> handle_exc E d e s
          | Inr None \<Rightarrow> handle_response E d r s
          | Inr (Some (_, i, d')) \<Rightarrow>
              Continue (s\<lparr>m_i := i, m_sleeps := m_sleeps s @ [d'], m_rounds := Suc (m_rounds s)\<rparr>)))"

definition mexe_round :: "mexe_env \<Rightarrow> mexe_state \<Rightarrow> mexe_state step" where
  "mexe_round E s =
     (case prepared E s of
        Inl e \<Rightarrow> Raise (Raised e) s
      | Inr req \<Rightarrow>
         (let d = next_sleep E s;
              ans = answer E (length (m_sent s)) (m_connection s) req;
              s = s\<lparr>m_request := req, m_sent := m_sent s @ [(m_connection s, req)]\<rparr>
          in case ans of
               Inl e \<Rightarrow> handle_exc E d e s
             | Inr r \<Rightarrow> after_response E d r (s\<lparr>m_response := Some r\<rparr>)))"

section \<open>The loop\<close>

definition mexe_finish :: "mexe_state \<Rightarrow> (mexe_exc + response) \<times> mexe_state" where
  "mexe_finish s = (Inl (case m_response s of
       Some r \<Rightarrow> ServerError (resp_status r) (resp_reason r) (m_body s)
     | None \<Rightarrow> (case m_ex s of Some e \<Rightarrow> e | None \<Rightarrow> ClientError)), s)"

partial_function (option) mexe_loop :: "mexe_env \<Rightarrow> nat \<Rightarrow> mexe_state \<Rightarrow> ((mexe_exc + response) \<times> mexe_state) option" where
  "mexe_loop E n s =
     (if n < m_i s then Some (mexe_finish s)
      else case mexe_round E s of
             Continue s' \<Rightarrow> mexe_loop E n s'
           | Return r s' \<Rightarrow> Some (Inr r, s')
           | Raise e s' \<Rightarrow> Some (Inl e, s'))"

text \<open>\<open>override\<close> is the argument \<open>override_num_retries\<close>, \<open>cfg\<close> the configured number.\<close>

definition mexe :: "mexe_env \<Rightarrow> nat option \<Rightarrow> nat option \<Rightarrow> aws_conn \<Rightarrow> nat \<Rightarrow> http_conn conn_pool \<Rightarrow> nat \<Rightarrow> request \<Rightarrow> ((mexe_exc + response) \<times> mexe_state) option" where
  "mexe E override cfg c ticks pool first_id req =
     (let n = (case override of Some k \<Rightarrow> k | None \<Rightarrow> (case cfg of Some k \<Rightarrow> k | None \<Rightarrow> num_retries c));
          s = \<lparr>m_self = c, m_pool = pool, m_ticks = ticks, m_conns = first_id, m_i = 0, m_rounds = 0, m_request = req,
               m_connection = (0, PlainHTTP [] (PortNum 0)), m_response = None, m_body = None, m_ex = None,
               m_sleeps = [], m_sent = []\<rparr>
      in case get_conn E (req_host req) (req_port req) (is_secure c) s of
           (Inl e, s) \<Rightarrow> Some (Inl e, s)
         | (Inr con, s) \<Rightarrow> mexe_loop E n (s\<lparr>m_connection := con\<rparr>))"

section \<open>What a round leaves alone\<close>

definition same_call :: "mexe_state \<Rightarrow> mexe_state \<Rightarrow> bool" where
  "same_call s s' \<longleftrightarrow> m_i s' = m_i s \<and> m_rounds s' = m_rounds s \<and> m_request s' = m_request s
     \<and> m_response s' = m_response s \<and> m_body s' = m_body s \<and> m_ex s' = m_ex s \<and> m_sleeps s' = m_sleeps s
     \<and> m_sent s' = m_sent s \<and> m_connection s' = m_connection s
     \<and> is_secure (m_self s') = is_secure (m_self s) \<and> use_proxy (m_self s') = use_proxy (m_self s)"

lemma same_call_refl [simp]: "same_call s s"
  by (simp add: same_call_def)

lemma new_http_connection_self:
  "new_http_connection g v hh c h p b = Inr (t, c') \<Longrightarrow> is_secure c' = is_secure c \<and> use_proxy c' = use_proxy c"
  by (auto simp: new_http_connection_def res_bind_Inr_iff split: if_splits)

lemma new_conn_same: "new_conn E h p b s = (r, s') \<Longrightarrow> same_call s s'"
  by (auto simp: new_conn_def same_call_def dest!: new_http_connection_self
      split: sum.splits prod.splits transport.splits option.splits)

lemma get_conn_same: "get_conn E h p b s = (r, s') \<Longrightarrow> same_call s s'"
  by (auto simp: get_conn_def same_call_def dest!: new_conn_same split: sum.splits prod.splits option.splits)

lemma put_conn_same: "same_call s (put_conn E h p b c s)"
  by (simp add: put_conn_def same_call_def split: prod.splits)

text \<open>Without a proxy a connection can always be made.\<close>

lemma new_conn_works: "\<not> use_proxy (m_self s) \<Longrightarrow> \<exists>c s'. new_conn E h p b s = (Inr c, s')"
  by (simp add: new_conn_def new_http_connection_def proxied_address_def pick_transport_def)

lemma get_conn_works:
  assumes "\<not> use_proxy (m_self s)"
  shows "\<exists>c s'. get_conn E h p b s = (Inr c, s')"
proof -
  obtain r n q where g: "get_http_connection (gae E) (stale E) (clk E) (resps E) (h, p, b) (m_ticks s) (m_pool s) = (r, n, q)"
    by (metis prod.collapse)
  then obtain o' where "r = Inr o'"
    by (auto simp: get_http_connection_def get_locked_def dest: get_total split: prod.splits option.splits)
  then show ?thesis using g assms new_conn_works [of "s\<lparr>m_ticks := n, m_pool := q\<rparr>" E h p b]
    by (cases o') (auto simp: get_conn_def)
qed

lemma handle_exc_continue:
  "handle_exc E d e s = Continue s' \<Longrightarrow> m_i s' = Suc (m_i s) \<and> m_sent s' = m_sent s"
  by (auto simp: handle_exc_def sleep_and_count_def same_call_def dest!: new_conn_same
      split: mexe_exc.splits prod.splits sum.splits)

lemma handle_response_continue:
  "handle_response E d r s = Continue s' \<Longrightarrow>
    m_sent s' = m_sent s \<and> (m_i s' = Suc (m_i s) \<or> m_i s' = m_i s \<and> is_redirect r)"
  by (auto simp: handle_response_def sleep_and_count_def Let_def same_call_def
      dest!: get_conn_same handle_exc_continue split: if_splits sum.splits prod.splits)

text \<open>
  Without a retry handler every round that goes on has sent one request, and counts, unless the
  answer was a redirect.
\<close>

lemma round_continue:
  assumes "mexe_round E s = Continue s'" and "retry_handler E = None"
  shows "length (m_sent s') = Suc (length (m_sent s)) \<and>
    (m_i s' = Suc (m_i s) \<or> m_i s' = m_i s \<and> (\<exists>c q r. answer E (length (m_sent s)) c q = Inr r \<and> is_redirect r))"
  using assms
  by (fastforce simp: mexe_round_def after_response_def Let_def dest!: handle_exc_continue handle_response_continue split: sum.splits)

primrec step_state :: "'a step \<Rightarrow> 'a" where
  "step_state (Continue s) = s"
| "step_state (Return r s) = s"
| "step_state (Raise e s) = s"

lemma handle_exc_sent: "m_sent (step_state (handle_exc E d e s)) = m_sent s"
  by (auto simp: handle_exc_def sleep_and_count_def same_call_def dest!: new_conn_same
      split: mexe_exc.splits prod.splits sum.splits)

lemma handle_response_sent: "m_sent (step_state (handle_response E d r s)) = m_sent s"
  using put_conn_same [of s E]
  by (auto simp: handle_response_def sleep_and_count_def Let_def same_call_def handle_exc_sent
      dest!: get_conn_same split: sum.splits prod.splits)

lemma round_sent:
  "m_sent (step_state (mexe_round E s)) = m_sent s
   \<or> (\<exists>q. prepared E s = Inr q \<and> m_sent (step_state (mexe_round E s)) = m_sent s @ [(m_connection s, q)])"
  by (simp add: mexe_round_def after_response_def Let_def handle_exc_sent handle_response_sent split: sum.splits option.splits prod.splits)

section \<open>Termination\<close>

text \<open>From the \<open>N\<close>-th request of the call on, no answer is a redirect.\<close>

definition no_redirect_from :: "mexe_env \<Rightarrow> nat \<Rightarrow> bool" where
  "no_redirect_from E N \<longleftrightarrow> (\<forall>k c q r. N \<le> k \<longrightarrow> answer E k c q = Inr r \<longrightarrow> \<not> is_redirect r)"

lemma mexe_loop_returns:
  assumes "retry_handler E = None" and "no_redirect_from E N"
  shows "\<exists>res s'. mexe_loop E n s = Some (res, s')
    \<and> length (m_sent s') \<le> max N (length (m_sent s)) + (Suc n - m_i s)"
proof (induction "(N - length (m_sent s)) + (Suc n - m_i s)" arbitrary: s rule: less_induct)
  case less
  show ?case
  proof (cases "n < m_i s")
    case True
    then show ?thesis by (subst mexe_loop.simps) (simp add: mexe_finish_def)
  next
    case False
    have sent: "length (m_sent (step_state (mexe_round E s))) \<le> Suc (length (m_sent s))"
      using round_sent [of E s] by auto
    show ?thesis
    proof (cases "mexe_round E s")
      case (Continue t)
      from round_continue [OF this assms(1)] have len: "length (m_sent t) = Suc (length (m_sent s))"
        and i: "m_i t = Suc (m_i s) \<or> m_i t = m_i s \<and> length (m_sent s) < N"
        using assms(2) unfolding no_redirect_from_def by (metis not_le)+
      from len i False have dec: "(N - length (m_sent t)) + (Suc n - m_i t) < (N - length (m_sent s)) + (Suc n - m_i s)"
        by auto
      from less [OF dec] obtain res s' where r: "mexe_loop E n t = Some (res, s')"
        "length (m_sent s') \<le> max N (length (m_sent t)) + (Suc n - m_i t)" by blast
      have "max N (length (m_sent t)) + (Suc n - m_i t) \<le> max N (length (m_sent s)) + (Suc n - m_i s)"
        using len i False by auto
      with r show ?thesis using False Continue by (subst mexe_loop.simps) auto
    next
      case (Return r t)
      then show ?thesis using False sent by (subst mexe_loop.simps) auto
    next
      case (Raise e t)
      then show ?thesis using False sent by (subst mexe_loop.simps) auto
    qed
  qed
qed

lemma get_conn_start: "get_conn E h p b s = (r, s') \<Longrightarrow> m_i s' = m_i s \<and> m_sent s' = m_sent s"
  by (auto dest!: get_conn_same simp: same_call_def)

lemma mexe_returns:
  assumes "retry_handler E = None" and "no_redirect_from E N"
  shows "\<exists>res s. mexe E (Some n) cfg c ticks pool first_id req = Some (res, s) \<and> length (m_sent s) \<le> N + Suc n"
proof -
  define s0 where "s0 = \<lparr>m_self = c, m_pool = pool, m_ticks = ticks, m_conns = first_id, m_i = 0, m_rounds = 0, m_request = req,
               m_connection = (0, PlainHTTP [] (PortNum 0)), m_response = None, m_body = None, m_ex = None,
               m_sleeps = [], m_sent = []\<rparr>"
  obtain r s1 where g: "get_conn E (req_host req) (req_port req) (is_secure c) s0 = (r, s1)" by fastforce
  then have s1: "m_i s1 = 0" "m_sent s1 = []" using get_conn_start [OF g] by (simp_all add: s0_def)
  show ?thesis
  proof (cases r)
    case (Inl e)
    then show ?thesis using g s1 by (simp add: mexe_def s0_def [symmetric])
  next
    case (Inr con)
    from mexe_loop_returns [where n = n and N = N and s = "s1\<lparr>m_connection := con\<rparr>", OF assms] s1 obtain res s where
      "mexe_loop E n (s1\<lparr>m_connection := con\<rparr>) = Some (res, s)" "length (m_sent s) \<le> N + Suc n" by auto
    then show ?thesis using g Inr by (simp add: mexe_def s0_def [symmetric])
  qed
qed

text \<open>
  A service that always redirects keeps the loop going for ever: a redirect does not count as a retry.
\<close>

lemma mexe_loop_diverges:
  assumes inv: "Inv s" and step: "\<And>s. Inv s \<Longrightarrow> m_i s \<le> n \<and> (\<exists>s'. mexe_round E s = Continue s' \<and> Inv s')"
  shows "mexe_loop E n s = None"
proof -
  have "mexe_loop E n s = Some r \<Longrightarrow> \<not> Inv s" for r
  proof (rule mexe_loop.raw_induct [where P = "\<lambda>E' n' s r. E' = E \<longrightarrow> n' = n \<longrightarrow> \<not> Inv s", THEN mp, THEN mp, OF _ _ refl refl])
    fix f E' n' s r
    assume IH: "\<And>E' n' s r. f E' n' s = Some r \<Longrightarrow> E' = E \<longrightarrow> n' = n \<longrightarrow> \<not> Inv s"
      and eq: "(if n' < m_i s then Some (mexe_finish s)
        else case mexe_round E' s of Continue s' \<Rightarrow> f E' n' s' | Return r s' \<Rightarrow> Some (Inr r, s') | Raise e s' \<Rightarrow> Some (Inl e, s')) = Some r"
    show "E' = E \<longrightarrow> n' = n \<longrightarrow> \<not> Inv s"
    proof (intro impI notI)
      assume en: "E' = E" "n' = n" and "Inv s"
      from step [OF this(3)] obtain s' where "m_i s \<le> n" "mexe_round E s = Continue s'" "Inv s'" by blast
      with eq en IH [of E n s' r] show False by simp
    qed
  qed
  then show ?thesis using inv by (cases "mexe_loop E n s") auto
qed

definition authorizes :: "mexe_env \<Rightarrow> bool" where
  "authorizes E \<longleftrightarrow> (\<forall>n r. \<exists>r'. add_auth E n r = Inr r')"

lemma prepared_works: "authorizes E \<Longrightarrow> \<exists>q. prepared E s = Inr q"
proof -
  assume "authorizes E"
  then obtain r' where "add_auth E (m_rounds s) (user_agent (agent E) (quote_headers (m_request s))) = Inr r'"
    by (auto simp: authorizes_def)
  then show ?thesis by (simp add: prepared_def authorize_def)
qed

lemma mexe_redirects_for_ever:
  assumes "retry_handler E = None" and "authorizes E" and "\<not> use_proxy c"
    and redirect: "\<And>k con q. \<exists>r u. answer E k con q = Inr r \<and> is_redirect r \<and> urlparse (the (resp_location r)) = Inr u"
  shows "mexe E (Some n) cfg c ticks pool first_id req = None"
proof -
  define s0 where "s0 = \<lparr>m_self = c, m_pool = pool, m_ticks = ticks, m_conns = first_id, m_i = 0, m_rounds = 0, m_request = req,
               m_connection = (0, PlainHTTP [] (PortNum 0)), m_response = None, m_body = None, m_ex = None,
               m_sleeps = [], m_sent = []\<rparr>"
  have s0: "\<not> use_proxy (m_self s0)" using assms(3) by (simp add: s0_def)
  from get_conn_works [OF s0] obtain con s1 where g: "get_conn E (req_host req) (req_port req) (is_secure c) s0 = (Inr con, s1)"
    by blast
  have "mexe_loop E n (s1\<lparr>m_connection := con\<rparr>) = None"
  proof (rule mexe_loop_diverges [where Inv = "\<lambda>s. m_i s = 0 \<and> \<not> use_proxy (m_self s)"])
    show "m_i (s1\<lparr>m_connection := con\<rparr>) = 0 \<and> \<not> use_proxy (m_self (s1\<lparr>m_connection := con\<rparr>))"
      using get_conn_same [OF g] s0 by (simp add: same_call_def s0_def)
    fix s :: mexe_state assume s: "m_i s = 0 \<and> \<not> use_proxy (m_self s)"
    obtain q where q: "prepared E s = Inr q" using prepared_works [OF assms(2)] by blast
    obtain r u where r: "answer E (length (m_sent s)) (m_connection s) q = Inr r" "is_redirect r"
      "urlparse (the (resp_location r)) = Inr u" using redirect by blast
    define t where "t = s\<lparr>m_sent := m_sent s @ [(m_connection s, q)], m_response := Some r, m_request := redirected u q\<rparr>"
    have t: "\<not> use_proxy (m_self t)" "m_i t = 0" using s by (simp_all add: t_def)
    from get_conn_works [OF t(1)] obtain c2 t2 where g2: "get_conn E (req_host (m_request t)) (req_port (m_request t)) (url_scheme_of u = ''https'') t = (Inr c2, t2)"
      by blast
    have "mexe_round E s = Continue (t2\<lparr>m_connection := c2, m_response := None, m_rounds := Suc (m_rounds t2)\<rparr>)"
      using q r g2 assms(1) by (simp add: mexe_round_def after_response_def handle_response_def is_redirect_def Let_def t_def)
    moreover have "m_i t2 = 0 \<and> \<not> use_proxy (m_self t2)" using get_conn_same [OF g2] t by (simp add: same_call_def)
    ultimately show "m_i s \<le> n \<and> (\<exists>s'. mexe_round E s = Continue s' \<and> m_i s' = 0 \<and> \<not> use_proxy (m_self s'))"
      using s by simp
  qed
  then show ?thesis using g by (simp add: mexe_def s0_def [symmetric])
qed

section \<open>Retries\<close>

text \<open>An answer that is tried again, and one that ends the loop.\<close>

definition transient :: "mexe_exc + response \<Rightarrow> bool" where
  "transient a = (case a of Inl (HttpException e) \<Rightarrow> True | Inl (PleaseRetry r) \<Rightarrow> True | Inl _ \<Rightarrow> False
     | Inr r \<Rightarrow> retried_status (resp_status r) \<and> utf8_valid (resp_body r))"

lemma round_transient:
  assumes "retry_handler E = None" and "authorizes E" and "\<not> use_proxy (m_self s)"
    and "\<And>c q. transient (answer E (length (m_sent s)) c q)"
  shows "\<exists>s'. mexe_round E s = Continue s' \<and> m_i s' = Suc (m_i s) \<and> length (m_sent s') = Suc (length (m_sent s))
    \<and> \<not> use_proxy (m_self s') \<and> m_sleeps s' = m_sleeps s @ [next_sleep E s]
    \<and> m_rounds s' = Suc (m_rounds s)"
proof -
  obtain q where q: "prepared E s = Inr q" using prepared_works [OF assms(2)] by blast
  let ?a = "answer E (length (m_sent s)) (m_connection s) q"
  let ?s = "s\<lparr>m_request := q, m_sent := m_sent s @ [(m_connection s, q)]\<rparr>"
  have tr: "transient ?a" using assms(4) .
  show ?thesis
  proof (cases ?a)
    case (Inl e)
    have ns: "\<not> use_proxy (m_self ?s)" using assms(3) by simp
    from new_conn_works [OF ns] obtain c s2 where n: "new_conn E (req_host (m_request ?s)) (req_port (m_request ?s))
        (is_secure (m_self ?s)) ?s = (Inr c, s2)" by blast
    from new_conn_same [OF n] ns have "m_i s2 = m_i s" "m_sent s2 = m_sent s @ [(m_connection s, q)]"
      "m_sleeps s2 = m_sleeps s" "m_rounds s2 = m_rounds s" "\<not> use_proxy (m_self s2)" by (simp_all add: same_call_def)
    then show ?thesis using q Inl n tr
      by (cases e) (simp_all add: mexe_round_def handle_exc_def sleep_and_count_def transient_def Let_def)
  next
    case (Inr r)
    then show ?thesis using q tr assms(1,3)
      by (simp add: mexe_round_def after_response_def handle_response_def sleep_and_count_def transient_def Let_def)
  qed
qed

lemma loop_transient:
  assumes "retry_handler E = None" and "authorizes E"
    and tr: "\<And>j c q. j < k \<Longrightarrow> transient (answer E j c q)"
    and s: "\<not> use_proxy (m_self s)" "length (m_sent s) = j" "m_i s = j" "m_rounds s = j" and "j \<le> k" and "k \<le> Suc n"
  shows "\<exists>s'. mexe_loop E n s = mexe_loop E n s' \<and> m_i s' = k \<and> m_rounds s' = k \<and> length (m_sent s') = k
    \<and> \<not> use_proxy (m_self s')
    \<and> m_sleeps s' = m_sleeps s @ map (\<lambda>i. min (random E i * 2 ^ i) (max_retry_delay E)) [j..<k]"
  using s \<open>j \<le> k\<close>
proof (induction "k - j" arbitrary: s j)
  case 0
  then show ?case by (intro exI [of _ s]) simp
next
  case (Suc d)
  then have j: "j < k" by simp
  with tr have "\<And>c q. transient (answer E (length (m_sent s)) c q)" using Suc.prems(2) by simp
  from round_transient [OF assms(1,2) Suc.prems(1) this] obtain t where t: "mexe_round E s = Continue t"
    "m_i t = Suc j" "length (m_sent t) = Suc j" "\<not> use_proxy (m_self t)" "m_rounds t = Suc j"
    "m_sleeps t = m_sleeps s @ [next_sleep E s]" using Suc.prems by auto
  have "d = k - Suc j" using Suc.hyps(2) by simp
  from Suc.hyps(1) [OF this t(4,3,2,5)] j obtain s' where s': "mexe_loop E n t = mexe_loop E n s'" "m_i s' = k" "m_rounds s' = k"
    "length (m_sent s') = k" "\<not> use_proxy (m_self s')"
    "m_sleeps s' = m_sleeps t @ map (\<lambda>i. min (random E i * 2 ^ i) (max_retry_delay E)) [Suc j..<k]" by auto
  have "mexe_loop E n s = mexe_loop E n t"
    using t(1) j \<open>k \<le> Suc n\<close> Suc.prems(3) by (subst mexe_loop.simps) simp
  moreover have "m_sleeps s' = m_sleeps s @ map (\<lambda>i. min (random E i * 2 ^ i) (max_retry_delay E)) [j..<k]"
    using s'(6) t(6) j Suc.prems(3,4) by (simp add: next_sleep_def upt_conv_Cons)
  ultimately show ?case using s' by (intro exI [of _ s']) simp
qed

text \<open>The state in which the loop starts.\<close>

lemma mexe_enters:
  assumes "\<not> use_proxy c"
  shows "\<exists>s. mexe E (Some n) cfg c ticks pool first_id req = mexe_loop E n s \<and> \<not> use_proxy (m_self s)
    \<and> m_sent s = [] \<and> m_i s = 0 \<and> m_rounds s = 0 \<and> m_sleeps s = []"
proof -
  define s0 where "s0 = \<lparr>m_self = c, m_pool = pool, m_ticks = ticks, m_conns = first_id, m_i = 0, m_rounds = 0, m_request = req,
               m_connection = (0, PlainHTTP [] (PortNum 0)), m_response = None, m_body = None, m_ex = None,
               m_sleeps = [], m_sent = []\<rparr>"
  have "\<not> use_proxy (m_self s0)" using assms by (simp add: s0_def)
  from get_conn_works [OF this] obtain con s1 where g: "get_conn E (req_host req) (req_port req) (is_secure c) s0 = (Inr con, s1)"
    by blast
  from get_conn_same [OF g] have "\<not> use_proxy (m_self s1) \<and> m_sent s1 = [] \<and> m_i s1 = 0 \<and> m_rounds s1 = 0 \<and> m_sleeps s1 = []"
    using assms by (simp add: same_call_def s0_def)
  then show ?thesis using g
    by (intro exI [of _ "s1\<lparr>m_connection := con\<rparr>"]) (simp add: mexe_def s0_def [symmetric])
qed

definition final_response :: "response \<Rightarrow> bool" where
  "final_response r \<longleftrightarrow> \<not> retried_status (resp_status r) \<and> \<not> is_redirect r"

text \<open>
  After \<open>k\<close> transient failures, with \<open>k\<close> at most the number of retries, the response to the next
  request is returned, and the call has slept \<open>k\<close> times.
\<close>

lemma mexe_succeeds:
  assumes "retry_handler E = None" and "authorizes E" and "\<not> use_proxy c" and "k \<le> n"
    and "\<And>j con q. j < k \<Longrightarrow> transient (answer E j con q)"
    and "\<And>con q. answer E k con q = Inr r" and "final_response r"
  shows "\<exists>s. mexe E (Some n) cfg c ticks pool first_id req = Some (Inr r, s) \<and> length (m_sent s) = Suc k
    \<and> m_sleeps s = map (\<lambda>i. min (random E i * 2 ^ i) (max_retry_delay E)) [0..<k]"
proof -
  from mexe_enters [OF assms(3)] obtain s where s: "mexe E (Some n) cfg c ticks pool first_id req = mexe_loop E n s"
    "\<not> use_proxy (m_self s)" "m_sent s = []" "m_i s = 0" "m_rounds s = 0" "m_sleeps s = []" by blast
  from loop_transient [where k = k and n = n and s = s and j = 0 and E = E] assms(1-5) s
  obtain t where t: "mexe_loop E n s = mexe_loop E n t" "m_i t = k" "length (m_sent t) = k"
    "m_sleeps t = map (\<lambda>i. min (random E i * 2 ^ i) (max_retry_delay E)) [0..<k]" by fastforce
  obtain q where q: "prepared E t = Inr q" using prepared_works [OF assms(2)] by blast
  have "\<exists>u. mexe_round E t = Return r u \<and> length (m_sent u) = Suc k \<and> m_sleeps u = m_sleeps t"
    using q assms(1,6,7) t(3) put_conn_same [of "t\<lparr>m_request := q, m_sent := m_sent t @ [(m_connection t, q)], m_response := Some r\<rparr>" E]
    by (auto simp: mexe_round_def after_response_def handle_response_def final_response_def Let_def same_call_def)
  then obtain u where u: "mexe_round E t = Return r u" "length (m_sent u) = Suc k" "m_sleeps u = m_sleeps t" by blast
  have "mexe_loop E n t = Some (Inr r, u)" using u(1) t(2) assms(4) by (subst mexe_loop.simps) simp
  then show ?thesis using s(1) t(1,4) u(2,3) by auto
qed

text \<open>If all the attempts fail in that way, the call ends after \<open>num_retries + 1\<close> requests with an exception.\<close>

lemma mexe_gives_up:
  assumes "retry_handler E = None" and "authorizes E" and "\<not> use_proxy c"
    and "\<And>j con q. j \<le> n \<Longrightarrow> transient (answer E j con q)"
  shows "\<exists>s e. mexe E (Some n) cfg c ticks pool first_id req = Some (Inl e, s) \<and> length (m_sent s) = Suc n"
proof -
  from mexe_enters [OF assms(3)] obtain s where s: "mexe E (Some n) cfg c ticks pool first_id req = mexe_loop E n s"
    "\<not> use_proxy (m_self s)" "m_sent s = []" "m_i s = 0" "m_rounds s = 0" "m_sleeps s = []" by blast
  have tr: "\<And>j con q. j < Suc n \<Longrightarrow> transient (answer E j con q)" using assms(4) by simp
  from loop_transient [where k = "Suc n" and n = n and s = s and j = 0 and E = E] assms(1,2) tr s
  obtain t where t: "mexe_loop E n s = mexe_loop E n t" "m_i t = Suc n" "length (m_sent t) = Suc n" by fastforce
  have "mexe_loop E n t = Some (mexe_finish t)" using t(2) by (subst mexe_loop.simps) simp
  then show ?thesis using s(1) t(1,3) by (simp add: mexe_finish_def)
qed

section \<open>Secure connections\<close>

text \<open>A pool in which every connection is filed under its own kind, secure or not.\<close>

definition pool_secure :: "nat \<Rightarrow> http_conn conn_pool \<Rightarrow> bool" where
  "pool_secure n q \<longleftrightarrow> pool_ok (n, q) \<and> (\<forall>h p b c. c \<in># pool_held (n, q) (h, p, b) \<longrightarrow> over_tls (snd c) = b)"

lemma pool_secureD: "pool_secure n q \<Longrightarrow> c \<in># pool_held (n, q) k \<Longrightarrow> over_tls (snd c) = snd (snd k)"
  unfolding pool_secure_def by (metis prod.collapse)

lemma pool_secure_subset:
  assumes "pool_secure n q" and "pool_ok (n', q')" and "\<And>k. pool_held (n', q') k \<subseteq># pool_held (n, q) k"
  shows "pool_secure n' q'"
  unfolding pool_secure_def using assms(2) pool_secureD [OF assms(1)] mset_subset_eqD [OF assms(3)] by fastforce

lemma pool_get_secure:
  assumes "pool_secure n q" and "get_http_connection g d ck resp k n q = (r, n', q')"
  shows "pool_secure n' q' \<and> (\<forall>c. r = Inr (Some c) \<longrightarrow> over_tls (snd c) = snd (snd k))"
proof -
  obtain n1 q1 where t: "pool_tidy d ck (n, q) = (n1, q1)" by fastforce
  then have t': "pool_take g d ck resp k (n1, q1) = (r, (n', q'))"
    using assms(2) by (simp add: get_http_connection_def pool_tidy_def pool_take_def)
  have ok: "pool_ok (n, q)" using assms(1) by (simp add: pool_secure_def)
  have s1: "pool_secure n1 q1"
    using pool_secure_subset [OF assms(1)] pool_ok_tidy [OF ok, of d ck] pool_held_tidy [OF ok, of d ck] t by simp
  then have ok1: "pool_ok (n1, q1)" by (simp add: pool_secure_def)
  have sub: "pool_held (n', q') k + taken r \<subseteq># pool_held (n1, q1) k"
    using pool_held_take [of g d ck resp k "(n1, q1)"] t' by simp
  have "pool_held (n', q') k' \<subseteq># pool_held (n1, q1) k'" for k'
    using sub pool_held_take_other [of k' k g d ck resp "(n1, q1)"] t'
    by (cases "k' = k") (auto dest: mset_subset_eq_add_left [THEN subset_mset.order_trans])
  moreover have "pool_ok (n', q')" using pool_ok_take [OF ok1, of g d ck resp k] t' by simp
  ultimately have "pool_secure n' q'" using pool_secure_subset [OF s1] by blast
  moreover have "over_tls (snd c) = snd (snd k)" if "r = Inr (Some c)" for c
  proof -
    have "c \<in># pool_held (n1, q1) k" using sub that by (auto simp: taken_def dest: mset_subset_eqD)
    then show ?thesis by (rule pool_secureD [OF s1])
  qed
  ultimately show ?thesis by blast
qed

lemma pool_put_secure:
  assumes "pool_secure n q" and "over_tls (snd c) = snd (snd k)" and "put_http_connection ck k c n q = (n', q')"
  shows "pool_secure n' q'"
proof -
  have g: "pool_give ck k c (n, q) = (n', q')" using assms(3) by (simp add: pool_give_def)
  have "pool_ok (n', q')" using pool_ok_give [of "(n, q)" ck k c] assms(1) g by (simp add: pool_secure_def)
  moreover have "over_tls (snd c') = b" if "c' \<in># pool_held (n', q') (h, p, b)" for c' h p b
    using that pool_held_give [of ck k c "(n, q)" "(h, p, b)"] g assms(2) pool_secureD [OF assms(1), of c' "(h, p, b)"]
    by (auto split: if_splits)
  ultimately show ?thesis by (simp add: pool_secure_def)
qed

text \<open>
  The \<open>n\<close>-th request \<open>q\<close> of a call is made from \<open>r\<close> by the authentication handler: it is what \<open>authorize\<close> gives,
  with a host header added if it has none and needs one.
\<close>

definition signed_from :: "mexe_env \<Rightarrow> nat \<Rightarrow> request \<Rightarrow> request \<Rightarrow> bool" where
  "signed_from E n r q \<longleftrightarrow> (\<exists>r'. authorize (agent E) (add_auth E n) r = Inr r'
     \<and> (q = r' \<or> \<not> hval_true (map_of (req_headers r') ''Host'') \<and> (\<exists>c. q = set_host_header E c r')))"

text \<open>Every request of a list is made from the one before it, the first one from \<open>r\<close>.\<close>

definition all_signed :: "mexe_env \<Rightarrow> request \<Rightarrow> request list \<Rightarrow> bool" where
  "all_signed E r qs \<longleftrightarrow> (\<forall>n < length qs. signed_from E n (if n = 0 then r else qs ! (n - 1)) (qs ! n))"

definition latest :: "request \<Rightarrow> request list \<Rightarrow> request" where
  "latest r qs = (if qs = [] then r else last qs)"

lemma all_signed_Nil [simp]: "all_signed E r []"
  by (simp add: all_signed_def)

lemma all_signed_snoc: "all_signed E r (qs @ [q]) \<longleftrightarrow> all_signed E r qs \<and> signed_from E (length qs) (latest r qs) q"
  by (auto simp: all_signed_def latest_def nth_append last_conv_nth less_Suc_eq)

lemma prepared_signed: "prepared E s = Inr q \<Longrightarrow> signed_from E (m_rounds s) (m_request s) q"
  by (auto simp: prepared_def signed_from_def res_bind_Inr_iff)

text \<open>Between rounds, and when the call has ended, for a call with the request \<open>req\<close> that is not redirected.\<close>

definition signing :: "mexe_env \<Rightarrow> request \<Rightarrow> mexe_state \<Rightarrow> bool" where
  "signing E req s \<longleftrightarrow> all_signed E req (map snd (m_sent s)) \<and> m_request s = latest req (map snd (m_sent s)) \<and> m_rounds s = length (m_sent s)"

lemma handle_exc_goes_on:
  "handle_exc E d e s = Continue s' \<Longrightarrow> m_sent s' = m_sent s \<and> m_request s' = m_request s \<and> m_rounds s' = Suc (m_rounds s)"
  by (auto simp: handle_exc_def sleep_and_count_def same_call_def dest!: new_conn_same
      split: mexe_exc.splits prod.splits sum.splits)

lemma after_response_goes_on:
  assumes "after_response E d r s = Continue s'" and "\<not> is_redirect r"
  shows "m_sent s' = m_sent s \<and> m_request s' = m_request s \<and> m_rounds s' = Suc (m_rounds s)"
  using assms
  by (auto simp: after_response_def handle_response_def sleep_and_count_def dest!: handle_exc_goes_on
      split: option.splits sum.splits prod.splits if_splits)

lemma round_signing:
  assumes s: "signing E req s" and no: "no_redirect_from E 0"
  shows "all_signed E req (map snd (m_sent (step_state (mexe_round E s))))
    \<and> (\<forall>t. mexe_round E s = Continue t \<longrightarrow> signing E req t)"
proof (cases "prepared E s")
  case (Inl e)
  then show ?thesis using s by (simp add: mexe_round_def signing_def)
next
  case (Inr q)
  let ?qs = "map snd (m_sent s)"
  define u where "u = s\<lparr>m_request := q, m_sent := m_sent s @ [(m_connection s, q)]\<rparr>"
  have signed: "all_signed E req (?qs @ [q])" using s prepared_signed [OF Inr] by (simp add: signing_def all_signed_snoc)
  have more: "signing E req t" if "m_sent t = m_sent u" "m_request t = q" "m_rounds t = Suc (m_rounds s)" for t
    using that s signed by (simp add: signing_def u_def latest_def)
  have go_on: "signing E req t" if t: "mexe_round E s = Continue t" for t
  proof (cases "answer E (length (m_sent s)) (m_connection s) q")
    case (Inl e)
    then show ?thesis using t Inr more [of t] handle_exc_goes_on [of E "next_sleep E s" e u t] by (simp add: mexe_round_def Let_def u_def)
  next
    case ans: (Inr r)
    then have "\<not> is_redirect r" using no unfolding no_redirect_from_def by blast
    then show ?thesis using t Inr ans more [of t] after_response_goes_on [of E "next_sleep E s" r "u\<lparr>m_response := Some r\<rparr>" t]
      by (simp add: mexe_round_def Let_def u_def)
  qed
  have "all_signed E req (map snd (m_sent (step_state (mexe_round E s))))"
    using round_sent [of E s] s signed Inr by (auto simp: signing_def)
  then show ?thesis using go_on by blast
qed

definition tls_ok :: "bool \<Rightarrow> mexe_state \<Rightarrow> bool" where
  "tls_ok b s \<longleftrightarrow> pool_secure (m_ticks s) (m_pool s) \<and> is_secure (m_self s) = b \<and> over_tls (snd (m_connection s)) = b
     \<and> (\<forall>c q. (c, q) \<in> set (m_sent s) \<longrightarrow> over_tls (snd c) = b)"

lemma new_conn_pool: "new_conn E h p b s = (r, s') \<Longrightarrow> m_pool s' = m_pool s \<and> m_ticks s' = m_ticks s
    \<and> (\<forall>c. r = Inr c \<longrightarrow> over_tls (snd c) = b)"
  by (auto simp: new_conn_def dest!: new_http_connection_tls split: sum.splits prod.splits transport.splits option.splits)

lemma get_conn_pool:
  assumes "get_conn E h p b s = (r, s')" and "pool_secure (m_ticks s) (m_pool s)"
  shows "pool_secure (m_ticks s') (m_pool s') \<and> (\<forall>c. r = Inr c \<longrightarrow> over_tls (snd c) = b)"
proof -
  obtain r0 n q where g: "get_http_connection (gae E) (stale E) (clk E) (resps E) (h, p, b) (m_ticks s) (m_pool s) = (r0, n, q)"
    by (metis prod.collapse)
  note sec = pool_get_secure [OF assms(2) g]
  show ?thesis using assms(1) g sec
    by (auto simp: get_conn_def dest!: new_conn_pool split: sum.splits option.splits)
qed

lemma new_conn_tls:
  assumes "new_conn E h p b s = (r, s')" and "tls_ok b s"
  shows "tls_ok b s' \<and> (\<forall>c. r = Inr c \<longrightarrow> over_tls (snd c) = b)"
  using new_conn_pool [OF assms(1)] new_conn_same [OF assms(1)] assms(2) unfolding tls_ok_def same_call_def by simp

lemma get_conn_tls:
  assumes "get_conn E h p b s = (r, s')" and "tls_ok b s"
  shows "tls_ok b s' \<and> (\<forall>c. r = Inr c \<longrightarrow> over_tls (snd c) = b)"
proof -
  have "pool_secure (m_ticks s) (m_pool s)" using assms(2) by (simp add: tls_ok_def)
  from get_conn_pool [OF assms(1) this] get_conn_same [OF assms(1)] assms(2) show ?thesis
    unfolding tls_ok_def same_call_def by simp
qed

lemma put_conn_tls:
  assumes "tls_ok b s"
  shows "tls_ok b (put_conn E h p b (m_connection s) s)"
proof -
  obtain n q where put: "put_http_connection (clk E) (h, p, b) (m_connection s) (m_ticks s) (m_pool s) = (n, q)" by fastforce
  have "pool_secure n q"
    by (rule pool_put_secure [OF _ _ put]) (use assms in \<open>simp_all add: tls_ok_def\<close>)
  then show ?thesis using assms put by (simp add: put_conn_def tls_ok_def)
qed

lemma tls_ok_secure: "tls_ok b s \<Longrightarrow> is_secure (m_self s) = b"
  by (simp add: tls_ok_def)

lemma sleep_tls: "tls_ok b s \<Longrightarrow> tls_ok b (step_state (sleep_and_count d s))"
  by (simp add: sleep_and_count_def tls_ok_def)

lemma handle_exc_tls:
  assumes "tls_ok b s"
  shows "tls_ok b (step_state (handle_exc E d e s))"
proof -
  obtain r s' where n: "new_conn E (req_host (m_request s)) (req_port (m_request s)) b s = (r, s')" by fastforce
  note ok = new_conn_tls [OF n assms]
  have up: "tls_ok b (s'\<lparr>m_connection := c, m_response := x, m_ex := y\<rparr>)" "tls_ok b (s'\<lparr>m_connection := c, m_ex := y\<rparr>)"
    if "r = Inr c" for c x y using ok that by (simp_all add: tls_ok_def)
  show ?thesis using assms n ok up tls_ok_secure [OF assms]
    by (cases e; cases r) (simp_all add: handle_exc_def sleep_tls)
qed

text \<open>Redirects go to another connection, so the following is about answers that are none.\<close>

lemma handle_response_tls:
  assumes "tls_ok b s" and "\<not> is_redirect r"
  shows "tls_ok b (step_state (handle_response E d r s))"
proof -
  have "tls_ok b (s\<lparr>m_body := x\<rparr>)" for x using assms(1) by (simp add: tls_ok_def)
  then show ?thesis using assms put_conn_tls [OF assms(1)] tls_ok_secure [OF assms(1)]
    by (simp add: handle_response_def sleep_tls)
qed

lemma after_response_tls:
  assumes u: "tls_ok b u" and nr: "\<not> is_redirect r"
  shows "tls_ok b (step_state (after_response E d r u))"
proof -
  have cont: "tls_ok b (u\<lparr>m_i := i, m_sleeps := x, m_rounds := y\<rparr>)" for i x y using u by (simp add: tls_ok_def)
  show ?thesis using handle_exc_tls [OF u] handle_response_tls [OF u nr] cont
    by (simp add: after_response_def split: option.splits sum.splits prod.splits)
qed

lemma round_tls:
  assumes s: "tls_ok b s" and no: "no_redirect_from E 0"
  shows "tls_ok b (step_state (mexe_round E s))"
proof (cases "prepared E s")
  case (Inl e)
  then show ?thesis using s by (simp add: mexe_round_def)
next
  case (Inr q)
  define t where "t = s\<lparr>m_request := q, m_sent := m_sent s @ [(m_connection s, q)]\<rparr>"
  have t: "tls_ok b t" using s by (auto simp: tls_ok_def t_def)
  show ?thesis
  proof (cases "answer E (length (m_sent s)) (m_connection s) q")
    case (Inl e)
    then show ?thesis using Inr handle_exc_tls [OF t] by (simp add: mexe_round_def Let_def t_def)
  next
    case ans: (Inr r)
    have nr: "\<not> is_redirect r" using no ans unfolding no_redirect_from_def by blast
    define u where "u = t\<lparr>m_response := Some r\<rparr>"
    have u: "tls_ok b u" using t by (simp add: tls_ok_def u_def)
    have "tls_ok b (step_state (after_response E (next_sleep E s) r u))" by (rule after_response_tls [OF u nr])
    then show ?thesis using Inr ans by (simp add: mexe_round_def Let_def u_def t_def)
  qed
qed

text \<open>What every round keeps holds when the loop has ended.\<close>

lemma mexe_loop_keeps:
  assumes "mexe_loop E n s = Some (res, s')" and "Inv s"
    and step: "\<And>s. Inv s \<Longrightarrow> P s \<and> P (step_state (mexe_round E s)) \<and> (\<forall>t. mexe_round E s = Continue t \<longrightarrow> Inv t)"
  shows "P s'"
proof -
  have "E' = E \<longrightarrow> Inv s0 \<longrightarrow> P (snd r)" if "mexe_loop E' n' s0 = Some r" for E' n' s0 r
  proof (rule mexe_loop.raw_induct [where P = "\<lambda>E' n' s r. E' = E \<longrightarrow> Inv s \<longrightarrow> P (snd r)", OF _ that])
    fix f E' n' s r
    assume IH: "\<And>E' n' s r. f E' n' s = Some r \<Longrightarrow> E' = E \<longrightarrow> Inv s \<longrightarrow> P (snd r)"
      and eq: "(if n' < m_i s then Some (mexe_finish s)
        else case mexe_round E' s of Continue s' \<Rightarrow> f E' n' s' | Return r s' \<Rightarrow> Some (Inr r, s') | Raise e s' \<Rightarrow> Some (Inl e, s')) = Some r"
    show "E' = E \<longrightarrow> Inv s \<longrightarrow> P (snd r)"
    proof (intro impI)
      assume "E' = E" and s: "Inv s"
      with step [OF s] eq IH show "P (snd r)" by (auto simp: mexe_finish_def split: if_splits step.splits)
    qed
  qed
  from this [OF assms(1)] assms(2) show ?thesis by simp
qed

lemma mexe_loop_tls:
  assumes "mexe_loop E n s = Some (res, s')" and "no_redirect_from E 0" and "tls_ok b s"
  shows "tls_ok b s'"
proof (rule mexe_loop_keeps [where P = "tls_ok b" and Inv = "tls_ok b", OF assms(1,3)])
  fix s assume "tls_ok b s"
  with round_tls [OF this assms(2)] show "tls_ok b s \<and> tls_ok b (step_state (mexe_round E s)) \<and> (\<forall>t. mexe_round E s = Continue t \<longrightarrow> tls_ok b t)"
    by auto
qed

lemma mexe_loop_signing:
  assumes "mexe_loop E n s = Some (res, s')" and "no_redirect_from E 0" and "signing E req s"
  shows "all_signed E req (map snd (m_sent s'))"
proof (rule mexe_loop_keeps [where P = "\<lambda>s. all_signed E req (map snd (m_sent s))" and Inv = "signing E req", OF assms(1,3)])
  fix s assume s: "signing E req s"
  then have "all_signed E req (map snd (m_sent s))" by (simp add: signing_def)
  with round_signing [OF s assms(2)] show "all_signed E req (map snd (m_sent s)) \<and> all_signed E req (map snd (m_sent (step_state (mexe_round E s))))
      \<and> (\<forall>t. mexe_round E s = Continue t \<longrightarrow> signing E req t)"
    by simp
qed

lemma mexe_stays_secure:
  assumes "mexe E override cfg c ticks pool first_id req = Some (res, s)" and "no_redirect_from E 0"
    and "pool_secure ticks pool"
  shows "pool_secure (m_ticks s) (m_pool s) \<and> (\<forall>con q. (con, q) \<in> set (m_sent s) \<longrightarrow> over_tls (snd con) = is_secure c)
    \<and> all_signed E req (map snd (m_sent s))"
proof -
  define n where "n = (case override of Some k \<Rightarrow> k | None \<Rightarrow> (case cfg of Some k \<Rightarrow> k | None \<Rightarrow> num_retries c))"
  define s0 where "s0 = \<lparr>m_self = c, m_pool = pool, m_ticks = ticks, m_conns = first_id, m_i = 0, m_rounds = 0, m_request = req,
               m_connection = (0, PlainHTTP [] (PortNum 0)), m_response = None, m_body = None, m_ex = None,
               m_sleeps = [], m_sent = []\<rparr>"
  obtain r s1 where g: "get_conn E (req_host req) (req_port req) (is_secure c) s0 = (r, s1)" by fastforce
  have p1: "pool_secure (m_ticks s1) (m_pool s1)" "\<forall>c'. r = Inr c' \<longrightarrow> over_tls (snd c') = is_secure c"
    using get_conn_pool [OF g] assms(3) by (simp_all add: s0_def)
  have same: "m_sent s1 = []" "is_secure (m_self s1) = is_secure c" "m_request s1 = req" "m_rounds s1 = 0" using get_conn_same [OF g] by (simp_all add: same_call_def s0_def)
  show ?thesis
  proof (cases r)
    case (Inl e)
    then show ?thesis using assms(1) g p1 same by (simp add: mexe_def s0_def [symmetric])
  next
    case (Inr con)
    then have loop: "mexe_loop E n (s1\<lparr>m_connection := con\<rparr>) = Some (res, s)"
      using assms(1) g by (simp add: mexe_def s0_def [symmetric] n_def)
    have "signing E req (s1\<lparr>m_connection := con\<rparr>)" using same by (simp add: signing_def latest_def)
    note signed = mexe_loop_signing [OF loop assms(2) this]
    have "tls_ok (is_secure c) (s1\<lparr>m_connection := con\<rparr>)" using p1 same Inr by (simp add: tls_ok_def)
    then have "tls_ok (is_secure c) s" using mexe_loop_tls [OF loop assms(2)] by blast
    then show ?thesis using signed by (auto simp: tls_ok_def)
  qed
qed

section \<open>Concrete calls\<close>

definition direct_conn :: "string \<Rightarrow> bool \<Rightarrow> aws_conn" where
  "direct_conn h secure =
     \<lparr>suppress_consec_slashes = True, num_retries = 6, is_secure = secure, https_validate_certificates = True,
      ca_certificates_file = None, port = ports_by_security secure, proxy = None, proxy_port = None,
      proxy_user = None, proxy_pass = None, no_proxy = [], use_proxy = False, has_https_connection_factory = False,
      protocol = (if secure then ''https'' else ''http''), host = h, base_path = ''/'', debug = 0, host_header = None,
      timeout = 70, connection_key = (h, PortNum (ports_by_security secure), secure)\<rparr>"

definition basic_env :: "(nat \<Rightarrow> http_conn \<Rightarrow> request \<Rightarrow> mexe_exc + response) \<Rightarrow> mexe_env" where
  "basic_env ans =
     \<lparr>answer = ans, tunnel_error = (\<lambda>_. None), random = (\<lambda>_. 1), max_retry_delay = 60, add_auth = (\<lambda>_ r. Inr r),
      handler_host_header = (\<lambda>_ _. None), retry_handler = None, s3_capability = False, anonymous = False,
      agent = ''Boto'', gae = False, py_version = ''2.7'', have_https = True, stale = 60, clk = real,
      resps = (\<lambda>_ _. None)\<rparr>"

definition get_request :: "string \<Rightarrow> bool \<Rightarrow> request" where
  "get_request h secure = http_request_init ''GET'' (if secure then ''https'' else ''http'') h
     (PortNum (ports_by_security secure)) ''/'' None [] [] []"

definition answer_with :: "nat \<Rightarrow> string option \<Rightarrow> response" where
  "answer_with n loc = \<lparr>resp_status = n, resp_reason = [], resp_location = loc, resp_connection = None, resp_body = []\<rparr>"

lemmas example_defs = direct_conn_def basic_env_def get_request_def answer_with_def ports_by_security_def http_request_init_def

lemma authorizes_basic [simp]: "authorizes (basic_env ans)"
  by (simp add: authorizes_def basic_env_def)

lemma basic_env_simps [simp]:
  "retry_handler (basic_env ans) = None" "answer (basic_env ans) = ans" "random (basic_env ans) = (\<lambda>_. 1)"
  "max_retry_delay (basic_env ans) = 60"
  by (simp_all add: basic_env_def)

lemma direct_conn_simps [simp]: "use_proxy (direct_conn h b) = False" "is_secure (direct_conn h b) = b"
  by (simp_all add: direct_conn_def)

text \<open>
  A redirect from https to http leaves a plain connection in the pool of secure ones: it goes to
  port 443, as the request keeps its port, and is filed under the scheme of the connection object.
\<close>

lemma redirect_poisons_pool:
  "\<exists>s. mexe (basic_env (\<lambda>n _ _. Inr (if n = 0 then answer_with 302 (Some ''http://h/x'') else answer_with 200 None)))
        (Some 6) None (direct_conn ''h'' True) 0 conn_pool_init 0 (get_request ''h'' True) = Some (Inr (answer_with 200 None), s)
     \<and> (1, PlainHTTP ''h'' (PortNum 443)) \<in># pool_held (m_ticks s, m_pool s) (''h'', PortNum 443, True)"
proof -
  let ?E = "basic_env (\<lambda>n _ _. Inr (if n = 0 then answer_with 302 (Some ''http://h/x'') else answer_with 200 None))"
  note defs = mexe_round_def prepared_def authorize_def user_agent_def quote_headers_def content_length_def
    set_host_header_def hval_true_def next_sleep_def after_response_def handle_response_def is_redirect_def
    retried_status_def str_true_def urlparse_def url_scheme_def url_netloc_def split_first_def str_startswith_def
    redirected_def uses_params_def get_conn_def new_conn_def new_http_connection_def proxied_address_def
    pick_transport_def parse_host_def host_is_ipv6_def str_strip_def str_lstrip_def is_space_def
    Let_def hval_is_def put_conn_def put_http_connection_def host_pool_put_def host_pool_init_def
    get_http_connection_def conn_pool_clean_def get_locked_def CLEAN_INTERVAL_def conn_pool_init_def
  show ?thesis
    unfolding mexe_def
    by (subst mexe_loop.simps, simp add: defs example_defs, subst mexe_loop.simps, simp add: defs example_defs pool_held_def conns_def)
qed

section \<open>Properties\<close>

text \<open>
  C23: Without a retry handler, a call of \<open>_mexe\<close> whose requests are redirected at most among the
  first \<open>N\<close> always returns, and it sends at most \<open>N + num_retries + 1\<close> requests, whatever the
  network, the service, the authentication and the pool do.
\<close>

theorem mexe_terminates:
  assumes "retry_handler E = None" and "no_redirect_from E N"
  shows "\<exists>res s. mexe E (Some n) cfg c ticks pool first_id req = Some (res, s) \<and> length (m_sent s) \<le> N + Suc n"
  by (rule mexe_returns [OF assms])

theorem mexe_terminates_witness:
  "\<exists>res s. mexe (basic_env (\<lambda>_ _ _. Inl (HttpException ''timeout''))) (Some 2) None (direct_conn ''h'' True) 0 conn_pool_init 0
     (get_request ''h'' True) = Some (res, s) \<and> length (m_sent s) \<le> 0 + Suc 2"
  by (rule mexe_terminates) (simp_all add: no_redirect_from_def)

text \<open>
  C25: A redirect is not counted as a retry: if the service answers every request with a redirect,
  \<open>_mexe\<close> never returns, whatever the number of retries.
\<close>

theorem mexe_redirect_loop:
  assumes "retry_handler E = None" and "authorizes E" and "\<not> use_proxy c"
    and "\<And>k con q. \<exists>r u. answer E k con q = Inr r \<and> is_redirect r \<and> urlparse (the (resp_location r)) = Inr u"
  shows "mexe E (Some n) cfg c ticks pool first_id req = None"
  by (rule mexe_redirects_for_ever [OF assms])

theorem mexe_redirect_loop_witness:
  "mexe (basic_env (\<lambda>_ _ _. Inr (answer_with 302 (Some ''http://h/'')))) (Some 6) None (direct_conn ''h'' False) 0
     conn_pool_init 0 (get_request ''h'' False) = None"
  by (rule mexe_redirect_loop)
    (simp_all add: answer_with_def is_redirect_def retried_status_def str_true_def urlparse_def url_scheme_def
      url_netloc_def split_first_def str_startswith_def Let_def)

text \<open>
  C22: Without a retry handler and on a direct connection, if the first \<open>k\<close> requests fail with a retryable exception or a status 500, 502, 503 or 504, with
  \<open>k\<close> at most the number of retries, and the next response is neither that nor a redirect, then
  \<open>_mexe\<close> returns this response after exactly \<open>k + 1\<close> requests, having slept \<open>k\<close> times, the \<open>i\<close>-th time for
  the random share of \<open>2 ^ i\<close> seconds, at most the configured delay.
\<close>

theorem mexe_retries_until_success:
  assumes "retry_handler E = None" and "authorizes E" and "\<not> use_proxy c" and "k \<le> n"
    and "\<And>j con q. j < k \<Longrightarrow> transient (answer E j con q)"
    and "\<And>con q. answer E k con q = Inr r" and "final_response r"
  shows "\<exists>s. mexe E (Some n) cfg c ticks pool first_id req = Some (Inr r, s) \<and> length (m_sent s) = Suc k
    \<and> m_sleeps s = map (\<lambda>i. min (random E i * 2 ^ i) (max_retry_delay E)) [0..<k]"
  by (rule mexe_succeeds [OF assms])

theorem mexe_retries_until_success_witness:
  "\<exists>s. mexe (basic_env (\<lambda>n _ _. if n = 0 then Inl (HttpException ''reset'')
        else if n = 1 then Inr (answer_with 503 None) else Inr (answer_with 404 None)))
      (Some 6) None (direct_conn ''h'' True) 0 conn_pool_init 0 (get_request ''h'' True) = Some (Inr (answer_with 404 None), s)
     \<and> length (m_sent s) = Suc 2 \<and> m_sleeps s = map (\<lambda>i. min (1 * 2 ^ i) 60) [0..<2]"
  using mexe_retries_until_success [where k = 2 and n = 6 and cfg = None and ticks = 0 and pool = conn_pool_init
      and first_id = 0 and req = "get_request ''h'' True" and c = "direct_conn ''h'' True" and r = "answer_with 404 None"
      and E = "basic_env (\<lambda>n _ _. if n = 0 then Inl (HttpException ''reset'')
        else if n = 1 then Inr (answer_with 503 None) else Inr (answer_with 404 None))"]
  by (simp add: transient_def final_response_def answer_with_def retried_status_def is_redirect_def)

text \<open>
  C24: As long as the service does not redirect, a call on a secure connection object sends every
  request, first or retried, over TLS (and one on an insecure object never does), and leaves a pool
  in which every connection is filed under its own kind, if it found one.  Each request was signed for its attempt by the
  authentication handler, from the request of the attempt before, at first from the request of the call.
\<close>

theorem mexe_keeps_security:
  assumes "mexe E override cfg c ticks pool first_id req = Some (res, s)" and "no_redirect_from E 0"
    and "pool_secure ticks pool"
  shows "pool_secure (m_ticks s) (m_pool s) \<and> (\<forall>con q. (con, q) \<in> set (m_sent s) \<longrightarrow> over_tls (snd con) = is_secure c)
    \<and> all_signed E req (map snd (m_sent s))"
  by (rule mexe_stays_secure [OF assms])

theorem mexe_keeps_security_witness:
  "\<exists>s. mexe (basic_env (\<lambda>_ _ _. Inl (HttpException ''reset''))) (Some 0) None (direct_conn ''h'' True) 0 conn_pool_init 0
       (get_request ''h'' True) = Some (Inl (HttpException ''reset''), s)
     \<and> pool_secure (m_ticks s) (m_pool s) \<and> (0, ValidatingHTTPS ''h'' (PortNum 443) None) \<in> fst ` set (m_sent s)
     \<and> over_tls (ValidatingHTTPS ''h'' (PortNum 443) None)
     \<and> all_signed (basic_env (\<lambda>_ _ _. Inl (HttpException ''reset''))) (get_request ''h'' True) (map snd (m_sent s))"
proof -
  let ?E = "basic_env (\<lambda>_ _ _. Inl (HttpException ''reset''))"
  note defs = mexe_round_def prepared_def authorize_def user_agent_def quote_headers_def content_length_def
    set_host_header_def hval_true_def next_sleep_def split_first_def get_conn_def new_conn_def new_http_connection_def
    proxied_address_def pick_transport_def parse_host_def host_is_ipv6_def str_strip_def str_lstrip_def is_space_def
    Let_def hval_is_def get_http_connection_def conn_pool_clean_def get_locked_def CLEAN_INTERVAL_def conn_pool_init_def
    handle_exc_def sleep_and_count_def mexe_finish_def str_startswith_def
  have "\<exists>s. mexe ?E (Some 0) None (direct_conn ''h'' True) 0 conn_pool_init 0 (get_request ''h'' True)
      = Some (Inl (HttpException ''reset''), s) \<and> (0, ValidatingHTTPS ''h'' (PortNum 443) None) \<in> fst ` set (m_sent s)"
    unfolding mexe_def
    by (subst mexe_loop.simps, simp add: defs example_defs, subst mexe_loop.simps, simp add: defs example_defs)
  then obtain s where s: "mexe ?E (Some 0) None (direct_conn ''h'' True) 0 conn_pool_init 0 (get_request ''h'' True)
      = Some (Inl (HttpException ''reset''), s)" "(0, ValidatingHTTPS ''h'' (PortNum 443) None) \<in> fst ` set (m_sent s)" by blast
  have "pool_secure (m_ticks s) (m_pool s) \<and> (\<forall>con q. (con, q) \<in> set (m_sent s) \<longrightarrow> over_tls (snd con) = is_secure (direct_conn ''h'' True))
    \<and> all_signed ?E (get_request ''h'' True) (map snd (m_sent s))"
    by (rule mexe_keeps_security [OF s(1)])
      (simp_all add: no_redirect_from_def pool_secure_def pool_ok_def pool_held_def conn_pool_init_def)
  then show ?thesis using s by auto
qed

end
