(* ===== verification/Auth_Hmac.thy ===== *)
theory Auth_Hmac
  imports Conn_Request
begin

text \<open>
  The handlers of \<^verbatim>\<open>boto/auth.py\<close> that sign with one HMAC of the request: \<open>HmacKeys\<close>, the versions
  1 (S3, Google Storage), 2 (CloudFront), 3 (Route 53) and 3 over HTTP, and the choice of a handler.

  The hash functions of \<open>hashlib\<close> and \<open>hmac\<close> are parameters, from byte strings to byte strings; the
  current date, as \<open>formatdate\<close> prints it, is \<open>now\<close>.
\<close>

section \<open>Keys\<close>

record crypto =
  hmac_sha1 :: "string \<Rightarrow> string \<Rightarrow> string"
  hmac_sha256 :: "string \<Rightarrow> string \<Rightarrow> string"
  sha256_digest :: "string \<Rightarrow> string"

text \<open>\<open>k_sha256\<close> says that \<open>_hmac_256\<close> is not \<open>None\<close>.\<close>

record hmac_keys =
  k_host :: string
  k_provider :: provider
  k_sha256 :: bool

text \<open>The keys of a handler: an anonymous one needs none.\<close>

definition hmac_keys_ready :: "string option \<Rightarrow> string option \<Rightarrow> bool \<Rightarrow> bool" where
  "hmac_keys_ready access secret anon \<longleftrightarrow> access \<noteq> None \<and> secret \<noteq> None \<or> anon"

definition update_provider :: "provider \<Rightarrow> hmac_keys \<Rightarrow> hmac_keys" where
  "update_provider p k = k\<lparr>k_provider := p, k_sha256 := (if secret_key p \<noteq> [] then True else k_sha256 k)\<rparr>"

text \<open>The handlers of versions 1 and 2 forget the SHA-256 after every update.\<close>

definition update_provider_sha1 :: "provider \<Rightarrow> hmac_keys \<Rightarrow> hmac_keys" where
  "update_provider_sha1 p k = (update_provider p k)\<lparr>k_sha256 := False\<rparr>"

definition algorithm :: "hmac_keys \<Rightarrow> string" where
  "algorithm k = (if k_sha256 k then ''HmacSHA256'' else ''HmacSHA1'')"

definition get_hmac :: "crypto \<Rightarrow> hmac_keys \<Rightarrow> (string \<Rightarrow> string) res" where
  "get_hmac C k = res_bind (py2_encode (secret_key (k_provider k))) (\<lambda>s.
     Inr ((if k_sha256 k then hmac_sha256 C else hmac_sha1 C) s))"

definition sign_string :: "crypto \<Rightarrow> hmac_keys \<Rightarrow> string \<Rightarrow> string res" where
  "sign_string C k string_to_sign =
     res_bind (get_hmac C k) (\<lambda>h. res_bind (py2_encode string_to_sign) (\<lambda>m. Inr (str_strip (encodestring (h m)))))"

section \<open>Requests\<close>

definition set_header :: "string \<Rightarrow> string \<Rightarrow> request \<Rightarrow> request" where
  "set_header k v r = r\<lparr>req_headers := AList.update k (HStr v) (req_headers r)\<rparr>"

definition del_header :: "string \<Rightarrow> request \<Rightarrow> request" where
  "del_header k r = r\<lparr>req_headers := AList.delete k (req_headers r)\<rparr>"

text \<open>\<open>if 'Date' not in headers\<close>, and the security token.\<close>

definition ensure_date :: "string \<Rightarrow> request \<Rightarrow> request" where
  "ensure_date now r = (if map_of (req_headers r) ''Date'' = None then set_header ''Date'' now r else r)"

definition add_token :: "string \<Rightarrow> provider \<Rightarrow> request \<Rightarrow> request" where
  "add_token name p r = (if str_true (security_token p) then set_header name (the (security_token p)) r else r)"

section \<open>Version 1\<close>

definition v1_add_auth :: "crypto \<Rightarrow> hmac_keys \<Rightarrow> string \<Rightarrow> request \<Rightarrow> request res" where
  "v1_add_auth C k now r =
     (let p = k_provider k; r = add_token (security_token_header p) p (ensure_date now r)
      in res_bind (canonical_string (req_method r) (req_auth_path r) (req_headers r) None p) (\<lambda>sts.
         res_bind (sign_string C k sts) (\<lambda>b64.
           Inr (set_header ''Authorization'' (auth_header p @ '' '' @ access_key p @ '':'' @ b64) r))))"

section \<open>Versions 2 and 3\<close>

text \<open>They sign the date; it has to be a string.\<close>

definition header_string :: "string \<Rightarrow> request \<Rightarrow> string res" where
  "header_string name r = (case map_of (req_headers r) name of
     None \<Rightarrow> Inl KeyError | Some (HStr s) \<Rightarrow> Inr s | Some (HUni s) \<Rightarrow> Inr s | Some HNone \<Rightarrow> Inl AttributeError)"

definition v2_add_auth :: "crypto \<Rightarrow> hmac_keys \<Rightarrow> string \<Rightarrow> request \<Rightarrow> request res" where
  "v2_add_auth C k now r =
     (let p = k_provider k; r = add_token (security_token_header p) p (ensure_date now r)
      in res_bind (header_string ''Date'' r) (\<lambda>date. res_bind (sign_string C k date) (\<lambda>b64.
           Inr (set_header ''Authorization'' (auth_header p @ '' '' @ access_key p @ '':'' @ b64) r))))"

definition v3_add_auth :: "crypto \<Rightarrow> hmac_keys \<Rightarrow> string \<Rightarrow> request \<Rightarrow> request res" where
  "v3_add_auth C k now r =
     (let p = k_provider k; r = add_token (security_token_header p) p (ensure_date now r)
      in res_bind (header_string ''Date'' r) (\<lambda>date. res_bind (sign_string C k date) (\<lambda>b64.
           Inr (set_header ''X-Amzn-Authorization''
             (''AWS3-HTTPS AWSAccessKeyId='' @ access_key p @ '','' @ ''Algorithm='' @ algorithm k @ '',Signature='' @ b64) r))))"

section \<open>Version 3 over HTTP\<close>

definition amz_header :: "string \<Rightarrow> bool" where
  "amz_header name \<longleftrightarrow> str_startswith (str_lower name) ''x-amz''"

definition v3h_headers_to_sign :: "hmac_keys \<Rightarrow> request \<Rightarrow> headers" where
  "v3h_headers_to_sign k r =
     fold (\<lambda>(name, v) hs. if amz_header name then AList.update name v hs else hs) (req_headers r) [(''Host'', HStr (k_host k))]"

definition hval_text :: "hval \<Rightarrow> string res" where
  "hval_text v = (case v of HNone \<Rightarrow> Inl AttributeError | HStr s \<Rightarrow> Inr s | HUni s \<Rightarrow> Inr s)"

fun v3h_lines :: "headers \<Rightarrow> string list res" where
  "v3h_lines [] = Inr []"
| "v3h_lines ((n, v) # hs) = res_bind (hval_text v) (\<lambda>s. res_bind (v3h_lines hs) (\<lambda>ls.
     Inr ((str_strip (str_lower n) @ '':'' @ str_strip s) # ls)))"

definition v3h_canonical_headers :: "headers \<Rightarrow> string res" where
  "v3h_canonical_headers hs = res_bind (v3h_lines hs) (\<lambda>ls. Inr (str_join [CHR 0x0A] (sort ls)))"

definition v3h_string_to_sign :: "hmac_keys \<Rightarrow> request \<Rightarrow> (string \<times> headers) res" where
  "v3h_string_to_sign k r =
     (let hs = v3h_headers_to_sign k r
      in res_bind (v3h_canonical_headers hs) (\<lambda>ch.
           Inr (str_join [CHR 0x0A] [req_method r, req_auth_path r, [], ch, [], req_body r], hs)))"

definition v3h_add_auth :: "crypto \<Rightarrow> hmac_keys \<Rightarrow> string \<Rightarrow> request \<Rightarrow> request res" where
  "v3h_add_auth C k now r =
     (let p = k_provider k;
          r = add_token ''X-Amz-Security-Token'' p (set_header ''X-Amz-Date'' now (del_header ''X-Amzn-Authorization'' r))
      in res_bind (v3h_string_to_sign k r) (\<lambda>(sts, hs).
         res_bind (py2_encode sts) (\<lambda>m.
         res_bind (sign_string C k (sha256_digest C m)) (\<lambda>b64.
           Inr (set_header ''X-Amzn-Authorization''
             (''AWS3 AWSAccessKeyId='' @ access_key p @ '','' @ ''Algorithm='' @ algorithm k @ '',''
              @ ''SignedHeaders='' @ str_join '';'' (map fst hs) @ '','' @ ''Signature='' @ b64) r)))))"

section \<open>The choice of a handler\<close>

text \<open>
  A handler class is its name, its capabilities and whether its constructor succeeds;
  \<open>NotReadyToAuthenticate\<close> is \<open>False\<close>.
\<close>

record handler_class =
  h_name :: string
  h_capability :: "string list"
  h_ready :: bool

definition is_capable :: "handler_class \<Rightarrow> string list \<Rightarrow> bool" where
  "is_capable h requested = list_all (\<lambda>c. c \<in> set (h_capability h)) requested"

definition get_plugin :: "handler_class list \<Rightarrow> string list \<Rightarrow> handler_class list" where
  "get_plugin subclasses requested = filter (\<lambda>h. is_capable h requested) subclasses"

definition get_auth_handler :: "handler_class list \<Rightarrow> string list \<Rightarrow> handler_class res" where
  "get_auth_handler subclasses requested =
     (let ready = filter h_ready (get_plugin subclasses requested)
      in if ready = [] then Inl (Boto_Error ''NoAuthHandlerFound'') else Inr (last ready))"

section \<open>What is signed is what is sent\<close>

lemma interesting_headers_skip:
  "\<not> interesting p (str_lower k) \<Longrightarrow> interesting_headers p (AList.update k v hs) acc = interesting_headers p hs acc"
proof (induction hs arbitrary: acc)
  case Nil
  then show ?case by simp
next
  case (Cons h hs)
  obtain k0 v0 where "h = (k0, v0)" by fastforce
  with Cons show ?case by (cases "k0 = k") simp_all
qed

lemma canonical_string_skip:
  "\<not> interesting p (str_lower k) \<Longrightarrow>
    canonical_string m path (AList.update k v hs) expires p = canonical_string m path hs expires p"
  by (simp add: canonical_string_def interesting_headers_skip)

lemma authorization_not_interesting:
  "header_prefix p \<in> {''x-amz-'', ''x-goog-''} \<Longrightarrow> \<not> interesting p (str_lower ''Authorization'')"
  by (auto simp: interesting_def str_lower_def lower_char_def str_startswith_def char_eval)

lemma set_header_simps [simp]:
  "req_headers (set_header k v r) = AList.update k (HStr v) (req_headers r)"
  "req_method (set_header k v r) = req_method r" "req_auth_path (set_header k v r) = req_auth_path r"
  "req_path (set_header k v r) = req_path r" "req_params (set_header k v r) = req_params r"
  "req_body (set_header k v r) = req_body r" "req_host (set_header k v r) = req_host r"
  "req_port (set_header k v r) = req_port r" "req_protocol (set_header k v r) = req_protocol r"
  by (simp_all add: set_header_def)

lemma set_header_same: "map_of (req_headers r) k = Some (HStr v) \<Longrightarrow> set_header k v r = r"
  by (simp add: set_header_def update_same)

lemma ensure_date_present: "map_of (req_headers (ensure_date now r)) ''Date'' \<noteq> None"
  by (simp add: ensure_date_def update_conv')

lemma v1_signed:
  assumes p: "header_prefix (k_provider k) \<in> {''x-amz-'', ''x-goog-''}"
    and token: "security_token_header (k_provider k) \<noteq> ''Authorization''"
    and ok: "v1_add_auth C k now r = Inr r'"
  shows "\<exists>sts b64. canonical_string (req_method r') (req_auth_path r') (req_headers r') None (k_provider k) = Inr sts
    \<and> sign_string C k sts = Inr b64
    \<and> map_of (req_headers r') ''Authorization''
        = Some (HStr (auth_header (k_provider k) @ '' '' @ access_key (k_provider k) @ '':'' @ b64))
    \<and> v1_add_auth C k now' r' = Inr r'"
proof -
  let ?p = "k_provider k"
  define r1 where "r1 = add_token (security_token_header ?p) ?p (ensure_date now r)"
  obtain sts b64 where s: "canonical_string (req_method r1) (req_auth_path r1) (req_headers r1) None ?p = Inr sts"
    "sign_string C k sts = Inr b64"
    "r' = set_header ''Authorization'' (auth_header ?p @ '' '' @ access_key ?p @ '':'' @ b64) r1"
    using ok by (auto simp: v1_add_auth_def Let_def r1_def res_bind_Inr_iff)
  have same: "canonical_string (req_method r') (req_auth_path r') (req_headers r') None ?p = Inr sts"
    using s(1) authorization_not_interesting [OF p] by (simp add: s(3) canonical_string_skip)
  have auth: "map_of (req_headers r') ''Authorization'' = Some (HStr (auth_header ?p @ '' '' @ access_key ?p @ '':'' @ b64))"
    by (simp add: s(3) update_conv')
  have "map_of (req_headers r1) ''Date'' \<noteq> None"
    using ensure_date_present [of now r] by (auto simp: r1_def add_token_def update_conv')
  then have "ensure_date now' r' = r'" by (auto simp: ensure_date_def s(3) update_conv')
  moreover have "add_token (security_token_header ?p) ?p r' = r'"
  proof (cases "str_true (security_token ?p)")
    case True
    then have "map_of (req_headers r') (security_token_header ?p) = Some (HStr (the (security_token ?p)))"
      using token by (simp add: s(3) r1_def add_token_def update_conv')
    then show ?thesis using True by (simp add: add_token_def set_header_same)
  next
    case False
    then show ?thesis by (simp add: add_token_def)
  qed
  ultimately have "v1_add_auth C k now' r' = Inr (set_header ''Authorization'' (auth_header ?p @ '' '' @ access_key ?p @ '':'' @ b64) r')"
    using same s(2) by (simp add: v1_add_auth_def Let_def)
  then show ?thesis using same s(2) auth set_header_same [OF auth] by simp
qed

text \<open>
  Version 3 over HTTP signs a digest, which has to be encoded again: that fails unless all its bytes
  are ASCII.
\<close>

lemma v3h_needs_ascii_digest:
  assumes "v3h_add_auth C k now r = Inr r'"
  shows "\<exists>m. list_all (\<lambda>c. of_char c < (128 :: nat)) (sha256_digest C m)"
  using assms by (auto simp: v3h_add_auth_def Let_def res_bind_Inr_iff sign_string_def py2_encode_def split: if_splits)

lemma filter_last: "filter P xs \<noteq> [] \<Longrightarrow> \<exists>us vs. xs = us @ last (filter P xs) # vs \<and> P (last (filter P xs)) \<and> (\<forall>v \<in> set vs. \<not> P v)"
proof (induction xs rule: rev_induct)
  case Nil
  then show ?case by simp
next
  case (snoc x xs)
  show ?case
  proof (cases "P x")
    case True
    then show ?thesis by (intro exI [of _ xs] exI [of _ "[]"]) simp
  next
    case False
    with snoc obtain us vs where "xs = us @ last (filter P xs) # vs" "P (last (filter P xs))" "\<forall>v \<in> set vs. \<not> P v" by auto
    with False show ?thesis by (intro exI [of _ us] exI [of _ "vs @ [x]"]) auto
  qed
qed

section \<open>Properties\<close>

text \<open>
  C34: What \<open>HmacAuthV1Handler\<close> signs is what is sent: the canonical string of the request with all its
  new headers is the one whose signature they carry.  Signing a request again for a retry changes
  nothing, however late it is.
\<close>

theorem v1_signature_verifies:
  assumes "header_prefix (k_provider k) \<in> {''x-amz-'', ''x-goog-''}"
    and "security_token_header (k_provider k) \<noteq> ''Authorization''"
    and "v1_add_auth C k now r = Inr r'"
  shows "\<exists>sts b64. canonical_string (req_method r') (req_auth_path r') (req_headers r') None (k_provider k) = Inr sts
    \<and> sign_string C k sts = Inr b64
    \<and> map_of (req_headers r') ''Authorization''
        = Some (HStr (auth_header (k_provider k) @ '' '' @ access_key (k_provider k) @ '':'' @ b64))
    \<and> v1_add_auth C k now' r' = Inr r'"
  by (rule v1_signed [OF assms])

definition toy_crypto :: crypto where
  "toy_crypto = \<lparr>hmac_sha1 = (\<lambda>k m. k), hmac_sha256 = (\<lambda>k m. rev k), sha256_digest = (\<lambda>m. take 3 m)\<rparr>"

definition toy_keys :: hmac_keys where
  "toy_keys = \<lparr>k_host = ''h'', k_provider = aws_provider ''AK'' ''SK'' (Some ''tok''), k_sha256 = False\<rparr>"

theorem v1_signature_verifies_witness:
  "\<exists>r' sts b64. v1_add_auth toy_crypto toy_keys ''d1'' (http_request_init ''GET'' ''https'' ''h'' (PortNum 443) ''/'' None [] [] []) = Inr r'
    \<and> canonical_string (req_method r') (req_auth_path r') (req_headers r') None (k_provider toy_keys) = Inr sts
    \<and> sign_string toy_crypto toy_keys sts = Inr b64 \<and> v1_add_auth toy_crypto toy_keys ''d2'' r' = Inr r'"
proof -
  let ?r = "http_request_init ''GET'' ''https'' ''h'' (PortNum 443) ''/'' None [] [] []"
  have "\<exists>r'. v1_add_auth toy_crypto toy_keys ''d1'' ?r = Inr r'"
    by (simp add: v1_add_auth_def Let_def http_request_init_def ensure_date_def set_header_def add_token_def
        toy_keys_def aws_provider_def str_true_def canonical_string_def interesting_def str_lower_def lower_char_def
        hval_str_def str_startswith_def sign_string_def get_hmac_def py2_encode_def char_eval
        header_lines_def canonical_resource_def set_default_def str_strip_def str_lstrip_def is_space_def
        insort_key.simps sort_key_def less_eq_char_def less_char_def)
  then obtain r' where r: "v1_add_auth toy_crypto toy_keys ''d1'' ?r = Inr r'" by blast
  have "\<exists>sts b64. canonical_string (req_method r') (req_auth_path r') (req_headers r') None (k_provider toy_keys) = Inr sts
    \<and> sign_string toy_crypto toy_keys sts = Inr b64
    \<and> map_of (req_headers r') ''Authorization''
        = Some (HStr (auth_header (k_provider toy_keys) @ '' '' @ access_key (k_provider toy_keys) @ '':'' @ b64))
    \<and> v1_add_auth toy_crypto toy_keys ''d2'' r' = Inr r'"
    by (rule v1_signature_verifies [OF _ _ r]) (simp_all add: toy_keys_def aws_provider_def)
  with r show ?thesis by blast
qed

end
