(* ===== verification/Auth_V4.thy ===== *)
theory Auth_V4
  imports Auth_Hmac "HOL-Library.Sublist"
begin

text \<open>
  Signature version 4 of \<^verbatim>\<open>boto/auth.py\<close>: \<open>HmacAuthV4Handler\<close> and its variant for S3,
  \<open>S3HmacAuthV4Handler\<close>, which overrides some methods.  The methods are a record, so that the shared
  code calls the right ones.  The body of a request is a byte string.
\<close>

section \<open>What the handlers use of Python\<close>

text \<open>\<open>posixpath.normpath\<close>.\<close>

fun norm_components :: "bool \<Rightarrow> string list \<Rightarrow> string list \<Rightarrow> string list" where
  "norm_components absolute [] done = rev done"
| "norm_components absolute (c # cs) done =
     (if c = [] \<or> c = ''.'' then norm_components absolute cs done
      else if c \<noteq> ''..'' \<or> \<not> absolute \<and> done = [] \<or> done \<noteq> [] \<and> hd done = ''..''
      then norm_components absolute cs (c # done)
      else norm_components absolute cs (tl done))"

definition normpath :: "string \<Rightarrow> string" where
  "normpath path =
     (if path = [] then ''.''
      else let slashes = (if str_startswith path ''/''
                          then if str_startswith path ''//'' \<and> \<not> str_startswith path ''///'' then 2 else 1 else 0);
               p = replicate slashes CHR ''/'' @ str_join ''/'' (norm_components (0 < slashes) (str_split CHR ''/'' path) [])
           in if p = [] then ''.'' else p)"

text \<open>\<open>s.split()\<close>: the words between white space.\<close>

fun str_words :: "string \<Rightarrow> string list" where
  "str_words [] = []"
| "str_words (c # s) =
     (if is_space c then str_words s
      else case s of [] \<Rightarrow> [[c]]
           | d # _ \<Rightarrow> if is_space d then [c] # str_words s
                    else (case str_words s of [] \<Rightarrow> [[c]] | w # ws \<Rightarrow> (c # w) # ws))"

definition replace_char :: "char \<Rightarrow> char \<Rightarrow> string \<Rightarrow> string" where
  "replace_char a b s = map (\<lambda>c. if c = a then b else c) s"

definition upper_char :: "char \<Rightarrow> char" where
  "upper_char c = (if is_lower_case c then char_of (of_char c - (32 :: nat)) else c)"

definition str_upper :: "string \<Rightarrow> string" where
  "str_upper s = map upper_char s"

text \<open>\<open>repr\<close> of a byte string and of a list of them.\<close>

definition repr_char :: "char \<Rightarrow> char \<Rightarrow> string" where
  "repr_char q c =
     (if c = q \<or> c = CHR 0x5C then [CHR 0x5C, c]
      else if c = CHR 0x09 then [CHR 0x5C, CHR ''t''] else if c = CHR 0x0A then [CHR 0x5C, CHR ''n'']
      else if c = CHR 0x0D then [CHR 0x5C, CHR ''r'']
      else if of_char c < (32 :: nat) \<or> (127 :: nat) \<le> of_char c
      then [CHR 0x5C, CHR ''x'', hex_char (of_char c div 16), hex_char (of_char c mod 16)] else [c])"

definition repr_str :: "string \<Rightarrow> string" where
  "repr_str s = (let q = (if CHR 0x27 \<in> set s \<and> CHR 0x22 \<notin> set s then CHR 0x22 else CHR 0x27)
     in [q] @ concat (map (repr_char q) s) @ [q])"

definition repr_list :: "string list \<Rightarrow> string" where
  "repr_list ss = ''['' @ str_join '', '' (map repr_str ss) @ '']''"

text \<open>\<open>urlparse.parse_qs(qs, keep_blank_values=True)\<close>.\<close>

definition unquote_plus :: "string \<Rightarrow> string" where
  "unquote_plus s = unquote (replace_char CHR ''+'' CHR '' '' s)"

definition parse_qsl :: "string \<Rightarrow> (string \<times> string) list" where
  "parse_qsl qs =
     map (\<lambda>nv. (unquote_plus (fst nv), unquote_plus (case snd nv of None \<Rightarrow> [] | Some v \<Rightarrow> v)))
       (map (split_first CHR ''='') (filter (\<lambda>s. s \<noteq> []) (concat (map (str_split CHR '';'') (str_split CHR ''&'' qs)))))"

definition parse_qs :: "string \<Rightarrow> (string, string list) dict" where
  "parse_qs qs = fold (\<lambda>(n, v) d. AList.update n ((case map_of d n of None \<Rightarrow> [] | Some vs \<Rightarrow> vs) @ [v]) d) (parse_qsl qs) []"

text \<open>\<open>urllib.quote_plus\<close> and \<open>urllib.urlencode\<close>.\<close>

definition quote_plus :: "string \<Rightarrow> string" where
  "quote_plus s = replace_char CHR '' '' CHR ''+'' (quote '' '' s)"

definition urlencode :: "(string, string) dict \<Rightarrow> string" where
  "urlencode d = str_join ''&'' (map (\<lambda>(k, v). quote_plus k @ ''='' @ quote_plus v) d)"

text \<open>\<open>get_utf8able_str\<close> of a byte string.\<close>

definition get_utf8able_str :: "string \<Rightarrow> string res" where
  "get_utf8able_str s = (if utf8_valid s then Inr s else Inl UnicodeDecodeError)"

definition port_str :: "port \<Rightarrow> string" where
  "port_str p = (case p of PortNum n \<Rightarrow> nat_str n | PortStr s \<Rightarrow> s)"

section \<open>The handler\<close>

record v4 =
  v_keys :: hmac_keys
  v_service :: "string option"
  v_region :: "string option"

definition v4_sign :: "crypto \<Rightarrow> string \<Rightarrow> string \<Rightarrow> string res" where
  "v4_sign C key msg = res_bind (py2_encode msg) (\<lambda>m. Inr (hmac_sha256 C key m))"

definition default_port :: "request \<Rightarrow> bool" where
  "default_port r \<longleftrightarrow> req_port r = PortNum 80 \<and> req_protocol r \<noteq> ''https'' \<or> req_port r = PortNum 443 \<and> req_protocol r = ''https''"

definition v4_host_header :: "string \<Rightarrow> request \<Rightarrow> string" where
  "v4_host_header h r = (if default_port r then h else h @ '':'' @ port_str (req_port r))"

definition s3_host_header :: "string \<Rightarrow> request \<Rightarrow> string" where
  "s3_host_header h r = (if default_port r then req_host r else req_host r @ '':'' @ port_str (req_port r))"

fun signed_amz :: "headers \<Rightarrow> headers \<Rightarrow> headers res" where
  "signed_amz [] acc = Inr acc"
| "signed_amz ((n, v) # hs) acc =
     (if amz_header n
      then (case v of HStr s \<Rightarrow> if utf8_valid s then signed_amz hs (AList.update n (HUni s) acc) else Inl UnicodeDecodeError
            | _ \<Rightarrow> signed_amz hs (AList.update n v acc))
      else signed_amz hs acc)"

definition v4_headers_to_sign :: "v4 \<Rightarrow> request \<Rightarrow> headers res" where
  "v4_headers_to_sign v r =
     (let h = (case map_of (req_headers r) ''Host'' of
                 Some x \<Rightarrow> if hval_true (Some x) then x else HStr (v4_host_header (k_host (v_keys v)) r)
               | None \<Rightarrow> HStr (v4_host_header (k_host (v_keys v)) r))
      in signed_amz (req_headers r) [(''Host'', h)])"

definition s3_headers_to_sign :: "v4 \<Rightarrow> request \<Rightarrow> headers res" where
  "s3_headers_to_sign v r =
     Inr (fold (\<lambda>(n, x) acc. if str_lower n \<noteq> ''authorization'' then AList.update n x acc else acc) (req_headers r)
            [(''Host'', HStr (s3_host_header (k_host (v_keys v)) r))])"

text \<open>The pairs of a query, quoted, by name.\<close>

fun quoted_pairs :: "string \<Rightarrow> string \<Rightarrow> (string, string) dict \<Rightarrow> string list \<Rightarrow> string list res" where
  "quoted_pairs ns vs d [] = Inr []"
| "quoted_pairs ns vs d (n # names) =
     res_bind (get_utf8able_str (the (map_of d n))) (\<lambda>x. res_bind (quoted_pairs ns vs d names) (\<lambda>ps.
       Inr ((quote ns n @ ''='' @ quote vs x) # ps)))"

definition param_names :: "request \<Rightarrow> string list" where
  "param_names r = sort (map fst (req_params r))"

definition query_string :: "request \<Rightarrow> string res" where
  "query_string r = res_bind (quoted_pairs [] ''-_~'' (req_params r) (param_names r)) (\<lambda>ps. Inr (str_join ''&'' ps))"

definition s3_canonical_query_string :: "request \<Rightarrow> string res" where
  "s3_canonical_query_string r =
     res_bind (quoted_pairs ''-_.~'' ''-_.~'' (req_params r) (param_names r)) (\<lambda>ps. Inr (str_join ''&'' ps))"

definition v4_canonical_query_string :: "request \<Rightarrow> string res" where
  "v4_canonical_query_string r = (if req_method r = ''POST'' then Inr [] else s3_canonical_query_string r)"

fun canonical_lines :: "headers \<Rightarrow> string list res" where
  "canonical_lines [] = Inr []"
| "canonical_lines ((n, v) # hs) = res_bind (hval_str v) (\<lambda>s. res_bind (canonical_lines hs) (\<lambda>ls.
     Inr ((str_strip (str_lower n) @ '':'' @
           (if CHR 0x22 \<in> set s then str_strip s else str_join '' '' (str_words (str_strip s)))) # ls)))"

definition canonical_headers :: "headers \<Rightarrow> string res" where
  "canonical_headers hs = res_bind (canonical_lines hs) (\<lambda>ls. Inr (str_join [CHR 0x0A] (sort ls)))"

definition signed_headers :: "headers \<Rightarrow> string" where
  "signed_headers hs = str_join '';'' (sort (map (\<lambda>(n, v). str_strip (str_lower n)) hs))"

definition v4_canonical_uri :: "request \<Rightarrow> string res" where
  "v4_canonical_uri r =
     (let path = req_auth_path r; enc = quote ''/'' (replace_char CHR 0x5C CHR ''/'' (normpath path))
      in Inr (if 1 < length path \<and> str_endswith path ''/'' then enc @ ''/'' else enc))"

definition s3_canonical_uri :: "request \<Rightarrow> string res" where
  "s3_canonical_uri r = res_bind (urlparse (req_path r)) (\<lambda>u. Inr (quote ''/~'' (unquote (url_path_of u))))"

definition v4_payload :: "crypto \<Rightarrow> request \<Rightarrow> string res" where
  "v4_payload C r = Inr (hexlify (sha256_digest C (req_body r)))"

definition s3_payload :: "crypto \<Rightarrow> request \<Rightarrow> string res" where
  "s3_payload C r =
     (if hval_true (map_of (req_headers r) ''x-amz-content-sha256'')
      then hval_str (the (map_of (req_headers r) ''x-amz-content-sha256''))
      else v4_payload C r)"

subsection \<open>Region and service\<close>

definition v4_region_name :: "v4 \<Rightarrow> string \<Rightarrow> string res" where
  "v4_region_name v h =
     (let parts = str_split CHR ''.'' h
      in case v_region v of
           Some reg \<Rightarrow> Inr reg
         | None \<Rightarrow>
            if 1 < length parts
            then if parts ! 1 = ''us-gov'' then Inr ''us-gov-west-1''
                 else if length parts = 3 then Inr ''us-east-1'' else Inr (parts ! 1)
            else Inr (parts ! 0))"

definition v4_service_name :: "v4 \<Rightarrow> string \<Rightarrow> string" where
  "v4_service_name v h = (case v_service v of Some s \<Rightarrow> s | None \<Rightarrow> str_split CHR ''.'' h ! 0)"

definition clean_region_name :: "string \<Rightarrow> string" where
  "clean_region_name reg = (if str_startswith reg ''s3-'' then drop 3 reg else reg)"

text \<open>The constructor of the S3 handler cleans a given region.\<close>

definition s3_init :: "hmac_keys \<Rightarrow> string option \<Rightarrow> string option \<Rightarrow> v4" where
  "s3_init k service region = \<lparr>v_keys = k, v_service = service,
     v_region = (if str_true region then map_option clean_region_name region else region)\<rparr>"

text \<open>
  The loop over the parts of the host, last first; without a part that starts with \<open>s3\<close> the name is
  not bound (\<open>UnboundLocalError\<close> is a \<open>NameError\<close>).
\<close>

fun s3_region_loop :: "string list \<Rightarrow> nat \<Rightarrow> string list \<Rightarrow> string res" where
  "s3_region_loop parts offset [] = Inl NameError"
| "s3_region_loop parts offset (x # xs) =
     (let part = str_lower x
      in if part = ''s3''
         then let reg = (if offset = 0 then parts ! 0 else parts ! (length parts - offset))
              in Inr (if reg = ''amazonaws'' then ''us-east-1'' else reg)
         else if str_startswith part ''s3-'' then Inr (clean_region_name part)
         else s3_region_loop parts (Suc offset) xs)"

definition s3_region_name :: "v4 \<Rightarrow> string \<Rightarrow> string res" where
  "s3_region_name v h =
     (let parts = str_split CHR ''.'' h
      in case v_region v of
           Some reg \<Rightarrow> Inr reg
         | None \<Rightarrow>
            if length parts = 3
            then let reg = clean_region_name (parts ! 0) in Inr (if reg = ''s3'' then ''us-east-1'' else reg)
            else s3_region_loop parts 0 (rev parts))"

section \<open>Signing\<close>

record v4_methods =
  m_headers_to_sign :: "v4 \<Rightarrow> request \<Rightarrow> headers res"
  m_canonical_uri :: "request \<Rightarrow> string res"
  m_canonical_query :: "request \<Rightarrow> string res"
  m_payload :: "crypto \<Rightarrow> request \<Rightarrow> string res"
  m_region_name :: "v4 \<Rightarrow> string \<Rightarrow> string res"
  m_service_name :: "v4 \<Rightarrow> string \<Rightarrow> string"

definition v4_base :: v4_methods where
  "v4_base = \<lparr>m_headers_to_sign = v4_headers_to_sign, m_canonical_uri = v4_canonical_uri,
     m_canonical_query = v4_canonical_query_string, m_payload = v4_payload, m_region_name = v4_region_name,
     m_service_name = v4_service_name\<rparr>"

definition v4_s3 :: v4_methods where
  "v4_s3 = \<lparr>m_headers_to_sign = s3_headers_to_sign, m_canonical_uri = s3_canonical_uri,
     m_canonical_query = s3_canonical_query_string, m_payload = s3_payload, m_region_name = s3_region_name,
     m_service_name = (\<lambda>_ _. ''s3'')\<rparr>"

definition canonical_request :: "crypto \<Rightarrow> v4_methods \<Rightarrow> v4 \<Rightarrow> request \<Rightarrow> string res" where
  "canonical_request C M v r =
     res_bind (m_canonical_uri M r) (\<lambda>uri. res_bind (m_canonical_query M r) (\<lambda>query.
     res_bind (m_headers_to_sign M v r) (\<lambda>hs. res_bind (canonical_headers hs) (\<lambda>ch.
     res_bind (m_payload M C r) (\<lambda>p.
       Inr (str_join [CHR 0x0A] [str_upper (req_method r), uri, query, ch @ [CHR 0x0A], signed_headers hs, p]))))))"

text \<open>The attributes that \<open>credential_scope\<close> leaves in the request: time stamp, region and service.\<close>

record scope =
  timestamp :: string
  region_name :: string
  service_name :: string

definition credential_scope :: "v4_methods \<Rightarrow> v4 \<Rightarrow> request \<Rightarrow> (string \<times> scope) res" where
  "credential_scope M v r =
     res_bind (header_string ''X-Amz-Date'' r) (\<lambda>date. res_bind (m_region_name M v (req_host r)) (\<lambda>reg.
       let s = \<lparr>timestamp = take 8 date, region_name = reg, service_name = m_service_name M v (req_host r)\<rparr>
       in Inr (str_join ''/'' [timestamp s, region_name s, service_name s, ''aws4_request''], s)))"

definition full_scope :: "v4 \<Rightarrow> scope \<Rightarrow> string" where
  "full_scope v s = str_join ''/'' [access_key (k_provider (v_keys v)), timestamp s, region_name s, service_name s, ''aws4_request'']"

definition v4_string_to_sign :: "crypto \<Rightarrow> v4_methods \<Rightarrow> v4 \<Rightarrow> request \<Rightarrow> string \<Rightarrow> (string \<times> scope) res" where
  "v4_string_to_sign C M v r cr =
     res_bind (header_string ''X-Amz-Date'' r) (\<lambda>date. res_bind (credential_scope M v r) (\<lambda>(cs, s).
     res_bind (py2_encode cr) (\<lambda>m.
       Inr (str_join [CHR 0x0A] [''AWS4-HMAC-SHA256'', date, cs, hexlify (sha256_digest C m)], s))))"

definition v4_signature :: "crypto \<Rightarrow> v4 \<Rightarrow> scope \<Rightarrow> string \<Rightarrow> string res" where
  "v4_signature C v s sts =
     res_bind (py2_encode (''AWS4'' @ secret_key (k_provider (v_keys v)))) (\<lambda>key.
     res_bind (v4_sign C key (timestamp s)) (\<lambda>k_date.
     res_bind (v4_sign C k_date (region_name s)) (\<lambda>k_region.
     res_bind (v4_sign C k_region (service_name s)) (\<lambda>k_service.
     res_bind (v4_sign C k_service ''aws4_request'') (\<lambda>k_signing.
     res_bind (v4_sign C k_signing sts) (\<lambda>sig. Inr (hexlify sig)))))))"

text \<open>\<open>now\<close> is the current time as \<open>%Y%m%dT%H%M%SZ\<close>; \<open>unmangled\<close> is the keyword argument \<open>unmangled_req\<close>.\<close>

definition v4_prepare :: "v4 \<Rightarrow> string \<Rightarrow> request \<Rightarrow> request" where
  "v4_prepare v now r =
     add_token ''X-Amz-Security-Token'' (k_provider (v_keys v))
       (set_header ''X-Amz-Date'' now (del_header ''X-Amzn-Authorization'' r))"

definition place_query :: "string \<Rightarrow> string \<Rightarrow> request \<Rightarrow> request" where
  "place_query qs qs_to_post r =
     (if qs_to_post \<noteq> [] \<and> req_method r = ''POST''
      then set_header ''Content-Length'' (nat_str (length qs_to_post))
             (set_header ''Content-Type'' ''application/x-www-form-urlencoded; charset=UTF-8'' (r\<lparr>req_body := qs_to_post\<rparr>))
      else r\<lparr>req_path := str_split CHR ''?'' (req_path r) ! 0 @ (if qs \<noteq> [] then ''?'' @ qs else [])\<rparr>)"

definition v4_authorization :: "crypto \<Rightarrow> v4_methods \<Rightarrow> v4 \<Rightarrow> request \<Rightarrow> string res" where
  "v4_authorization C M v r =
     res_bind (canonical_request C M v r) (\<lambda>cr. res_bind (v4_string_to_sign C M v r cr) (\<lambda>(sts, s).
     res_bind (v4_signature C v s sts) (\<lambda>sig. res_bind (m_headers_to_sign M v r) (\<lambda>hs.
       Inr (str_join '','' [''AWS4-HMAC-SHA256 Credential='' @ full_scope v s, ''SignedHeaders='' @ signed_headers hs,
              ''Signature='' @ sig])))))"

definition v4_add_auth :: "crypto \<Rightarrow> v4_methods \<Rightarrow> v4 \<Rightarrow> string \<Rightarrow> request option \<Rightarrow> request \<Rightarrow> request res" where
  "v4_add_auth C M v now unmangled r =
     (let r = v4_prepare v now r
      in res_bind (query_string r) (\<lambda>qs.
         res_bind (case unmangled of None \<Rightarrow> Inr qs | Some u \<Rightarrow> query_string u) (\<lambda>qs_to_post.
           let r = place_query qs qs_to_post r
           in res_bind (v4_authorization C M v r) (\<lambda>auth. Inr (set_header ''Authorization'' auth r)))))"

section \<open>S3\<close>

definition mangle_path_and_params :: "request \<Rightarrow> request res" where
  "mangle_path_and_params r =
     res_bind (urlparse (req_auth_path r)) (\<lambda>u.
       let existing = map (\<lambda>(n, vs). (n, if length vs = 1 then vs ! 0 else repr_list vs)) (parse_qs (url_query_of u))
       in Inr (r\<lparr>req_auth_path := url_path_of u,
                 req_params := fold (\<lambda>(n, x) d. AList.update n x d) existing (req_params r)\<rparr>))"

definition ensure_content_sha256 :: "crypto \<Rightarrow> request \<Rightarrow> request res" where
  "ensure_content_sha256 C r =
     (if map_of (req_headers r) ''x-amz-content-sha256'' \<noteq> None then Inr r
      else case map_of (req_headers r) ''_sha256'' of
             Some x \<Rightarrow> Inr (r\<lparr>req_headers := AList.update ''x-amz-content-sha256'' x (AList.delete ''_sha256'' (req_headers r))\<rparr>)
           | None \<Rightarrow> res_bind (s3_payload C r) (\<lambda>p. Inr (set_header ''x-amz-content-sha256'' p r)))"

text \<open>
  The signed request is a copy of the given one, with the same header dictionary: of the changes to
  the copy, the caller's request keeps only those to the headers.
\<close>

definition s3_add_auth :: "crypto \<Rightarrow> v4 \<Rightarrow> string \<Rightarrow> request \<Rightarrow> request res" where
  "s3_add_auth C v now r =
     res_bind (ensure_content_sha256 C r) (\<lambda>r. res_bind (mangle_path_and_params r) (\<lambda>updated.
     res_bind (v4_add_auth C v4_s3 v now (Some r) updated) (\<lambda>signed.
       Inr (r\<lparr>req_headers := req_headers signed\<rparr>))))"

definition update_params :: "(string, string) dict \<Rightarrow> request \<Rightarrow> request" where
  "update_params ps r = r\<lparr>req_params := fold (\<lambda>(n, x) d. AList.update n x d) ps (req_params r)\<rparr>"

definition presign_params :: "v4 \<Rightarrow> nat \<Rightarrow> string \<Rightarrow> string \<Rightarrow> headers \<Rightarrow> (string, string) dict" where
  "presign_params v expires now region hs =
     (let p = k_provider (v_keys v)
      in [(''X-Amz-Algorithm'', ''AWS4-HMAC-SHA256''),
          (''X-Amz-Credential'', access_key p @ ''/'' @ take 8 now @ ''/'' @ region @ ''/'' @ ''s3'' @ ''/aws4_request''),
          (''X-Amz-Date'', now), (''X-Amz-Expires'', nat_str expires), (''X-Amz-SignedHeaders'', signed_headers hs)]
         @ (if str_true (security_token p) then [(''X-Amz-Security-Token'', the (security_token p))] else []))"

definition presign :: "crypto \<Rightarrow> v4 \<Rightarrow> nat \<Rightarrow> string \<Rightarrow> request \<Rightarrow> string res" where
  "presign C v expires now r =
     res_bind (s3_region_name v (req_host r)) (\<lambda>region. res_bind (s3_headers_to_sign v r) (\<lambda>hs.
       let r = update_params (presign_params v expires now region hs) r
       in res_bind (canonical_request C v4_s3 v r) (\<lambda>cr.
            let cr = str_join [CHR 0x0A] (butlast (str_split CHR 0x0A cr)) @ [CHR 0x0A] @ ''UNSIGNED-PAYLOAD'';
                r = set_header ''X-Amz-Date'' now r
            in res_bind (v4_string_to_sign C v4_s3 v r cr) (\<lambda>(sts, s).
               res_bind (v4_signature C v s sts) (\<lambda>sig.
                 let r = update_params [(''X-Amz-Signature'', sig)] r
                 in Inr (req_protocol r @ ''://'' @ req_host r @ req_path r @ ''?'' @ urlencode (req_params r)))))))"

section \<open>Signing again\<close>

lemma signed_amz_skip:
  "\<not> amz_header k \<Longrightarrow> signed_amz (AList.update k v hs) acc = signed_amz hs acc"
proof (induction hs arbitrary: acc)
  case Nil
  then show ?case by simp
next
  case (Cons h hs)
  obtain k0 v0 where "h = (k0, v0)" by fastforce
  with Cons show ?case by (cases "k0 = k") (simp_all split: hval.splits)
qed

lemma authorization_not_amz: "\<not> amz_header ''Authorization''"
  by (simp add: amz_header_def str_lower_def lower_char_def str_startswith_def char_eval)

lemma set_header_port [simp]: "default_port (set_header k v r) = default_port r"
  by (simp add: default_port_def)

lemma set_header_host [simp]: "v4_host_header h (set_header k v r) = v4_host_header h r"
  by (simp add: v4_host_header_def)

lemma v4_headers_to_sign_auth:
  "v4_headers_to_sign v (set_header ''Authorization'' a r) = v4_headers_to_sign v r"
  by (cases "map_of (req_headers r) ''Host''")
    (simp_all add: v4_headers_to_sign_def signed_amz_skip authorization_not_amz update_conv' Let_def)

lemma header_string_auth: "name \<noteq> k \<Longrightarrow> header_string name (set_header k a r) = header_string name r"
  by (simp add: header_string_def update_conv')

lemma v4_authorization_auth:
  "v4_authorization C v4_base v (set_header ''Authorization'' a r) = v4_authorization C v4_base v r"
  by (simp add: v4_authorization_def canonical_request_def v4_base_def v4_string_to_sign_def credential_scope_def
      v4_canonical_uri_def v4_canonical_query_string_def s3_canonical_query_string_def v4_payload_def param_names_def
      v4_headers_to_sign_auth header_string_auth)

lemma query_string_cong: "req_params r = req_params r' \<Longrightarrow> query_string r = query_string r'"
  by (simp add: query_string_def param_names_def)

lemma set_header_twice: "set_header k v (set_header k w r) = set_header k v r"
  by (simp add: set_header_def update_idem)

lemma set_header_commute:
  "map_of (req_headers r) k \<noteq> None \<Longrightarrow> k \<noteq> l \<Longrightarrow> set_header k v (set_header l w r) = set_header l w (set_header k v r)"
  unfolding dom_map_of set_header_def using update_commute [of k "req_headers r" l "HStr v" "HStr w"] by simp

lemma set_header_commute_body: "set_header k v (r\<lparr>req_body := b\<rparr>) = (set_header k v r)\<lparr>req_body := b\<rparr>"
  "set_header k v (r\<lparr>req_path := q\<rparr>) = (set_header k v r)\<lparr>req_path := q\<rparr>"
  by (simp_all add: set_header_def)

lemma v4_prepare_simps [simp]:
  "req_params (v4_prepare v t r) = req_params r" "req_method (v4_prepare v t r) = req_method r"
  "req_path (v4_prepare v t r) = req_path r"
  by (simp_all add: v4_prepare_def add_token_def del_header_def)

lemma add_token_commute: "map_of (req_headers r) k \<noteq> None \<Longrightarrow> k \<noteq> n \<Longrightarrow>
    set_header k x (add_token n p r) = add_token n p (set_header k x r)"
  by (auto simp: add_token_def intro: set_header_commute)

lemma add_token_twice: "add_token n p (add_token n p r) = add_token n p r"
  by (simp add: add_token_def set_header_twice)

lemma split_head_idem: "str_split c (str_split c p ! 0 @ (if q \<noteq> [] then c # q else [])) ! 0 = str_split c p ! 0"
proof -
  have "str_split c p ! 0 \<in> set (str_split c p)" by (rule nth_mem) simp
  then have "c \<notin> set (str_split c p ! 0)" by (rule str_split_pieces)
  then show ?thesis by (cases "q = []") (simp_all add: str_split_append str_split_no_sep)
qed

lemma del_set_header: "k \<noteq> l \<Longrightarrow> del_header k (set_header l v r) = set_header l v (del_header k r)"
  by (simp add: del_header_def set_header_def AList.delete_update)

lemma del_header_twice: "del_header k (del_header k r) = del_header k r"
  by (simp add: del_header_def AList.delete_idem)

text \<open>A request that an earlier signature has prepared: only the date changes.\<close>

definition v4_prepared :: "v4 \<Rightarrow> request \<Rightarrow> bool" where
  "v4_prepared v r \<longleftrightarrow> del_header ''X-Amzn-Authorization'' r = r \<and> map_of (req_headers r) ''X-Amz-Date'' \<noteq> None
     \<and> (str_true (security_token (k_provider (v_keys v))) \<longrightarrow>
          map_of (req_headers r) ''X-Amz-Security-Token'' = Some (HStr (the (security_token (k_provider (v_keys v))))))"

lemma v4_prepare_prepared: "v4_prepared v (v4_prepare v t r)"
  by (simp add: v4_prepared_def v4_prepare_def add_token_def del_set_header del_header_twice update_conv')

lemma v4_prepared_set_header:
  "v4_prepared v r \<Longrightarrow> k \<notin> {''X-Amzn-Authorization'', ''X-Amz-Date'', ''X-Amz-Security-Token''} \<Longrightarrow> v4_prepared v (set_header k x r)"
  using del_set_header [of "''X-Amzn-Authorization''" k x r] by (auto simp: v4_prepared_def update_conv')

lemma v4_prepared_update:
  "v4_prepared v (r\<lparr>req_body := b\<rparr>) = v4_prepared v r" "v4_prepared v (r\<lparr>req_path := q\<rparr>) = v4_prepared v r"
proof -
  have "del_header k (r\<lparr>req_body := b\<rparr>) = r\<lparr>req_body := b\<rparr> \<longleftrightarrow> del_header k r = r"
    and "del_header k (r\<lparr>req_path := q\<rparr>) = r\<lparr>req_path := q\<rparr> \<longleftrightarrow> del_header k r = r" for k
    by (cases r; simp add: del_header_def)+
  then show "v4_prepared v (r\<lparr>req_body := b\<rparr>) = v4_prepared v r" "v4_prepared v (r\<lparr>req_path := q\<rparr>) = v4_prepared v r"
    by (simp_all add: v4_prepared_def)
qed

lemma v4_prepared_place_query: "v4_prepared v r \<Longrightarrow> v4_prepared v (place_query qs qs' r)"
  by (simp add: place_query_def v4_prepared_set_header v4_prepared_update)

lemma set_header_same_req: "map_of (req_headers r) k = Some (HStr x) \<Longrightarrow> set_header k x r = r"
  by (cases r) (simp add: set_header_def update_same)

lemma prepare_prepared: "v4_prepared v r \<Longrightarrow> v4_prepare v t r = set_header ''X-Amz-Date'' t r"
  by (simp add: v4_prepared_def v4_prepare_def add_token_def set_header_same_req update_conv')

lemma place_query_date:
  assumes "map_of (req_headers r) ''X-Amz-Date'' \<noteq> None"
  shows "place_query qs qs' (set_header ''X-Amz-Date'' t r) = set_header ''X-Amz-Date'' t (place_query qs qs' r)"
proof -
  have "set_header k x (set_header ''X-Amz-Date'' t y) = set_header ''X-Amz-Date'' t (set_header k x y)"
    if "map_of (req_headers y) ''X-Amz-Date'' \<noteq> None" "k \<noteq> ''X-Amz-Date''" for k x y
    using set_header_commute [OF that(1) that(2) [symmetric]] by simp
  with assms show ?thesis by (simp add: place_query_def set_header_commute_body [symmetric] update_conv')
qed

lemma prepare_again: "v4_prepare v t2 (v4_prepare v t1 r) = v4_prepare v t2 r"
proof -
  have "v4_prepare v t2 (v4_prepare v t1 r) = set_header ''X-Amz-Date'' t2 (v4_prepare v t1 r)"
    by (rule prepare_prepared) (rule v4_prepare_prepared)
  also have "\<dots> = v4_prepare v t2 r"
    unfolding v4_prepare_def by (subst add_token_commute) (simp_all add: update_conv' set_header_twice)
  finally show ?thesis .
qed

lemma prepare_signed:
  "v4_prepare v t2 (set_header ''Authorization'' a (place_query qs qs (v4_prepare v t1 r)))
     = set_header ''Authorization'' a (place_query qs qs (v4_prepare v t2 r))"
proof -
  let ?r = "place_query qs qs (v4_prepare v t1 r)"
  have prep: "v4_prepared v (v4_prepare v t1 r)" by (rule v4_prepare_prepared)
  then have r: "v4_prepared v ?r" by (rule v4_prepared_place_query)
  then have "v4_prepared v (set_header ''Authorization'' a ?r)" by (rule v4_prepared_set_header) simp
  then have "v4_prepare v t2 (set_header ''Authorization'' a ?r) = set_header ''X-Amz-Date'' t2 (set_header ''Authorization'' a ?r)"
    by (rule prepare_prepared)
  also have "\<dots> = set_header ''Authorization'' a (set_header ''X-Amz-Date'' t2 ?r)"
    using r by (intro set_header_commute) (simp_all add: v4_prepared_def)
  also have "set_header ''X-Amz-Date'' t2 ?r = place_query qs qs (set_header ''X-Amz-Date'' t2 (v4_prepare v t1 r))"
    using prep by (intro place_query_date [symmetric]) (simp add: v4_prepared_def)
  also have "set_header ''X-Amz-Date'' t2 (v4_prepare v t1 r) = v4_prepare v t2 r"
    using prepare_prepared [OF prep, of t2] prepare_again [of v t2 t1 r] by simp
  finally show ?thesis .
qed

lemma place_query_auth:
  "place_query qs qs (set_header ''Authorization'' a (place_query qs qs r)) = set_header ''Authorization'' a (place_query qs qs r)"
proof (cases "qs \<noteq> [] \<and> req_method r = ''POST''")
  case True
  then show ?thesis
    by (simp add: place_query_def set_header_commute_body set_header_same update_conv')
next
  case False
  have "str_split CHR ''?'' (str_split CHR ''?'' (req_path r) ! 0 @ (if qs \<noteq> [] then ''?'' @ qs else [])) ! 0
      = str_split CHR ''?'' (req_path r) ! 0"
    using split_head_idem [of "CHR ''?''" "req_path r" qs] by (cases "qs = []") simp_all
  with False show ?thesis
    by (cases "qs = []") (simp_all add: place_query_def set_header_def)
qed


text \<open>
  C31: signing a request again, as the retry loop does, gives what signing the request for the first time
  at that moment gives: nothing of the earlier signature is left, and the new one is the \<open>Authorization\<close>
  that \<open>v4_authorization\<close> computes from the request that is sent.
\<close>

theorem v4_retry_signs_afresh:
  assumes "v4_add_auth C v4_base v t1 None r = Inr r'"
  shows "v4_add_auth C v4_base v t2 None r' = v4_add_auth C v4_base v t2 None r
    \<and> (\<exists>auth. v4_authorization C v4_base v r' = Inr auth \<and> map_of (req_headers r') ''Authorization'' = Some (HStr auth))"
proof -
  let ?p = "\<lambda>t. v4_prepare v t r"
  from assms obtain qs auth where qs: "query_string (?p t1) = Inr qs"
    and auth: "v4_authorization C v4_base v (place_query qs qs (?p t1)) = Inr auth"
    and r': "r' = set_header ''Authorization'' auth (place_query qs qs (?p t1))"
    by (auto simp: v4_add_auth_def Let_def res_bind_def split: sum.splits)
  have params: "query_string x = Inr qs" if "req_params x = req_params r" for x
    using qs query_string_cong [of x "?p t1"] that by simp
  have again: "v4_prepare v t2 r' = set_header ''Authorization'' auth (place_query qs qs (?p t2))"
    unfolding r' by (rule prepare_signed)
  have "req_params (v4_prepare v t2 r') = req_params r" by (simp add: again place_query_def)
  then have "v4_add_auth C v4_base v t2 None r' = v4_add_auth C v4_base v t2 None r"
    by (simp add: v4_add_auth_def Let_def params again place_query_auth v4_authorization_auth set_header_twice)
  moreover have "v4_authorization C v4_base v r' = Inr auth" using auth by (simp add: r' v4_authorization_auth)
  moreover have "map_of (req_headers r') ''Authorization'' = Some (HStr auth)" by (simp add: r' update_conv')
  ultimately show ?thesis by blast
qed

definition toy_v4 :: v4 where
  "toy_v4 = \<lparr>v_keys = toy_keys, v_service = None, v_region = None\<rparr>"

lemmas v4_eval = http_request_init_def set_header_def del_header_def add_token_def toy_crypto_def toy_keys_def toy_v4_def
  aws_provider_def str_true_def str_lower_def lower_char_def str_upper_def upper_char_def is_lower_case_def hval_str_def
  str_startswith_def str_endswith_def py2_encode_def str_strip_def str_lstrip_def is_space_def
  insort_key.simps sort_key_def less_eq_char_def less_char_def v4_prepare_def query_string_def
  param_names_def place_query_def v4_authorization_def canonical_request_def v4_base_def v4_canonical_uri_def
  normpath_def replace_char_def quote_def quote_char_def v4_canonical_query_string_def s3_canonical_query_string_def
  v4_headers_to_sign_def v4_host_header_def default_port_def amz_header_def canonical_headers_def signed_headers_def
  v4_payload_def hexlify_def hex_char_def v4_string_to_sign_def header_string_def credential_scope_def v4_region_name_def
  v4_service_name_def v4_signature_def v4_sign_def full_scope_def utf8_valid_ascii in_range_def
  is_ascii_def hval_true_def always_safe_def is_alnum_def is_digit_def is_upper_case_def

theorem v4_retry_signs_afresh_witness:
  "\<exists>r' auth. v4_add_auth toy_crypto v4_base toy_v4 ''t1'' None
        (http_request_init ''GET'' ''https'' ''h'' (PortNum 443) ''/'' None [] [] []) = Inr r'
    \<and> v4_authorization toy_crypto v4_base toy_v4 r' = Inr auth \<and> map_of (req_headers r') ''Authorization'' = Some (HStr auth)"
proof -
  let ?r = "http_request_init ''GET'' ''https'' ''h'' (PortNum 443) ''/'' None [] [] []"
  have "\<exists>r'. v4_add_auth toy_crypto v4_base toy_v4 ''t1'' None ?r = Inr r'"
    by (simp add: v4_eval v4_add_auth_def Let_def char_eval)
  then obtain r' where r: "v4_add_auth toy_crypto v4_base toy_v4 ''t1'' None ?r = Inr r'" by blast
  from v4_retry_signs_afresh [OF r, of "''t2''"] r show ?thesis by blast
qed

section \<open>What the service reads of the query\<close>

lemma replace_char_absent: "a \<notin> set s \<Longrightarrow> replace_char a b s = s"
  by (auto simp: replace_char_def intro: map_idI)

lemma always_safe_simps: "always_safe c \<Longrightarrow> c \<notin> set ''&;=+% ?#''"
  by (auto simp: always_safe_def is_alnum_def is_digit_def is_upper_case_def is_lower_case_def char_eval)

lemma quote_avoids: "c \<in> set ''&;=+ ?#'' \<Longrightarrow> c \<notin> set safe \<Longrightarrow> c \<notin> set (quote safe s)"
  using quote_chars [of c safe s] always_safe_simps [of c] by auto

lemma unquote_plus_quote: "CHR ''%'' \<notin> set safe \<Longrightarrow> CHR ''+'' \<notin> set safe \<Longrightarrow> unquote_plus (quote safe s) = s"
  by (simp add: unquote_plus_def replace_char_absent quote_avoids unquote_quote)

lemma quoted_pairs_Inr:
  "quoted_pairs ns vs d names = Inr ps \<Longrightarrow> ps = map (\<lambda>n. quote ns n @ ''='' @ quote vs (the (map_of d n))) names"
  by (induction names arbitrary: ps)
    (auto simp: get_utf8able_str_def res_bind_Inr_iff split: if_splits)

lemma quoted_pairs_any:
  "quoted_pairs ns vs d names = Inr ps \<Longrightarrow> \<exists>ps'. quoted_pairs ns' vs' d names = Inr ps'"
  by (induction names arbitrary: ps) (auto simp: res_bind_Inr_iff)

lemma parse_qsl_encoded:
  assumes "\<And>p. p \<in> set encs \<Longrightarrow> set (fst p @ snd p) \<inter> set ''&;'' = {} \<and> CHR ''='' \<notin> set (fst p)"
  shows "parse_qsl (str_join ''&'' (map (\<lambda>p. fst p @ ''='' @ snd p) encs)) = map (\<lambda>p. (unquote_plus (fst p), unquote_plus (snd p))) encs"
proof -
  define q :: "string \<times> string \<Rightarrow> string" where "q = (\<lambda>p. fst p @ ''='' @ snd p)"
  have amp: "CHR ''&'' \<notin> set (q p)" and semi: "CHR '';'' \<notin> set (q p)" if "p \<in> set encs" for p
    using assms [OF that] by (simp_all add: q_def)
  have ne: "q p \<noteq> []" for p by (simp add: q_def)
  have pieces: "filter (\<lambda>s. s \<noteq> []) (concat (map (str_split CHR '';'') (str_split CHR ''&'' (str_join ''&'' (map q encs))))) = map q encs"
  proof (cases "encs = []")
    case True
    then show ?thesis by simp
  next
    case False
    then have "str_split CHR ''&'' (str_join ''&'' (map q encs)) = map q encs"
      using amp by (intro str_split_join) auto
    moreover have "concat (map (str_split CHR '';'') (map q xs)) = map q xs" if "set xs \<subseteq> set encs" for xs
      using that semi by (induction xs) (simp_all add: str_split_no_sep)
    moreover have "filter (\<lambda>s. s \<noteq> []) (map q xs) = map q xs" for xs using ne by (induction xs) simp_all
    ultimately show ?thesis by simp
  qed
  have split: "split_first CHR ''='' (q p) = (fst p, Some (snd p))" if "p \<in> set encs" for p
    using assms [OF that] by (simp add: q_def split_first_sep)
  show ?thesis unfolding q_def [symmetric] parse_qsl_def pieces by (simp add: split)
qed

lemma quoted_avoids:
  assumes "set safe \<inter> set ''&;=+%'' = {}"
  shows "set (quote safe s) \<inter> set ''&;='' = {}" "unquote_plus (quote safe s) = s"
proof -
  have "c \<notin> set (quote safe s)" if "c \<in> set ''&;=''" for c
  proof -
    have "c \<in> set ''&;=+ ?#''" "c \<notin> set safe" using that assms by auto
    then show ?thesis by (rule quote_avoids)
  qed
  then show "set (quote safe s) \<inter> set ''&;='' = {}" by blast
  show "unquote_plus (quote safe s) = s" using assms by (intro unquote_plus_quote) auto
qed

lemma parse_qsl_pairs:
  assumes ns: "set ns \<inter> set ''&;=+%'' = {}" and vs: "set vs \<inter> set ''&;=+%'' = {}"
  shows "parse_qsl (str_join ''&'' (map (\<lambda>p. quote ns (fst p) @ ''='' @ quote vs (snd p)) nvs)) = nvs"
proof -
  let ?encs = "map (\<lambda>p. (quote ns (fst p), quote vs (snd p))) nvs"
  have "parse_qsl (str_join ''&'' (map (\<lambda>p. fst p @ ''='' @ snd p) ?encs)) = map (\<lambda>p. (unquote_plus (fst p), unquote_plus (snd p))) ?encs"
  proof (rule parse_qsl_encoded)
    fix p assume "p \<in> set ?encs"
    then obtain n v where "p = (quote ns n, quote vs v)" by auto
    then show "set (fst p @ snd p) \<inter> set ''&;'' = {} \<and> CHR ''='' \<notin> set (fst p)"
      using quoted_avoids(1) [OF ns, of n] quoted_avoids(1) [OF vs, of v] by auto
  qed
  then show ?thesis by (simp add: comp_def quoted_avoids(2) [OF ns] quoted_avoids(2) [OF vs])
qed

text \<open>
  C33: the query string that is sent parses back to the parameters of the request, ordered by name, and so
  does the canonical query string that is signed: the service verifies the parameters that it reads.
\<close>

theorem query_string_roundtrip:
  assumes "query_string r = Inr qs"
  shows "parse_qsl qs = map (\<lambda>n. (n, the (map_of (req_params r) n))) (param_names r)
    \<and> (\<exists>cq. s3_canonical_query_string r = Inr cq \<and> parse_qsl cq = parse_qsl qs)"
proof -
  let ?d = "req_params r" and ?names = "param_names r"
  let ?nvs = "map (\<lambda>n. (n, the (map_of ?d n))) ?names"
  obtain ps where ps: "quoted_pairs [] ''-_~'' ?d ?names = Inr ps" and qs: "qs = str_join ''&'' ps"
    using assms by (auto simp: query_string_def res_bind_Inr_iff)
  from quoted_pairs_any [OF ps] obtain ps' where ps': "quoted_pairs ''-_.~'' ''-_.~'' ?d ?names = Inr ps'" by blast
  have "ps = map (\<lambda>p. quote [] (fst p) @ ''='' @ quote ''-_~'' (snd p)) ?nvs"
    using quoted_pairs_Inr [OF ps] by simp
  then have 1: "parse_qsl qs = ?nvs" unfolding qs by (simp only:) (rule parse_qsl_pairs; simp)
  have "ps' = map (\<lambda>p. quote ''-_.~'' (fst p) @ ''='' @ quote ''-_.~'' (snd p)) ?nvs"
    using quoted_pairs_Inr [OF ps'] by simp
  then have "parse_qsl (str_join ''&'' ps') = ?nvs" by (simp only:) (rule parse_qsl_pairs; simp)
  with 1 ps' show ?thesis by (simp add: s3_canonical_query_string_def)
qed

theorem query_string_roundtrip_witness:
  "\<exists>qs. query_string (http_request_init ''GET'' ''https'' ''h'' (PortNum 443) ''/'' None [(''b&'', ''1 2''), (''a'', [])] [] []) = Inr qs
    \<and> parse_qsl qs = [(''a'', []), (''b&'', ''1 2'')]"
proof -
  let ?r = "http_request_init ''GET'' ''https'' ''h'' (PortNum 443) ''/'' None [(''b&'', ''1 2''), (''a'', [])] [] []"
  have names: "param_names ?r = [''a'', ''b&'']" and params: "req_params ?r = [(''b&'', ''1 2''), (''a'', [])]"
    by (simp_all add: v4_eval char_eval)
  have "\<exists>qs. query_string ?r = Inr qs"
    by (simp add: query_string_def names params get_utf8able_str_def in_range_def)
  then obtain qs where "query_string ?r = Inr qs" by blast
  from query_string_roundtrip [OF this] this show ?thesis by (simp add: names params)
qed

section \<open>The region of an S3 host\<close>

lemma s3_loop_skip:
  "str_lower x \<noteq> ''s3'' \<Longrightarrow> \<not> str_startswith (str_lower x) ''s3-'' \<Longrightarrow>
     s3_region_loop parts n (x # xs) = s3_region_loop parts (Suc n) xs"
  by (simp add: Let_def)

lemma s3_loop_named:
  "s3_region_loop parts n ((''s3-'' @ reg) # xs) = Inr (str_lower reg)"
  by (simp add: Let_def clean_region_name_def str_startswith_def str_lower_def lower_char_def)

lemma s3_loop_bare:
  "0 < n \<Longrightarrow> s3_region_loop parts n (''s3'' # xs)
     = Inr (if parts ! (length parts - n) = ''amazonaws'' then ''us-east-1'' else parts ! (length parts - n))"
  by (simp add: Let_def str_lower_def lower_char_def)

lemma s3_region_parts:
  "v_region v = None \<Longrightarrow> str_split CHR ''.'' h = parts \<Longrightarrow> length parts \<noteq> 3 \<Longrightarrow>
     s3_region_name v h = s3_region_loop parts 0 (rev parts)"
  by (simp add: s3_region_name_def)

lemma plain_labels:
  "str_lower ''com'' \<noteq> ''s3''" "\<not> str_startswith (str_lower ''com'') ''s3-''"
  "str_lower ''cn'' \<noteq> ''s3''" "\<not> str_startswith (str_lower ''cn'') ''s3-''"
  "str_lower ''amazonaws'' \<noteq> ''s3''" "\<not> str_startswith (str_lower ''amazonaws'') ''s3-''"
  by (simp_all add: str_startswith_def str_lower_def lower_char_def)

lemma split_dots:
  "str_split CHR ''.'' ''amazonaws.com'' = [''amazonaws'', ''com'']"
  "str_split CHR ''.'' ''amazonaws.com.cn'' = [''amazonaws'', ''com'', ''cn'']"
  "str_split CHR ''.'' ''s3.amazonaws.com'' = [''s3'', ''amazonaws'', ''com'']"
  by simp_all

lemma split_region:
  assumes "CHR ''.'' \<notin> set reg"
  shows "str_split CHR ''.'' (''s3-'' @ reg @ ''.amazonaws.com'') = [''s3-'' @ reg, ''amazonaws'', ''com'']"
    and "str_split CHR ''.'' (''s3.'' @ reg @ ''.amazonaws.com.cn'') = [''s3'', reg, ''amazonaws'', ''com'', ''cn'']"
proof -
  show "str_split CHR ''.'' (''s3-'' @ reg @ ''.amazonaws.com'') = [''s3-'' @ reg, ''amazonaws'', ''com'']"
    using str_split_append [of "CHR ''.''" "''s3-'' @ reg" "''amazonaws.com''"] assms by (simp add: str_split_no_sep)
  show "str_split CHR ''.'' (''s3.'' @ reg @ ''.amazonaws.com.cn'') = [''s3'', reg, ''amazonaws'', ''com'', ''cn'']"
    using str_split_append [of "CHR ''.''" reg "''amazonaws.com.cn''"] assms by (simp add: str_split_no_sep)
qed

lemma str_split_sep: "str_split c (s @ c # t) = str_split c s @ str_split c t"
proof (induction s)
  case Nil
  then show ?case by simp
next
  case (Cons x s)
  obtain w ws where "str_split c s = w # ws" by (metis neq_Nil_conv str_split_not_Nil)
  with Cons show ?case by (cases "x = c") simp_all
qed

lemma s3_region_vhosted_parts:
  assumes "bs \<noteq> []" "v_region v = None" "str_split CHR ''.'' h = bs @ [''s3'', ''amazonaws'', ''com'']"
  shows "s3_region_name v h = Inr ''us-east-1''"
proof -
  have "s3_region_name v h = s3_region_loop (bs @ [''s3'', ''amazonaws'', ''com'']) 0 (''com'' # ''amazonaws'' # ''s3'' # rev bs)"
    using s3_region_parts [OF assms(2,3)] assms(1) by simp
  then show ?thesis by (simp only: s3_loop_skip plain_labels not_False_eq_True s3_loop_bare zero_less_Suc) (simp add: nth_append)
qed

lemma s3_region_vhosted_named_parts:
  assumes "bs \<noteq> []" "v_region v = None" "str_split CHR ''.'' h = bs @ [''s3-'' @ reg, ''amazonaws'', ''com'']"
  shows "s3_region_name v h = Inr (str_lower reg)"
proof -
  have "s3_region_name v h = s3_region_loop (bs @ [''s3-'' @ reg, ''amazonaws'', ''com'']) 0 (''com'' # ''amazonaws'' # (''s3-'' @ reg) # rev bs)"
    using s3_region_parts [OF assms(2,3)] assms(1) by simp
  then show ?thesis by (simp only: s3_loop_skip plain_labels not_False_eq_True s3_loop_named)
qed

lemma s3_region_cn_parts:
  assumes "v_region v = None" "str_split CHR ''.'' h = bs @ [''s3'', reg, ''amazonaws'', ''com'', ''cn'']"
    and "str_lower reg \<noteq> ''s3''" "\<not> str_startswith (str_lower reg) ''s3-''" "reg \<noteq> ''amazonaws''"
  shows "s3_region_name v h = Inr reg"
proof -
  have "s3_region_name v h = s3_region_loop (bs @ [''s3'', reg, ''amazonaws'', ''com'', ''cn'']) 0
      (''cn'' # ''com'' # ''amazonaws'' # reg # ''s3'' # rev bs)"
    using s3_region_parts [OF assms(1,2)] by simp
  then show ?thesis using assms(3-)
    by (simp only: s3_loop_skip plain_labels not_False_eq_True s3_loop_bare zero_less_Suc) (simp add: nth_append)
qed

text \<open>
  \<open>S3HmacAuthV4Handler.determine_region_name\<close> finds the region in each of the six forms of host that
  its comment lists; the bucket may have dots.
\<close>

theorem s3_region_of_endpoints:
  assumes "v_region v = None" and "CHR ''.'' \<notin> set reg" "str_lower reg = reg"
    and "reg \<noteq> ''s3''" "reg \<noteq> ''amazonaws''" "\<not> str_startswith reg ''s3-''"
  shows "s3_region_name v ''s3.amazonaws.com'' = Inr ''us-east-1''
    \<and> s3_region_name v (''s3-'' @ reg @ ''.amazonaws.com'') = Inr reg
    \<and> s3_region_name v (bucket @ ''.s3.amazonaws.com'') = Inr ''us-east-1''
    \<and> s3_region_name v (bucket @ ''.s3-'' @ reg @ ''.amazonaws.com'') = Inr reg
    \<and> s3_region_name v (''s3.'' @ reg @ ''.amazonaws.com.cn'') = Inr reg
    \<and> s3_region_name v (bucket @ ''.s3.'' @ reg @ ''.amazonaws.com.cn'') = Inr reg"
proof -
  note none = assms(1) and dots = split_region [OF assms(2)]
  note split = str_split_sep [of "CHR ''.''" bucket]
  have 1: "s3_region_name v ''s3.amazonaws.com'' = Inr ''us-east-1''"
    by (simp add: s3_region_name_def none clean_region_name_def str_startswith_def)
  have 2: "s3_region_name v (''s3-'' @ reg @ ''.amazonaws.com'') = Inr reg"
    unfolding s3_region_name_def dots using assms(4) by (simp add: none clean_region_name_def str_startswith_def)
  have 3: "s3_region_name v (bucket @ ''.s3.amazonaws.com'') = Inr ''us-east-1''"
    using split [of "''s3.amazonaws.com''"] unfolding split_dots
    by (intro s3_region_vhosted_parts [OF str_split_not_Nil none]) simp
  have "s3_region_name v (bucket @ ''.s3-'' @ reg @ ''.amazonaws.com'') = Inr (str_lower reg)"
    using split [of "''s3-'' @ reg @ ''.amazonaws.com''"] unfolding dots
    by (intro s3_region_vhosted_named_parts [OF str_split_not_Nil none]) simp
  then have 4: "s3_region_name v (bucket @ ''.s3-'' @ reg @ ''.amazonaws.com'') = Inr reg" by (simp add: assms(3))
  have 5: "s3_region_name v (''s3.'' @ reg @ ''.amazonaws.com.cn'') = Inr reg"
    using dots(2) assms(3-) by (intro s3_region_cn_parts [OF none, where bs = "[]"]) simp_all
  have 6: "s3_region_name v (bucket @ ''.s3.'' @ reg @ ''.amazonaws.com.cn'') = Inr reg"
    using split [of "''s3.'' @ reg @ ''.amazonaws.com.cn''"] unfolding dots using assms(3-)
    by (intro s3_region_cn_parts [OF none, where bs = "str_split CHR ''.'' bucket"]) simp_all
  from 1 2 3 4 5 6 show ?thesis by blast
qed

theorem s3_region_of_endpoints_witness:
  "s3_region_name toy_v4 (''a.b'' @ ''.s3-'' @ ''eu-west-1'' @ ''.amazonaws.com'') = Inr ''eu-west-1''
    \<and> s3_region_name toy_v4 (''a.b'' @ ''.s3.'' @ ''eu-west-1'' @ ''.amazonaws.com.cn'') = Inr ''eu-west-1''"
  using s3_region_of_endpoints [of toy_v4 "''eu-west-1''" "''a.b''"]
  by (simp add: toy_v4_def str_lower_def lower_char_def str_startswith_def)

text \<open>
  Without a region and with a host of other than three labels, none of which is \<open>s3\<close> or starts with
  \<open>s3-\<close> (a local server, say), the loop ends without a region, and the handler reads an unbound variable.
\<close>

theorem s3_region_unbound:
  assumes "v_region v = None" "length (str_split CHR ''.'' h) \<noteq> 3"
    and "\<forall>x \<in> set (str_split CHR ''.'' h). str_lower x \<noteq> ''s3'' \<and> \<not> str_startswith (str_lower x) ''s3-''"
  shows "s3_region_name v h = Inl NameError"
proof -
  have "s3_region_loop parts n xs = Inl NameError"
    if "\<forall>x \<in> set xs. str_lower x \<noteq> ''s3'' \<and> \<not> str_startswith (str_lower x) ''s3-''" for parts n xs
    using that by (induction xs arbitrary: n) (simp_all add: Let_def)
  then show ?thesis using s3_region_parts [OF assms(1) refl assms(2)] assms(3) by simp
qed

theorem s3_region_unbound_witness: "s3_region_name toy_v4 ''localhost'' = Inl NameError"
  by (rule s3_region_unbound) (simp_all add: toy_v4_def str_lower_def lower_char_def str_startswith_def)

section \<open>The order of the canonical headers\<close>

definition canonical_name :: "string \<times> hval \<Rightarrow> string" where
  "canonical_name h = str_strip (str_lower (fst h))"

lemma signed_headers_names: "signed_headers hs = str_join '';'' (sort (map canonical_name hs))"
proof -
  have "map (\<lambda>(n, v). str_strip (str_lower n)) hs = map canonical_name hs"
    by (simp add: canonical_name_def case_prod_beta)
  then show ?thesis by (simp only: signed_headers_def)
qed

lemma canonical_lines_names:
  "canonical_lines hs = Inr ls \<Longrightarrow> \<exists>vs. length vs = length hs \<and> ls = map2 (\<lambda>n v. n @ '':'' @ v) (map canonical_name hs) vs"
proof (induction hs arbitrary: ls)
  case Nil
  then show ?case by simp
next
  case (Cons h hs)
  obtain n x where h: "h = (n, x)" by fastforce
  with Cons.prems obtain s ls' where s: "hval_str x = Inr s" and ls': "canonical_lines hs = Inr ls'"
    and ls: "ls = (str_strip (str_lower n) @ '':'' @
           (if CHR 0x22 \<in> set s then str_strip s else str_join '' '' (str_words (str_strip s)))) # ls'"
    by (auto simp: res_bind_Inr_iff)
  from Cons.IH [OF ls'] obtain vs where "length vs = length hs" "ls' = map2 (\<lambda>n v. n @ '':'' @ v) (map canonical_name hs) vs" by blast
  then show ?case unfolding ls h
    by (intro exI [of _ "(if CHR 0x22 \<in> set s then str_strip s else str_join '' '' (str_words (str_strip s))) # vs"])
      (simp add: canonical_name_def [abs_def])
qed

lemma lexorder_no_prefix:
  fixes a b :: string
  assumes "\<not> prefix a b" "\<not> prefix b a"
  shows "a @ x \<le> b @ y \<longleftrightarrow> a \<le> b"
  using assms
proof (induction a arbitrary: b)
  case Nil
  then show ?case by simp
next
  case (Cons c a)
  then obtain d b' where "b = d # b'" by (cases b) auto
  with Cons show ?case by (cases "c = d") auto
qed

lemma sort_lines:
  fixes names :: "string list"
  assumes "distinct names" "length vs = length names"
    and "\<And>a b. a \<in> set names \<Longrightarrow> b \<in> set names \<Longrightarrow> prefix a b \<Longrightarrow> a = b"
  shows "sort (map2 (\<lambda>n v. n @ '':'' @ v) names vs) = map (\<lambda>(n, v). n @ '':'' @ v) (sort_key fst (zip names vs))"
proof (rule properties_for_sort)
  show "mset (map (\<lambda>(n, v). n @ '':'' @ v) (sort_key fst (zip names vs))) = mset (map2 (\<lambda>n v. n @ '':'' @ v) names vs)"
    by simp
  let ?s = "sort_key fst (zip names vs)"
  have "sorted (map fst ?s)" by simp
  moreover have "set ?s = set (zip names vs)" by simp
  ultimately have "sorted_wrt (\<lambda>p q. (\<lambda>(n, v). n @ '':'' @ v) p \<le> (\<lambda>(n, v). n @ '':'' @ v) q) ?s"
  proof -
    assume s: "sorted (map fst ?s)" and set: "set ?s = set (zip names vs)"
    have d: "distinct (map fst (zip names vs))" using assms(1,2) by simp
    from s have "sorted_wrt (\<lambda>p q. fst p \<le> fst q) ?s" by (simp add: sorted_map)
    then show ?thesis
    proof (rule sorted_wrt_mono_rel [rotated])
      fix p q assume pq: "p \<in> set ?s" "q \<in> set ?s" "fst p \<le> fst q"
      then have in_zip: "p \<in> set (zip names vs)" "q \<in> set (zip names vs)" by (simp_all only: set)
      have fst_in: "fst h \<in> set names" if "h \<in> set (zip names vs)" for h
        using that set_zip_leftD [of "fst h" "snd h"] by simp
      have names: "fst p \<in> set names" "fst q \<in> set names" by (rule fst_in [OF in_zip(1)], rule fst_in [OF in_zip(2)])
      show "(case p of (n, v) \<Rightarrow> n @ '':'' @ v) \<le> (case q of (n, v) \<Rightarrow> n @ '':'' @ v)"
      proof (cases "fst p = fst q")
        case True
        have "inj_on fst (set (zip names vs))" using d by (simp add: distinct_map)
        from inj_onD [OF this True in_zip] have "p = q" .
        then show ?thesis by simp
      next
        case False
        then have "\<not> prefix (fst p) (fst q)" "\<not> prefix (fst q) (fst p)" using assms(3) names by metis+
        then show ?thesis using pq(3) by (simp add: case_prod_beta lexorder_no_prefix)
      qed
    qed
  qed
  then show "sorted (map (\<lambda>(n, v). n @ '':'' @ v) ?s)" by (simp add: sorted_map)
qed

text \<open>
  The canonical headers are ordered as the list of signed headers is, by name, when no signed name is a
  proper prefix of another.
\<close>

theorem canonical_headers_by_name:
  assumes "canonical_headers hs = Inr ch" and "distinct (map canonical_name hs)"
    and "\<And>h h'. h \<in> set hs \<Longrightarrow> h' \<in> set hs \<Longrightarrow> prefix (canonical_name h) (canonical_name h') \<Longrightarrow> canonical_name h = canonical_name h'"
  shows "\<exists>nvs. ch = str_join [CHR 0x0A] (map (\<lambda>(n, v). n @ '':'' @ v) nvs) \<and> signed_headers hs = str_join '';'' (map fst nvs)
    \<and> set (map fst nvs) = canonical_name ` set hs \<and> sorted (map fst nvs)"
proof -
  obtain ls where ls: "canonical_lines hs = Inr ls" and ch: "ch = str_join [CHR 0x0A] (sort ls)"
    using assms(1) by (auto simp: canonical_headers_def res_bind_Inr_iff)
  obtain vs where vs: "length vs = length hs" "ls = map2 (\<lambda>n v. n @ '':'' @ v) (map canonical_name hs) vs"
    using canonical_lines_names [OF ls] by blast
  let ?nvs = "sort_key fst (zip (map canonical_name hs) vs)"
  have lines: "sort ls = map (\<lambda>(n, v). n @ '':'' @ v) ?nvs"
    unfolding vs(2) using assms(2,3) vs(1) by (intro sort_lines) auto
  have "mset (map fst ?nvs) = mset (map fst (zip (map canonical_name hs) vs))" unfolding mset_map by simp
  also have "map fst (zip (map canonical_name hs) vs) = map canonical_name hs" using vs(1) by simp
  finally have "mset (map fst ?nvs) = mset (map canonical_name hs)" .
  then have names: "sort (map canonical_name hs) = map fst ?nvs" by (rule properties_for_sort) simp
  have "set (map fst ?nvs) = canonical_name ` set hs" unfolding names [symmetric] by simp
  then show ?thesis unfolding ch lines signed_headers_names names by (intro exI [of _ ?nvs]) simp
qed

theorem canonical_headers_by_name_witness:
  "\<exists>ch nvs. canonical_headers [(''x-amz-date'', HStr ''t''), (''Host'', HStr ''h'')] = Inr ch
    \<and> ch = str_join [CHR 0x0A] (map (\<lambda>(n, v). n @ '':'' @ v) nvs) \<and> sorted (map fst nvs)"
proof -
  let ?hs = "[(''x-amz-date'', HStr ''t''), (''Host'', HStr ''h'')]"
  have names: "map canonical_name ?hs = [''x-amz-date'', ''host'']"
    by (simp add: canonical_name_def v4_eval char_eval)
  then have set: "canonical_name ` set ?hs = {''x-amz-date'', ''host''}" by simp
  have "\<exists>ch. canonical_headers ?hs = Inr ch" by (simp add: v4_eval char_eval)
  then obtain ch where ch: "canonical_headers ?hs = Inr ch" by blast
  have "distinct (map canonical_name ?hs)" unfolding names by simp
  moreover have "canonical_name h = canonical_name h'"
    if "h \<in> set ?hs" "h' \<in> set ?hs" "prefix (canonical_name h) (canonical_name h')" for h h'
  proof -
    have "canonical_name h \<in> {''x-amz-date'', ''host''}" "canonical_name h' \<in> {''x-amz-date'', ''host''}"
      using that set by blast+
    then show ?thesis using that(3) by auto
  qed
  ultimately show ?thesis using canonical_headers_by_name [OF ch] ch by blast
qed

text \<open>
  Otherwise the orders differ: the lines are sorted with their values, and \<open>-\<close> comes before \<open>:\<close>.
\<close>

lemma canonical_headers_out_of_order:
  "canonical_headers [(''x-amz-copy-source'', HStr ''s''), (''x-amz-copy-source-range'', HStr ''r'')]
     = Inr (''x-amz-copy-source-range:r'' @ [CHR 0x0A] @ ''x-amz-copy-source:s'')
   \<and> signed_headers [(''x-amz-copy-source'', HStr ''s''), (''x-amz-copy-source-range'', HStr ''r'')]
     = ''x-amz-copy-source;x-amz-copy-source-range''"
  by (simp add: v4_eval char_eval)

end
