(* ===== verification/Auth_Query.thy ===== *)
theory Auth_Query
  imports Auth_V4
begin

text \<open>
  The handlers of \<^verbatim>\<open>boto/auth.py\<close> that put the signature into the query: \<open>QuerySignatureHelper\<close> with the
  versions 0, 1 and 2, the variant for MWS, and the anonymous handler of STS.  \<open>ts\<close> is what
  \<open>boto.utils.get_ts()\<close> returns.  The parameter \<open>SignatureVersion\<close>, a number that is only ever
  written, is its decimal string.
\<close>

section \<open>The anonymous handler of STS\<close>

text \<open>\<open>get_utf8able_str\<close> of each value, for the keys without regard to case.\<close>

definition lower_keys :: "(string, string) dict \<Rightarrow> string list" where
  "lower_keys d = sort_key str_lower (map fst d)"

fun plain_pairs :: "(string, string) dict \<Rightarrow> string list \<Rightarrow> string list res" where
  "plain_pairs d [] = Inr []"
| "plain_pairs d (n # names) =
     res_bind (get_utf8able_str (the (map_of d n))) (\<lambda>x. res_bind (plain_pairs d names) (\<lambda>ps.
       Inr ((n @ ''='' @ quote ''/'' x) # ps)))"

definition sts_build_query_string :: "(string, string) dict \<Rightarrow> string res" where
  "sts_build_query_string d = res_bind (plain_pairs d (lower_keys d)) (\<lambda>ps. Inr (str_join ''&'' ps))"

definition sts_add_auth :: "request \<Rightarrow> request res" where
  "sts_add_auth r =
     res_bind (sts_build_query_string (req_params r)) (\<lambda>qs.
       Inr ((set_header ''Content-Type'' ''application/x-www-form-urlencoded'' r)\<lparr>req_body := qs\<rparr>))"

section \<open>The signatures\<close>

definition set_param :: "string \<Rightarrow> string \<Rightarrow> request \<Rightarrow> request" where
  "set_param k x r = r\<lparr>req_params := AList.update k x (req_params r)\<rparr>"

text \<open>A signature takes the parameters, the method, the path and the host, and may add parameters.\<close>

type_synonym calc_signature =
  "crypto \<Rightarrow> hmac_keys \<Rightarrow> (string, string) dict \<Rightarrow> string \<Rightarrow> string \<Rightarrow> string \<Rightarrow> ((string, string) dict \<times> string \<times> string) res"

definition param :: "(string, string) dict \<Rightarrow> string \<Rightarrow> string res" where
  "param d k = (case map_of d k of None \<Rightarrow> Inl KeyError | Some x \<Rightarrow> Inr x)"

definition calc_signature_0 :: calc_signature where
  "calc_signature_0 C k d method path server =
     res_bind (get_hmac C k) (\<lambda>h. res_bind (param d ''Action'') (\<lambda>a. res_bind (param d ''Timestamp'') (\<lambda>t.
     res_bind (py2_encode (a @ t)) (\<lambda>m. res_bind (plain_pairs d (lower_keys d)) (\<lambda>ps.
       Inr (d, str_join ''&'' ps, b64encode (h m)))))))"

text \<open>Version 1 feeds the hash with names and values; the value is encoded again.\<close>

fun v1_pairs :: "(string, string) dict \<Rightarrow> string list \<Rightarrow> (string list \<times> string) res" where
  "v1_pairs d [] = Inr ([], [])"
| "v1_pairs d (n # names) =
     res_bind (py2_encode n) (\<lambda>n'. res_bind (get_utf8able_str (the (map_of d n))) (\<lambda>x. res_bind (py2_encode x) (\<lambda>x.
     res_bind (v1_pairs d names) (\<lambda>(ps, m). Inr ((n @ ''='' @ quote ''/'' x) # ps, n' @ x @ m)))))"

definition calc_signature_1 :: calc_signature where
  "calc_signature_1 C k d method path server =
     res_bind (get_hmac C k) (\<lambda>h. res_bind (v1_pairs d (lower_keys d)) (\<lambda>(ps, m).
       Inr (d, str_join ''&'' ps, b64encode (h m))))"

fun v2_pairs :: "(string, string) dict \<Rightarrow> string list \<Rightarrow> string list res" where
  "v2_pairs d [] = Inr []"
| "v2_pairs d (n # names) =
     res_bind (get_utf8able_str (the (map_of d n))) (\<lambda>x. res_bind (py2_encode x) (\<lambda>x. res_bind (v2_pairs d names) (\<lambda>ps.
       Inr ((quote [] n @ ''='' @ quote ''-_~'' x) # ps))))"

definition v2_params :: "hmac_keys \<Rightarrow> (string, string) dict \<Rightarrow> (string, string) dict" where
  "v2_params k d =
     (let d = AList.update ''SignatureMethod'' (algorithm k) d
      in if str_true (security_token (k_provider k)) then AList.update ''SecurityToken'' (the (security_token (k_provider k))) d else d)"

definition v2_to_sign :: "string \<Rightarrow> string \<Rightarrow> string \<Rightarrow> string \<Rightarrow> string" where
  "v2_to_sign method server path qs = str_join [CHR 0x0A] [method, str_lower server, path, qs]"

definition calc_signature_2 :: calc_signature where
  "calc_signature_2 C k d method path server =
     res_bind (get_hmac C k) (\<lambda>h.
       let d = v2_params k d
       in res_bind (v2_pairs d (sort (map fst d))) (\<lambda>ps.
          let qs = str_join ''&'' ps
          in res_bind (py2_encode (v2_to_sign method server path qs)) (\<lambda>m. Inr (d, qs, b64encode (h m)))))"

section \<open>Adding the signature\<close>

definition query_prepare :: "hmac_keys \<Rightarrow> string \<Rightarrow> string \<Rightarrow> request \<Rightarrow> request" where
  "query_prepare k version ts r =
     set_param ''Timestamp'' ts (set_param ''SignatureVersion'' version (set_param ''AWSAccessKeyId'' (access_key (k_provider k)) r))"

definition signed_query :: "string \<Rightarrow> string \<Rightarrow> string" where
  "signed_query qs sig = qs @ ''&Signature='' @ quote_plus sig"

definition strip_query :: "string \<Rightarrow> string" where
  "strip_query path = str_split CHR ''?'' path ! 0"

definition query_finish :: "string \<Rightarrow> string \<Rightarrow> request \<Rightarrow> request" where
  "query_finish qs sig r =
     (if req_method r = ''POST''
      then set_header ''Content-Length'' (nat_str (length (signed_query qs sig)))
             ((set_header ''Content-Type'' ''application/x-www-form-urlencoded; charset=UTF-8'' r)\<lparr>req_body := signed_query qs sig\<rparr>)
      else r\<lparr>req_body := [], req_path := strip_query (req_path r) @ ''?'' @ signed_query qs sig\<rparr>)"

definition query_add_auth :: "crypto \<Rightarrow> calc_signature \<Rightarrow> hmac_keys \<Rightarrow> string \<Rightarrow> string \<Rightarrow> request \<Rightarrow> request res" where
  "query_add_auth C calc k version ts r =
     (let r = query_prepare k version ts r
      in res_bind (calc C k (req_params r) (req_method r) (req_auth_path r) (req_host r)) (\<lambda>(d, qs, sig).
           Inr (query_finish qs sig (r\<lparr>req_params := d\<rparr>))))"

text \<open>\<open>POSTPathQSV2AuthHandler\<close>: the query always goes to the path.\<close>

definition mws_finish :: "string \<Rightarrow> string \<Rightarrow> request \<Rightarrow> request" where
  "mws_finish qs sig r =
     (let r = (if req_method r = ''POST''
               then let r = set_header ''Content-Length'' (nat_str (length (req_body r))) r
                    in r\<lparr>req_headers := set_default ''Content-Type'' (HStr ''text/plain'') (req_headers r)\<rparr>
               else r\<lparr>req_body := []\<rparr>)
      in r\<lparr>req_path := strip_query (req_path r) @ ''?'' @ signed_query qs sig\<rparr>)"

definition mws_add_auth :: "crypto \<Rightarrow> hmac_keys \<Rightarrow> string \<Rightarrow> request \<Rightarrow> request res" where
  "mws_add_auth C k ts r =
     (let r = query_prepare k ''2'' ts r
      in res_bind (calc_signature_2 C k (req_params r) (req_method r) (req_auth_path r) (req_host r)) (\<lambda>(d, qs, sig).
           Inr (mws_finish qs sig (r\<lparr>req_params := d\<rparr>))))"

section \<open>Lemmas\<close>

lemma py2_encode_Inr: "py2_encode s = Inr m \<longleftrightarrow> is_ascii s \<and> m = s"
  by (auto simp: py2_encode_def is_ascii_def)

lemma get_utf8able_Inr: "get_utf8able_str s = Inr m \<longleftrightarrow> utf8_valid s \<and> m = s"
  by (auto simp: get_utf8able_str_def)

lemma v2_pairs_Inr:
  "v2_pairs d names = Inr ps \<Longrightarrow>
     ps = map (\<lambda>n. quote [] n @ ''='' @ quote ''-_~'' (the (map_of d n))) names \<and> (\<forall>n \<in> set names. is_ascii (the (map_of d n)))"
  by (induction names arbitrary: ps) (auto simp: res_bind_Inr_iff py2_encode_Inr get_utf8able_Inr)

lemma set_param_simps [simp]:
  "req_params (set_param k x r) = AList.update k x (req_params r)" "req_method (set_param k x r) = req_method r"
  "req_path (set_param k x r) = req_path r" "req_auth_path (set_param k x r) = req_auth_path r"
  "req_host (set_param k x r) = req_host r" "req_headers (set_param k x r) = req_headers r"
  by (simp_all add: set_param_def)

lemma v2_pairs_Inr_encoded:
  "v2_pairs d names = Inr ps \<Longrightarrow>
     ps = map (\<lambda>p. fst p @ ''='' @ snd p) (map (\<lambda>n. (quote [] n, quote ''-_~'' (the (map_of d n)))) names)"
  using v2_pairs_Inr [of d names ps] by simp

lemma unquote_plus_quote_plus: "unquote_plus (quote_plus s) = s"
proof -
  have "CHR ''+'' \<notin> set (quote '' '' s)" by (rule quote_avoids) simp_all
  then have "replace_char CHR ''+'' CHR '' '' (quote_plus s) = quote '' '' s"
    by (auto simp: quote_plus_def replace_char_def intro!: map_idI)
  then show ?thesis by (simp add: unquote_plus_def unquote_quote)
qed

lemma quote_plus_avoids: "set (quote_plus s) \<inter> set ''&;'' = {}"
proof -
  have "c \<notin> set (quote '' '' s)" if "c \<in> set ''&;''" for c
    using that by (intro quote_avoids) auto
  then show ?thesis by (fastforce simp: quote_plus_def replace_char_def split: if_splits)
qed

lemma str_join_snoc: "ws \<noteq> [] \<Longrightarrow> str_join sep (ws @ [w]) = str_join sep ws @ sep @ w"
proof (induction ws)
  case Nil
  then show ?case by simp
next
  case (Cons x ws)
  then show ?case by (cases "ws = []") (simp_all add: str_join_Cons)
qed

lemma parse_signed_query:
  assumes "v2_pairs d names = Inr ps" "names \<noteq> []"
  shows "parse_qsl (signed_query (str_join ''&'' ps) sig) = map (\<lambda>n. (n, the (map_of d n))) names @ [(''Signature'', sig)]"
proof -
  let ?encs = "map (\<lambda>n. (quote [] n, quote ''-_~'' (the (map_of d n)))) names @ [(''Signature'', quote_plus sig)]"
  have ps: "ps = map (\<lambda>p. fst p @ ''='' @ snd p) (map (\<lambda>n. (quote [] n, quote ''-_~'' (the (map_of d n)))) names)"
    by (rule v2_pairs_Inr_encoded [OF assms(1)])
  then have "ps \<noteq> []" using assms(2) by simp
  then have 1: "signed_query (str_join ''&'' ps) sig = str_join ''&'' (ps @ [''Signature='' @ quote_plus sig])"
    by (simp add: signed_query_def str_join_snoc)
  have 2: "ps @ [''Signature='' @ quote_plus sig] = map (\<lambda>p. fst p @ ''='' @ snd p) ?encs"
    unfolding ps by simp
  have 3: "parse_qsl (str_join ''&'' (map (\<lambda>p. fst p @ ''='' @ snd p) ?encs)) = map (\<lambda>p. (unquote_plus (fst p), unquote_plus (snd p))) ?encs"
  proof (rule parse_qsl_encoded)
    fix p assume "p \<in> set ?encs"
    then consider n where "p = (quote [] n, quote ''-_~'' (the (map_of d n)))" | "p = (''Signature'', quote_plus sig)"
      by auto
    then show "set (fst p @ snd p) \<inter> set ''&;'' = {} \<and> CHR ''='' \<notin> set (fst p)"
    proof cases
      case 1
      have "set (fst p) \<inter> set ''&;='' = {}" "set (snd p) \<inter> set ''&;='' = {}"
        unfolding 1 fst_conv snd_conv by (rule quoted_avoids(1); simp)+
      then show ?thesis by auto
    next
      case 2
      then show ?thesis using quote_plus_avoids [of sig] by auto
    qed
  qed
  have 4: "map (\<lambda>p. (unquote_plus (fst p), unquote_plus (snd p))) ?encs = map (\<lambda>n. (n, the (map_of d n))) names @ [(''Signature'', sig)]"
  proof -
    have "unquote_plus (quote [] n) = n" "unquote_plus (quote ''-_~'' n) = n" for n
      by (rule quoted_avoids(2); simp)+
    moreover have "unquote_plus ''Signature'' = ''Signature''" by (simp add: unquote_plus_def replace_char_def)
    ultimately show ?thesis by (simp add: comp_def unquote_plus_quote_plus)
  qed
  show ?thesis unfolding 1 2 3 4 ..
qed

subsection \<open>Adding a signature again\<close>

definition prepare_params :: "hmac_keys \<Rightarrow> string \<Rightarrow> string \<Rightarrow> (string, string) dict \<Rightarrow> (string, string) dict" where
  "prepare_params k version ts d =
     AList.update ''Timestamp'' ts (AList.update ''SignatureVersion'' version (AList.update ''AWSAccessKeyId'' (access_key (k_provider k)) d))"

lemma query_prepare_params: "query_prepare k version ts r = r\<lparr>req_params := prepare_params k version ts (req_params r)\<rparr>"
  by (simp add: query_prepare_def prepare_params_def set_param_def)

lemma update_time:
  "map_of d ''Timestamp'' \<noteq> None \<Longrightarrow> k \<noteq> ''Timestamp'' \<Longrightarrow>
     AList.update ''Timestamp'' t (AList.update k x d) = AList.update k x (AList.update ''Timestamp'' t d)"
  unfolding dom_map_of by (rule update_commute) auto

lemma prepare_params_again:
  "prepare_params k version ts' (v2_params k (prepare_params k version ts d)) = v2_params k (prepare_params k version ts' d)"
proof -
  let ?d = "prepare_params k version ts d" and ?v = "v2_params k (prepare_params k version ts d)"
  have time: "map_of ?d ''Timestamp'' \<noteq> None" and key: "map_of ?v ''AWSAccessKeyId'' = Some (access_key (k_provider k))"
    "map_of ?v ''SignatureVersion'' = Some version"
    by (simp_all add: prepare_params_def v2_params_def update_conv' Let_def)
  have "prepare_params k version ts' ?v = AList.update ''Timestamp'' ts' ?v"
    by (simp add: prepare_params_def [of _ _ ts'] update_same key)
  also have "\<dots> = v2_params k (AList.update ''Timestamp'' ts' ?d)"
    using time by (simp add: v2_params_def update_time update_conv' Let_def)
  also have "AList.update ''Timestamp'' ts' ?d = prepare_params k version ts' d"
    by (simp add: prepare_params_def update_idem)
  finally show ?thesis .
qed

lemma v2_params_again: "v2_params k (v2_params k d) = v2_params k d"
  by (simp add: v2_params_def update_same update_conv' Let_def)

lemma strip_query_again: "strip_query (strip_query p @ ''?'' @ q) = strip_query p"
  using split_head_idem [of "CHR ''?''" p q] split_head_idem [of "CHR ''?''" p "''x''"]
  by (cases "q = []") (simp_all add: strip_query_def str_split_sep nth_append)

lemma finish_params: "(query_finish q s x)\<lparr>req_params := d\<rparr> = query_finish q s (x\<lparr>req_params := d\<rparr>)"
  by (simp add: query_finish_def set_header_def)

lemma query_finish_simps [simp]:
  "req_params (query_finish q s x) = req_params x" "req_method (query_finish q s x) = req_method x"
  "req_auth_path (query_finish q s x) = req_auth_path x" "req_host (query_finish q s x) = req_host x"
  by (simp_all add: query_finish_def)

lemma finish_again: "query_finish q2 s2 (query_finish q1 s1 r) = query_finish q2 s2 r"
proof (cases "req_method r = ''POST''")
  case True
  then show ?thesis
    by (simp add: query_finish_def set_header_commute_body set_header_same update_conv' set_header_twice)
next
  case False
  then show ?thesis by (simp add: query_finish_def strip_query_again [simplified])
qed

lemma v2_calc_Inr:
  assumes "calc_signature_2 C k d method path server = Inr (d', qs, sig)"
  shows "\<exists>h ps. d' = v2_params k d \<and> get_hmac C k = Inr h \<and> v2_pairs d' (sort (map fst d')) = Inr ps
    \<and> qs = str_join ''&'' ps \<and> sig = b64encode (h (v2_to_sign method server path qs))"
  using assms by (auto simp: calc_signature_2_def Let_def res_bind_Inr_iff py2_encode_Inr)

lemma calc_2_again: "calc_signature_2 C k (v2_params k d) = calc_signature_2 C k d"
  by (intro ext) (simp add: calc_signature_2_def v2_params_again)

text \<open>
  C32: A request signed by version 2 carries a query that parses back to all its parameters, in the order of
  their names, and the signature; the signature is the one of the method, the host in lower case, the path
  and the query before \<open>&Signature=\<close>.  Signing a signed request again, later, gives what signing the
  unsigned one then would give.
\<close>

theorem v2_signature_verifies:
  assumes "query_add_auth C calc_signature_2 k ''2'' ts r = Inr r'"
  shows "(\<exists>h qs sig. get_hmac C k = Inr h
      \<and> sig = b64encode (h (v2_to_sign (req_method r') (req_host r') (req_auth_path r') qs))
      \<and> (if req_method r = ''POST'' then req_body r' = signed_query qs sig
         else req_path r' = strip_query (req_path r) @ ''?'' @ signed_query qs sig)
      \<and> parse_qsl (signed_query qs sig)
          = map (\<lambda>n. (n, the (map_of (req_params r') n))) (sort (map fst (req_params r'))) @ [(''Signature'', sig)])
    \<and> query_add_auth C calc_signature_2 k ''2'' ts' r' = query_add_auth C calc_signature_2 k ''2'' ts' r"
proof -
  let ?d = "\<lambda>t. prepare_params k ''2'' t (req_params r)"
  obtain d qs sig where calc: "calc_signature_2 C k (?d ts) (req_method r) (req_auth_path r) (req_host r) = Inr (d, qs, sig)"
    and r': "r' = query_finish qs sig (r\<lparr>req_params := d\<rparr>)"
    using assms by (auto simp: query_add_auth_def query_prepare_params res_bind_Inr_iff)
  obtain h ps where d: "d = v2_params k (?d ts)" and h: "get_hmac C k = Inr h"
    and ps: "v2_pairs d (sort (map fst d)) = Inr ps" and qs: "qs = str_join ''&'' ps"
    and sig: "sig = b64encode (h (v2_to_sign (req_method r) (req_host r) (req_auth_path r) qs))"
    using v2_calc_Inr [OF calc] by blast
  have same: "req_params r' = d" "req_method r' = req_method r" "req_auth_path r' = req_auth_path r" "req_host r' = req_host r"
    by (simp_all add: r' query_finish_def)
  have "map_of d ''Timestamp'' \<noteq> None" by (simp add: d v2_params_def prepare_params_def update_conv' Let_def)
  then have "sort (map fst d) \<noteq> []" by (cases d) auto
  then have parse: "parse_qsl (signed_query qs sig) = map (\<lambda>n. (n, the (map_of d n))) (sort (map fst d)) @ [(''Signature'', sig)]"
    unfolding qs by (rule parse_signed_query [OF ps])
  have sent: "if req_method r = ''POST'' then req_body r' = signed_query qs sig
      else req_path r' = strip_query (req_path r) @ ''?'' @ signed_query qs sig"
    by (simp add: r' query_finish_def)
  have again: "prepare_params k ''2'' ts' d = v2_params k (?d ts')" unfolding d by (rule prepare_params_again)
  have "query_add_auth C calc_signature_2 k ''2'' ts' r' = query_add_auth C calc_signature_2 k ''2'' ts' r"
    unfolding query_add_auth_def Let_def query_prepare_params
    by (simp add: same again calc_2_again r' finish_params finish_again)
  with h sig sent parse show ?thesis unfolding same by blast
qed

text \<open>
  A parameter that is valid UTF-8 but not ASCII cannot be signed by version 2: the bytes that
  \<open>get_utf8able_str\<close> accepts are encoded once more, which under Python 2 decodes them as ASCII.
\<close>

theorem v2_needs_ascii_values:
  assumes "n \<in> fst ` set (req_params r)" "\<not> is_ascii (the (map_of (req_params r) n))"
    and "n \<notin> set [''Timestamp'', ''SignatureVersion'', ''AWSAccessKeyId'', ''SignatureMethod'', ''SecurityToken'']"
  shows "\<exists>e. query_add_auth C calc_signature_2 k ''2'' ts r = Inl e"
proof (cases "query_add_auth C calc_signature_2 k ''2'' ts r")
  case (Inr r')
  let ?d = "v2_params k (prepare_params k ''2'' ts (req_params r))"
  obtain qs sig where "calc_signature_2 C k (prepare_params k ''2'' ts (req_params r)) (req_method r) (req_auth_path r) (req_host r) = Inr (?d, qs, sig)"
    using Inr v2_calc_Inr by (auto simp: query_add_auth_def query_prepare_params res_bind_Inr_iff)
  from v2_calc_Inr [OF this] obtain ps where ps: "v2_pairs ?d (sort (map fst ?d)) = Inr ps" by blast
  have same: "map_of ?d n = map_of (req_params r) n"
    using assms(3) by (simp add: v2_params_def prepare_params_def update_conv' Let_def)
  have "map_of ?d n \<noteq> None" unfolding same dom_map_of by (rule assms(1))
  then have "n \<in> set (sort (map fst ?d))" using dom_map_of [of ?d n] by simp
  with v2_pairs_Inr [OF ps] have "is_ascii (the (map_of ?d n))" by blast
  with same assms(2) show ?thesis by simp
qed blast

theorem v2_needs_ascii_values_witness:
  "\<exists>e. query_add_auth toy_crypto calc_signature_2 toy_keys ''2'' ''t''
     (http_request_init ''GET'' ''https'' ''h'' (PortNum 443) ''/'' None [(''Name'', [CHR 0xC3, CHR 0xA9])] [] []) = Inl e
   \<and> get_utf8able_str [CHR 0xC3, CHR 0xA9] = Inr [CHR 0xC3, CHR 0xA9]"
proof -
  have "get_utf8able_str [CHR 0xC3, CHR 0xA9] = Inr [CHR 0xC3, CHR 0xA9]" by (simp add: get_utf8able_str_def in_range_def)
  moreover have "\<exists>e. query_add_auth toy_crypto calc_signature_2 toy_keys ''2'' ''t''
     (http_request_init ''GET'' ''https'' ''h'' (PortNum 443) ''/'' None [(''Name'', [CHR 0xC3, CHR 0xA9])] [] []) = Inl e"
    by (rule v2_needs_ascii_values [of "''Name''"]) (simp_all add: http_request_init_def is_ascii_def)
  ultimately show ?thesis by blast
qed

text \<open>The version for MWS signs alike and keeps the body of a \<open>POST\<close>.\<close>

lemma mws_signed:
  assumes "mws_add_auth C k ts r = Inr r'"
  shows "\<exists>h qs. get_hmac C k = Inr h
      \<and> req_path r' = strip_query (req_path r) @ ''?'' @ signed_query qs (b64encode (h (v2_to_sign (req_method r') (req_host r') (req_auth_path r') qs)))
      \<and> req_body r' = (if req_method r = ''POST'' then req_body r else [])"
  using assms v2_calc_Inr
  by (fastforce simp: mws_add_auth_def query_prepare_params res_bind_Inr_iff mws_finish_def Let_def)

text \<open>
  Version 1 signs names and values without separators, so different parameters can have one signature.
\<close>

lemma v1_pairs_message:
  "v1_pairs d names = Inr (ps, m) \<Longrightarrow> m = concat (map (\<lambda>n. n @ the (map_of d n)) names)"
  by (induction names arbitrary: ps m) (auto simp: res_bind_Inr_iff py2_encode_Inr get_utf8able_Inr)

definition one_param :: "string \<Rightarrow> string \<Rightarrow> request" where
  "one_param n x = http_request_init ''GET'' ''https'' ''h'' (PortNum 443) ''/'' None [(n, x)] [] []"

lemma v1_query_signed:
  assumes "query_add_auth C calc_signature_1 k ''1'' ts (one_param n x) = Inr r'" and "n \<in> {''a'', ''ab''}"
  shows "\<exists>h qs. get_hmac C k = Inr h \<and> req_path r' = ''/?'' @ signed_query qs (b64encode (h
      (n @ x @ ''AWSAccessKeyId'' @ access_key (k_provider k) @ ''SignatureVersion'' @ ''1'' @ ''Timestamp'' @ ts)))"
proof -
  let ?d = "[(n, x), (''AWSAccessKeyId'', access_key (k_provider k)), (''SignatureVersion'', ''1''), (''Timestamp'', ts)]"
  have d: "prepare_params k ''1'' ts [(n, x)] = ?d"
    using assms(2) by (auto simp: prepare_params_def)
  have keys: "lower_keys ?d = [n, ''AWSAccessKeyId'', ''SignatureVersion'', ''Timestamp'']"
    using assms(2) by (auto simp: lower_keys_def v4_eval char_eval)
  obtain h ps m where h: "get_hmac C k = Inr h" and p: "v1_pairs ?d (lower_keys ?d) = Inr (ps, m)"
    and r: "r' = query_finish (str_join ''&'' ps) (b64encode (h m)) ((one_param n x)\<lparr>req_params := ?d\<rparr>)"
    using assms(1) by (auto simp: query_add_auth_def query_prepare_params res_bind_Inr_iff calc_signature_1_def
        one_param_def http_request_init_def d)
  have "m = n @ x @ ''AWSAccessKeyId'' @ access_key (k_provider k) @ ''SignatureVersion'' @ ''1'' @ ''Timestamp'' @ ts"
    unfolding v1_pairs_message [OF p] keys using assms(2) by auto
  then show ?thesis using h
    by (intro exI [of _ h] exI [of _ "str_join ''&'' ps"]) (simp add: r query_finish_def one_param_def http_request_init_def strip_query_def)
qed

lemma v1_signature_ambiguous:
  assumes "query_add_auth C calc_signature_1 k ''1'' ts (one_param ''a'' ''bc'') = Inr r1"
    and "query_add_auth C calc_signature_1 k ''1'' ts (one_param ''ab'' ''c'') = Inr r2"
  shows "\<exists>q1 q2 sig. req_path r1 = ''/?'' @ signed_query q1 sig \<and> req_path r2 = ''/?'' @ signed_query q2 sig"
proof -
  have same: "''a'' @ ''bc'' @ s = ''ab'' @ ''c'' @ s" for s by simp
  obtain h q1 where 1: "get_hmac C k = Inr h" "req_path r1 = ''/?'' @ signed_query q1 (b64encode (h
      (''a'' @ ''bc'' @ ''AWSAccessKeyId'' @ access_key (k_provider k) @ ''SignatureVersion'' @ ''1'' @ ''Timestamp'' @ ts)))"
    using v1_query_signed [OF assms(1)] by blast
  obtain q2 where "req_path r2 = ''/?'' @ signed_query q2 (b64encode (h
      (''ab'' @ ''c'' @ ''AWSAccessKeyId'' @ access_key (k_provider k) @ ''SignatureVersion'' @ ''1'' @ ''Timestamp'' @ ts)))"
    using v1_query_signed [OF assms(2)] 1(1) by auto
  with 1(2) show ?thesis unfolding same by blast
qed

text \<open>Signing succeeds for ASCII parameters and keys.\<close>

theorem v2_signature_verifies_witness:
  "\<exists>r' h qs sig. query_add_auth toy_crypto calc_signature_2 toy_keys ''2'' ''t1''
       (http_request_init ''GET'' ''https'' ''H'' (PortNum 443) ''/'' None [(''Action'', ''Go'')] [] []) = Inr r'
     \<and> get_hmac toy_crypto toy_keys = Inr h \<and> req_path r' = ''/?'' @ signed_query qs sig
     \<and> sig = b64encode (h (v2_to_sign (req_method r') (req_host r') (req_auth_path r') qs))"
proof -
  let ?r = "http_request_init ''GET'' ''https'' ''H'' (PortNum 443) ''/'' None [(''Action'', ''Go'')] [] []"
  have "\<exists>r'. query_add_auth toy_crypto calc_signature_2 toy_keys ''2'' ''t1'' ?r = Inr r'"
    by (simp add: query_add_auth_def query_prepare_params prepare_params_def v2_params_def calc_signature_2_def
        get_hmac_def v4_eval Let_def get_utf8able_str_def algorithm_def v2_to_sign_def)
  then obtain r' where r: "query_add_auth toy_crypto calc_signature_2 toy_keys ''2'' ''t1'' ?r = Inr r'" by blast
  have m: "req_method ?r \<noteq> ''POST''" "strip_query (req_path ?r) = ''/''" by (simp_all add: http_request_init_def strip_query_def)
  from v2_signature_verifies [OF r] r show ?thesis unfolding m(2) using m(1) by fastforce
qed

end
