(* ===== verification/Auth_Detect.thy ===== *)
theory Auth_Detect
  imports Auth_Query
begin

text \<open>
  The decorators of \<^verbatim>\<open>boto/auth.py\<close> that choose signature version 4 from the region or the host:
  \<open>detect_potential_sigv4\<close> and \<open>detect_potential_s3sigv4\<close>.  \<open>env\<close> and \<open>conf\<close> are the values of the
  environment variable and of the option, \<open>default\<close> what the decorated method returns.
\<close>

definition S3_AUTH_DETECT :: "string list" where
  "S3_AUTH_DETECT = [''-ap-northeast-1'', ''.ap-northeast-1'', ''-ap-southeast-1'', ''.ap-southeast-1'',
     ''-ap-southeast-2'', ''.ap-southeast-2'', ''-eu-west-1'', ''.eu-west-1'', ''-external-1'', ''.external-1'',
     ''-sa-east-1'', ''.sa-east-1'', ''-us-east-1'', ''.us-east-1'', ''-us-gov-west-1'', ''.us-gov-west-1'',
     ''-us-west-1'', ''.us-west-1'', ''-us-west-2'', ''.us-west-2'']"

definition SIGV4_DETECT :: "string list" where
  "SIGV4_DETECT = [''.cn-'', ''.eu-central'', ''-eu-central'', ''.ap-northeast-2'', ''-ap-northeast-2'',
     ''.ap-south-1'', ''-ap-south-1'', ''.us-east-2'', ''-us-east-2'', ''-ca-central'', ''.ca-central'',
     ''.eu-west-2'', ''-eu-west-2'']"

definition contains_any :: "string \<Rightarrow> string list \<Rightarrow> bool" where
  "contains_any s tests = list_ex (str_contains s) tests"

definition detect_potential_sigv4 :: "string option \<Rightarrow> string option \<Rightarrow> string option \<Rightarrow> string list res \<Rightarrow> string list res" where
  "detect_potential_sigv4 env conf endpoint dflt =
     (if str_true env then Inr [''hmac-v4'']
      else if str_true conf then Inr [''hmac-v4'']
      else if str_true endpoint \<and> contains_any (the endpoint) SIGV4_DETECT then Inr [''hmac-v4'']
      else dflt)"

definition with_scheme :: "string \<Rightarrow> string" where
  "with_scheme h = (if \<not> str_startswith h ''http://'' \<or> str_startswith h ''https://'' then ''https://'' @ h else h)"

definition detect_netloc :: "string \<Rightarrow> bool \<Rightarrow> string \<Rightarrow> string list res \<Rightarrow> string list res" where
  "detect_netloc h anon netloc dflt =
     (if \<not> (str_endswith netloc ''amazonaws.com'' \<or> str_endswith netloc ''amazonaws.com.cn'') then dflt
      else if str_endswith netloc ''s3.amazonaws.com'' then dflt
      else if contains_any h S3_AUTH_DETECT then dflt
      else if anon then dflt
      else Inr [''hmac-v4-s3''])"

definition detect_potential_s3sigv4 :: "string option \<Rightarrow> string option \<Rightarrow> string option \<Rightarrow> bool \<Rightarrow> string list res \<Rightarrow> string list res" where
  "detect_potential_s3sigv4 env conf self_host anon dflt =
     (if str_true env then Inr [''hmac-v4-s3'']
      else if str_true conf then Inr [''hmac-v4-s3'']
      else case self_host of
             None \<Rightarrow> dflt
           | Some h \<Rightarrow>
               if contains_any h SIGV4_DETECT then Inr [''hmac-v4-s3'']
               else res_bind (urlparse (with_scheme h)) (\<lambda>u. detect_netloc h anon (url_netloc_of u) dflt))"

lemma takeWhile_all: "\<forall>x \<in> set xs. P x \<Longrightarrow> takeWhile P xs = xs"
  by (simp add: takeWhile_eq_all_conv)

text \<open>Under the scheme that is added, a plain host is its own network location.\<close>

lemma urlparse_plain_host:
  assumes "set h \<inter> set ''/?#[]'' = {}"
  shows "\<exists>u. urlparse (''https://'' @ h) = Inr u \<and> url_netloc_of u = h"
proof -
  have "split_first CHR '':'' (''https'' @ CHR '':'' # (''//'' @ h)) = (''https'', Some (''//'' @ h))"
    by (rule split_first_sep) simp
  then have scheme: "url_scheme (''https://'' @ h) = (''https'', ''//'' @ h)"
    by (simp add: url_scheme_def scheme_char_def is_alnum_def is_lower_case_def is_digit_def str_lower_def lower_char_def)
  have plain: "\<forall>c \<in> set h. c \<notin> set ''/?#''" using assms by auto
  have netloc: "url_netloc (''//'' @ h) = (h, [])"
    using plain takeWhile_all [of h "\<lambda>c. c \<notin> set ''/?#''"]
    by (simp add: url_netloc_def str_startswith_def dropWhile_eq_Nil_conv)
  have "CHR ''['' \<notin> set h" "CHR '']'' \<notin> set h" using assms by auto
  then show ?thesis unfolding urlparse_def Let_def scheme case_prod_conv netloc
    by (simp add: split_first_def)
qed

text \<open>
  Without an override, S3 signs with version 4 exactly for the hosts of a region that knows only version
  4, and, unless anonymous, for the hosts of Amazon that are neither the global endpoint nor in a region
  known to accept version 2; every other host gets the default.
\<close>

theorem s3sigv4_detection:
  assumes "set h \<inter> set ''/?#[]'' = {}"
  shows "detect_potential_s3sigv4 None None (Some h) anon (Inr dflt) =
     Inr (if contains_any h SIGV4_DETECT
             \<or> \<not> anon \<and> (str_endswith h ''amazonaws.com'' \<or> str_endswith h ''amazonaws.com.cn'')
                \<and> \<not> str_endswith h ''s3.amazonaws.com'' \<and> \<not> contains_any h S3_AUTH_DETECT
          then [''hmac-v4-s3''] else dflt)"
proof -
  have "\<not> str_startswith h ''http://''"
  proof
    assume "str_startswith h ''http://''"
    then have "set ''http://'' \<subseteq> set h" using set_take_subset [of "length ''http://''" h] by (simp only: str_startswith_def)
    with assms show False by simp
  qed
  then have "with_scheme h = ''https://'' @ h" by (simp add: with_scheme_def)
  then show ?thesis using urlparse_plain_host [OF assms]
    by (auto simp: detect_potential_s3sigv4_def detect_netloc_def str_true_def)
qed

theorem s3sigv4_detection_witness:
  "detect_potential_s3sigv4 None None (Some ''s3.eu-north-1.amazonaws.com'') False (Inr [''s3'']) = Inr [''hmac-v4-s3'']
    \<and> detect_potential_s3sigv4 None None (Some ''b.s3.amazonaws.com'') False (Inr [''s3'']) = Inr [''s3'']"
proof -
  have "\<not> contains_any ''s3.eu-north-1.amazonaws.com'' S3_AUTH_DETECT" by code_simp
  moreover have "\<not> contains_any ''b.s3.amazonaws.com'' SIGV4_DETECT" by code_simp
  ultimately show ?thesis by (simp add: s3sigv4_detection str_endswith_def str_startswith_def)
qed

text \<open>
  The test for a missing scheme takes \<open>https://\<close> for one: a host that has it gets a second scheme, the
  network location becomes \<open>https:\<close>, and the default is used.
\<close>

lemma https_host_not_detected:
  "detect_potential_s3sigv4 None None (Some ''https://s3.eu-north-1.amazonaws.com'') False dflt = dflt"
proof -
  let ?h = "''https://s3.eu-north-1.amazonaws.com''"
  have "\<not> contains_any ?h SIGV4_DETECT" by code_simp
  moreover have "with_scheme ?h = ''https://https://s3.eu-north-1.amazonaws.com''" by (simp add: with_scheme_def str_startswith_def)
  moreover have "\<exists>u. urlparse ''https://https://s3.eu-north-1.amazonaws.com'' = Inr u \<and> url_netloc_of u = ''https:''"
    by (simp add: urlparse_def url_scheme_def url_netloc_def split_first_def scheme_char_def is_alnum_def str_startswith_def
        is_lower_case_def is_digit_def str_lower_def lower_char_def)
  moreover have "detect_netloc ?h False ''https:'' dflt = dflt" by (simp add: detect_netloc_def str_endswith_def str_startswith_def)
  ultimately show ?thesis by (auto simp only: detect_potential_s3sigv4_def str_true_def option.case if_False res_bind_simps simp_thms)
qed

end
