(* ===== verification/Glacier_Utils.thy ===== *)
theory Glacier_Utils
  imports Py_Prelude
begin

text \<open>
  \<^verbatim>\<open>boto/glacier/utils.py\<close>: the part-size rule of multipart uploads, the SHA-256 tree hash,
  and the file sender that rewinds.  The hash \<open>hashlib.sha256(s).digest()\<close> is the parameter
  \<open>H\<close>: everything below holds for every function from byte strings to byte strings.

  Results: the chosen part size admits the archive within 10,000 parts when \<open>/\<close> is true
  division (and does not under Python 2's floor division); the two nested loops of
  \<open>tree_hash\<close> end and compute the root of the left-balanced binary hash tree; the tree hash
  of the tree hashes of the parts is the tree hash of the whole; a collision of the tree hash
  yields a collision of \<open>H\<close>; the streaming computation agrees with the one in memory.
\<close>

section \<open>The part size\<close>

definition MEGABYTE :: nat where "MEGABYTE = 1024 * 1024"
definition DEFAULT_PART_SIZE :: nat where "DEFAULT_PART_SIZE = 4 * MEGABYTE"
definition MAXIMUM_NUMBER_OF_PARTS :: nat where "MAXIMUM_NUMBER_OF_PARTS = 10000"

text \<open>
  \<open>part_size < size_in_bytes / 10000\<close>.  With \<open>true_div\<close> the operator is Python 3's
  division, exact here because \<open>part_size\<close> is an integer; without it, Python 2's, which
  rounds down.
\<close>

definition below_min :: "bool \<Rightarrow> nat \<Rightarrow> nat \<Rightarrow> bool" where
  "below_min true_div size_in_bytes part_size \<longleftrightarrow>
     (if true_div then part_size * 10000 < size_in_bytes else part_size < size_in_bytes div 10000)"

lemma below_min_imp: "below_min td sz p \<Longrightarrow> p < sz"
  by (cases "sz = 0") (auto simp: below_min_def split: if_splits intro: less_le_trans)

function part_size_loop :: "bool \<Rightarrow> nat \<Rightarrow> nat \<Rightarrow> nat \<Rightarrow> nat" where
  "part_size_loop true_div size_in_bytes part_size pw =
     (if below_min true_div size_in_bytes part_size
      then part_size_loop true_div size_in_bytes (MEGABYTE * 2 ^ pw) (pw + 1)
      else part_size)"
  by pat_completeness auto

termination
proof (relation "measure (\<lambda>(td, sz, p, pw). if below_min td sz p then Suc (sz - 2 ^ pw) else 0)",
    goal_cases)
  case (2 td sz p pw)
  have "sz - 2 ^ (pw + 1) < sz - 2 ^ pw" if "below_min td sz (MEGABYTE * 2 ^ pw)"
  proof -
    have "2 ^ pw \<le> MEGABYTE * 2 ^ pw" by (simp add: MEGABYTE_def)
    with below_min_imp [OF that] have "2 ^ pw < sz" by linarith
    then show ?thesis by (intro diff_less_mono2) simp_all
  qed
  with 2 show ?case by auto
qed simp

declare part_size_loop.simps [simp del]

definition minimum_part_size :: "bool \<Rightarrow> nat \<Rightarrow> nat \<Rightarrow> nat res" where
  "minimum_part_size true_div size_in_bytes default_part_size =
     (if default_part_size * MAXIMUM_NUMBER_OF_PARTS < size_in_bytes then
        (if 4096 * MEGABYTE * 10000 < size_in_bytes then Inl ValueError
         else Inr (part_size_loop true_div size_in_bytes MEGABYTE 3))
      else Inr default_part_size)"

text \<open>Everything the loop promises, by induction over its own recursion.\<close>

lemma part_size_loop_not_below: "\<not> below_min td sz (part_size_loop td sz p pw)"
proof (induction td sz p pw rule: part_size_loop.induct)
  case (1 td sz p pw)
  then show ?case by (cases "below_min td sz p") (simp_all add: part_size_loop.simps [of td sz p pw])
qed

lemma part_size_loop_form:
  "part_size_loop td sz p pw = p \<or>
   (\<exists>k\<ge>pw. part_size_loop td sz p pw = MEGABYTE * 2 ^ k \<and>
      (k = pw \<or> below_min td sz (MEGABYTE * 2 ^ (k - 1))))"
proof (induction td sz p pw rule: part_size_loop.induct)
  case (1 td sz p pw)
  show ?case
  proof (cases "below_min td sz p")
    case False
    then show ?thesis by (simp add: part_size_loop.simps [of td sz p pw])
  next
    case True
    let ?q = "MEGABYTE * 2 ^ pw"
    from True have eq: "part_size_loop td sz p pw = part_size_loop td sz ?q (pw + 1)"
      by (simp add: part_size_loop.simps [of td sz p pw])
    show ?thesis
    proof (cases "below_min td sz ?q")
      case False
      then have "part_size_loop td sz ?q (pw + 1) = ?q"
        by (simp add: part_size_loop.simps [of td sz ?q "Suc pw"])
      with eq show ?thesis by auto
    next
      case below: True
      from "1.IH" [OF True] eq consider "part_size_loop td sz p pw = ?q"
        | k where "pw + 1 \<le> k" "part_size_loop td sz p pw = MEGABYTE * 2 ^ k"
            "k = pw + 1 \<or> below_min td sz (MEGABYTE * 2 ^ (k - 1))"
        by auto
      then show ?thesis
      proof cases
        case 1
        then show ?thesis by auto
      next
        case 2
        with below show ?thesis by (intro disjI2 exI [of _ k]) auto
      qed
    qed
  qed
qed

lemma below_min_small: "below_min td sz p \<Longrightarrow> p * 10000 < sz"
  by (cases td) (auto simp: below_min_def)

lemma not_below_min: "\<not> below_min td sz p \<Longrightarrow> sz \<le> p * 10000 + (if td then 0 else 9999)"
  by (auto simp: below_min_def)

lemma part_size_loop_le_4GB:
  assumes "sz \<le> 4096 * MEGABYTE * 10000"
  shows "\<exists>k \<in> insert 0 {3..12}. part_size_loop td sz MEGABYTE 3 = MEGABYTE * 2 ^ k \<and> (k \<le> 3 \<or> MEGABYTE * 2 ^ (k - 1) * 10000 < sz)"
proof -
  from part_size_loop_form [of td sz MEGABYTE 3]
  consider "part_size_loop td sz MEGABYTE 3 = MEGABYTE * 2 ^ 0"
    | k where "3 \<le> k" "part_size_loop td sz MEGABYTE 3 = MEGABYTE * 2 ^ k"
        "k = 3 \<or> MEGABYTE * 2 ^ (k - 1) * 10000 < sz"
    by (auto dest: below_min_small)
  then show ?thesis
  proof cases
    case 1
    then show ?thesis by blast
  next
    case (2 k)
    have "k \<le> 12"
    proof (rule ccontr)
      assume "\<not> k \<le> 12"
      then have "(2::nat) ^ 12 \<le> 2 ^ (k - 1)" by (intro power_increasing) auto
      then have "4096 * MEGABYTE * 10000 \<le> MEGABYTE * 2 ^ (k - 1) * 10000" by simp
      with 2(3) assms \<open>\<not> k \<le> 12\<close> show False by linarith
    qed
    with 2 show ?thesis by (intro bexI [of _ k]) auto
  qed
qed

section \<open>Chunk hashes and the tree hash\<close>

definition chunk_hashes :: "(string \<Rightarrow> string) \<Rightarrow> string \<Rightarrow> nat \<Rightarrow> string list res" where
  "chunk_hashes H bytestring chunk_size =
     (if chunk_size = 0 then Inl ZeroDivisionError
      else let chunk_count = ceil_div (length bytestring) chunk_size;
               hashes = map (\<lambda>i. H (slice bytestring (i * chunk_size) ((i + 1) * chunk_size))) [0..<chunk_count]
           in Inr (if hashes = [] then [H []] else hashes))"

text \<open>The inner loop: \<open>hashes\<close> is emptied two at a time, \<open>new_hashes\<close> grows.\<close>

fun pair_loop :: "(string \<Rightarrow> string) \<Rightarrow> string list \<Rightarrow> string list \<Rightarrow> string list" where
  "pair_loop H (first # second # hashes) new_hashes =
     pair_loop H hashes (new_hashes @ [H (first @ second)])"
| "pair_loop H [only] new_hashes = new_hashes @ [only]"
| "pair_loop H [] new_hashes = new_hashes"

fun level :: "(string \<Rightarrow> string) \<Rightarrow> string list \<Rightarrow> string list" where
  "level H (a # b # hs) = H (a @ b) # level H hs"
| "level H hs = hs"

lemma pair_loop_level: "pair_loop H hashes new_hashes = new_hashes @ level H hashes"
  by (induction H hashes new_hashes rule: pair_loop.induct) simp_all

lemma length_level: "length (level H hs) = (length hs + 1) div 2"
  by (induction H hs rule: level.induct) simp_all

function tree_hash_loop :: "(string \<Rightarrow> string) \<Rightarrow> string list \<Rightarrow> string list" where
  "tree_hash_loop H hashes =
     (if 1 < length hashes then tree_hash_loop H (pair_loop H hashes []) else hashes)"
  by pat_completeness auto
termination
  by (relation "measure (\<lambda>(H, hs). length hs)") (auto simp: pair_loop_level length_level)

declare tree_hash_loop.simps [simp del]

definition tree_hash :: "(string \<Rightarrow> string) \<Rightarrow> string list \<Rightarrow> string res" where
  "tree_hash H fo = (case tree_hash_loop H fo of [] \<Rightarrow> Inl IndexError | h # _ \<Rightarrow> Inr h)"

text \<open>\<open>bytes_to_hex\<close> and \<open>tree_hash_from_str\<close>.\<close>

definition bytes_to_hex :: "string \<Rightarrow> string" where
  "bytes_to_hex str_as_bytes = hexlify str_as_bytes"

definition tree_hash_from_str :: "(string \<Rightarrow> string) \<Rightarrow> string \<Rightarrow> string res" where
  "tree_hash_from_str H str_as_bytes =
     res_bind (chunk_hashes H str_as_bytes MEGABYTE)
       (\<lambda>hs. res_bind (tree_hash H hs) (\<lambda>t. Inr (bytes_to_hex t)))"

subsection \<open>Levels of the tree\<close>

fun levels :: "nat \<Rightarrow> (string \<Rightarrow> string) \<Rightarrow> string list \<Rightarrow> string list" where
  "levels 0 H hs = hs"
| "levels (Suc k) H hs = levels k H (level H hs)"

lemma level_eq_Nil_iff [simp]: "level H hs = [] \<longleftrightarrow> hs = []"
  by (cases "(H, hs)" rule: level.cases) simp_all

lemma level_single: "length hs \<le> 1 \<Longrightarrow> level H hs = hs"
  by (cases "(H, hs)" rule: level.cases) simp_all

lemma tree_hash_loop_level: "tree_hash_loop H (level H hs) = tree_hash_loop H hs"
proof (cases "1 < length hs")
  case True
  then show ?thesis by (simp add: tree_hash_loop.simps [of H hs] pair_loop_level)
next
  case False
  then show ?thesis by (simp add: level_single)
qed

lemma tree_hash_levels: "tree_hash H (levels k H hs) = tree_hash H hs"
  by (induction k arbitrary: hs) (simp_all add: tree_hash_def tree_hash_loop_level)

lemma level_append: "even (length xs) \<Longrightarrow> level H (xs @ ys) = level H xs @ level H ys"
  by (induction H xs rule: level.induct) simp_all

lemma length_level_even: "length xs = 2 * n \<Longrightarrow> length (level H xs) = n"
  by (simp add: length_level)

lemma levels_append: "length xs = 2 ^ k * m \<Longrightarrow> levels k H (xs @ ys) = levels k H xs @ levels k H ys"
proof (induction k arbitrary: xs ys)
  case 0
  then show ?case by simp
next
  case (Suc k)
  then have "length (level H xs) = 2 ^ k * m" by (intro length_level_even) simp
  with Suc show ?case by (simp add: level_append)
qed

lemma length_levels_single: "hs \<noteq> [] \<Longrightarrow> length hs \<le> 2 ^ k \<Longrightarrow> length (levels k H hs) = 1"
proof (induction k arbitrary: hs)
  case 0
  then show ?case by (cases hs) auto
next
  case (Suc k)
  from Suc.prems have "length (level H hs) \<le> 2 ^ k" by (simp add: length_level)
  with Suc show ?case by simp
qed

lemma tree_hash_single [simp]: "tree_hash H [h] = Inr h"
  by (simp add: tree_hash_def tree_hash_loop.simps)

lemma tree_hash_Nil [simp]: "tree_hash H [] = Inl IndexError"
  by (simp add: tree_hash_def tree_hash_loop.simps)

lemma levels_root:
  assumes "hs \<noteq> []" and "length hs \<le> 2 ^ k"
  obtains t where "levels k H hs = [t]" and "tree_hash H hs = Inr t"
proof -
  obtain t where t: "levels k H hs = [t]"
    using length_levels_single [OF assms, of H] by (auto simp: length_Suc_conv)
  moreover have "tree_hash H hs = Inr t" using tree_hash_levels [of H k hs] t by simp
  ultimately show ?thesis by (rule that)
qed

lemma length_le_2_power: "\<exists>k. length hs \<le> 2 ^ k"
  using less_exp [of "length hs"] less_imp_le by blast

lemma tree_hash_total: "hs \<noteq> [] \<Longrightarrow> \<exists>t. tree_hash H hs = Inr t"
  using length_le_2_power [of hs] levels_root by metis

text \<open>The root of a list of digests, where there is one.\<close>

definition tree_root :: "(string \<Rightarrow> string) \<Rightarrow> string list \<Rightarrow> string" where
  "tree_root H hs = (case tree_hash H hs of Inl _ \<Rightarrow> [] | Inr t \<Rightarrow> t)"

lemma tree_hash_root: "hs \<noteq> [] \<Longrightarrow> tree_hash H hs = Inr (tree_root H hs)"
  using tree_hash_total [of hs H] by (auto simp: tree_root_def)

lemma levels_root_eq: "hs \<noteq> [] \<Longrightarrow> length hs \<le> 2 ^ k \<Longrightarrow> levels k H hs = [tree_root H hs]"
  by (metis levels_root tree_root_def sum.simps(6))

subsection \<open>The tree hash of parts\<close>

text \<open>
  Blocks of \<open>2 ^ k\<close> digests, the last one possibly shorter: hashing each block to its root
  and then the roots gives the root of the whole.
\<close>

fun blocked :: "nat \<Rightarrow> 'a list list \<Rightarrow> bool" where
  "blocked n [] \<longleftrightarrow> True"
| "blocked n [b] \<longleftrightarrow> b \<noteq> [] \<and> length b \<le> n"
| "blocked n (b # bs) \<longleftrightarrow> length b = n \<and> blocked n bs"

lemma levels_blocked: "blocked (2 ^ k) bs \<Longrightarrow> levels k H (concat bs) = map (tree_root H) bs"
proof (induction bs rule: induct_list012)
  case 1
  have "levels k H [] = []" by (induction k) simp_all
  then show ?case by simp
next
  case (2 b)
  then show ?case by (simp add: levels_root_eq)
next
  case (3 b c bs)
  then have "length b = 2 ^ k * 1" "b \<noteq> []" by auto
  then have "levels k H (b @ concat (c # bs)) = [tree_root H b] @ levels k H (concat (c # bs))"
    by (subst levels_append) (simp_all add: levels_root_eq)
  with 3 show ?case by simp
qed

lemma tree_hash_blocked:
  "blocked (2 ^ k) bs \<Longrightarrow> tree_hash H (map (tree_root H) bs) = tree_hash H (concat bs)"
  using tree_hash_levels [of H k "concat bs"] by (simp add: levels_blocked)

lemma chunk_hashes_pieces:
  assumes "0 < c"
  shows "chunk_hashes H bs c = Inr (if bs = [] then [H []] else map H (pieces c bs))"
proof -
  have "map (\<lambda>i. H (slice bs (i * c) ((i + 1) * c))) [0..<ceil_div (length bs) c] = map H (pieces c bs)"
    using assms by (intro nth_equalityI) (simp_all add: length_pieces nth_pieces slice_def)
  then show ?thesis using assms by (simp add: chunk_hashes_def Let_def ceil_div_eq_0_iff)
qed

lemma blocked_pieces:
  assumes "0 < c" "0 < n"
  shows "blocked n (map (pieces c) (pieces (c * n) xs))"
proof (induction "length xs" arbitrary: xs rule: less_induct)
  case less
  show ?case
  proof (cases "length xs \<le> c * n")
    case True
    then have "pieces (c * n) xs = (if xs = [] then [] else [xs])"
      using assms by (simp add: pieces_step)
    then show ?thesis using True assms
      by (simp add: pieces_eq_Nil_iff length_pieces ceil_div_le_iff mult.commute)
  next
    case False
    with assms have ne: "xs \<noteq> []" "drop (c * n) xs \<noteq> []" by auto
    then have "blocked n (map (pieces c) (pieces (c * n) (drop (c * n) xs)))"
      using assms by (intro less) auto
    moreover have "length (pieces c (take (c * n) xs)) = n"
    proof -
      have "ceil_div (c * n) c \<le> n" using assms by (simp add: ceil_div_le_iff mult.commute)
      moreover have "\<not> ceil_div (c * n) c \<le> n - 1" using assms by (simp add: ceil_div_le_iff diff_mult_distrib mult.commute)
      ultimately show ?thesis using False assms by (simp add: length_pieces min_def)
    qed
    ultimately show ?thesis using ne assms
      by (simp add: pieces_step [of "c * n" xs] pieces_step [of "c * n" "drop (c * n) xs"])
  qed
qed

lemma concat_pieces_pieces:
  assumes "0 < c" "0 < n"
  shows "concat (map (pieces c) (pieces (c * n) xs)) = pieces c xs"
proof (induction "length xs" arbitrary: xs rule: less_induct)
  case less
  show ?case
  proof (cases "xs = []")
    case True
    then show ?thesis by simp
  next
    case False
    then have IH: "concat (map (pieces c) (pieces (c * n) (drop (c * n) xs))) = pieces c (drop (c * n) xs)"
      using assms by (intro less) simp
    have "pieces c (take (c * n) xs) @ pieces c (drop (c * n) xs) = pieces c xs"
    proof (cases "length xs \<le> c * n")
      case True
      then show ?thesis by simp
    next
      case False
      then show ?thesis
        using pieces_append [of c "take (c * n) xs" n "drop (c * n) xs"] assms
        by (simp add: mult.commute)
    qed
    with IH False assms show ?thesis by (simp add: pieces_step [of "c * n" xs])
  qed
qed

text \<open>The tree hash the uploader computes for one part.\<close>

definition part_tree_hash :: "(string \<Rightarrow> string) \<Rightarrow> nat \<Rightarrow> string \<Rightarrow> string" where
  "part_tree_hash H c part = tree_root H (if part = [] then [H []] else map H (pieces c part))"

lemma part_tree_hash:
  "0 < c \<Longrightarrow> res_bind (chunk_hashes H part c) (tree_hash H) = Inr (part_tree_hash H c part)"
  by (auto simp: chunk_hashes_pieces part_tree_hash_def tree_hash_root pieces_eq_Nil_iff)

lemma tree_hash_parts:
  assumes "0 < c" and "data \<noteq> []"
  shows "tree_hash H (map (part_tree_hash H c) (pieces (c * 2 ^ k) data))
       = res_bind (chunk_hashes H data c) (tree_hash H)"
proof -
  let ?parts = "pieces (c * 2 ^ k) data"
  have "p \<noteq> []" if "p \<in> set ?parts" for p
    using that assms(1)
  proof (induction "c * 2 ^ k" data rule: pieces.induct)
    case (1 xs)
    then show ?case by (cases "xs = []") (auto simp: pieces_step)
  qed
  then have *: "map (part_tree_hash H c) ?parts = map (tree_root H) (map (map H \<circ> pieces c) ?parts)"
    by (simp add: part_tree_hash_def)
  have map_blocked: "blocked n (map (map H) bs)" if "blocked n bs" for n bs
    using that by (induction n bs rule: blocked.induct) simp_all
  have "blocked (2 ^ k) (map (map H \<circ> pieces c) ?parts)"
    using map_blocked [OF blocked_pieces [OF assms(1), of "2 ^ k" data]] by simp
  then have "tree_hash H (map (part_tree_hash H c) ?parts)
      = tree_hash H (concat (map (map H \<circ> pieces c) ?parts))"
    unfolding * by (rule tree_hash_blocked)
  also have "concat (map (map H \<circ> pieces c) ?parts) = map H (concat (map (pieces c) ?parts))"
    by (simp add: map_concat)
  also have "\<dots> = map H (pieces c data)"
    using concat_pieces_pieces [OF assms(1), of "2 ^ k" data] by simp
  finally show ?thesis using assms by (simp add: chunk_hashes_pieces)
qed


section \<open>Reference: the left-balanced hash tree\<close>

text \<open>
  The root of the tree of depth at most \<open>d\<close> over the digests \<open>hs\<close>: the left subtree is
  complete with \<open>2 ^ (d - 1)\<close> leaves whenever the right one has any.
\<close>

fun merkle :: "(string \<Rightarrow> string) \<Rightarrow> nat \<Rightarrow> string list \<Rightarrow> string" where
  "merkle H 0 hs = hd hs"
| "merkle H (Suc d) hs =
     (if length hs \<le> 2 ^ d then merkle H d hs
      else H (merkle H d (take (2 ^ d) hs) @ merkle H d (drop (2 ^ d) hs)))"

lemma levels_Suc_last: "levels (Suc k) H hs = level H (levels k H hs)"
  by (induction k arbitrary: hs) simp_all

lemma levels_merkle: "hs \<noteq> [] \<Longrightarrow> length hs \<le> 2 ^ d \<Longrightarrow> levels d H hs = [merkle H d hs]"
proof (induction d arbitrary: hs)
  case 0
  then show ?case by (cases hs) auto
next
  case (Suc d)
  show ?case
  proof (cases "length hs \<le> 2 ^ d")
    case True
    with Suc show ?thesis by (simp add: levels_Suc_last del: levels.simps)
  next
    case False
    let ?l = "take (2 ^ d) hs" and ?r = "drop (2 ^ d) hs"
    from False have "length ?l = 2 ^ d * 1" by simp
    then have "levels d H (?l @ ?r) = levels d H ?l @ levels d H ?r"
      by (rule levels_append)
    moreover have "levels d H ?l = [merkle H d ?l]" "levels d H ?r = [merkle H d ?r]"
      using Suc False by auto
    ultimately show ?thesis using False
      by (simp add: levels_Suc_last del: levels.simps)
  qed
qed

text \<open>The strings to which \<open>H\<close> is applied in one level of the tree, and in all of it.\<close>

fun level_inputs :: "string list \<Rightarrow> string list" where
  "level_inputs (a # b # hs) = (a @ b) # level_inputs hs"
| "level_inputs hs = []"

fun tree_inputs :: "nat \<Rightarrow> (string \<Rightarrow> string) \<Rightarrow> string list \<Rightarrow> string list" where
  "tree_inputs 0 H hs = []"
| "tree_inputs (Suc k) H hs = level_inputs hs @ tree_inputs k H (level H hs)"

text \<open>Unless two of these inputs collide, every level is determined by the next.\<close>

lemma level_inject:
  "\<forall>a \<in> set (level_inputs xs). \<forall>b \<in> set (level_inputs ys). H a = H b \<longrightarrow> a = b \<Longrightarrow>
    length xs = length ys \<Longrightarrow> \<forall>x \<in> set xs \<union> set ys. length x = n \<Longrightarrow>
    level H xs = level H ys \<Longrightarrow> xs = ys"
proof (induction H xs arbitrary: ys rule: level.induct)
  case (1 H a b hs)
  from "1.prems"(2) obtain c ys' where c: "ys = c # ys'" "length (b # hs) = length ys'"
    by (cases ys) simp_all
  from c(2) obtain d hs' where d: "ys' = d # hs'" "length hs = length hs'"
    by (cases ys') simp_all
  from c d have ys: "ys = c # d # hs'" "length hs = length hs'" by simp_all
  from "1.prems"(4) ys have "H (a @ b) = H (c @ d)" and tl: "level H hs = level H hs'" by simp_all
  then have "a @ b = c @ d" using "1.prems"(1) ys(1) by auto
  moreover have "length a = length c" using "1.prems"(3) ys(1) by auto
  moreover have "\<forall>x \<in> set hs \<union> set hs'. length x = n" using "1.prems"(3) ys(1) by auto
  moreover from this have "hs = hs'" using "1.IH" [OF _ ys(2) _ tl] "1.prems"(1) ys(1) by auto
  ultimately show ?case using ys by simp
next
  case "2_1"
  then show ?case by simp
next
  case "2_2"
  then show ?case by (metis Suc_length_conv length_0_conv level.simps(3))
qed

lemma level_lengths:
  "\<forall>s. length (H s) = n \<Longrightarrow> \<forall>x \<in> set xs. length x = n \<Longrightarrow> \<forall>x \<in> set (level H xs). length x = n"
  by (induction H xs rule: level.induct) auto

lemma levels_inject:
  assumes "\<forall>s. length (H s) = n"
  shows "\<forall>a \<in> set (tree_inputs k H xs). \<forall>b \<in> set (tree_inputs k H ys). H a = H b \<longrightarrow> a = b \<Longrightarrow>
    length xs = length ys \<Longrightarrow> \<forall>x \<in> set xs \<union> set ys. length x = n \<Longrightarrow>
    levels k H xs = levels k H ys \<Longrightarrow> xs = ys"
proof (induction k arbitrary: xs ys)
  case 0
  then show ?case by simp
next
  case (Suc k)
  have "\<forall>x \<in> set (level H xs) \<union> set (level H ys). length x = n"
    using level_lengths [OF assms, of xs] level_lengths [OF assms, of ys] Suc.prems(3)
    by blast
  moreover have "length (level H xs) = length (level H ys)" using Suc.prems by (simp add: length_level)
  moreover have "levels k H (level H xs) = levels k H (level H ys)" using Suc.prems(4) by simp
  ultimately have "level H xs = level H ys" using Suc.IH Suc.prems(1) by simp
  then show ?case using level_inject [of xs ys H n] Suc.prems by simp
qed

section \<open>Streaming, and the sender that rewinds\<close>

text \<open>A file object: its contents, its position, and its \<open>mode\<close> attribute if it has one.\<close>

record pyfile =
  file_data :: string
  file_pos :: nat
  file_mode :: "string option"

definition file_read :: "nat \<Rightarrow> pyfile \<Rightarrow> string \<times> pyfile" where
  "file_read n f = (let d = take n (drop (file_pos f) (file_data f))
                    in (d, f\<lparr>file_pos := file_pos f + length d\<rparr>))"

definition file_rest :: "pyfile \<Rightarrow> string" where
  "file_rest f = drop (file_pos f) (file_data f)"

function hash_file_loop ::
  "(string \<Rightarrow> string) \<Rightarrow> nat \<Rightarrow> string \<Rightarrow> pyfile \<Rightarrow> string \<Rightarrow> string list \<Rightarrow> pyfile \<times> string \<times> string list" where
  "hash_file_loop H chunk_size chunk fileobj linear chunk_digests =
     (if chunk = [] then (fileobj, linear, chunk_digests)
      else (case file_read chunk_size fileobj of (chunk', fileobj') \<Rightarrow>
              hash_file_loop H chunk_size chunk' fileobj' (linear @ chunk) (chunk_digests @ [H chunk])))"
  by pat_completeness auto
termination
proof (relation "measure (\<lambda>(H, c, chunk, f, l, cs). length chunk + length (file_rest f))", goal_cases)
  case (2 H c chunk f l cs chunk' f')
  then have "chunk' = take c (file_rest f)" "file_rest f' = drop (length chunk') (file_rest f)"
    by (auto simp: file_read_def file_rest_def Let_def add.commute)
  then have "length chunk' + length (file_rest f') = length (file_rest f)" by simp
  with 2 show ?case by simp
qed simp

declare hash_file_loop.simps [simp del]

text \<open>
  \<open>hashlib.sha256()\<close> objects: \<open>update\<close> appends to the hashed bytes, \<open>digest\<close> applies \<open>H\<close>.
  \<open>PY3\<close> is \<open>six.PY3\<close>.
\<close>

definition compute_hashes_from_fileobj ::
  "(string \<Rightarrow> string) \<Rightarrow> bool \<Rightarrow> nat \<Rightarrow> (pyfile, string \<times> string) py" where
  "compute_hashes_from_fileobj H PY3 chunk_size fileobj =
     (if PY3 \<and> (case file_mode fileobj of None \<Rightarrow> False | Some m \<Rightarrow> CHR ''b'' \<notin> set m)
      then (Inl ValueError, fileobj)
      else case file_read chunk_size fileobj of (chunk, fileobj1) \<Rightarrow>
        (case hash_file_loop H chunk_size chunk fileobj1 [] [] of (fileobj2, linear, chunk_digests) \<Rightarrow>
          (let chunk_digests = (if chunk_digests = [] then [H []] else chunk_digests)
           in (res_bind (tree_hash H chunk_digests) (\<lambda>t. Inr (hexlify (H linear), bytes_to_hex t)), fileobj2))))"

lemma file_read_rest:
  "file_read n f = (take n (file_rest f), f\<lparr>file_pos := file_pos f + min n (length (file_rest f))\<rparr>)"
  by (simp add: file_read_def file_rest_def Let_def min.commute)

lemma hash_file_loop_eq:
  assumes "0 < c" and "file_rest (f\<lparr>file_pos := p\<rparr>) = r"
  shows "hash_file_loop H c (take c r) (f\<lparr>file_pos := p + min c (length r)\<rparr>) l cs =
    (f\<lparr>file_pos := p + length r\<rparr>, l @ r, cs @ map H (pieces c r))"
  using assms(2)
proof (induction "length r" arbitrary: r p l cs rule: less_induct)
  case less
  show ?case
  proof (cases "r = []")
    case True
    then show ?thesis by (simp add: hash_file_loop.simps)
  next
    case False
    let ?p = "p + min c (length r)"
    from less.prems have rest: "file_rest (f\<lparr>file_pos := ?p\<rparr>) = drop c r"
      by (auto simp: file_rest_def min_def add.commute)
    have "length (drop c r) < length r" using False assms by simp
    note IH = less.hyps [OF this rest, of "l @ take c r" "cs @ [H (take c r)]"]
    have read: "file_read c (f\<lparr>file_pos := ?p\<rparr>) =
        (take c (drop c r), f\<lparr>file_pos := ?p + min c (length (drop c r))\<rparr>)"
      using rest by (simp add: file_read_rest)
    have len: "?p + length (drop c r) = p + length r" by (simp add: min_def)
    have ne: "take c r \<noteq> []" using False assms by simp
    have "hash_file_loop H c (take c r) (f\<lparr>file_pos := ?p\<rparr>) l cs =
        hash_file_loop H c (take c (drop c r)) (f\<lparr>file_pos := ?p + min c (length (drop c r))\<rparr>)
          (l @ take c r) (cs @ [H (take c r)])"
      using ne read by (simp add: hash_file_loop.simps [of H c "take c r"])
    also have "\<dots> = (f\<lparr>file_pos := p + length r\<rparr>, l @ r, cs @ map H (pieces c r))"
      using IH len False assms by (simp add: pieces_step)
    finally show ?thesis .
  qed
qed

text \<open>\<open>ResettingFileSender\<close>: the offset at construction, and the call that sends and rewinds.\<close>

definition resetting_sender_init :: "pyfile \<Rightarrow> nat" where
  "resetting_sender_init archive = file_pos archive"

definition resetting_sender_call ::
  "nat \<Rightarrow> (pyfile, 'r) py \<Rightarrow> (pyfile, 'r) py" where
  "resetting_sender_call starting_offset request archive =
     (case request archive of (outcome, archive') \<Rightarrow> (outcome, archive'\<lparr>file_pos := starting_offset\<rparr>))"

section \<open>Properties\<close>

text \<open>
  C40: \<open>minimum_part_size\<close> refuses an archive only if the default part size is too small for it and it is larger than
  10,000 * 4 GB.  Otherwise it gives the default if that is enough, else a power of two of megabytes up to 4 GB that is
  the smallest that will do (2 and 4 MB apart, which are left out).  With true division the archive then has at most
  10,000 parts, with Python 2's division at most one too many.
\<close>

theorem minimum_part_size_sufficient:
  "case minimum_part_size td sz dflt of
     Inl e \<Rightarrow> e = ValueError \<and> dflt * MAXIMUM_NUMBER_OF_PARTS < sz \<and> 4096 * MEGABYTE * 10000 < sz
   | Inr p \<Rightarrow> ceil_div sz p \<le> MAXIMUM_NUMBER_OF_PARTS + (if td then 0 else 1)
       \<and> (if sz \<le> dflt * MAXIMUM_NUMBER_OF_PARTS then p = dflt
          else \<exists>k \<in> insert 0 {3..12}. p = MEGABYTE * 2 ^ k
            \<and> (k \<le> 3 \<or> MEGABYTE * 2 ^ (k - 1) * MAXIMUM_NUMBER_OF_PARTS < sz))"
proof (cases "minimum_part_size td sz dflt")
  case (Inl e)
  then show ?thesis by (auto simp: minimum_part_size_def split: if_splits)
next
  case (Inr p)
  show ?thesis
  proof (cases "sz \<le> dflt * MAXIMUM_NUMBER_OF_PARTS")
    case True
    then have "p = dflt" using Inr by (simp add: minimum_part_size_def)
    moreover have "ceil_div sz dflt \<le> MAXIMUM_NUMBER_OF_PARTS"
      using True by (cases "dflt = 0") (simp_all add: ceil_div_le_iff mult.commute)
    ultimately show ?thesis using True Inr by simp
  next
    case False
    then have p: "p = part_size_loop td sz MEGABYTE 3" "sz \<le> 4096 * MEGABYTE * 10000"
      using Inr by (auto simp: minimum_part_size_def split: if_splits)
    note form = part_size_loop_le_4GB [OF p(2), of td, folded p(1)]
    then have MB: "0 < p" "9999 \<le> p" by (auto simp: MEGABYTE_def intro: order_trans [OF _ mult_le_mono2 [of 1]])
    have "sz \<le> p * 10000 + (if td then 0 else 9999)" using not_below_min [OF part_size_loop_not_below] p(1) by simp
    also have "\<dots> \<le> (MAXIMUM_NUMBER_OF_PARTS + (if td then 0 else 1)) * p"
      using MB by (simp add: MAXIMUM_NUMBER_OF_PARTS_def)
    finally have "ceil_div sz p \<le> MAXIMUM_NUMBER_OF_PARTS + (if td then 0 else 1)" using MB(1) by (subst ceil_div_le_iff) auto
    with form False Inr show ?thesis by (simp add: MAXIMUM_NUMBER_OF_PARTS_def)
  qed
qed

theorem minimum_part_size_sufficient_witness:
  "\<exists>p. minimum_part_size False (50000 * MEGABYTE) DEFAULT_PART_SIZE = Inr p \<and> ceil_div (50000 * MEGABYTE) p \<le> 10001
      \<and> (\<exists>k \<in> insert 0 {3..12}. p = MEGABYTE * 2 ^ k)"
proof -
  have "\<not> 50000 * MEGABYTE \<le> DEFAULT_PART_SIZE * MAXIMUM_NUMBER_OF_PARTS" "50000 * MEGABYTE \<le> 4096 * MEGABYTE * 10000"
    by (simp_all add: MEGABYTE_def DEFAULT_PART_SIZE_def MAXIMUM_NUMBER_OF_PARTS_def)
  with minimum_part_size_sufficient [where td = False and sz = "50000 * MEGABYTE" and dflt = DEFAULT_PART_SIZE] show ?thesis
    by (cases "minimum_part_size False (50000 * MEGABYTE) DEFAULT_PART_SIZE") (auto simp: MAXIMUM_NUMBER_OF_PARTS_def)
qed

text \<open>
  Under Python 2, where \<open>size_in_bytes / 10000\<close> rounds down, the chosen part size can be
  too small: an archive one byte larger than 10,000 parts of 8 MB gets parts of 8 MB.
\<close>

theorem minimum_part_size_floor_division:
  "minimum_part_size False (8 * MEGABYTE * 10000 + 1) DEFAULT_PART_SIZE = Inr (8 * MEGABYTE)
   \<and> MAXIMUM_NUMBER_OF_PARTS < ceil_div (8 * MEGABYTE * 10000 + 1) (8 * MEGABYTE)"
proof
  have "below_min False (8 * MEGABYTE * 10000 + 1) MEGABYTE"
    and "\<not> below_min False (8 * MEGABYTE * 10000 + 1) (MEGABYTE * 2 ^ 3)"
    by (simp_all add: below_min_def MEGABYTE_def)
  then have "part_size_loop False (8 * MEGABYTE * 10000 + 1) MEGABYTE 3 = MEGABYTE * 2 ^ 3"
    by (simp add: part_size_loop.simps [of False _ MEGABYTE 3] part_size_loop.simps [of False _ "MEGABYTE * 8" 4])
  then show "minimum_part_size False (8 * MEGABYTE * 10000 + 1) DEFAULT_PART_SIZE = Inr (8 * MEGABYTE)"
    by (simp add: minimum_part_size_def MAXIMUM_NUMBER_OF_PARTS_def DEFAULT_PART_SIZE_def MEGABYTE_def)
  have "\<not> ceil_div (8 * MEGABYTE * 10000 + 1) (8 * MEGABYTE) \<le> 10000"
    by (subst ceil_div_le_iff) (simp_all add: MEGABYTE_def)
  then show "MAXIMUM_NUMBER_OF_PARTS < ceil_div (8 * MEGABYTE * 10000 + 1) (8 * MEGABYTE)"
    by (simp add: MAXIMUM_NUMBER_OF_PARTS_def)
qed

text \<open>
  C39: the two nested loops of \<open>tree_hash\<close> terminate and return the root of the left-balanced
  binary tree over the given digests; on the empty list the code raises \<open>IndexError\<close>.
\<close>

theorem tree_hash_is_merkle_root:
  "tree_hash H hs =
     (if hs = [] then Inl IndexError else Inr (merkle H (LEAST d. length hs \<le> 2 ^ d) hs))"
proof (cases "hs = []")
  case False
  from length_le_2_power [of hs] have "length hs \<le> 2 ^ (LEAST d. length hs \<le> 2 ^ d)"
    by (rule LeastI_ex)
  with False have "levels (LEAST d. length hs \<le> 2 ^ d) H hs = [merkle H (LEAST d. length hs \<le> 2 ^ d) hs]"
    by (rule levels_merkle)
  with False show ?thesis using tree_hash_levels [of H _ hs] by (metis tree_hash_single)
qed simp

text \<open>
  The tree hash is as collision resistant as \<open>H\<close>: if two different lists of digests of the
  same length have the same tree hash, then a collision of \<open>H\<close> can be read off the two
  computations, among the strings they pass to \<open>H\<close>.
\<close>

theorem tree_hash_collision:
  assumes "tree_hash H xs = tree_hash H ys" and "length xs = length ys" and "xs \<noteq> ys"
    and "\<forall>x \<in> set xs \<union> set ys. length x = n" and "\<forall>s. length (H s) = n" and "length xs \<le> 2 ^ k"
  shows "\<exists>a \<in> set (tree_inputs k H xs). \<exists>b \<in> set (tree_inputs k H ys). a \<noteq> b \<and> H a = H b"
proof (rule ccontr)
  assume no: "\<not> ?thesis"
  from assms(2,3) have ne: "xs \<noteq> []" "ys \<noteq> []" by auto
  have "levels k H xs = levels k H ys"
    using levels_root_eq [OF ne(1) assms(6), of H] levels_root_eq [OF ne(2), of k H] assms(1,2,6)
    by (simp add: tree_root_def)
  then show False using levels_inject [OF assms(5) _ assms(2,4)] assms(3) no by blast
qed

theorem tree_hash_collision_witness:
  "\<exists>a \<in> {''ab''}. \<exists>b \<in> {''cd''}. a \<noteq> b \<and> (\<lambda>s. ''h'') a = (\<lambda>s. ''h'') b"
  using tree_hash_collision [of "\<lambda>s. ''h''" "[''a'', ''b'']" "[''c'', ''d'']" 1 1]
  by (simp add: tree_hash_def tree_hash_loop.simps)

text \<open>
  Hashing a stream from its current position to its end, chunk by chunk and in a single
  pass, gives the digest of those bytes and their tree hash, and leaves the stream at its end.
\<close>

theorem compute_hashes_streaming:
  assumes "0 < c" and "\<not> PY3 \<or> file_mode f = None" and "file_pos f \<le> length (file_data f)"
  shows "compute_hashes_from_fileobj H PY3 c f =
    (Inr (hexlify (H (file_rest f)), bytes_to_hex (part_tree_hash H c (file_rest f))),
     f\<lparr>file_pos := length (file_data f)\<rparr>)"
proof -
  let ?r = "file_rest f"
  have rest: "file_rest (f\<lparr>file_pos := file_pos f\<rparr>) = ?r" by simp
  have len: "file_pos f + length ?r = length (file_data f)"
    using assms by (simp add: file_rest_def)
  have loop: "hash_file_loop H c (take c ?r) (f\<lparr>file_pos := file_pos f + min c (length ?r)\<rparr>) [] [] =
      (f\<lparr>file_pos := length (file_data f)\<rparr>, ?r, map H (pieces c ?r))"
    using hash_file_loop_eq [OF assms(1) rest, of H "[]" "[]"] len by simp
  have hs: "(if map H (pieces c ?r) = [] then [H []] else map H (pieces c ?r)) \<noteq> []"
    by simp
  have root: "tree_hash H (if map H (pieces c ?r) = [] then [H []] else map H (pieces c ?r))
      = Inr (part_tree_hash H c ?r)"
    using tree_hash_root [OF hs, of H] assms(1) by (simp add: part_tree_hash_def pieces_eq_Nil_iff)
  show ?thesis
    using assms(2) loop root
    by (auto simp: compute_hashes_from_fileobj_def file_read_rest Let_def)
qed

theorem compute_hashes_streaming_witness:
  "compute_hashes_from_fileobj (\<lambda>s. CHR ''#'' # s) False 2
     \<lparr>file_data = ''xabcd'', file_pos = 1, file_mode = Some ''r''\<rparr> =
   (Inr (hexlify ''#abcd'', hexlify ''##ab#cd''),
     \<lparr>file_data = ''xabcd'', file_pos = 5, file_mode = Some ''r''\<rparr>)"
  by (subst compute_hashes_streaming)
    (simp_all add: file_rest_def part_tree_hash_def pieces.simps tree_root_def tree_hash_def
      tree_hash_loop.simps bytes_to_hex_def)

text \<open>
  Whatever the request does, also when it raises, \<open>ResettingFileSender\<close> leaves the archive
  where it stood when the sender was made, so that a retried request sends the same bytes.
\<close>

theorem resetting_sender_rewinds:
  "file_pos (snd (resetting_sender_call (resetting_sender_init archive0) request archive)) = file_pos archive0
   \<and> fst (resetting_sender_call (resetting_sender_init archive0) request archive) = fst (request archive)"
  by (simp add: resetting_sender_call_def resetting_sender_init_def split: prod.split)

end
