(* ===== verification/Glacier_Layer1.thy ===== *)
theory Glacier_Layer1
  imports Glacier_Utils
begin

text \<open>
  \<^verbatim>\<open>boto/glacier/layer1.py\<close> and \<^verbatim>\<open>boto/glacier/response.py\<close>: each Glacier operation as the
  HTTP request it builds, the status codes it accepts, and the response dictionary it returns.

  Below this layer is \<open>AWSAuthConnection.make_request\<close>, which signs, sends and retries.  Here
  it is the field \<open>exchange\<close> of a \<open>transport\<close>: a function of the requests sent before and the
  request at hand, so any deterministic service, with any memory of what it was sent, is an
  instance.  The state threaded through the operations is the list of requests sent, oldest
  first.  \<open>json.loads\<close> and \<open>json.dumps\<close> are fields of the same record.
\<close>

datatype jval = JNull | JBool bool | JNum int | JStr string | JList "jval list" | JObj "(string \<times> jval) list"

record http_req =
  hr_verb :: string
  hr_uri :: string
  hr_headers :: "(string, string) dict"
  hr_params :: "(string, string) dict"
  hr_body :: string

record http_resp =
  rs_status :: int
  rs_headers :: "(string, string) dict"
  rs_body :: string

record transport =
  exchange :: "http_req list \<Rightarrow> http_req \<Rightarrow> http_resp res"
  json_loads :: "string \<Rightarrow> (string, jval) dict res"
  json_dumps :: "jval \<Rightarrow> string"

record glacier_response =
  gl_status :: int
  gl_items :: "(string, jval) dict"
  gl_size :: "string option"
  gl_body :: string

record layer1 =
  account_id :: string
  net :: transport

type_synonym 'a glacier_op = "(http_req list, 'a) py"

text \<open>\<open>httplib\<close>'s \<open>getheader\<close>, which ignores the case of the name.\<close>

definition getheader :: "string \<Rightarrow> http_resp \<Rightarrow> string option" where
  "getheader name r = map_of (map (\<lambda>(k, v). (str_lower k, v)) (rs_headers r)) (str_lower name)"

definition header_jval :: "string option \<Rightarrow> jval" where
  "header_jval h = (case h of None \<Rightarrow> JNull | Some v \<Rightarrow> JStr v)"

section \<open>GlacierResponse and make_request\<close>

definition dict_update :: "('k, 'v) dict \<Rightarrow> ('k, 'v) dict \<Rightarrow> ('k, 'v) dict" where
  "dict_update d new = fold (\<lambda>(k, v). AList.update k v) new d"

definition glacier_response_init ::
  "transport \<Rightarrow> http_resp \<Rightarrow> (string \<times> string) list \<Rightarrow> glacier_response res" where
  "glacier_response_init t http_response response_headers =
     (let items0 = AList.update ''RequestId'' (header_jval (getheader ''x-amzn-requestid'' http_response)) [];
          items1 = fold (\<lambda>(header_name, item_name).
             AList.update item_name (header_jval (getheader header_name http_response))) response_headers items0;
          mk = (\<lambda>items. \<lparr>gl_status = rs_status http_response, gl_items = items,
             gl_size = getheader ''Content-Length'' http_response, gl_body = rs_body http_response\<rparr>)
      in if rs_status http_response \<noteq> 204 \<and> getheader ''Content-Type'' http_response = Some ''application/json''
         then res_bind (json_loads t (rs_body http_response)) (\<lambda>body. Inr (mk (dict_update items1 body)))
         else Inr (mk items1))"

definition Version :: string where "Version = ''2012-06-01''"

definition make_request ::
  "layer1 \<Rightarrow> string \<Rightarrow> string \<Rightarrow> (string, string) dict \<Rightarrow> string \<Rightarrow> int list \<Rightarrow>
   (string, string) dict \<Rightarrow> (string \<times> string) list \<Rightarrow> glacier_response glacier_op" where
  "make_request l verb resource headers data ok_responses params response_headers wire =
     (let headers = AList.update ''x-amz-glacier-version'' Version headers;
          uri = ''/'' @ account_id l @ ''/'' @ resource;
          req = \<lparr>hr_verb = verb, hr_uri = uri, hr_headers = headers, hr_params = params, hr_body = data\<rparr>
      in case exchange (net l) wire req of
           Inl e \<Rightarrow> (Inl e, wire @ [req])
         | Inr response \<Rightarrow>
             (if rs_status response \<in> set ok_responses
              then (glacier_response_init (net l) response response_headers, wire @ [req])
              else (Inl (Boto_Error ''UnexpectedHTTPResponseError''), wire @ [req])))"

text \<open>\<open>if x:\<close> for an optional string, and \<open>response[key]\<close>.\<close>

definition truthy :: "string option \<Rightarrow> bool" where
  "truthy x \<longleftrightarrow> x \<noteq> None \<and> x \<noteq> Some []"

definition set_if :: "bool \<Rightarrow> string \<Rightarrow> string \<Rightarrow> (string, string) dict \<Rightarrow> (string, string) dict" where
  "set_if b k v d = (if b then AList.update k v d else d)"

definition getitem :: "glacier_response \<Rightarrow> string \<Rightarrow> jval res" where
  "getitem r k = (case map_of (gl_items r) k of None \<Rightarrow> Inl KeyError | Some v \<Rightarrow> Inr v)"

definition page_params :: "string option \<Rightarrow> string option \<Rightarrow> (string, string) dict" where
  "page_params limit marker =
     set_if (truthy marker) ''marker'' (the marker) (set_if (truthy limit) ''limit'' (the limit) [])"

section \<open>Vaults\<close>

definition list_vaults :: "layer1 \<Rightarrow> string option \<Rightarrow> string option \<Rightarrow> glacier_response glacier_op" where
  "list_vaults l limit marker =
     make_request l ''GET'' ''vaults'' [] [] [200] (page_params limit marker) []"

definition describe_vault :: "layer1 \<Rightarrow> string \<Rightarrow> glacier_response glacier_op" where
  "describe_vault l vault_name =
     make_request l ''GET'' (''vaults/'' @ vault_name) [] [] [200] [] []"

definition create_vault :: "layer1 \<Rightarrow> string \<Rightarrow> glacier_response glacier_op" where
  "create_vault l vault_name =
     make_request l ''PUT'' (''vaults/'' @ vault_name) [] [] [201] [] [(''Location'', ''Location'')]"

definition delete_vault :: "layer1 \<Rightarrow> string \<Rightarrow> glacier_response glacier_op" where
  "delete_vault l vault_name =
     make_request l ''DELETE'' (''vaults/'' @ vault_name) [] [] [204] [] []"

definition get_vault_notifications :: "layer1 \<Rightarrow> string \<Rightarrow> glacier_response glacier_op" where
  "get_vault_notifications l vault_name =
     make_request l ''GET'' (''vaults/'' @ vault_name @ ''/notification-configuration'') [] [] [200] [] []"

definition set_vault_notifications :: "layer1 \<Rightarrow> string \<Rightarrow> jval \<Rightarrow> glacier_response glacier_op" where
  "set_vault_notifications l vault_name notification_config =
     make_request l ''PUT'' (''vaults/'' @ vault_name @ ''/notification-configuration'') []
       (json_dumps (net l) notification_config) [204] [] []"

definition delete_vault_notifications :: "layer1 \<Rightarrow> string \<Rightarrow> glacier_response glacier_op" where
  "delete_vault_notifications l vault_name =
     make_request l ''DELETE'' (''vaults/'' @ vault_name @ ''/notification-configuration'') [] [] [204] [] []"

section \<open>Jobs\<close>

definition list_jobs ::
  "layer1 \<Rightarrow> string \<Rightarrow> bool option \<Rightarrow> string option \<Rightarrow> string option \<Rightarrow> string option \<Rightarrow> glacier_response glacier_op" where
  "list_jobs l vault_name completed status_code limit marker =
     (let params = set_if (truthy status_code) ''statuscode'' (the status_code) (page_params limit marker);
          params = set_if (completed \<noteq> None) ''completed'' (if the completed then ''true'' else ''false'') params
      in make_request l ''GET'' (''vaults/'' @ vault_name @ ''/jobs'') [] [] [200] params [])"

definition describe_job :: "layer1 \<Rightarrow> string \<Rightarrow> string \<Rightarrow> glacier_response glacier_op" where
  "describe_job l vault_name job_id =
     make_request l ''GET'' (''vaults/'' @ vault_name @ ''/jobs/'' @ job_id) [] [] [200] [] []"

definition initiate_job :: "layer1 \<Rightarrow> string \<Rightarrow> jval \<Rightarrow> glacier_response glacier_op" where
  "initiate_job l vault_name job_data =
     make_request l ''POST'' (''vaults/'' @ vault_name @ ''/jobs'') [] (json_dumps (net l) job_data) [202] []
       [(''x-amz-job-id'', ''JobId''), (''Location'', ''Location'')]"

text \<open>The range text \<open>'%d-%d' % byte_range\<close> of the \<open>Range\<close> and \<open>Content-Range\<close> headers.\<close>

definition range_text :: "int \<times> int \<Rightarrow> string" where
  "range_text byte_range = str_int (fst byte_range) @ ''-'' @ str_int (snd byte_range)"

definition get_job_output :: "layer1 \<Rightarrow> string \<Rightarrow> string \<Rightarrow> (int \<times> int) option \<Rightarrow> glacier_response glacier_op" where
  "get_job_output l vault_name job_id byte_range =
     (let headers = (case byte_range of None \<Rightarrow> [] | Some r \<Rightarrow> [(''Range'', ''bytes='' @ range_text r)])
      in make_request l ''GET'' (''vaults/'' @ vault_name @ ''/jobs/'' @ job_id @ ''/output'') headers [] [200, 206] []
           [(''x-amz-sha256-tree-hash'', ''TreeHash''), (''Content-Range'', ''ContentRange''),
            (''Content-Type'', ''ContentType'')])"

section \<open>Archives\<close>

text \<open>
  The archive is a byte string, or a file object that is sent from its current position by a
  \<open>ResettingFileSender\<close>; \<open>os.fstat\<close> gives the size of the whole file.
\<close>

datatype archive = Archive_Bytes string | Archive_File pyfile

definition is_file_like :: "archive \<Rightarrow> bool" where
  "is_file_like a = (case a of Archive_Bytes _ \<Rightarrow> False | Archive_File _ \<Rightarrow> True)"

definition archive_content_length :: "archive \<Rightarrow> nat" where
  "archive_content_length a = (case a of Archive_Bytes s \<Rightarrow> length s | Archive_File f \<Rightarrow> length (file_data f))"

definition archive_payload :: "archive \<Rightarrow> string" where
  "archive_payload a = (case a of Archive_Bytes s \<Rightarrow> s | Archive_File f \<Rightarrow> file_rest f)"

definition upload_archive ::
  "layer1 \<Rightarrow> string \<Rightarrow> archive \<Rightarrow> string \<Rightarrow> string \<Rightarrow> string option \<Rightarrow> glacier_response glacier_op" where
  "upload_archive l vault_name a linear_hash treehash description =
     (let headers = [(''x-amz-content-sha256'', linear_hash), (''x-amz-sha256-tree-hash'', treehash),
            (''Content-Length'', nat_str (archive_content_length a))];
          headers = set_if (truthy description) ''x-amz-archive-description'' (the description) headers
      in make_request l ''POST'' (''vaults/'' @ vault_name @ ''/archives'') headers (archive_payload a) [201] []
           [(''x-amz-archive-id'', ''ArchiveId''), (''Location'', ''Location''),
            (''x-amz-sha256-tree-hash'', ''TreeHash'')])"

definition delete_archive :: "layer1 \<Rightarrow> string \<Rightarrow> string \<Rightarrow> glacier_response glacier_op" where
  "delete_archive l vault_name archive_id =
     make_request l ''DELETE'' (''vaults/'' @ vault_name @ ''/archives/'' @ archive_id) [] [] [204] [] []"

section \<open>Multipart uploads\<close>

definition initiate_multipart_upload ::
  "layer1 \<Rightarrow> string \<Rightarrow> nat \<Rightarrow> string option \<Rightarrow> glacier_response glacier_op" where
  "initiate_multipart_upload l vault_name part_size description =
     (let headers = set_if (truthy description) ''x-amz-archive-description'' (the description)
            [(''x-amz-part-size'', nat_str part_size)]
      in make_request l ''POST'' (''vaults/'' @ vault_name @ ''/multipart-uploads'') headers [] [201] []
           [(''x-amz-multipart-upload-id'', ''UploadId''), (''Location'', ''Location'')])"

definition complete_multipart_upload ::
  "layer1 \<Rightarrow> string \<Rightarrow> string \<Rightarrow> string \<Rightarrow> nat \<Rightarrow> glacier_response glacier_op" where
  "complete_multipart_upload l vault_name upload_id sha256_treehash archive_size =
     make_request l ''POST'' (''vaults/'' @ vault_name @ ''/multipart-uploads/'' @ upload_id)
       [(''x-amz-sha256-tree-hash'', sha256_treehash), (''x-amz-archive-size'', nat_str archive_size)]
       [] [201] [] [(''x-amz-archive-id'', ''ArchiveId''), (''Location'', ''Location'')]"

definition abort_multipart_upload :: "layer1 \<Rightarrow> string \<Rightarrow> string \<Rightarrow> glacier_response glacier_op" where
  "abort_multipart_upload l vault_name upload_id =
     make_request l ''DELETE'' (''vaults/'' @ vault_name @ ''/multipart-uploads/'' @ upload_id) [] [] [204] [] []"

definition list_multipart_uploads ::
  "layer1 \<Rightarrow> string \<Rightarrow> string option \<Rightarrow> string option \<Rightarrow> glacier_response glacier_op" where
  "list_multipart_uploads l vault_name limit marker =
     make_request l ''GET'' (''vaults/'' @ vault_name @ ''/multipart-uploads'') [] [] [200]
       (page_params limit marker) []"

definition list_parts ::
  "layer1 \<Rightarrow> string \<Rightarrow> string \<Rightarrow> string option \<Rightarrow> string option \<Rightarrow> glacier_response glacier_op" where
  "list_parts l vault_name upload_id limit marker =
     make_request l ''GET'' (''vaults/'' @ vault_name @ ''/multipart-uploads/'' @ upload_id) [] [] [200]
       (page_params limit marker) []"

definition upload_part_headers :: "string \<Rightarrow> string \<Rightarrow> int \<times> int \<Rightarrow> (string, string) dict" where
  "upload_part_headers linear_hash treehash byte_range =
     [(''x-amz-content-sha256'', linear_hash), (''x-amz-sha256-tree-hash'', treehash),
      (''Content-Range'', ''bytes '' @ range_text byte_range @ ''/*'')]"

definition upload_part ::
  "layer1 \<Rightarrow> string \<Rightarrow> string \<Rightarrow> string \<Rightarrow> string \<Rightarrow> int \<times> int \<Rightarrow> string \<Rightarrow> glacier_response glacier_op" where
  "upload_part l vault_name upload_id linear_hash treehash byte_range part_data =
     make_request l ''PUT'' (''vaults/'' @ vault_name @ ''/multipart-uploads/'' @ upload_id)
       (upload_part_headers linear_hash treehash byte_range) part_data [204] []
       [(''x-amz-sha256-tree-hash'', ''TreeHash'')]"

section \<open>What every operation has in common\<close>

text \<open>
  The contract the callers of this layer rely on: an operation sends exactly one request, and
  it answers normally only for the statuses it lists.
\<close>

locale one_request =
  fixes run :: "glacier_response glacier_op"
    and request :: http_req
    and ok :: "int list"
  assumes sends: "snd (run wire) = wire @ [request]"
    and accepted: "fst (run wire) = Inr r \<Longrightarrow> gl_status r \<in> set ok"
begin

lemma sends_once: "length (snd (run wire)) = Suc (length wire)"
  by (simp add: sends)

lemma sends_last: "last (snd (run wire)) = request"
  by (simp add: sends)

lemma refused: "gl_status r \<notin> set ok \<Longrightarrow> fst (run wire) \<noteq> Inr r"
  using accepted by blast

end

text \<open>The request \<open>make_request\<close> sends.\<close>

definition the_request ::
  "layer1 \<Rightarrow> string \<Rightarrow> string \<Rightarrow> (string, string) dict \<Rightarrow> string \<Rightarrow> (string, string) dict \<Rightarrow> http_req" where
  "the_request l verb resource headers data params =
     \<lparr>hr_verb = verb, hr_uri = ''/'' @ account_id l @ ''/'' @ resource,
      hr_headers = AList.update ''x-amz-glacier-version'' Version headers, hr_params = params, hr_body = data\<rparr>"

lemma glacier_response_status:
  "glacier_response_init t resp rh = Inr r \<Longrightarrow> gl_status r = rs_status resp"
  by (auto simp: glacier_response_init_def Let_def res_bind_Inr_iff split: if_splits)

interpretation req: one_request
  "make_request l verb resource headers data ok_responses params response_headers"
  "the_request l verb resource headers data params" ok_responses
  for l verb resource headers data ok_responses params response_headers
  by unfold_locales
    (auto simp: make_request_def the_request_def Let_def dest: glacier_response_status
      split: sum.splits if_splits)

text \<open>
  The request succeeds when the service answers with an accepted status and, where the body is
  JSON, the body parses.
\<close>

lemma make_request_eq:
  "make_request l verb resource headers data ok params rh wire =
    (res_bind (exchange (net l) wire (the_request l verb resource headers data params))
       (\<lambda>resp. if rs_status resp \<in> set ok then glacier_response_init (net l) resp rh
               else Inl (Boto_Error ''UnexpectedHTTPResponseError'')),
     wire @ [the_request l verb resource headers data params])"
  by (auto simp: make_request_def the_request_def Let_def split: sum.splits)

section \<open>Properties\<close>

text \<open>
  \<open>upload_part\<close> sends one PUT to the upload's resource, whose \<open>Content-Range\<close> states the
  byte range, whose headers state both hashes and the API version, and whose body is the part;
  it answers normally only if the service answered 204.
\<close>

theorem upload_part_request:
  "snd (upload_part l vault uid lin tree (a, b) data wire) = wire @
     [\<lparr>hr_verb = ''PUT'', hr_uri = ''/'' @ account_id l @ ''/vaults/'' @ vault @ ''/multipart-uploads/'' @ uid,
       hr_headers = [(''x-amz-content-sha256'', lin), (''x-amz-sha256-tree-hash'', tree),
         (''Content-Range'', ''bytes '' @ str_int a @ ''-'' @ str_int b @ ''/*''),
         (''x-amz-glacier-version'', ''2012-06-01'')],
       hr_params = [], hr_body = data\<rparr>]
   \<and> (\<forall>r. fst (upload_part l vault uid lin tree (a, b) data wire) \<noteq> Inr r \<or> gl_status r = 204)"
proof -
  have "gl_status r = 204" if "fst (upload_part l vault uid lin tree (a, b) data wire) = Inr r" for r
    using req.accepted [OF that [unfolded upload_part_def]] by simp
  moreover have "snd (upload_part l vault uid lin tree (a, b) data wire) = wire @
     [the_request l ''PUT'' (''vaults/'' @ vault @ ''/multipart-uploads/'' @ uid)
        (upload_part_headers lin tree (a, b)) data []]"
    by (simp add: upload_part_def req.sends)
  ultimately show ?thesis
    by (auto simp: the_request_def upload_part_headers_def range_text_def Version_def)
qed

theorem upload_part_request_witness:
  "snd (upload_part \<lparr>account_id = ''-'', net = \<lparr>exchange = (\<lambda>_ _. Inl TypeError), json_loads = (\<lambda>_. Inl ValueError),
      json_dumps = (\<lambda>_. [])\<rparr>\<rparr> ''v'' ''u'' ''l'' ''t'' (0, 3) ''data'' []) =
     [\<lparr>hr_verb = ''PUT'', hr_uri = ''/-/vaults/v/multipart-uploads/u'',
       hr_headers = [(''x-amz-content-sha256'', ''l''), (''x-amz-sha256-tree-hash'', ''t''),
         (''Content-Range'', ''bytes 0-3/*''), (''x-amz-glacier-version'', ''2012-06-01'')],
       hr_params = [], hr_body = ''data''\<rparr>]"
  by (subst conjunct1 [OF upload_part_request]) (simp add: str_int_def nat_str.simps digit_char_def char_eval)

end
