(* ===== verification/Glacier_Writer.thy ===== *)
theory Glacier_Writer
  imports Glacier_Layer1
begin

text \<open>
  \<^verbatim>\<open>boto/glacier/writer.py\<close>: \<open>_Partitioner\<close>, \<open>_Uploader\<close>, \<open>resume_file_upload\<close> and
  \<open>Writer\<close>.  The partitioner calls back a \<open>send_fn\<close>; the locale \<open>part_sink\<close> states what it may
  expect of it, and the uploader of this file is its interpretation.

  Result: whatever the sizes of the writes, closing the writer sends the parts of the
  concatenated data in order, and completes the upload with the tree hash and the length of
  exactly that data.
\<close>

section \<open>The partitioner\<close>

record partitioner =
  pt_part_size :: nat
  pt_buffer :: "string list"
  pt_buffer_size :: nat

definition partitioner_init :: "nat \<Rightarrow> partitioner" where
  "partitioner_init part_size = \<lparr>pt_part_size = part_size, pt_buffer = [], pt_buffer_size = 0\<rparr>"

text \<open>
  The state of a method of the partitioner is the partitioner and the state \<open>'s\<close> of the object
  whose method \<open>send_fn\<close> is.  The buffer is updated before \<open>send_fn\<close> is called.
\<close>

definition send_part :: "(string \<Rightarrow> ('s, unit) py) \<Rightarrow> (partitioner \<times> 's, unit) py" where
  "send_part send_fn = (\<lambda>(p, s).
     let data = concat (pt_buffer p);
         p' = (if pt_part_size p < length data
               then p\<lparr>pt_buffer := [drop (pt_part_size p) data], pt_buffer_size := length (drop (pt_part_size p) data)\<rparr>
               else p\<lparr>pt_buffer := [], pt_buffer_size := 0\<rparr>);
         part = take (pt_part_size p) data
     in (case send_fn part s of (r, s') \<Rightarrow> (r, (p', s'))))"

text \<open>
  \<open>while self._buffer_size > self.part_size: self._send_part()\<close>.  Each round takes \<open>part_size\<close>
  bytes out of the buffer; with \<open>part_size = 0\<close> it takes none, and the loop does not end.
\<close>

definition pt_total :: "partitioner \<Rightarrow> nat" where
  "pt_total p = length (concat (pt_buffer p))"

function write_loop :: "(string \<Rightarrow> ('s, unit) py) \<Rightarrow> (partitioner \<times> 's, unit) py" where
  "write_loop send_fn (p, s) =
     (if pt_part_size p < pt_buffer_size p then
        (if pt_part_size p = 0 then (Inl Diverges, (p, s))
         else case send_part send_fn (p, s) of
             (Inl e, ps) \<Rightarrow> (Inl e, ps)
           | (Inr _, ps) \<Rightarrow> write_loop send_fn ps)
      else (Inr (), (p, s)))"
  by pat_completeness auto
termination
  by (relation "measures [\<lambda>(f, p, s). pt_total p, \<lambda>(f, p, s). pt_buffer_size p]")
    (auto simp: send_part_def Let_def pt_total_def split: prod.splits if_splits)

declare write_loop.simps [simp del]

definition partitioner_write :: "(string \<Rightarrow> ('s, unit) py) \<Rightarrow> string \<Rightarrow> (partitioner \<times> 's, unit) py" where
  "partitioner_write send_fn data = (\<lambda>(p, s).
     if data = [] then (Inr (), (p, s))
     else write_loop send_fn
       (p\<lparr>pt_buffer := pt_buffer p @ [data], pt_buffer_size := pt_buffer_size p + length data\<rparr>, s))"

definition partitioner_flush :: "(string \<Rightarrow> ('s, unit) py) \<Rightarrow> (partitioner \<times> 's, unit) py" where
  "partitioner_flush send_fn = (\<lambda>(p, s).
     if 0 < pt_buffer_size p then send_part send_fn (p, s) else (Inr (), (p, s)))"

text \<open>
  The invariant: the counter is the number of buffered bytes, and after every call at most one
  part is held back.
\<close>

definition pt_wf :: "partitioner \<Rightarrow> bool" where
  "pt_wf p \<longleftrightarrow> pt_buffer_size p = pt_total p \<and> 0 < pt_part_size p"

text \<open>
  The bytes accepted so far are the parts sent and what is buffered; parts sent are full, and
  once any is sent something is held back.
\<close>

definition accounts :: "nat \<Rightarrow> string \<Rightarrow> string list \<Rightarrow> partitioner \<Rightarrow> bool" where
  "accounts part_size data parts p \<longleftrightarrow> pt_wf p \<and> pt_part_size p = part_size
     \<and> pt_total p \<le> part_size \<and> (\<forall>q \<in> set parts. length q = part_size)
     \<and> concat parts @ concat (pt_buffer p) = data \<and> (parts \<noteq> [] \<longrightarrow> 0 < pt_total p)"

text \<open>
  What the partitioner may expect of \<open>send_fn\<close>: a view \<open>sent\<close> of the parts delivered so far, to
  which a successful call adds the part at the end.  \<open>ready\<close> is an invariant of the sink.
\<close>

locale part_sink =
  fixes send :: "string \<Rightarrow> ('s, unit) py"
    and sent :: "'s \<Rightarrow> string list"
    and ready :: "'s \<Rightarrow> bool"
  assumes send_ok: "ready s \<Longrightarrow> send part s = (Inr u, s') \<Longrightarrow> sent s' = sent s @ [part] \<and> ready s'"
begin

lemma send_part_ok:
  assumes "pt_wf p" and "ready s" and "send_part send (p, s) = (Inr u, (p', s'))"
  shows "pt_wf p' \<and> ready s' \<and> pt_part_size p' = pt_part_size p
    \<and> sent s' = sent s @ [take (pt_part_size p) (concat (pt_buffer p))]
    \<and> concat (pt_buffer p') = drop (pt_part_size p) (concat (pt_buffer p))"
proof -
  have *: "send (take (pt_part_size p) (concat (pt_buffer p))) s = (Inr u, s')"
    using assms(3) by (auto simp: send_part_def Let_def split: prod.splits)
  from send_ok [OF assms(2) this] assms(1,3) show ?thesis
    by (auto simp: send_part_def Let_def pt_wf_def pt_total_def split: prod.splits if_splits)
qed

text \<open>The loop delivers full parts and keeps the rest, which is at most one part.\<close>

lemma write_loop_ok:
  assumes "pt_wf p" and "ready s" and "write_loop send (p, s) = (Inr u, (p', s'))"
  shows "pt_wf p' \<and> ready s' \<and> pt_part_size p' = pt_part_size p
    \<and> pt_total p' \<le> pt_part_size p
    \<and> (\<exists>full. sent s' = sent s @ full \<and> (\<forall>f \<in> set full. length f = pt_part_size p)
         \<and> concat full @ concat (pt_buffer p') = concat (pt_buffer p)
         \<and> (full \<noteq> [] \<longrightarrow> 0 < pt_total p'))"
  using assms
proof (induction "pt_total p" arbitrary: p s rule: less_induct)
  case less
  show ?case
  proof (cases "pt_part_size p < pt_buffer_size p")
    case False
    with less.prems show ?thesis
      by (intro conjI exI [of _ "[]"]) (auto simp: write_loop.simps pt_wf_def)
  next
    case True
    with less.prems(1) have pos: "pt_part_size p \<noteq> 0" by (simp add: pt_wf_def)
    with True less.prems(3) obtain p1 s1 v where
      step: "send_part send (p, s) = (Inr v, (p1, s1))" and
      rec: "write_loop send (p1, s1) = (Inr u, (p', s'))"
      by (auto simp: write_loop.simps [of send p s] split: prod.splits sum.splits)
    note ok = send_part_ok [OF less.prems(1,2) step]
    let ?part = "take (pt_part_size p) (concat (pt_buffer p))"
    have len: "length ?part = pt_part_size p" and rest: "0 < pt_total p1" "pt_total p1 < pt_total p"
      using True pos less.prems(1) ok by (auto simp: pt_wf_def pt_total_def)
    from less.hyps [OF rest(2) _ _ rec] ok
    obtain full where full: "pt_wf p' \<and> ready s' \<and> pt_part_size p' = pt_part_size p1
      \<and> pt_total p' \<le> pt_part_size p1" "sent s' = sent s1 @ full"
      "\<forall>f \<in> set full. length f = pt_part_size p1"
      "concat full @ concat (pt_buffer p') = concat (pt_buffer p1)"
      "full \<noteq> [] \<longrightarrow> 0 < pt_total p'"
      by blast
    have "0 < pt_total p'" using full(4,5) rest by (cases "full = []") (auto simp: pt_total_def)
    moreover have "concat (?part # full) @ concat (pt_buffer p') = concat (pt_buffer p)"
      using full(4) ok by simp
    ultimately show ?thesis using full ok len
      by (intro conjI exI [of _ "?part # full"]) auto
  qed
qed

lemma write_ok:
  assumes inv: "accounts n D (sent s) p" "ready s"
    and run: "partitioner_write send data (p, s) = (Inr u, (p', s'))"
  shows "accounts n (D @ data) (sent s') p' \<and> ready s'"
proof (cases "data = []")
  case True
  with run inv show ?thesis by (simp add: partitioner_write_def)
next
  case False
  let ?q = "p\<lparr>pt_buffer := pt_buffer p @ [data], pt_buffer_size := pt_buffer_size p + length data\<rparr>"
  from inv have q: "pt_wf ?q" by (simp add: accounts_def pt_wf_def pt_total_def)
  from run False have "write_loop send (?q, s) = (Inr u, (p', s'))" by (simp add: partitioner_write_def)
  from write_loop_ok [OF q inv(2) this] obtain full where full:
    "pt_wf p' \<and> ready s' \<and> pt_part_size p' = pt_part_size p \<and> pt_total p' \<le> pt_part_size p"
    "sent s' = sent s @ full" "\<forall>f \<in> set full. length f = pt_part_size p"
    "concat full @ concat (pt_buffer p') = concat (pt_buffer p) @ data"
    "full \<noteq> [] \<longrightarrow> 0 < pt_total p'"
    by auto
  have "0 < pt_total p'" if "sent s' \<noteq> []"
    using full(2,4,5) that inv(1) False by (cases "full = []") (auto simp: accounts_def pt_total_def)
  with full inv(1) show ?thesis by (auto simp: accounts_def)
qed

lemma flush_ok:
  assumes inv: "accounts n D (sent s) p" "ready s"
    and run: "partitioner_flush send (p, s) = (Inr u, (p', s'))"
  shows "sent s' = pieces n D \<and> ready s'"
proof -
  from inv(1) have D: "D = concat (sent s) @ concat (pt_buffer p)" and n: "0 < n"
    by (auto simp: accounts_def pt_wf_def)
  from inv(1) have pD: "pieces n D = sent s @ pieces n (concat (pt_buffer p))"
    unfolding D by (intro pieces_full) (auto simp: accounts_def pt_wf_def)
  show ?thesis
  proof (cases "0 < pt_buffer_size p")
    case True
    with run have "send_part send (p, s) = (Inr u, (p', s'))" by (simp add: partitioner_flush_def)
    from send_part_ok [OF _ inv(2) this] inv(1) True pD show ?thesis
      by (auto simp: accounts_def pt_wf_def pt_total_def pieces_single)
  next
    case False
    with inv(1) have "concat (pt_buffer p) = []"
      by (simp add: accounts_def pt_wf_def pt_total_def)
    with pD have "pieces n D = sent s" by (simp only: pieces_Nil append_Nil2)
    moreover from False run have "s' = s" by (simp add: partitioner_flush_def)
    ultimately show ?thesis using inv(2) by simp
  qed
qed

end

text \<open>A sink that never refuses: then the partitioner's calls return.\<close>

locale accepting_sink = part_sink +
  assumes accepts: "ready s \<Longrightarrow> \<exists>s'. send part s = (Inr (), s')"
begin

lemma send_part_returns: "ready s \<Longrightarrow> \<exists>p' s'. send_part send (p, s) = (Inr (), (p', s'))"
  using accepts [of s "take (pt_part_size p) (concat (pt_buffer p))"]
  by (auto simp: send_part_def Let_def)

lemma write_loop_returns: "pt_wf p \<Longrightarrow> ready s \<Longrightarrow> \<exists>p' s'. write_loop send (p, s) = (Inr (), (p', s'))"
proof (induction "pt_total p" arbitrary: p s rule: less_induct)
  case less
  show ?case
  proof (cases "pt_part_size p < pt_buffer_size p")
    case True
    from send_part_returns [OF less.prems(2)] obtain p1 s1
      where step: "send_part send (p, s) = (Inr (), (p1, s1))" by blast
    note ok = send_part_ok [OF less.prems step]
    have "pt_total p1 < pt_total p"
      using True less.prems(1) ok by (auto simp: pt_wf_def pt_total_def)
    with less.hyps [of p1 s1] ok less.prems(1) True step show ?thesis
      by (simp add: write_loop.simps [of send p s] pt_wf_def)
  qed (simp add: write_loop.simps)
qed

lemma write_returns:
  "pt_wf p \<Longrightarrow> ready s \<Longrightarrow> \<exists>p' s'. partitioner_write send data (p, s) = (Inr (), (p', s'))"
  by (auto simp: partitioner_write_def pt_wf_def pt_total_def intro!: write_loop_returns)

lemma flush_returns: "ready s \<Longrightarrow> \<exists>p' s'. partitioner_flush send (p, s) = (Inr (), (p', s'))"
  using send_part_returns [of s p] by (auto simp: partitioner_flush_def)

end

section \<open>The uploader\<close>

record uploader =
  up_vault :: string
  up_upload_id :: string
  up_part_size :: nat
  up_chunk_size :: nat
  up_archive_id :: "jval option"
  up_uploaded_size :: nat
  up_tree_hashes :: "string option list"
  up_closed :: bool

type_synonym 'a uploader_op = "(uploader \<times> http_req list, 'a) py"

definition uploader_init :: "string \<Rightarrow> string \<Rightarrow> nat \<Rightarrow> nat \<Rightarrow> uploader" where
  "uploader_init vault upload_id part_size chunk_size =
     \<lparr>up_vault = vault, up_upload_id = upload_id, up_part_size = part_size, up_chunk_size = chunk_size,
      up_archive_id = None, up_uploaded_size = 0, up_tree_hashes = [], up_closed = False\<rparr>"

text \<open>
  \<open>[None] * (list_length - index + 1)\<close> is empty for a count that is not positive, which natural
  subtraction of \<open>list_length + 1\<close> and \<open>index\<close> reproduces.
\<close>

definition insert_tree_hash :: "nat \<Rightarrow> string \<Rightarrow> string option list \<Rightarrow> string option list res" where
  "insert_tree_hash index raw_tree_hash tree_hashes =
     (let list_length = length tree_hashes;
          extended = (if list_length \<le> index
                      then tree_hashes @ replicate (list_length + 1 - index) None else tree_hashes)
      in if index < length extended then Inr (extended[index := Some raw_tree_hash]) else Inl IndexError)"

definition uploader_upload_part ::
  "(string \<Rightarrow> string) \<Rightarrow> layer1 \<Rightarrow> nat \<Rightarrow> string \<Rightarrow> unit uploader_op" where
  "uploader_upload_part H l part_index part_data = (\<lambda>(u, wire).
     if up_closed u then (Inl ValueError, (u, wire))
     else case res_bind (chunk_hashes H part_data (up_chunk_size u)) (tree_hash H) of
       Inl e \<Rightarrow> (Inl e, (u, wire))
     | Inr part_hash \<Rightarrow>
       (case insert_tree_hash part_index part_hash (up_tree_hashes u) of
          Inl e \<Rightarrow> (Inl e, (u, wire))
        | Inr hashes \<Rightarrow>
          (let u1 = u\<lparr>up_tree_hashes := hashes\<rparr>;
               hex_tree_hash = bytes_to_hex part_hash;
               linear_hash = hexlify (H part_data);
               start = int (up_part_size u * part_index);
               content_range = (start, start + int (length part_data) - 1)
           in case upload_part l (up_vault u) (up_upload_id u) linear_hash hex_tree_hash content_range part_data wire of
                (Inl e, wire') \<Rightarrow> (Inl e, (u1, wire'))
              | (Inr _, wire') \<Rightarrow>
                  (Inr (), (u1\<lparr>up_uploaded_size := up_uploaded_size u1 + length part_data\<rparr>, wire')))))"

definition uploader_skip_part :: "nat \<Rightarrow> string \<Rightarrow> nat \<Rightarrow> unit uploader_op" where
  "uploader_skip_part part_index part_hash part_length = (\<lambda>(u, wire).
     if up_closed u then (Inl ValueError, (u, wire))
     else case insert_tree_hash part_index part_hash (up_tree_hashes u) of
       Inl e \<Rightarrow> (Inl e, (u, wire))
     | Inr hashes \<Rightarrow>
         (Inr (), (u\<lparr>up_tree_hashes := hashes, up_uploaded_size := up_uploaded_size u + part_length\<rparr>, wire)))"

definition uploader_close :: "(string \<Rightarrow> string) \<Rightarrow> layer1 \<Rightarrow> unit uploader_op" where
  "uploader_close H l = (\<lambda>(u, wire).
     if up_closed u then (Inr (), (u, wire))
     else if None \<in> set (up_tree_hashes u) then (Inl RuntimeError, (u, wire))
     else case tree_hash H (map the (up_tree_hashes u)) of
       Inl e \<Rightarrow> (Inl e, (u, wire))
     | Inr t \<Rightarrow>
       (case complete_multipart_upload l (up_vault u) (up_upload_id u) (bytes_to_hex t) (up_uploaded_size u) wire of
          (Inl e, wire') \<Rightarrow> (Inl e, (u, wire'))
        | (Inr response, wire') \<Rightarrow>
          (case getitem response ''ArchiveId'' of
             Inl e \<Rightarrow> (Inl e, (u, wire'))
           | Inr a \<Rightarrow> (Inr (), (u\<lparr>up_archive_id := Some a, up_closed := True\<rparr>, wire')))))"

lemma insert_tree_hash_next: "insert_tree_hash (length hs) t hs = Inr (hs @ [Some t])"
  by (simp add: insert_tree_hash_def list_update_append)

lemma insert_tree_hash_beyond: "length hs < i \<Longrightarrow> insert_tree_hash i t hs = Inl IndexError"
  by (simp add: insert_tree_hash_def)

text \<open>The request for part number \<open>i\<close>, and the one that completes the upload.\<close>

definition part_request ::
  "(string \<Rightarrow> string) \<Rightarrow> layer1 \<Rightarrow> string \<Rightarrow> string \<Rightarrow> nat \<Rightarrow> nat \<Rightarrow> nat \<times> string \<Rightarrow> http_req" where
  "part_request H l vault uid part_size c ip =
     the_request l ''PUT'' (''vaults/'' @ vault @ ''/multipart-uploads/'' @ uid)
       (upload_part_headers (hexlify (H (snd ip))) (bytes_to_hex (part_tree_hash H c (snd ip)))
         (int (part_size * fst ip), int (part_size * fst ip) + int (length (snd ip)) - 1)) (snd ip) []"

definition complete_request :: "layer1 \<Rightarrow> string \<Rightarrow> string \<Rightarrow> string \<Rightarrow> nat \<Rightarrow> http_req" where
  "complete_request l vault uid treehash archive_size =
     the_request l ''POST'' (''vaults/'' @ vault @ ''/multipart-uploads/'' @ uid)
       [(''x-amz-sha256-tree-hash'', treehash), (''x-amz-archive-size'', nat_str archive_size)] [] []"

lemma part_request_body [simp]: "hr_body (part_request H l v uid n c ip) = snd ip"
  by (simp add: part_request_def the_request_def)

text \<open>
  The uploader after the parts \<open>parts\<close> were uploaded or skipped in order.
\<close>

definition holds_parts ::
  "(string \<Rightarrow> string) \<Rightarrow> string \<Rightarrow> string \<Rightarrow> nat \<Rightarrow> nat \<Rightarrow> string list \<Rightarrow> uploader \<Rightarrow> bool" where
  "holds_parts H vault uid part_size c parts u \<longleftrightarrow>
     up_vault u = vault \<and> up_upload_id u = uid \<and> up_part_size u = part_size \<and> up_chunk_size u = c
     \<and> 0 < c \<and> \<not> up_closed u
     \<and> up_tree_hashes u = map (\<lambda>p. Some (part_tree_hash H c p)) parts
     \<and> up_uploaded_size u = length (concat parts)"

text \<open>One part, with the request that carries it and the state it leaves.\<close>

lemma uploader_upload_part_eq:
  assumes "holds_parts H v uid n c parts u"
  shows "uploader_upload_part H l (length parts) part (u, wire) =
    (let u1 = u\<lparr>up_tree_hashes := up_tree_hashes u @ [Some (part_tree_hash H c part)]\<rparr>
     in (case fst (upload_part l v uid (hexlify (H part)) (bytes_to_hex (part_tree_hash H c part))
             (int (n * length parts), int (n * length parts) + int (length part) - 1) part wire) of
           Inl e \<Rightarrow> (Inl e, (u1, wire @ [part_request H l v uid n c (length parts, part)]))
         | Inr _ \<Rightarrow> (Inr (), (u1\<lparr>up_uploaded_size := up_uploaded_size u + length part\<rparr>,
             wire @ [part_request H l v uid n c (length parts, part)]))))"
proof -
  let ?call = "upload_part l v uid (hexlify (H part)) (bytes_to_hex (part_tree_hash H c part))
      (int (n * length parts), int (n * length parts) + int (length part) - 1) part wire"
  have call: "?call = (fst ?call, wire @ [part_request H l v uid n c (length parts, part)])"
    by (simp add: prod_eq_iff upload_part_def req.sends part_request_def)
  have len: "length parts = length (up_tree_hashes u)" using assms by (simp add: holds_parts_def)
  then have ins: "insert_tree_hash (length parts) (part_tree_hash H c part) (up_tree_hashes u)
      = Inr (up_tree_hashes u @ [Some (part_tree_hash H c part)])"
    by (simp add: insert_tree_hash_next)
  have hash: "res_bind (chunk_hashes H part (up_chunk_size u)) (tree_hash H) = Inr (part_tree_hash H c part)"
    using assms by (simp add: holds_parts_def part_tree_hash)
  have u: "\<not> up_closed u" "up_vault u = v" "up_upload_id u = uid" "up_part_size u = n"
    using assms by (simp_all add: holds_parts_def)
  show ?thesis
    by (subst uploader_upload_part_def, simp only: prod.case u hash ins if_False sum.case Let_def
        uploader.simps simp_thms)
      (subst call, simp split: sum.split)
qed

lemma holds_parts_snoc:
  "holds_parts H v uid n c parts u \<Longrightarrow>
   holds_parts H v uid n c (parts @ [part])
     (u\<lparr>up_tree_hashes := up_tree_hashes u @ [Some (part_tree_hash H c part)],
        up_uploaded_size := up_uploaded_size u + length part\<rparr>)"
  by (simp add: holds_parts_def)

lemma uploader_upload_part_next:
  assumes "holds_parts H v uid n c parts u"
    and "uploader_upload_part H l (length parts) part (u, wire) = (Inr x, (u', wire'))"
  shows "holds_parts H v uid n c (parts @ [part]) u'
    \<and> wire' = wire @ [part_request H l v uid n c (length parts, part)]"
  using assms(2) holds_parts_snoc [OF assms(1), of part]
  by (auto simp: uploader_upload_part_eq [OF assms(1)] Let_def split: sum.splits)

lemma uploader_close_request:
  assumes "holds_parts H v uid n c parts u" and "parts \<noteq> []"
    and run: "uploader_close H l (u, wire) = (Inr x, (u', wire'))"
  shows "up_closed u' \<and> (\<exists>t. tree_hash H (map (part_tree_hash H c) parts) = Inr t
    \<and> wire' = wire @ [complete_request l v uid (bytes_to_hex t) (length (concat parts))])"
proof -
  obtain t where t: "tree_hash H (map (part_tree_hash H c) parts) = Inr t"
    using tree_hash_total [of "map (part_tree_hash H c) parts" H] assms(2) by auto
  let ?call = "complete_multipart_upload l v uid (bytes_to_hex t) (length (concat parts)) wire"
  have call: "?call = (fst ?call, wire @ [complete_request l v uid (bytes_to_hex t) (length (concat parts))])"
    by (simp add: prod_eq_iff complete_multipart_upload_def req.sends complete_request_def)
  have u: "\<not> up_closed u" "None \<notin> set (up_tree_hashes u)" "up_vault u = v" "up_upload_id u = uid"
    "up_uploaded_size u = length (concat parts)"
    "map the (up_tree_hashes u) = map (part_tree_hash H c) parts"
    using assms(1) by (auto simp: holds_parts_def comp_def)
  from run show ?thesis
    unfolding uploader_close_def prod.case u t sum.case if_False
    using u(1,2) t
    by (subst (asm) call) (auto split: sum.splits)
qed

section \<open>Writer\<close>

record writer =
  wr_uploader :: uploader
  wr_partitioner :: partitioner
  wr_closed :: bool
  wr_next_part_index :: nat

definition writer_init :: "string \<Rightarrow> string \<Rightarrow> nat \<Rightarrow> nat \<Rightarrow> writer" where
  "writer_init vault upload_id part_size chunk_size =
     \<lparr>wr_uploader = uploader_init vault upload_id part_size chunk_size,
      wr_partitioner = partitioner_init part_size, wr_closed = False, wr_next_part_index = 0\<rparr>"

text \<open>
  \<open>Writer._upload_part\<close>, the partitioner's \<open>send_fn\<close>: its state is the uploader, the number of
  the next part, and the requests sent.
\<close>

type_synonym sink_state = "uploader \<times> nat \<times> http_req list"

definition writer_upload_part :: "(string \<Rightarrow> string) \<Rightarrow> layer1 \<Rightarrow> string \<Rightarrow> (sink_state, unit) py" where
  "writer_upload_part H l part_data = (\<lambda>(u, next_part_index, wire).
     case uploader_upload_part H l next_part_index part_data (u, wire) of
       (Inl e, (u', wire')) \<Rightarrow> (Inl e, (u', next_part_index, wire'))
     | (Inr _, (u', wire')) \<Rightarrow> (Inr (), (u', next_part_index + 1, wire')))"

definition with_partitioner ::
  "(partitioner \<times> sink_state, unit) py \<Rightarrow> (writer \<times> http_req list, unit) py" where
  "with_partitioner m = (\<lambda>(w, wire).
     case m (wr_partitioner w, (wr_uploader w, wr_next_part_index w, wire)) of
       (r, (p, (u, n, wire'))) \<Rightarrow>
         (r, (w\<lparr>wr_partitioner := p, wr_uploader := u, wr_next_part_index := n\<rparr>, wire')))"

definition writer_write ::
  "(string \<Rightarrow> string) \<Rightarrow> layer1 \<Rightarrow> string \<Rightarrow> (writer \<times> http_req list, unit) py" where
  "writer_write H l data = (\<lambda>(w, wire).
     if wr_closed w then (Inl ValueError, (w, wire))
     else with_partitioner (partitioner_write (writer_upload_part H l) data) (w, wire))"

definition writer_close ::
  "(string \<Rightarrow> string) \<Rightarrow> layer1 \<Rightarrow> (writer \<times> http_req list, unit) py" where
  "writer_close H l = (\<lambda>(w, wire).
     if wr_closed w then (Inr (), (w, wire))
     else case with_partitioner (partitioner_flush (writer_upload_part H l)) (w, wire) of
       (Inl e, s) \<Rightarrow> (Inl e, s)
     | (Inr _, (w1, wire1)) \<Rightarrow>
       (case uploader_close H l (wr_uploader w1, wire1) of
          (Inl e, (u, wire2)) \<Rightarrow> (Inl e, (w1\<lparr>wr_uploader := u\<rparr>, wire2))
        | (Inr _, (u, wire2)) \<Rightarrow> (Inr (), (w1\<lparr>wr_uploader := u, wr_closed := True\<rparr>, wire2))))"

definition writer_get_archive_id ::
  "(string \<Rightarrow> string) \<Rightarrow> layer1 \<Rightarrow> (writer \<times> http_req list, jval option) py" where
  "writer_get_archive_id H l = py_bind (writer_close H l)
     (\<lambda>_ (w, wire). (Inr (up_archive_id (wr_uploader w)), (w, wire)))"

text \<open>
  \<open>current_tree_hash\<close>: a \<open>None\<close> among two or more digests is concatenated with a string
  sooner or later, which raises \<open>TypeError\<close>; alone it is the result.
\<close>

definition writer_current_tree_hash :: "(string \<Rightarrow> string) \<Rightarrow> writer \<Rightarrow> string option res" where
  "writer_current_tree_hash H w =
     (let hs = up_tree_hashes (wr_uploader w)
      in if None \<notin> set hs then res_bind (tree_hash H (map the hs)) (\<lambda>t. Inr (Some t))
         else if length hs = 1 then Inr None else Inl TypeError)"

definition writer_current_uploaded_size :: "writer \<Rightarrow> nat" where
  "writer_current_uploaded_size w = up_uploaded_size (wr_uploader w)"

text \<open>
  The requests for consecutive parts, and the state of the sink once \<open>parts\<close> went through it,
  starting from the requests \<open>wire0\<close>.
\<close>

definition part_requests ::
  "(string \<Rightarrow> string) \<Rightarrow> layer1 \<Rightarrow> string \<Rightarrow> string \<Rightarrow> nat \<Rightarrow> nat \<Rightarrow> string list \<Rightarrow> http_req list" where
  "part_requests H l v uid n c parts = map (part_request H l v uid n c) (enumerate 0 parts)"

definition sink_sent :: "http_req list \<Rightarrow> sink_state \<Rightarrow> string list" where
  "sink_sent wire0 = (\<lambda>(u, n, wire). map hr_body (drop (length wire0) wire))"

definition sink_ready ::
  "(string \<Rightarrow> string) \<Rightarrow> layer1 \<Rightarrow> string \<Rightarrow> string \<Rightarrow> nat \<Rightarrow> nat \<Rightarrow> http_req list \<Rightarrow> sink_state \<Rightarrow> bool" where
  "sink_ready H l v uid n c wire0 s \<longleftrightarrow> (case s of (u, i, wire) \<Rightarrow>
     let parts = sink_sent wire0 s
     in holds_parts H v uid n c parts u \<and> i = length parts
        \<and> wire = wire0 @ part_requests H l v uid n c parts)"

lemma part_requests_snoc:
  "part_requests H l v uid n c (parts @ [p]) =
   part_requests H l v uid n c parts @ [part_request H l v uid n c (length parts, p)]"
  by (simp add: part_requests_def enumerate_append_eq)

lemma body_part_requests [simp]: "map hr_body (part_requests H l v uid n c parts) = parts"
  by (simp add: part_requests_def comp_def)

interpretation wsink: part_sink "writer_upload_part H l" "sink_sent wire0" "sink_ready H l v uid n c wire0"
  for H l v uid n c wire0
proof unfold_locales
  fix s part x s'
  assume ready: "sink_ready H l v uid n c wire0 s" and run: "writer_upload_part H l part s = (Inr x, s')"
  obtain u i wire where s: "s = (u, i, wire)" by (cases s) auto
  define ps where "ps = sink_sent wire0 s"
  from ready s have hp: "holds_parts H v uid n c ps u" and i: "i = length ps"
    and w: "wire = wire0 @ part_requests H l v uid n c ps"
    by (simp_all add: sink_ready_def Let_def ps_def)
  from run s i obtain u' wire' where
    up: "uploader_upload_part H l (length ps) part (u, wire) = (Inr (), (u', wire'))"
    and s': "s' = (u', i + 1, wire')"
    by (auto simp: writer_upload_part_def split: prod.splits sum.splits)
  from uploader_upload_part_next [OF hp up] have
    hp': "holds_parts H v uid n c (ps @ [part]) u'" and
    w': "wire' = wire0 @ part_requests H l v uid n c (ps @ [part])"
    using w by (simp_all add: part_requests_snoc)
  have "sink_sent wire0 s' = ps @ [part]"
    unfolding s' w' by (simp add: sink_sent_def)
  then show "sink_sent wire0 s' = sink_sent wire0 s @ [part] \<and> sink_ready H l v uid n c wire0 s'"
    using hp' w' i s' by (simp add: sink_ready_def Let_def flip: ps_def)
qed

text \<open>
  A service that accepts the requests of an upload: 204 to a PUT, 201 to a POST, without a JSON
  body.  What it answers to other requests is left open.
\<close>

definition service_accepts :: "layer1 \<Rightarrow> bool" where
  "service_accepts l \<longleftrightarrow> (\<forall>wire req. hr_verb req \<in> {''PUT'', ''POST''} \<longrightarrow>
     (\<exists>resp. exchange (net l) wire req = Inr resp
       \<and> rs_status resp = (if hr_verb req = ''PUT'' then 204 else 201)
       \<and> getheader ''Content-Type'' resp \<noteq> Some ''application/json''))"

lemma accepted_put:
  "service_accepts l \<Longrightarrow> \<exists>r. fst (make_request l ''PUT'' res h d [204] p rh wire) = Inr r"
  unfolding service_accepts_def make_request_eq
  by (drule spec [of _ wire], drule spec [of _ "the_request l ''PUT'' res h d p"])
    (auto simp: the_request_def glacier_response_init_def Let_def)

lemma accepted_post:
  assumes "service_accepts l"
  shows "\<exists>r. fst (complete_multipart_upload l v uid t m wire) = Inr r \<and> (\<exists>a. getitem r ''ArchiveId'' = Inr a)"
  using assms unfolding service_accepts_def complete_multipart_upload_def make_request_eq
  by (auto dest!: spec [of _ wire] spec [of _ "the_request l ''POST'' (''vaults/'' @ v @ ''/multipart-uploads/'' @ uid)
        [(''x-amz-sha256-tree-hash'', t), (''x-amz-archive-size'', nat_str m)] [] []"]
      simp: the_request_def glacier_response_init_def Let_def getitem_def)

lemma uploader_upload_part_accepted:
  assumes "service_accepts l" and hp: "holds_parts H v uid n c parts u"
  shows "\<exists>u'. uploader_upload_part H l (length parts) part (u, wire) =
      (Inr (), (u', wire @ [part_request H l v uid n c (length parts, part)]))
    \<and> holds_parts H v uid n c (parts @ [part]) u'"
proof -
  from accepted_put [OF assms(1)] obtain r where
    "fst (upload_part l v uid (hexlify (H part)) (bytes_to_hex (part_tree_hash H c part))
      (int (n * length parts), int (n * length parts) + int (length part) - 1) part wire) = Inr r"
    unfolding upload_part_def by blast
  then show ?thesis using holds_parts_snoc [OF hp, of part]
    by (simp add: uploader_upload_part_eq [OF hp] Let_def)
qed

lemma uploader_skip_part_next:
  assumes hp: "holds_parts H v uid n c parts u"
  shows "\<exists>u'. uploader_skip_part (length parts) (part_tree_hash H c part) (length part) (u, wire) =
      (Inr (), (u', wire)) \<and> holds_parts H v uid n c (parts @ [part]) u'"
proof -
  have "insert_tree_hash (length parts) (part_tree_hash H c part) (up_tree_hashes u)
      = Inr (up_tree_hashes u @ [Some (part_tree_hash H c part)])"
    using insert_tree_hash_next [of "up_tree_hashes u"] hp by (simp add: holds_parts_def)
  then show ?thesis using holds_parts_snoc [OF hp, of part] hp
    by (simp add: uploader_skip_part_def holds_parts_def)
qed

lemma uploader_close_accepted:
  assumes acc: "service_accepts l" and hp: "holds_parts H v uid n c parts u" and ne: "parts \<noteq> []"
  shows "\<exists>u' t. uploader_close H l (u, wire) =
      (Inr (), (u', wire @ [complete_request l v uid (bytes_to_hex t) (length (concat parts))]))
    \<and> tree_hash H (map (part_tree_hash H c) parts) = Inr t"
proof -
  obtain t where t: "tree_hash H (map (part_tree_hash H c) parts) = Inr t"
    using tree_hash_total [of "map (part_tree_hash H c) parts" H] ne by auto
  from accepted_post [OF acc] obtain r a where
    call: "fst (complete_multipart_upload l v uid (bytes_to_hex t) (length (concat parts)) wire) = Inr r"
    and a: "getitem r ''ArchiveId'' = Inr a" by blast
  have cl: "\<not> up_closed u" "None \<notin> set (up_tree_hashes u)"
    "map the (up_tree_hashes u) = map (part_tree_hash H c) parts"
    "up_vault u = v" "up_upload_id u = uid" "up_uploaded_size u = length (concat parts)"
    using hp by (auto simp: holds_parts_def comp_def)
  obtain u' wire' where close: "uploader_close H l (u, wire) = (Inr (), (u', wire'))"
    using call a t cl
    by (cases "complete_multipart_upload l v uid (bytes_to_hex t) (length (concat parts)) wire")
      (simp add: uploader_close_def)
  from uploader_close_request [OF hp ne close] t close show ?thesis by auto
qed

interpretation asink: accepting_sink "writer_upload_part H l" "sink_sent wire0"
  "\<lambda>s. service_accepts l \<and> sink_ready H l v uid n c wire0 s"
  for H l v uid n c wire0
proof unfold_locales
  fix s part x s'
  assume "service_accepts l \<and> sink_ready H l v uid n c wire0 s" "writer_upload_part H l part s = (Inr x, s')"
  then show "sink_sent wire0 s' = sink_sent wire0 s @ [part] \<and> service_accepts l \<and> sink_ready H l v uid n c wire0 s'"
    using wsink.send_ok by blast
next
  fix s part
  assume ready: "service_accepts l \<and> sink_ready H l v uid n c wire0 s"
  obtain u i wire where s: "s = (u, i, wire)" by (cases s) auto
  define ps where "ps = sink_sent wire0 s"
  from ready s have hp: "holds_parts H v uid n c ps u" and i: "i = length ps"
    by (simp_all add: sink_ready_def Let_def ps_def)
  from uploader_upload_part_accepted [OF _ hp, of l part wire] ready
  show "\<exists>s'. writer_upload_part H l part s = (Inr (), s')"
    by (auto simp: s i writer_upload_part_def)
qed

text \<open>The writer between its creation and its closing, after the data \<open>D\<close> was written to it.\<close>

definition sink_of :: "writer \<Rightarrow> http_req list \<Rightarrow> sink_state" where
  "sink_of w wire = (wr_uploader w, wr_next_part_index w, wire)"

definition writer_inv ::
  "(string \<Rightarrow> string) \<Rightarrow> layer1 \<Rightarrow> string \<Rightarrow> string \<Rightarrow> nat \<Rightarrow> nat \<Rightarrow> http_req list \<Rightarrow> string \<Rightarrow>
   writer \<times> http_req list \<Rightarrow> bool" where
  "writer_inv H l v uid n c wire0 D = (\<lambda>(w, wire). \<not> wr_closed w
     \<and> accounts n D (sink_sent wire0 (sink_of w wire)) (wr_partitioner w)
     \<and> sink_ready H l v uid n c wire0 (sink_of w wire))"

lemma writer_inv_init:
  assumes "0 < n" "0 < c"
  shows "writer_inv H l v uid n c wire0 [] (writer_init v uid n c, wire0)"
  using assms
  by (simp add: writer_inv_def writer_init_def sink_of_def sink_sent_def sink_ready_def holds_parts_def
      uploader_init_def partitioner_init_def accounts_def pt_wf_def pt_total_def part_requests_def)

lemma with_partitioner_run:
  assumes "m (wr_partitioner w, sink_of w wire) = (r, (p, s))"
  shows "\<exists>w' wire'. with_partitioner m (w, wire) = (r, (w', wire'))
    \<and> sink_of w' wire' = s \<and> wr_partitioner w' = p \<and> wr_closed w' = wr_closed w"
  using assms by (cases s) (auto simp: with_partitioner_def sink_of_def)

lemma writer_write_ok:
  assumes acc: "service_accepts l" and inv: "writer_inv H l v uid n c wire0 D (w, wire)"
  shows "\<exists>w' wire'. writer_write H l d (w, wire) = (Inr (), (w', wire'))
    \<and> writer_inv H l v uid n c wire0 (D @ d) (w', wire')"
proof -
  from inv have acco: "accounts n D (sink_sent wire0 (sink_of w wire)) (wr_partitioner w)"
    and ready: "service_accepts l \<and> sink_ready H l v uid n c wire0 (sink_of w wire)"
    and op: "\<not> wr_closed w"
    using acc by (auto simp: writer_inv_def)
  from acco have wf: "pt_wf (wr_partitioner w)" by (simp add: accounts_def)
  obtain p' s' where run: "partitioner_write (writer_upload_part H l) d (wr_partitioner w, sink_of w wire)
      = (Inr (), (p', s'))"
    using asink.write_returns [OF wf ready] by blast
  from asink.write_ok [OF acco ready run] with_partitioner_run [where m = "partitioner_write (writer_upload_part H l) d", OF run] op show ?thesis
    by (force simp: writer_write_def writer_inv_def)
qed

lemma writer_writes_ok:
  assumes "service_accepts l"
  shows "writer_inv H l v uid n c wire0 D (w, wire) \<Longrightarrow>
    \<exists>w' wire'. py_for ds (writer_write H l) (w, wire) = (Inr (), (w', wire'))
      \<and> writer_inv H l v uid n c wire0 (D @ concat ds) (w', wire')"
proof (induction ds arbitrary: D w wire)
  case (Cons d ds)
  from writer_write_ok [OF assms Cons.prems] obtain w1 wire1 where
    1: "writer_write H l d (w, wire) = (Inr (), (w1, wire1))"
      "writer_inv H l v uid n c wire0 (D @ d) (w1, wire1)" by blast
  from Cons.IH [OF 1(2)] 1(1) show ?case by simp
qed simp

lemma writer_close_ok:
  assumes acc: "service_accepts l" and inv: "writer_inv H l v uid n c wire0 D (w, wire)" and "D \<noteq> []"
  shows "\<exists>w' t. writer_close H l (w, wire) = (Inr (), (w', wire0 @ part_requests H l v uid n c (pieces n D)
        @ [complete_request l v uid (bytes_to_hex t) (length D)]))
    \<and> wr_closed w' \<and> tree_hash H (map (part_tree_hash H c) (pieces n D)) = Inr t"
proof -
  from inv have acco: "accounts n D (sink_sent wire0 (sink_of w wire)) (wr_partitioner w)"
    and ready: "service_accepts l \<and> sink_ready H l v uid n c wire0 (sink_of w wire)"
    and op: "\<not> wr_closed w"
    using acc by (auto simp: writer_inv_def)
  from acco have n: "0 < n" by (simp add: accounts_def pt_wf_def)
  obtain p s where run: "partitioner_flush (writer_upload_part H l) (wr_partitioner w, sink_of w wire)
      = (Inr (), (p, s))"
    using asink.flush_returns [OF ready] by blast
  from asink.flush_ok [OF acco ready run] have sent: "sink_sent wire0 s = pieces n D"
    and rs: "sink_ready H l v uid n c wire0 s" by simp_all
  from with_partitioner_run [where m = "partitioner_flush (writer_upload_part H l)", OF run] obtain w1 wire1 where
    w1: "with_partitioner (partitioner_flush (writer_upload_part H l)) (w, wire) = (Inr (), (w1, wire1))"
    and s: "s = sink_of w1 wire1" and "\<not> wr_closed w1" using op by auto
  from rs sent s have hp: "holds_parts H v uid n c (pieces n D) (wr_uploader w1)"
    and wire1: "wire1 = wire0 @ part_requests H l v uid n c (pieces n D)"
    by (simp_all add: sink_ready_def sink_of_def Let_def)
  have ne: "pieces n D \<noteq> []" using n assms(3) by (simp add: pieces_eq_Nil_iff)
  obtain t where t: "tree_hash H (map (part_tree_hash H c) (pieces n D)) = Inr t"
    using tree_hash_total [of "map (part_tree_hash H c) (pieces n D)" H] ne by auto
  from uploader_close_accepted [OF acc hp ne, of wire1] t obtain u where
    close: "uploader_close H l (wr_uploader w1, wire1)
      = (Inr (), (u, wire1 @ [complete_request l v uid (bytes_to_hex t) (length (concat (pieces n D)))]))"
    by auto
  then show ?thesis using op w1 close t wire1 n
    by (simp add: writer_close_def concat_pieces)
qed

section \<open>resume_file_upload\<close>

text \<open>
  \<open>data.encode('utf-8')\<close> on a byte string: Python 2 first decodes it as ASCII; Python 3 has no
  such method on \<open>bytes\<close>.
\<close>

definition encode_utf8 :: "bool \<Rightarrow> string \<Rightarrow> string res" where
  "encode_utf8 PY3 data =
     (if PY3 then Inl AttributeError
      else if list_all (\<lambda>ch. of_char ch < (128 :: nat)) data then Inr data else Inl UnicodeDecodeError)"

text \<open>
  The generator \<open>generate_parts_from_fobj\<close> reads one part when the loop asks for one, so its body
  is a step of the loop.  \<open>part_size = 0\<close> reads nothing and ends it.
\<close>

definition generate_part :: "bool \<Rightarrow> nat \<Rightarrow> (pyfile, string option) py" where
  "generate_part PY3 part_size fobj =
     (case file_read part_size fobj of (data, fobj') \<Rightarrow>
        (if data = [] then (Inr None, fobj')
         else (res_bind (encode_utf8 PY3 data) (\<lambda>d. Inr (Some d)), fobj')))"

lemma generate_part_shrinks:
  assumes "generate_part PY3 n fobj = (Inr (Some d), fobj')"
  shows "length (file_rest fobj') < length (file_rest fobj)"
proof -
  have "file_rest fobj' = drop (min n (length (file_rest fobj))) (file_rest fobj)"
    and "take n (file_rest fobj) \<noteq> []"
    using assms by (auto simp: generate_part_def file_read_rest file_rest_def add.commute split: if_splits)
  then show ?thesis by simp
qed

function resume_loop ::
  "(string \<Rightarrow> string) \<Rightarrow> bool \<Rightarrow> layer1 \<Rightarrow> nat \<Rightarrow> nat \<Rightarrow> (nat, string) dict \<Rightarrow> nat \<Rightarrow>
   (pyfile \<times> uploader \<times> http_req list, unit) py" where
  "resume_loop H PY3 l part_size chunk_size part_hash_map part_index (fobj, u, wire) =
     (case generate_part PY3 part_size fobj of
        (Inl e, fobj') \<Rightarrow> (Inl e, (fobj', u, wire))
      | (Inr None, fobj') \<Rightarrow> (Inr (), (fobj', u, wire))
      | (Inr (Some part_data), fobj') \<Rightarrow>
        (case res_bind (chunk_hashes H part_data chunk_size) (tree_hash H) of
           Inl e \<Rightarrow> (Inl e, (fobj', u, wire))
         | Inr part_hash \<Rightarrow>
           (case (if map_of part_hash_map part_index \<noteq> Some part_hash
                  then uploader_upload_part H l part_index part_data (u, wire)
                  else uploader_skip_part part_index part_hash (length part_data) (u, wire)) of
              (Inl e, (u', wire')) \<Rightarrow> (Inl e, (fobj', u', wire'))
            | (Inr _, (u', wire')) \<Rightarrow>
                resume_loop H PY3 l part_size chunk_size part_hash_map (part_index + 1) (fobj', u', wire'))))"
  by pat_completeness auto
termination
  by (relation "measure (\<lambda>(H, py3, l, n, c, m, i, f, u, w). length (file_rest f))")
    (auto dest: generate_part_shrinks [OF sym])

declare resume_loop.simps [simp del]

definition resume_file_upload ::
  "(string \<Rightarrow> string) \<Rightarrow> bool \<Rightarrow> layer1 \<Rightarrow> string \<Rightarrow> string \<Rightarrow> nat \<Rightarrow> pyfile \<Rightarrow> (nat, string) dict \<Rightarrow> nat \<Rightarrow>
   jval option glacier_op" where
  "resume_file_upload H PY3 l vault upload_id part_size fobj part_hash_map chunk_size wire =
     (let u = uploader_init vault upload_id part_size chunk_size
      in case resume_loop H PY3 l part_size chunk_size part_hash_map 0 (fobj, u, wire) of
           (Inl e, (_, _, wire1)) \<Rightarrow> (Inl e, wire1)
         | (Inr _, (_, u1, wire1)) \<Rightarrow>
           (case uploader_close H l (u1, wire1) of
              (Inl e, (_, wire2)) \<Rightarrow> (Inl e, wire2)
            | (Inr _, (u2, wire2)) \<Rightarrow> (Inr (up_archive_id u2), wire2)))"

text \<open>The parts whose recorded hash differs from the hash of the data at hand.\<close>

definition to_send ::
  "(string \<Rightarrow> string) \<Rightarrow> nat \<Rightarrow> (nat, string) dict \<Rightarrow> (nat \<times> string) list \<Rightarrow> (nat \<times> string) list" where
  "to_send H c part_hash_map = filter (\<lambda>(i, p). map_of part_hash_map i \<noteq> Some (part_tree_hash H c p))"

text \<open>Python 2 gets as far as the first part that holds a byte above 127.\<close>

definition ascii :: "string \<Rightarrow> bool" where
  "ascii d \<longleftrightarrow> list_all (\<lambda>ch. of_char ch < (128 :: nat)) d"

lemma ascii_simps [simp]: "ascii []" "ascii (xs @ ys) \<longleftrightarrow> ascii xs \<and> ascii ys"
  by (simp_all add: ascii_def)

lemma ascii_split: "ascii d \<longleftrightarrow> ascii (take n d) \<and> ascii (drop n d)"
  by (metis append_take_drop_id ascii_simps(2))

lemma ascii_concat: "(\<forall>d \<in> set ps. ascii d) \<longleftrightarrow> ascii (concat ps)"
  by (induction ps) auto

lemma ascii_pieces: "0 < n \<Longrightarrow> ascii d \<Longrightarrow> takeWhile ascii (pieces n d) = pieces n d"
  using ascii_concat [of "pieces n d"] by (simp add: concat_pieces takeWhile_eq_all_conv)

lemma resume_loop_ok:
  assumes acc: "service_accepts l"
  shows "holds_parts H v uid n c parts u \<Longrightarrow> 0 < n \<Longrightarrow>
    \<exists>f' u'. resume_loop H False l n c m (length parts) (f\<lparr>file_pos := p\<rparr>, u, wire) =
      (if ascii (file_rest (f\<lparr>file_pos := p\<rparr>)) then Inr () else Inl UnicodeDecodeError, (f', u', wire @ map (part_request H l v uid n c)
        (to_send H c m (enumerate (length parts) (takeWhile ascii (pieces n (file_rest (f\<lparr>file_pos := p\<rparr>))))))))
    \<and> (ascii (file_rest (f\<lparr>file_pos := p\<rparr>)) \<longrightarrow> holds_parts H v uid n c (parts @ pieces n (file_rest (f\<lparr>file_pos := p\<rparr>))) u')"
proof (induction "length (file_rest (f\<lparr>file_pos := p\<rparr>))" arbitrary: parts p u wire rule: less_induct)
  case less
  define r where "r = file_rest (f\<lparr>file_pos := p\<rparr>)"
  define f' where "f' = f\<lparr>file_pos := p + min n (length r)\<rparr>"
  show ?case
  proof (cases "r = []")
    case True
    with less.prems show ?thesis
      by (auto simp: resume_loop.simps generate_part_def file_read_rest to_send_def simp flip: r_def)
  next
    case False
    with less.prems(2) have ne: "take n r \<noteq> []" by simp
    have ps: "pieces n r = take n r # pieces n (drop n r)"
      using False less.prems(2) by (simp add: pieces_step [of n r])
    note split = ascii_split [of r n]
    show ?thesis
    proof (cases "ascii (take n r)")
      case bad: False
      then have "generate_part False n (f\<lparr>file_pos := p\<rparr>) = (Inl UnicodeDecodeError, f')"
        using ne by (simp add: generate_part_def file_read_rest encode_utf8_def ascii_def f'_def flip: r_def)
      then show ?thesis using bad split ps by (simp add: resume_loop.simps to_send_def flip: r_def)
    next
      case good: True
      then have gen: "generate_part False n (f\<lparr>file_pos := p\<rparr>) = (Inr (Some (take n r)), f')"
        using ne by (simp add: generate_part_def file_read_rest encode_utf8_def ascii_def f'_def flip: r_def)
      have rest: "file_rest f' = drop n r"
        by (simp add: f'_def r_def file_rest_def min_def add.commute)
      have shorter: "length (file_rest f') < length r" using False less.prems(2) rest by simp
      let ?h = "part_tree_hash H c (take n r)"
      have hash: "res_bind (chunk_hashes H (take n r) c) (tree_hash H) = Inr ?h"
        using less.prems(1) by (intro part_tree_hash) (simp add: holds_parts_def)
      define sent where "sent = (if map_of m (length parts) \<noteq> Some ?h
        then [part_request H l v uid n c (length parts, take n r)] else [])"
      obtain u1 where u1: "(if map_of m (length parts) \<noteq> Some ?h
          then uploader_upload_part H l (length parts) (take n r) (u, wire)
          else uploader_skip_part (length parts) ?h (length (take n r)) (u, wire)) = (Inr (), (u1, wire @ sent))"
        and hp1: "holds_parts H v uid n c (parts @ [take n r]) u1"
        using uploader_upload_part_accepted [OF acc less.prems(1), of "take n r" wire]
          uploader_skip_part_next [OF less.prems(1), of "take n r" wire]
        by (cases "map_of m (length parts) \<noteq> Some ?h") (auto simp: sent_def)
      have loop: "resume_loop H False l n c m (length parts) (f\<lparr>file_pos := p\<rparr>, u, wire) =
          resume_loop H False l n c m (length (parts @ [take n r])) (f', u1, wire @ sent)"
        by (subst resume_loop.simps) (simp only: gen hash prod.case sum.case option.case u1 length_append
            list.size One_nat_def add_0)
      from less.hyps [of "p + min n (length r)", folded f'_def r_def, OF shorter hp1 less.prems(2), of "wire @ sent"]
      show ?thesis
        unfolding r_def [symmetric] loop rest using good split
        by (cases "map_of m (length parts) \<noteq> Some ?h") (simp_all add: to_send_def sent_def ps)
    qed
  qed
qed

lemma resume_file_sends:
  assumes "service_accepts l" and "0 < c" and "n = c * 2 ^ k" and "file_data f \<noteq> []" and "file_pos f = 0"
  shows "\<exists>r. resume_file_upload H False l v uid n f m c wire =
    (r, wire @ map (part_request H l v uid n c) (to_send H c m (enumerate 0 (takeWhile ascii (pieces n (file_data f)))))
      @ (if ascii (file_data f)
         then [complete_request l v uid (bytes_to_hex (part_tree_hash H c (file_data f))) (length (file_data f))] else []))
    \<and> (if ascii (file_data f) then \<exists>a. r = Inr a else r = Inl UnicodeDecodeError)"
proof -
  let ?D = "file_data f"
  have n: "0 < n" using assms by simp
  have hp0: "holds_parts H v uid n c [] (uploader_init v uid n c)"
    using assms(2) by (simp add: holds_parts_def uploader_init_def)
  have ne: "pieces n ?D \<noteq> []" using n assms(4) by (simp add: pieces_eq_Nil_iff)
  have f: "f\<lparr>file_pos := 0\<rparr> = f" "file_rest f = ?D" using assms(5) by (simp_all add: file_rest_def)
  from resume_loop_ok [OF assms(1) hp0 n, where m = m and f = f and p = 0 and wire = wire] f obtain f' u' where
    any: "resume_loop H False l n c m 0 (f, uploader_init v uid n c, wire) =
      (if ascii ?D then Inr () else Inl UnicodeDecodeError,
       (f', u', wire @ map (part_request H l v uid n c) (to_send H c m (enumerate 0 (takeWhile ascii (pieces n ?D))))))"
    and hps: "ascii ?D \<longrightarrow> holds_parts H v uid n c (pieces n ?D) u'" by auto
  show ?thesis
  proof (cases "ascii ?D")
    case False
    then show ?thesis by (simp add: resume_file_upload_def Let_def any)
  next
    case True
    note whole = ascii_pieces [OF n True]
    have loop: "resume_loop H False l n c m 0 (f, uploader_init v uid n c, wire) =
        (Inr (), (f', u', wire @ map (part_request H l v uid n c) (to_send H c m (enumerate 0 (pieces n ?D)))))"
      and hp: "holds_parts H v uid n c (pieces n ?D) u'" using any hps True whole by simp_all
    from tree_hash_parts [OF assms(2,4), of H k] part_tree_hash [OF assms(2), of H ?D]
    have "tree_hash H (map (part_tree_hash H c) (pieces n ?D)) = Inr (part_tree_hash H c ?D)"
      by (simp add: assms(3))
    with uploader_close_accepted [OF assms(1) hp ne, of "wire @ map (part_request H l v uid n c)
        (to_send H c m (enumerate 0 (pieces n ?D)))"] n obtain u2
      where "uploader_close H l (u', wire @ map (part_request H l v uid n c) (to_send H c m (enumerate 0 (pieces n ?D))))
        = (Inr (), (u2, (wire @ map (part_request H l v uid n c) (to_send H c m (enumerate 0 (pieces n ?D))))
            @ [complete_request l v uid (bytes_to_hex (part_tree_hash H c ?D)) (length ?D)]))"
      by (auto simp: concat_pieces)
    then show ?thesis using True by (simp add: resume_file_upload_def Let_def loop whole)
  qed
qed

lemma writer_uploads:
  assumes "service_accepts l" and "0 < c" and "n = c * 2 ^ k" and "concat writes \<noteq> []"
  shows "\<exists>w. py_bind (py_for writes (writer_write H l)) (\<lambda>_. writer_close H l) (writer_init v uid n c, wire0)
    = (Inr (), (w, wire0 @ part_requests H l v uid n c (pieces n (concat writes))
        @ [complete_request l v uid (bytes_to_hex (part_tree_hash H c (concat writes))) (length (concat writes))]))
    \<and> wr_closed w"
proof -
  let ?D = "concat writes"
  have n: "0 < n" using assms by simp
  from writer_writes_ok [OF assms(1) writer_inv_init [OF n assms(2)], of writes H v uid wire0]
  obtain w wire where w: "py_for writes (writer_write H l) (writer_init v uid n c, wire0) = (Inr (), (w, wire))"
    "writer_inv H l v uid n c wire0 ?D (w, wire)" by auto
  from writer_close_ok [OF assms(1) w(2) assms(4)] obtain w' t where
    close: "writer_close H l (w, wire) = (Inr (), (w', wire0 @ part_requests H l v uid n c (pieces n ?D)
        @ [complete_request l v uid (bytes_to_hex t) (length ?D)]))" "wr_closed w'"
    and t: "tree_hash H (map (part_tree_hash H c) (pieces n ?D)) = Inr t" by blast
  from tree_hash_parts [OF assms(2,4), of H k] part_tree_hash [OF assms(2), of H ?D] t
  have "t = part_tree_hash H c ?D" by (simp add: assms(3))
  with close w(1) show ?thesis by (simp add: py_bind_def)
qed

section \<open>Properties\<close>

text \<open>
  C2: writing data in pieces of any sizes and closing the writer returns, and what is sent is:
  one request for each part-sized piece of the concatenated data, in order, with its own range
  and hashes, and then one request that completes the upload with the length of the data and
  the tree hash of the whole data -- although the writer only ever hashes single parts.
\<close>

theorem writer_uploads_the_data:
  assumes "service_accepts l" and "0 < c" and "n = c * 2 ^ k" and "concat writes \<noteq> []"
  shows "\<exists>w. py_bind (py_for writes (writer_write H l)) (\<lambda>_. writer_close H l) (writer_init v uid n c, wire0)
    = (Inr (), (w, wire0 @ part_requests H l v uid n c (pieces n (concat writes))
        @ [complete_request l v uid (bytes_to_hex (part_tree_hash H c (concat writes))) (length (concat writes))]))
    \<and> wr_closed w"
  using assms by (rule writer_uploads)

text \<open>A service that accepts everything, for the witnesses.\<close>

definition yes_layer1 :: layer1 where
  "yes_layer1 = \<lparr>account_id = ''-'', net = \<lparr>exchange = (\<lambda>_ req. Inr \<lparr>rs_status = (if hr_verb req = ''PUT'' then 204 else 201),
     rs_headers = [], rs_body = []\<rparr>), json_loads = (\<lambda>_. Inr []), json_dumps = (\<lambda>_. [])\<rparr>\<rparr>"

lemma service_accepts_yes: "service_accepts yes_layer1"
  by (simp add: service_accepts_def yes_layer1_def getheader_def)

theorem writer_uploads_the_data_witness:
  "\<exists>w. py_bind (py_for [''ab'', ''cde''] (writer_write id yes_layer1)) (\<lambda>_. writer_close id yes_layer1)
      (writer_init ''v'' ''u'' 2 1, [])
    = (Inr (), (w, part_requests id yes_layer1 ''v'' ''u'' 2 1 [''ab'', ''cd'', ''e'']
        @ [complete_request yes_layer1 ''v'' ''u'' (bytes_to_hex ''abcde'') 5])) \<and> wr_closed w"
  using writer_uploads_the_data [OF service_accepts_yes, of 1 2 1 "[''ab'', ''cde'']" id "''v''" "''u''" "[]"]
  by (simp add: pieces.simps part_tree_hash_def tree_root_def tree_hash_def tree_hash_loop.simps numeral_eq_Suc)


text \<open>
  Resuming an upload of a file of ASCII bytes under Python 2 returns; it sends exactly the
  parts whose recorded hash is missing or differs from the hash of the file's data, each at its
  own range, and completes the upload with the length and tree hash of the whole file.
\<close>

theorem resume_sends_only_mismatches:
  assumes "service_accepts l" and "0 < c" and "n = c * 2 ^ k" and "file_data f \<noteq> []" and "file_pos f = 0"
    and "list_all (\<lambda>ch. of_char ch < (128 :: nat)) (file_data f)"
  shows "\<exists>a. resume_file_upload H False l v uid n f m c wire =
    (Inr a, wire @ map (part_request H l v uid n c) (to_send H c m (enumerate 0 (pieces n (file_data f))))
      @ [complete_request l v uid (bytes_to_hex (part_tree_hash H c (file_data f))) (length (file_data f))])"
  using resume_file_sends [OF assms(1-5), of H v uid m wire] assms(2,3,6) by (auto simp: ascii_pieces ascii_def [symmetric])

theorem resume_sends_only_mismatches_witness:
  "\<exists>a. resume_file_upload id False yes_layer1 ''v'' ''u'' 2 \<lparr>file_data = ''abcde'', file_pos = 0, file_mode = None\<rparr>
      [(0, ''ab''), (1, ''xx'')] 1 [] =
    (Inr a, map (part_request id yes_layer1 ''v'' ''u'' 2 1) [(1, ''cd''), (2, ''e'')]
      @ [complete_request yes_layer1 ''v'' ''u'' (bytes_to_hex ''abcde'') 5])"
  using resume_sends_only_mismatches [OF service_accepts_yes, of 1 2 1
      "\<lparr>file_data = ''abcde'', file_pos = 0, file_mode = None\<rparr>" id "''v''" "''u''" "[(0, ''ab''), (1, ''xx'')]" "[]"]
  by (simp add: pieces.simps part_tree_hash_def tree_root_def tree_hash_def tree_hash_loop.simps numeral_eq_Suc
      to_send_def char_eval)

text \<open>
  A resumed upload stops with an exception before anything is sent when the file is a
  non-empty one whose first part holds a byte above 127, and under Python 3 always, because the
  parts are passed through \<open>encode('utf-8')\<close>.
\<close>

theorem resume_binary_fails:
  assumes "0 < n" and "file_rest f \<noteq> []"
    and "PY3 \<or> (\<exists>ch \<in> set (take n (file_rest f)). (128 :: nat) \<le> of_char ch)"
  shows "resume_file_upload H PY3 l v uid n f m c wire =
    (Inl (if PY3 then AttributeError else UnicodeDecodeError), wire)"
proof -
  have "generate_part PY3 n f = (Inl (if PY3 then AttributeError else UnicodeDecodeError),
      f\<lparr>file_pos := file_pos f + min n (length (file_rest f))\<rparr>)"
    using assms by (auto simp: generate_part_def file_read_rest encode_utf8_def list_all_iff)
  then show ?thesis
    by (subst resume_file_upload_def, subst resume_loop.simps) simp
qed

theorem resume_binary_fails_witness:
  "resume_file_upload id False yes_layer1 ''v'' ''u'' 2 \<lparr>file_data = [CHR 0xFF], file_pos = 0, file_mode = None\<rparr>
     [] 1 [] = (Inl UnicodeDecodeError, [])"
  using resume_binary_fails [of 2 "\<lparr>file_data = [CHR 0xFF], file_pos = 0, file_mode = None\<rparr>" False
      id yes_layer1 "''v''" "''u''" "[]" 1 "[]"]
  by (simp add: file_rest_def char_eval)

text \<open>
  The class comment lets parts be uploaded in any order, but a part whose index is beyond the
  number of hashes recorded so far raises \<open>IndexError\<close>, and nothing is sent: the list is extended
  by \<open>list_length - index + 1\<close> entries, which is not positive there.
\<close>

theorem uploader_out_of_order_fails:
  assumes "0 < up_chunk_size u" and "\<not> up_closed u" and "length (up_tree_hashes u) < i"
  shows "uploader_upload_part H l i part (u, wire) = (Inl IndexError, (u, wire))"
  using assms by (simp add: uploader_upload_part_def part_tree_hash insert_tree_hash_beyond)

theorem uploader_out_of_order_fails_witness:
  "uploader_upload_part id yes_layer1 1 ''cd'' (uploader_init ''v'' ''u'' 2 1, []) =
     (Inl IndexError, (uploader_init ''v'' ''u'' 2 1, []))"
  by (rule uploader_out_of_order_fails) (simp_all add: uploader_init_def)

text \<open>
  Closing a writer to which no byte was written raises \<open>IndexError\<close> (the tree hash of no
  parts), sends nothing, and leaves the writer open.
\<close>

theorem writer_empty_close:
  "writer_close H l (writer_init v uid n c, wire) = (Inl IndexError, (writer_init v uid n c, wire))"
  by (simp add: writer_close_def with_partitioner_def writer_init_def partitioner_flush_def
      partitioner_init_def uploader_close_def uploader_init_def)

text \<open>
  A closed writer refuses further data with \<open>ValueError\<close>, and closing it again does nothing:
  an upload is completed at most once.
\<close>

theorem writer_closed_is_final:
  assumes "writer_close H l s = (Inr (), (w, wire))"
  shows "writer_write H l d (w, wire) = (Inl ValueError, (w, wire))
    \<and> writer_close H l (w, wire) = (Inr (), (w, wire))"
proof -
  have "wr_closed w" using assms
    by (cases s) (auto simp: writer_close_def split: prod.splits sum.splits if_splits)
  then show ?thesis by (simp add: writer_write_def writer_close_def)
qed

theorem writer_closed_is_final_witness:
  "\<exists>w wire. wr_closed w \<and> writer_write id yes_layer1 ''a'' (w, wire) = (Inl ValueError, (w, wire))"
proof -
  let ?w = "writer_init ''v'' ''u'' 2 1\<lparr>wr_closed := True\<rparr>"
  have "writer_close id yes_layer1 (?w, []) = (Inr (), (?w, []))" by (simp add: writer_close_def)
  from writer_closed_is_final [OF this, of "''a''"] show ?thesis by (intro exI [of _ ?w] exI [of _ "[]"]) simp
qed

end
