(* ===== verification/Glacier_Vault.thy ===== *)
theory Glacier_Vault
  imports Glacier_Writer
begin

text \<open>
  \<^verbatim>\<open>boto/glacier/vault.py\<close>, \<^verbatim>\<open>boto/glacier/job.py\<close> and \<^verbatim>\<open>boto/glacier/layer2.py\<close>: the object
  layer on top of \<open>Layer1\<close>.  A vault is its layer 1 and its name; a job is a vault and the values
  of the description it was made from.  The file system, where a method opens a file by name, is
  a parameter \<open>fs\<close> from names to contents.
\<close>

section \<open>Values of responses\<close>

text \<open>
  \<open>v[k]\<close> on a decoded JSON value, the values the code uses as strings, numbers and lists, and the
  truth value of \<open>if v:\<close>.
\<close>

definition jitem :: "jval \<Rightarrow> string \<Rightarrow> jval res" where
  "jitem v k = (case v of
     JObj kvs \<Rightarrow> (case map_of kvs k of None \<Rightarrow> Inl KeyError | Some x \<Rightarrow> Inr x)
   | _ \<Rightarrow> Inl TypeError)"

definition jlist :: "jval \<Rightarrow> jval list res" where
  "jlist v = (case v of JList xs \<Rightarrow> Inr xs | _ \<Rightarrow> Inl TypeError)"

definition jstr :: "jval \<Rightarrow> string res" where
  "jstr v = (case v of JStr s \<Rightarrow> Inr s | _ \<Rightarrow> Inl TypeError)"

definition jnum :: "jval \<Rightarrow> int res" where
  "jnum v = (case v of JNum n \<Rightarrow> Inr n | _ \<Rightarrow> Inl TypeError)"

fun jtrue :: "jval \<Rightarrow> bool" where
  "jtrue JNull = False"
| "jtrue (JBool b) = b"
| "jtrue (JNum n) = (n \<noteq> 0)"
| "jtrue (JStr s) = (s \<noteq> [])"
| "jtrue (JList xs) = (xs \<noteq> [])"
| "jtrue (JObj kvs) = (kvs \<noteq> [])"

text \<open>
  The attributes of a \<open>Vault\<close> or a \<open>Job\<close>: every element of \<open>ResponseDataElements\<close> from the
  response, or its default when there is no response.
\<close>

definition init_attrs ::
  "(string \<times> string \<times> jval) list \<Rightarrow> (string, jval) dict option \<Rightarrow> (string, jval) dict res" where
  "init_attrs elements response_data =
     (case response_data of
        Some (kv # kvs) \<Rightarrow>
          foldl (\<lambda>acc (response_name, attr_name, default). res_bind acc (\<lambda>attrs.
            case map_of (kv # kvs) response_name of
              None \<Rightarrow> Inl KeyError | Some v \<Rightarrow> Inr (AList.update attr_name v attrs))) (Inr []) elements
      | _ \<Rightarrow> Inr (foldl (\<lambda>attrs (response_name, attr_name, default). AList.update attr_name default attrs) [] elements))"

definition vault_elements :: "(string \<times> string \<times> jval) list" where
  "vault_elements =
     [(''VaultName'', ''name'', JNull), (''VaultARN'', ''arn'', JNull),
      (''CreationDate'', ''creation_date'', JNull), (''LastInventoryDate'', ''last_inventory_date'', JNull),
      (''SizeInBytes'', ''size'', JNum 0), (''NumberOfArchives'', ''number_of_archives'', JNum 0)]"

definition vault_init :: "(string, jval) dict option \<Rightarrow> (string, jval) dict res" where
  "vault_init = init_attrs vault_elements"

definition job_elements :: "(string \<times> string \<times> jval) list" where
  "job_elements =
     [(''Action'', ''action'', JNull), (''ArchiveId'', ''archive_id'', JNull),
      (''ArchiveSizeInBytes'', ''archive_size'', JNum 0), (''Completed'', ''completed'', JBool False),
      (''CompletionDate'', ''completion_date'', JNull), (''CreationDate'', ''creation_date'', JNull),
      (''InventorySizeInBytes'', ''inventory_size'', JNum 0), (''JobDescription'', ''description'', JNull),
      (''JobId'', ''id'', JNull), (''SHA256TreeHash'', ''sha256_treehash'', JNull),
      (''SNSTopic'', ''sns_topic'', JNull), (''StatusCode'', ''status_code'', JNull),
      (''StatusMessage'', ''status_message'', JNull), (''VaultARN'', ''arn'', JNull)]"

definition job_init :: "(string, jval) dict option \<Rightarrow> (string, jval) dict res" where
  "job_init = init_attrs job_elements"

section \<open>Listing page by page\<close>

text \<open>
  \<open>Vault.list_all_parts\<close>: while the last page had a marker, fetch the next one and extend the
  \<open>Parts\<close> of the first response.  A service that always returns a marker keeps the loop going:
  then the result is \<open>None\<close>.  A marker that is true but not a string is not a documented answer;
  it counts as a \<open>TypeError\<close> here.
\<close>

definition extend_parts :: "glacier_response \<Rightarrow> glacier_response \<Rightarrow> (glacier_response \<times> jval) res" where
  "extend_parts result additional_result =
     res_bind (getitem result ''Parts'') (\<lambda>p. res_bind (jlist p) (\<lambda>ps.
     res_bind (getitem additional_result ''Parts'') (\<lambda>q. res_bind (jlist q) (\<lambda>qs.
     res_bind (getitem additional_result ''Marker'') (\<lambda>marker.
       Inr (result\<lparr>gl_items := AList.update ''Parts'' (JList (ps @ qs)) (gl_items result)\<rparr>, marker))))))"

partial_function (option) parts_loop ::
  "layer1 \<Rightarrow> string \<Rightarrow> string \<Rightarrow> glacier_response \<Rightarrow> jval \<Rightarrow> http_req list \<Rightarrow>
   (glacier_response res \<times> http_req list) option" where
  "parts_loop l name upload_id result marker wire =
     (if jtrue marker then
        (case jstr marker of
           Inl e \<Rightarrow> Some (Inl e, wire)
         | Inr m \<Rightarrow>
           (case list_parts l name upload_id None (Some m) wire of
              (Inl e, wire') \<Rightarrow> Some (Inl e, wire')
            | (Inr additional_result, wire') \<Rightarrow>
              (case extend_parts result additional_result of
                 Inl e \<Rightarrow> Some (Inl e, wire')
               | Inr (result', marker') \<Rightarrow> parts_loop l name upload_id result' marker' wire')))
      else Some (Inr (result\<lparr>gl_items := AList.update ''Marker'' JNull (gl_items result)\<rparr>), wire))"

definition list_all_parts ::
  "layer1 \<Rightarrow> string \<Rightarrow> string \<Rightarrow> http_req list \<Rightarrow> (glacier_response res \<times> http_req list) option" where
  "list_all_parts l name upload_id wire =
     (case list_parts l name upload_id None None wire of
        (Inl e, wire') \<Rightarrow> Some (Inl e, wire')
      | (Inr result, wire') \<Rightarrow>
        (case getitem result ''Marker'' of
           Inl e \<Rightarrow> Some (Inl e, wire')
         | Inr marker \<Rightarrow> parts_loop l name upload_id result marker wire'))"

text \<open>\<open>Layer2.list_vaults\<close>: the attributes of the vaults of all pages.\<close>

definition vaults_of_page :: "glacier_response \<Rightarrow> (string, jval) dict list res" where
  "vaults_of_page response_data =
     res_bind (getitem response_data ''VaultList'') (\<lambda>v. res_bind (jlist v) (\<lambda>rds.
       foldl (\<lambda>acc rd. res_bind acc (\<lambda>vs. case rd of
          JObj kvs \<Rightarrow> res_bind (vault_init (Some kvs)) (\<lambda>a. Inr (vs @ [a]))
        | _ \<Rightarrow> Inl TypeError)) (Inr []) rds))"

partial_function (option) vaults_loop ::
  "layer1 \<Rightarrow> (string, jval) dict list \<Rightarrow> string option \<Rightarrow> http_req list \<Rightarrow>
   ((string, jval) dict list res \<times> http_req list) option" where
  "vaults_loop l vaults marker wire =
     (case list_vaults l (Some ''1000'') marker wire of
        (Inl e, wire') \<Rightarrow> Some (Inl e, wire')
      | (Inr response_data, wire') \<Rightarrow>
        (case vaults_of_page response_data of
           Inl e \<Rightarrow> Some (Inl e, wire')
         | Inr vs \<Rightarrow>
           (case map_of (gl_items response_data) ''Marker'' of
              None \<Rightarrow> Some (Inr (vaults @ vs), wire')
            | Some m \<Rightarrow>
                if \<not> jtrue m then Some (Inr (vaults @ vs), wire')
                else (case jstr m of
                    Inl e \<Rightarrow> Some (Inl e, wire')
                  | Inr m' \<Rightarrow> vaults_loop l (vaults @ vs) (Some m') wire'))))"

definition layer2_list_vaults ::
  "layer1 \<Rightarrow> http_req list \<Rightarrow> ((string, jval) dict list res \<times> http_req list) option" where
  "layer2_list_vaults l = vaults_loop l [] None"

definition layer2_get_vault :: "layer1 \<Rightarrow> string \<Rightarrow> (string, jval) dict glacier_op" where
  "layer2_get_vault l name =
     py_bind (describe_vault l name) (\<lambda>response_data. py_lift (vault_init (Some (gl_items response_data))))"

definition layer2_create_vault :: "layer1 \<Rightarrow> string \<Rightarrow> (string, jval) dict glacier_op" where
  "layer2_create_vault l name = py_bind (create_vault l name) (\<lambda>_. layer2_get_vault l name)"

definition layer2_delete_vault :: "layer1 \<Rightarrow> string \<Rightarrow> glacier_response glacier_op" where
  "layer2_delete_vault l name = delete_vault l name"

section \<open>Vault: creating archives\<close>

type_synonym filesystem = "string \<Rightarrow> string option"

text \<open>\<open>os.path.getsize\<close> and \<open>open(filename, 'rb')\<close>, both of which raise when there is no file.\<close>

definition getsize :: "filesystem \<Rightarrow> string \<Rightarrow> nat res" where
  "getsize fs filename = (case fs filename of None \<Rightarrow> Inl (IOError filename) | Some d \<Rightarrow> Inr (length d))"

definition open_rb :: "filesystem \<Rightarrow> string \<Rightarrow> pyfile res" where
  "open_rb fs filename = (case fs filename of
     None \<Rightarrow> Inl (IOError filename)
   | Some d \<Rightarrow> Inr \<lparr>file_data = d, file_pos = 0, file_mode = Some ''rb''\<rparr>)"

definition SingleOperationThreshold :: nat where
  "SingleOperationThreshold = 100 * MEGABYTE"

definition upload_archive_single_operation ::
  "(string \<Rightarrow> string) \<Rightarrow> bool \<Rightarrow> filesystem \<Rightarrow> layer1 \<Rightarrow> string \<Rightarrow> string \<Rightarrow> string option \<Rightarrow> jval glacier_op" where
  "upload_archive_single_operation H PY3 fs l name filename description =
     py_bind (py_lift (open_rb fs filename)) (\<lambda>fileobj.
       (case compute_hashes_from_fileobj H PY3 MEGABYTE fileobj of
          (Inl e, _) \<Rightarrow> py_raise e
        | (Inr (linear_hash, treehash), fileobj1) \<Rightarrow>
            py_bind (Glacier_Layer1.upload_archive l name (Archive_File (fileobj1\<lparr>file_pos := 0\<rparr>))
                linear_hash treehash description)
              (\<lambda>response. py_lift (getitem response ''ArchiveId''))))"

definition create_archive_writer ::
  "layer1 \<Rightarrow> string \<Rightarrow> nat \<Rightarrow> string option \<Rightarrow> writer glacier_op" where
  "create_archive_writer l name part_size description =
     py_bind (initiate_multipart_upload l name part_size description)
       (\<lambda>response. py_lift (res_bind (getitem response ''UploadId'') (\<lambda>u. res_bind (jstr u) (\<lambda>upload_id.
          Inr (writer_init name upload_id part_size MEGABYTE)))))"

text \<open>\<open>while True: data = file_obj.read(part_size); if not data: break; writer.write(data)\<close>.\<close>

function copy_loop ::
  "(string \<Rightarrow> string) \<Rightarrow> layer1 \<Rightarrow> nat \<Rightarrow> pyfile \<Rightarrow> (writer \<times> http_req list, unit) py" where
  "copy_loop H l part_size file_obj s =
     (case file_read part_size file_obj of (data, file_obj') \<Rightarrow>
        if data = [] then (Inr (), s)
        else (case writer_write H l data s of
                (Inl e, s') \<Rightarrow> (Inl e, s')
              | (Inr _, s') \<Rightarrow> copy_loop H l part_size file_obj' s'))"
  by pat_completeness auto
termination
proof (relation "measure (\<lambda>(H, l, n, f, s). length (file_rest f))", goal_cases)
  case (2 H l n f s d f' r s')
  then have "file_rest f' = drop (min n (length (file_rest f))) (file_rest f)" "take n (file_rest f) \<noteq> []"
    by (auto simp: file_read_rest file_rest_def add.commute)
  then show ?case by simp
qed simp

declare copy_loop.simps [simp del]

text \<open>
  \<open>create_archive_from_file(filename, file_obj, description, upload_id_callback)\<close>: the part size
  depends on the size of a named file; a file object is uploaded in parts of the default size.
\<close>

definition create_archive_from_file ::
  "(string \<Rightarrow> string) \<Rightarrow> bool \<Rightarrow> filesystem \<Rightarrow> layer1 \<Rightarrow> string \<Rightarrow> string \<Rightarrow> pyfile option \<Rightarrow> string option \<Rightarrow>
   (string \<Rightarrow> unit glacier_op) option \<Rightarrow> jval option glacier_op" where
  "create_archive_from_file H true_div fs l name filename file_obj description upload_id_callback =
     py_bind (py_lift (case file_obj of
         Some f \<Rightarrow> Inr (DEFAULT_PART_SIZE, f)
       | None \<Rightarrow> res_bind (getsize fs filename) (\<lambda>file_size.
           (case minimum_part_size true_div file_size DEFAULT_PART_SIZE of
              Inl ValueError \<Rightarrow> Inl (Boto_Error ''UploadArchiveError'')
            | Inl e \<Rightarrow> Inl e
            | Inr part_size \<Rightarrow> res_bind (open_rb fs filename) (\<lambda>f. Inr (part_size, f))))))
       (\<lambda>(part_size, f). py_bind (create_archive_writer l name part_size description)
         (\<lambda>w. py_bind (case upload_id_callback of
                 None \<Rightarrow> py_ret () | Some callback \<Rightarrow> callback (up_upload_id (wr_uploader w)))
           (\<lambda>_ wire.
             (case py_bind (copy_loop H l part_size f)
                    (\<lambda>_. py_bind (writer_close H l) (\<lambda>_. writer_get_archive_id H l)) (w, wire) of
                (r, (_, wire')) \<Rightarrow> (r, wire')))))"

definition vault_upload_archive ::
  "(string \<Rightarrow> string) \<Rightarrow> bool \<Rightarrow> filesystem \<Rightarrow> layer1 \<Rightarrow> string \<Rightarrow> string \<Rightarrow> string option \<Rightarrow> jval option glacier_op" where
  "vault_upload_archive H PY3 fs l name filename description =
     py_bind (py_lift (getsize fs filename)) (\<lambda>sz.
       if SingleOperationThreshold < sz
       then create_archive_from_file H PY3 fs l name filename None description None
       else py_bind (upload_archive_single_operation H PY3 fs l name filename description) (\<lambda>a. py_ret (Some a)))"

section \<open>Vault: resuming\<close>

text \<open>
  \<open>_range_string_to_part_index\<close>.  The unpacking wants exactly two numbers; the adjustment is for
  a service that counts one byte too many.
\<close>

definition range_string_to_part_index :: "string \<Rightarrow> int \<Rightarrow> int res" where
  "range_string_to_part_index range_string part_size =
     (case map py_int (str_split (CHR ''-'') range_string) of
        [Inr start, Inr inside_end] \<Rightarrow>
          (let end0 = inside_end + 1;
               length0 = end0 - start;
               len = (if length0 = part_size + 1 then length0 - 1 else length0)
           in if part_size = 0 then Inl ZeroDivisionError
              else if start mod part_size \<noteq> 0 then Inl AssertionError
              else if part_size < len then Inl AssertionError
              else Inr (start div part_size))
      | _ \<Rightarrow> Inl ValueError)"

definition add_part :: "int \<Rightarrow> jval \<Rightarrow> (nat, string) dict \<Rightarrow> (nat, string) dict res" where
  "add_part part_size part_desc part_hash_map =
     res_bind (jitem part_desc ''RangeInBytes'') (\<lambda>r. res_bind (jstr r) (\<lambda>range_string.
     res_bind (range_string_to_part_index range_string part_size) (\<lambda>part_index.
     res_bind (jitem part_desc ''SHA256TreeHash'') (\<lambda>h. res_bind (jstr h) (\<lambda>hex.
     res_bind (unhexlify hex) (\<lambda>part_hash.
       Inr (AList.update (nat part_index) part_hash part_hash_map)))))))"

fun add_parts :: "int \<Rightarrow> jval list \<Rightarrow> (nat, string) dict \<Rightarrow> (nat, string) dict res" where
  "add_parts part_size [] m = Inr m"
| "add_parts part_size (d # ds) m = res_bind (add_part part_size d m) (add_parts part_size ds)"

definition resume_archive_from_file ::
  "(string \<Rightarrow> string) \<Rightarrow> bool \<Rightarrow> filesystem \<Rightarrow> layer1 \<Rightarrow> string \<Rightarrow> string \<Rightarrow> string \<Rightarrow> pyfile option \<Rightarrow>
   http_req list \<Rightarrow> (jval option res \<times> http_req list) option" where
  "resume_archive_from_file H PY3 fs l name upload_id filename file_obj wire =
     (case list_all_parts l name upload_id wire of
        None \<Rightarrow> None
      | Some (Inl e, wire1) \<Rightarrow> Some (Inl e, wire1)
      | Some (Inr part_list_response, wire1) \<Rightarrow>
        Some (case res_bind (getitem part_list_response ''PartSizeInBytes'') (\<lambda>v. res_bind (jnum v) (\<lambda>part_size.
                res_bind (getitem part_list_response ''Parts'') (\<lambda>p. res_bind (jlist p) (\<lambda>descs.
                res_bind (add_parts part_size descs []) (\<lambda>part_hash_map.
                res_bind (case file_obj of Some f \<Rightarrow> Inr f | None \<Rightarrow> open_rb fs filename) (\<lambda>f.
                  Inr (nat part_size, part_hash_map, f))))))) of
            Inl e \<Rightarrow> (Inl e, wire1)
          | Inr (part_size, part_hash_map, f) \<Rightarrow>
              resume_file_upload H PY3 l name upload_id part_size f part_hash_map MEGABYTE wire1))"

section \<open>Vault: jobs\<close>

text \<open>\<open>job_data[k] = v\<close> for an argument that is not \<open>None\<close>.\<close>

definition set_some :: "string \<Rightarrow> jval option \<Rightarrow> (string, jval) dict \<Rightarrow> (string, jval) dict" where
  "set_some k v d = (case v of None \<Rightarrow> d | Some x \<Rightarrow> AList.update k x d)"

definition archive_retrieval_data :: "string \<Rightarrow> string option \<Rightarrow> string option \<Rightarrow> (string, jval) dict" where
  "archive_retrieval_data archive_id sns_topic description =
     set_some ''Description'' (map_option JStr description)
       (set_some ''SNSTopic'' (map_option JStr sns_topic)
         [(''Type'', JStr ''archive-retrieval''), (''ArchiveId'', JStr archive_id)])"

definition vault_get_job :: "layer1 \<Rightarrow> string \<Rightarrow> string \<Rightarrow> (string, jval) dict glacier_op" where
  "vault_get_job l name job_id =
     py_bind (describe_job l name job_id) (\<lambda>response_data. py_lift (job_init (Some (gl_items response_data))))"

definition started_job :: "layer1 \<Rightarrow> string \<Rightarrow> (string, jval) dict \<Rightarrow> string glacier_op" where
  "started_job l name job_data =
     py_bind (initiate_job l name (JObj job_data)) (\<lambda>response. py_lift (res_bind (getitem response ''JobId'') jstr))"

definition retrieve_archive ::
  "layer1 \<Rightarrow> string \<Rightarrow> string \<Rightarrow> string option \<Rightarrow> string option \<Rightarrow> (string, jval) dict glacier_op" where
  "retrieve_archive l name archive_id sns_topic description =
     py_bind (started_job l name (archive_retrieval_data archive_id sns_topic description)) (vault_get_job l name)"

text \<open>The dates are the texts that \<open>strftime('%Y-%m-%dT%H:%M:%S%Z')\<close> gives.\<close>

definition inventory_retrieval_data ::
  "string option \<Rightarrow> string option \<Rightarrow> string option \<Rightarrow> string option \<Rightarrow> string option \<Rightarrow> int option \<Rightarrow>
   (string, jval) dict" where
  "inventory_retrieval_data sns_topic description byte_range start_date end_date limit =
     (let job_data = set_some ''RetrievalByteRange'' (map_option JStr byte_range)
            (set_some ''Description'' (map_option JStr description)
              (set_some ''SNSTopic'' (map_option JStr sns_topic) [(''Type'', JStr ''inventory-retrieval'')]));
          rparams = set_some ''Limit'' (map_option JNum limit)
            (set_some ''EndDate'' (map_option JStr end_date)
              (set_some ''StartDate'' (map_option JStr start_date) []))
      in if start_date \<noteq> None \<or> end_date \<noteq> None \<or> limit \<noteq> None
         then AList.update ''InventoryRetrievalParameters'' (JObj rparams) job_data else job_data)"

definition retrieve_inventory ::
  "layer1 \<Rightarrow> string \<Rightarrow> string option \<Rightarrow> string option \<Rightarrow> string option \<Rightarrow> string option \<Rightarrow> string option \<Rightarrow>
   int option \<Rightarrow> string glacier_op" where
  "retrieve_inventory l name sns_topic description byte_range start_date end_date limit =
     started_job l name (inventory_retrieval_data sns_topic description byte_range start_date end_date limit)"

definition retrieve_inventory_job ::
  "layer1 \<Rightarrow> string \<Rightarrow> string option \<Rightarrow> string option \<Rightarrow> string option \<Rightarrow> string option \<Rightarrow> string option \<Rightarrow>
   int option \<Rightarrow> (string, jval) dict glacier_op" where
  "retrieve_inventory_job l name sns_topic description byte_range start_date end_date limit =
     py_bind (retrieve_inventory l name sns_topic description byte_range start_date end_date limit)
       (vault_get_job l name)"

definition vault_list_jobs ::
  "layer1 \<Rightarrow> string \<Rightarrow> bool option \<Rightarrow> string option \<Rightarrow> (string, jval) dict list glacier_op" where
  "vault_list_jobs l name completed status_code =
     py_bind (list_jobs l name completed status_code None None) (\<lambda>response_data.
       py_lift (res_bind (getitem response_data ''JobList'') (\<lambda>v. res_bind (jlist v) (\<lambda>jds.
         foldl (\<lambda>acc jd. res_bind acc (\<lambda>js. case jd of
            JObj kvs \<Rightarrow> res_bind (job_init (Some kvs)) (\<lambda>a. Inr (js @ [a]))
          | _ \<Rightarrow> Inl TypeError)) (Inr []) jds))))"

definition vault_delete :: "layer1 \<Rightarrow> string \<Rightarrow> glacier_response glacier_op" where
  "vault_delete l name = delete_vault l name"

definition vault_delete_archive :: "layer1 \<Rightarrow> string \<Rightarrow> string \<Rightarrow> glacier_response glacier_op" where
  "vault_delete_archive l name archive_id = delete_archive l name archive_id"

section \<open>Job: downloading\<close>

record job =
  jb_layer1 :: layer1
  jb_vault :: string
  jb_id :: string
  jb_archive_size :: nat
  jb_treehash :: jval

definition job_get_output ::
  "(string \<Rightarrow> string) \<Rightarrow> job \<Rightarrow> (int \<times> int) option \<Rightarrow> bool \<Rightarrow> glacier_response glacier_op" where
  "job_get_output H j byte_range validate_checksum =
     py_bind (get_job_output (jb_layer1 j) (jb_vault j) (jb_id j) byte_range) (\<lambda>response. py_lift
       (if validate_checksum \<and> map_of (gl_items response) ''TreeHash'' \<noteq> None
        then res_bind (tree_hash_from_str H (gl_body response)) (\<lambda>actual_tree_hash.
          if map_of (gl_items response) ''TreeHash'' \<noteq> Some (JStr actual_tree_hash)
          then Inl (Boto_Error ''TreeHashDoesNotMatchError'') else Inr response)
        else Inr response))"

text \<open>
  \<open>int(math.ceil(archive_size / float(chunk_size)))\<close>: for sizes below \<open>2 ^ 53\<close>, which every
  archive is, the division in doubles rounds to the right side of every integer.
\<close>

definition calc_num_chunks :: "job \<Rightarrow> nat \<Rightarrow> nat res" where
  "calc_num_chunks j chunk_size =
     (if chunk_size = 0 then Inl ZeroDivisionError else Inr (ceil_div (jb_archive_size j) chunk_size))"

text \<open>
  \<open>_download_byte_range\<close>: at most five attempts; an exception that is not to be retried leaves the
  loop.  After five failures the handler formats \<open>e\<close>, a name that Python 3 has unbound again at
  the end of the \<open>except\<close> clause.
\<close>

fun download_attempts ::
  "(string \<Rightarrow> string) \<Rightarrow> bool \<Rightarrow> (py_exc \<Rightarrow> bool) \<Rightarrow> job \<Rightarrow> int \<times> int \<Rightarrow> nat \<Rightarrow> (string \<times> jval) glacier_op" where
  "download_attempts H PY3 retry_exceptions j byte_range 0 wire =
     (Inl (if PY3 then NameError else Boto_Error ''DownloadArchiveError''), wire)"
| "download_attempts H PY3 retry_exceptions j byte_range (Suc n) wire =
     (case py_bind (job_get_output H j (Some byte_range) False)
              (\<lambda>response. py_lift (res_bind (getitem response ''TreeHash'') (\<lambda>t. Inr (gl_body response, t)))) wire of
        (Inl e, wire') \<Rightarrow>
          (if retry_exceptions e then download_attempts H PY3 retry_exceptions j byte_range n wire' else (Inl e, wire'))
      | (Inr data_hash, wire') \<Rightarrow> (Inr data_hash, wire'))"

definition download_byte_range ::
  "(string \<Rightarrow> string) \<Rightarrow> bool \<Rightarrow> (py_exc \<Rightarrow> bool) \<Rightarrow> job \<Rightarrow> int \<times> int \<Rightarrow> (string \<times> jval) glacier_op" where
  "download_byte_range H PY3 retry_exceptions j byte_range =
     download_attempts H PY3 retry_exceptions j byte_range 5"

definition download_chunk ::
  "(string \<Rightarrow> string) \<Rightarrow> bool \<Rightarrow> (py_exc \<Rightarrow> bool) \<Rightarrow> job \<Rightarrow> nat \<Rightarrow> bool \<Rightarrow> nat \<Rightarrow>
   (string \<times> http_req list, unit) py" where
  "download_chunk H PY3 retry_exceptions j chunk_size verify_hashes i = (\<lambda>(out, wire).
     case download_byte_range H PY3 retry_exceptions j (int (i * chunk_size), int ((i + 1) * chunk_size) - 1) wire of
       (Inl e, wire') \<Rightarrow> (Inl e, (out, wire'))
     | (Inr (data, expected_tree_hash), wire') \<Rightarrow>
         (if verify_hashes then
            (case tree_hash_from_str H data of
               Inl e \<Rightarrow> (Inl e, (out, wire'))
             | Inr actual_tree_hash \<Rightarrow>
                 (if expected_tree_hash \<noteq> JStr actual_tree_hash
                  then (Inl (Boto_Error ''TreeHashDoesNotMatchError''), (out, wire'))
                  else (Inr (), (out @ data, wire'))))
          else (Inr (), (out @ data, wire'))))"

definition download_to_fileob ::
  "(string \<Rightarrow> string) \<Rightarrow> bool \<Rightarrow> job \<Rightarrow> nat \<Rightarrow> nat \<Rightarrow> bool \<Rightarrow> (py_exc \<Rightarrow> bool) \<Rightarrow>
   (string \<times> http_req list, unit) py" where
  "download_to_fileob H PY3 j num_chunks chunk_size verify_hashes retry_exceptions =
     py_for [0..<num_chunks] (download_chunk H PY3 retry_exceptions j chunk_size verify_hashes)"

text \<open>The file object's contents from where the download starts, and the requests.\<close>

definition download_to_fileobj ::
  "(string \<Rightarrow> string) \<Rightarrow> bool \<Rightarrow> job \<Rightarrow> nat \<Rightarrow> bool \<Rightarrow> (py_exc \<Rightarrow> bool) \<Rightarrow> (string \<times> http_req list, unit) py" where
  "download_to_fileobj H PY3 j chunk_size verify_hashes retry_exceptions =
     py_bind (py_lift (calc_num_chunks j chunk_size))
       (\<lambda>num_chunks. download_to_fileob H PY3 j num_chunks chunk_size verify_hashes retry_exceptions)"

definition download_to_file ::
  "(string \<Rightarrow> string) \<Rightarrow> bool \<Rightarrow> job \<Rightarrow> nat \<Rightarrow> bool \<Rightarrow> (py_exc \<Rightarrow> bool) \<Rightarrow> (string \<times> http_req list, unit) py" where
  "download_to_file H PY3 j chunk_size verify_hashes retry_exceptions =
     py_bind (py_lift (calc_num_chunks j chunk_size))
       (\<lambda>num_chunks (old, wire). download_to_fileob H PY3 j num_chunks chunk_size verify_hashes retry_exceptions ([], wire))"

section \<open>Lemmas: ranges and pages\<close>

lemma range_text_nat: "range_text (int a, int b) = nat_str a @ CHR ''-'' # nat_str b"
  by (simp add: range_text_def str_int_def)

lemma split_range_text: "str_split (CHR ''-'') (nat_str a @ CHR ''-'' # nat_str b) = [nat_str a, nat_str b]"
  by (simp add: str_split_append nat_str_not_dash str_split_no_sep)

lemma getitem_update [simp]:
  "getitem (r\<lparr>gl_items := AList.update k v (gl_items r)\<rparr>) k' = (if k' = k then Inr v else getitem r k')"
  by (simp add: getitem_def update_conv')

definition list_parts_request :: "layer1 \<Rightarrow> string \<Rightarrow> string \<Rightarrow> string option \<Rightarrow> http_req" where
  "list_parts_request l name upload_id marker =
     the_request l ''GET'' (''vaults/'' @ name @ ''/multipart-uploads/'' @ upload_id) [] [] (page_params None marker)"

lemma list_parts_sends:
  "list_parts l name uid None marker wire =
   (fst (list_parts l name uid None marker wire), wire @ [list_parts_request l name uid marker])"
  by (simp add: prod_eq_iff list_parts_def req.sends list_parts_request_def)

text \<open>
  A service that lists the parts of an upload in pages: the first page has the items \<open>ps\<close>, and
  each further one is found under the marker its predecessor gave.
\<close>

definition answers_page :: "layer1 \<Rightarrow> string \<Rightarrow> string \<Rightarrow> jval \<Rightarrow> string option \<Rightarrow> jval list \<Rightarrow> jval \<Rightarrow> bool" where
  "answers_page l name uid sz marker ps next_marker \<longleftrightarrow>
     (\<forall>wire. \<exists>r. fst (list_parts l name uid None marker wire) = Inr r
        \<and> getitem r ''Parts'' = Inr (JList ps) \<and> getitem r ''Marker'' = Inr next_marker
        \<and> getitem r ''PartSizeInBytes'' = Inr sz)"

fun page_chain ::
  "layer1 \<Rightarrow> string \<Rightarrow> string \<Rightarrow> jval \<Rightarrow> string option \<Rightarrow> jval list \<Rightarrow> (string \<times> jval list) list \<Rightarrow> bool" where
  "page_chain l name uid sz marker ps [] \<longleftrightarrow> answers_page l name uid sz marker ps JNull"
| "page_chain l name uid sz marker ps ((m, qs) # rest) \<longleftrightarrow>
     m \<noteq> [] \<and> answers_page l name uid sz marker ps (JStr m) \<and> page_chain l name uid sz (Some m) qs rest"

definition first_marker :: "(string \<times> 'a) list \<Rightarrow> jval" where
  "first_marker rest = (case rest of [] \<Rightarrow> JNull | (m, _) # _ \<Rightarrow> JStr m)"

lemma page_chain_first:
  "page_chain l name uid sz marker ps rest \<Longrightarrow> answers_page l name uid sz marker ps (first_marker rest)"
  by (cases rest) (auto simp: first_marker_def)

lemma parts_loop_pages:
  assumes "getitem result ''Parts'' = Inr (JList acc)" and "getitem result ''PartSizeInBytes'' = Inr sz"
    and "rest \<noteq> [] \<Longrightarrow> fst (hd rest) \<noteq> [] \<and> page_chain l name uid sz (Some (fst (hd rest))) (snd (hd rest)) (tl rest)"
  shows "\<exists>r. parts_loop l name uid result (first_marker rest) wire =
      Some (Inr r, wire @ map (\<lambda>(m, qs). list_parts_request l name uid (Some m)) rest)
    \<and> getitem r ''Parts'' = Inr (JList (acc @ concat (map snd rest)))
    \<and> getitem r ''Marker'' = Inr JNull \<and> getitem r ''PartSizeInBytes'' = Inr sz"
  using assms
proof (induction rest arbitrary: result acc wire)
  case Nil
  then show ?case by (simp add: parts_loop.simps first_marker_def)
next
  case (Cons mq rest)
  obtain m qs where mq: "mq = (m, qs)" by (cases mq)
  from Cons.prems(3) mq have m: "m \<noteq> []" and chain: "page_chain l name uid sz (Some m) qs rest" by simp_all
  from page_chain_first [OF chain] obtain add where
    add: "fst (list_parts l name uid None (Some m) wire) = Inr add"
      "getitem add ''Parts'' = Inr (JList qs)" "getitem add ''Marker'' = Inr (first_marker rest)"
    unfolding answers_page_def by blast
  let ?result = "result\<lparr>gl_items := AList.update ''Parts'' (JList (acc @ qs)) (gl_items result)\<rparr>"
  let ?wire = "wire @ [list_parts_request l name uid (Some m)]"
  have ext: "extend_parts result add = Inr (?result, first_marker rest)"
    using Cons.prems(1) add by (simp add: extend_parts_def jlist_def)
  have step: "parts_loop l name uid result (JStr m) wire = parts_loop l name uid ?result (first_marker rest) ?wire"
    by (subst parts_loop.simps, subst list_parts_sends) (simp add: m add ext jstr_def)
  have next_chain: "rest \<noteq> [] \<Longrightarrow> fst (hd rest) \<noteq> []
      \<and> page_chain l name uid sz (Some (fst (hd rest))) (snd (hd rest)) (tl rest)"
    using chain by (cases rest) auto
  from Cons.IH [of ?result "acc @ qs" ?wire] Cons.prems(2) next_chain
  show ?case by (simp add: mq step first_marker_def [of "(m, qs) # rest"])
qed

lemma parts_listing:
  assumes "page_chain l name uid sz None ps rest"
  shows "\<exists>r. list_all_parts l name uid wire =
      Some (Inr r, wire @ list_parts_request l name uid None
        # map (\<lambda>(m, qs). list_parts_request l name uid (Some m)) rest)
    \<and> getitem r ''Parts'' = Inr (JList (ps @ concat (map snd rest)))
    \<and> getitem r ''Marker'' = Inr JNull \<and> getitem r ''PartSizeInBytes'' = Inr sz"
proof -
  from page_chain_first [OF assms] obtain r where
    r: "fst (list_parts l name uid None None wire) = Inr r" "getitem r ''Parts'' = Inr (JList ps)"
      "getitem r ''Marker'' = Inr (first_marker rest)" "getitem r ''PartSizeInBytes'' = Inr sz"
    unfolding answers_page_def by blast
  have "rest \<noteq> [] \<Longrightarrow> fst (hd rest) \<noteq> []
      \<and> page_chain l name uid sz (Some (fst (hd rest))) (snd (hd rest)) (tl rest)"
    using assms by (cases rest) auto
  from parts_loop_pages [OF r(2,4) this, of "wire @ [list_parts_request l name uid None]"]
  show ?thesis by (subst list_all_parts_def, subst list_parts_sends) (simp add: r)
qed

lemma range_to_index:
  "range_string_to_part_index (range_text (int a, int b)) (int n) =
     (if n = 0 then Inl ZeroDivisionError
      else if a mod n = 0 \<and> b \<le> a + n then Inr (int (a div n)) else Inl AssertionError)"
proof -
  have "int a mod int n = int (a mod n)" "int a div int n = int (a div n)"
    by (simp_all add: zmod_int zdiv_int)
  then show ?thesis
    by (auto simp: range_string_to_part_index_def range_text_nat split_range_text Let_def)
qed

section \<open>Lemmas: creating an archive\<close>

lemma minimum_part_size_form:
  "minimum_part_size td sz DEFAULT_PART_SIZE = Inr n \<Longrightarrow> \<exists>k. n = MEGABYTE * 2 ^ k"
  using part_size_loop_form [of td sz MEGABYTE 3] exI [of "\<lambda>k. MEGABYTE = MEGABYTE * 2 ^ k" 0]
    exI [of "\<lambda>k. DEFAULT_PART_SIZE = MEGABYTE * 2 ^ k" 2]
  by (auto simp: minimum_part_size_def DEFAULT_PART_SIZE_def split: if_splits)

text \<open>The copying loop writes the rest of the file in part-sized pieces.\<close>

lemma copy_loop_pieces:
  assumes "0 < n"
  shows "copy_loop H l n f s = py_for (pieces n (file_rest f)) (writer_write H l) s"
proof (induction "length (file_rest f)" arbitrary: f s rule: less_induct)
  case less
  let ?r = "file_rest f"
  define f' where "f' = f\<lparr>file_pos := file_pos f + min n (length ?r)\<rparr>"
  have read: "file_read n f = (take n ?r, f')" by (simp add: file_read_rest f'_def)
  have rest: "file_rest f' = drop n ?r" by (simp add: f'_def file_rest_def min_def add.commute)
  show ?case
  proof (cases "?r = []")
    case True
    then show ?thesis by (simp add: copy_loop.simps [of H l n f] read)
  next
    case False
    with assms have "length (file_rest f') < length ?r" by (simp add: rest)
    from less.hyps [OF this] show ?thesis using False assms
      by (simp add: copy_loop.simps [of H l n f] read rest pieces_step [of n ?r] split: prod.split sum.split)
  qed
qed

lemma writer_close_closed: "wr_closed w \<Longrightarrow> writer_close H l (w, wire) = (Inr (), (w, wire))"
  by (simp add: writer_close_def)

definition initiate_request :: "layer1 \<Rightarrow> string \<Rightarrow> nat \<Rightarrow> string option \<Rightarrow> http_req" where
  "initiate_request l name part_size description =
     the_request l ''POST'' (''vaults/'' @ name @ ''/multipart-uploads'')
       (set_if (truthy description) ''x-amz-archive-description'' (the description)
          [(''x-amz-part-size'', nat_str part_size)]) [] []"

lemma initiate_sends:
  "initiate_multipart_upload l name n d wire =
   (fst (initiate_multipart_upload l name n d wire), wire @ [initiate_request l name n d])"
  by (simp add: prod_eq_iff initiate_multipart_upload_def Let_def req.sends initiate_request_def)

section \<open>Lemmas: downloads\<close>

definition output_request :: "job \<Rightarrow> int \<Rightarrow> int \<Rightarrow> http_req" where
  "output_request j a b =
     the_request (jb_layer1 j) ''GET'' (''vaults/'' @ jb_vault j @ ''/jobs/'' @ jb_id j @ ''/output'')
       [(''Range'', ''bytes='' @ range_text (a, b))] [] []"

lemma output_sends:
  "get_job_output (jb_layer1 j) (jb_vault j) (jb_id j) (Some (a, b)) wire =
   (fst (get_job_output (jb_layer1 j) (jb_vault j) (jb_id j) (Some (a, b)) wire), wire @ [output_request j a b])"
  by (simp add: prod_eq_iff get_job_output_def Let_def req.sends output_request_def)

lemma tree_hash_from_str_eq: "tree_hash_from_str H s = Inr (bytes_to_hex (part_tree_hash H MEGABYTE s))"
proof -
  have "0 < MEGABYTE" by (simp add: MEGABYTE_def)
  from part_tree_hash [OF this, of H s] show ?thesis
    by (auto simp: tree_hash_from_str_def res_bind_def split: sum.splits)
qed

text \<open>Some answer to the request for \<open>byte_range\<close> had the body \<open>d\<close> and stated its tree hash.\<close>

definition vouched :: "(string \<Rightarrow> string) \<Rightarrow> job \<Rightarrow> int \<times> int \<Rightarrow> string \<Rightarrow> bool" where
  "vouched H j byte_range d \<longleftrightarrow> (\<exists>wire r.
     fst (get_job_output (jb_layer1 j) (jb_vault j) (jb_id j) (Some byte_range) wire) = Inr r
     \<and> gl_body r = d \<and> getitem r ''TreeHash'' = Inr (JStr (bytes_to_hex (part_tree_hash H MEGABYTE d))))"

lemma download_attempts_answer:
  "download_attempts H PY3 retry j rng n wire = (Inr (d, t), wire') \<Longrightarrow>
   \<exists>wire0 r. fst (get_job_output (jb_layer1 j) (jb_vault j) (jb_id j) (Some rng) wire0) = Inr r
     \<and> gl_body r = d \<and> getitem r ''TreeHash'' = Inr t"
proof (induction n arbitrary: wire)
  case (Suc n)
  show ?case
  proof (cases "fst (get_job_output (jb_layer1 j) (jb_vault j) (jb_id j) (Some rng) wire)")
    case (Inl e)
    with Suc show ?thesis
      by (cases "get_job_output (jb_layer1 j) (jb_vault j) (jb_id j) (Some rng) wire")
        (auto simp: job_get_output_def py_bind_def split: if_splits)
  next
    case (Inr r)
    with Suc show ?thesis
      by (cases "get_job_output (jb_layer1 j) (jb_vault j) (jb_id j) (Some rng) wire"; cases "getitem r ''TreeHash''")
        (auto simp: job_get_output_def py_bind_def py_lift_def split: if_splits intro!: exI [of _ wire])
  qed
qed simp

lemma download_chunk_vouched:
  assumes "download_chunk H PY3 retry j c True i (out, wire) = (Inr (), (out', wire'))"
  shows "\<exists>d. out' = out @ d \<and> vouched H j (int (i * c), int ((i + 1) * c) - 1) d"
proof -
  from assms obtain d where
    "download_attempts H PY3 retry j (int (i * c), int ((i + 1) * c) - 1) 5 wire =
       (Inr (d, JStr (bytes_to_hex (part_tree_hash H MEGABYTE d))), wire')" and "out' = out @ d"
    unfolding download_chunk_def download_byte_range_def
    by (auto simp del: of_nat_mult download_attempts.simps simp: tree_hash_from_str_eq split: prod.splits sum.splits if_splits)
  from download_attempts_answer [OF this(1)] this(2) show ?thesis by (auto simp: vouched_def)
qed

lemma download_chunks_vouched:
  "py_for [0..<k] (download_chunk H PY3 retry j c True) (out, wire) = (Inr (), (out', wire')) \<Longrightarrow>
   \<exists>ds. out' = out @ concat ds \<and> length ds = k
     \<and> (\<forall>i < k. vouched H j (int (i * c), int ((i + 1) * c) - 1) (ds ! i))"
proof (induction k arbitrary: out' wire')
  case (Suc k)
  from Suc.prems obtain out1 wire1 where
    1: "py_for [0..<k] (download_chunk H PY3 retry j c True) (out, wire) = (Inr (), (out1, wire1))"
    and 2: "download_chunk H PY3 retry j c True k (out1, wire1) = (Inr (), (out', wire'))"
    by (auto simp: py_for_append split: prod.splits sum.splits)
  from Suc.IH [OF 1] obtain ds where ds: "out1 = out @ concat ds" "length ds = k"
    "\<forall>i < k. vouched H j (int (i * c), int ((i + 1) * c) - 1) (ds ! i)" by blast
  from download_chunk_vouched [OF 2] obtain d where
    d: "out' = out1 @ d" "vouched H j (int (k * c), int ((k + 1) * c) - 1) d" by blast
  have "vouched H j (int (i * c), int ((i + 1) * c) - 1) ((ds @ [d]) ! i)" if "i < Suc k" for i
    using that ds(2,3) d(2) by (cases "i = k") (simp_all add: nth_append)
  then show ?case using ds(1,2) d(1) by (intro exI [of _ "ds @ [d]"]) simp
qed simp

text \<open>A service that has the archive \<open>D\<close>, for downloads in chunks of \<open>c\<close> bytes.\<close>

definition serves_archive :: "(string \<Rightarrow> string) \<Rightarrow> job \<Rightarrow> string \<Rightarrow> nat \<Rightarrow> bool" where
  "serves_archive H j D c \<longleftrightarrow> 0 < c \<and> jb_archive_size j = length D
     \<and> (\<forall>i < ceil_div (length D) c. \<forall>wire. \<exists>r.
          fst (get_job_output (jb_layer1 j) (jb_vault j) (jb_id j) (Some (int (i * c), int ((i + 1) * c) - 1)) wire) = Inr r
          \<and> gl_body r = slice D (i * c) ((i + 1) * c)
          \<and> getitem r ''TreeHash'' = Inr (JStr (bytes_to_hex (part_tree_hash H MEGABYTE (slice D (i * c) ((i + 1) * c))))))"

lemma download_chunk_serves:
  assumes "serves_archive H j D c" and "i < ceil_div (length D) c"
  shows "download_chunk H PY3 retry j c verify i (out, wire) =
    (Inr (), (out @ slice D (i * c) ((i + 1) * c), wire @ [output_request j (int (i * c)) (int ((i + 1) * c) - 1)]))"
proof -
  define a b where "a = int (i * c)" and "b = int ((i + 1) * c) - 1"
  from assms obtain r where r:
    "fst (get_job_output (jb_layer1 j) (jb_vault j) (jb_id j) (Some (a, b)) wire) = Inr r"
    "gl_body r = slice D (i * c) ((i + 1) * c)"
    "getitem r ''TreeHash'' = Inr (JStr (bytes_to_hex (part_tree_hash H MEGABYTE (slice D (i * c) ((i + 1) * c)))))"
    unfolding serves_archive_def a_def b_def by blast
  then have "get_job_output (jb_layer1 j) (jb_vault j) (jb_id j) (Some (a, b)) wire = (Inr r, wire @ [output_request j a b])"
    using output_sends [of j a b wire] by simp
  then have "download_byte_range H PY3 retry j (a, b) wire = (Inr (slice D (i * c) ((i + 1) * c),
      JStr (bytes_to_hex (part_tree_hash H MEGABYTE (slice D (i * c) ((i + 1) * c))))), wire @ [output_request j a b])"
    by (simp add: download_byte_range_def eval_nat_numeral job_get_output_def py_bind_def py_lift_def r(2,3))
  then show ?thesis
    unfolding a_def b_def
    by (simp add: download_chunk_def tree_hash_from_str_eq del: of_nat_mult of_nat_add of_nat_Suc mult_Suc)
qed

lemma download_chunks_serve:
  assumes "serves_archive H j D c"
  shows "k \<le> ceil_div (length D) c \<Longrightarrow>
    py_for [0..<k] (download_chunk H PY3 retry j c verify) (out, wire) =
    (Inr (), (out @ take (k * c) D, wire @ map (\<lambda>i. output_request j (int (i * c)) (int ((i + 1) * c) - 1)) [0..<k]))"
proof (induction k)
  case (Suc k)
  have "take (k * c) D @ slice D (k * c) ((k + 1) * c) = take ((k + 1) * c) D"
    using take_add [of "k * c" c D] by (simp add: slice_def add.commute)
  with Suc download_chunk_serves [OF assms, of k] show ?case
    by (simp add: py_for_append del: of_nat_mult of_nat_add of_nat_Suc mult_Suc)
qed simp

lemma download_serves:
  assumes "serves_archive H j D c"
  shows "download_to_fileobj H PY3 j c verify retry (out, wire) =
    (Inr (), (out @ D, wire @ map (\<lambda>i. output_request j (int (i * c)) (int ((i + 1) * c) - 1)) [0..<ceil_div (length D) c]))"
proof -
  have c: "0 < c" "jb_archive_size j = length D" using assms by (simp_all add: serves_archive_def)
  have "length D \<le> ceil_div (length D) c * c" using ceil_div_le_iff [OF c(1), of "length D"] by blast
  then show ?thesis
    using download_chunks_serve [OF assms order_refl, of PY3 retry verify out wire] c
    by (simp add: download_to_fileobj_def download_to_fileob_def calc_num_chunks_def py_bind_def py_lift_def)
qed

text \<open>A job on an archive of at most four bytes, served in chunks of two, for the witnesses.\<close>

definition archive_job :: "string \<Rightarrow> job" where
  "archive_job D = \<lparr>jb_layer1 = \<lparr>account_id = ''-'', net = \<lparr>
      exchange = (\<lambda>_ req. let d = (if map_of (hr_headers req) ''Range'' = Some ''bytes=0-1'' then take 2 D else drop 2 D)
        in Inr \<lparr>rs_status = 206, rs_headers = [(''x-amz-sha256-tree-hash'', bytes_to_hex d)], rs_body = d\<rparr>),
      json_loads = (\<lambda>_. Inr []), json_dumps = (\<lambda>_. [])\<rparr>\<rparr>,
    jb_vault = ''v'', jb_id = ''j'', jb_archive_size = length D, jb_treehash = JNull\<rparr>"

lemma archive_job_fields [simp]:
  "jb_vault (archive_job D) = ''v''" "jb_id (archive_job D) = ''j''" "jb_archive_size (archive_job D) = length D"
  by (simp_all add: archive_job_def)

lemma archive_job_serves: "serves_archive id (archive_job ''abc'') ''abc'' 2"
proof -
  have h: "part_tree_hash id MEGABYTE d = d" if "length d \<le> 4" for d
    using that by (cases "d = []")
      (simp_all add: part_tree_hash_def tree_root_def tree_hash_def tree_hash_loop.simps pieces_single MEGABYTE_def)
  have lows: "str_lower ''Content-Type'' = ''content-type''" "str_lower ''Content-Range'' = ''content-range''"
    "str_lower ''x-amzn-requestid'' = ''x-amzn-requestid''" "str_lower ''Content-Length'' = ''content-length''"
    "str_lower ''x-amz-sha256-tree-hash'' = ''x-amz-sha256-tree-hash''" by code_simp+
  have i: "i < ceil_div 3 2 \<longleftrightarrow> i = 0 \<or> i = 1" for i by (auto simp: ceil_div_def)
  have answer: "\<exists>r. fst (get_job_output (jb_layer1 (archive_job ''abc'')) ''v'' ''j'' (Some (a, b)) wire) = Inr r
      \<and> gl_body r = d \<and> getitem r ''TreeHash'' = Inr (JStr (bytes_to_hex d))"
    if "d = (if range_text (a, b) = ''0-1'' then ''ab'' else ''c'')" for a b d wire
    using that lows by (simp add: archive_job_def get_job_output_def Let_def make_request_eq the_request_def
        glacier_response_init_def getheader_def getitem_def header_jval_def update_conv')
  have ranges: "range_text (0, 1) = ''0-1''" "range_text (2, 3) = ''2-3''"
    by (simp_all add: range_text_def str_int_def nat_str.simps digit_char_def char_eval)
  have a0: "\<exists>r. fst (get_job_output (jb_layer1 (archive_job ''abc'')) ''v'' ''j'' (Some (0, 1)) wire) = Inr r
      \<and> gl_body r = ''ab'' \<and> getitem r ''TreeHash'' = Inr (JStr (bytes_to_hex ''ab''))"
    and a1: "\<exists>r. fst (get_job_output (jb_layer1 (archive_job ''abc'')) ''v'' ''j'' (Some (2, 3)) wire) = Inr r
      \<and> gl_body r = ''c'' \<and> getitem r ''TreeHash'' = Inr (JStr (bytes_to_hex ''c''))" for wire
    by (rule answer, simp add: ranges)+
  show ?thesis
    unfolding serves_archive_def
  proof (intro conjI allI impI)
    fix i wire assume "i < ceil_div (length ''abc'') 2"
    then have "i = 0 \<or> i = 1" using i by (simp add: numeral_3_eq_3)
    then show "\<exists>r. fst (get_job_output (jb_layer1 (archive_job ''abc'')) (jb_vault (archive_job ''abc''))
         (jb_id (archive_job ''abc'')) (Some (int (i * 2), int ((i + 1) * 2) - 1)) wire) = Inr r
      \<and> gl_body r = slice ''abc'' (i * 2) ((i + 1) * 2) \<and> getitem r ''TreeHash'' =
        Inr (JStr (bytes_to_hex (part_tree_hash id MEGABYTE (slice ''abc'' (i * 2) ((i + 1) * 2)))))"
      using a0 [of wire] a1 [of wire] by (auto simp: slice_def h)
  qed simp_all
qed

section \<open>Properties\<close>

text \<open>
  What \<open>_range_string_to_part_index\<close> makes of the range from byte \<open>a\<close> to byte \<open>b\<close>: the part
  number \<open>a / n\<close> when the range starts on a part boundary and has at most \<open>n + 1\<close> bytes (one
  more than a part, the service's known miscount), and \<open>AssertionError\<close> otherwise.
\<close>

theorem range_string_to_part_index_spec:
  "range_string_to_part_index (range_text (int a, int b)) (int n) =
     (if n = 0 then Inl ZeroDivisionError
      else if a mod n = 0 \<and> b \<le> a + n then Inr (int (a div n)) else Inl AssertionError)"
  by (rule range_to_index)

text \<open>
  When the service lists the parts of an upload in pages chained by markers,
  \<open>list_all_parts\<close> returns: it asks for every page once, in order, and its result has the parts of
  all pages in order and no marker.
\<close>

theorem list_all_parts_collects_pages:
  assumes "page_chain l name uid sz None ps rest"
  shows "\<exists>r. list_all_parts l name uid wire =
      Some (Inr r, wire @ list_parts_request l name uid None
        # map (\<lambda>(m, qs). list_parts_request l name uid (Some m)) rest)
    \<and> getitem r ''Parts'' = Inr (JList (ps @ concat (map snd rest)))
    \<and> getitem r ''Marker'' = Inr JNull \<and> getitem r ''PartSizeInBytes'' = Inr sz"
  using assms by (rule parts_listing)

theorem list_all_parts_collects_pages_witness:
  "\<exists>l r. list_all_parts l ''v'' ''u'' [] =
      Some (Inr r, [list_parts_request l ''v'' ''u'' None, list_parts_request l ''v'' ''u'' (Some ''m'')])
    \<and> getitem r ''Parts'' = Inr (JList [JNum 1, JNum 2])"
proof -
  let ?page = "\<lambda>m. \<lparr>rs_status = 200, rs_headers = [(''Content-Type'', ''application/json'')],
      rs_body = (if m then ''1'' else ''2'')\<rparr>"
  let ?l = "\<lparr>account_id = ''-'', net = \<lparr>exchange = (\<lambda>_ req. Inr (?page (hr_params req = []))),
      json_loads = (\<lambda>b. Inr (if b = ''1''
        then [(''Parts'', JList [JNum 1]), (''Marker'', JStr ''m''), (''PartSizeInBytes'', JNum 7)]
        else [(''Parts'', JList [JNum 2]), (''Marker'', JNull), (''PartSizeInBytes'', JNum 7)])),
      json_dumps = (\<lambda>_. [])\<rparr>\<rparr>"
  have "page_chain ?l ''v'' ''u'' (JNum 7) None [JNum 1] [(''m'', [JNum 2])]"
    by (simp add: answers_page_def list_parts_def make_request_eq the_request_def page_params_def set_if_def
        truthy_def glacier_response_init_def getheader_def Let_def getitem_def dict_update_def)
  from list_all_parts_collects_pages [OF this, of "[]"] show ?thesis by auto
qed

text \<open>A part as the service lists it: number \<open>i\<close>, \<open>len\<close> bytes long, with tree hash \<open>h\<close>.\<close>

definition part_desc :: "nat \<Rightarrow> nat \<times> nat \<times> string \<Rightarrow> jval" where
  "part_desc n = (\<lambda>(i, len, h). JObj [(''RangeInBytes'', JStr (range_text (int (n * i), int (n * i + len - 1)))),
     (''SHA256TreeHash'', JStr (hexlify h))])"

lemma add_part_desc:
  assumes "0 < n" and "1 \<le> len" and "len \<le> n + 1"
  shows "add_part (int n) (part_desc n (i, len, h)) m = Inr (AList.update i h m)"
proof -
  have "n * i + len - 1 \<le> n * i + n" using assms by simp
  then have "range_string_to_part_index (range_text (int (n * i), int (n * i + len - 1))) (int n) = Inr (int i)"
    using assms(1) by (subst range_to_index) simp
  then show ?thesis
    by (simp add: add_part_def part_desc_def jitem_def jstr_def unhexlify_hexlify del: of_nat_mult of_nat_add)
qed

lemma add_part_descs:
  assumes "0 < n" and "\<forall>(i, len, h) \<in> set up. 1 \<le> len \<and> len \<le> n + 1"
  shows "\<exists>m'. add_parts (int n) (map (part_desc n) up) m = Inr m'
    \<and> map_of m' = map_of (rev (map (\<lambda>(i, len, h). (i, h)) up) @ m)"
  using assms(2)
proof (induction up arbitrary: m)
  case (Cons p up)
  obtain i len h where p: "p = (i, len, h)" by (cases p) auto
  with Cons.prems have len: "1 \<le> len" "len \<le> n + 1" by auto
  have "\<forall>(i, len, h) \<in> set up. 1 \<le> len \<and> len \<le> n + 1" using Cons.prems by simp
  from Cons.IH [OF this, of "AList.update i h m"] add_part_desc [OF assms(1) len, of i h m]
  show ?case by (simp add: p update_conv' fun_eq_iff map_add_def split: option.splits)
qed simp

lemma to_send_cong: "map_of m = map_of m' \<Longrightarrow> to_send H c m = to_send H c m'"
  by (simp add: to_send_def)

text \<open>
  C29: resuming an archive under Python 2: the parts the service has recorded are read from its page by page listing, and
  exactly those parts of the file are sent whose recorded hash is missing or is not the hash of the file's bytes, whatever
  the recorded ranges' lengths up to one byte too many.  If all bytes of the file are ASCII, the archive is then completed
  with the whole file's length and hash; otherwise this ends before the first part with another byte, with
  \<open>UnicodeDecodeError\<close> and without completing the archive.
\<close>

theorem resume_archive_end_to_end:
  assumes "service_accepts l" and "page_chain l name uid (JNum (int n)) None ps rest"
    and "ps @ concat (map snd rest) = map (part_desc n) up"
    and "\<forall>(i, len, h) \<in> set up. 1 \<le> len \<and> len \<le> n + 1"
    and "n = MEGABYTE * 2 ^ k" and "file_data f \<noteq> []" and "file_pos f = 0"
  shows "\<exists>r. resume_archive_from_file H False fs l name uid fn (Some f) wire = Some (r,
      wire @ list_parts_request l name uid None # map (\<lambda>(m, qs). list_parts_request l name uid (Some m)) rest
      @ map (part_request H l name uid n MEGABYTE)
          (to_send H MEGABYTE (rev (map (\<lambda>(i, len, h). (i, h)) up)) (enumerate 0 (takeWhile ascii (pieces n (file_data f)))))
      @ (if ascii (file_data f)
         then [complete_request l name uid (bytes_to_hex (part_tree_hash H MEGABYTE (file_data f))) (length (file_data f))] else []))
    \<and> (if ascii (file_data f) then \<exists>a. r = Inr a else r = Inl UnicodeDecodeError)"
proof -
  let ?wire1 = "wire @ list_parts_request l name uid None
    # map (\<lambda>(m, qs). list_parts_request l name uid (Some m)) rest"
  have n: "0 < n" and c: "0 < MEGABYTE" using assms(5) by (simp_all add: MEGABYTE_def)
  from parts_listing [OF assms(2), of wire] obtain r where
    r: "list_all_parts l name uid wire = Some (Inr r, ?wire1)"
      "getitem r ''Parts'' = Inr (JList (map (part_desc n) up))" "getitem r ''PartSizeInBytes'' = Inr (JNum (int n))"
    using assms(3) by auto
  from add_part_descs [OF n assms(4), of "[]"] obtain m where
    m: "add_parts (int n) (map (part_desc n) up) [] = Inr m" "map_of m = map_of (rev (map (\<lambda>(i, len, h). (i, h)) up))"
    by auto
  from resume_file_sends [OF assms(1) c assms(5,6,7), of H name uid m ?wire1] to_send_cong [OF m(2), of H MEGABYTE]
  show ?thesis by (simp add: resume_archive_from_file_def r m(1) jnum_def jlist_def)
qed

text \<open>A service with one recorded part, for the witness.\<close>

definition listing_layer1 :: "jval list \<Rightarrow> layer1" where
  "listing_layer1 ps = \<lparr>account_id = ''-'', net = \<lparr>
     exchange = (\<lambda>_ req. Inr (if hr_verb req = ''GET''
       then \<lparr>rs_status = 200, rs_headers = [(''Content-Type'', ''application/json'')], rs_body = []\<rparr>
       else \<lparr>rs_status = (if hr_verb req = ''PUT'' then 204 else 201), rs_headers = [], rs_body = []\<rparr>)),
     json_loads = (\<lambda>_. Inr [(''Parts'', JList ps), (''Marker'', JNull), (''PartSizeInBytes'', JNum (int MEGABYTE))]),
     json_dumps = (\<lambda>_. [])\<rparr>\<rparr>"

lemma listing_layer1_accepts: "service_accepts (listing_layer1 ps)"
  by (simp add: service_accepts_def listing_layer1_def getheader_def)

lemma listing_layer1_lists:
  "page_chain (listing_layer1 ps) v u (JNum (int MEGABYTE)) None ps []"
  by (simp add: listing_layer1_def answers_page_def list_parts_def make_request_eq the_request_def page_params_def
      set_if_def truthy_def glacier_response_init_def getheader_def Let_def getitem_def dict_update_def)

theorem resume_archive_end_to_end_witness:
  "\<exists>l a. resume_archive_from_file id False (\<lambda>_. None) l ''v'' ''u'' []
      (Some \<lparr>file_data = ''abc'', file_pos = 0, file_mode = None\<rparr>) [] = Some (Inr a,
      [list_parts_request l ''v'' ''u'' None, part_request id l ''v'' ''u'' MEGABYTE MEGABYTE (0, ''abc''),
       complete_request l ''v'' ''u'' (bytes_to_hex ''abc'') 3])"
proof -
  let ?ps = "[part_desc MEGABYTE (0, 3, ''xyz'')]"
  have M: "4 \<le> MEGABYTE" by (simp add: MEGABYTE_def)
  then have [simp]: "pieces MEGABYTE ''abc'' = [''abc'']" "pieces MEGABYTE ''xyz'' = [''xyz'']"
    by (simp_all add: pieces_single)
  have h: "part_tree_hash id MEGABYTE ''abc'' = ''abc''"
    by (simp add: part_tree_hash_def tree_root_def tree_hash_def tree_hash_loop.simps)
  have abc: "ascii ''abc''" by (simp add: ascii_def char_eval)
  have "\<exists>a. resume_archive_from_file id False (\<lambda>_. None) (listing_layer1 ?ps) ''v'' ''u'' []
      (Some \<lparr>file_data = ''abc'', file_pos = 0, file_mode = None\<rparr>) [] = Some (Inr a,
      [list_parts_request (listing_layer1 ?ps) ''v'' ''u'' None,
       part_request id (listing_layer1 ?ps) ''v'' ''u'' MEGABYTE MEGABYTE (0, ''abc''),
       complete_request (listing_layer1 ?ps) ''v'' ''u'' (bytes_to_hex ''abc'') 3])"
    using resume_archive_end_to_end [OF listing_layer1_accepts listing_layer1_lists,
        of ?ps "[(0, 3, ''xyz'')]" 0 "\<lparr>file_data = ''abc'', file_pos = 0, file_mode = None\<rparr>"
        id "\<lambda>_. None" "''v''" "''u''" "[]" "[]"] M abc
    by (auto simp: h to_send_def char_eval numeral_3_eq_3)
  then show ?thesis by blast
qed

text \<open>
  For a named, non-empty file within Glacier's size limit, \<open>create_archive_from_file\<close> returns:
  it starts an upload with the part size computed from the file's size, sends the file in parts
  of that size, in order, and completes the upload with the length and tree hash of the file.
\<close>

theorem create_archive_uploads_the_file:
  assumes "service_accepts l" and "fs filename = Some D" and "D \<noteq> []"
    and "minimum_part_size true_div (length D) DEFAULT_PART_SIZE = Inr n"
    and "\<forall>wire. \<exists>r. fst (initiate_multipart_upload l name n description wire) = Inr r
           \<and> getitem r ''UploadId'' = Inr (JStr uid)"
  shows "\<exists>a. create_archive_from_file H true_div fs l name filename None description None wire =
    (Inr a, wire @ [initiate_request l name n description] @ part_requests H l name uid n MEGABYTE (pieces n D)
      @ [complete_request l name uid (bytes_to_hex (part_tree_hash H MEGABYTE D)) (length D)])"
proof -
  obtain k where n: "n = MEGABYTE * 2 ^ k" using minimum_part_size_form [OF assms(4)] by blast
  have c: "0 < MEGABYTE" by (simp add: MEGABYTE_def)
  let ?f = "\<lparr>file_data = D, file_pos = 0, file_mode = Some ''rb''\<rparr>"
  let ?w = "writer_init name uid n MEGABYTE"
  let ?wire1 = "wire @ [initiate_request l name n description]"
  have f: "file_rest ?f = D" by (simp add: file_rest_def)
  have n0: "0 < n" using n c by simp
  then have cat: "concat (pieces n D) = D" by (simp add: concat_pieces)
  have copy_eq: "copy_loop H l n ?f = py_for (pieces n D) (writer_write H l)"
    by (rule ext) (simp add: copy_loop_pieces [OF n0] f)
  from assms(5) obtain r where r: "fst (initiate_multipart_upload l name n description wire) = Inr r"
    "getitem r ''UploadId'' = Inr (JStr uid)" by blast
  with initiate_sends [of l name n description wire]
  have "initiate_multipart_upload l name n description wire = (Inr r, ?wire1)" by simp
  with r have start: "create_archive_writer l name n description wire = (Inr ?w, ?wire1)"
    by (simp add: create_archive_writer_def py_bind_def py_lift_def jstr_def)
  obtain w where run: "py_bind (copy_loop H l n ?f) (\<lambda>_. writer_close H l) (?w, ?wire1)
      = (Inr (), (w, ?wire1 @ part_requests H l name uid n MEGABYTE (pieces n D)
        @ [complete_request l name uid (bytes_to_hex (part_tree_hash H MEGABYTE D)) (length D)]))"
    and cl: "wr_closed w"
    using writer_uploads [OF assms(1) c n, of "pieces n D" H name uid ?wire1] assms(3) n0
    unfolding cat copy_eq by auto
  then have "py_bind (copy_loop H l n ?f) (\<lambda>_. py_bind (writer_close H l) (\<lambda>_. writer_get_archive_id H l)) (?w, ?wire1)
      = (Inr (up_archive_id (wr_uploader w)), (w, ?wire1 @ part_requests H l name uid n MEGABYTE (pieces n D)
        @ [complete_request l name uid (bytes_to_hex (part_tree_hash H MEGABYTE D)) (length D)]))"
    by (auto simp: py_bind_def writer_get_archive_id_def writer_close_closed split: prod.splits sum.splits)
  then show ?thesis
    by (simp add: create_archive_from_file_def getsize_def open_rb_def assms(2,4)
        py_lift_def py_ret_def py_bind_def start)
qed

theorem create_archive_uploads_the_file_witness:
  "\<exists>l a. create_archive_from_file id True (\<lambda>_. Some ''abc'') l ''v'' ''f'' None None None [] =
    (Inr a, [initiate_request l ''v'' DEFAULT_PART_SIZE None,
      part_request id l ''v'' ''u'' DEFAULT_PART_SIZE MEGABYTE (0, ''abc''),
      complete_request l ''v'' ''u'' (bytes_to_hex ''abc'') 3])"
proof -
  let ?l = "\<lparr>account_id = ''-'', net = \<lparr>exchange = (\<lambda>_ req. Inr \<lparr>rs_status = (if hr_verb req = ''PUT'' then 204 else 201),
     rs_headers = [(''x-amz-multipart-upload-id'', ''u'')], rs_body = []\<rparr>), json_loads = (\<lambda>_. Inr []), json_dumps = (\<lambda>_. [])\<rparr>\<rparr>"
  have acc: "service_accepts ?l" by (simp add: service_accepts_def getheader_def str_lower_def lower_char_def char_eval)
  have ini: "\<forall>wire. \<exists>r. fst (initiate_multipart_upload ?l ''v'' DEFAULT_PART_SIZE None wire) = Inr r
      \<and> getitem r ''UploadId'' = Inr (JStr ''u'')"
    by (simp add: initiate_multipart_upload_def make_request_eq the_request_def Let_def glacier_response_init_def
        getheader_def getitem_def header_jval_def str_lower_def lower_char_def char_eval)
  have sz: "minimum_part_size True (length ''abc'') DEFAULT_PART_SIZE = Inr DEFAULT_PART_SIZE"
    by (simp add: minimum_part_size_def DEFAULT_PART_SIZE_def MEGABYTE_def MAXIMUM_NUMBER_OF_PARTS_def)
  have [simp]: "pieces DEFAULT_PART_SIZE ''abc'' = [''abc'']" "pieces MEGABYTE ''abc'' = [''abc'']"
    by (simp_all add: pieces_single DEFAULT_PART_SIZE_def MEGABYTE_def)
  have h: "part_tree_hash id MEGABYTE ''abc'' = ''abc''"
    by (simp add: part_tree_hash_def tree_root_def tree_hash_def tree_hash_loop.simps)
  from create_archive_uploads_the_file [OF acc _ _ sz ini, of "\<lambda>_. Some ''abc''" "''f''" id "[]"]
  have "\<exists>a. create_archive_from_file id True (\<lambda>_. Some ''abc'') ?l ''v'' ''f'' None None None [] =
    (Inr a, [initiate_request ?l ''v'' DEFAULT_PART_SIZE None,
      part_request id ?l ''v'' ''u'' DEFAULT_PART_SIZE MEGABYTE (0, ''abc''),
      complete_request ?l ''v'' ''u'' (bytes_to_hex ''abc'') 3])"
    by (simp add: part_requests_def h numeral_3_eq_3)
  then show ?thesis by blast
qed

text \<open>
  C38: a verified download that returns has written, for each chunk in order, the body of some
  answer to the request for that chunk's range, and the tree hash of these bytes is the one that
  answer stated -- whatever the service did, and however often a chunk was retried.
\<close>

theorem verified_download_is_authentic:
  assumes "download_to_fileobj H PY3 j c True retry (out, wire) = (Inr (), (out', wire'))"
  shows "\<exists>ds. out' = out @ concat ds \<and> length ds = ceil_div (jb_archive_size j) c
    \<and> (\<forall>i < length ds. vouched H j (int (i * c), int ((i + 1) * c) - 1) (ds ! i))"
proof -
  from assms have c: "0 < c" and
    run: "py_for [0..<ceil_div (jb_archive_size j) c] (download_chunk H PY3 retry j c True) (out, wire) = (Inr (), (out', wire'))"
    by (auto simp: download_to_fileobj_def download_to_fileob_def calc_num_chunks_def py_bind_def py_lift_def
        split: if_splits)
  from download_chunks_vouched [OF run] obtain ds where
    "out' = out @ concat ds" "length ds = ceil_div (jb_archive_size j) c"
    "\<forall>i < ceil_div (jb_archive_size j) c. vouched H j (int (i * c), int ((i + 1) * c) - 1) (ds ! i)" by blast
  then show ?thesis by (intro exI [of _ ds]) simp
qed

theorem verified_download_is_authentic_witness:
  "\<exists>ds. ''abc'' = [] @ concat ds \<and> length ds = ceil_div 3 2
    \<and> (\<forall>i < length ds. vouched id (archive_job ''abc'') (int (i * 2), int ((i + 1) * 2) - 1) (ds ! i))"
proof -
  have "download_to_fileobj id False (archive_job ''abc'') 2 True (\<lambda>_. False) ([], []) =
      (Inr (), (''abc'', map (\<lambda>i. output_request (archive_job ''abc'') (int (i * 2)) (int ((i + 1) * 2) - 1)) [0, 1]))"
    using download_serves [OF archive_job_serves, of False True "\<lambda>_. False" "[]" "[]"]
    by (simp add: ceil_div_def upt_rec)
  from verified_download_is_authentic [OF this] show ?thesis by (simp add: numeral_3_eq_3)
qed

text \<open>
  When the service serves the bytes of the archive asked for, with their tree hash, a download
  in chunks of any size, verified or not, appends exactly the archive to the file object and asks
  for each chunk once, in order.
\<close>

theorem download_writes_the_archive:
  assumes "serves_archive H j D c"
  shows "download_to_fileobj H PY3 j c verify retry (out, wire) =
    (Inr (), (out @ D, wire @ map (\<lambda>i. output_request j (int (i * c)) (int ((i + 1) * c) - 1)) [0..<ceil_div (length D) c]))"
  using assms by (rule download_serves)

theorem download_writes_the_archive_witness:
  "download_to_fileobj id False (archive_job ''abc'') 2 True (\<lambda>_. False) ([], []) =
    (Inr (), (''abc'', map (\<lambda>i. output_request (archive_job ''abc'') (int (i * 2)) (int ((i + 1) * 2) - 1)) [0, 1]))"
  using download_writes_the_archive [OF archive_job_serves, of False True "\<lambda>_. False" "[]" "[]"]
  by (simp add: ceil_div_def upt_rec)

text \<open>
  A chunk all of whose requests fail with an exception to be retried is asked for five times;
  then the download fails with \<open>DownloadArchiveError\<close> under Python 2, but under Python 3 with
  \<open>NameError\<close>, because the handler's name is gone where the message is built.
\<close>

theorem download_gives_up_after_five:
  assumes "\<forall>wire. \<exists>e. fst (get_job_output (jb_layer1 j) (jb_vault j) (jb_id j) (Some (a, b)) wire) = Inl e \<and> retry e"
  shows "download_byte_range H PY3 retry j (a, b) wire =
    (Inl (if PY3 then NameError else Boto_Error ''DownloadArchiveError''), wire @ replicate 5 (output_request j a b))"
proof -
  have "download_attempts H PY3 retry j (a, b) n wire =
      (Inl (if PY3 then NameError else Boto_Error ''DownloadArchiveError''), wire @ replicate n (output_request j a b))" for n
  proof (induction n arbitrary: wire)
    case (Suc n)
    from assms obtain e where "fst (get_job_output (jb_layer1 j) (jb_vault j) (jb_id j) (Some (a, b)) wire) = Inl e" "retry e"
      by blast
    then have "job_get_output H j (Some (a, b)) False wire = (Inl e, wire @ [output_request j a b])"
      using output_sends [of j a b wire] by (simp add: job_get_output_def py_bind_def)
    with Suc \<open>retry e\<close> show ?case by (simp add: py_bind_def)
  qed simp
  then show ?thesis by (simp add: download_byte_range_def)
qed

theorem download_gives_up_after_five_witness:
  "\<exists>j wire. download_byte_range id True (\<lambda>_. True) j (0, 1) [] = (Inl NameError, wire) \<and> length wire = 5"
proof -
  let ?l = "\<lparr>account_id = ''-'', net = \<lparr>exchange = (\<lambda>_ _. Inl (IOError ''timeout'')), json_loads = (\<lambda>_. Inr []),
    json_dumps = (\<lambda>_. [])\<rparr>\<rparr>"
  let ?j = "\<lparr>jb_layer1 = ?l, jb_vault = ''v'', jb_id = ''j'', jb_archive_size = 2, jb_treehash = JNull\<rparr>"
  have "\<forall>wire. \<exists>e. fst (get_job_output (jb_layer1 ?j) (jb_vault ?j) (jb_id ?j) (Some (0, 1)) wire) = Inl e \<and> True"
    by (simp add: get_job_output_def Let_def make_request_eq)
  from download_gives_up_after_five [OF this, of id True "[]"] show ?thesis by (intro exI [of _ ?j]) simp
qed

text \<open>
  \<open>get_output\<close> with \<open>validate_checksum\<close> raises \<open>TreeHashDoesNotMatchError\<close> when the answer has
  no tree hash header, where its documentation says that nothing is verified then: the response
  always has an item \<open>TreeHash\<close>, which is \<open>None\<close>.
\<close>

theorem get_output_without_tree_hash:
  assumes "exchange (net (jb_layer1 j)) wire (output_request j a b) = Inr resp" and "rs_status resp = 200"
    and "getheader ''x-amz-sha256-tree-hash'' resp = None"
    and "getheader ''Content-Type'' resp \<noteq> Some ''application/json''"
  shows "fst (job_get_output H j (Some (a, b)) True wire) = Inl (Boto_Error ''TreeHashDoesNotMatchError'')
    \<and> (\<exists>r. fst (job_get_output H j (Some (a, b)) False wire) = Inr r)"
proof -
  obtain r where r: "get_job_output (jb_layer1 j) (jb_vault j) (jb_id j) (Some (a, b)) wire = (Inr r, wire @ [output_request j a b])"
    and h: "map_of (gl_items r) ''TreeHash'' = Some JNull"
    using assms by (auto simp: get_job_output_def Let_def make_request_eq output_request_def glacier_response_init_def
        header_jval_def update_conv')
  obtain t where "tree_hash_from_str H (gl_body r) = Inr t" using tree_hash_from_str_eq by blast
  with h show ?thesis by (simp add: job_get_output_def py_bind_def r py_lift_def)
qed

theorem get_output_without_tree_hash_witness:
  "\<exists>j. fst (job_get_output id j (Some (0, 1)) True []) = Inl (Boto_Error ''TreeHashDoesNotMatchError'')"
proof -
  let ?r = "\<lparr>rs_status = 200, rs_headers = [], rs_body = ''ab''\<rparr>"
  let ?l = "\<lparr>account_id = ''-'', net = \<lparr>exchange = (\<lambda>_ _. Inr ?r), json_loads = (\<lambda>_. Inr []), json_dumps = (\<lambda>_. [])\<rparr>\<rparr>"
  let ?j = "\<lparr>jb_layer1 = ?l, jb_vault = ''v'', jb_id = ''j'', jb_archive_size = 2, jb_treehash = JNull\<rparr>"
  from get_output_without_tree_hash [of ?j "[]" 0 1 ?r id] show ?thesis
    by (intro exI [of _ ?j]) (simp add: getheader_def)
qed

end
