(* ===== verification/Glacier_Concurrent.thy ===== *)
theory Glacier_Concurrent
  imports Glacier_Vault "HOL-Library.Multiset"
begin

text \<open>
  \<^verbatim>\<open>boto/glacier/concurrent.py\<close>: the thread pools that upload and download an archive part by
  part.  The pool is a step relation: a step is one action of one thread -- a worker's test of
  \<open>should_continue\<close>, its \<open>get\<close> from the work queue, one attempt at a part with the \<open>put\<close> of
  its result, or one action of the main thread -- so that every interleaving of the threads is a
  sequence of steps.  The queues are the FIFO lists they are in the code.

  Results: a worker never finds the work queue empty (the handler for that names an exception
  that is not imported); the pool never gets stuck and always comes to an end; and if it ends
  without an error, the hashes of all parts are in their places, whatever the interleaving.
\<close>

section \<open>Part sizes\<close>

definition calculate_required_part_size :: "bool \<Rightarrow> nat \<Rightarrow> nat \<Rightarrow> (nat \<times> nat) res" where
  "calculate_required_part_size true_div self_part_size total_size =
     res_bind (minimum_part_size true_div total_size DEFAULT_PART_SIZE) (\<lambda>min_part_size_required.
       (let part_size = (if min_part_size_required \<le> self_part_size then self_part_size else min_part_size_required)
        in if part_size = 0 then Inl ZeroDivisionError else Inr (ceil_div total_size part_size, part_size)))"

section \<open>The pool\<close>

datatype work = Part nat nat | END_SENTINEL

text \<open>
  Where a worker is in \<open>run\<close>: before the test of \<open>should_continue\<close>; in \<open>get\<close>; in
  \<open>_process_chunk\<close> with a part, after some failures; returned; or ended by an exception.
\<close>

datatype thread_state = Idle | Getting | Busy nat nat nat | Exited | Crashed

datatype 'r result = Value 'r | Failure py_exc

text \<open>
  Where the main thread is: waiting for so many more results, setting the flags of the workers in
  \<open>_shutdown_threads\<close>, joining them, or returned.
\<close>

datatype ('a, 'b) main_state = Collecting nat 'a | Stopping nat "'b res" | Joining nat "'b res" | Returned "'b res"

record ('r, 'a, 'b) pool =
  worker_queue :: "work list"
  result_queue :: "'r result list"
  threads :: "(bool \<times> thread_state) list"
  pool_wire :: "http_req list"
  main :: "('a, 'b) main_state"

text \<open>
  What uploads and downloads differ in: one attempt at a part, the number of attempts, what the
  main thread does with a result, what it does after the last one (and whether it shuts the
  threads down then), and the exception it raises when a part failed.
\<close>

record ('r, 'a, 'b) transfer =
  attempt :: "nat \<times> nat \<Rightarrow> 'r glacier_op"
  tries :: nat
  absorb :: "'r \<Rightarrow> 'a \<Rightarrow> 'a"
  finish :: "'a \<Rightarrow> bool \<times> 'b res"
  part_failed :: py_exc

definition add_work_items_to_queue :: "nat \<Rightarrow> nat \<Rightarrow> nat \<Rightarrow> work list" where
  "add_work_items_to_queue total_parts part_size num_threads =
     map (\<lambda>i. Part i part_size) [0..<total_parts] @ replicate num_threads END_SENTINEL"

definition pool_start :: "nat \<Rightarrow> nat \<Rightarrow> nat \<Rightarrow> 'a \<Rightarrow> http_req list \<Rightarrow> ('r, 'a, 'b) pool" where
  "pool_start total_parts part_size num_threads acc wire =
     \<lparr>worker_queue = add_work_items_to_queue total_parts part_size num_threads, result_queue = [],
      threads = replicate num_threads (True, Idle), pool_wire = wire, main = Collecting total_parts acc\<rparr>"

text \<open>\<open>TransferThread.run\<close>: one action of a worker, given its flag and where it is.\<close>

fun worker_step ::
  "('r, 'a, 'b) transfer \<Rightarrow> bool \<Rightarrow> thread_state \<Rightarrow> ('r, 'a, 'b) pool \<Rightarrow> (thread_state \<times> ('r, 'a, 'b) pool) option" where
  "worker_step T should_continue Idle s = Some (if should_continue then Getting else Exited, s)"
| "worker_step T should_continue Getting s =
     (case worker_queue s of
        [] \<Rightarrow> Some (Crashed, s)
      | Part part_number part_size # q \<Rightarrow> Some (Busy part_number part_size 0, s\<lparr>worker_queue := q\<rparr>)
      | END_SENTINEL # q \<Rightarrow> Some (Exited, s\<lparr>worker_queue := q\<rparr>))"
| "worker_step T should_continue (Busy part_number part_size failures) s =
     (case attempt T (part_number, part_size) (pool_wire s) of
        (Inr r, wire) \<Rightarrow> Some (Idle, s\<lparr>pool_wire := wire, result_queue := result_queue s @ [Value r]\<rparr>)
      | (Inl e, wire) \<Rightarrow>
          (if failures + 1 < tries T
           then Some (Busy part_number part_size (failures + 1), s\<lparr>pool_wire := wire\<rparr>)
           else Some (Idle, s\<lparr>pool_wire := wire, result_queue := result_queue s @ [Failure e]\<rparr>)))"
| "worker_step T should_continue Exited s = None"
| "worker_step T should_continue Crashed s = None"

text \<open>
  The main thread in \<open>_wait_for_upload_threads\<close> or \<open>_wait_for_download_threads\<close>, and in
  \<open>_shutdown_threads\<close>; \<open>None\<close> where it waits.
\<close>

fun main_step :: "('r, 'a, 'b) transfer \<Rightarrow> ('a, 'b) main_state \<Rightarrow> ('r, 'a, 'b) pool \<Rightarrow> ('r, 'a, 'b) pool option" where
  "main_step T (Collecting (Suc m) acc) s =
     (case result_queue s of
        [] \<Rightarrow> None
      | Value r # rs \<Rightarrow> Some (s\<lparr>result_queue := rs, main := Collecting m (absorb T r acc)\<rparr>)
      | Failure e # rs \<Rightarrow> Some (s\<lparr>result_queue := rs, main := Stopping 0 (Inl (part_failed T))\<rparr>))"
| "main_step T (Collecting 0 acc) s =
     (case finish T acc of (shut_down, r) \<Rightarrow> Some (s\<lparr>main := (if shut_down then Stopping 0 r else Returned r)\<rparr>))"
| "main_step T (Stopping k r) s =
     (if k < length (threads s)
      then Some (s\<lparr>threads := (threads s)[k := (False, snd (threads s ! k))], main := Stopping (k + 1) r\<rparr>)
      else Some (s\<lparr>main := Joining 0 r\<rparr>))"
| "main_step T (Joining k r) s =
     (if k < length (threads s)
      then (if snd (threads s ! k) \<in> {Exited, Crashed} then Some (s\<lparr>main := Joining (k + 1) r\<rparr>) else None)
      else Some (s\<lparr>main := Returned r\<rparr>))"
| "main_step T (Returned r) s = None"

inductive pool_step :: "('r, 'a, 'b) transfer \<Rightarrow> ('r, 'a, 'b) pool \<Rightarrow> ('r, 'a, 'b) pool \<Rightarrow> bool" for T where
  worker: "i < length (threads s) \<Longrightarrow> threads s ! i = (c, t) \<Longrightarrow> worker_step T c t s = Some (t', s')
    \<Longrightarrow> pool_step T s (s'\<lparr>threads := (threads s')[i := (c, t')]\<rparr>)"
| main_thread: "main_step T (main s) s = Some s' \<Longrightarrow> pool_step T s s'"

abbreviation pool_steps :: "('r, 'a, 'b) transfer \<Rightarrow> ('r, 'a, 'b) pool \<Rightarrow> ('r, 'a, 'b) pool \<Rightarrow> bool" where
  "pool_steps T \<equiv> (pool_step T)\<^sup>*\<^sup>*"

section \<open>Termination\<close>

text \<open>Every action uses something up.\<close>

fun thread_weight :: "nat \<Rightarrow> thread_state \<Rightarrow> nat" where
  "thread_weight n Idle = 2"
| "thread_weight n Getting = 1"
| "thread_weight n (Busy i p k) = 4 + (n - k)"
| "thread_weight n Exited = 0"
| "thread_weight n Crashed = 0"

fun work_weight :: "nat \<Rightarrow> work \<Rightarrow> nat" where
  "work_weight n (Part i p) = 4 + n"
| "work_weight n END_SENTINEL = 0"

fun main_weight :: "nat \<Rightarrow> ('a, 'b) main_state \<Rightarrow> nat" where
  "main_weight n (Collecting m acc) = m + 2 * n + 4"
| "main_weight n (Stopping k r) = (n - k) + n + 3"
| "main_weight n (Joining k r) = (n - k) + 1"
| "main_weight n (Returned r) = 0"

definition pool_weight :: "('r, 'a, 'b) transfer \<Rightarrow> ('r, 'a, 'b) pool \<Rightarrow> nat" where
  "pool_weight T s = sum_list (map (work_weight (tries T)) (worker_queue s)) + length (result_queue s)
     + sum_list (map (\<lambda>(c, t). thread_weight (tries T) t) (threads s)) + main_weight (length (threads s)) (main s)"

lemma sum_list_update:
  fixes f :: "'x \<Rightarrow> 'y :: comm_monoid_add"
  shows "i < length xs \<Longrightarrow> sum_list (map f (xs[i := y])) + f (xs ! i) = sum_list (map f xs) + f y"
proof (induction xs arbitrary: i)
  case (Cons x xs)
  then show ?case by (cases i) (auto simp: ac_simps)
qed simp

lemma sum_list_zero:
  fixes f :: "'x \<Rightarrow> 'y :: comm_monoid_add"
  shows "\<forall>x \<in> set xs. f x = 0 \<Longrightarrow> sum_list (map f xs) = 0"
  by (induction xs) auto

lemma worker_step_threads: "worker_step T c t s = Some (t', s') \<Longrightarrow> threads s' = threads s \<and> main s' = main s"
  by (cases t) (auto split: list.splits work.splits prod.splits sum.splits if_splits)

lemma worker_step_weight:
  "worker_step T c t s = Some (t', s') \<Longrightarrow>
   sum_list (map (work_weight (tries T)) (worker_queue s')) + length (result_queue s') + thread_weight (tries T) t' <
   sum_list (map (work_weight (tries T)) (worker_queue s)) + length (result_queue s) + thread_weight (tries T) t"
  by (cases t) (auto split: list.splits work.splits prod.splits sum.splits if_splits)

lemma pool_step_weight: "pool_step T s s' \<Longrightarrow> pool_weight T s' < pool_weight T s"
proof (induction rule: pool_step.induct)
  case (worker i s c t t' s')
  let ?f = "\<lambda>(c, t). thread_weight (tries T) t"
  note same = worker_step_threads [OF worker(3)]
  have "sum_list (map ?f ((threads s)[i := (c, t')])) + thread_weight (tries T) t =
      sum_list (map ?f (threads s)) + thread_weight (tries T) t'"
    using sum_list_update [OF worker(1), of ?f "(c, t')"] worker(2) by simp
  with worker_step_weight [OF worker(3)] same show ?case by (simp add: pool_weight_def)
next
  case (main_thread s s')
  show ?case
  proof (cases "\<exists>k r. main s = Stopping k r \<and> k < length (threads s)")
    case True
    then obtain k r where k: "main s = Stopping k r" "k < length (threads s)" by blast
    have "sum_list (map (\<lambda>(c, t). thread_weight (tries T) t) ((threads s)[k := (False, snd (threads s ! k))])) =
        sum_list (map (\<lambda>(c, t). thread_weight (tries T) t) (threads s))"
      using sum_list_update [OF k(2), of "\<lambda>(c, t). thread_weight (tries T) t" "(False, snd (threads s ! k))"]
      by (simp add: case_prod_beta)
    with main_thread k show ?thesis by (auto simp: pool_weight_def)
  next
    case False
    with main_thread show ?thesis
      by (cases "(T, main s, s)" rule: main_step.cases)
        (auto simp: pool_weight_def split: list.splits result.splits prod.splits if_splits)
  qed
qed

section \<open>The work queue never runs dry\<close>

fun live :: "thread_state \<Rightarrow> nat" where
  "live Exited = 0" | "live Crashed = 0" | "live t = 1"

definition live_threads :: "(bool \<times> thread_state) list \<Rightarrow> nat" where
  "live_threads ths = sum_list (map (\<lambda>(c, t). live t) ths)"

lemma live_update:
  "i < length ths \<Longrightarrow> ths ! i = (c, t) \<Longrightarrow> live_threads (ths[i := (c', t')]) + live t = live_threads ths + live t'"
  using sum_list_update [of i ths "\<lambda>(c, t). live t" "(c', t')"] by (simp add: live_threads_def)

lemma live_le: "i < length ths \<Longrightarrow> ths ! i = (c, t) \<Longrightarrow> live t \<le> live_threads ths"
  using member_le_sum_list [of "live t" "map (\<lambda>(c, t). live t) ths"]
  by (force simp: live_threads_def in_set_conv_nth)

definition queue_is :: "nat \<Rightarrow> nat \<Rightarrow> work list \<Rightarrow> nat \<Rightarrow> nat \<Rightarrow> bool" where
  "queue_is tot part_size q j e \<longleftrightarrow>
     q = map (\<lambda>i. Part i part_size) [j..<tot] @ replicate e END_SENTINEL \<and> j \<le> tot"

text \<open>
  There are at least as many sentinels left as workers, and exactly as many while the main thread
  collects; sentinels come after all parts.
\<close>

definition queue_inv :: "nat \<Rightarrow> nat \<Rightarrow> nat \<Rightarrow> ('r, 'a, 'b) pool \<Rightarrow> bool" where
  "queue_inv tot part_size n s \<longleftrightarrow> (\<exists>j e. queue_is tot part_size (worker_queue s) j e
     \<and> (j < tot \<longrightarrow> e = n) \<and> length (threads s) = n \<and> live_threads (threads s) \<le> e
     \<and> (\<forall>(c, t) \<in> set (threads s). t \<noteq> Crashed)
     \<and> (\<forall>m acc. main s = Collecting m acc \<longrightarrow> (\<forall>(c, t) \<in> set (threads s). c) \<and> live_threads (threads s) = e))"

lemma queue_is_Part:
  "queue_is tot ps (Part i ps' # q) j e \<Longrightarrow> i = j \<and> ps' = ps \<and> j < tot \<and> queue_is tot ps q (Suc j) e"
  by (cases "j < tot") (auto simp: queue_is_def upt_conv_Cons, cases e, auto)

lemma queue_is_END:
  "queue_is tot ps (END_SENTINEL # q) j e \<Longrightarrow> j = tot \<and> (\<exists>e'. e = Suc e' \<and> queue_is tot ps q j e')"
  by (cases "j < tot"; cases e) (auto simp: queue_is_def upt_conv_Cons)

lemma queue_is_Nil: "queue_is tot ps [] j e \<Longrightarrow> e = 0 \<and> j = tot"
  by (auto simp: queue_is_def)

lemma crashed_update:
  "\<forall>(c, t) \<in> set ths. P c t \<Longrightarrow> P c' t' \<Longrightarrow> \<forall>(c, t) \<in> set (ths[i := (c', t')]). P c t"
  by (auto dest: set_update_subset_insert [THEN subsetD])

lemma queue_inv_start: "queue_inv tot ps n (pool_start tot ps n acc wire)"
  unfolding queue_inv_def
  by (rule exI [of _ 0], rule exI [of _ n])
    (auto simp: pool_start_def add_work_items_to_queue_def queue_is_def live_threads_def sum_list_replicate)

lemma queue_invI:
  assumes "queue_is tot ps (worker_queue s) j e" and "j < tot \<Longrightarrow> e = n" and "length (threads s) = n"
    and "live_threads (threads s) \<le> e" and "\<forall>(c, t) \<in> set (threads s). t \<noteq> Crashed"
    and "\<And>m acc. main s = Collecting m acc \<Longrightarrow> \<forall>(c, t) \<in> set (threads s). c"
    and "\<And>m acc. main s = Collecting m acc \<Longrightarrow> live_threads (threads s) = e"
  shows "queue_inv tot ps n s"
  using assms unfolding queue_inv_def by blast

lemma queue_inv_worker:
  assumes inv: "queue_inv tot ps n s" and i: "i < length (threads s)" "threads s ! i = (c, t)"
    and step: "worker_step T c t s = Some (t', s')"
  shows "queue_inv tot ps n (s'\<lparr>threads := (threads s')[i := (c, t')]\<rparr>)"
proof -
  from inv obtain j e where
    q: "queue_is tot ps (worker_queue s) j e" and full: "j < tot \<longrightarrow> e = n"
    and len: "length (threads s) = n" and le: "live_threads (threads s) \<le> e"
    and nc: "\<forall>(c, t) \<in> set (threads s). t \<noteq> Crashed"
    and coll: "\<forall>m acc. main s = Collecting m acc \<longrightarrow> (\<forall>(c, t) \<in> set (threads s). c) \<and> live_threads (threads s) = e"
    unfolding queue_inv_def by (elim exE conjE) rule
  then have col: "main s = Collecting m acc \<Longrightarrow> \<forall>(c, t) \<in> set (threads s). c"
    and cle: "main s = Collecting m acc \<Longrightarrow> live_threads (threads s) = e" for m acc by blast+
  note same = worker_step_threads [OF step]
  note upd = live_update [OF i, of c t'] and lt = live_le [OF i]
  have c: "main s = Collecting m acc \<Longrightarrow> c" for m acc using col i by (metis case_prodD nth_mem)
  have cols: "main s = Collecting m acc \<Longrightarrow> \<forall>(c, t) \<in> set ((threads s)[i := (c, t')]). c" for m acc
    using col c by (intro crashed_update [where P = "\<lambda>c t. c"]) auto
  have nc': "t' \<noteq> Crashed \<Longrightarrow> \<forall>(c, t) \<in> set ((threads s)[i := (c, t')]). t \<noteq> Crashed"
    using nc by (intro crashed_update [where P = "\<lambda>c t. t \<noteq> Crashed"]) auto
  consider (idle) "t = Idle" | (getting) "t = Getting" | (busy) a b k where "t = Busy a b k"
    using step by (cases t) auto
  then show ?thesis
  proof cases
    case idle
    with step have "t' = (if c then Getting else Exited)" "s' = s" by auto
    with idle upd q full len le nc' cols cle c show ?thesis
      by (intro queue_invI [where j = j and e = e]) (cases c; simp)+
  next
    case getting
    with lt le have "0 < e" by simp
    with queue_is_Nil [of tot ps j e] q have "worker_queue s \<noteq> []" by auto
    then obtain w ws where w: "worker_queue s = w # ws" by (cases "worker_queue s") auto
    show ?thesis
    proof (cases w)
      case (Part a b)
      with queue_is_Part [of tot ps a b ws j e] q w have "j < tot" "queue_is tot ps ws (Suc j) e" by simp_all
      moreover have "t' = Busy a b 0" "s' = s\<lparr>worker_queue := ws\<rparr>" using step getting w Part by auto
      ultimately show ?thesis using getting upd full len le nc' cols cle
        by (intro queue_invI [where j = "Suc j" and e = e]) simp_all
    next
      case END_SENTINEL
      with queue_is_END [of tot ps ws j e] q w obtain e' where "j = tot" "e = Suc e'" "queue_is tot ps ws j e'" by auto
      moreover have "t' = Exited" "s' = s\<lparr>worker_queue := ws\<rparr>" using step getting w END_SENTINEL by auto
      ultimately show ?thesis using getting upd len le nc' cols cle
        by (intro queue_invI [where j = j and e = e']) simp_all
    qed
  next
    case busy
    with step have "worker_queue s' = worker_queue s" "live t' = 1" "t' \<noteq> Crashed"
      by (auto split: prod.splits sum.splits if_splits)
    with busy upd q full len le nc' cols cle same show ?thesis
      by (intro queue_invI [where j = j and e = e]) simp_all
  qed
qed

text \<open>What a step of the main thread does to the workers.\<close>

lemma main_step_threads:
  assumes "main_step T (main s) s = Some s'"
  shows "worker_queue s' = worker_queue s \<and> length (threads s') = length (threads s)
    \<and> map snd (threads s') = map snd (threads s)
    \<and> (\<forall>m acc. main s' = Collecting m acc \<longrightarrow> threads s' = threads s \<and> (\<exists>m acc. main s = Collecting m acc))"
proof -
  have "map snd ((threads s)[k := (False, snd (threads s ! k))]) = map snd (threads s)" for k
    by (metis list_update_id map_update prod.sel(2))
  with assms show ?thesis
    by (cases "(T, main s, s)" rule: main_step.cases)
      (auto split: list.splits result.splits prod.splits if_splits)
qed

lemma live_threads_snd: "live_threads ths = sum_list (map live (map snd ths))"
  by (simp add: live_threads_def comp_def case_prod_beta')

lemma crashed_snd: "(\<forall>(c, t) \<in> set ths. t \<noteq> Crashed) \<longleftrightarrow> Crashed \<notin> set (map snd ths)"
  by (auto simp: image_iff)

lemma queue_inv_main:
  assumes inv: "queue_inv tot ps n s" and step: "main_step T (main s) s = Some s'"
  shows "queue_inv tot ps n s'"
proof -
  note * = main_step_threads [OF step]
  then have same: "live_threads (threads s') = live_threads (threads s)"
    "(\<forall>(c, t) \<in> set (threads s'). t \<noteq> Crashed) = (\<forall>(c, t) \<in> set (threads s). t \<noteq> Crashed)"
    "worker_queue s' = worker_queue s" "length (threads s') = length (threads s)"
    unfolding live_threads_snd crashed_snd by simp_all
  from * inv show ?thesis unfolding queue_inv_def same by metis
qed

lemma queue_inv_step: "pool_step T s s' \<Longrightarrow> queue_inv tot ps n s \<Longrightarrow> queue_inv tot ps n s'"
  by (induction rule: pool_step.induct) (blast intro: queue_inv_worker queue_inv_main)+

lemma queue_inv_reachable:
  "pool_steps T (pool_start tot ps n acc wire) s \<Longrightarrow> queue_inv tot ps n s"
  by (induction rule: rtranclp_induct) (auto intro: queue_inv_start queue_inv_step)

section \<open>No part is lost or done twice\<close>

fun work_part :: "work \<Rightarrow> nat multiset" where
  "work_part (Part i p) = {#i#}" | "work_part END_SENTINEL = {#}"

fun thread_part :: "thread_state \<Rightarrow> nat multiset" where
  "thread_part (Busy i p k) = {#i#}" | "thread_part t = {#}"

fun result_part :: "('r \<Rightarrow> nat) \<Rightarrow> 'r result \<Rightarrow> nat multiset" where
  "result_part part_no (Value r) = {#part_no r#}" | "result_part part_no (Failure e) = {#}"

fun failed :: "'r result \<Rightarrow> nat" where
  "failed (Failure e) = 1" | "failed (Value r) = 0"

text \<open>The parts still to be had: queued, in work, or among the results.\<close>

definition pending :: "('r \<Rightarrow> nat) \<Rightarrow> ('r, 'a, 'b) pool \<Rightarrow> nat multiset" where
  "pending part_no s = sum_list (map work_part (worker_queue s))
     + sum_list (map (\<lambda>(c, t). thread_part t) (threads s))
     + sum_list (map (result_part part_no) (result_queue s))"

fun work_sized :: "nat \<Rightarrow> work \<Rightarrow> bool" where
  "work_sized part_size (Part i p) = (p = part_size)" | "work_sized part_size END_SENTINEL = True"

fun thread_sized :: "nat \<Rightarrow> thread_state \<Rightarrow> bool" where
  "thread_sized part_size (Busy i p k) = (p = part_size)" | "thread_sized part_size t = True"

definition sized :: "nat \<Rightarrow> ('r, 'a, 'b) pool \<Rightarrow> bool" where
  "sized part_size s \<longleftrightarrow> (\<forall>w \<in> set (worker_queue s). work_sized part_size w)
     \<and> (\<forall>(c, t) \<in> set (threads s). thread_sized part_size t)"

text \<open>
  The contract of one attempt: a value it returns is for the part it was given, and what is good
  about a value stays good when more requests are sent.
\<close>

locale part_pool =
  fixes T :: "('r, 'a, 'b) transfer" and part_size :: nat
    and part_no :: "'r \<Rightarrow> nat" and good :: "'r \<Rightarrow> http_req list \<Rightarrow> bool"
  assumes attempt_good: "attempt T (i, part_size) w = (Inr r, w') \<Longrightarrow> part_no r = i \<and> good r w'"
    and good_kept: "attempt T p w = (x, w') \<Longrightarrow> good r w \<Longrightarrow> good r w'"
begin

text \<open>What the main thread may return: the exception, if there are parts, or all values.\<close>

definition outcome_ok :: "nat \<Rightarrow> 'a \<Rightarrow> 'r list \<Rightarrow> 'b res \<Rightarrow> bool" where
  "outcome_ok tot acc0 xs r \<longleftrightarrow> 0 < tot \<and> r = Inl (part_failed T)
     \<or> mset (map part_no xs) = mset [0..<tot] \<and> r = snd (finish T (fold (absorb T) xs acc0))"

text \<open>
  \<open>xs\<close> are the values the main thread has taken, \<open>F\<close> the parts whose failures are in the result
  queue.
\<close>

definition taken_ok :: "nat \<Rightarrow> 'a \<Rightarrow> 'r list \<Rightarrow> nat multiset \<Rightarrow> ('r, 'a, 'b) pool \<Rightarrow> bool" where
  "taken_ok tot acc0 xs F s \<longleftrightarrow> (case main s of
     Collecting m acc \<Rightarrow> acc = fold (absorb T) xs acc0 \<and> length xs + m = tot
       \<and> size F = sum_list (map failed (result_queue s))
       \<and> pending part_no s + F + mset (map part_no xs) = mset [0..<tot]
   | Stopping k r \<Rightarrow> outcome_ok tot acc0 xs r
   | Joining k r \<Rightarrow> outcome_ok tot acc0 xs r
   | Returned r \<Rightarrow> outcome_ok tot acc0 xs r)"

definition parts_inv :: "nat \<Rightarrow> 'a \<Rightarrow> ('r, 'a, 'b) pool \<Rightarrow> bool" where
  "parts_inv tot acc0 s \<longleftrightarrow> sized part_size s \<and> (\<forall>r. Value r \<in> set (result_queue s) \<longrightarrow> good r (pool_wire s))
     \<and> (\<exists>xs F. (\<forall>r \<in> set xs. good r (pool_wire s)) \<and> taken_ok tot acc0 xs F s)"

lemma parts_inv_start: "parts_inv tot acc0 (pool_start tot part_size n acc0 wire)"
proof -
  have "sum_list (map (\<lambda>i. {#i#}) is) = mset is" for "is" :: "nat list" by (induction "is") simp_all
  moreover have "sum_list (replicate n {#}) = ({#} :: nat multiset)" by (induction n) simp_all
  ultimately have "taken_ok tot acc0 [] {#} (pool_start tot part_size n acc0 wire)"
    by (simp add: taken_ok_def pending_def pool_start_def add_work_items_to_queue_def comp_def sum_list_replicate)
  then show ?thesis unfolding parts_inv_def
    by (intro conjI exI [of _ "[]"] exI [of _ "{#}"])
      (auto simp: sized_def pool_start_def add_work_items_to_queue_def)
qed

lemma worker_step_parts:
  assumes "worker_step T c t s = Some (t', s')" and "thread_sized part_size t"
  shows "\<exists>G. sum_list (map work_part (worker_queue s')) + thread_part t' + sum_list (map (result_part part_no) (result_queue s')) + G
      = sum_list (map work_part (worker_queue s)) + thread_part t + sum_list (map (result_part part_no) (result_queue s))
    \<and> size G + sum_list (map failed (result_queue s)) = sum_list (map failed (result_queue s'))"
proof (cases "\<exists>a b k e w. t = Busy a b k \<and> attempt T (a, b) (pool_wire s) = (Inl e, w) \<and> \<not> k + 1 < tries T")
  case True
  with assms show ?thesis by (auto intro!: exI [of _ "thread_part t"])
next
  case False
  with assms attempt_good show ?thesis
    by (intro exI [of _ "{#}"], cases t)
      (auto split: list.splits work.splits prod.splits sum.splits if_splits dest: attempt_good)
qed

lemma worker_step_good:
  assumes "worker_step T c t s = Some (t', s')" and "thread_sized part_size t"
  shows "(good r (pool_wire s) \<longrightarrow> good r (pool_wire s'))
    \<and> (Value r \<in> set (result_queue s') \<longrightarrow> Value r \<in> set (result_queue s) \<or> good r (pool_wire s'))"
  using assms
  by (cases t) (auto split: list.splits work.splits prod.splits sum.splits if_splits
      dest: attempt_good good_kept)

lemma worker_step_sized:
  assumes "worker_step T c t s = Some (t', s')" and "thread_sized part_size t"
    and "\<forall>w \<in> set (worker_queue s). work_sized part_size w"
  shows "thread_sized part_size t' \<and> (\<forall>w \<in> set (worker_queue s'). work_sized part_size w)"
  using assms by (cases t) (auto split: list.splits work.splits prod.splits sum.splits if_splits)

lemma parts_inv_worker:
  assumes inv: "parts_inv tot acc0 s" and i: "i < length (threads s)" "threads s ! i = (c, t)"
    and step: "worker_step T c t s = Some (t', s')"
  shows "parts_inv tot acc0 (s'\<lparr>threads := (threads s')[i := (c, t')]\<rparr>)"
proof -
  let ?s' = "s'\<lparr>threads := (threads s')[i := (c, t')]\<rparr>"
  from inv obtain xs F where sz: "sized part_size s" and vals: "\<forall>r. Value r \<in> set (result_queue s) \<longrightarrow> good r (pool_wire s)"
    and xs: "\<forall>r \<in> set xs. good r (pool_wire s)" and tk: "taken_ok tot acc0 xs F s"
    unfolding parts_inv_def by blast
  note same = worker_step_threads [OF step]
  from sz i have ts: "thread_sized part_size t" by (metis (no_types, lifting) case_prodD nth_mem sized_def)
  from worker_step_parts [OF step ts] obtain G where
    G: "sum_list (map work_part (worker_queue s')) + thread_part t' + sum_list (map (result_part part_no) (result_queue s')) + G
      = sum_list (map work_part (worker_queue s)) + thread_part t + sum_list (map (result_part part_no) (result_queue s))"
    and nG: "size G + sum_list (map failed (result_queue s)) = sum_list (map failed (result_queue s'))" by blast
  let ?f = "\<lambda>(c, t). thread_part t"
  have upd: "sum_list (map ?f ((threads s)[i := (c, t')])) + thread_part t = sum_list (map ?f (threads s)) + thread_part t'"
    using sum_list_update [OF i(1), of ?f "(c, t')"] i(2) by simp
  have "pending part_no ?s' + G + thread_part t = pending part_no s + thread_part t"
  proof -
    have "pending part_no ?s' + G + thread_part t = sum_list (map work_part (worker_queue s'))
        + sum_list (map (result_part part_no) (result_queue s')) + G
        + (sum_list (map ?f ((threads s)[i := (c, t')])) + thread_part t)"
      by (simp add: pending_def same ac_simps)
    also have "\<dots> = sum_list (map ?f (threads s)) + (sum_list (map work_part (worker_queue s')) + thread_part t'
        + sum_list (map (result_part part_no) (result_queue s')) + G)"
      unfolding upd by (simp add: ac_simps)
    also have "\<dots> = pending part_no s + thread_part t" unfolding G by (simp add: pending_def ac_simps)
    finally show ?thesis .
  qed
  then have "pending part_no ?s' + G = pending part_no s" by simp
  then have "taken_ok tot acc0 xs (G + F) ?s'"
    using tk nG same by (auto simp: taken_ok_def ac_simps split: main_state.splits)
  moreover have "sized part_size ?s'"
    using worker_step_sized [OF step ts] sz same
      crashed_update [of "threads s" "\<lambda>c t. thread_sized part_size t" c t' i]
    unfolding sized_def by simp
  ultimately show ?thesis using worker_step_good [OF step ts] vals xs unfolding parts_inv_def
    by (intro conjI exI [of _ xs] exI [of _ "G + F"]) auto
qed

lemma parts_inv_main:
  assumes inv: "parts_inv tot acc0 s" and step: "main_step T (main s) s = Some s'"
  shows "parts_inv tot acc0 s'"
proof -
  from inv obtain xs F where sz: "sized part_size s" and vals: "\<forall>r. Value r \<in> set (result_queue s) \<longrightarrow> good r (pool_wire s)"
    and xs: "\<forall>r \<in> set xs. good r (pool_wire s)" and tk: "taken_ok tot acc0 xs F s"
    unfolding parts_inv_def by blast
  have wire: "pool_wire s' = pool_wire s" and rq: "set (result_queue s') \<subseteq> set (result_queue s)"
    using step by (cases "(T, main s, s)" rule: main_step.cases;
      auto split: list.splits result.splits prod.splits if_splits)+
  have snds: "map snd (threads s') = map snd (threads s)" and wq: "worker_queue s' = worker_queue s"
    using main_step_threads [OF step] by simp_all
  have sized_snd: "sized part_size u \<longleftrightarrow> (\<forall>w \<in> set (worker_queue u). work_sized part_size w)
      \<and> (\<forall>t \<in> set (map snd (threads u)). thread_sized part_size t)" for u :: "('r, 'a, 'b) pool"
    by (auto simp: sized_def)
  from sz have sz': "sized part_size s'" unfolding sized_snd snds wq .
  have "\<exists>ys. (\<forall>r \<in> set ys. good r (pool_wire s)) \<and> taken_ok tot acc0 ys F s'"
  proof (cases "\<exists>m acc r rs. main s = Collecting (Suc m) acc \<and> result_queue s = Value r # rs")
    case True
    then obtain m acc r rs where m: "main s = Collecting (Suc m) acc" "result_queue s = Value r # rs" by blast
    then have "s' = s\<lparr>result_queue := rs, main := Collecting m (absorb T r acc)\<rparr>" using step by simp
    with tk m have "taken_ok tot acc0 (xs @ [r]) F s'" by (simp add: taken_ok_def pending_def ac_simps)
    moreover have "good r (pool_wire s)" using vals m(2) by simp
    ultimately show ?thesis using xs by (intro exI [of _ "xs @ [r]"]) simp
  next
    case False
    have all: "mset (map part_no xs) = mset [0..<tot]" if "main s = Collecting 0 acc" for acc
    proof -
      have "mset (map part_no xs) \<subseteq># mset [0..<tot]" and "size (mset (map part_no xs)) = size (mset [0..<tot])"
        using tk that by (simp_all add: taken_ok_def) (metis mset_subset_eq_add_right)
      then show ?thesis by (metis mset_subset_size nat_less_le subset_mset.le_neq_trans)
    qed
    have "taken_ok tot acc0 xs F s'"
      using step tk False all
      by (cases "(T, main s, s)" rule: main_step.cases)
        (auto simp: taken_ok_def outcome_ok_def split: list.splits result.splits prod.splits if_splits)
    with xs show ?thesis by blast
  qed
  with sz' vals rq wire show ?thesis unfolding parts_inv_def by auto
qed

lemma parts_inv_step: "pool_step T s s' \<Longrightarrow> parts_inv tot acc0 s \<Longrightarrow> parts_inv tot acc0 s'"
  by (induction rule: pool_step.induct) (blast intro: parts_inv_worker parts_inv_main)+

lemma parts_inv_reachable:
  "pool_steps T (pool_start tot part_size n acc0 wire) s \<Longrightarrow> parts_inv tot acc0 s"
  by (induction rule: rtranclp_induct) (auto intro: parts_inv_start parts_inv_step)

text \<open>
  What the main thread returns: the exception for a failed part, or what \<open>finish\<close> makes of good
  values for all parts, each exactly once, in some order.
\<close>

lemma returned_outcome:
  assumes "pool_steps T (pool_start tot part_size n acc0 wire) s" and "main s = Returned r"
  shows "0 < tot \<and> r = Inl (part_failed T) \<or> (\<exists>xs. mset (map part_no xs) = mset [0..<tot]
    \<and> (\<forall>x \<in> set xs. good x (pool_wire s)) \<and> r = snd (finish T (fold (absorb T) xs acc0)))"
  using parts_inv_reachable [OF assms(1)] assms(2) unfolding parts_inv_def taken_ok_def outcome_ok_def by auto

text \<open>No deadlock: as long as the main thread has not returned, some thread can act.\<close>

lemma worker_can_step:
  assumes "(c, t) \<in> set (threads s)" and "live t = 1"
  shows "\<exists>s'. pool_step T s s'"
proof -
  from assms(1) obtain i where i: "i < length (threads s)" "threads s ! i = (c, t)"
    by (auto simp: in_set_conv_nth)
  have "\<exists>t' s'. worker_step T c t s = Some (t', s')"
    using assms(2) by (cases t) (auto split: list.split work.split prod.split sum.split)
  with i show ?thesis by (blast intro: pool_step.worker)
qed

lemma no_deadlock:
  assumes reach: "pool_steps T (pool_start tot part_size n acc0 wire) s" and n: "0 < n"
    and run: "\<And>r. main s \<noteq> Returned r"
  shows "\<exists>s'. pool_step T s s'"
proof (cases "\<exists>(c, t) \<in> set (threads s). live t = 1")
  case True
  then show ?thesis using worker_can_step by blast
next
  case False
  have "t = Exited \<or> t = Crashed" if "(c, t) \<in> set (threads s)" for c t
    using False that by (cases t) auto
  then have gone: "\<forall>(c, t) \<in> set (threads s). t \<in> {Exited, Crashed}" by auto
  then have "live_threads (threads s) = 0" by (auto simp: live_threads_def)
  from queue_inv_reachable [OF reach] obtain j e where
    q: "queue_is tot part_size (worker_queue s) j e" "j < tot \<longrightarrow> e = n" and
    col: "\<forall>m acc. main s = Collecting m acc \<longrightarrow> live_threads (threads s) = e"
    unfolding queue_inv_def by blast
  have "\<exists>s'. main_step T (main s) s = Some s'"
  proof (cases "main s")
    case (Collecting m acc)
    with col \<open>live_threads (threads s) = 0\<close> have "e = 0" by simp
    with q n have wq: "worker_queue s = []" by (auto simp: queue_is_def)
    have "sum_list (map (\<lambda>(c, t). thread_part t) (threads s)) = {#}"
      using gone by (intro sum_list_zero) auto
    with wq have pend: "pending part_no s = sum_list (map (result_part part_no) (result_queue s))"
      by (simp add: pending_def)
    from parts_inv_reachable [OF reach] Collecting obtain xs F where
      F: "size F = sum_list (map failed (result_queue s))" "length xs + m = tot"
      "pending part_no s + F + mset (map part_no xs) = mset [0..<tot]"
      unfolding parts_inv_def taken_ok_def by auto
    from arg_cong [OF F(3), of size] F(2) pend have "m = size (pending part_no s) + size F" by simp
    then have "result_queue s \<noteq> []" if "0 < m" using that F(1) pend by auto
    with Collecting show ?thesis
      by (cases m; cases "result_queue s"; cases "hd (result_queue s)") (auto split: prod.split)
  next
    case (Joining k r)
    then show ?thesis using gone nth_mem [of k "threads s"] by (auto simp: case_prod_beta)
  qed (use run in auto)
  then show ?thesis by (blast intro: pool_step.main_thread)
qed

text \<open>Hence every run can be driven to its end, and no run goes on for ever.\<close>

lemma pool_returns:
  assumes "0 < n" and "pool_steps T (pool_start tot part_size n acc0 wire) s"
  shows "\<exists>s' r. pool_steps T s s' \<and> main s' = Returned r"
  using assms(2)
proof (induction "pool_weight T s" arbitrary: s rule: less_induct)
  case less
  show ?case
  proof (cases "\<exists>r. main s = Returned r")
    case False
    with no_deadlock [OF less.prems assms(1)] obtain s1 where "pool_step T s s1" by blast
    with less.hyps [OF pool_step_weight] less.prems show ?thesis
      by (meson converse_rtranclp_into_rtranclp rtranclp.rtrancl_into_rtrancl)
  qed blast
qed

text \<open>If no attempt at a part fails, the main thread does not return the exception either.\<close>

definition clean :: "('r, 'a, 'b) pool \<Rightarrow> bool" where
  "clean s \<longleftrightarrow> (case main s of
     Collecting m acc \<Rightarrow> (\<forall>e. Failure e \<notin> set (result_queue s))
   | Stopping k r \<Rightarrow> (\<exists>acc. r = snd (finish T acc))
   | Joining k r \<Rightarrow> (\<exists>acc. r = snd (finish T acc))
   | Returned r \<Rightarrow> (\<exists>acc. r = snd (finish T acc)))"

lemma clean_main:
  assumes step: "main_step T (main s) s = Some s'" and cl: "clean s"
  shows "clean s'"
proof (cases "\<exists>acc. main s = Collecting 0 acc")
  case True
  then obtain acc where "main s = Collecting 0 acc" by blast
  with step obtain k where "main s' = Stopping k (snd (finish T acc)) \<or> main s' = Returned (snd (finish T acc))"
    by (auto split: prod.splits if_splits)
  then show ?thesis by (auto simp: clean_def)
next
  case False
  with step cl show ?thesis
    by (cases "(T, main s, s)" rule: main_step.cases)
      (auto simp: clean_def split: list.splits result.splits prod.splits if_splits)
qed

lemma clean_worker:
  assumes ok: "\<forall>i < tot. \<forall>w. \<exists>r w'. attempt T (i, part_size) w = (Inr r, w')"
    and inv: "parts_inv tot acc0 s" and i: "i < length (threads s)" "threads s ! i = (c, t)"
    and step: "worker_step T c t s = Some (t', s')" and cl: "clean s"
  shows "clean (s'\<lparr>threads := (threads s')[i := (c, t')]\<rparr>)"
proof (cases "\<exists>m acc. main s = Collecting m acc")
  case True
  have "\<exists>r w'. attempt T (a, b) (pool_wire s) = (Inr r, w')" if t: "t = Busy a b k" for a b k
  proof -
    from True inv obtain xs F where "sized part_size s" and all: "pending part_no s + F + mset (map part_no xs) = mset [0..<tot]"
      unfolding parts_inv_def taken_ok_def by auto
    with i t have "b = part_size" by (metis (no_types, lifting) case_prodD nth_mem sized_def thread_sized.simps(1))
    have "thread_part t \<subseteq># sum_list (map (\<lambda>(c, t). thread_part t) (threads s))"
      using sum_list_update [OF i(1), of "\<lambda>(c, t). thread_part t" "(c, Idle)"] i(2) by (simp add: mset_subset_eq_exists_conv) (metis add.commute)
    then have "a \<in># pending part_no s" using t by (auto simp: pending_def dest: mset_subset_eqD)
    then have "a \<in># mset [0..<tot]" unfolding all [symmetric] by simp
    with ok \<open>b = part_size\<close> show ?thesis by simp
  qed
  with step have "\<forall>e. Failure e \<in> set (result_queue s') \<longrightarrow> Failure e \<in> set (result_queue s)"
    by (cases t) (fastforce split: list.splits work.splits prod.splits sum.splits if_splits)+
  with True cl worker_step_threads [OF step] show ?thesis by (auto simp: clean_def)
next
  case False
  with cl worker_step_threads [OF step] show ?thesis by (auto simp: clean_def split: main_state.splits)
qed

lemma clean_reachable:
  assumes "\<forall>i < tot. \<forall>w. \<exists>r w'. attempt T (i, part_size) w = (Inr r, w')"
  shows "pool_steps T (pool_start tot part_size n acc0 wire) s \<Longrightarrow> clean s"
proof (induction rule: rtranclp_induct)
  case base
  then show ?case by (simp add: clean_def pool_start_def)
next
  case (step s s')
  from step(2,1,3) parts_inv_reachable [OF step(1)] show ?case
    by (induction rule: pool_step.induct) (blast intro: clean_worker [OF assms] clean_main)+
qed

lemma returned_success:
  assumes "\<forall>i < tot. \<forall>w. \<exists>r w'. attempt T (i, part_size) w = (Inr r, w')"
    and "\<forall>acc. snd (finish T acc) \<noteq> Inl (part_failed T)"
    and "pool_steps T (pool_start tot part_size n acc0 wire) s" and "main s = Returned r"
  shows "\<exists>xs. mset (map part_no xs) = mset [0..<tot]
    \<and> (\<forall>x \<in> set xs. good x (pool_wire s)) \<and> r = snd (finish T (fold (absorb T) xs acc0))"
  using returned_outcome [OF assms(3,4)] clean_reachable [OF assms(1,3)] assms(2,4)
  by (auto simp: clean_def)

end

section \<open>ConcurrentUploader\<close>

text \<open>\<open>D\<close> is the contents of the file, which every worker has open.\<close>

definition upload_chunk ::
  "(string \<Rightarrow> string) \<Rightarrow> layer1 \<Rightarrow> string \<Rightarrow> string \<Rightarrow> string \<Rightarrow> nat \<times> nat \<Rightarrow> (nat \<times> string) glacier_op" where
  "upload_chunk H l vault_name upload_id D = (\<lambda>(part_number, part_size) wire.
     let start_byte = part_number * part_size;
         contents = take part_size (drop start_byte D)
     in case res_bind (chunk_hashes H contents MEGABYTE) (tree_hash H) of
          Inl e \<Rightarrow> (Inl e, wire)
        | Inr tree_hash_bytes \<Rightarrow>
          (case Glacier_Layer1.upload_part l vault_name upload_id (hexlify (H contents)) (bytes_to_hex tree_hash_bytes)
              (int start_byte, int start_byte + int (length contents) - 1) contents wire of
             (Inl e, wire') \<Rightarrow> (Inl e, wire')
           | (Inr _, wire') \<Rightarrow> (Inr (part_number, tree_hash_bytes), wire')))"

definition upload_transfer ::
  "(string \<Rightarrow> string) \<Rightarrow> layer1 \<Rightarrow> string \<Rightarrow> string \<Rightarrow> string \<Rightarrow>
   (nat \<times> string, string option list, string option list) transfer" where
  "upload_transfer H l vault_name upload_id D =
     \<lparr>attempt = upload_chunk H l vault_name upload_id D, tries = 5 + 1,
      absorb = (\<lambda>(part_number, tree_sha256) hash_chunks. hash_chunks[part_number := Some tree_sha256]),
      finish = (\<lambda>hash_chunks. (True, Inr hash_chunks)), part_failed = Boto_Error ''UploadArchiveError''\<rparr>"

text \<open>
  \<open>upload\<close> before and after the threads run; between them is any run of the pool.  An exception of
  \<open>abort_multipart_upload\<close> takes the place of the one being handled.
\<close>

definition upload_begin ::
  "bool \<Rightarrow> layer1 \<Rightarrow> string \<Rightarrow> string \<Rightarrow> nat \<Rightarrow> string option \<Rightarrow> (string \<times> nat \<times> nat) glacier_op" where
  "upload_begin true_div l vault_name D self_part_size description =
     py_bind (py_lift (calculate_required_part_size true_div self_part_size (length D)))
       (\<lambda>(total_parts, part_size). py_bind (initiate_multipart_upload l vault_name part_size description)
         (\<lambda>response. py_lift (res_bind (getitem response ''UploadId'') (\<lambda>u. res_bind (jstr u)
            (\<lambda>upload_id. Inr (upload_id, total_parts, part_size))))))"

definition upload_end ::
  "(string \<Rightarrow> string) \<Rightarrow> layer1 \<Rightarrow> string \<Rightarrow> string \<Rightarrow> nat \<Rightarrow> string option list res \<Rightarrow> jval glacier_op" where
  "upload_end H l vault_name upload_id total_size outcome =
     (case outcome of
        Inl e \<Rightarrow> if e = Boto_Error ''UploadArchiveError''
                then py_bind (abort_multipart_upload l vault_name upload_id) (\<lambda>_. py_raise e) else py_raise e
      | Inr hash_chunks \<Rightarrow>
          if None \<in> set hash_chunks then py_raise TypeError
          else py_bind (py_lift (tree_hash H (map the hash_chunks)))
            (\<lambda>h. py_bind (complete_multipart_upload l vault_name upload_id (bytes_to_hex h) total_size)
              (\<lambda>response. py_lift (getitem response ''ArchiveId''))))"

inductive concurrent_upload ::
  "(string \<Rightarrow> string) \<Rightarrow> bool \<Rightarrow> layer1 \<Rightarrow> string \<Rightarrow> string \<Rightarrow> nat \<Rightarrow> nat \<Rightarrow> string option \<Rightarrow> http_req list \<Rightarrow>
   jval res \<Rightarrow> http_req list \<Rightarrow> bool"
  for H true_div l vault_name D self_part_size num_threads description wire where
  not_begun: "upload_begin true_div l vault_name D self_part_size description wire = (Inl e, wire1)
    \<Longrightarrow> concurrent_upload H true_div l vault_name D self_part_size num_threads description wire (Inl e) wire1"
| run: "upload_begin true_div l vault_name D self_part_size description wire
      = (Inr (upload_id, total_parts, part_size), wire1)
    \<Longrightarrow> pool_steps (upload_transfer H l vault_name upload_id D)
         (pool_start total_parts part_size num_threads (replicate total_parts None) wire1) s
    \<Longrightarrow> main s = Returned outcome
    \<Longrightarrow> upload_end H l vault_name upload_id (length D) outcome (pool_wire s) = (r, wire2)
    \<Longrightarrow> concurrent_upload H true_div l vault_name D self_part_size num_threads description wire r wire2"

text \<open>A value of the upload pool: the hash of the part's bytes, whose request was sent.\<close>

definition upload_good ::
  "(string \<Rightarrow> string) \<Rightarrow> layer1 \<Rightarrow> string \<Rightarrow> string \<Rightarrow> string \<Rightarrow> nat \<Rightarrow> nat \<times> string \<Rightarrow> http_req list \<Rightarrow> bool" where
  "upload_good H l v uid D ps = (\<lambda>(i, h) wire.
     h = part_tree_hash H MEGABYTE (slice D (i * ps) ((i + 1) * ps))
     \<and> part_request H l v uid ps MEGABYTE (i, slice D (i * ps) ((i + 1) * ps)) \<in> set wire)"

lemma upload_part_sends:
  "Glacier_Layer1.upload_part l v uid (hexlify (H p)) (bytes_to_hex (part_tree_hash H MEGABYTE p))
      (int (i * ps), int (i * ps) + int (length p) - 1) p wire =
   (fst (Glacier_Layer1.upload_part l v uid (hexlify (H p)) (bytes_to_hex (part_tree_hash H MEGABYTE p))
      (int (i * ps), int (i * ps) + int (length p) - 1) p wire), wire @ [part_request H l v uid ps MEGABYTE (i, p)])"
  by (simp add: prod_eq_iff upload_part_def req.sends part_request_def mult.commute)

lemma upload_chunk_eq:
  "upload_chunk H l v uid D (i, ps) wire = (let p = slice D (i * ps) ((i + 1) * ps) in
     (map_sum id (\<lambda>_. (i, part_tree_hash H MEGABYTE p))
        (fst (Glacier_Layer1.upload_part l v uid (hexlify (H p)) (bytes_to_hex (part_tree_hash H MEGABYTE p))
          (int (i * ps), int (i * ps) + int (length p) - 1) p wire)),
      wire @ [part_request H l v uid ps MEGABYTE (i, p)]))"
proof -
  define p where "p = take ps (drop (i * ps) D)"
  have p: "slice D (i * ps) ((i + 1) * ps) = p" by (simp add: slice_def p_def)
  have "0 < MEGABYTE" by (simp add: MEGABYTE_def)
  from part_tree_hash [OF this, of H p] upload_part_sends [of l v uid H p i ps wire] show ?thesis
    unfolding upload_chunk_def prod.case Let_def p p_def [symmetric]
    by (auto split: sum.splits prod.splits)
qed

interpretation up: part_pool "upload_transfer H l v uid D" ps fst "upload_good H l v uid D ps"
  for H l v uid D ps
proof unfold_locales
  fix i w r w'
  assume "attempt (upload_transfer H l v uid D) (i, ps) w = (Inr r, w')"
  then show "fst r = i \<and> upload_good H l v uid D ps r w'"
    by (auto simp: upload_transfer_def upload_chunk_eq upload_good_def Let_def map_sum_def split: sum.splits)
next
  fix p w x w' r
  assume "attempt (upload_transfer H l v uid D) p w = (x, w')" "upload_good H l v uid D ps r w"
  then show "upload_good H l v uid D ps r w'"
    by (cases p) (auto simp: upload_transfer_def upload_chunk_eq upload_good_def Let_def)
qed

text \<open>Whatever the order of the results, every hash ends up at its part's index.\<close>

lemma fold_hash_chunks:
  assumes "\<forall>x \<in> set xs. snd x = f (fst x)" and "set (map fst xs) = {..<tot}"
  shows "fold (\<lambda>(i, h) hash_chunks. hash_chunks[i := Some h]) xs (replicate tot None) = map (\<lambda>i. Some (f i)) [0..<tot]"
proof -
  have len: "length (fold (\<lambda>(i, h) hc. hc[i := Some h]) xs hc) = length hc" for hc :: "'a option list"
    by (induction xs arbitrary: hc) auto
  have "fold (\<lambda>(i, h) hc. hc[i := Some h]) xs hc ! k = (if k \<in> set (map fst xs) then Some (f k) else hc ! k)"
    if "k < length hc" "\<forall>x \<in> set xs. snd x = f (fst x)" for k hc
    using that
  proof (induction xs arbitrary: hc)
    case (Cons x xs)
    then show ?case by (cases x) (auto simp: nth_list_update)
  qed simp
  with assms len show ?thesis by (intro nth_equalityI) auto
qed

lemma upload_pool_outcome:
  assumes run: "pool_steps (upload_transfer H l v uid D) (pool_start tot ps n (replicate tot None) wire) s"
    and ret: "main s = Returned r"
  shows "0 < tot \<and> r = Inl (Boto_Error ''UploadArchiveError'') \<or>
    (r = Inr (map (\<lambda>i. Some (part_tree_hash H MEGABYTE (slice D (i * ps) ((i + 1) * ps)))) [0..<tot])
     \<and> (\<forall>i < tot. part_request H l v uid ps MEGABYTE (i, slice D (i * ps) ((i + 1) * ps)) \<in> set (pool_wire s)))"
proof -
  let ?f = "\<lambda>i. part_tree_hash H MEGABYTE (slice D (i * ps) ((i + 1) * ps))"
  from up.returned_outcome [OF run ret] consider "0 < tot" "r = Inl (part_failed (upload_transfer H l v uid D))"
    | xs where "mset (map fst xs) = mset [0..<tot]" "\<forall>x \<in> set xs. upload_good H l v uid D ps x (pool_wire s)"
        "r = snd (finish (upload_transfer H l v uid D) (fold (absorb (upload_transfer H l v uid D)) xs (replicate tot None)))"
    by blast
  then show ?thesis
  proof cases
    case 1
    then show ?thesis by (simp add: upload_transfer_def)
  next
    case 2
    have set: "set (map fst xs) = {..<tot}" using mset_eq_setD [OF 2(1)] by (simp add: atLeast0LessThan)
    have f: "\<forall>x \<in> set xs. snd x = ?f (fst x)" using 2(2) by (auto simp: upload_good_def)
    have "part_request H l v uid ps MEGABYTE (i, slice D (i * ps) ((i + 1) * ps)) \<in> set (pool_wire s)" if "i < tot" for i
    proof -
      have "i \<in> set (map fst xs)" unfolding set using that by simp
      then obtain x where "x \<in> set xs" "fst x = i" by auto
      with 2(2) show ?thesis by (auto simp: upload_good_def)
    qed
    with 2(3) fold_hash_chunks [OF f set] show ?thesis by (simp add: upload_transfer_def)
  qed
qed

lemma slices_pieces:
  assumes "0 < ps"
  shows "map (\<lambda>i. slice D (i * ps) ((i + 1) * ps)) [0..<ceil_div (length D) ps] = pieces ps D"
  using assms by (intro nth_equalityI) (simp_all add: length_pieces nth_pieces slice_def)

lemma upload_begin_size:
  assumes "upload_begin td l v D sps desc wire = (Inr (uid, tot, ps), wire1)"
  shows "calculate_required_part_size td sps (length D) = Inr (tot, ps)"
  using assms by (auto simp: upload_begin_def py_bind_def py_lift_def res_bind_Inr_iff split: prod.splits sum.splits)

lemma required_part_size_form:
  assumes "calculate_required_part_size td (MEGABYTE * 2 ^ k) sz = Inr (tot, ps)"
  shows "0 < ps \<and> tot = ceil_div sz ps \<and> (\<exists>k. ps = MEGABYTE * 2 ^ k)"
  using assms minimum_part_size_form [of td sz]
  by (auto simp: calculate_required_part_size_def res_bind_Inr_iff Let_def split: if_splits)

lemma complete_sends:
  "complete_multipart_upload l v uid h m wire =
   (fst (complete_multipart_upload l v uid h m wire), wire @ [complete_request l v uid h m])"
  by (simp add: prod_eq_iff complete_multipart_upload_def req.sends complete_request_def)

section \<open>ConcurrentDownloader\<close>

text \<open>\<open>f.seek(pos); f.write(data)\<close>: a gap is filled with zero bytes when something is written.\<close>

definition write_at :: "nat \<Rightarrow> string \<Rightarrow> string \<Rightarrow> string" where
  "write_at pos data content =
     (if data = [] then content
      else take pos (content @ replicate (pos - length content) (CHR 0x00)) @ data @ drop (pos + length data) content)"

type_synonym downloaded = "nat \<times> nat \<times> string \<times> string"

definition download_part :: "(string \<Rightarrow> string) \<Rightarrow> job \<Rightarrow> nat \<times> nat \<Rightarrow> downloaded glacier_op" where
  "download_part H j = (\<lambda>(part_number, part_size).
     let start_byte = part_number * part_size;
         byte_range = (int start_byte, int start_byte + int part_size - 1)
     in py_bind (job_get_output H j (Some byte_range) False) (\<lambda>response. py_lift
          (res_bind (res_bind (chunk_hashes H (gl_body response) MEGABYTE) (tree_hash H)) (\<lambda>t.
             let actual_hash = bytes_to_hex t
             in res_bind (getitem response ''TreeHash'') (\<lambda>expected.
                  if expected \<noteq> JStr actual_hash then Inl (Boto_Error ''TreeHashDoesNotMatchError'')
                  else res_bind (unhexlify actual_hash)
                    (\<lambda>h. Inr (part_number, part_size, h, gl_body response)))))))"

definition download_finish ::
  "(string \<Rightarrow> string) \<Rightarrow> job \<Rightarrow> string option list \<times> string \<Rightarrow> bool \<times> string res" where
  "download_finish H j = (\<lambda>(hash_chunks, content).
     if None \<in> set hash_chunks then (False, Inl TypeError)
     else case tree_hash H (map the hash_chunks) of
       Inl e \<Rightarrow> (False, Inl e)
     | Inr t \<Rightarrow> (True, if jb_treehash j \<noteq> JStr (bytes_to_hex t)
                      then Inl (Boto_Error ''TreeHashDoesNotMatchError'') else Inr content))"

definition download_transfer ::
  "(string \<Rightarrow> string) \<Rightarrow> job \<Rightarrow> (downloaded, string option list \<times> string, string) transfer" where
  "download_transfer H j =
     \<lparr>attempt = download_part H j, tries = 5,
      absorb = (\<lambda>(part_number, part_size, actual_hash, data) (hash_chunks, content).
        (hash_chunks[part_number := Some actual_hash], write_at (part_number * part_size) data content)),
      finish = download_finish H j, part_failed = Boto_Error ''DownloadArchiveError''\<rparr>"

text \<open>The result of \<open>download\<close> is what is in the file when it returns.\<close>

inductive concurrent_download ::
  "(string \<Rightarrow> string) \<Rightarrow> bool \<Rightarrow> job \<Rightarrow> nat \<Rightarrow> nat \<Rightarrow> http_req list \<Rightarrow> string res \<Rightarrow> http_req list \<Rightarrow> bool"
  for H true_div j self_part_size num_threads wire where
  bad_size: "calculate_required_part_size true_div self_part_size (jb_archive_size j) = Inl e
    \<Longrightarrow> concurrent_download H true_div j self_part_size num_threads wire (Inl e) wire"
| run: "calculate_required_part_size true_div self_part_size (jb_archive_size j) = Inr (total_parts, part_size)
    \<Longrightarrow> pool_steps (download_transfer H j)
         (pool_start total_parts part_size num_threads (replicate total_parts None, []) wire) s
    \<Longrightarrow> main s = Returned r
    \<Longrightarrow> concurrent_download H true_div j self_part_size num_threads wire r (pool_wire s)"

text \<open>
  A value of the download pool: some answer to the request for the part had these bytes, and it
  stated their tree hash.
\<close>

definition download_good :: "(string \<Rightarrow> string) \<Rightarrow> job \<Rightarrow> nat \<Rightarrow> downloaded \<Rightarrow> http_req list \<Rightarrow> bool" where
  "download_good H j ps = (\<lambda>(i, p, h, d) wire. p = ps \<and> h = part_tree_hash H MEGABYTE d
     \<and> vouched H j (int (i * ps), int (i * ps) + int ps - 1) d)"

lemma download_part_good:
  assumes "download_part H j (i, ps) w = (Inr x, w')"
  shows "fst x = i \<and> download_good H j ps x w''"
proof -
  have m: "0 < MEGABYTE" by (simp add: MEGABYTE_def)
  define rng where "rng = (int (i * ps), int (i * ps) + int ps - 1)"
  from assms obtain r where r: "get_job_output (jb_layer1 j) (jb_vault j) (jb_id j) (Some rng) w = (Inr r, w')"
    and h: "getitem r ''TreeHash'' = Inr (JStr (bytes_to_hex (part_tree_hash H MEGABYTE (gl_body r))))"
    and x: "x = (i, ps, part_tree_hash H MEGABYTE (gl_body r), gl_body r)"
    unfolding download_part_def prod.case Let_def rng_def [symmetric]
    by (auto simp: job_get_output_def py_bind_def py_lift_def part_tree_hash [OF m] res_bind_Inr_iff
        bytes_to_hex_def unhexlify_hexlify simp del: of_nat_mult split: prod.splits sum.splits if_splits)
  then have "vouched H j rng (gl_body r)" unfolding vouched_def by (intro exI [of _ w] exI [of _ r]) simp
  with x show ?thesis by (simp add: download_good_def rng_def)
qed

interpretation down: part_pool "download_transfer H j" ps fst "download_good H j ps"
  for H j ps
proof unfold_locales
  fix i w r w'
  assume "attempt (download_transfer H j) (i, ps) w = (Inr r, w')"
  then show "fst r = i \<and> download_good H j ps r w'"
    using download_part_good by (auto simp: download_transfer_def)
next
  fix w r w'
  assume "download_good H j ps r w"
  then show "download_good H j ps r w'" by (cases r) (simp add: download_good_def)
qed

text \<open>
  The part of the file that is right already: the bytes of the parts in \<open>S\<close>.
\<close>

definition has_parts :: "string \<Rightarrow> nat \<Rightarrow> nat set \<Rightarrow> string \<Rightarrow> bool" where
  "has_parts D ps S c \<longleftrightarrow> length c \<le> length D \<and> (\<forall>p < length D. p div ps \<in> S \<longrightarrow> p < length c \<and> c ! p = D ! p)"

lemma nth_write_at:
  assumes "data \<noteq> []"
  shows "length (write_at pos data c) = max (length c) (pos + length data)"
    and "p < length (write_at pos data c) \<Longrightarrow> write_at pos data c ! p =
      (if pos \<le> p \<and> p < pos + length data then data ! (p - pos) else if p < length c then c ! p else CHR 0x00)"
  using assms by (auto simp: write_at_def nth_append max_def min_def)

lemma div_eq_iff_between: "0 < (n :: nat) \<Longrightarrow> p div n = i \<longleftrightarrow> i * n \<le> p \<and> p < i * n + n"
  using dividend_less_times_div [of n p] times_div_less_eq_dividend [of n p]
  by (auto intro!: div_nat_eqI simp: mult.commute)

lemma has_parts_write:
  assumes "has_parts D ps S c" and "i * ps < length D" and "0 < ps"
  shows "has_parts D ps (insert i S) (write_at (i * ps) (slice D (i * ps) ((i + 1) * ps)) c)"
proof -
  define d where "d = slice D (i * ps) ((i + 1) * ps)"
  have d: "length d = min ps (length D - i * ps)" by (simp add: slice_def d_def)
  with assms have ne: "d \<noteq> []" by auto
  have dn: "d ! (p - i * ps) = D ! p" if "i * ps \<le> p" "p < i * ps + length d" for p
    using that d by (simp add: slice_def d_def)
  have div: "p div ps = i \<longleftrightarrow> i * ps \<le> p \<and> p < i * ps + length d" if "p < length D" for p
    using that d div_eq_iff_between [OF assms(3), of p i] by auto
  let ?w = "write_at (i * ps) d c"
  from assms(1) have c: "length c \<le> length D" "\<And>p. p < length D \<Longrightarrow> p div ps \<in> S \<Longrightarrow> p < length c \<and> c ! p = D ! p"
    by (auto simp: has_parts_def)
  have lw: "length ?w = max (length c) (i * ps + length d)" by (rule nth_write_at(1) [OF ne])
  have "p < length ?w \<and> ?w ! p = D ! p" if p: "p < length D" and S: "p div ps \<in> insert i S" for p
  proof (cases "p div ps = i")
    case True
    with div [OF p] have "i * ps \<le> p" "p < i * ps + length d" by auto
    with dn show ?thesis by (simp add: lw nth_write_at(2) [OF ne])
  next
    case False
    with S c(2) [OF p] have "p < length c" "c ! p = D ! p" by auto
    moreover from False div [OF p] have "\<not> (i * ps \<le> p \<and> p < i * ps + length d)" by simp
    ultimately show ?thesis by (auto simp: lw nth_write_at(2) [OF ne] less_max_iff_disj)
  qed
  moreover have "length ?w \<le> length D" using c(1) d assms(2) by (simp add: lw)
  ultimately show ?thesis unfolding d_def [symmetric] by (simp add: has_parts_def)
qed

lemma fold_write_at:
  assumes "\<forall>x \<in> set xs. case x of (i, p, h, d) \<Rightarrow> p = ps \<and> h = f i \<and> d = slice D (i * ps) ((i + 1) * ps) \<and> i * ps < length D"
    and "0 < ps"
  shows "has_parts D ps S c \<Longrightarrow> \<exists>c'. fold (\<lambda>(i, p, h, d) (hc, c). (hc[i := Some h], write_at (i * p) d c)) xs (hc, c) =
      (fold (\<lambda>(i, h) hc. hc[i := Some h]) (map (\<lambda>(i, p, h, d). (i, h)) xs) hc, c')
    \<and> has_parts D ps (S \<union> fst ` set xs) c'"
  using assms(1)
proof (induction xs arbitrary: hc c S)
  case (Cons x xs)
  obtain i p h d where x: "x = (i, p, h, d)" by (cases x) auto
  with Cons.prems have p: "p = ps" "h = f i" "d = slice D (i * ps) ((i + 1) * ps)" "i * ps < length D" by auto
  from has_parts_write [OF Cons.prems(1) p(4) assms(2)]
  have "has_parts D ps (insert i S) (write_at (i * ps) d c)" by (simp add: p(3))
  from Cons.IH [OF this, of "hc[i := Some h]"] Cons.prems(2) show ?case by (auto simp: x p(1))
qed simp

lemma has_parts_all:
  assumes "has_parts D ps {..<ceil_div (length D) ps} c" and "0 < ps" and "D \<noteq> []"
  shows "c = D"
proof -
  have all: "p div ps < ceil_div (length D) ps" if "p < length D" for p
  proof (rule ccontr)
    assume "\<not> p div ps < ceil_div (length D) ps"
    then have "length D \<le> p div ps * ps" using ceil_div_le_iff [OF assms(2), of "length D" "p div ps"] by linarith
    also have "\<dots> \<le> p" by simp
    finally show False using that by simp
  qed
  with assms(1) have len: "length c \<le> length D" and eq: "\<forall>p < length D. p < length c \<and> c ! p = D ! p"
    by (auto simp: has_parts_def)
  have "length D - 1 < length D" using assms(3) by simp
  with eq have "length D - 1 < length c" by blast
  with len assms(3) have "length c = length D" by simp
  with eq show ?thesis by (simp add: nth_equalityI)
qed

text \<open>The tree hash of the hashes of all parts, in order.\<close>

lemma tree_hash_of_slices:
  assumes "ps = MEGABYTE * 2 ^ k" and "D \<noteq> []"
  shows "tree_hash H (map (\<lambda>i. part_tree_hash H MEGABYTE (slice D (i * ps) ((i + 1) * ps))) [0..<ceil_div (length D) ps])
    = Inr (part_tree_hash H MEGABYTE D)"
proof -
  have m: "0 < MEGABYTE" by (simp add: MEGABYTE_def)
  then have ps: "0 < ps" using assms(1) by simp
  have "map (\<lambda>i. part_tree_hash H MEGABYTE (slice D (i * ps) ((i + 1) * ps))) [0..<ceil_div (length D) ps]
      = map (part_tree_hash H MEGABYTE) (pieces ps D)"
    unfolding slices_pieces [OF ps, symmetric] by simp
  with tree_hash_parts [OF m assms(2), of H k] part_tree_hash [OF m, of H D] show ?thesis by (simp add: assms(1))
qed

lemma upload_end_success:
  assumes "hc = map (\<lambda>i. Some (part_tree_hash H MEGABYTE (slice D (i * ps) ((i + 1) * ps)))) [0..<ceil_div (length D) ps]"
    and "ps = MEGABYTE * 2 ^ k" and "D \<noteq> []"
  shows "upload_end H l v uid (length D) (Inr hc) wire =
    (res_bind (fst (complete_multipart_upload l v uid (bytes_to_hex (part_tree_hash H MEGABYTE D)) (length D) wire))
       (\<lambda>r. getitem r ''ArchiveId''),
     wire @ [complete_request l v uid (bytes_to_hex (part_tree_hash H MEGABYTE D)) (length D)])"
proof -
  have "tree_hash H (map the hc) = Inr (part_tree_hash H MEGABYTE D)"
    using tree_hash_of_slices [OF assms(2,3), of H] by (simp add: assms(1) comp_def)
  moreover have "None \<notin> set hc" using assms(1) by auto
  ultimately show ?thesis
    using complete_sends [of l v uid "bytes_to_hex (part_tree_hash H MEGABYTE D)" "length D" wire]
    by (auto simp: upload_end_def py_bind_def py_lift_def split: sum.splits prod.splits)
qed

text \<open>A service that accepts uploads and names them \<open>u\<close>, for the witnesses.\<close>

definition named_layer1 :: layer1 where
  "named_layer1 = \<lparr>account_id = ''-'', net = \<lparr>exchange = (\<lambda>_ req. Inr \<lparr>rs_status = (if hr_verb req = ''PUT'' then 204 else 201),
     rs_headers = [(''x-amz-multipart-upload-id'', ''u'')], rs_body = []\<rparr>), json_loads = (\<lambda>_. Inr []), json_dumps = (\<lambda>_. [])\<rparr>\<rparr>"

lemma named_layer1_accepts: "service_accepts named_layer1"
  by (simp add: service_accepts_def named_layer1_def getheader_def str_lower_def lower_char_def char_eval)

lemma named_layer1_begins:
  "\<exists>wire1. upload_begin True named_layer1 ''v'' ''abc'' (MEGABYTE * 2 ^ 2) None [] = (Inr (''u'', 1, 4 * MEGABYTE), wire1)"
proof -
  have size: "calculate_required_part_size True (4 * MEGABYTE) (length ''abc'') = Inr (1, 4 * MEGABYTE)"
    by (simp add: calculate_required_part_size_def minimum_part_size_def DEFAULT_PART_SIZE_def MEGABYTE_def
        MAXIMUM_NUMBER_OF_PARTS_def ceil_div_def)
  obtain wire1 r where r: "initiate_multipart_upload named_layer1 ''v'' (4 * MEGABYTE) None [] = (Inr r, wire1)"
    "getitem r ''UploadId'' = Inr (JStr ''u'')"
    by (simp add: initiate_multipart_upload_def make_request_eq the_request_def Let_def glacier_response_init_def
        named_layer1_def getheader_def getitem_def header_jval_def str_lower_def lower_char_def char_eval)
  have "MEGABYTE * 2 ^ 2 = 4 * MEGABYTE" by simp
  then show ?thesis unfolding upload_begin_def py_bind_def py_lift_def by (simp only: size prod.case sum.case r) (simp add: r jstr_def)
qed

lemma upload_runs_succeed:
  assumes acc: "service_accepts l" and n: "0 < n" and D: "D \<noteq> []"
    and start: "upload_begin td l v D (MEGABYTE * 2 ^ k) desc wire = (Inr (uid, tot, ps), wire1)"
  shows "(\<exists>r wire'. concurrent_upload H td l v D (MEGABYTE * 2 ^ k) n desc wire r wire')
    \<and> (\<forall>r wire'. concurrent_upload H td l v D (MEGABYTE * 2 ^ k) n desc wire r wire' \<longrightarrow>
        (\<exists>a wire2. r = Inr a
          \<and> wire' = wire2 @ [complete_request l v uid (bytes_to_hex (part_tree_hash H MEGABYTE D)) (length D)]))
    \<and> (\<forall>s. pool_steps (upload_transfer H l v uid D) (pool_start tot ps n (replicate tot None) wire1) s \<longrightarrow>
        (\<exists>s' r. pool_steps (upload_transfer H l v uid D) s s' \<and> main s' = Returned r))"
proof (intro conjI allI impI)
  from required_part_size_form [OF upload_begin_size [OF start]] obtain k' where
    ps: "0 < ps" "tot = ceil_div (length D) ps" "ps = MEGABYTE * 2 ^ k'" by blast
  show ret: "\<exists>s' r. pool_steps (upload_transfer H l v uid D) s s' \<and> main s' = Returned r"
    if "pool_steps (upload_transfer H l v uid D) (pool_start tot ps n (replicate tot None) wire1) s" for s
    by (rule up.pool_returns [OF n that])
  then show "\<exists>r wire'. concurrent_upload H td l v D (MEGABYTE * 2 ^ k) n desc wire r wire'"
    by (metis concurrent_upload.run start rtranclp.rtrancl_refl surj_pair)
  have ok: "\<forall>i < tot. \<forall>w. \<exists>r w'. attempt (upload_transfer H l v uid D) (i, ps) w = (Inr r, w')"
    using accepted_put [OF acc] unfolding upload_transfer_def transfer.simps upload_chunk_eq Let_def upload_part_def
    by (metis map_sum.simps(2))
  fix r wire' assume "concurrent_upload H td l v D (MEGABYTE * 2 ^ k) n desc wire r wire'"
  then show "\<exists>a wire2. r = Inr a
      \<and> wire' = wire2 @ [complete_request l v uid (bytes_to_hex (part_tree_hash H MEGABYTE D)) (length D)]"
  proof (cases rule: concurrent_upload.cases)
    case (run uid' tot' ps' wire1' s outcome)
    then have [simp]: "uid' = uid" "tot' = tot" "ps' = ps" "wire1' = wire1" using start by simp_all
    have "outcome \<noteq> Inl (Boto_Error ''UploadArchiveError'')"
      using up.returned_success [OF ok _ run(2) [simplified] run(3)] by (auto simp: upload_transfer_def)
    with upload_pool_outcome [OF run(2,3)]
    have hc: "outcome = Inr (map (\<lambda>i. Some (part_tree_hash H MEGABYTE (slice D (i * ps) ((i + 1) * ps)))) [0..<tot])"
      by simp
    from accepted_post [OF acc] obtain x a where
      x: "fst (complete_multipart_upload l v uid (bytes_to_hex (part_tree_hash H MEGABYTE D)) (length D) (pool_wire s)) = Inr x"
      "getitem x ''ArchiveId'' = Inr a" by blast
    from upload_end_success [OF refl ps(3) D, of H l v uid "pool_wire s"] run(4)
    have "r = Inr a" "wire' = pool_wire s @ [complete_request l v uid (bytes_to_hex (part_tree_hash H MEGABYTE D)) (length D)]"
      by (simp_all add: hc ps(2) x)
    then show ?thesis by blast
  qed (use start in simp)
qed

lemma named_layer1_uploads:
  "\<exists>a wire'. concurrent_upload id True named_layer1 ''v'' ''abc'' (MEGABYTE * 2 ^ 2) 2 None [] (Inr a) wire'"
proof -
  from named_layer1_begins obtain wire1 where
    "upload_begin True named_layer1 ''v'' ''abc'' (MEGABYTE * 2 ^ 2) None [] = (Inr (''u'', 1, 4 * MEGABYTE), wire1)" ..
  from upload_runs_succeed [OF named_layer1_accepts _ _ this, of 2 id] show ?thesis by fastforce
qed

text \<open>With a service that has the archive, every attempt at a part returns its slice.\<close>

lemma served_part:
  assumes "serves_archive H j D ps" and "i < ceil_div (length D) ps"
  shows "\<exists>w'. download_part H j (i, ps) w =
    (Inr (i, ps, part_tree_hash H MEGABYTE (slice D (i * ps) ((i + 1) * ps)), slice D (i * ps) ((i + 1) * ps)), w')"
proof -
  have m: "0 < MEGABYTE" by (simp add: MEGABYTE_def)
  define rng where "rng = (int (i * ps), int (i * ps) + int ps - 1)"
  define d where "d = slice D (i * ps) ((i + 1) * ps)"
  have rng: "rng = (int (i * ps), int ((i + 1) * ps) - 1)" by (simp add: rng_def)
  from assms obtain r where "fst (get_job_output (jb_layer1 j) (jb_vault j) (jb_id j) (Some rng) w) = Inr r"
    "gl_body r = d" "getitem r ''TreeHash'' = Inr (JStr (bytes_to_hex (part_tree_hash H MEGABYTE d)))"
    unfolding serves_archive_def d_def rng by blast
  then show ?thesis
    unfolding download_part_def prod.case Let_def rng_def [symmetric] d_def [symmetric]
    by (cases "get_job_output (jb_layer1 j) (jb_vault j) (jb_id j) (Some rng) w")
      (simp add: job_get_output_def py_bind_def py_lift_def part_tree_hash [OF m] bytes_to_hex_def unhexlify_hexlify)
qed

lemma vouched_slice:
  assumes "serves_archive H j D ps" and "i < ceil_div (length D) ps"
    and "vouched H j (int (i * ps), int (i * ps) + int ps - 1) d"
  shows "d = slice D (i * ps) ((i + 1) * ps)"
proof -
  have eq: "int (i * ps) + int ps - 1 = int ((i + 1) * ps) - 1" by simp
  from assms(3) obtain wire r where
    r: "fst (get_job_output (jb_layer1 j) (jb_vault j) (jb_id j) (Some (int (i * ps), int ((i + 1) * ps) - 1)) wire) = Inr r"
      "gl_body r = d" unfolding vouched_def eq by blast
  from assms(1,2) have "\<exists>r. fst (get_job_output (jb_layer1 j) (jb_vault j) (jb_id j) (Some (int (i * ps), int ((i + 1) * ps) - 1)) wire) = Inr r
      \<and> gl_body r = slice D (i * ps) ((i + 1) * ps)" unfolding serves_archive_def by blast
  with r show ?thesis unfolding r(1) by blast
qed

text \<open>All parts absorbed, in whatever order: every hash and every byte is in its place.\<close>

lemma absorb_all_parts:
  assumes "\<forall>x \<in> set xs. case x of (i, p, h, d) \<Rightarrow> p = ps \<and> h = f i \<and> d = slice D (i * ps) ((i + 1) * ps) \<and> i * ps < length D"
    and "0 < ps" and "D \<noteq> []" and "set (map fst xs) = {..<ceil_div (length D) ps}"
  shows "fold (\<lambda>(i, p, h, d) (hc, c). (hc[i := Some h], write_at (i * p) d c)) xs (replicate (ceil_div (length D) ps) None, [])
    = (map (\<lambda>i. Some (f i)) [0..<ceil_div (length D) ps], D)"
proof -
  let ?ys = "map (\<lambda>(i, p, h, d). (i, h)) xs" and ?n = "ceil_div (length D) ps"
  have "has_parts D ps {} []" by (simp add: has_parts_def)
  from fold_write_at [OF assms(1,2) this, of "replicate ?n None"] obtain c where
    c: "fold (\<lambda>(i, p, h, d) (hc, c). (hc[i := Some h], write_at (i * p) d c)) xs (replicate ?n None, [])
      = (fold (\<lambda>(i, h) hc. hc[i := Some h]) ?ys (replicate ?n None), c)"
    and parts: "has_parts D ps (fst ` set xs) c" by auto
  have hs: "\<forall>x \<in> set ?ys. snd x = f (fst x)" using assms(1) by auto
  have "map fst ?ys = map fst xs" by (simp add: case_prod_beta')
  with assms(4) have "set (map fst ?ys) = {..<?n}" by simp
  note hc = fold_hash_chunks [OF hs this]
  have "has_parts D ps {..<?n} c" using parts assms(4) by simp
  then have "c = D" by (rule has_parts_all [OF _ assms(2,3)])
  with c hc show ?thesis by simp
qed

lemma download_pool_outcome:
  assumes serves: "serves_archive H j D ps" and D: "D \<noteq> []"
    and th: "jb_treehash j = JStr (bytes_to_hex (part_tree_hash H MEGABYTE D))"
    and form: "0 < ps \<and> tot = ceil_div (length D) ps \<and> (\<exists>k. ps = MEGABYTE * 2 ^ k)"
    and run: "pool_steps (download_transfer H j) (pool_start tot ps n (replicate tot None, []) wire) s"
    and ret: "main s = Returned r"
  shows "r = Inr D"
proof -
  let ?s = "\<lambda>i. slice D (i * ps) ((i + 1) * ps)"
  let ?f = "\<lambda>i. part_tree_hash H MEGABYTE (?s i)"
  have m: "0 < MEGABYTE" by (simp add: MEGABYTE_def)
  from form obtain k where ps: "0 < ps" "tot = ceil_div (length D) ps" "ps = MEGABYTE * 2 ^ k" by blast
  have ok: "\<forall>i < tot. \<forall>w. \<exists>x w'. attempt (download_transfer H j) (i, ps) w = (Inr x, w')"
  proof (intro allI impI)
    fix i w assume "i < tot"
    then obtain w' where "download_part H j (i, ps) w = (Inr (i, ps, ?f i, ?s i), w')"
      using served_part [OF serves] ps(2) by blast
    then show "\<exists>x w'. attempt (download_transfer H j) (i, ps) w = (Inr x, w')"
      by (simp add: download_transfer_def)
  qed
  have "snd (download_finish H j acc) \<noteq> Inl (Boto_Error ''DownloadArchiveError'')" for acc
    by (cases acc) (simp add: download_finish_def tree_hash_def split: list.split)
  then have nf: "\<forall>acc. snd (finish (download_transfer H j) acc) \<noteq> Inl (part_failed (download_transfer H j))"
    by (simp add: download_transfer_def)
  from down.returned_success [OF ok nf run ret] obtain xs where
    xs: "mset (map fst xs) = mset [0..<tot]" "\<forall>x \<in> set xs. download_good H j ps x (pool_wire s)"
    "r = snd (download_finish H j (fold (\<lambda>(i, p, h, d) (hc, c). (hc[i := Some h], write_at (i * p) d c)) xs (replicate tot None, [])))"
    by (auto simp: download_transfer_def)
  have set: "set (map fst xs) = {..<tot}" using mset_eq_setD [OF xs(1)] by (simp add: atLeast0LessThan)
  have "\<forall>x \<in> set xs. case x of (i, p, h, d) \<Rightarrow> p = ps \<and> h = ?f i \<and> d = ?s i \<and> i * ps < length D"
  proof clarify
    fix i p h d assume x: "(i, p, h, d) \<in> set xs"
    then have "i \<in> set (map fst xs)" by force
    then have i: "i < tot" unfolding set by simp
    with xs(2) x have "p = ps" "h = part_tree_hash H MEGABYTE d" and v: "vouched H j (int (i * ps), int (i * ps) + int ps - 1) d"
      by (auto simp: download_good_def)
    moreover have "d = ?s i" using v vouched_slice [OF serves i [unfolded ps(2)]] by blast
    moreover have "i * ps < length D" using ceil_div_le_iff [OF ps(1), of "length D" i] i ps(2) by linarith
    ultimately show "p = ps \<and> h = ?f i \<and> d = ?s i \<and> i * ps < length D" by simp
  qed
  from absorb_all_parts [OF this ps(1) D] set ps(2)
  have "fold (\<lambda>(i, p, h, d) (hc, c). (hc[i := Some h], write_at (i * p) d c)) xs (replicate tot None, [])
    = (map (\<lambda>i. Some (?f i)) [0..<tot], D)" by simp
  with xs(3) show ?thesis
    using tree_hash_of_slices [OF ps(3) D, of H] th ps(2) by (auto simp: download_finish_def comp_def)
qed

section \<open>Properties\<close>

text \<open>
  C30: a concurrent upload that ends without an exception has, whatever the interleaving of the
  threads, the retries and the answers of the service, sent the request for every part of the
  file, with that part's bytes, range and hashes, and then completed the upload with the length
  and the tree hash of the whole file.
\<close>

theorem concurrent_upload_is_complete:
  assumes "concurrent_upload H td l v D (MEGABYTE * 2 ^ k) n desc wire (Inr a) wire'"
  shows "\<exists>uid ps wire2. wire' = wire2 @ [complete_request l v uid (bytes_to_hex (part_tree_hash H MEGABYTE D)) (length D)]
    \<and> set (map (part_request H l v uid ps MEGABYTE) (enumerate 0 (pieces ps D))) \<subseteq> set wire2
    \<and> concat (pieces ps D) = D"
  using assms
proof (cases rule: concurrent_upload.cases)
  case (run uid tot ps wire1 s outcome)
  from required_part_size_form [OF upload_begin_size [OF run(1)]] obtain k' where
    ps: "0 < ps" "tot = ceil_div (length D) ps" "ps = MEGABYTE * 2 ^ k'" by blast
  from upload_pool_outcome [OF run(2,3)] run(4)
  have hc: "outcome = Inr (map (\<lambda>i. Some (part_tree_hash H MEGABYTE (slice D (i * ps) ((i + 1) * ps)))) [0..<tot])"
    and sent: "\<forall>i < tot. part_request H l v uid ps MEGABYTE (i, slice D (i * ps) ((i + 1) * ps)) \<in> set (pool_wire s)"
    by (auto simp: upload_end_def py_bind_def py_raise_def split: prod.splits sum.splits)
  have "D \<noteq> []" using run(4) hc ps(2)
    by (auto simp: upload_end_def py_bind_def py_lift_def)
  with upload_end_success [OF _ ps(3), of _ H D l v uid "pool_wire s"] hc ps(2) run(4)
  have "wire' = pool_wire s @ [complete_request l v uid (bytes_to_hex (part_tree_hash H MEGABYTE D)) (length D)]" by simp
  moreover have "set (map (part_request H l v uid ps MEGABYTE) (enumerate 0 (pieces ps D))) \<subseteq> set (pool_wire s)"
    using sent ps(2) unfolding slices_pieces [OF ps(1), symmetric]
    by (auto simp: in_set_enumerate_eq simp del: mult_Suc)
  ultimately show ?thesis using concat_pieces [OF ps(1)] by blast
qed

theorem concurrent_upload_is_complete_witness:
  "\<exists>uid ps wire2 wire'. wire' = wire2 @ [complete_request named_layer1 ''v'' uid (bytes_to_hex (part_tree_hash id MEGABYTE ''abc'')) 3]
    \<and> set (map (part_request id named_layer1 ''v'' uid ps MEGABYTE) (enumerate 0 (pieces ps ''abc''))) \<subseteq> set wire2"
proof -
  obtain a wire' where "concurrent_upload id True named_layer1 ''v'' ''abc'' (MEGABYTE * 2 ^ 2) 2 None [] (Inr a) wire'"
    using named_layer1_uploads by blast
  from concurrent_upload_is_complete [OF this] show ?thesis by (auto simp: numeral_3_eq_3)
qed

text \<open>
  C1: when the service accepts the requests and there is at least one worker, the pool cannot fail
  for a file that is not empty: every run that ends, ends with the archive's identifier after completing the upload of the
  whole file, and from every state the threads can get into, the run can be brought to its end.
\<close>

theorem concurrent_upload_succeeds:
  assumes acc: "service_accepts l" and n: "0 < n" and D: "D \<noteq> []"
    and start: "upload_begin td l v D (MEGABYTE * 2 ^ k) desc wire = (Inr (uid, tot, ps), wire1)"
  shows "(\<exists>r wire'. concurrent_upload H td l v D (MEGABYTE * 2 ^ k) n desc wire r wire')
    \<and> (\<forall>r wire'. concurrent_upload H td l v D (MEGABYTE * 2 ^ k) n desc wire r wire' \<longrightarrow>
        (\<exists>a wire2. r = Inr a
          \<and> wire' = wire2 @ [complete_request l v uid (bytes_to_hex (part_tree_hash H MEGABYTE D)) (length D)]))
    \<and> (\<forall>s. pool_steps (upload_transfer H l v uid D) (pool_start tot ps n (replicate tot None) wire1) s \<longrightarrow>
        (\<exists>s' r. pool_steps (upload_transfer H l v uid D) s s' \<and> main s' = Returned r))"
  using assms by (rule upload_runs_succeed)

theorem concurrent_upload_succeeds_witness:
  "\<exists>a wire2. concurrent_upload id True named_layer1 ''v'' ''abc'' (MEGABYTE * 2 ^ 2) 2 None [] (Inr a)
    (wire2 @ [complete_request named_layer1 ''v'' ''u'' (bytes_to_hex (part_tree_hash id MEGABYTE ''abc'')) 3])"
proof -
  from named_layer1_begins obtain wire1 where
    "upload_begin True named_layer1 ''v'' ''abc'' (MEGABYTE * 2 ^ 2) None [] = (Inr (''u'', 1, 4 * MEGABYTE), wire1)" ..
  from concurrent_upload_succeeds [OF named_layer1_accepts _ _ this, of 2 id] show ?thesis
    by (fastforce simp: numeral_3_eq_3)
qed

text \<open>
  The handler \<open>except Empty\<close> of the worker loop names an exception that is not imported, so a
  worker whose \<open>get\<close> times out would end with a \<open>NameError\<close>.  That cannot happen: no worker ever
  finds the work queue empty, in any interleaving of any transfer.
\<close>

theorem workers_never_crash:
  assumes "pool_steps T (pool_start tot ps n acc wire) s"
  shows "Crashed \<notin> snd ` set (threads s)
    \<and> (\<forall>c. (c, Getting) \<notin> set (threads s) \<or> worker_queue s \<noteq> [])"
proof -
  from queue_inv_reachable [OF assms] obtain j e where
    q: "queue_is tot ps (worker_queue s) j e" and le: "live_threads (threads s) \<le> e"
    and nc: "\<forall>(c, t) \<in> set (threads s). t \<noteq> Crashed" unfolding queue_inv_def by blast
  have "worker_queue s \<noteq> []" if "(c, Getting) \<in> set (threads s)" for c
  proof -
    from that obtain i where "i < length (threads s)" "threads s ! i = (c, Getting)" by (auto simp: in_set_conv_nth)
    from live_le [OF this] le have "0 < e" by simp
    with q show ?thesis by (auto simp: queue_is_def)
  qed
  with nc show ?thesis by auto
qed

theorem workers_never_crash_witness:
  "Crashed \<notin> snd ` set (threads (pool_start 1 1 2 [None] [] :: (nat \<times> string, string option list, string option list) pool))"
  using workers_never_crash [of "upload_transfer id named_layer1 ''v'' ''u'' ''a''" 1 1 2 "[None]" "[]"] by simp

text \<open>
  No interleaving of a transfer runs for ever: every step of any thread makes the pool's weight
  smaller, and as long as the main thread of an upload with at least one worker has not returned,
  some thread can take a step, whatever the service answers.
\<close>

theorem upload_pool_progress:
  assumes "pool_steps (upload_transfer H l v uid D) (pool_start tot ps n (replicate tot None) wire) s"
    and "0 < n" and "\<forall>r. main s \<noteq> Returned r"
  shows "\<exists>s'. pool_step (upload_transfer H l v uid D) s s'
    \<and> pool_weight (upload_transfer H l v uid D) s' < pool_weight (upload_transfer H l v uid D) s"
  using up.no_deadlock [OF assms(1,2)] assms(3) pool_step_weight by blast

theorem upload_pool_progress_witness:
  "\<exists>s'. pool_step (upload_transfer id named_layer1 ''v'' ''u'' ''a'') (pool_start 1 1 2 (replicate 1 None) []) s'"
  using upload_pool_progress [of id named_layer1 "''v''" "''u''" "''a''" 1 1 2 "[]" "pool_start 1 1 2 (replicate 1 None) []"]
  by (auto simp: pool_start_def)

text \<open>
  Uploading an empty file concurrently always ends with an \<open>IndexError\<close> (the tree hash of no
  parts) after the upload was begun, and sends neither a completion nor an abort: the upload is
  left open at the service.
\<close>

theorem concurrent_upload_of_nothing:
  assumes "concurrent_upload H td l v [] (MEGABYTE * 2 ^ k) n desc wire r wire'"
    and "upload_begin td l v [] (MEGABYTE * 2 ^ k) desc wire = (Inr (uid, tot, ps), wire1)"
  shows "r = Inl IndexError \<and> (\<exists>s. wire' = pool_wire s
    \<and> pool_steps (upload_transfer H l v uid []) (pool_start 0 ps n [] wire1) s)"
  using assms(1)
proof (cases rule: concurrent_upload.cases)
  case (run uid' tot' ps' wire1' s outcome)
  from required_part_size_form [OF upload_begin_size [OF assms(2)]] have "tot = 0" by simp
  with run(1) assms(2) have [simp]: "uid' = uid" "tot' = 0" "ps' = ps" "wire1' = wire1" by simp_all
  from upload_pool_outcome [OF run(2,3)] have "outcome = Inr []" by simp
  with run(2,4) show ?thesis by (auto simp: upload_end_def py_bind_def py_lift_def)
qed (use assms(2) in simp)

theorem concurrent_upload_of_nothing_witness:
  "\<exists>l wire'. concurrent_upload id True l ''v'' [] (MEGABYTE * 2 ^ 2) 1 None [] (Inl IndexError) wire'"
proof -
  have "calculate_required_part_size True (4 * MEGABYTE) (length ([] :: string)) = Inr (0, 4 * MEGABYTE)"
    by (simp add: calculate_required_part_size_def minimum_part_size_def DEFAULT_PART_SIZE_def MEGABYTE_def)
  moreover obtain wire1 r where r: "initiate_multipart_upload named_layer1 ''v'' (4 * MEGABYTE) None [] = (Inr r, wire1)"
    "getitem r ''UploadId'' = Inr (JStr ''u'')"
    by (simp add: initiate_multipart_upload_def make_request_eq the_request_def Let_def glacier_response_init_def
        named_layer1_def getheader_def getitem_def header_jval_def str_lower_def lower_char_def char_eval)
  ultimately have start: "upload_begin True named_layer1 ''v'' [] (MEGABYTE * 2 ^ 2) None [] = (Inr (''u'', 0, 4 * MEGABYTE), wire1)"
    by (simp add: upload_begin_def py_bind_def py_lift_def jstr_def mult.commute)
  obtain s r where "pool_steps (upload_transfer id named_layer1 ''v'' ''u'' []) (pool_start 0 (4 * MEGABYTE) 1 (replicate 0 None) wire1) s"
    "main s = Returned r"
    using up.pool_returns [of 1, OF _ rtranclp.rtrancl_refl] by fastforce
  from concurrent_upload.run [OF start this] obtain r' wire' where
    "concurrent_upload id True named_layer1 ''v'' [] (MEGABYTE * 2 ^ 2) 1 None [] r' wire'" by (metis surj_pair)
  with concurrent_upload_of_nothing [OF this start] show ?thesis by blast
qed

text \<open>
  The parts a transfer is cut into: for a total size of up to 10,000 * 4 GB and true division
  there are at most 10,000 of them, they cover the data, and none is superfluous.
\<close>

theorem required_parts_bound:
  assumes "calculate_required_part_size True sps sz = Inr (tot, ps)"
  shows "tot \<le> MAXIMUM_NUMBER_OF_PARTS \<and> sz \<le> tot * ps \<and> (\<forall>m < tot. m * ps < sz) \<and> sps \<le> ps"
proof -
  from assms obtain mn where mn: "minimum_part_size True sz DEFAULT_PART_SIZE = Inr mn"
    and ps: "ps = max mn sps" "0 < ps" "tot = ceil_div sz ps"
    by (auto simp: calculate_required_part_size_def res_bind_Inr_iff Let_def split: if_splits)
  have "sz \<le> 10000 * mn"
    using mn part_size_loop_not_below [of True sz MEGABYTE 3]
    by (auto simp: minimum_part_size_def below_min_def MAXIMUM_NUMBER_OF_PARTS_def split: if_splits)
  also have "\<dots> \<le> 10000 * ps" using ps(1) by simp
  finally have "tot \<le> 10000" using ceil_div_le_iff [OF ps(2), of sz 10000] ps(3) by simp
  moreover have "sz \<le> tot * ps" using ceil_div_le_iff [OF ps(2), of sz tot] ps(3) by simp
  moreover have "m * ps < sz" if "m < tot" for m using ceil_div_le_iff [OF ps(2), of sz m] ps(3) that by simp
  ultimately show ?thesis using ps(1) by (simp add: MAXIMUM_NUMBER_OF_PARTS_def)
qed

theorem required_parts_bound_witness:
  "3 \<le> MAXIMUM_NUMBER_OF_PARTS \<and> 10 * MEGABYTE \<le> 3 * (4 * MEGABYTE)
    \<and> 2 * (4 * MEGABYTE) < 10 * MEGABYTE \<and> MEGABYTE \<le> 4 * MEGABYTE"
proof -
  have "ceil_div (10 * MEGABYTE) (4 * MEGABYTE) = 3" by (simp add: ceil_div_def MEGABYTE_def)
  then have "calculate_required_part_size True MEGABYTE (10 * MEGABYTE) = Inr (3, 4 * MEGABYTE)"
    by (simp add: calculate_required_part_size_def minimum_part_size_def DEFAULT_PART_SIZE_def
        MAXIMUM_NUMBER_OF_PARTS_def Let_def) (simp add: MEGABYTE_def)
  from required_parts_bound [OF this] show ?thesis by (metis lessI numeral_2_eq_2 numeral_3_eq_3)
qed

text \<open>
  A part size below the default of 4 MB is never used, although the class documentation says
  that the given size is used unless the file is too large for it.
\<close>

theorem small_part_size_ignored:
  assumes "sps < DEFAULT_PART_SIZE" and "sz \<le> DEFAULT_PART_SIZE * MAXIMUM_NUMBER_OF_PARTS"
  shows "calculate_required_part_size td sps sz = Inr (ceil_div sz DEFAULT_PART_SIZE, DEFAULT_PART_SIZE)"
  using assms by (simp add: calculate_required_part_size_def minimum_part_size_def DEFAULT_PART_SIZE_def MEGABYTE_def)

theorem small_part_size_ignored_witness:
  "calculate_required_part_size False MEGABYTE MEGABYTE = Inr (ceil_div MEGABYTE DEFAULT_PART_SIZE, DEFAULT_PART_SIZE)"
  by (rule small_part_size_ignored) (simp_all add: DEFAULT_PART_SIZE_def MEGABYTE_def MAXIMUM_NUMBER_OF_PARTS_def)

text \<open>
  C3: when the service serves the archive's bytes and hashes, and the job states the archive's tree
  hash, every run of a concurrent download that ends leaves exactly the archive in the file, in
  whatever order the parts arrive, and from every state of the pool the run can be brought to its
  end.
\<close>

theorem concurrent_download_writes_archive:
  assumes "0 < n" and "D \<noteq> []" and "jb_treehash j = JStr (bytes_to_hex (part_tree_hash H MEGABYTE D))"
    and "calculate_required_part_size td (MEGABYTE * 2 ^ k) (length D) = Inr (tot, ps)"
    and "serves_archive H j D ps"
  shows "(\<exists>r wire'. concurrent_download H td j (MEGABYTE * 2 ^ k) n wire r wire')
    \<and> (\<forall>r wire'. concurrent_download H td j (MEGABYTE * 2 ^ k) n wire r wire' \<longrightarrow> r = Inr D)
    \<and> (\<forall>s. pool_steps (download_transfer H j) (pool_start tot ps n (replicate tot None, []) wire) s \<longrightarrow>
        (\<exists>s' r. pool_steps (download_transfer H j) s s' \<and> main s' = Returned r))"
proof (intro conjI allI impI)
  have size: "calculate_required_part_size td (MEGABYTE * 2 ^ k) (jb_archive_size j) = Inr (tot, ps)"
    using assms(4,5) by (simp add: serves_archive_def)
  show ret: "\<exists>s' r. pool_steps (download_transfer H j) s s' \<and> main s' = Returned r"
    if "pool_steps (download_transfer H j) (pool_start tot ps n (replicate tot None, []) wire) s" for s
    by (rule down.pool_returns [OF assms(1) that])
  then show "\<exists>r wire'. concurrent_download H td j (MEGABYTE * 2 ^ k) n wire r wire'"
    by (metis concurrent_download.run size rtranclp.rtrancl_refl)
  show "r = Inr D" if "concurrent_download H td j (MEGABYTE * 2 ^ k) n wire r wire'" for r wire'
    using that
  proof (cases rule: concurrent_download.cases)
    case (run tot' ps' s)
    then show ?thesis using size download_pool_outcome [OF assms(5,2,3) required_part_size_form [OF assms(4)]] by simp
  qed (use size in simp)
qed

theorem concurrent_download_writes_archive_witness:
  "\<exists>j wire'. concurrent_download id True j (MEGABYTE * 2 ^ 2) 2 [] (Inr ''abc'') wire'"
proof -
  let ?r = "\<lparr>rs_status = 206, rs_headers = [(''x-amz-sha256-tree-hash'', bytes_to_hex ''abc'')], rs_body = ''abc''\<rparr>"
  let ?l = "\<lparr>account_id = ''-'', net = \<lparr>exchange = (\<lambda>_ _. Inr ?r), json_loads = (\<lambda>_. Inr []), json_dumps = (\<lambda>_. [])\<rparr>\<rparr>"
  let ?j = "\<lparr>jb_layer1 = ?l, jb_vault = ''v'', jb_id = ''j'', jb_archive_size = 3, jb_treehash = JStr (bytes_to_hex ''abc'')\<rparr>"
  have h: "part_tree_hash id MEGABYTE ''abc'' = ''abc''"
    by (simp add: part_tree_hash_def tree_root_def tree_hash_def tree_hash_loop.simps pieces_single MEGABYTE_def)
  have th: "jb_treehash ?j = JStr (bytes_to_hex (part_tree_hash id MEGABYTE ''abc''))" by (simp add: h)
  have size: "calculate_required_part_size True (MEGABYTE * 2 ^ 2) (length ''abc'') = Inr (1, 4 * MEGABYTE)"
    by (simp add: calculate_required_part_size_def minimum_part_size_def DEFAULT_PART_SIZE_def MEGABYTE_def
        MAXIMUM_NUMBER_OF_PARTS_def ceil_div_def)
  have one: "ceil_div (length ''abc'') (4 * MEGABYTE) = 1" by (simp add: ceil_div_def MEGABYTE_def)
  have all: "slice ''abc'' (0 * (4 * MEGABYTE)) ((0 + 1) * (4 * MEGABYTE)) = ''abc''" by (simp add: slice_def MEGABYTE_def)
  have lows: "str_lower ''Content-Type'' = ''content-type''" "str_lower ''Content-Range'' = ''content-range''"
    "str_lower ''x-amzn-requestid'' = ''x-amzn-requestid''" "str_lower ''Content-Length'' = ''content-length''"
    "str_lower ''x-amz-sha256-tree-hash'' = ''x-amz-sha256-tree-hash''" by code_simp+
  have "\<exists>r. fst (get_job_output ?l ''v'' ''j'' (Some rng) wire) = Inr r
      \<and> gl_body r = ''abc'' \<and> getitem r ''TreeHash'' = Inr (JStr (bytes_to_hex ''abc''))" for rng wire
    by (simp add: get_job_output_def Let_def make_request_eq the_request_def lows
        glacier_response_init_def getheader_def getitem_def header_jval_def update_conv')
  then have "serves_archive id ?j ''abc'' (4 * MEGABYTE)"
    unfolding serves_archive_def one using all h by (auto simp: MEGABYTE_def [symmetric] less_Suc_eq) (simp add: MEGABYTE_def)
  from concurrent_download_writes_archive [OF _ _ th size this, of 2 "[]"] show ?thesis by (metis list.distinct(1) zero_less_numeral)
qed

end
