(* ===== verification/Transfer_Base.thy ===== *)
theory Transfer_Base
  imports Conn_Request Glacier_Utils
begin

text \<open>
  What the resumable transfers share: their exceptions, with \<open>ResumableTransferDisposition\<close> of
  \<^verbatim>\<open>boto/exception.py\<close>, methods as functions of the handler's state, responses, and the byte ranges of
  HTTP headers.
\<close>

datatype disposition = START_OVER | WAIT_BEFORE_RETRY | ABORT_CUR_PROCESS | ABORT

text \<open>
  The exceptions by the clauses that catch them: \<open>ResumableUploadException\<close> and
  \<open>ResumableDownloadException\<close>; \<open>httplib.IncompleteRead\<close> and every other \<open>httplib.HTTPException\<close>;
  \<open>socket.error\<close> (an \<open>IOError\<close> of Python 2.7, told apart when its \<open>errno\<close> is \<open>EPIPE\<close>); other \<open>IOError\<close>s;
  \<open>StorageResponseError\<close> with its status; and exceptions that no handler catches.
\<close>

datatype transfer_exc =
    Resumable disposition
  | IncompleteRead
  | HTTPError
  | SocketError bool
  | FileError
  | OSErr
  | ResponseError nat
  | Raised py_exc

type_synonym ('s, 'a) xfer = "'s \<Rightarrow> (transfer_exc + 'a) \<times> 's"

definition xfer_bind :: "('s, 'a) xfer \<Rightarrow> ('a \<Rightarrow> ('s, 'b) xfer) \<Rightarrow> ('s, 'b) xfer" where
  "xfer_bind m f s = (case m s of (Inl e, t) \<Rightarrow> (Inl e, t) | (Inr x, t) \<Rightarrow> f x t)"

definition xfer_lift :: "'a res \<Rightarrow> ('s, 'a) xfer" where
  "xfer_lift r s = (case r of Inl e \<Rightarrow> (Inl (Raised e), s) | Inr x \<Rightarrow> (Inr x, s))"

lemma xfer_lift_simps [simp]:
  "xfer_lift (Inl e) s = (Inl (Raised e), s)" "xfer_lift (Inr x) s = (Inr x, s)"
  by (simp_all add: xfer_lift_def)

lemma xfer_bind_Inr: "m s = (Inr x, t) \<Longrightarrow> xfer_bind m f s = f x t"
  by (simp add: xfer_bind_def)

lemma xfer_bind_Inl: "m s = (Inl e, t) \<Longrightarrow> xfer_bind m f s = (Inl e, t)"
  by (simp add: xfer_bind_def)

lemma xfer_bind_cases:
  assumes "xfer_bind m f s = (r, u)"
  obtains e where "m s = (Inl e, u)" "r = Inl e" | x t where "m s = (Inr x, t)" "f x t = (r, u)"
  using assms by (cases "m s"; cases "fst (m s)") (auto simp: xfer_bind_def)

text \<open>\<open>RETRYABLE_EXCEPTIONS\<close>: \<open>HTTPException\<close> and \<open>IOError\<close> with its subclasses.\<close>

primrec retryable :: "transfer_exc \<Rightarrow> bool" where
  "retryable (Resumable d) = False"
| "retryable IncompleteRead = True"
| "retryable HTTPError = True"
| "retryable (SocketError p) = True"
| "retryable FileError = True"
| "retryable OSErr = False"
| "retryable (ResponseError n) = False"
| "retryable (Raised e) = False"

record service_response =
  sr_status :: nat
  sr_headers :: "(string, string) dict"

definition response_header :: "service_response \<Rightarrow> string \<Rightarrow> string option" where
  "response_header r name = map_of (sr_headers r) (str_lower name)"

text \<open>A key's MD5 in hexadecimal, from its \<open>local_hashes\<close>.\<close>

definition key_md5 :: "(string, string) dict \<Rightarrow> string option" where
  "key_md5 hashes = (case map_of hashes ''md5'' of None \<Rightarrow> None | Some d \<Rightarrow> if d = [] then None else Some (hexlify d))"

text \<open>\<open>etag.strip('"\'')\<close>.\<close>

definition strip_quotes :: "string \<Rightarrow> string" where
  "strip_quotes s = rev (dropWhile (\<lambda>c. c \<in> {CHR 0x22, CHR 0x27}) (rev (dropWhile (\<lambda>c. c \<in> {CHR 0x22, CHR 0x27}) s)))"

section \<open>Byte ranges\<close>

text \<open>A run of digits at the start, and what follows it.\<close>

definition leading_digits :: "string \<Rightarrow> (nat \<times> string) option" where
  "leading_digits s = (let d = takeWhile is_digit s
     in if d = [] then None else case digits_val 0 d of None \<Rightarrow> None | Some n \<Rightarrow> Some (n, dropWhile is_digit s))"

text \<open>\<open>re.search('bytes=(\d+)-(\d+)', s)\<close>.\<close>

definition match_range :: "string \<Rightarrow> (nat \<times> nat) option" where
  "match_range s =
     (if str_startswith s ''bytes=''
      then case leading_digits (drop 6 s) of
             Some (a, CHR ''-'' # t) \<Rightarrow> (case leading_digits t of Some (b, _) \<Rightarrow> Some (a, b) | None \<Rightarrow> None)
           | _ \<Rightarrow> None
      else None)"

fun search_range :: "string \<Rightarrow> (nat \<times> nat) option" where
  "search_range [] = None"
| "search_range (c # s) = (case match_range (c # s) of Some r \<Rightarrow> Some r | None \<Rightarrow> search_range s)"

lemma leading_digits_nat:
  assumes "t = [] \<or> \<not> is_digit (hd t)"
  shows "leading_digits (nat_str n @ t) = Some (n, t)"
proof -
  have d: "\<forall>c \<in> set (nat_str n). is_digit c"
  proof
    fix c assume "c \<in> set (nat_str n)"
    from nat_str_digits [OF this] show "is_digit c" by (simp add: is_digit_def)
  qed
  then have "takeWhile is_digit (nat_str n @ t) = nat_str n" "dropWhile is_digit (nat_str n @ t) = t"
    using assms by (cases t; simp)+
  then show ?thesis by (simp add: leading_digits_def digits_val_nat_str)
qed

lemma search_range_bytes: "search_range (''bytes='' @ nat_str a @ ''-'' @ nat_str b) = Some (a, b)"
proof -
  have 1: "leading_digits (nat_str a @ ''-'' @ nat_str b) = Some (a, ''-'' @ nat_str b)"
    by (rule leading_digits_nat) (simp add: is_digit_def)
  have 2: "leading_digits (nat_str b) = Some (b, [])" using leading_digits_nat [of "[]" b] by simp
  have "match_range (''bytes='' @ nat_str a @ ''-'' @ nat_str b) = Some (a, b)"
    using 1 2 by (simp add: match_range_def str_startswith_def)
  then show ?thesis by simp
qed

end
