(* ===== verification/GS_Upload.thy ===== *)
theory GS_Upload
  imports Transfer_Base
begin

text \<open>
  Resumable uploads to Google Storage: \<open>ResumableUploadHandler\<close> of
  \<^verbatim>\<open>boto/gs/resumable_upload_handler.py\<close>.

  The storage service, with the connections to it, is a record of operations on a state \<open>'w\<close> that every
  operation may change and that decides what it answers; the local file is in memory, and the tracker
  file is its contents, if it exists.  The hash objects of all algorithms are fed the same bytes, so one
  byte string stands for all of them.  The retry loop need not end, so it is a partial function.
\<close>

section \<open>The handler and its surroundings\<close>

record 'w gs_service =
  start_post :: "headers \<Rightarrow> 'w \<Rightarrow> (transfer_exc + service_response) \<times> 'w"
  query_put :: "string \<Rightarrow> string \<Rightarrow> (string, string) dict \<Rightarrow> 'w \<Rightarrow> (transfer_exc + service_response) \<times> 'w"
  begin_put :: "string \<Rightarrow> string \<Rightarrow> headers \<Rightarrow> 'w \<Rightarrow> (transfer_exc + unit) \<times> 'w"
  send_chunk :: "string \<Rightarrow> 'w \<Rightarrow> (transfer_exc + unit) \<times> 'w"
  put_response :: "'w \<Rightarrow> (transfer_exc + service_response) \<times> 'w"
  close_put :: "'w \<Rightarrow> 'w"
  close_pooled :: "'w \<Rightarrow> 'w"
  delete_key :: "'w \<Rightarrow> (transfer_exc + unit) \<times> 'w"

text \<open>
  \<open>has_tracker\<close> says whether a tracker file was named; \<open>H\<close> gives the digest of an algorithm.
\<close>

record 'w gs_env =
  service :: "'w gs_service"
  up_conn :: aws_conn
  up_gae :: bool
  up_version :: string
  has_tracker :: bool
  tracker_writable :: bool
  upload_header :: string
  H :: "string \<Rightarrow> string \<Rightarrow> string"
  hash_algs :: "string list"
  key_buffer_size :: nat
  has_cb :: bool
  num_cb :: int
  up_random :: "nat \<Rightarrow> real"

record 'w upload =
  tracker_uri :: "string option"
  tracker_uri_host :: string
  tracker_uri_path :: string
  tracker_file :: "string option"
  server_has_bytes :: int
  upload_start_point :: "int option"
  num_tries :: nat
  progress_less_iterations :: nat
  digesters :: string
  digesters_before_attempt :: string
  fp :: pyfile
  local_hashes :: "(string, string) dict"
  generations :: "string option \<times> string option"
  cb_calls :: "(int \<times> int) list"
  up_sleeps :: "real list"
  world :: 'w

type_synonym ('w, 'a) upx = "('w upload, 'a) xfer"

text \<open>An operation of the service, in the state of the handler.\<close>

definition on_service :: "('w \<Rightarrow> (transfer_exc + 'a) \<times> 'w) \<Rightarrow> ('w, 'a) upx" where
  "on_service f s = (case f (world s) of (r, w) \<Rightarrow> (r, s\<lparr>world := w\<rparr>))"

definition BUFFER_SIZE :: nat where
  "BUFFER_SIZE = 8192"

definition SERVER_HAS_NOTHING :: "int \<times> int" where
  "SERVER_HAS_NOTHING = (0, -1)"

section \<open>The tracker file\<close>

definition set_tracker_uri :: "string \<Rightarrow> ('w, unit) upx" where
  "set_tracker_uri uri s =
     (case urlparse uri of
        Inl e \<Rightarrow> (Inl (Raised e), s)
      | Inr u \<Rightarrow>
          if str_lower (url_scheme_of u) \<notin> {''http'', ''https''} \<or> url_netloc_of u = []
          then (Inl (Raised (Boto_Error ''InvalidUriError'')), s)
          else (Inr (), s\<lparr>tracker_uri := Some uri, tracker_uri_host := url_netloc_of u,
                          tracker_uri_path := url_path_of u @ ''?'' @ url_query_of u, server_has_bytes := 0\<rparr>))"

text \<open>\<open>f.readline().strip()\<close> and its use; a file that cannot be read is as good as none.\<close>

definition first_line :: "string \<Rightarrow> string" where
  "first_line text = str_strip (takeWhile (\<lambda>c. c \<noteq> CHR 0x0A) text)"

definition load_tracker_uri_from_file :: "('w, unit) upx" where
  "load_tracker_uri_from_file s =
     (case tracker_file s of
        None \<Rightarrow> (Inr (), s)
      | Some text \<Rightarrow>
          (case set_tracker_uri (first_line text) s of
             (Inl (Raised (Boto_Error _)), t) \<Rightarrow> (Inr (), t)
           | (r, t) \<Rightarrow> (r, t)))"

definition upload_init :: "bool \<Rightarrow> nat option \<Rightarrow> string option \<Rightarrow> pyfile \<Rightarrow> 'w \<Rightarrow> (transfer_exc + unit) \<times> 'w upload" where
  "upload_init named retries text f w =
     (let s = \<lparr>tracker_uri = None, tracker_uri_host = [], tracker_uri_path = [], tracker_file = text, server_has_bytes = 0,
               upload_start_point = None, num_tries = (case retries of None \<Rightarrow> 0 | Some n \<Rightarrow> n), progress_less_iterations = 0,
               digesters = [], digesters_before_attempt = [], fp = f, local_hashes = [], generations = (None, None),
               cb_calls = [], up_sleeps = [], world = w\<rparr>
      in if named then load_tracker_uri_from_file s else (Inr (), s))"

text \<open>
  The file is opened without \<open>O_TRUNC\<close>: what it held beyond the new text stays.  \<open>os.open\<close> raises
  \<open>OSError\<close>, which the clause for \<open>IOError\<close> does not catch.
\<close>

definition save_tracker_uri_to_file :: "'w gs_env \<Rightarrow> ('w, unit) upx" where
  "save_tracker_uri_to_file E s =
     (if \<not> has_tracker E then (Inr (), s)
      else if \<not> tracker_writable E then (Inl OSErr, s)
      else let uri = the (tracker_uri s); old = (case tracker_file s of None \<Rightarrow> [] | Some t \<Rightarrow> t)
           in (Inr (), s\<lparr>tracker_file := Some (uri @ drop (length uri) old)\<rparr>))"

definition remove_tracker_file :: "'w gs_env \<Rightarrow> 'w upload \<Rightarrow> 'w upload" where
  "remove_tracker_file E s = (if has_tracker E then s\<lparr>tracker_file := None\<rparr> else s)"

definition get_upload_id :: "'w upload \<Rightarrow> string option" where
  "get_upload_id s = (case tracker_uri s of
     None \<Rightarrow> None
   | Some uri \<Rightarrow>
      (case find (\<lambda>i. str_startswith (drop i uri) ''?upload_id='') [0..<length uri] of
         None \<Rightarrow> None | Some i \<Rightarrow> Some (drop (i + length ''?upload_id='') uri)))"

section \<open>Asking the server\<close>

definition build_content_range_header :: "string \<Rightarrow> nat \<Rightarrow> string" where
  "build_content_range_header range_spec len = ''bytes '' @ range_spec @ ''/'' @ nat_str len"

definition query_server_state :: "'w gs_env \<Rightarrow> nat \<Rightarrow> ('w, service_response) upx" where
  "query_server_state E file_length s =
     on_service (query_put (service E) (tracker_uri_host s) (tracker_uri_path s)
       [(''Content-Range'', build_content_range_header ''*'' file_length), (''Content-Length'', ''0'')]) s"

definition server_pos :: "nat \<Rightarrow> service_response \<Rightarrow> transfer_exc + int \<times> int" where
  "server_pos file_length resp =
     (if sr_status resp = 200 then Inr (0, int file_length - 1)
      else if sr_status resp \<noteq> 308 then Inl (Resumable START_OVER)
      else case response_header resp ''range'' of
             None \<Rightarrow> Inr SERVER_HAS_NOTHING
           | Some r \<Rightarrow> if r = [] then Inr SERVER_HAS_NOTHING
               else (case search_range r of
                  None \<Rightarrow> Inl (Resumable START_OVER)
                | Some (a, b) \<Rightarrow> Inr (int a, int b)))"

definition query_server_pos :: "'w gs_env \<Rightarrow> nat \<Rightarrow> ('w, int \<times> int) upx" where
  "query_server_pos E file_length s =
     (case query_server_state E file_length s of
        (Inl e, t) \<Rightarrow> (Inl e, t)
      | (Inr resp, t) \<Rightarrow> (server_pos file_length resp, t))"

definition start_headers :: "'w gs_env \<Rightarrow> headers \<Rightarrow> transfer_exc + headers" where
  "start_headers E hs =
     (if \<exists>k \<in> set (map fst hs). str_lower k = ''content-length'' then Inl (Resumable ABORT)
      else Inr (AList.update (upload_header E) (HStr ''start'') hs))"

definition start_new_resumable_upload :: "'w gs_env \<Rightarrow> headers \<Rightarrow> ('w, unit) upx" where
  "start_new_resumable_upload E hs s =
     (let s = s\<lparr>server_has_bytes := 0\<rparr>
      in case start_headers E hs of
           Inl e \<Rightarrow> (Inl e, s)
         | Inr post_headers \<Rightarrow>
            (case on_service (start_post (service E) post_headers) s of
               (Inl e, t) \<Rightarrow> (Inl e, t)
             | (Inr resp, t) \<Rightarrow>
                 if sr_status resp \<in> {500, 503} then (Inl (Resumable WAIT_BEFORE_RETRY), t)
                 else if sr_status resp \<notin> {200, 201} then (Inl (Resumable ABORT), t)
                 else if \<not> str_true (response_header resp ''Location'') then (Inl (Resumable WAIT_BEFORE_RETRY), t)
                 else xfer_bind (set_tracker_uri (the (response_header resp ''Location''))) (\<lambda>_. save_tracker_uri_to_file E) t))"

section \<open>Sending the file\<close>

definition read_fp :: "nat \<Rightarrow> 'w upload \<Rightarrow> string \<times> 'w upload" where
  "read_fp n s = (case file_read n (fp s) of (d, f) \<Rightarrow> (d, s\<lparr>fp := f\<rparr>))"

definition seek_fp :: "nat \<Rightarrow> 'w upload \<Rightarrow> 'w upload" where
  "seek_fp n s = s\<lparr>fp := (fp s)\<lparr>file_pos := n\<rparr>\<rparr>"

definition put_headers :: "nat \<Rightarrow> int \<Rightarrow> headers \<Rightarrow> headers" where
  "put_headers file_length start hs =
     (let hs = (if file_length \<noteq> 0
                then AList.update ''Content-Range''
                  (HStr (build_content_range_header
                     (if start = int file_length then ''*'' else str_int start @ ''-'' @ nat_str (file_length - 1)) file_length)) hs
                else hs)
      in AList.update ''Content-Length'' (HStr (str_int (int file_length - start))) hs)"

text \<open>How many buffers to send between two calls of the callback, and a call.\<close>

definition cb_interval :: "nat \<Rightarrow> int \<Rightarrow> int" where
  "cb_interval file_length n =
     (if 2 < n then int file_length div int BUFFER_SIZE div (n - 2) else if n < 0 then -1 else 0)"

definition call_cb :: "'w gs_env \<Rightarrow> int \<Rightarrow> nat \<Rightarrow> 'w upload \<Rightarrow> 'w upload" where
  "call_cb E sent file_length s = (if has_cb E then s\<lparr>cb_calls := cb_calls s @ [(sent, int file_length)]\<rparr> else s)"

lemma read_fp_rest:
  "read_fp n s = (take n (file_rest (fp s)), s\<lparr>fp := (fp s)\<lparr>file_pos := file_pos (fp s) + min n (length (file_rest (fp s)))\<rparr>\<rparr>)"
  by (simp add: read_fp_def file_read_rest)

lemma read_fp_shrinks:
  "(d, t) = read_fp n s \<Longrightarrow> length d + length (file_rest (fp t)) = length (file_rest (fp s))"
  by (auto simp: read_fp_rest file_rest_def)

lemma on_service_fp: "(r, t) = on_service f s \<Longrightarrow> fp t = fp s"
  by (auto simp: on_service_def split: prod.splits)

lemma call_cb_fp [simp]: "fp (call_cb E sent n s) = fp s"
  by (simp add: call_cb_def)

text \<open>The loop \<open>while buf\<close>; \<open>i\<close> counts the buffers since the last callback.\<close>

function send_loop :: "'w gs_env \<Rightarrow> nat \<Rightarrow> string \<Rightarrow> int \<Rightarrow> int \<Rightarrow> ('w, int) upx" where
  "send_loop E file_length buf sent i s =
     (if buf = [] then (Inr sent, s)
      else case on_service (send_chunk (service E) buf) s of
             (Inl e, t) \<Rightarrow> (Inl e, t)
           | (Inr _, t) \<Rightarrow>
               (let t = t\<lparr>digesters := digesters t @ buf\<rparr>; sent = sent + int (length buf);
                    now = (has_cb E \<and> (i + 1 = cb_interval file_length (num_cb E) \<or> cb_interval file_length (num_cb E) = -1));
                    t = (if now then call_cb E sent file_length t else t)
                in case read_fp BUFFER_SIZE t of
                     (buf', u) \<Rightarrow> send_loop E file_length buf' sent (if now then 0 else i + 1) u))"
  by pat_completeness auto
termination
  by (relation "measure (\<lambda>(E, n, buf, sent, i, s). length buf + length (file_rest (fp s)))")
    (fastforce dest!: read_fp_shrinks on_service_fp split: if_splits)+

declare send_loop.simps [simp del]

definition upload_file_bytes :: "'w gs_env \<Rightarrow> nat \<Rightarrow> int \<Rightarrow> headers \<Rightarrow> ('w, string option \<times> string option \<times> string option) upx" where
  "upload_file_bytes E file_length start hs s =
     (case read_fp BUFFER_SIZE s of (buf, s) \<Rightarrow>
       (let s = call_cb E start file_length s; hs = put_headers file_length start hs
        in xfer_bind (xfer_lift (build_base_http_request (up_gae E) (up_version E) (up_conn E) ''PUT'' (tracker_uri_path s) None None
               (Some hs) [] (tracker_uri_host s))) (\<lambda>req.
           xfer_bind (on_service (begin_put (service E) (tracker_uri_host s) (req_path req) hs)) (\<lambda>_.
           xfer_bind (send_loop E file_length buf start 0) (\<lambda>sent s.
             let s = call_cb E sent file_length s
             in if sent \<noteq> int file_length then (Inl (Resumable ABORT), s)
                else (case on_service (put_response (service E)) s of
                        (Inl e, t) \<Rightarrow> (Inl e, t)
                      | (Inr resp, t) \<Rightarrow>
                          if sr_status resp = 200
                          then (Inr (response_header resp ''etag'', response_header resp ''x-goog-generation'',
                                     response_header resp ''x-goog-metageneration''), t)
                          else if sr_status resp \<in> {408, 500, 503} then (Inl (Resumable WAIT_BEFORE_RETRY), t)
                          else (Inl (Resumable ABORT), t))))) s))"

section \<open>An attempt\<close>

text \<open>The loop that hashes the bytes that the server has, \<open>n\<close> still to go.\<close>

function catch_up :: "'w gs_env \<Rightarrow> nat \<Rightarrow> ('w, unit) upx" where
  "catch_up E n s =
     (if n = 0 then (Inr (), s)
      else case read_fp (min (key_buffer_size E) n) s of
             (chunk, t) \<Rightarrow>
               if chunk = [] then (Inl (Resumable START_OVER), t)
               else catch_up E (n - length chunk) (t\<lparr>digesters := digesters t @ chunk\<rparr>))"
  by pat_completeness auto
termination
  by (relation "measure (\<lambda>(E, n, s). n)") auto

declare catch_up.simps [simp del]

text \<open>
  Trying to resume: the value is what the server has, and the exception, if any, of the query or of the
  catching up.
\<close>

definition try_resume :: "'w gs_env \<Rightarrow> nat \<Rightarrow> 'w upload \<Rightarrow> (transfer_exc option \<times> int) \<times> 'w upload" where
  "try_resume E file_length s =
     (case query_server_pos E file_length s of
        (Inl e, t) \<Rightarrow> ((Some e, snd SERVER_HAS_NOTHING), t)
      | (Inr (server_start, server_end), t) \<Rightarrow>
          (let t = t\<lparr>server_has_bytes := server_start\<rparr>
           in if server_end \<noteq> 0
              then (case catch_up E (nat (server_end + 1)) (seek_fp 0 t) of
                      (Inl e, u) \<Rightarrow> ((Some e, server_end), u)
                    | (Inr _, u) \<Rightarrow> ((None, server_end), u))
              else ((None, server_end), t)))"

definition server_end_of :: "'w gs_env \<Rightarrow> nat \<Rightarrow> headers \<Rightarrow> ('w, int) upx" where
  "server_end_of E file_length hs s =
     (if \<not> str_true (tracker_uri s)
      then xfer_bind (start_new_resumable_upload E hs) (\<lambda>_ t. (Inr (snd SERVER_HAS_NOTHING), t)) s
      else case try_resume E file_length s of
             ((None, server_end), t) \<Rightarrow> (Inr server_end, t)
           | ((Some (Resumable d), server_end), t) \<Rightarrow>
               xfer_bind (start_new_resumable_upload E hs) (\<lambda>_ u. (Inr server_end, u)) t
           | ((Some e, _), t) \<Rightarrow> (Inl e, t))"

text \<open>The exceptions after which the state of the server is asked for.\<close>

definition upload_failed :: "'w gs_env \<Rightarrow> nat \<Rightarrow> transfer_exc \<Rightarrow> ('w, 'a) upx" where
  "upload_failed E file_length e s =
     (case e of
        Raised _ \<Rightarrow> (Inl e, s) | HTTPError \<Rightarrow> (Inl e, s) | IncompleteRead \<Rightarrow> (Inl e, s) | ResponseError _ \<Rightarrow> (Inl e, s) | FileError \<Rightarrow> (Inl e, s) | OSErr \<Rightarrow> (Inl e, s)
      | _ \<Rightarrow> (case query_server_state E file_length s of
                (Inl e', t) \<Rightarrow> (Inl e', t)
              | (Inr resp, t) \<Rightarrow> (Inl (if sr_status resp = 400 then Resumable ABORT else e), t)))"

definition send_from :: "'w gs_env \<Rightarrow> nat \<Rightarrow> headers \<Rightarrow> int \<Rightarrow> ('w, string option \<times> string option \<times> string option) upx" where
  "send_from E file_length hs server_end s =
     (let s = s\<lparr>upload_start_point := (case upload_start_point s of None \<Rightarrow> Some server_end | p \<Rightarrow> p)\<rparr>;
          start = server_end + 1;
          s = (if int file_length < start then seek_fp (nat start) s else s);
          (r, t) = (case upload_file_bytes E file_length start hs s of
                      (Inl e, t) \<Rightarrow> upload_failed E file_length e t
                    | (Inr x, t) \<Rightarrow> (Inr x, t))
      in (r, t\<lparr>world := close_put (service E) (world t)\<rparr>))"

definition attempt_resumable_upload :: "'w gs_env \<Rightarrow> nat \<Rightarrow> headers \<Rightarrow> ('w, string option \<times> string option \<times> string option) upx" where
  "attempt_resumable_upload E file_length hs =
     xfer_bind (server_end_of E file_length hs) (\<lambda>server_end. send_from E file_length hs server_end)"

section \<open>The retry loop\<close>

definition check_final_md5 :: "'w gs_env \<Rightarrow> string option \<Rightarrow> ('w, unit) upx" where
  "check_final_md5 E etag s =
     (case etag of
        None \<Rightarrow> (Inl (Raised AttributeError), s)
      | Some tag \<Rightarrow>
          if key_md5 (local_hashes s) \<noteq> Some (strip_quotes tag)
          then (case on_service (delete_key (service E)) s of
                  (Inl e, t) \<Rightarrow> (Inl e, t)
                | (Inr _, t) \<Rightarrow> (Inl (Resumable ABORT), t))
          else (Inr (), s))"

definition finish_upload :: "'w gs_env \<Rightarrow> string option \<times> string option \<times> string option \<Rightarrow> ('w, unit) upx" where
  "finish_upload E answer s =
     (case answer of (etag, gen, metagen) \<Rightarrow>
       let s = s\<lparr>generations := (gen, metagen)\<rparr>;
           s = s\<lparr>local_hashes := fold (\<lambda>alg d. AList.update alg (H E alg (digesters s)) d) (hash_algs E) (local_hashes s)\<rparr>
       in check_final_md5 E etag (remove_tracker_file E s))"

text \<open>What the handlers of the loop do with an exception: raise it, or go on.\<close>

definition handle_upload_exception :: "'w gs_env \<Rightarrow> transfer_exc \<Rightarrow> 'w upload \<Rightarrow> (transfer_exc + unit) \<times> 'w upload" where
  "handle_upload_exception E e s =
     (case e of
        Resumable ABORT_CUR_PROCESS \<Rightarrow> (Inl e, s)
      | Resumable ABORT \<Rightarrow> (Inl e, remove_tracker_file E s)
      | Resumable _ \<Rightarrow> (Inr (), s)
      | SocketError True \<Rightarrow> (Inr (), s\<lparr>world := close_pooled (service E) (world s)\<rparr>)
      | _ \<Rightarrow> if retryable e then (Inr (), s) else (Inl e, s))"

definition track_progress :: "'w gs_env \<Rightarrow> int \<Rightarrow> ('w, unit) upx" where
  "track_progress E before s =
     (let s = (if before < server_has_bytes s then s\<lparr>progress_less_iterations := 0\<rparr>
               else s\<lparr>progress_less_iterations := progress_less_iterations s + 1, digesters := digesters_before_attempt s\<rparr>)
      in if num_tries s < progress_less_iterations s then (Inl (Resumable ABORT_CUR_PROCESS), s)
         else (Inr (), s\<lparr>up_sleeps := up_sleeps s @ [up_random E (length (up_sleeps s)) * 2 ^ progress_less_iterations s]\<rparr>))"

text \<open>One round of \<open>while True\<close>: \<open>Inr True\<close> is the \<open>return\<close>.\<close>

definition upload_round :: "'w gs_env \<Rightarrow> nat \<Rightarrow> headers \<Rightarrow> ('w, bool) upx" where
  "upload_round E file_length hs s =
     (let before = server_has_bytes s; s = s\<lparr>digesters_before_attempt := digesters s\<rparr>
      in case xfer_bind (attempt_resumable_upload E file_length hs) (finish_upload E) s of
           (Inr _, t) \<Rightarrow> (Inr True, t)
         | (Inl e, t) \<Rightarrow>
             xfer_bind (handle_upload_exception E e) (\<lambda>_. xfer_bind (track_progress E before) (\<lambda>_ u. (Inr False, u))) t)"

partial_function (option) upload_loop :: "'w gs_env \<Rightarrow> nat \<Rightarrow> headers \<Rightarrow> 'w upload \<Rightarrow> ((transfer_exc + unit) \<times> 'w upload) option" where
  "upload_loop E file_length hs s =
     (case upload_round E file_length hs s of
        (Inl e, t) \<Rightarrow> Some (Inl e, t)
      | (Inr stop, t) \<Rightarrow> if stop then Some (Inr (), t) else upload_loop E file_length hs t)"

definition send_headers :: "string \<Rightarrow> headers \<Rightarrow> headers" where
  "send_headers agent hs =
     (let hs = (if map_of hs ''Content-Type'' = Some HNone then AList.delete ''Content-Type'' hs else hs)
      in AList.update ''User-Agent'' (HStr agent) hs)"

text \<open>\<open>retries\<close> is the number given to the constructor, \<open>cfg\<close> the configured one.\<close>

definition send_file :: "'w gs_env \<Rightarrow> string \<Rightarrow> nat option \<Rightarrow> nat \<Rightarrow> headers \<Rightarrow> 'w upload \<Rightarrow> ((transfer_exc + unit) \<times> 'w upload) option" where
  "send_file E agent retries cfg hs s =
     (let s = seek_fp 0 s
      in upload_loop E (length (file_data (fp s))) (send_headers agent hs)
           (s\<lparr>digesters := [], num_tries := (case retries of None \<Rightarrow> cfg | Some n \<Rightarrow> n), progress_less_iterations := 0\<rparr>))"

section \<open>What an upload leaves behind\<close>

text \<open>
  What holds of the handler in every round, for the data \<open>D\<close>, if the service's ranges start at 0: it never
  sees progress, so a failed round takes back what was hashed; and the file is never positioned after its
  first byte.
\<close>

definition up_ok :: "string \<Rightarrow> nat \<times> nat \<times> real list \<Rightarrow> 'w upload \<Rightarrow> bool" where
  "up_ok D k s \<longleftrightarrow> k = (num_tries s, progress_less_iterations s, up_sleeps s) \<and> file_data (fp s) = D \<and> server_has_bytes s = 0 \<and> digesters_before_attempt s = []
     \<and> (2 \<le> length D \<longrightarrow> file_pos (fp s) \<noteq> 1)"

definition ranges_from_zero :: "'w gs_env \<Rightarrow> bool" where
  "ranges_from_zero E \<longleftrightarrow> (\<forall>h p hs w resp w' n a b.
     query_put (service E) h p hs w = (Inr resp, w') \<longrightarrow> server_pos n resp = Inr (a, b) \<longrightarrow> a = 0)"

lemma on_service_world: "on_service f s = (r, t) \<Longrightarrow> \<exists>w. t = s\<lparr>world := w\<rparr>"
  by (auto simp: on_service_def split: prod.splits)

lemma up_ok_world [simp]: "up_ok D k (s\<lparr>world := w\<rparr>) = up_ok D k s"
  and up_ok_digesters [simp]: "up_ok D k (s\<lparr>digesters := d\<rparr>) = up_ok D k s"
  and up_ok_tracker [simp]: "up_ok D k (s\<lparr>tracker_file := f\<rparr>) = up_ok D k s"
  and up_ok_cb [simp]: "up_ok D k (call_cb E sent n s) = up_ok D k s"
  and up_ok_remove [simp]: "up_ok D k (remove_tracker_file E s) = up_ok D k s"
  by (simp_all add: up_ok_def call_cb_def remove_tracker_file_def)

lemma on_service_ok: "on_service f s = (r, t) \<Longrightarrow> up_ok D k t = up_ok D k s \<and> digesters t = digesters s \<and> fp t = fp s"
  by (auto dest!: on_service_world)

lemma call_cb_digesters [simp]: "digesters (call_cb E sent n s) = digesters s"
  by (simp add: call_cb_def)

lemma read_fp_split:
  assumes "read_fp n s = (d, t)"
  shows "d @ file_rest (fp t) = file_rest (fp s)"
proof -
  have "file_rest (fp t) = drop (min n (length (file_rest (fp s)))) (file_rest (fp s))" "d = take n (file_rest (fp s))"
    using assms by (auto simp: read_fp_rest file_rest_def add.commute)
  moreover have "drop (min n (length xs)) xs = drop n xs" for xs :: string by (simp add: min_def)
  ultimately show ?thesis by simp
qed

lemma read_fp_ok:
  assumes "up_ok D k s" "read_fp BUFFER_SIZE s = (d, t)"
  shows "up_ok D k t \<and> digesters t = digesters s \<and> d @ file_rest (fp t) = file_rest (fp s)"
proof -
  have "file_pos (fp s) + min BUFFER_SIZE (length D - file_pos (fp s)) \<noteq> 1" if "2 \<le> length D"
    using assms(1) that by (auto simp: up_ok_def BUFFER_SIZE_def min_def)
  then have "up_ok D k t \<and> digesters t = digesters s"
    using assms by (auto simp: read_fp_rest up_ok_def file_rest_def)
  then show ?thesis using read_fp_split [OF assms(2)] by simp
qed

lemma read_fp_nonempty: "read_fp BUFFER_SIZE s = ([], t) \<Longrightarrow> file_rest (fp s) = []"
  by (simp add: read_fp_rest BUFFER_SIZE_def)

lemma send_loop_ok:
  "up_ok D k s \<Longrightarrow> (buf = [] \<longrightarrow> file_rest (fp s) = []) \<Longrightarrow> send_loop E n buf sent i s = (r, t) \<Longrightarrow>
     up_ok D k t \<and> (\<forall>x. r = Inr x \<longrightarrow>
       x = sent + int (length (buf @ file_rest (fp s))) \<and> digesters t = digesters s @ buf @ file_rest (fp s))"
proof (induction E n buf sent i s arbitrary: r t rule: send_loop.induct)
  case (1 E n buf sent i s)
  show ?case
  proof (cases "buf = []")
    case True
    then show ?thesis using "1.prems" by (auto simp: send_loop.simps)
  next
    case False
    let ?now = "has_cb E \<and> (i + 1 = cb_interval n (num_cb E) \<or> cb_interval n (num_cb E) = -1)"
    obtain r1 t1 where sent: "on_service (send_chunk (service E) buf) s = (r1, t1)" by fastforce
    note ok1 = on_service_ok [OF sent, of D k]
    show ?thesis
    proof (cases r1)
      case (Inl e)
      then show ?thesis using False "1.prems" sent ok1 by (auto simp: send_loop.simps)
    next
      case (Inr u)
      define t2 where "t2 = t1\<lparr>digesters := digesters t1 @ buf\<rparr>"
      define t3 where "t3 = (if ?now then call_cb E (sent + int (length buf)) n t2 else t2)"
      obtain buf' t4 where read: "read_fp BUFFER_SIZE t3 = (buf', t4)" by fastforce
      have ok3: "up_ok D k t3" "digesters t3 = digesters s @ buf" "fp t3 = fp s"
        using ok1 "1.prems"(1) by (simp_all add: t3_def t2_def)
      note ok4 = read_fp_ok [OF ok3(1) read]
      have rest: "buf' = [] \<longrightarrow> file_rest (fp t4) = []"
        using read_fp_nonempty [of t3 t4] read ok4 by auto
      have loop: "send_loop E n buf' (sent + int (length buf)) (if ?now then 0 else i + 1) t4 = (r, t)"
        using "1.prems"(3) False sent Inr read
        by (subst (asm) send_loop.simps) (simp add: Let_def t2_def t3_def cong: if_cong)
      have "up_ok D k t \<and> (\<forall>x. r = Inr x \<longrightarrow>
          x = sent + int (length buf) + int (length (buf' @ file_rest (fp t4))) \<and> digesters t = digesters t4 @ buf' @ file_rest (fp t4))"
        by (rule "1.IH" [OF False sent [symmetric] Inr t2_def refl refl t3_def read [symmetric] _ rest loop]) (use ok4 in blast)
      then show ?thesis using ok3 ok4 by (auto simp: add.assoc)
    qed
  qed
qed


lemma upload_file_bytes_ok:
  assumes "up_ok D k s" "upload_file_bytes E n start hs s = (r, t)"
  shows "up_ok D k t \<and> (\<forall>x. r = Inr x \<longrightarrow>
    start + int (length (file_rest (fp s))) = int n \<and> digesters t = digesters s @ file_rest (fp s))"
proof -
  obtain buf s1 where read: "read_fp BUFFER_SIZE s = (buf, s1)" by fastforce
  note ok1 = read_fp_ok [OF assms(1) read]
  have rest: "buf = [] \<longrightarrow> file_rest (fp s1) = []" using read_fp_nonempty [of s s1] read ok1 by auto
  let ?s2 = "call_cb E start n s1" and ?hs = "put_headers n start hs"
  have ok2: "up_ok D k ?s2" "digesters ?s2 = digesters s" using ok1 by simp_all
  show ?thesis
  proof (cases "build_base_http_request (up_gae E) (up_version E) (up_conn E) ''PUT'' (tracker_uri_path ?s2) None None (Some ?hs) [] (tracker_uri_host ?s2)")
    case (Inl e)
    then show ?thesis using assms(2) ok2 by (auto simp: upload_file_bytes_def read Let_def xfer_bind_def)
  next
    case (Inr req)
    obtain r3 t3 where began: "on_service (begin_put (service E) (tracker_uri_host ?s2) (req_path req) ?hs) ?s2 = (r3, t3)" by fastforce
    have ok3: "up_ok D k t3" "digesters t3 = digesters s" "fp t3 = fp s1"
      using on_service_ok [OF began, of D k] ok2 by simp_all
    show ?thesis
    proof (cases r3)
      case (Inl e)
      then show ?thesis using assms(2) Inr began ok3 by (auto simp: upload_file_bytes_def read Let_def xfer_bind_def)
    next
      case (Inr u)
      obtain r4 t4 where loop: "send_loop E n buf start 0 t3 = (r4, t4)" by fastforce
      have rest3: "buf = [] \<longrightarrow> file_rest (fp t3) = []" using rest ok3(3) by simp
      note ok4 = send_loop_ok [OF ok3(1) rest3 loop]
      show ?thesis
      proof (cases r4)
        case (Inl e)
        then show ?thesis using assms(2) \<open>build_base_http_request _ _ _ _ _ _ _ _ _ _ = _\<close> began Inr loop ok4
          by (auto simp: upload_file_bytes_def read Let_def xfer_bind_def)
      next
        case sent: (Inr x)
        obtain r5 t5 where resp: "on_service (put_response (service E)) (call_cb E x n t4) = (r5, t5)" by fastforce
        have ok5: "up_ok D k t5" "digesters t5 = digesters t4" using on_service_ok [OF resp, of D k] ok4 by simp_all
        have "up_ok D k t \<and> (\<forall>y. r = Inr y \<longrightarrow> x = int n \<and> digesters t = digesters t4)"
          using assms(2) \<open>build_base_http_request _ _ _ _ _ _ _ _ _ _ = _\<close> began Inr loop sent resp ok4 ok5
          by (auto simp: upload_file_bytes_def read Let_def xfer_bind_def split: if_splits sum.splits)
        then show ?thesis using ok4 ok3 ok1 sent by auto
      qed
    qed
  qed
qed

text \<open>Catching up stops after \<open>n\<close> bytes, or at the end of the file.\<close>

lemma catch_up_result:
  "catch_up E n s = (r, t) \<Longrightarrow>
     t = s\<lparr>fp := fp t, digesters := digesters t\<rparr> \<and> file_data (fp t) = file_data (fp s)
     \<and> (if r = Inr () then n \<le> length (file_rest (fp s)) \<and> digesters t = digesters s @ take n (file_rest (fp s))
                        \<and> file_pos (fp t) = file_pos (fp s) + n
        else r = Inl (Resumable START_OVER) \<and> (key_buffer_size E = 0 \<and> fp t = fp s \<or> file_rest (fp t) = [] \<and> length (file_rest (fp s)) < n))"
proof (induction E n s arbitrary: r t rule: catch_up.induct)
  case (1 E n s)
  obtain chunk s1 where read: "read_fp (min (key_buffer_size E) n) s = (chunk, s1)" by fastforce
  let ?m = "min (key_buffer_size E) n"
  have chunk: "chunk = take ?m (file_rest (fp s))" and s1: "s1 = s\<lparr>fp := (fp s)\<lparr>file_pos := file_pos (fp s) + length chunk\<rparr>\<rparr>"
    using read by (auto simp: read_fp_rest min.commute)
  consider "n = 0" | "n \<noteq> 0" "chunk = []" | "n \<noteq> 0" "chunk \<noteq> []" by blast
  then show ?case
  proof cases
    case 1
    then have "r = Inr () \<and> t = s" using "1.prems" by (subst (asm) catch_up.simps) auto
    then show ?thesis using 1 by simp
  next
    case 2
    then have "s1 = s" using s1 by simp
    then have "r = Inl (Resumable START_OVER) \<and> t = s" using "1.prems" 2 read by (subst (asm) catch_up.simps) auto
    moreover have "file_rest (fp s) = [] \<or> key_buffer_size E = 0" using chunk 2 by (auto simp: min_def split: if_splits)
    ultimately show ?thesis using 2(1) by auto
  next
    case 3
    let ?s2 = "s1\<lparr>digesters := digesters s1 @ chunk\<rparr>"
    have rec: "catch_up E (n - length chunk) ?s2 = (r, t)"
      using "1.prems" 3 read by (subst (asm) catch_up.simps) simp
    note IH = "1.IH" [OF 3(1) read [symmetric] 3(2) rec]
    have rest: "file_rest (fp s) = chunk @ file_rest (fp ?s2)" using read_fp_split [OF read] by simp
    have len: "length chunk \<le> n" "key_buffer_size E \<noteq> 0" using chunk 3(2) by (auto simp: min_def split: if_splits)
    have t: "t = s\<lparr>fp := fp t, digesters := digesters t\<rparr>" "file_data (fp t) = file_data (fp s)"
      using IH s1 by auto
    show ?thesis
    proof (cases "r = Inr ()")
      case True
      then show ?thesis using IH t s1 len unfolding rest by auto
    next
      case False
      then show ?thesis using IH t len unfolding rest by auto
    qed
  qed
qed

lemma set_tracker_ok: "up_ok D k s \<Longrightarrow> set_tracker_uri u s = (r, t) \<Longrightarrow> up_ok D k t \<and> digesters t = digesters s"
  by (auto simp: set_tracker_uri_def up_ok_def split: sum.splits if_splits)

lemma save_tracker_ok: "up_ok D k s \<Longrightarrow> save_tracker_uri_to_file E s = (r, t) \<Longrightarrow> up_ok D k t \<and> digesters t = digesters s"
  by (auto simp: save_tracker_uri_to_file_def Let_def split: if_splits)

lemma start_new_ok:
  assumes "up_ok D k s" "start_new_resumable_upload E hs s = (r, t)"
  shows "up_ok D k t \<and> digesters t = digesters s"
proof -
  let ?s = "s\<lparr>server_has_bytes := 0\<rparr>"
  have s: "up_ok D k ?s" "digesters ?s = digesters s" using assms(1) by (simp_all add: up_ok_def)
  show ?thesis
  proof (cases "start_headers E hs")
    case (Inl e)
    then show ?thesis using assms(2) s by (auto simp: start_new_resumable_upload_def Let_def)
  next
    case (Inr ph)
    obtain r1 t1 where post: "on_service (start_post (service E) ph) ?s = (r1, t1)" by fastforce
    have ok1: "up_ok D k t1" "digesters t1 = digesters s" using on_service_ok [OF post, of D k] s by simp_all
    show ?thesis
    proof (cases r1)
      case (Inl e)
      then show ?thesis using assms(2) Inr post ok1 by (auto simp: start_new_resumable_upload_def Let_def)
    next
      case resp: (Inr resp)
      consider "t = t1" | "xfer_bind (set_tracker_uri (the (response_header resp ''Location''))) (\<lambda>_. save_tracker_uri_to_file E) t1 = (r, t)"
        using assms(2) Inr post resp by (auto simp: start_new_resumable_upload_def Let_def split: if_splits)
      then show ?thesis
      proof cases
        case 1
        then show ?thesis using ok1 by simp
      next
        case 2
        then show ?thesis
        proof (cases rule: xfer_bind_cases)
          case (1 e)
          then show ?thesis using set_tracker_ok [OF ok1(1)] ok1(2) by metis
        next
          case (2 u t2)
          from set_tracker_ok [OF ok1(1) 2(1)] ok1(2) have "up_ok D k t2" "digesters t2 = digesters s" by simp_all
          with save_tracker_ok [OF _ 2(2)] show ?thesis by simp
        qed
      qed
    qed
  qed
qed

text \<open>Where an attempt may start, after what has been hashed and read.\<close>

definition starts_at :: "string \<Rightarrow> int \<Rightarrow> 'w upload \<Rightarrow> bool" where
  "starts_at D e s \<longleftrightarrow> int (length D) < e + 1 \<or> e \<le> 0 \<and> digesters s = []
     \<or> 0 < e \<and> digesters s = take (nat (e + 1)) D \<and> file_pos (fp s) = nat (e + 1)"

lemma query_pos_ok:
  assumes "up_ok D k s" "query_server_pos E n s = (r, t)"
  shows "up_ok D k t \<and> digesters t = digesters s"
proof -
  obtain q u where q: "query_server_state E n s = (q, u)" by fastforce
  then have "t = u" using assms(2) by (auto simp: query_server_pos_def split: sum.splits)
  then show ?thesis using on_service_ok [OF q [unfolded query_server_state_def], of D k] assms(1) by simp
qed

lemma query_pos_zero:
  assumes "ranges_from_zero E" "query_server_pos E n s = (Inr (a, b), t)"
  shows "a = 0 \<and> -1 \<le> b"
proof -
  obtain resp where q: "query_server_state E n s = (Inr resp, t)" and p: "server_pos n resp = Inr (a, b)"
    using assms(2) by (auto simp: query_server_pos_def split: prod.splits sum.splits)
  from q obtain w where "query_put (service E) (tracker_uri_host s) (tracker_uri_path s)
      [(''Content-Range'', build_content_range_header ''*'' n), (''Content-Length'', ''0'')] (world s) = (Inr resp, w)"
    by (auto simp: query_server_state_def on_service_def split: prod.splits)
  with assms(1) p have "a = 0" unfolding ranges_from_zero_def by blast
  moreover have "-1 \<le> b" using p
    by (auto simp: server_pos_def SERVER_HAS_NOTHING_def split: if_splits option.splits)
  ultimately show ?thesis by simp
qed

lemma try_resume_ok:
  assumes "up_ok D k s" "digesters s = []" "ranges_from_zero E" "0 < key_buffer_size E" "try_resume E (length D) s = ((x, e), t)"
  shows "up_ok D k t \<and> (x = None \<longrightarrow> -1 \<le> e \<and> starts_at D e t)
    \<and> (x \<noteq> None \<longrightarrow> e = -1 \<and> digesters t = [] \<or> (\<exists>d. x = Some d \<and> int (length D) < e + 1))"
proof -
  obtain q u where q: "query_server_pos E (length D) s = (q, u)" by fastforce
  have u: "up_ok D k u" "digesters u = []" using query_pos_ok [OF assms(1) q] assms(2) by simp_all
  show ?thesis
  proof (cases q)
    case (Inl err)
    then show ?thesis using assms(5) q u by (auto simp: try_resume_def SERVER_HAS_NOTHING_def)
  next
    case (Inr ab)
    then obtain b where b: "q = Inr (0, b)" "-1 \<le> b" using query_pos_zero [OF assms(3)] q by (cases ab) blast
    let ?u = "u\<lparr>server_has_bytes := 0\<rparr>"
    have u': "?u = u" using u by (cases u) (simp add: up_ok_def)
    show ?thesis
    proof (cases "b = 0")
      case True
      then show ?thesis using assms(5) q b u u' by (auto simp: try_resume_def starts_at_def)
    next
      case False
      obtain r v where c: "catch_up E (nat (b + 1)) (seek_fp 0 u) = (r, v)" by fastforce
      note res = catch_up_result [OF c]
      have D: "file_data (fp u) = D" "server_has_bytes u = 0" "digesters_before_attempt u = []"
        "k = (num_tries u, progress_less_iterations u, up_sleeps u)" using u by (simp_all add: up_ok_def)
      obtain f d where v: "v = (seek_fp 0 u)\<lparr>fp := f, digesters := d\<rparr>" using res by blast
      have f: "file_data f = D" "file_rest (fp (seek_fp 0 u)) = D"
        using res D by (auto simp: v seek_fp_def file_rest_def)
      have ok: "up_ok D k v" if "2 \<le> length D \<longrightarrow> file_pos f \<noteq> 1"
        using that D f by (simp add: v up_ok_def seek_fp_def)
      show ?thesis
      proof (cases "r = Inr ()")
        case True
        then have r: "nat (b + 1) \<le> length D" "d = take (nat (b + 1)) D" "file_pos f = nat (b + 1)"
          using res u(2) unfolding f(2) by (simp_all add: v seek_fp_def)
        have "starts_at D b v" using r False b(2) by (auto simp: starts_at_def v)
        moreover have "up_ok D k v" using r(3) False b(2) by (intro ok) auto
        ultimately show ?thesis using assms(5) q b u' c True False by (auto simp: try_resume_def)
      next
        case fails: False
        then have r: "r = Inl (Resumable START_OVER)" "file_rest f = []" "length D < nat (b + 1)"
          using res assms(4) unfolding f(2) by (simp_all add: v seek_fp_def)
        then have "up_ok D k v" using f(1) by (intro ok) (auto simp: file_rest_def)
        then show ?thesis using assms(5) q b u' c r False by (auto simp: try_resume_def)
      qed
    qed
  qed
qed

lemma server_end_ok:
  assumes "up_ok D k s" "digesters s = []" "ranges_from_zero E" "0 < key_buffer_size E"
    and "server_end_of E (length D) hs s = (r, t)"
  shows "up_ok D k t \<and> (\<forall>e. r = Inr e \<longrightarrow> -1 \<le> e \<and> starts_at D e t)"
proof (cases "str_true (tracker_uri s)")
  case False
  then have "xfer_bind (start_new_resumable_upload E hs) (\<lambda>_ t. (Inr (snd SERVER_HAS_NOTHING), t)) s = (r, t)"
    using assms(5) by (simp add: server_end_of_def)
  then show ?thesis
    by (cases rule: xfer_bind_cases)
      (use start_new_ok [OF assms(1)] assms(2) in \<open>fastforce simp: starts_at_def SERVER_HAS_NOTHING_def\<close>)+
next
  case True
  obtain x e u where tried: "try_resume E (length D) s = ((x, e), u)" by (metis prod.collapse)
  note ok = try_resume_ok [OF assms(1-4) tried]
  show ?thesis
  proof (cases "\<exists>d. x = Some (Resumable d)")
    case True
    then have "xfer_bind (start_new_resumable_upload E hs) (\<lambda>_ u. (Inr e, u)) u = (r, t)"
      using assms(5) \<open>str_true (tracker_uri s)\<close> tried by (auto simp: server_end_of_def)
    then show ?thesis
    proof (cases rule: xfer_bind_cases)
      case (1 err)
      then show ?thesis using start_new_ok ok by blast
    next
      case (2 a v)
      then have "up_ok D k t" "digesters t = digesters u" "r = Inr e" using start_new_ok ok by blast+
      then show ?thesis using ok True by (auto simp: starts_at_def)
    qed
  next
    case False
    have "r = (case x of None \<Rightarrow> Inr e | Some y \<Rightarrow> Inl y) \<and> t = u"
      using assms(5) \<open>str_true (tracker_uri s)\<close> tried False
      by (auto simp: server_end_of_def split: option.splits transfer_exc.splits)
    then show ?thesis using ok by (auto split: option.splits)
  qed
qed

lemma upload_failed_ok: "up_ok D k s \<Longrightarrow> upload_failed E n e s = (r, t) \<Longrightarrow> up_ok D k t \<and> (\<exists>e'. r = Inl e')"
proof -
  assume s: "up_ok D k s" and f: "upload_failed E n e s = (r, t)"
  obtain q u where q: "query_server_state E n s = (q, u)" by fastforce
  have "up_ok D k u" using on_service_ok [OF q [unfolded query_server_state_def], of D k] s by simp
  then show ?thesis using f s q by (auto simp: upload_failed_def split: transfer_exc.splits sum.splits)
qed

lemma send_from_ok:
  assumes "up_ok D k s" "-1 \<le> e" "starts_at D e s" "send_from E (length D) hs e s = (r, t)"
  shows "up_ok D k t \<and> (\<forall>x. r = Inr x \<longrightarrow> length D \<noteq> 1 \<longrightarrow> digesters t = D)"
proof -
  let ?s1 = "s\<lparr>upload_start_point := (case upload_start_point s of None \<Rightarrow> Some e | p \<Rightarrow> p)\<rparr>"
  let ?s2 = "if int (length D) < e + 1 then seek_fp (nat (e + 1)) ?s1 else ?s1"
  have s2: "up_ok D k ?s2" "digesters ?s2 = digesters s"
    using assms(1) by (auto simp: up_ok_def seek_fp_def)
  obtain r1 t1 where bytes: "upload_file_bytes E (length D) (e + 1) hs ?s2 = (r1, t1)" by fastforce
  note ok = upload_file_bytes_ok [OF s2(1) bytes]
  show ?thesis
  proof (cases r1)
    case (Inl err)
    obtain r2 t2 where f: "(upload_failed E (length D) err :: ('a, string option \<times> string option \<times> string option) upx) t1 = (r2, t2)" by fastforce
    have "r = r2 \<and> t = t2\<lparr>world := close_put (service E) (world t2)\<rparr>"
      using assms(4) bytes Inl f by (simp add: send_from_def Let_def)
    then show ?thesis using upload_failed_ok [OF _ f, of D k] ok by auto
  next
    case (Inr x)
    have t: "r = Inr x \<and> t = t1\<lparr>world := close_put (service E) (world t1)\<rparr>"
      using assms(4) bytes Inr by (simp add: send_from_def Let_def)
    have res: "e + 1 + int (length (file_rest (fp ?s2))) = int (length D) \<and> digesters t1 = digesters ?s2 @ file_rest (fp ?s2)"
      using ok Inr by blast
    then have len: "e + 1 + int (length (file_rest (fp ?s2))) = int (length D)" by (rule conjunct1)
    have dig: "digesters t1 = digesters s @ file_rest (fp ?s2)" using conjunct2 [OF res] unfolding s2(2) .
    have small: "\<not> int (length D) < e + 1" using len by simp
    then have fp: "fp ?s2 = fp s" by simp
    have data: "file_data (fp s) = D" and pos: "2 \<le> length D \<longrightarrow> file_pos (fp s) \<noteq> 1" using assms(1) by (simp_all add: up_ok_def)
    have rest: "file_rest (fp s) = drop (file_pos (fp s)) D" by (simp add: file_rest_def data)
    have dig': "digesters t1 = digesters s @ drop (file_pos (fp s)) D" using dig unfolding fp rest .
    have len': "e + 1 + int (length D - file_pos (fp s)) = int (length D)" using len unfolding fp rest by simp
    have "digesters t1 = D" if one: "length D \<noteq> 1"
    proof (cases "0 < e")
      case True
      then have "digesters s = take (nat (e + 1)) D" "file_pos (fp s) = nat (e + 1)" using assms(3) small by (simp_all add: starts_at_def)
      then show ?thesis using dig' by simp
    next
      case False
      then have d: "digesters s = []" and e: "e = -1 \<or> e = 0" using assms(2,3) small by (auto simp: starts_at_def)
      have "file_pos (fp s) = 0 \<or> D = []" using len' e pos one by (cases "length D") auto
      then show ?thesis using dig' d by auto
    qed
    then show ?thesis using t ok by auto
  qed
qed

lemma attempt_ok:
  assumes "up_ok D k s" "digesters s = []" "ranges_from_zero E" "0 < key_buffer_size E"
    and "attempt_resumable_upload E (length D) hs s = (r, t)"
  shows "up_ok D k t \<and> (\<forall>x. r = Inr x \<longrightarrow> length D \<noteq> 1 \<longrightarrow> digesters t = D)"
  using assms(5) unfolding attempt_resumable_upload_def
proof (cases rule: xfer_bind_cases)
  case (1 e)
  then show ?thesis using server_end_ok [OF assms(1-4)] by blast
next
  case (2 e u)
  then show ?thesis using server_end_ok [OF assms(1-4) 2(1)] send_from_ok [OF _ _ _ 2(2)] by blast
qed

lemma up_ok_finished [simp]: "up_ok D k (s\<lparr>generations := g, local_hashes := h\<rparr>) = up_ok D k s"
  by (simp add: up_ok_def)

lemma fold_update_lookup:
  "a \<in> set algs \<Longrightarrow> map_of (fold (\<lambda>k d. AList.update k (f k) d) algs d) a = Some (f a)"
proof (induction algs rule: rev_induct)
  case Nil
  then show ?case by simp
next
  case (snoc k algs)
  then show ?case by (cases "a = k") (auto simp: update_conv')
qed

definition hashed :: "'w gs_env \<Rightarrow> string \<Rightarrow> 'w upload \<Rightarrow> bool" where
  "hashed E D s \<longleftrightarrow> (\<forall>a \<in> set (hash_algs E). map_of (local_hashes s) a = Some (H E a D))
     \<and> (has_tracker E \<longrightarrow> tracker_file s = None)"

lemma check_final_ok:
  assumes "check_final_md5 E etag s = (r, t)"
  shows "up_ok D k s \<longrightarrow> up_ok D k t" "r = Inr () \<Longrightarrow> t = s \<and> (\<exists>tag. etag = Some tag \<and> key_md5 (local_hashes s) = Some (strip_quotes tag))"
proof -
  obtain q u where q: "on_service (delete_key (service E)) s = (q, u)" by fastforce
  have u: "up_ok D k s \<longrightarrow> up_ok D k u" using on_service_ok [OF q, of D k] by simp
  show "up_ok D k s \<longrightarrow> up_ok D k t" using assms q u by (auto simp: check_final_md5_def split: option.splits if_splits sum.splits)
  show "r = Inr () \<Longrightarrow> t = s \<and> (\<exists>tag. etag = Some tag \<and> key_md5 (local_hashes s) = Some (strip_quotes tag))"
    using assms q by (auto simp: check_final_md5_def split: option.splits if_splits sum.splits)
qed

lemma finish_ok:
  assumes "finish_upload E x s = (r, t)"
  shows "up_ok D k s \<longrightarrow> up_ok D k t" "r = Inr () \<Longrightarrow> digesters s = D \<Longrightarrow>
    hashed E D t \<and> (\<exists>tag. fst x = Some tag \<and> key_md5 (local_hashes t) = Some (strip_quotes tag))"
proof -
  obtain etag gen metagen where x: "x = (etag, gen, metagen)" by (cases x)
  define u where "u = remove_tracker_file E (s\<lparr>generations := (gen, metagen),
    local_hashes := fold (\<lambda>alg d. AList.update alg (H E alg (digesters s)) d) (hash_algs E) (local_hashes s)\<rparr>)"
  have c: "check_final_md5 E etag u = (r, t)" using assms by (simp add: finish_upload_def x u_def Let_def)
  have u: "up_ok D k u = up_ok D k s" by (simp add: u_def)
  show "up_ok D k s \<longrightarrow> up_ok D k t" using check_final_ok(1) [OF c, of D k] u by simp
  assume r: "r = Inr ()" and d: "digesters s = D"
  have "hashed E D u"
    unfolding hashed_def u_def using d by (auto simp: remove_tracker_file_def intro!: fold_update_lookup)
  then show "hashed E D t \<and> (\<exists>tag. fst x = Some tag \<and> key_md5 (local_hashes t) = Some (strip_quotes tag))"
    using check_final_ok(2) [OF c r] x by auto
qed

lemma handle_ok: "handle_upload_exception E e s = (r, t) \<Longrightarrow> up_ok D k s \<longrightarrow> up_ok D k t"
  by (auto simp: handle_upload_exception_def split: transfer_exc.splits disposition.splits bool.splits if_splits)

lemma round_ok:
  assumes "up_ok D k s" "digesters s = []" "ranges_from_zero E" "0 < key_buffer_size E"
    and "upload_round E (length D) hs s = (r, t)"
  shows "(r = Inr True \<longrightarrow> length D \<noteq> 1 \<longrightarrow> hashed E D t) \<and> (r = Inr False \<longrightarrow>
      (\<exists>d. up_ok D (fst k, Suc (fst (snd k)), snd (snd k) @ [d]) t) \<and> Suc (fst (snd k)) \<le> fst k \<and> digesters t = [])
    \<and> (r \<noteq> Inr False \<longrightarrow> up_sleeps t = snd (snd k))"
proof -
  let ?s = "s\<lparr>digesters_before_attempt := digesters s\<rparr>"
  have s: "up_ok D k ?s" "digesters ?s = []" using assms(1,2) by (simp_all add: up_ok_def)
  obtain r1 t1 where a: "xfer_bind (attempt_resumable_upload E (length D) hs) (finish_upload E) ?s = (r1, t1)" by fastforce
  from a have ok1: "up_ok D k t1 \<and> (\<forall>x. r1 = Inr x \<longrightarrow> length D \<noteq> 1 \<longrightarrow> hashed E D t1)"
  proof (cases rule: xfer_bind_cases)
    case (1 e)
    then show ?thesis using attempt_ok [OF s assms(3-4)] by blast
  next
    case (2 x u)
    have "up_ok D k u" "length D \<noteq> 1 \<longrightarrow> digesters u = D" using attempt_ok [OF s assms(3-4) 2(1)] by blast+
    then show ?thesis using finish_ok(1) [OF 2(2), of D k] finish_ok(2) [OF 2(2), of D] by simp
  qed
  show ?thesis
  proof (cases r1)
    case (Inr x)
    then have "r = Inr True \<and> t = t1" using assms(5) a by (simp add: upload_round_def Let_def)
    then show ?thesis using ok1 Inr by (auto simp: up_ok_def)
  next
    case (Inl e)
    then have h: "xfer_bind (handle_upload_exception E e) (\<lambda>_. xfer_bind (track_progress E (server_has_bytes s)) (\<lambda>_ u. (Inr False, u))) t1 = (r, t)"
      using assms(5) a by (simp add: upload_round_def Let_def)
    then show ?thesis
    proof (cases rule: xfer_bind_cases)
      case (1 e')
      have "up_ok D k t" using handle_ok [OF 1(1)] ok1 by blast
      then have "up_sleeps t = snd (snd k)" by (simp add: up_ok_def)
      then show ?thesis using 1(2) by simp
    next
      case (2 y t2)
      have t2: "up_ok D k t2" using handle_ok [OF 2(1)] ok1 by blast
      then have zero: "server_has_bytes t2 = 0" "digesters_before_attempt t2 = []" "server_has_bytes s = 0"
        and k: "k = (num_tries t2, progress_less_iterations t2, up_sleeps t2)" using assms(1) by (simp_all add: up_ok_def)
      from 2(2) show ?thesis
        by (cases rule: xfer_bind_cases) (use t2 zero k in \<open>auto simp: track_progress_def Let_def up_ok_def split: if_splits\<close>)
    qed
  qed
qed

text \<open>A loop that returns keeps an invariant of its rounds.\<close>

lemma upload_loop_invariant:
  assumes "upload_loop E n hs s = Some (r, t)" and "I s"
    and step: "\<And>s t. I s \<Longrightarrow> upload_round E n hs s = (Inr False, t) \<Longrightarrow> I t"
    and ret: "\<And>s t. I s \<Longrightarrow> upload_round E n hs s = (Inr True, t) \<Longrightarrow> Q (Inr ()) t"
    and exc: "\<And>s t e. I s \<Longrightarrow> upload_round E n hs s = (Inl e, t) \<Longrightarrow> Q (Inl e) t"
  shows "Q r t"
proof -
  have "F = E \<longrightarrow> m = n \<longrightarrow> gs = hs \<longrightarrow> I s0 \<longrightarrow> Q (fst z) (snd z)" if "upload_loop F m gs s0 = Some z" for F m gs s0 z
  proof (rule upload_loop.raw_induct [where P = "\<lambda>F m gs s z. F = E \<longrightarrow> m = n \<longrightarrow> gs = hs \<longrightarrow> I s \<longrightarrow> Q (fst z) (snd z)", OF _ that])
    fix loop F m gs s z
    assume IH: "\<And>F m gs s z. loop F m gs s = Some z \<Longrightarrow> F = E \<longrightarrow> m = n \<longrightarrow> gs = hs \<longrightarrow> I s \<longrightarrow> Q (fst z) (snd z)"
      and eq: "(case upload_round F m gs s of (Inl e, t) \<Rightarrow> Some (Inl e, t)
        | (Inr stop, t) \<Rightarrow> if stop then Some (Inr (), t) else loop F m gs t) = Some z"
    show "F = E \<longrightarrow> m = n \<longrightarrow> gs = hs \<longrightarrow> I s \<longrightarrow> Q (fst z) (snd z)"
    proof (intro impI)
      assume "F = E" "m = n" "gs = hs" and s: "I s"
      obtain x u where round: "upload_round E n hs s = (x, u)" by fastforce
      show "Q (fst z) (snd z)"
      proof (cases x)
        case (Inl e)
        then show ?thesis using eq round exc [OF s] \<open>F = E\<close> \<open>m = n\<close> \<open>gs = hs\<close> by auto
      next
        case (Inr stop)
        then show ?thesis using eq round ret [OF s] step [OF s] IH [of E n hs u z] \<open>F = E\<close> \<open>m = n\<close> \<open>gs = hs\<close>
          by (cases stop) auto
      qed
    qed
  qed
  from this [OF assms(1)] assms(2) show ?thesis by simp
qed

lemma upload_init_state:
  "upload_init named retries text f w = (Inr (), s) \<Longrightarrow>
     fp s = f \<and> server_has_bytes s = 0 \<and> digesters_before_attempt s = [] \<and> up_sleeps s = [] \<and> world s = w"
  by (auto simp: upload_init_def Let_def load_tracker_uri_from_file_def set_tracker_uri_def
      split: if_splits option.splits sum.splits prod.splits transfer_exc.splits py_exc.splits)

lemma send_file_loop:
  assumes "upload_init named retries text f w = (Inr (), s)"
  shows "\<exists>s'. send_file E agent retries cfg hs s = upload_loop E (length (file_data f)) (send_headers agent hs) s'
    \<and> up_ok (file_data f) (case retries of None \<Rightarrow> cfg | Some n \<Rightarrow> n, 0, []) s' \<and> digesters s' = []"
  using upload_init_state [OF assms]
  by (intro exI [of _ "(seek_fp 0 s)\<lparr>digesters := [], num_tries := (case retries of None \<Rightarrow> cfg | Some n \<Rightarrow> n), progress_less_iterations := 0\<rparr>"])
    (simp add: send_file_def seek_fp_def up_ok_def)

lemma upload_hashes_file:
  assumes "ranges_from_zero E" "0 < key_buffer_size E" "length (file_data f) \<noteq> 1"
    and "upload_init named retries text f w = (Inr (), s)" and "send_file E agent retries cfg hs s = Some (Inr (), t)"
  shows "hashed E (file_data f) t"
proof -
  let ?D = "file_data f"
  obtain s' where loop: "upload_loop E (length ?D) (send_headers agent hs) s' = Some (Inr (), t)"
    and I: "\<exists>k. up_ok ?D k s' \<and> digesters s' = []"
    using send_file_loop [OF assms(4), of E agent cfg hs] assms(5) by fastforce
  have "(Inr () :: transfer_exc + unit) = Inr () \<longrightarrow> hashed E ?D t"
  proof (rule upload_loop_invariant [where I = "\<lambda>s. \<exists>k. up_ok ?D k s \<and> digesters s = []" and Q = "\<lambda>r t. r = Inr () \<longrightarrow> hashed E ?D t", OF loop I])
    fix s t
    assume "\<exists>k. up_ok ?D k s \<and> digesters s = []" and r: "upload_round E (length ?D) (send_headers agent hs) s = (Inr False, t)"
    with round_ok [OF _ _ assms(1,2) r] show "\<exists>k. up_ok ?D k t \<and> digesters t = []" by blast
  next
    fix s t
    assume "\<exists>k. up_ok ?D k s \<and> digesters s = []" and r: "upload_round E (length ?D) (send_headers agent hs) s = (Inr True, t)"
    with round_ok [OF _ _ assms(1,2) r] assms(3) show "(Inr () :: transfer_exc + unit) = Inr () \<longrightarrow> hashed E ?D t" by blast
  qed simp
  then show ?thesis by simp
qed

lemma upload_returns:
  assumes "ranges_from_zero E" "0 < key_buffer_size E" "up_ok D k s" "digesters s = []"
  shows "\<exists>r t. upload_loop E (length D) hs s = Some (r, t) \<and> length (up_sleeps t) \<le> length (snd (snd k)) + (fst k - fst (snd k))"
  using assms(3,4)
proof (induction "fst k - fst (snd k)" arbitrary: k s rule: less_induct)
  case less
  obtain r u where round: "upload_round E (length D) hs s = (r, u)" by fastforce
  note ok = round_ok [OF less.prems assms(1,2) round]
  show ?case
  proof (cases "r = Inr False")
    case False
    then have "up_sleeps u = snd (snd k)" using ok by blast
    then show ?thesis using False round by (cases r) (auto simp: upload_loop.simps)
  next
    case True
    then obtain d where u: "up_ok D (fst k, Suc (fst (snd k)), snd (snd k) @ [d]) u" "digesters u = []" and le: "Suc (fst (snd k)) \<le> fst k"
      using ok by blast
    from less.hyps [OF _ u] le obtain r' t where "upload_loop E (length D) hs u = Some (r', t)"
      "length (up_sleeps t) \<le> length (snd (snd k)) + (fst k - fst (snd k))" by fastforce
    then show ?thesis using True round by (auto simp: upload_loop.simps)
  qed
qed

end
