(* ===== verification/GS_Lossy.thy ===== *)
theory GS_Lossy
  imports GS_Upload
begin

text \<open>
  A resumable upload over connections that break: a storage service that keeps the protocol, with a plan
  of after how many bytes the connection of each \<open>PUT\<close> breaks, and the proof that the upload completes.
\<close>

section \<open>The service\<close>

text \<open>
  \<open>got\<close> is what the service has of the upload, \<open>faults\<close> the plan for the next requests; during a \<open>PUT\<close>,
  \<open>left\<close> is how many bytes still arrive (\<open>None\<close>: all), \<open>range_ok\<close> whether its \<open>Content-Range\<close> continues what
  the service has.
\<close>

record lossy =
  got :: "string option"
  faults :: "nat list"
  left :: "nat option"
  range_ok :: bool

definition held :: "lossy \<Rightarrow> string" where
  "held w = (case got w of None \<Rightarrow> [] | Some b \<Rightarrow> b)"

definition lossy_start :: "string \<Rightarrow> headers \<Rightarrow> lossy \<Rightarrow> (transfer_exc + service_response) \<times> lossy" where
  "lossy_start uri hs w = (Inr \<lparr>sr_status = 201, sr_headers = [(''location'', uri)]\<rparr>, w\<lparr>got := Some []\<rparr>)"

definition lossy_query :: "nat \<Rightarrow> string \<Rightarrow> string \<Rightarrow> (string, string) dict \<Rightarrow> lossy \<Rightarrow> (transfer_exc + service_response) \<times> lossy" where
  "lossy_query len h p hs w =
     (Inr (if length (held w) = len then \<lparr>sr_status = 200, sr_headers = []\<rparr>
           else \<lparr>sr_status = 308, sr_headers = (if held w = [] then []
              else [(''range'', ''bytes='' @ nat_str 0 @ ''-'' @ nat_str (length (held w) - 1))])\<rparr>), w)"

definition continues :: "nat \<Rightarrow> headers \<Rightarrow> lossy \<Rightarrow> bool" where
  "continues len hs w \<longleftrightarrow> map_of hs ''Content-Range'' =
     (if len = 0 then None
      else if length (held w) = len then Some (HStr (''bytes */'' @ nat_str len))
      else Some (HStr (''bytes '' @ nat_str (length (held w)) @ ''-'' @ nat_str (len - 1) @ ''/'' @ nat_str len)))
     \<and> map_of hs ''Content-Length'' = Some (HStr (nat_str (len - length (held w))))"

definition lossy_begin :: "nat \<Rightarrow> string \<Rightarrow> string \<Rightarrow> headers \<Rightarrow> lossy \<Rightarrow> (transfer_exc + unit) \<times> lossy" where
  "lossy_begin len h p hs w =
     (Inr (), w\<lparr>left := (case faults w of [] \<Rightarrow> None | n # _ \<Rightarrow> Some n), faults := tl (faults w), range_ok := continues len hs w\<rparr>)"

definition lossy_send :: "string \<Rightarrow> lossy \<Rightarrow> (transfer_exc + unit) \<times> lossy" where
  "lossy_send c w =
     (case left w of
        None \<Rightarrow> (Inr (), w\<lparr>got := Some (held w @ c)\<rparr>)
      | Some n \<Rightarrow>
          if length c \<le> n then (Inr (), w\<lparr>got := Some (held w @ c), left := Some (n - length c)\<rparr>)
          else (Inl (SocketError False), w\<lparr>got := Some (held w @ take n c), left := Some 0\<rparr>))"

definition lossy_response :: "(string \<Rightarrow> string) \<Rightarrow> nat \<Rightarrow> lossy \<Rightarrow> (transfer_exc + service_response) \<times> lossy" where
  "lossy_response md5 len w =
     (if left w \<noteq> None then (Inl (SocketError False), w)
      else (Inr (if range_ok w \<and> length (held w) = len
                 then \<lparr>sr_status = 200, sr_headers = [(''etag'', hexlify (md5 (held w)))]\<rparr>
                 else \<lparr>sr_status = 400, sr_headers = []\<rparr>), w))"

definition lossy_service :: "string \<Rightarrow> (string \<Rightarrow> string) \<Rightarrow> nat \<Rightarrow> lossy gs_service" where
  "lossy_service uri md5 len =
     \<lparr>start_post = lossy_start uri, query_put = lossy_query len, begin_put = lossy_begin len, send_chunk = lossy_send,
      put_response = lossy_response md5 len, close_put = id, close_pooled = id, delete_key = (\<lambda>w. (Inr (), w))\<rparr>"

lemma lossy_service_simps [simp]:
  "start_post (lossy_service uri m n) = lossy_start uri" "query_put (lossy_service uri m n) = lossy_query n"
  "begin_put (lossy_service uri m n) = lossy_begin n" "send_chunk (lossy_service uri m n) = lossy_send"
  "put_response (lossy_service uri m n) = lossy_response m n" "close_put (lossy_service uri m n) = id"
  "close_pooled (lossy_service uri m n) = id"
  by (simp_all add: lossy_service_def)

text \<open>What arrives of the bytes \<open>r\<close>.\<close>

definition arrives :: "string \<Rightarrow> lossy \<Rightarrow> lossy" where
  "arrives r w = (case left w of
     None \<Rightarrow> w\<lparr>got := Some (held w @ r)\<rparr>
   | Some n \<Rightarrow> w\<lparr>got := Some (held w @ take n r), left := Some (n - length r)\<rparr>)"

section \<open>Sending\<close>

lemma lossy_ranges: "service E = lossy_service uri m n \<Longrightarrow> ranges_from_zero E"
proof -
  have "search_range (CHR ''b'' # CHR ''y'' # CHR ''t'' # CHR ''e'' # CHR ''s'' # CHR ''='' # nat_str 0 @ CHR ''-'' # nat_str b) = Some (0, b)" for b
    using search_range_bytes [of 0 b] by (simp only: append.simps)
  then show "service E = lossy_service uri m n \<Longrightarrow> ranges_from_zero E"
    by (auto simp del: search_range.simps nat_str.simps simp: ranges_from_zero_def lossy_query_def server_pos_def response_header_def SERVER_HAS_NOTHING_def
        str_lower_def lower_char_def split: if_splits option.splits)
qed

lemma send_loop_step:
  assumes "send_loop E n buf sent i s = (r, t)" "buf \<noteq> []"
  obtains (stop) e where "on_service (send_chunk (service E) buf) s = (Inl e, t)" "r = Inl e"
    | (go) t1 c i' buf' u where "on_service (send_chunk (service E) buf) s = (Inr (), t1)"
        "read_fp BUFFER_SIZE (t1\<lparr>digesters := digesters t1 @ buf, cb_calls := c\<rparr>) = (buf', u)"
        "send_loop E n buf' (sent + int (length buf)) i' u = (r, t)"
proof -
  let ?now = "has_cb E \<and> (i + 1 = cb_interval n (num_cb E) \<or> cb_interval n (num_cb E) = -1)"
  obtain r1 t1 where sent: "on_service (send_chunk (service E) buf) s = (r1, t1)" by fastforce
  show ?thesis
  proof (cases r1)
    case (Inl e)
    then have "r = Inl e \<and> t = t1" using assms sent by (simp add: send_loop.simps)
    then show ?thesis using stop sent Inl by blast
  next
    case (Inr x)
    let ?c = "if ?now then cb_calls t1 @ [(sent + int (length buf), int n)] else cb_calls t1"
    obtain buf' u where read: "read_fp BUFFER_SIZE (t1\<lparr>digesters := digesters t1 @ buf, cb_calls := ?c\<rparr>) = (buf', u)" by fastforce
    have same: "(if ?now then call_cb E (sent + int (length buf)) n (t1\<lparr>digesters := digesters t1 @ buf\<rparr>) else t1\<lparr>digesters := digesters t1 @ buf\<rparr>)
        = t1\<lparr>digesters := digesters t1 @ buf, cb_calls := ?c\<rparr>"
      by (cases ?now) (simp_all add: call_cb_def)
    have "send_loop E n buf' (sent + int (length buf)) (if ?now then 0 else i + 1) u = (r, t)"
      using assms sent Inr by (subst (asm) send_loop.simps) (simp only: Let_def same read if_False prod.case sum.case)
    then show ?thesis using go sent Inr read by simp
  qed
qed

lemma send_loop_frame:
  "send_loop E n buf sent i s = (r, t) \<Longrightarrow> \<exists>d f c w. t = s\<lparr>digesters := d, fp := f, cb_calls := c, world := w\<rparr>"
proof (induction "length buf + length (file_rest (fp s))" arbitrary: buf sent i s rule: less_induct)
  case less
  show ?case
  proof (cases "buf = []")
    case True
    then have "t = s" using less.prems by (simp add: send_loop.simps)
    then show ?thesis by (intro exI [of _ "digesters s"] exI [of _ "fp s"] exI [of _ "cb_calls s"] exI [of _ "world s"]) simp
  next
    case False
    from less.prems False show ?thesis
    proof (cases rule: send_loop_step)
      case (stop e)
      then show ?thesis using on_service_world [OF stop(1)]
        by (auto intro!: exI [of _ "digesters s"] exI [of _ "fp s"] exI [of _ "cb_calls s"])
    next
      case (go t1 c i' buf' u)
      obtain w where t1: "t1 = s\<lparr>world := w\<rparr>" using on_service_world [OF go(1)] by blast
      have "length buf' + length (file_rest (fp u)) < length buf + length (file_rest (fp s))"
        using read_fp_shrinks [OF go(2) [symmetric]] False by (simp add: t1)
      from less.hyps [OF this go(3)] obtain d f c' w' where "t = u\<lparr>digesters := d, fp := f, cb_calls := c', world := w'\<rparr>" by blast
      then show ?thesis using go(2) t1 by (auto simp: read_fp_rest intro!: exI [of _ d] exI [of _ f] exI [of _ c'] exI [of _ w'])
    qed
  qed
qed

lemma lossy_send_arrives:
  "fst (lossy_send c w) = (if (case left w of None \<Rightarrow> True | Some m \<Rightarrow> length c \<le> m) then Inr () else Inl (SocketError False))"
  "snd (lossy_send c w) = arrives c w"
  by (auto simp: lossy_send_def arrives_def held_def split: option.splits)

lemma arrives_append: "(case left w of None \<Rightarrow> True | Some m \<Rightarrow> length x \<le> m) \<Longrightarrow> arrives y (arrives x w) = arrives (x @ y) w"
  by (auto simp: arrives_def held_def split: option.splits)

lemma arrives_left: "left (arrives x w) = (case left w of None \<Rightarrow> None | Some m \<Rightarrow> Some (m - length x))"
  by (simp add: arrives_def split: option.splits)

definition enough :: "string \<Rightarrow> lossy \<Rightarrow> bool" where
  "enough x w = (case left w of None \<Rightarrow> True | Some m \<Rightarrow> length x \<le> m)"

lemma send_loop_lossy:
  assumes "service E = lossy_service uri m n"
  shows "send_loop E len buf sent i s = (r, t) \<Longrightarrow> (buf = [] \<longrightarrow> file_rest (fp s) = []) \<Longrightarrow>
    world t = arrives (buf @ file_rest (fp s)) (world s)
    \<and> r = (if enough (buf @ file_rest (fp s)) (world s) then Inr (sent + int (length (buf @ file_rest (fp s)))) else Inl (SocketError False))
     \<or> buf = []"
proof (induction "length buf + length (file_rest (fp s))" arbitrary: buf sent i s rule: less_induct)
  case less
  show ?case
  proof (cases "buf = []")
    case False
    let ?x = "file_rest (fp s)"
    from less.prems(1) False show ?thesis
    proof (cases rule: send_loop_step)
      case (stop e)
      then have few: "\<not> enough buf (world s)" and w: "world t = arrives buf (world s)" and e: "e = SocketError False"
        using lossy_send_arrives [of buf "world s"]
        by (auto simp: on_service_def assms enough_def split: prod.splits if_splits)
      have "arrives (buf @ ?x) (world s) = arrives buf (world s)" "\<not> enough (buf @ ?x) (world s)"
        using few by (auto simp: arrives_def enough_def split: option.splits)
      then show ?thesis using stop w e by simp
    next
      case (go t1 c i' buf' u)
      then have ok: "enough buf (world s)" and t1: "t1 = s\<lparr>world := arrives buf (world s)\<rparr>"
        using lossy_send_arrives [of buf "world s"]
        by (auto simp: on_service_def assms enough_def split: prod.splits if_splits)
      have split: "buf' @ file_rest (fp u) = ?x" using read_fp_split [OF go(2)] t1 by simp
      have u: "world u = arrives buf (world s)" using go(2) t1 by (auto simp: read_fp_rest)
      have rest: "buf' = [] \<longrightarrow> file_rest (fp u) = []"
        using go(2) read_fp_nonempty t1 split by fastforce
      have less': "length buf' + length (file_rest (fp u)) < length buf + length ?x"
        using read_fp_shrinks [OF go(2) [symmetric]] False by (simp add: t1)
      have app: "arrives y (arrives buf (world s)) = arrives (buf @ y) (world s)" for y
        using ok by (simp add: arrives_append enough_def)
      have more: "enough y (arrives buf (world s)) = enough (buf @ y) (world s)" for y
        using ok by (auto simp: enough_def arrives_left split: option.splits)
      show ?thesis
      proof (cases "buf' = []")
        case True
        then have "r = Inr (sent + int (length buf))" "t = u" using go(3) by (simp_all add: send_loop.simps)
        then show ?thesis using True split rest u ok by simp
      next
        case False
        with less.hyps [OF less' go(3) rest] show ?thesis unfolding split u app more by (simp add: add.assoc)
      qed
    qed
  qed simp
qed

section \<open>One attempt\<close>

text \<open>
  The surroundings: a tracker file that can be written if there is one, and a usable tracker URI.  \<open>get_path\<close> of a
  connection that suppresses consecutive slashes, as by default, needs a path in it.
\<close>

definition path_ok :: "aws_conn \<Rightarrow> string \<Rightarrow> bool" where
  "path_ok c p \<longleftrightarrow> suppress_consec_slashes c \<longrightarrow> p \<noteq> [] \<and> hd p \<noteq> CHR ''?''"

definition lossy_env :: "string \<Rightarrow> (string \<Rightarrow> string) \<Rightarrow> string \<Rightarrow> lossy gs_env \<Rightarrow> bool" where
  "lossy_env uri md5 D E \<longleftrightarrow> service E = lossy_service uri md5 (length D)
     \<and> 0 < key_buffer_size E \<and> (has_tracker E \<longrightarrow> tracker_writable E)
     \<and> uri \<noteq> [] \<and> (\<exists>u. urlparse uri = Inr u \<and> str_lower (url_scheme_of u) \<in> {''http'', ''https''} \<and> url_netloc_of u \<noteq> []
           \<and> path_ok (up_conn E) (url_path_of u))
     \<and> ''md5'' \<in> set (hash_algs E) \<and> H E ''md5'' = md5 \<and> md5 D \<noteq> []"

lemma build_request_ok:
  assumes "path_ok c p"
  shows "\<exists>q. build_base_http_request g v c m p None None hs d h = Inr q"
proof -
  have "\<exists>p'. get_path c p = Inr p'" using assms by (cases p) (simp_all add: path_ok_def get_path_def Let_def)
  then obtain p' where "get_path c p = Inr p'" by blast
  moreover have "\<exists>a. get_proxy_auth_header c = Inr a" if "str_true (proxy_user c)" "str_true (proxy_pass c)"
    using that by (auto simp: str_true_def get_proxy_auth_header_def split: option.splits)
  ultimately show ?thesis by (auto simp: build_base_http_request_def Let_def)
qed

text \<open>The headers of the request say where the data goes on.\<close>

lemma put_headers_continue:
  assumes "held w = take k D" "k \<le> length D" "map_of hs ''Content-Range'' = None"
  shows "continues (length D) (put_headers (length D) (int k) hs) w"
proof -
  have nat: "str_int (int k) = nat_str k" for k by (simp add: str_int_def)
  then have "str_int (int (length D) - int k) = nat_str (length D - k)" by (metis of_nat_diff assms(2))
  then show ?thesis using assms nat nat [of 0]
    by (auto simp: continues_def put_headers_def Let_def update_conv' build_content_range_header_def min_def)
qed

text \<open>A \<open>PUT\<close> that claims to start at \<open>start\<close>, with the bytes \<open>x\<close> left of the file.\<close>

definition begun :: "nat \<Rightarrow> headers \<Rightarrow> lossy \<Rightarrow> lossy" where
  "begun len hs w = w\<lparr>left := (case faults w of [] \<Rightarrow> None | n # _ \<Rightarrow> Some n), faults := tl (faults w), range_ok := continues len hs w\<rparr>"

definition put_result :: "(string \<Rightarrow> string) \<Rightarrow> nat \<Rightarrow> int \<Rightarrow> string \<Rightarrow> lossy \<Rightarrow> transfer_exc + string option \<times> string option \<times> string option" where
  "put_result md5 len start x w =
     (if \<not> enough x w then Inl (SocketError False)
      else if start + int (length x) \<noteq> int len then Inl (Resumable ABORT)
      else if left w \<noteq> None then Inl (SocketError False)
      else if range_ok w \<and> length (held (arrives x w)) = len then Inr (Some (hexlify (md5 (held (arrives x w)))), None, None)
      else Inl (Resumable ABORT))"

lemma bytes_run:
  assumes E: "lossy_env uri md5 D E" and x: "file_rest (fp s) = x" and p: "path_ok (up_conn E) (tracker_uri_path s)"
    and b: "upload_file_bytes E (length D) start hs s = (r, t)"
  defines "w0 \<equiv> begun (length D) (put_headers (length D) start hs) (world s)"
  shows "(\<exists>d f c w. t = s\<lparr>digesters := d, fp := f, cb_calls := c, world := w\<rparr>) \<and> r = put_result md5 (length D) start x w0
    \<and> held (world t) = held (arrives x w0) \<and> faults (world t) = tl (faults (world s))"
proof -
  have svc: "service E = lossy_service uri md5 (length D)" using E by (simp add: lossy_env_def)
  obtain buf s1 where read: "read_fp BUFFER_SIZE s = (buf, s1)" by fastforce
  let ?s2 = "call_cb E start (length D) s1" and ?hs = "put_headers (length D) start hs"
  obtain q where req: "build_base_http_request (up_gae E) (up_version E) (up_conn E) ''PUT'' (tracker_uri_path ?s2) None None (Some ?hs) [] (tracker_uri_host ?s2) = Inr q"
  proof -
    have "tracker_uri_path ?s2 = tracker_uri_path s" using read by (auto simp: read_fp_rest call_cb_def)
    then show ?thesis using that build_request_ok [OF p] by metis
  qed
  define f1 c1 where f1: "f1 = fp s1" and "c1 = cb_calls ?s2"
  have s1: "s1 = s\<lparr>fp := fp s1\<rparr>" using read by (auto simp: read_fp_rest)
  have s2: "?s2 = s\<lparr>fp := f1, cb_calls := c1\<rparr>"
  proof -
    have "call_cb E start (length D) (s\<lparr>fp := f\<rparr>) = s\<lparr>fp := f, cb_calls := cb_calls (call_cb E start (length D) (s\<lparr>fp := f\<rparr>))\<rparr>" for f
      by (simp add: call_cb_def)
    from this [of "fp s1"] show ?thesis unfolding s1 [symmetric] c1_def f1 .
  qed
  let ?s3 = "?s2\<lparr>world := w0\<rparr>"
  have began: "on_service (begin_put (service E) (tracker_uri_host ?s2) (req_path q) ?hs) ?s2 = (Inr (), ?s3)"
    by (simp add: on_service_def svc lossy_begin_def s2 w0_def begun_def)
  have all: "buf @ file_rest (fp ?s3) = x"
    using read_fp_split [OF read] x by (simp add: s2 f1)
  have rest: "buf = [] \<longrightarrow> file_rest (fp ?s3) = []"
    using read_fp_nonempty [of s s1] read all x by auto
  obtain r4 t4 where loop: "send_loop E (length D) buf start 0 ?s3 = (r4, t4)" by fastforce
  obtain d4 f4 c4 w4 where t4: "t4 = ?s3\<lparr>digesters := d4, fp := f4, cb_calls := c4, world := w4\<rparr>"
    using send_loop_frame [OF loop] by blast
  have sent: "r4 = (if enough x w0 then Inr (start + int (length x)) else Inl (SocketError False))
      \<and> held w4 = held (arrives x w0) \<and> left w4 = left (arrives x w0) \<and> faults w4 = faults w0 \<and> range_ok w4 = range_ok w0"
  proof (cases "buf = []")
    case True
    then have nil: "x = []" "r4 = Inr start" and "t4 = ?s3" using all rest loop by (auto simp: send_loop.simps)
    then have "world t4 = w0" by simp
    moreover have "world t4 = w4" by (simp add: t4)
    ultimately have "w4 = w0" by simp
    with nil show ?thesis by (auto simp: enough_def arrives_def held_def split: option.splits list.splits)
  next
    case False
    with send_loop_lossy [OF svc loop rest] show ?thesis
      unfolding all by (auto simp: t4 arrives_def split: option.splits)
  qed
  let ?sent = "start + int (length x)"
  let ?s5 = "call_cb E ?sent (length D) t4"
  define c5 where "c5 = cb_calls ?s5"
  have s5: "?s5 = s\<lparr>digesters := d4, fp := f4, cb_calls := c5, world := w4\<rparr>"
  proof -
    have t4': "t4 = s\<lparr>digesters := d4, fp := f4, cb_calls := c4, world := w4\<rparr>" unfolding t4 s2 by simp
    show ?thesis unfolding c5_def t4' by (simp add: call_cb_def)
  qed
  have left: "enough x w0 \<Longrightarrow> left (arrives x w0) = None \<longleftrightarrow> left w0 = None" by (simp add: arrives_left split: option.splits)
  have fl: "faults w0 = tl (faults (world s))" by (simp add: w0_def begun_def)
  have at_put: "upload_file_bytes E (length D) start hs s = xfer_bind (send_loop E (length D) buf start 0) (\<lambda>sent s.
      let s = call_cb E sent (length D) s
      in if sent \<noteq> int (length D) then (Inl (Resumable ABORT), s)
         else (case on_service (put_response (service E)) s of
                 (Inl e, t) \<Rightarrow> (Inl e, t)
               | (Inr resp, t) \<Rightarrow>
                   if sr_status resp = 200
                   then (Inr (response_header resp ''etag'', response_header resp ''x-goog-generation'',
                              response_header resp ''x-goog-metageneration''), t)
                   else if sr_status resp \<in> {408, 500, 503} then (Inl (Resumable WAIT_BEFORE_RETRY), t)
                   else (Inl (Resumable ABORT), t))) ?s3"
    unfolding upload_file_bytes_def read prod.case Let_def by (simp add: xfer_bind_def req began)
  show ?thesis
  proof (cases "enough x w0")
    case False
    then have "r = Inl (SocketError False)" "t = t4" using b sent unfolding at_put by (simp_all add: xfer_bind_def loop)
    then show ?thesis using False sent t4 s2 fl by (simp add: put_result_def) blast
  next
    case True
    then have r4: "r4 = Inr ?sent" using sent by simp
    show ?thesis
    proof (cases "?sent = int (length D)")
      case False
      then have "r = Inl (Resumable ABORT)" "t = ?s5" using b r4 unfolding at_put by (simp_all add: xfer_bind_def loop)
      then show ?thesis using True False sent s5 fl by (simp add: put_result_def) blast
    next
      case whole: True
      have et: "response_header \<lparr>sr_status = 200, sr_headers = [(''etag'', h)]\<rparr> ''etag'' = Some h"
        "response_header \<lparr>sr_status = 200, sr_headers = [(''etag'', h)]\<rparr> ''x-goog-generation'' = None"
        "response_header \<lparr>sr_status = 200, sr_headers = [(''etag'', h)]\<rparr> ''x-goog-metageneration'' = None" for h
        by (simp_all add: response_header_def str_lower_def lower_char_def)
      have "on_service (put_response (service E)) ?s5 = (fst (lossy_response md5 (length D) w4), ?s5)"
        unfolding s5 by (auto simp: on_service_def svc lossy_response_def)
      then have "t = ?s5 \<and> r = put_result md5 (length D) start x w0"
        using b r4 whole True left sent unfolding at_put by (auto simp: xfer_bind_def loop lossy_response_def et put_result_def)
      then show ?thesis using sent s5 fl by (metis upload.select_convs(16) upload.surjective upload.update_convs(16))
    qed
  qed
qed

lemma bytes_lossy:
  assumes E: "lossy_env uri md5 D E" and hs: "map_of hs ''Content-Range'' = None"
    and s: "file_rest (fp s) = drop k D" "held (world s) = take k D" "k \<le> length D" and p: "path_ok (up_conn E) (tracker_uri_path s)"
    and b: "upload_file_bytes E (length D) (int k) hs s = (r, t)"
  shows "(\<exists>d f c w. t = s\<lparr>digesters := d, fp := f, cb_calls := c, world := w\<rparr>) \<and> faults (world t) = tl (faults (world s))
    \<and> (case faults (world s) of
         [] \<Rightarrow> r = Inr (Some (hexlify (md5 D)), None, None) \<and> held (world t) = D
       | m # _ \<Rightarrow> r = Inl (SocketError False) \<and> held (world t) = take (k + m) D)"
proof -
  have "take k D @ take m (drop k D) = take (k + m) D" for m by (simp add: take_add)
  then show ?thesis
    using bytes_run [OF E s(1) p b] put_headers_continue [OF s(2,3) hs] s(2,3)
    by (auto simp: put_result_def begun_def enough_def arrives_def held_def split: list.splits)
qed

lemma lossy_pos:
  assumes "n \<le> length D" "held w = take n D"
  shows "\<exists>resp. lossy_query (length D) h p hs w = (Inr resp, w) \<and> server_pos (length D) resp = Inr (0, int n - 1) \<and> sr_status resp \<noteq> 400"
proof -
  have len: "length (held w) = n" using assms by simp
  consider "n = length D" | "n < length D" "n = 0" | "n < length D" "0 < n" using assms(1) by linarith
  then show ?thesis
  proof cases
    case 1
    then show ?thesis by (simp add: lossy_query_def server_pos_def len)
  next
    case 2
    then have "held w = []" using len by simp
    then show ?thesis using 2 by (simp add: lossy_query_def server_pos_def response_header_def SERVER_HAS_NOTHING_def)
  next
    case 3
    then have ne: "held w \<noteq> []" using len by auto
    have "response_header \<lparr>sr_status = 308, sr_headers = [(''range'', x)]\<rparr> ''range'' = Some x" for x
      by (simp add: response_header_def str_lower_def lower_char_def)
    moreover have "search_range (''bytes='' @ nat_str 0 @ ''-'' @ nat_str (n - 1)) = Some (0, n - 1)" by (rule search_range_bytes)
    ultimately have "server_pos (length D) \<lparr>sr_status = 308, sr_headers = [(''range'', ''bytes='' @ nat_str 0 @ ''-'' @ nat_str (n - 1))]\<rparr> = Inr (0, int (n - 1))"
      by (simp only: server_pos_def service_response.select_convs option.case) simp
    then show ?thesis using 3 ne by (simp only: lossy_query_def len if_False) (simp add: of_nat_diff)
  qed
qed

lemma server_end_resumes:
  assumes E: "lossy_env uri md5 D E" and s: "up_ok D k s" "digesters s = []" "n \<noteq> 1" "n \<le> length D"
    "tracker_uri s = Some u" "u \<noteq> []" "held (world s) = take n D"
  shows "\<exists>f. server_end_of E (length D) hs s = (Inr (int n - 1), s\<lparr>fp := f, digesters := take n D\<rparr>) \<and> file_data f = D \<and> file_pos f = n"
proof -
  obtain resp where "lossy_query (length D) (tracker_uri_host s) (tracker_uri_path s)
      [(''Content-Range'', build_content_range_header ''*'' (length D)), (''Content-Length'', ''0'')] (world s) = (Inr resp, world s)"
    "server_pos (length D) resp = Inr (0, int n - 1)"
    using lossy_pos [OF s(4,7)] by metis
  then have pos: "query_server_pos E (length D) s = (Inr (0, int n - 1), s)"
    using E by (simp add: query_server_pos_def query_server_state_def on_service_def lossy_env_def)
  have same: "s\<lparr>server_has_bytes := 0\<rparr> = s" using s(1) by (cases s) (simp add: up_ok_def)
  obtain r t where c: "catch_up E n (seek_fp 0 s) = (r, t)" by fastforce
  have data: "file_data (fp s) = D" using s(1) by (simp add: up_ok_def)
  then have rest: "file_rest (fp (seek_fp 0 s)) = D" by (simp add: seek_fp_def file_rest_def)
  note res = catch_up_result [OF c, unfolded rest]
  have r: "r = Inr ()" using res s(4) E by (auto simp: lossy_env_def split: if_splits)
  have t: "t = s\<lparr>fp := fp t, digesters := take n D\<rparr>"
  proof -
    have "digesters t = take n D" using res r s(2) by (simp add: seek_fp_def)
    moreover have "t = (seek_fp 0 s)\<lparr>fp := fp t, digesters := digesters t\<rparr>" using res by blast
    ultimately have "t = (seek_fp 0 s)\<lparr>fp := fp t, digesters := take n D\<rparr>" by simp
    then show ?thesis by (simp add: seek_fp_def)
  qed
  have "try_resume E (length D) s = ((None, int n - 1), t)"
    using pos same c r s(3) by (simp add: try_resume_def)
  then have "server_end_of E (length D) hs s = (Inr (int n - 1), t)" using s(5,6) by (simp add: server_end_of_def str_true_def)
  moreover have "file_data (fp t) = D" "file_pos (fp t) = n" using res r data by (simp_all add: seek_fp_def)
  ultimately show ?thesis using t by metis
qed

definition starts_headers :: "headers \<Rightarrow> bool" where
  "starts_headers hs \<longleftrightarrow> (\<forall>k \<in> set (map fst hs). str_lower k \<noteq> ''content-length'') \<and> map_of hs ''Content-Range'' = None"

lemma server_end_starts:
  assumes E: "lossy_env uri md5 D E" and hs: "starts_headers hs" and s: "up_ok D k s" "tracker_uri s = None"
  shows "\<exists>t. server_end_of E (length D) hs s = (Inr (-1), t) \<and> up_ok D k t \<and> digesters t = digesters s \<and> tracker_uri t = Some uri
    \<and> path_ok (up_conn E) (tracker_uri_path t) \<and> fp t = fp s \<and> held (world t) = [] \<and> faults (world t) = faults (world s)"
proof -
  obtain u where u: "urlparse uri = Inr u" "str_lower (url_scheme_of u) \<in> {''http'', ''https''}" "url_netloc_of u \<noteq> []"
    "path_ok (up_conn E) (url_path_of u)"
    using E by (auto simp: lossy_env_def)
  obtain ph where ph: "start_headers E hs = Inr ph" using hs by (auto simp: start_headers_def starts_headers_def)
  have loc: "response_header \<lparr>sr_status = 201, sr_headers = [(''location'', uri)]\<rparr> ''Location'' = Some uri"
    by (simp add: response_header_def str_lower_def lower_char_def char_eval)
  obtain r t where st: "start_new_resumable_upload E hs s = (r, t)" by fastforce
  have ok: "path_ok (up_conn E) (url_path_of u @ ''?'' @ url_query_of u)" using u(4) by (cases "url_path_of u") (auto simp: path_ok_def)
  have "r = Inr () \<and> tracker_uri t = Some uri \<and> path_ok (up_conn E) (tracker_uri_path t) \<and> fp t = fp s \<and> held (world t) = [] \<and> faults (world t) = faults (world s)"
    using st E u ok loc ph
    by (auto simp: start_new_resumable_upload_def Let_def on_service_def lossy_env_def lossy_start_def str_true_def
        xfer_bind_def set_tracker_uri_def save_tracker_uri_to_file_def held_def split: if_splits)
  moreover have "up_ok D k t" "digesters t = digesters s" using start_new_ok [OF s(1) st] by simp_all
  ultimately show ?thesis using st s(2) by (simp add: server_end_of_def str_true_def xfer_bind_def SERVER_HAS_NOTHING_def)
qed

text \<open>Before an attempt the service has the first \<open>n\<close> bytes.\<close>

definition lossy_ok :: "aws_conn \<Rightarrow> string \<Rightarrow> nat \<times> nat \<times> real list \<Rightarrow> nat \<Rightarrow> lossy upload \<Rightarrow> bool" where
  "lossy_ok c D k n s \<longleftrightarrow> up_ok D k s \<and> digesters s = [] \<and> n \<le> length D
     \<and> (tracker_uri s = None \<and> n = 0 \<and> file_pos (fp s) = 0
        \<or> (\<exists>u. tracker_uri s = Some u \<and> u \<noteq> []) \<and> path_ok c (tracker_uri_path s) \<and> held (world s) = take n D)"

lemma attempt_lossy:
  assumes E: "lossy_env uri md5 D E" and hs: "starts_headers hs" and D: "length D \<noteq> 1" and s: "lossy_ok (up_conn E) D k n s" and one: "n \<noteq> 1"
    and a: "attempt_resumable_upload E (length D) hs s = (r, t)"
  shows "up_ok D k t \<and> (\<exists>u. tracker_uri t = Some u \<and> u \<noteq> []) \<and> path_ok (up_conn E) (tracker_uri_path t) \<and> faults (world t) = tl (faults (world s))
    \<and> (case faults (world s) of
         [] \<Rightarrow> r = Inr (Some (hexlify (md5 D)), None, None) \<and> held (world t) = D \<and> digesters t = D
       | m # _ \<Rightarrow> r = Inl (SocketError False) \<and> held (world t) = take (n + m) D)"
proof -
  have svc: "service E = lossy_service uri md5 (length D)" using E by (simp add: lossy_env_def)
  have env: "ranges_from_zero E" "0 < key_buffer_size E" using lossy_ranges [OF svc] E by (simp_all add: lossy_env_def)
  have n: "n \<noteq> 1" "n \<le> length D" and ok: "up_ok D k s" "digesters s = []" using s one by (simp_all add: lossy_ok_def)
  obtain s1 where s1: "server_end_of E (length D) hs s = (Inr (int n - 1), s1)" "up_ok D k s1"
    "(\<exists>u. tracker_uri s1 = Some u \<and> u \<noteq> []) \<and> path_ok (up_conn E) (tracker_uri_path s1)" "file_rest (fp s1) = drop n D" "held (world s1) = take n D" "faults (world s1) = faults (world s)"
  proof (cases "tracker_uri s")
    case None
    then have 0: "n = 0" "file_pos (fp s) = 0" using s by (auto simp: lossy_ok_def)
    have data: "file_data (fp s) = D" using ok by (simp add: up_ok_def)
    have uri: "uri \<noteq> []" using E by (simp add: lossy_env_def)
    obtain t0 where t0: "server_end_of E (length D) hs s = (Inr (-1), t0)" "up_ok D k t0" "tracker_uri t0 = Some uri"
      "path_ok (up_conn E) (tracker_uri_path t0)" "fp t0 = fp s" "held (world t0) = []" "faults (world t0) = faults (world s)"
      using server_end_starts [OF E hs ok(1) None] by blast
    show ?thesis by (rule that [of t0]) (use t0 0 data uri in \<open>simp_all add: file_rest_def\<close>)
  next
    case (Some u)
    then have u: "u \<noteq> []" "held (world s) = take n D" and p: "path_ok (up_conn E) (tracker_uri_path s)" using s by (auto simp: lossy_ok_def)
    obtain f where f: "server_end_of E (length D) hs s = (Inr (int n - 1), s\<lparr>fp := f, digesters := take n D\<rparr>)" "file_data f = D" "file_pos f = n"
      using server_end_resumes [OF E ok n Some u] by blast
    have "up_ok D k (s\<lparr>fp := f, digesters := take n D\<rparr>)" using server_end_ok [OF ok env f(1)] by blast
    then show ?thesis using f u p Some by (intro that [of "s\<lparr>fp := f, digesters := take n D\<rparr>"]) (simp_all add: file_rest_def)
  qed
  let ?s2 = "s1\<lparr>upload_start_point := (case upload_start_point s1 of None \<Rightarrow> Some (int n - 1) | p \<Rightarrow> p)\<rparr>"
  have send: "send_from E (length D) hs (int n - 1) s1 = (r, t)"
    using a s1(1) by (simp add: attempt_resumable_upload_def xfer_bind_def)
  obtain r2 t2 where bytes: "upload_file_bytes E (length D) (int n) hs ?s2 = (r2, t2)" by fastforce
  have rng: "map_of hs ''Content-Range'' = None" using hs by (simp add: starts_headers_def)
  have "file_rest (fp ?s2) = drop n D" "held (world ?s2) = take n D" "path_ok (up_conn E) (tracker_uri_path ?s2)" using s1 by simp_all
  note out = bytes_lossy [OF E rng this(1,2) n(2) this(3) bytes]
  then obtain d f c w where t2: "t2 = ?s2\<lparr>digesters := d, fp := f, cb_calls := c, world := w\<rparr>" by blast
  have small: "\<not> int (length D) < int n" using n(2) by simp
  show ?thesis
  proof (cases "faults (world s)")
    case Nil
    then have r2: "r2 = Inr (Some (hexlify (md5 D)), None, None)" "held (world t2) = D" using out s1(6) by simp_all
    have "r = r2 \<and> t = t2" using send bytes r2 small svc by (simp add: send_from_def Let_def)
    moreover have "digesters t = D" "up_ok D k t" using attempt_ok [OF ok env a] r2 D calculation by auto
    ultimately show ?thesis using Nil r2 out s1(3,6) t2 by simp
  next
    case (Cons m ms)
    then have r2: "r2 = Inl (SocketError False)" "held (world t2) = take (n + m) D" using out s1(6) by simp_all
    have "min (n + m) (length D) \<le> length D" "held (world t2) = take (min (n + m) (length D)) D" using r2 by (simp_all add: min_def)
    from lossy_pos [OF this] obtain resp where "lossy_query (length D) (tracker_uri_host t2) (tracker_uri_path t2)
        [(''Content-Range'', build_content_range_header ''*'' (length D)), (''Content-Length'', ''0'')] (world t2) = (Inr resp, world t2)"
      "sr_status resp \<noteq> 400"
      by metis
    then have "query_server_state E (length D) t2 = (Inr resp, t2)" "sr_status resp \<noteq> 400"
      by (simp_all add: query_server_state_def on_service_def svc)
    then have "(upload_failed E (length D) (SocketError False) :: (lossy, string option \<times> string option \<times> string option) upx) t2 = (Inl (SocketError False), t2)"
      by (simp add: upload_failed_def)
    then have "r = Inl (SocketError False) \<and> t = t2" using send bytes r2 small svc by (simp add: send_from_def Let_def)
    then show ?thesis using attempt_ok [OF ok env a] Cons r2 out s1(3,6) t2 by simp
  qed
qed

section \<open>All attempts\<close>

lemma strip_quotes_hex: "strip_quotes (hexlify d) = hexlify d"
proof -
  have hex: "hex_char n \<notin> {CHR 0x22, CHR 0x27}" if "n < 16" for n
    using hex_val_char [OF that] by (auto simp: hex_val_def)
  have "\<forall>c \<in> set (hexlify d). c \<notin> {CHR 0x22, CHR 0x27}"
  proof
    fix c assume "c \<in> set (hexlify d)"
    then obtain x :: char where "c = hex_char (of_char x div 16) \<or> c = hex_char (of_char x mod 16)"
      by (auto simp: hexlify_def)
    moreover have "(of_char x :: nat) div 16 < 16"
      using of_char_less [of x] by (intro less_mult_imp_div_less) simp
    moreover have "(of_char x :: nat) mod 16 < 16" by simp
    ultimately show "c \<notin> {CHR 0x22, CHR 0x27}" using hex by metis
  qed
  then show ?thesis by (simp add: strip_quotes_def dropWhile_all_not)
qed

lemma round_lossy:
  assumes E: "lossy_env uri md5 D E" and hs: "starts_headers hs" and D: "length D \<noteq> 1" and s: "lossy_ok (up_conn E) D k n s" and one: "n \<noteq> 1"
  shows "\<exists>r t. upload_round E (length D) hs s = (r, t) \<and>
    (case faults (world s) of
       [] \<Rightarrow> r = Inr True \<and> held (world t) = D
     | m # ms \<Rightarrow> fst (snd k) < fst k \<longrightarrow> r = Inr False \<and> faults (world t) = ms
         \<and> (\<exists>d. lossy_ok (up_conn E) D (fst k, Suc (fst (snd k)), d) (min (n + m) (length D)) t))"
proof -
  let ?s = "s\<lparr>digesters_before_attempt := digesters s\<rparr>"
  have same: "?s = s" using s by (cases s) (simp add: lossy_ok_def up_ok_def)
  obtain r1 t1 where a: "attempt_resumable_upload E (length D) hs s = (r1, t1)" by fastforce
  note out = attempt_lossy [OF E hs D s one a]
  have s0: "server_has_bytes s = 0" using s by (simp add: lossy_ok_def up_ok_def)
  show ?thesis
  proof (cases "faults (world s)")
    case Nil
    then have r1: "r1 = Inr (Some (hexlify (md5 D)), None, None)" "held (world t1) = D" "digesters t1 = D" using out by simp_all
    have md5: "''md5'' \<in> set (hash_algs E)" "H E ''md5'' = md5" "md5 D \<noteq> []" using E by (simp_all add: lossy_env_def)
    let ?h = "fold (\<lambda>alg d. AList.update alg (H E alg D) d) (hash_algs E) (local_hashes t1)"
    have "map_of ?h ''md5'' = Some (md5 D)" using fold_update_lookup [where a = "''md5''" and algs = "hash_algs E" and f = "\<lambda>a. H E a D"] md5 by simp
    then have key: "key_md5 ?h = Some (strip_quotes (hexlify (md5 D)))" using md5(3) by (simp add: key_md5_def strip_quotes_hex)
    obtain u where u: "finish_upload E (Some (hexlify (md5 D)), None, None) t1 = (Inr (), u)" "world u = world t1"
    proof -
      let ?u = "remove_tracker_file E (t1\<lparr>generations := (None, None), local_hashes := ?h\<rparr>)"
      have "local_hashes ?u = ?h" "world ?u = world t1" by (simp_all add: remove_tracker_file_def)
      then show ?thesis using key r1(3)
        by (intro that [of ?u]) (simp_all add: finish_upload_def check_final_md5_def Let_def)
    qed
    then have "upload_round E (length D) hs s = (Inr True, u)"
      using a r1 same by (simp add: upload_round_def Let_def xfer_bind_def)
    then show ?thesis using Nil u r1 by simp
  next
    case (Cons m ms)
    then have r1: "r1 = Inl (SocketError False)" "held (world t1) = take (n + m) D" "faults (world t1) = ms" using out by simp_all
    have t1: "up_ok D k t1" "(\<exists>u. tracker_uri t1 = Some u \<and> u \<noteq> []) \<and> path_ok (up_conn E) (tracker_uri_path t1)" using out by simp_all
    have x: "xfer_bind (attempt_resumable_upload E (length D) hs) (finish_upload E) ?s = (Inl (SocketError False), t1)"
      using a r1 by (simp add: same xfer_bind_def)
    have h: "handle_upload_exception E (SocketError False) t1 = (Inr (), t1)" by (simp add: handle_upload_exception_def)
    let ?t = "t1\<lparr>progress_less_iterations := Suc (fst (snd k)), digesters := [],
      up_sleeps := up_sleeps t1 @ [up_random E (length (up_sleeps t1)) * 2 ^ Suc (fst (snd k))]\<rparr>"
    have track: "track_progress E 0 t1 = (Inr (), ?t)" if "fst (snd k) < fst k"
      using t1(1) that by (simp add: track_progress_def up_ok_def Let_def)
    have "upload_round E (length D) hs s = (Inr False, ?t)" if "fst (snd k) < fst k"
      using track [OF that] x h s0 by (simp add: upload_round_def Let_def xfer_bind_def)
    moreover have "lossy_ok (up_conn E) D (fst k, Suc (fst (snd k)), up_sleeps ?t) (min (n + m) (length D)) ?t"
    proof -
      have "take (n + m) D = take (min (n + m) (length D)) D" by (simp add: min_def)
      then show ?thesis using t1 r1(2) by (auto simp: lossy_ok_def up_ok_def)
    qed
    moreover obtain r t where "upload_round E (length D) hs s = (r, t)" by fastforce
    ultimately show ?thesis using Cons r1(3) by auto
  qed
qed

lemma upload_loop_lossy:
  assumes E: "lossy_env uri md5 D E" and hs: "starts_headers hs" and D: "length D \<noteq> 1"
    and "lossy_ok (up_conn E) D k n s" "length (faults (world s)) \<le> fst k - fst (snd k)" "1 \<notin> set (faults (world s))" "n \<noteq> 1"
  shows "\<exists>t. upload_loop E (length D) hs s = Some (Inr (), t) \<and> held (world t) = D"
  using assms(4-)
proof (induction "faults (world s)" arbitrary: k n s)
  case Nil
  then show ?case using round_lossy [OF E hs D Nil.prems(1,4)] by (auto simp: upload_loop.simps)
next
  case (Cons m ms)
  have m: "fst (snd k) < fst k" "m \<noteq> 1" using Cons.prems(2,3) by (auto simp flip: Cons.hyps(2))
  then obtain t d where t: "upload_round E (length D) hs s = (Inr False, t)" "faults (world t) = ms"
    "lossy_ok (up_conn E) D (fst k, Suc (fst (snd k)), d) (min (n + m) (length D)) t"
    using round_lossy [OF E hs D Cons.prems(1,4)] by (auto simp flip: Cons.hyps(2))
  have "\<exists>t'. upload_loop E (length D) hs t = Some (Inr (), t') \<and> held (world t') = D"
  proof (rule Cons.hyps(1) [OF t(2) [symmetric] t(3)])
    show "min (n + m) (length D) \<noteq> 1" using m D Cons.prems(4) by (auto simp: min_def)
  qed (use Cons.prems(2,3) t(2) in \<open>auto simp flip: Cons.hyps(2)\<close>)
  then show ?case using t(1) by (auto simp: upload_loop.simps)
qed

lemma send_headers_start:
  assumes "\<forall>k \<in> set (map fst hs). str_lower k \<noteq> ''content-length''" "map_of hs ''Content-Range'' = None"
  shows "starts_headers (send_headers agent hs)"
proof -
  have ua: "str_lower ''User-Agent'' \<noteq> ''content-length''" by (simp add: str_lower_def)
  have dom: "set (map fst (AList.delete k xs)) \<subseteq> set (map fst xs)" for k and xs :: headers
    by (auto simp: AList.delete_eq)
  have "starts_headers (AList.update ''User-Agent'' v xs)" if "starts_headers xs" for v xs
    using that ua dom_update [of "''User-Agent''" v xs] by (auto simp: starts_headers_def update_conv')
  moreover have "starts_headers (AList.delete ''Content-Type'' hs)"
    unfolding starts_headers_def
  proof (intro conjI ballI)
    fix k assume "k \<in> set (map fst (AList.delete ''Content-Type'' hs))"
    with dom have "k \<in> set (map fst hs)" by (rule subsetD)
    with assms(1) show "str_lower k \<noteq> ''content-length''" by (rule bspec)
  qed (use assms(2) in \<open>simp add: delete_conv'\<close>)
  moreover have "starts_headers hs" using assms by (simp add: starts_headers_def)
  ultimately show ?thesis by (simp add: send_headers_def Let_def)
qed

text \<open>The state of the service before an upload, and the loop that \<open>send_file\<close> runs.\<close>

definition fresh :: "nat list \<Rightarrow> lossy" where
  "fresh plan = \<lparr>got = None, faults = plan, left = None, range_ok = False\<rparr>"

lemma send_file_lossy:
  assumes "upload_init False (Some n) None f (fresh plan) = (Inr (), s)"
  obtains s' where "send_file E agent (Some n) cfg hs s = upload_loop E (length (file_data f)) (send_headers agent hs) s'"
    "lossy_ok (up_conn E) (file_data f) (n, 0, []) 0 s'" "faults (world s') = plan"
proof -
  define s' where "s' = (seek_fp 0 s)\<lparr>digesters := [], num_tries := n, progress_less_iterations := 0\<rparr>"
  have "tracker_uri s' = None" "fp s' = f\<lparr>file_pos := 0\<rparr>" "server_has_bytes s' = 0" "digesters_before_attempt s' = []"
    "digesters s' = []" "num_tries s' = n" "progress_less_iterations s' = 0" "faults (world s') = plan" "up_sleeps s' = []"
    using assms by (auto simp: s'_def seek_fp_def upload_init_def Let_def fresh_def)
  then show ?thesis
    by (intro that [of s']) (simp_all add: lossy_ok_def up_ok_def send_file_def s'_def seek_fp_def)
qed

lemma upload_completes:
  assumes "lossy_env uri md5 (file_data f) E" and "length (file_data f) \<noteq> 1"
    and "\<forall>k \<in> set (map fst hs). str_lower k \<noteq> ''content-length''" "map_of hs ''Content-Range'' = None"
    and "length plan \<le> n" "1 \<notin> set plan"
    and "upload_init False (Some n) None f (fresh plan) = (Inr (), s)"
  shows "\<exists>t. send_file E agent (Some n) cfg hs s = Some (Inr (), t) \<and> held (world t) = file_data f"
proof -
  obtain s' where s': "send_file E agent (Some n) cfg hs s = upload_loop E (length (file_data f)) (send_headers agent hs) s'"
    "lossy_ok (up_conn E) (file_data f) (n, 0, []) 0 s'" "faults (world s') = plan"
    using send_file_lossy [OF assms(7)] by blast
  show ?thesis unfolding s'(1)
    by (rule upload_loop_lossy [OF assms(1) send_headers_start [OF assms(3,4)] assms(2) s'(2)]) (use assms(5,6) s'(3) in auto)
qed

section \<open>Broken after one byte\<close>

text \<open>An attempt that succeeds has the file positioned where the service ends.\<close>

lemma attempt_position:
  assumes "up_ok D k s" "digesters s = []" "ranges_from_zero E" "0 < key_buffer_size E"
    and "server_end_of E (length D) hs s = (Inr e, u)" "attempt_resumable_upload E (length D) hs s = (Inr x, t)"
  shows "int (min (file_pos (fp u)) (length D)) = e + 1"
proof -
  have u: "up_ok D k u" "-1 \<le> e" using server_end_ok [OF assms(1-5)] by auto
  have sent: "send_from E (length D) hs e u = (Inr x, t)"
    using assms(5,6) by (simp add: attempt_resumable_upload_def xfer_bind_def)
  let ?u1 = "u\<lparr>upload_start_point := (case upload_start_point u of None \<Rightarrow> Some e | p \<Rightarrow> p)\<rparr>"
  let ?u2 = "if int (length D) < e + 1 then seek_fp (nat (e + 1)) ?u1 else ?u1"
  have u2: "up_ok D k ?u2" using u by (auto simp: up_ok_def seek_fp_def)
  obtain r1 t1 where bytes: "upload_file_bytes E (length D) (e + 1) hs ?u2 = (r1, t1)" by fastforce
  have "r1 = Inr x"
  proof (cases r1)
    case (Inl err)
    obtain r2 t2 where f: "(upload_failed E (length D) err :: ('a, string option \<times> string option \<times> string option) upx) t1 = (r2, t2)" by fastforce
    then have "r2 = Inr x" using sent bytes Inl by (simp add: send_from_def Let_def)
    moreover have "up_ok D k t1" using upload_file_bytes_ok [OF u2 bytes] by blast
    ultimately show ?thesis using upload_failed_ok [OF _ f] by blast
  qed (use sent bytes in \<open>simp add: send_from_def Let_def\<close>)
  then have len: "e + 1 + int (length (file_rest (fp ?u2))) = int (length D)" using upload_file_bytes_ok [OF u2 bytes] by blast
  then have small: "\<not> int (length D) < e + 1" by simp
  then have fp: "fp ?u2 = fp u" by simp
  have data: "file_data (fp u) = D" using u by (simp add: up_ok_def)
  have "e + 1 + int (length D - file_pos (fp u)) = int (length D)" using len unfolding fp by (simp add: file_rest_def data)
  then show ?thesis using small by linarith
qed

lemma attempt_after_one_byte:
  assumes E: "lossy_env uri md5 D E" and D: "2 \<le> length D" and s: "lossy_ok (up_conn E) D k 1 s" and none: "faults (world s) = []"
  shows "\<exists>t. attempt_resumable_upload E (length D) hs s = (Inl (Resumable ABORT), t)"
proof -
  have svc: "service E = lossy_service uri md5 (length D)" using E by (simp add: lossy_env_def)
  have ok: "up_ok D k s" and held: "held (world s) = take 1 D" and tr: "str_true (tracker_uri s)"
    and p: "path_ok (up_conn E) (tracker_uri_path s)"
    using s by (auto simp: lossy_ok_def str_true_def)
  obtain resp where "lossy_query (length D) (tracker_uri_host s) (tracker_uri_path s)
      [(''Content-Range'', build_content_range_header ''*'' (length D)), (''Content-Length'', ''0'')] (world s) = (Inr resp, world s)"
    "server_pos (length D) resp = Inr (0, 0)"
    using lossy_pos [of 1 D "world s"] held D by fastforce
  then have pos: "query_server_pos E (length D) s = (Inr (0, 0), s)"
    using E by (simp add: query_server_pos_def query_server_state_def on_service_def lossy_env_def)
  have same: "s\<lparr>server_has_bytes := 0\<rparr> = s" using ok by (cases s) (simp add: up_ok_def)
  have "server_end_of E (length D) hs s = (Inr 0, s)"
    using pos same tr by (simp add: server_end_of_def try_resume_def)
  then have attempt: "attempt_resumable_upload E (length D) hs s = send_from E (length D) hs 0 s"
    by (simp add: attempt_resumable_upload_def xfer_bind_def)
  let ?s2 = "s\<lparr>upload_start_point := (case upload_start_point s of None \<Rightarrow> Some 0 | p \<Rightarrow> p)\<rparr>"
  obtain r t where b: "upload_file_bytes E (length D) 1 hs ?s2 = (r, t)" by fastforce
  have x: "file_rest (fp ?s2) = drop (file_pos (fp s)) D" "file_pos (fp s) \<noteq> 1" using ok D by (simp_all add: file_rest_def up_ok_def)
  have "r = Inl (Resumable ABORT)"
    using bytes_run [OF E x(1) _ b] p none D x(2) by (auto simp: put_result_def enough_def begun_def)
  moreover obtain resp' where q: "query_server_state E (length D) t = (Inr resp', t)" "sr_status resp' \<noteq> 400"
    by (simp add: query_server_state_def on_service_def svc lossy_query_def)
  ultimately have "upload_file_bytes E (length D) 1 hs ?s2 = (Inl (Resumable ABORT), t)"
    "(upload_failed E (length D) (Resumable ABORT) :: (lossy, string option \<times> string option \<times> string option) upx) t = (Inl (Resumable ABORT), t)"
    using b by (simp_all add: upload_failed_def)
  then have "send_from E (length D) hs 0 s = (Inl (Resumable ABORT), t\<lparr>world := close_put (service E) (world t)\<rparr>)"
    using D by (cases D) (simp_all add: send_from_def Let_def)
  then show ?thesis using attempt by simp
qed

lemma upload_aborts:
  assumes E: "lossy_env uri md5 (file_data f) E" and D: "2 \<le> length (file_data f)"
    and hs: "\<forall>k \<in> set (map fst hs). str_lower k \<noteq> ''content-length''" "map_of hs ''Content-Range'' = None"
    and "1 \<le> n" and "upload_init False (Some n) None f (fresh [1]) = (Inr (), s)"
  shows "\<exists>t. send_file E agent (Some n) cfg hs s = Some (Inl (Resumable ABORT), t)"
proof -
  let ?D = "file_data f" and ?hs = "send_headers agent hs"
  obtain s' where s': "send_file E agent (Some n) cfg hs s = upload_loop E (length ?D) ?hs s'"
    "lossy_ok (up_conn E) ?D (n, 0, []) 0 s'" "faults (world s') = [1]"
    using send_file_lossy [OF assms(6)] by blast
  obtain t d where t: "upload_round E (length ?D) ?hs s' = (Inr False, t)" "faults (world t) = []" "lossy_ok (up_conn E) ?D (n, 1, d) 1 t"
    using round_lossy [OF E send_headers_start [OF hs] _ s'(2), of agent] s'(3) D assms(5) by (auto simp: min_def)
  let ?t = "t\<lparr>digesters_before_attempt := digesters t\<rparr>"
  have same: "?t = t" using t(3) by (cases t) (simp add: lossy_ok_def up_ok_def)
  obtain u where "attempt_resumable_upload E (length ?D) ?hs t = (Inl (Resumable ABORT), u)"
    using attempt_after_one_byte [OF E D t(3,2)] by blast
  then have "upload_round E (length ?D) ?hs t = (Inl (Resumable ABORT), remove_tracker_file E u)"
    by (simp add: upload_round_def Let_def same xfer_bind_def handle_upload_exception_def)
  then show ?thesis using s'(1) t(1) by (simp add: upload_loop.simps)
qed

section \<open>The tracker file\<close>

lemma first_line_plain: "CHR 0x0A \<notin> set s \<Longrightarrow> first_line s = str_strip s"
  unfolding first_line_def by (subst takeWhile_eq_all_conv [THEN iffD2]) auto

lemma tracker_reload:
  assumes "save_tracker_uri_to_file E s = (Inr (), t)" "has_tracker E" "tracker_uri s = Some uri"
    and "(case tracker_file s of None \<Rightarrow> [] | Some old \<Rightarrow> drop (length uri) old) = junk"
    and "CHR 0x0A \<notin> set (uri @ junk)" "str_strip (uri @ junk) = uri @ junk"
  shows "upload_init True retries (tracker_file t) f w =
    (case upload_init False retries (tracker_file t) f w of (_, u) \<Rightarrow>
      (case set_tracker_uri (uri @ junk) u of (Inl (Raised (Boto_Error _)), u') \<Rightarrow> (Inr (), u') | z \<Rightarrow> z))"
proof -
  have "tracker_file t = Some (uri @ junk)"
    using assms(1-4) by (auto simp: save_tracker_uri_to_file_def Let_def split: if_splits option.splits)
  then show ?thesis
    using first_line_plain [OF assms(5)] assms(6)
    by (simp add: upload_init_def Let_def load_tracker_uri_from_file_def)
qed

section \<open>A concrete upload\<close>

text \<open>An MD5 for the examples: any function will do that does not give the empty string.\<close>

definition example_md5 :: "string \<Rightarrow> string" where
  "example_md5 s = ''m'' @ s"

definition example_conn :: aws_conn where
  "example_conn = \<lparr>suppress_consec_slashes = True, num_retries = 5, is_secure = True, https_validate_certificates = True,
     ca_certificates_file = None, port = 443, proxy = None, proxy_port = None, proxy_user = None, proxy_pass = None, no_proxy = [],
     use_proxy = False, has_https_connection_factory = False, protocol = ''https'', host = ''storage.googleapis.com'', base_path = ''/'',
     debug = 0, host_header = None, timeout = 70, connection_key = (''storage.googleapis.com'', PortNum 443, True)\<rparr>"

definition example_env :: "nat \<Rightarrow> lossy gs_env" where
  "example_env n = \<lparr>service = lossy_service ''https://gs/k?upload_id=1'' example_md5 n, up_conn = example_conn, up_gae = False,
     up_version = ''2.49.0'', has_tracker = True, tracker_writable = True, upload_header = ''x-goog-resumable'', H = (\<lambda>a. example_md5),
     hash_algs = [''md5''], key_buffer_size = 8192, has_cb = False, num_cb = 10, up_random = (\<lambda>i. 0)\<rparr>"

lemma parsed_uri:
  "(case urlparse x of Inl _ \<Rightarrow> False | Inr u \<Rightarrow> str_lower (url_scheme_of u) \<in> {''http'', ''https''} \<and> url_netloc_of u \<noteq> [] \<and> path_ok c (url_path_of u)) \<Longrightarrow>
     \<exists>u. urlparse x = Inr u \<and> str_lower (url_scheme_of u) \<in> {''http'', ''https''} \<and> url_netloc_of u \<noteq> [] \<and> path_ok c (url_path_of u)"
  by (auto split: sum.splits)

lemma example_env_ok: "lossy_env ''https://gs/k?upload_id=1'' example_md5 ''abc'' (example_env 3)"
proof -
  have "\<exists>u. urlparse ''https://gs/k?upload_id=1'' = Inr u \<and> str_lower (url_scheme_of u) \<in> {''http'', ''https''} \<and> url_netloc_of u \<noteq> []
      \<and> path_ok example_conn (url_path_of u)"
    by (rule parsed_uri) code_simp
  then show ?thesis by (simp add: lossy_env_def example_env_def example_md5_def numeral_3_eq_3)
qed

lemma example_env_ranges: "ranges_from_zero (example_env n)" "0 < key_buffer_size (example_env n)"
  by (rule lossy_ranges [of _ "''https://gs/k?upload_id=1''" example_md5 n]) (simp_all add: example_env_def)

abbreviation example_file :: pyfile where
  "example_file \<equiv> \<lparr>file_data = ''abc'', file_pos = 2, file_mode = Some ''rb''\<rparr>"

section \<open>Properties\<close>

text \<open>
  C4: Over connections that break, a resumable upload of any file but one of one byte completes, with any connection
  object: if at most \<open>num_retries\<close> times the connection breaks, each time after any number of bytes but one, the service
  ends up with exactly the file.  (The service refuses a \<open>PUT\<close> whose range or length does not continue what it has.  Its
  upload URI has a path, unless consecutive slashes are not suppressed.)
\<close>

theorem upload_survives_broken_connections:
  assumes "lossy_env uri md5 (file_data f) E" and "length (file_data f) \<noteq> 1"
    and "\<forall>k \<in> set (map fst hs). str_lower k \<noteq> ''content-length''" "map_of hs ''Content-Range'' = None"
    and "length plan \<le> n" "1 \<notin> set plan"
    and "upload_init False (Some n) None f (fresh plan) = (Inr (), s)"
  shows "\<exists>t. send_file E agent (Some n) cfg hs s = Some (Inr (), t) \<and> held (world t) = file_data f"
  by (rule upload_completes [OF assms])

theorem upload_survives_broken_connections_witness:
  "\<exists>t. send_file (example_env 3) ''boto'' (Some 2) 6 [] (snd (upload_init False (Some 2) None example_file (fresh [2, 0])))
     = Some (Inr (), t) \<and> held (world t) = ''abc''"
  using upload_survives_broken_connections [of "''https://gs/k?upload_id=1''" example_md5 example_file "example_env 3" "[]" "[2, 0]" 2
      "snd (upload_init False (Some 2) None example_file (fresh [2, 0]))" "''boto''" 6] example_env_ok
  by (simp add: upload_init_def Let_def)

text \<open>
  C28: If the connection breaks after one byte, the upload is given up (\<open>ABORT\<close>) although retries are left
  and the service has kept its state: the service's last byte has number 0, which the code takes for
  nothing to catch up with, so the file stays where the broken attempt left it.
\<close>

theorem upload_aborts_after_one_byte:
  assumes "lossy_env uri md5 (file_data f) E" and "2 \<le> length (file_data f)"
    and "\<forall>k \<in> set (map fst hs). str_lower k \<noteq> ''content-length''" "map_of hs ''Content-Range'' = None"
    and "1 \<le> n" and "upload_init False (Some n) None f (fresh [1]) = (Inr (), s)"
  shows "\<exists>t. send_file E agent (Some n) cfg hs s = Some (Inl (Resumable ABORT), t)"
  by (rule upload_aborts [OF assms])

theorem upload_aborts_after_one_byte_witness:
  "\<exists>t. send_file (example_env 3) ''boto'' (Some 2) 6 [] (snd (upload_init False (Some 2) None example_file (fresh [1])))
     = Some (Inl (Resumable ABORT), t)"
  using upload_aborts_after_one_byte [of "''https://gs/k?upload_id=1''" example_md5 example_file "example_env 3" "[]" 2
      "snd (upload_init False (Some 2) None example_file (fresh [1]))" "''boto''" 6] example_env_ok
  by (simp add: upload_init_def Let_def)

text \<open>
  C5: If the ranges that the service reports start at 0, an upload that returns has hashed, over all
  attempts, exactly the bytes of the file, and has removed its tracker file.  (A file of one byte is the
  exception.)
\<close>

theorem upload_digests_whole_file:
  assumes "ranges_from_zero E" "0 < key_buffer_size E" "length (file_data f) \<noteq> 1"
    and "upload_init named retries text f w = (Inr (), s)" and "send_file E agent retries cfg hs s = Some (Inr (), t)"
  shows "(\<forall>a \<in> set (hash_algs E). map_of (local_hashes t) a = Some (H E a (file_data f)))
    \<and> (has_tracker E \<longrightarrow> tracker_file t = None)"
  using upload_hashes_file [OF assms] by (simp add: hashed_def)

theorem upload_digests_whole_file_witness:
  "\<exists>t. send_file (example_env 3) ''boto'' (Some 2) 6 [] (snd (upload_init False (Some 2) None example_file (fresh [2, 0])))
     = Some (Inr (), t) \<and> map_of (local_hashes t) ''md5'' = Some (example_md5 ''abc'') \<and> tracker_file t = None"
proof -
  let ?s = "snd (upload_init False (Some 2) None example_file (fresh [2, 0]))"
  have s: "upload_init False (Some 2) None example_file (fresh [2, 0]) = (Inr (), ?s)" by (simp add: upload_init_def Let_def)
  have "lossy_env ''https://gs/k?upload_id=1'' example_md5 (file_data example_file) (example_env 3)" by (simp add: example_env_ok)
  from upload_completes [OF this _ _ _ _ _ s, of "[]" "''boto''" 6]
  obtain t where t: "send_file (example_env 3) ''boto'' (Some 2) 6 [] ?s = Some (Inr (), t)" by auto
  from upload_digests_whole_file [OF example_env_ranges _ s t] t show ?thesis by (simp add: example_env_def)
qed

text \<open>
  If the ranges start at 0, as the protocol has it, the retry loop returns after at most \<open>num_retries\<close>
  sleeps, whatever arrives in between: the position compared to find progress is the start of the range,
  so no round counts as progress.
\<close>

theorem upload_never_sees_progress:
  assumes "ranges_from_zero E" "0 < key_buffer_size E" "upload_init named retries text f w = (Inr (), s)"
  shows "\<exists>r t. send_file E agent retries cfg hs s = Some (r, t)
    \<and> length (up_sleeps t) \<le> (case retries of None \<Rightarrow> cfg | Some n \<Rightarrow> n)"
proof -
  obtain s' where "send_file E agent retries cfg hs s = upload_loop E (length (file_data f)) (send_headers agent hs) s'"
    "up_ok (file_data f) (case retries of None \<Rightarrow> cfg | Some n \<Rightarrow> n, 0, []) s'" "digesters s' = []"
    using send_file_loop [OF assms(3)] by metis
  with upload_returns [OF assms(1,2)] show ?thesis by fastforce
qed

theorem upload_never_sees_progress_witness:
  "\<exists>r t. send_file (example_env 3) ''boto'' (Some 2) 6 [] (snd (upload_init False (Some 2) None example_file (fresh [0, 2, 0])))
     = Some (r, t) \<and> length (up_sleeps t) \<le> 2"
  using upload_never_sees_progress [OF example_env_ranges, of False "Some 2" None example_file "fresh [0, 2, 0]"
      "snd (upload_init False (Some 2) None example_file (fresh [0, 2, 0]))" 3 "''boto''" 6 "[]"]
  by (simp add: upload_init_def Let_def)

text \<open>
  An attempt succeeds only if the file is positioned right after what the service has.  (A fresh start
  after a failed resumption does not rewind the file.)
\<close>

theorem attempt_needs_position:
  assumes "up_ok D k s" "digesters s = []" "ranges_from_zero E" "0 < key_buffer_size E"
    and "server_end_of E (length D) hs s = (Inr e, u)" "attempt_resumable_upload E (length D) hs s = (Inr x, t)"
  shows "int (min (file_pos (fp u)) (length D)) = e + 1"
  by (rule attempt_position [OF assms])

text \<open>
  A handler that reads the tracker file written by \<open>_save_tracker_uri_to_file\<close> has the saved URI followed
  by what the file held beyond the length of the URI: the URI itself only if the file was not longer.
\<close>

theorem tracker_roundtrip:
  assumes "save_tracker_uri_to_file E s = (Inr (), t)" "has_tracker E" "tracker_uri s = Some uri"
    and "(case tracker_file s of None \<Rightarrow> [] | Some old \<Rightarrow> drop (length uri) old) = junk"
    and "CHR 0x0A \<notin> set (uri @ junk)" "str_strip (uri @ junk) = uri @ junk"
    and "urlparse (uri @ junk) = Inr u" "str_lower (url_scheme_of u) \<in> {''http'', ''https''}" "url_netloc_of u \<noteq> []"
  shows "\<exists>v. upload_init True retries (tracker_file t) f w = (Inr (), v) \<and> tracker_uri v = Some (uri @ junk)
    \<and> tracker_uri_host v = url_netloc_of u \<and> tracker_uri_path v = url_path_of u @ ''?'' @ url_query_of u"
  unfolding tracker_reload [OF assms(1-6)]
  using assms(7-9) by (auto simp: upload_init_def Let_def set_tracker_uri_def)

text \<open>The witnesses of the two last: a first attempt without trouble, and a tracker file that is written over a longer one.\<close>

theorem attempt_needs_position_witness:
  "\<exists>u x t. server_end_of (example_env 3) (length ''abc'') [] (snd (upload_init False (Some 2) None (example_file\<lparr>file_pos := 0\<rparr>) (fresh []))) = (Inr (-1), u)
    \<and> attempt_resumable_upload (example_env 3) (length ''abc'') [] (snd (upload_init False (Some 2) None (example_file\<lparr>file_pos := 0\<rparr>) (fresh []))) = (Inr x, t)
    \<and> int (min (file_pos (fp u)) (length ''abc'')) = 0"
proof -
  let ?s = "snd (upload_init False (Some 2) None (example_file\<lparr>file_pos := 0\<rparr>) (fresh []))"
  have ok: "lossy_ok (up_conn (example_env 3)) ''abc'' (2, 0, []) 0 ?s" "tracker_uri ?s = None" "faults (world ?s) = []"
    by (simp_all add: lossy_ok_def up_ok_def upload_init_def Let_def fresh_def)
  then have up: "up_ok ''abc'' (2, 0, []) ?s" "digesters ?s = []" by (simp_all add: lossy_ok_def)
  have E: "lossy_env ''https://gs/k?upload_id=1'' example_md5 ''abc'' (example_env 3)" by (rule example_env_ok)
  have hs: "starts_headers []" by (simp add: starts_headers_def)
  obtain u where u: "server_end_of (example_env 3) (length ''abc'') [] ?s = (Inr (-1), u)"
    using server_end_starts [OF E hs up(1) ok(2)] by blast
  obtain r t where a: "attempt_resumable_upload (example_env 3) (length ''abc'') [] ?s = (r, t)" by fastforce
  then have r: "r = Inr (Some (hexlify (example_md5 ''abc'')), None, None)"
    using attempt_lossy [OF E hs _ ok(1) _ a] ok(3) by simp
  have "int (min (file_pos (fp u)) (length ''abc'')) = -1 + 1"
    by (rule attempt_needs_position [OF up example_env_ranges u a [unfolded r]])
  then show ?thesis using u a r by auto
qed

theorem tracker_roundtrip_witness:
  "\<exists>t v. save_tracker_uri_to_file (example_env 3) ((snd (upload_init False None (Some ''https://gs/k?upload_id=012'') example_file (fresh [])))
        \<lparr>tracker_uri := Some ''https://gs/k?upload_id=3''\<rparr>) = (Inr (), t)
     \<and> upload_init True None (tracker_file t) example_file (fresh []) = (Inr (), v) \<and> tracker_uri v = Some ''https://gs/k?upload_id=312''"
proof -
  let ?s = "(snd (upload_init False None (Some ''https://gs/k?upload_id=012'') example_file (fresh [])))\<lparr>tracker_uri := Some ''https://gs/k?upload_id=3''\<rparr>"
  obtain t where t: "save_tracker_uri_to_file (example_env 3) ?s = (Inr (), t)"
    by (simp add: save_tracker_uri_to_file_def example_env_def Let_def)
  have "str_strip (''https://gs/k?upload_id=3'' @ ''12'') = ''https://gs/k?upload_id=3'' @ ''12''" by code_simp
  moreover obtain u where "urlparse (''https://gs/k?upload_id=3'' @ ''12'') = Inr u" "str_lower (url_scheme_of u) \<in> {''http'', ''https''}" "url_netloc_of u \<noteq> []"
  proof -
    have "\<exists>u. urlparse (''https://gs/k?upload_id=3'' @ ''12'') = Inr u \<and> str_lower (url_scheme_of u) \<in> {''http'', ''https''} \<and> url_netloc_of u \<noteq> []
        \<and> path_ok example_conn (url_path_of u)"
      by (rule parsed_uri) code_simp
    then show ?thesis using that by blast
  qed
  ultimately have "\<exists>v. upload_init True None (tracker_file t) example_file (fresh []) = (Inr (), v)
      \<and> tracker_uri v = Some (''https://gs/k?upload_id=3'' @ ''12'')"
    using tracker_roundtrip [OF t, of "''https://gs/k?upload_id=3''" "''12''" u None example_file "fresh []"]
    by (auto simp: example_env_def upload_init_def Let_def)
  then show ?thesis using t by simp
qed

end
