(* ===== verification/S3_Key.thy ===== *)
theory S3_Key
  imports Transfer_Base
begin

text \<open>
  Keys of S3, the reading half: \<open>Key\<close> of \<^verbatim>\<open>boto/s3/key.py\<close> with its response, \<open>HTTPResponse\<close> of
  \<^verbatim>\<open>boto/connection.py\<close>, and reading an object as a file, \<^verbatim>\<open>boto/s3/keyfile.py\<close>.

  \<open>make_request\<close> is a function \<open>s3_get\<close> on the state \<open>'w\<close> of the service, which gives a response or an
  exception.  The file that an object is read into is part of the state.
\<close>

section \<open>Responses\<close>

text \<open>
  A response of \<open>httplib\<close> (Python 2.7) and the cache that boto puts on top: the bytes that will still
  arrive, the number of bytes still announced (\<open>None\<close> if the body ends with the connection), whether the
  connection is reset after them (or just ends), whether the response is still open.
\<close>

record get_response =
  gr_status :: nat
  gr_headers :: "(string, string) dict"
  gr_avail :: string
  gr_length :: "nat option"
  gr_reset :: bool
  gr_open :: bool
  gr_cached :: string

text \<open>\<open>read(amt)\<close> of \<open>httplib\<close>, which takes a short body for its end.\<close>

definition http_read :: "nat \<Rightarrow> get_response \<Rightarrow> (transfer_exc + string) \<times> get_response" where
  "http_read amt r =
     (if \<not> gr_open r then (Inr [], r)
      else let amt = (case gr_length r of None \<Rightarrow> amt | Some n \<Rightarrow> min amt n)
      in if length (gr_avail r) < amt \<and> gr_reset r then (Inl (SocketError False), r\<lparr>gr_avail := [], gr_reset := False\<rparr>)
         else let s = take amt (gr_avail r); r = r\<lparr>gr_avail := drop amt (gr_avail r)\<rparr>
         in if s = [] \<and> 0 < amt then (Inr [], r\<lparr>gr_open := False\<rparr>)
            else case gr_length r of
                   None \<Rightarrow> (Inr s, r)
                 | Some n \<Rightarrow> (Inr s, r\<lparr>gr_length := Some (n - length s), gr_open := n \<noteq> length s\<rparr>))"

text \<open>\<open>read()\<close> of \<open>httplib\<close>, which misses bytes that were announced.\<close>

definition http_read_all :: "get_response \<Rightarrow> (transfer_exc + string) \<times> get_response" where
  "http_read_all r =
     (if \<not> gr_open r then (Inr [], r)
      else let n = (case gr_length r of None \<Rightarrow> length (gr_avail r) | Some n \<Rightarrow> n)
      in if gr_reset r \<and> (gr_length r = None \<or> length (gr_avail r) < n)
         then (Inl (SocketError False), r\<lparr>gr_avail := [], gr_reset := False\<rparr>)
         else if length (gr_avail r) < n then (Inl IncompleteRead, r\<lparr>gr_avail := [], gr_open := False\<rparr>)
         else (Inr (take n (gr_avail r)), r\<lparr>gr_avail := drop n (gr_avail r), gr_length := map_option (\<lambda>_. 0) (gr_length r), gr_open := False\<rparr>))"

definition response_read :: "nat option \<Rightarrow> get_response \<Rightarrow> (transfer_exc + string) \<times> get_response" where
  "response_read amt r =
     (case amt of
        Some n \<Rightarrow> http_read n r
      | None \<Rightarrow>
          if gr_cached r \<noteq> [] then (Inr (gr_cached r), r)
          else case http_read_all r of
                 (Inl e, r) \<Rightarrow> (Inl e, r)
               | (Inr s, r) \<Rightarrow> (Inr s, r\<lparr>gr_cached := s\<rparr>))"

section \<open>Keys\<close>

text \<open>The provider's headers, beyond those of \<open>provider\<close>.\<close>

record s3_provider = provider +
  acl_header :: string
  storage_class_header :: string
  sse_header :: "string option"
  version_id_header :: string
  copy_source_version_id :: string
  delete_marker_header :: string
  restore_header :: string
  chunked_transfer_support :: bool
  provider_name :: string

type_synonym get_args = "headers \<times> string option \<times> string \<times> nat option"

record 'w s3_env =
  s3_provider_of :: s3_provider
  s3_buffer :: nat
  s3_md5 :: "string \<Rightarrow> string"
  s3_get :: "get_args \<Rightarrow> 'w \<Rightarrow> (transfer_exc + get_response) \<times> 'w"

text \<open>
  \<open>k_fields\<close> are the attributes for the metadata fields of a response (\<open>content_type\<close>, \<open>etag\<close>, \<dots>), by
  name; those that are absent are \<open>None\<close>.  \<open>k_file\<close> is the file that is being read or written, \<open>k_calls\<close>
  the calls of the callback.
\<close>

record 'w s3_key =
  k_name :: "string option"
  k_metadata :: "(string, string) dict"
  k_fields :: "(string, string) dict"
  k_storage_class :: "string option"
  k_path :: "string option"
  k_resp :: "get_response option"
  k_mode :: "string option"
  k_closed :: bool
  k_size :: "int option"
  k_version_id :: "string option"
  k_source_version_id :: "string option"
  k_delete_marker :: bool
  k_encrypted :: "string option"
  k_ongoing_restore :: "bool option"
  k_expiry_date :: "string option"
  k_hashes :: "(string, string) dict"
  k_file :: pyfile
  k_calls :: "(int \<times> int) list"
  k_world :: 'w

type_synonym ('w, 'a) s3x = "('w s3_key, 'a) xfer"

definition DefaultContentType :: string where
  "DefaultContentType = ''application/octet-stream''"

definition key_init :: "string option \<Rightarrow> pyfile \<Rightarrow> 'w \<Rightarrow> 'w s3_key" where
  "key_init name f w =
     \<lparr>k_name = name, k_metadata = [], k_fields = [(''content_type'', DefaultContentType)], k_storage_class = None, k_path = None,
      k_resp = None, k_mode = None, k_closed = False, k_size = None, k_version_id = None, k_source_version_id = None,
      k_delete_marker = False, k_encrypted = None, k_ongoing_restore = None, k_expiry_date = None, k_hashes = [],
      k_file = f, k_calls = [], k_world = w\<rparr>"

definition k_etag :: "'w s3_key \<Rightarrow> string option" where
  "k_etag s = map_of (k_fields s) ''etag''"

definition msg_header :: "get_response \<Rightarrow> string \<Rightarrow> string option" where
  "msg_header r name = map_of (gr_headers r) (str_lower name)"

definition handle_encryption_headers :: "'w s3_env \<Rightarrow> get_response \<Rightarrow> 'w s3_key \<Rightarrow> 'w s3_key" where
  "handle_encryption_headers E r s = s\<lparr>k_encrypted :=
     (case sse_header (s3_provider_of E) of None \<Rightarrow> None | Some h \<Rightarrow> if h = [] then None else msg_header r h)\<rparr>"

definition handle_storage_class_header :: "'w s3_env \<Rightarrow> get_response \<Rightarrow> 'w s3_key \<Rightarrow> 'w s3_key" where
  "handle_storage_class_header E r s =
     (if storage_class_header (s3_provider_of E) = [] then s
      else s\<lparr>k_storage_class := (case msg_header r (storage_class_header (s3_provider_of E)) of
               Some c \<Rightarrow> Some c
             | None \<Rightarrow> if provider_name (s3_provider_of E) = ''aws'' then Some ''STANDARD'' else None)\<rparr>)"

definition handle_version_headers :: "'w s3_env \<Rightarrow> (string \<Rightarrow> string option) \<Rightarrow> bool \<Rightarrow> 'w s3_key \<Rightarrow> 'w s3_key" where
  "handle_version_headers E getheader force s =
     (let p = s3_provider_of E;
          s = (if k_version_id s = None \<or> force then s\<lparr>k_version_id := getheader (version_id_header p)\<rparr> else s)
      in s\<lparr>k_source_version_id := getheader (copy_source_version_id p),
           k_delete_marker := (getheader (delete_marker_header p) = Some ''true'')\<rparr>)"

fun restore_parts :: "string list \<Rightarrow> 'w s3_key \<Rightarrow> (transfer_exc + unit) \<times> 'w s3_key" where
  "restore_parts [] s = (Inr (), s)"
| "restore_parts (part # parts) s =
     (case map str_strip (str_split CHR ''='' part) of
        [name, val] \<Rightarrow>
          (let val = filter (\<lambda>c. c \<noteq> CHR 0x22) val
           in restore_parts parts
                (if name = ''ongoing-request'' then s\<lparr>k_ongoing_restore := Some (str_lower val = ''true'')\<rparr>
                 else if name = ''expiry-date'' then s\<lparr>k_expiry_date := Some val\<rparr> else s))
      | _ \<Rightarrow> (Inl (Raised ValueError), s))"

definition handle_restore_headers :: "'w s3_env \<Rightarrow> get_response \<Rightarrow> ('w, unit) s3x" where
  "handle_restore_headers E r s =
     (case msg_header r (restore_header (s3_provider_of E)) of
        None \<Rightarrow> (Inr (), s)
      | Some header \<Rightarrow> restore_parts (case split_first CHR '','' header of (a, None) \<Rightarrow> [a] | (a, Some b) \<Rightarrow> [a, b]) s)"

definition base_fields :: "string set" where
  "base_fields = base_user_settable_fields \<union> {''last-modified'', ''content-length'', ''date'', ''etag''}"

text \<open>\<open>re.sub('.*/(.*)', '\\1', value)\<close>: what follows the last slash.\<close>

definition after_slash :: "string \<Rightarrow> string" where
  "after_slash v = last (str_split CHR ''/'' v)"

definition underscored :: "string \<Rightarrow> string" where
  "underscored n = map (\<lambda>c. if c = CHR ''-'' then CHR ''_'' else c) n"

fun take_headers :: "bool \<Rightarrow> (string \<times> string) list \<Rightarrow> 'w s3_key \<Rightarrow> (transfer_exc + unit) \<times> 'w s3_key" where
  "take_headers ranged [] s = (Inr (), s)"
| "take_headers ranged ((name, v) # hs) s =
     (if str_lower name = ''content-length'' \<and> \<not> ranged
      then xfer_bind (xfer_lift (py_int v)) (\<lambda>n s. take_headers ranged hs (s\<lparr>k_size := Some n\<rparr>)) s
      else if str_lower name = ''content-range''
      then xfer_bind (xfer_lift (py_int (after_slash v))) (\<lambda>n s. take_headers ranged hs (s\<lparr>k_size := Some n\<rparr>)) s
      else if str_lower name \<in> base_fields
      then take_headers ranged hs (s\<lparr>k_fields := AList.update (underscored (str_lower name)) v (k_fields s)\<rparr>)
      else take_headers ranged hs s)"

text \<open>A response of the right status: its headers become attributes of the key.\<close>

definition take_response :: "'w s3_env \<Rightarrow> get_response \<Rightarrow> ('w, get_response) s3x" where
  "take_response E r s =
     (case get_aws_metadata (gr_headers r) (provider.truncate (s3_provider_of E)) of
        (meta, hs) \<Rightarrow>
          (let r = r\<lparr>gr_headers := hs\<rparr>; s = s\<lparr>k_metadata := meta, k_resp := Some r\<rparr>
           in xfer_bind (take_headers (''content-range'' \<in> set (map fst hs)) hs) (\<lambda>_ s.
              let s = handle_encryption_headers E r (handle_version_headers E (msg_header r) False s)
              in xfer_bind (handle_restore_headers E r) (\<lambda>_ s. (Inr r, s)) s) s))"

text \<open>The value is the response that is open afterwards.\<close>

definition key_open_read :: "'w s3_env \<Rightarrow> headers \<Rightarrow> string \<Rightarrow> nat option \<Rightarrow> ('w, get_response) s3x" where
  "key_open_read E hs query_args retries s =
     (case k_resp s of
        Some r \<Rightarrow> (Inr r, s)
      | None \<Rightarrow>
          (case s3_get E (hs, k_name s, query_args, retries) (k_world s) of
             (Inl e, w) \<Rightarrow> (Inl e, s\<lparr>k_mode := Some ''r'', k_world := w\<rparr>)
           | (Inr r, w) \<Rightarrow>
              (let s = s\<lparr>k_mode := Some ''r'', k_world := w, k_resp := Some r\<rparr>
               in if gr_status r < 199 \<or> 299 < gr_status r
                  then (case response_read None r of
                          (Inl e, r) \<Rightarrow> (Inl e, s\<lparr>k_resp := Some r\<rparr>)
                        | (Inr body, r) \<Rightarrow> (Inl (ResponseError (gr_status r)), s\<lparr>k_resp := Some r\<rparr>))
                  else take_response E r s)))"

definition key_open :: "'w s3_env \<Rightarrow> string \<Rightarrow> headers \<Rightarrow> string \<Rightarrow> nat option \<Rightarrow> ('w, get_response) s3x" where
  "key_open E mode hs query_args retries s =
     (if mode = ''r'' then key_open_read E hs query_args retries (s\<lparr>k_mode := Some ''r''\<rparr>)
      else if mode = ''w'' then (Inl (Raised (Boto_Error ''BotoClientError'')), s\<lparr>k_mode := Some ''w''\<rparr>)
      else (Inl (Raised (Boto_Error ''BotoClientError'')), s))"

definition key_close :: "bool \<Rightarrow> ('w, unit) s3x" where
  "key_close fast s =
     (case (if fast then None else k_resp s) of
        None \<Rightarrow> (Inr (), s\<lparr>k_resp := None, k_mode := None, k_closed := True\<rparr>)
      | Some r \<Rightarrow>
         (case response_read None r of
            (Inl e, r) \<Rightarrow> (Inl e, s\<lparr>k_resp := Some r\<rparr>)
          | (Inr _, r) \<Rightarrow> (Inr (), s\<lparr>k_resp := None, k_mode := None, k_closed := True\<rparr>)))"

text \<open>\<open>next\<close>, whose \<open>None\<close> is \<open>StopIteration\<close>, and \<open>read\<close>.\<close>

definition key_next :: "'w s3_env \<Rightarrow> ('w, string option) s3x" where
  "key_next E = xfer_bind (key_open_read E [] [] None) (\<lambda>r s.
     case response_read (Some (s3_buffer E)) r of
       (Inl e, r) \<Rightarrow> (Inl e, s\<lparr>k_resp := Some r\<rparr>)
     | (Inr d, r) \<Rightarrow>
        (let s = s\<lparr>k_resp := Some r\<rparr>
         in if d = [] then xfer_bind (key_close False) (\<lambda>_ s. (Inr None, s)) s else (Inr (Some d), s)))"

definition key_read :: "'w s3_env \<Rightarrow> nat \<Rightarrow> ('w, string) s3x" where
  "key_read E n = xfer_bind (key_open_read E [] [] None) (\<lambda>r s.
     case response_read (if n = 0 then None else Some n) r of
       (Inl e, r) \<Rightarrow> (Inl e, s\<lparr>k_resp := Some r\<rparr>)
     | (Inr d, r) \<Rightarrow>
        (let s = s\<lparr>k_resp := Some r\<rparr>
         in if d = [] then xfer_bind (key_close False) (\<lambda>_ s. (Inr d, s)) s else (Inr d, s)))"

section \<open>Getting a file\<close>

text \<open>Writing to a file: in append mode at its end; past the end, the gap is filled with zeros.\<close>

definition appends :: "pyfile \<Rightarrow> bool" where
  "appends f \<longleftrightarrow> (case file_mode f of None \<Rightarrow> False | Some m \<Rightarrow> str_startswith m ''a'')"

definition file_write :: "string \<Rightarrow> pyfile \<Rightarrow> pyfile" where
  "file_write d f =
     (if d = [] then f
      else let pos = (if appends f then length (file_data f) else file_pos f);
               old = file_data f @ replicate (pos - length (file_data f)) (CHR 0x00)
           in f\<lparr>file_data := take pos old @ d @ drop (pos + length d) old, file_pos := pos + length d\<rparr>)"

text \<open>
  A callback: none, the caller's, or \<open>ByteTranslatingCallbackHandler(cb, start).call\<close>, which calls \<open>cb\<close>
  even if there is none.
\<close>

datatype callback = NoCb | Cb | Translated callback int

fun call_back :: "callback \<Rightarrow> int \<Rightarrow> int \<Rightarrow> ('w, unit) s3x" where
  "call_back NoCb n len s = (Inl (Raised TypeError), s)"
| "call_back Cb n len s = (Inr (), s\<lparr>k_calls := k_calls s @ [(n, len)]\<rparr>)"
| "call_back (Translated cb start) n len s = call_back cb (start + n) len s"

text \<open>How many buffers there are between two calls; \<open>/\<close> of integers rounds down.\<close>

definition ceil_quotient :: "int \<Rightarrow> int \<Rightarrow> int" where
  "ceil_quotient a b = - ((- a) div b)"

definition buffers_per_call :: "nat \<Rightarrow> int option \<Rightarrow> int \<Rightarrow> int res" where
  "buffers_per_call buffer len num_cb =
     (if len = None \<and> num_cb \<noteq> -1 then if buffer = 0 then Inl ZeroDivisionError else Inr (1048576 div int buffer)
      else if 1 < num_cb then if buffer = 0 then Inl ZeroDivisionError
        else Inr (ceil_quotient ((case len of None \<Rightarrow> 0 | Some n \<Rightarrow> n) div int buffer) (num_cb - 1))
      else Inr (if num_cb < 0 then -1 else 0))"

lemma response_read_shrinks:
  assumes "response_read (Some n) r = (Inr d, r')"
  shows "length (gr_avail r') + length d = length (gr_avail r)"
  using assms by (auto simp: response_read_def http_read_def Let_def split: if_splits option.splits)

lemma response_read_less: "response_read (Some n) r = (Inr d, r') \<Longrightarrow> d \<noteq> [] \<Longrightarrow> length (gr_avail r') < length (gr_avail r)"
  using response_read_shrinks [of n r d r'] by (cases d) auto

text \<open>
  The loop over the key, with the response \<open>r\<close> that is open; \<open>data\<close> is what was read so far, which stands
  for \<open>data_len\<close> and for what the digesters were fed.
\<close>

function get_loop :: "'w s3_env \<Rightarrow> callback \<Rightarrow> int \<Rightarrow> int \<Rightarrow> string \<Rightarrow> int \<Rightarrow> get_response \<Rightarrow> ('w, string \<times> int) s3x" where
  "get_loop E cb cb_size cb_count data i r s =
     (case response_read (Some (s3_buffer E)) r of
        (Inl e, r) \<Rightarrow> (Inl e, s\<lparr>k_resp := Some r\<rparr>)
      | (Inr d, r) \<Rightarrow>
          if d = [] then xfer_bind (key_close False) (\<lambda>_ s. (Inr (data, i), s)) (s\<lparr>k_resp := Some r\<rparr>)
          else let s = s\<lparr>k_resp := Some r, k_file := file_write d (k_file s)\<rparr>; data = data @ d
          in if cb = NoCb then get_loop E cb cb_size cb_count data i r s
             else if 0 < cb_size \<and> cb_size \<le> int (length data) then (Inr (data, i), s)
             else if i + 1 = cb_count \<or> cb_count = -1
             then (case call_back cb (int (length data)) cb_size s of
                     (Inl e, s) \<Rightarrow> (Inl e, s)
                   | (Inr _, s) \<Rightarrow> get_loop E cb cb_size cb_count data 0 r s)
             else get_loop E cb cb_size cb_count data (i + 1) r s)"
  by pat_completeness auto
termination
  by (relation "measure (\<lambda>(E, cb, cs, cc, data, i, r, s). length (gr_avail r))") (auto dest!: response_read_less [OF sym])

declare get_loop.simps [simp del]

definition get_query_args :: "bool \<Rightarrow> string option \<Rightarrow> (string \<times> string) list \<Rightarrow> string" where
  "get_query_args torrent version_id response_headers =
     str_join ''&'' ((if torrent then [''torrent''] else [])
       @ (if str_true version_id then [''versionId='' @ the version_id] else [])
       @ map (\<lambda>(k, v). k @ ''='' @ quote ''/'' v) response_headers)"

definition get_file_internal :: "'w s3_env \<Rightarrow> headers \<Rightarrow> callback \<Rightarrow> int \<Rightarrow> bool \<Rightarrow> string option \<Rightarrow> nat option \<Rightarrow> (string \<times> string) list \<Rightarrow> ('w, unit) s3x" where
  "get_file_internal E hs cb num_cb torrent version_id retries response_headers s =
     (let version_id = (case version_id of None \<Rightarrow> k_version_id s | Some v \<Rightarrow> Some v)
      in xfer_bind (key_open E ''r'' hs (get_query_args torrent version_id response_headers) retries) (\<lambda>r s.
         let cb_size = (case k_size s of None \<Rightarrow> 0 | Some n \<Rightarrow> n)
         in xfer_bind (if cb = NoCb then (\<lambda>s. (Inr 0, s))
              else xfer_bind (xfer_lift (buffers_per_call (s3_buffer E) (k_size s) num_cb))
                (\<lambda>cb_count. xfer_bind (call_back cb 0 cb_size) (\<lambda>_ s. (Inr cb_count, s)))) (\<lambda>cb_count.
            xfer_bind (get_loop E cb cb_size cb_count [] 0 r) (\<lambda>(data, i).
            xfer_bind (if cb \<noteq> NoCb \<and> (cb_count \<le> 1 \<or> 0 < i) \<and> data \<noteq> [] then call_back cb (int (length data)) cb_size
                       else (\<lambda>s. (Inr (), s))) (\<lambda>_ s.
            let s = (if torrent then s else s\<lparr>k_hashes := AList.update ''md5'' (s3_md5 E data) (k_hashes s)\<rparr>);
                s = (if k_size s = None \<and> \<not> torrent \<and> map_of hs ''Range'' = None then s\<lparr>k_size := Some (int (length data))\<rparr> else s)
            in key_close False s))) s) s)"

definition key_get_file :: "'w s3_env \<Rightarrow> headers \<Rightarrow> callback \<Rightarrow> int \<Rightarrow> bool \<Rightarrow> string option \<Rightarrow> nat option \<Rightarrow> (string \<times> string) list \<Rightarrow> ('w, unit) s3x" where
  "key_get_file E hs cb num_cb torrent version_id retries response_headers =
     get_file_internal E hs cb num_cb torrent version_id retries response_headers"

definition get_contents_as_string :: "'w s3_env \<Rightarrow> headers \<Rightarrow> callback \<Rightarrow> int \<Rightarrow> bool \<Rightarrow> string option \<Rightarrow> (string \<times> string) list \<Rightarrow> ('w, string) s3x" where
  "get_contents_as_string E hs cb num_cb torrent version_id response_headers s =
     (case key_get_file E hs cb num_cb torrent version_id None response_headers
             (s\<lparr>k_file := \<lparr>file_data = [], file_pos = 0, file_mode = None\<rparr>\<rparr>) of
        (Inl e, t) \<Rightarrow> (Inl e, t\<lparr>k_file := k_file s\<rparr>)
      | (Inr _, t) \<Rightarrow> (Inr (file_data (k_file t)), t\<lparr>k_file := k_file s\<rparr>))"

section \<open>What a download gives\<close>

lemma file_write_append: "file_write (a @ b) f = file_write b (file_write a f)"
proof (cases "a = [] \<or> b = []")
  case True
  then show ?thesis by (auto simp: file_write_def)
next
  case False
  define pos where "pos = (if appends f then length (file_data f) else file_pos f)"
  define old where "old = file_data f @ replicate (pos - length (file_data f)) (CHR 0x00)"
  have pos: "pos \<le> length old" by (auto simp: old_def pos_def)
  have w: "file_write a f = f\<lparr>file_data := take pos old @ a @ drop (pos + length a) old, file_pos := pos + length a\<rparr>"
    using False by (simp add: file_write_def Let_def pos_def old_def)
  have ap: "appends (file_write a f) = appends f" by (simp add: appends_def w)
  have last: "appends f \<Longrightarrow> drop (pos + length a) old = []" by (simp add: old_def pos_def)
  have "(if appends f then length (file_data (file_write a f)) else file_pos (file_write a f)) = pos + length a"
    using pos last by (auto simp: w)
  moreover have mid: "min (length (file_data f)) pos + (pos - length (file_data f)) = pos" by (simp add: min_def)
  ultimately show ?thesis
    using False pos unfolding file_write_def [of b "file_write a f"] ap Let_def
    by (simp add: w file_write_def Let_def mid old_def ac_simps flip: pos_def)
qed

text \<open>
  What a response gives before its body ends: the bytes that arrive, as many as were announced.
\<close>

definition body_of :: "get_response \<Rightarrow> string" where
  "body_of r = (if \<not> gr_open r then [] else case gr_length r of None \<Rightarrow> gr_avail r | Some n \<Rightarrow> take n (gr_avail r))"

text \<open>A response that a read to its end does not find broken.\<close>

definition unbroken :: "get_response \<Rightarrow> bool" where
  "unbroken r \<longleftrightarrow> \<not> gr_reset r"

lemma http_read_body:
  assumes "unbroken r" "0 < n"
  shows "\<exists>r'. http_read n r = (Inr (take n (body_of r)), r') \<and> unbroken r' \<and> body_of r' = drop n (body_of r)
    \<and> (body_of r = [] \<longrightarrow> \<not> gr_open r') \<and> gr_cached r' = gr_cached r"
proof (cases "gr_open r \<and> gr_length r \<noteq> None")
  case True
  then obtain m where m: "gr_open r" "gr_length r = Some m" by auto
  have "take (min n m) (gr_avail r) = take n (take m (gr_avail r))" by (simp add: min.commute)
  then show ?thesis using assms m
    by (auto simp: http_read_def body_of_def unbroken_def Let_def min_def drop_take not_le)
next
  case False
  then show ?thesis using assms by (auto simp: http_read_def body_of_def unbroken_def Let_def)
qed

text \<open>A response with all the bytes that it announces.\<close>

definition all_there :: "get_response \<Rightarrow> bool" where
  "all_there r \<longleftrightarrow> unbroken r \<and> (case gr_length r of None \<Rightarrow> True | Some m \<Rightarrow> m \<le> length (gr_avail r))"

lemma http_read_there:
  assumes "all_there r" "http_read n r = (Inr d, r')"
  shows "all_there r'"
proof (cases "gr_open r")
  case True
  have r: "\<not> gr_reset r" using assms(1) by (simp add: all_there_def unbroken_def)
  show ?thesis
  proof (cases "gr_length r")
    case None
    then have "gr_length r' = None \<and> gr_reset r' = gr_reset r" using assms(2) r True by (auto simp: http_read_def Let_def split: if_splits)
    then show ?thesis using r by (simp add: all_there_def unbroken_def)
  next
    case (Some m)
    then have m: "m \<le> length (gr_avail r)" using assms(1) by (simp add: all_there_def)
    have "gr_reset r' = gr_reset r \<and> (\<exists>k \<le> m. gr_length r' = Some (m - k) \<and> gr_avail r' = drop k (gr_avail r))"
    proof (cases "take (min n m) (gr_avail r) = [] \<and> 0 < min n m")
      case True
      then show ?thesis using m by auto
    next
      case False
      then have "r' = r\<lparr>gr_avail := drop (min n m) (gr_avail r), gr_length := Some (m - length (take (min n m) (gr_avail r))),
          gr_open := m \<noteq> length (take (min n m) (gr_avail r))\<rparr>"
        using assms(2) r \<open>gr_open r\<close> Some by (auto simp: http_read_def Let_def split: if_splits)
      moreover have "length (take (min n m) (gr_avail r)) = min n m" using m by simp
      ultimately show ?thesis by (intro conjI exI [of _ "min n m"]) simp_all
    qed
    then show ?thesis using r m by (auto simp: all_there_def unbroken_def)
  qed
qed (use assms in \<open>simp add: http_read_def\<close>)

fun callable :: "callback \<Rightarrow> bool" where
  "callable NoCb = False"
| "callable Cb = True"
| "callable (Translated cb start) = callable cb"

lemma call_back_ok: "callable cb \<Longrightarrow> \<exists>c. call_back cb n len s = (Inr (), s\<lparr>k_calls := c\<rparr>)"
proof (induction cb arbitrary: n)
  case Cb
  show ?case by (rule exI) (rule call_back.simps)
qed simp_all

definition closes :: "get_response option \<Rightarrow> bool" where
  "closes rp \<longleftrightarrow> (case rp of None \<Rightarrow> True | Some r \<Rightarrow> all_there r \<or> \<not> gr_open r)"

lemma read_all_there:
  assumes "all_there r \<or> \<not> gr_open r"
  shows "\<exists>d r'. http_read_all r = (Inr d, r')"
proof (cases "gr_open r")
  case True
  then have "\<not> gr_reset r" "gr_length r = None \<or> (\<exists>n. gr_length r = Some n \<and> n \<le> length (gr_avail r))"
    using assms by (auto simp: all_there_def unbroken_def split: option.splits)
  then show ?thesis using True by (elim disjE exE) (simp_all add: http_read_all_def Let_def)
qed (simp add: http_read_all_def)

lemma key_close_closes:
  assumes "closes (k_resp s)"
  shows "key_close False s = (Inr (), s\<lparr>k_resp := None, k_mode := None, k_closed := True\<rparr>)"
proof (cases "k_resp s")
  case (Some r)
  then obtain d r' where "http_read_all r = (Inr d, r')" using assms read_all_there [of r] by (auto simp: closes_def)
  then show ?thesis using Some by (simp add: key_close_def response_read_def)
qed (simp add: key_close_def)

lemma get_loop_whole:
  assumes "unbroken r" "0 < s3_buffer E"
    and "cb = NoCb \<or> callable cb \<and> all_there r \<and> (cs \<le> 0 \<or> int (length data + length (body_of r)) \<le> cs)"
  shows "\<exists>i' rp m cl c. get_loop E cb cs cc data i r s = (Inr (data @ body_of r, i'),
      s\<lparr>k_resp := rp, k_mode := m, k_closed := cl, k_file := file_write (body_of r) (k_file s), k_calls := c\<rparr>) \<and> closes rp
    \<and> (cb = NoCb \<longrightarrow> c = k_calls s \<and> rp = None)"
  using assms
proof (induction "length (body_of r)" arbitrary: data i r s rule: less_induct)
  case less
  let ?d = "take (s3_buffer E) (body_of r)"
  obtain r' where read: "http_read (s3_buffer E) r = (Inr ?d, r')" and r': "unbroken r'" "body_of r' = drop (s3_buffer E) (body_of r)"
    "body_of r = [] \<longrightarrow> \<not> gr_open r'" "gr_cached r' = gr_cached r"
    using http_read_body [OF less.prems(1,2)] by blast
  have res: "response_read (Some (s3_buffer E)) r = (Inr ?d, r')" by (simp add: response_read_def read)
  show ?case
  proof (cases "body_of r = []")
    case True
    then have "closes (Some r')" using r' by (simp add: closes_def)
    then have "key_close False (s\<lparr>k_resp := Some r'\<rparr>) = (Inr (), s\<lparr>k_resp := None, k_mode := None, k_closed := True\<rparr>)"
      using key_close_closes [of "s\<lparr>k_resp := Some r'\<rparr>"] by simp
    then have "get_loop E cb cs cc data i r s = (Inr (data, i), s\<lparr>k_resp := None, k_mode := None, k_closed := True\<rparr>)"
      using True res by (subst get_loop.simps) (simp add: xfer_bind_def)
    also have "s\<lparr>k_resp := None, k_mode := None, k_closed := True\<rparr> = s\<lparr>k_resp := None, k_mode := None, k_closed := True,
        k_file := file_write (body_of r) (k_file s), k_calls := k_calls s\<rparr>"
      using True by (cases s) (simp add: file_write_def)
    finally show ?thesis using True unfolding closes_def
      by (intro exI [of _ i] exI [of _ None] exI [of _ True] exI [of _ "k_calls s"]) simp
  next
    case False
    let ?s = "s\<lparr>k_resp := Some r', k_file := file_write ?d (k_file s)\<rparr>" and ?data = "data @ ?d"
    have d: "?d \<noteq> []" using False less.prems(2) by simp
    have smaller: "length (body_of r') < length (body_of r)" using False less.prems(2) r'(2) by (cases "body_of r") auto
    have join: "?data @ body_of r' = data @ body_of r" "file_write (body_of r') (file_write ?d f) = file_write (body_of r) f" for f
      using r'(2) by (simp_all flip: file_write_append)
    have step: "\<exists>i' rp m cl c. get_loop E cb cs cc ?data j r' (?s\<lparr>k_calls := c0\<rparr>) = (Inr (data @ body_of r, i'),
        s\<lparr>k_resp := rp, k_mode := m, k_closed := cl, k_file := file_write (body_of r) (k_file s), k_calls := c\<rparr>) \<and> closes rp
        \<and> (cb = NoCb \<longrightarrow> c = c0 \<and> rp = None)" for j c0
    proof -
      have "cb = NoCb \<or> callable cb \<and> all_there r' \<and> (cs \<le> 0 \<or> int (length ?data + length (body_of r')) \<le> cs)"
        using less.prems(3) http_read_there [OF _ read] r'(2) by auto
      from less.hyps [OF smaller r'(1) less.prems(2) this, of j "?s\<lparr>k_calls := c0\<rparr>"]
      show ?thesis unfolding join by (simp add: join)
    qed
    show ?thesis
    proof (cases "cb = NoCb")
      case True
      then have "get_loop E cb cs cc data i r s = get_loop E cb cs cc ?data i r' (?s\<lparr>k_calls := k_calls s\<rparr>)"
        using res d by (subst get_loop.simps) (simp add: Let_def)
      then show ?thesis using step [of i "k_calls s"] by metis
    next
      case cb: False
      then have call: "callable cb" "all_there r'" using less.prems(3) http_read_there [OF _ read] by blast+
      consider (full) "0 < cs \<and> cs \<le> int (length ?data)" | (call) "\<not> (0 < cs \<and> cs \<le> int (length ?data))" "i + 1 = cc \<or> cc = -1"
        | (quiet) "\<not> (0 < cs \<and> cs \<le> int (length ?data))" "\<not> (i + 1 = cc \<or> cc = -1)" by blast
      then show ?thesis
      proof cases
        case full
        then have "body_of r' = []" using less.prems(3) cb r'(2) by auto
        then have "?d = body_of r" using r'(2) by simp
        then have "get_loop E cb cs cc data i r s = (Inr (data @ body_of r, i), s\<lparr>k_resp := Some r', k_mode := k_mode s, k_closed := k_closed s,
            k_file := file_write (body_of r) (k_file s), k_calls := k_calls s\<rparr>)"
          using res d cb full by (subst get_loop.simps) (simp add: Let_def)
        moreover have "closes (Some r')" using call by (simp add: closes_def)
        ultimately show ?thesis using cb by blast
      next
        case call
        obtain c0 where "call_back cb (int (length ?data)) cs ?s = (Inr (), ?s\<lparr>k_calls := c0\<rparr>)"
          using call_back_ok [OF \<open>callable cb\<close>] by metis
        then have "get_loop E cb cs cc data i r s = get_loop E cb cs cc ?data 0 r' (?s\<lparr>k_calls := c0\<rparr>)"
          using res d cb call by (subst get_loop.simps) (auto simp: Let_def)
        then show ?thesis using step [of 0 c0] cb by metis
      next
        case quiet
        then have "get_loop E cb cs cc data i r s = get_loop E cb cs cc ?data (i + 1) r' (?s\<lparr>k_calls := k_calls s\<rparr>)"
          using res d cb by (subst get_loop.simps) (auto simp: Let_def)
        then show ?thesis using step [of "i + 1" "k_calls s"] cb by metis
      qed
    qed
  qed
qed

text \<open>Opening a key leaves the file, the hashes and the calls alone.\<close>

definition same_file :: "'w s3_key \<Rightarrow> 'w s3_key \<Rightarrow> bool" where
  "same_file s t \<longleftrightarrow> k_file t = k_file s \<and> k_hashes t = k_hashes s \<and> k_calls t = k_calls s \<and> k_name t = k_name s"

lemma take_headers_frame: "take_headers b hs s = (r, t) \<Longrightarrow> same_file s t \<and> k_resp t = k_resp s \<and> k_world t = k_world s"
proof (induction hs arbitrary: s)
  case (Cons h hs)
  obtain n v where h: "h = (n, v)" by fastforce
  show ?case
  proof (cases "str_lower n = ''content-length'' \<and> \<not> b \<or> str_lower n = ''content-range''")
    case True
    then obtain x where "xfer_bind (xfer_lift (x :: int res)) (\<lambda>m s. take_headers b hs (s\<lparr>k_size := Some m\<rparr>)) s = (r, t)"
      using Cons.prems h by (auto split: if_splits)
    then show ?thesis using Cons.IH by (cases x) (fastforce simp: xfer_bind_def same_file_def)+
  next
    case False
    then show ?thesis using Cons h by (fastforce simp: same_file_def split: if_splits)
  qed
qed (simp add: same_file_def)

lemma restore_parts_frame: "restore_parts ps s = (r, t) \<Longrightarrow> same_file s t \<and> k_resp t = k_resp s \<and> k_world t = k_world s \<and> k_size t = k_size s \<and> k_fields t = k_fields s"
proof (induction ps arbitrary: s)
  case (Cons p ps)
  show ?case
  proof (cases "\<exists>n v. map str_strip (str_split CHR ''='' p) = [n, v]")
    case True
    from True obtain n v where nv: "map str_strip (str_split CHR ''='' p) = [n, v]" by (elim exE)
    show ?thesis using Cons.prems Cons.IH unfolding restore_parts.simps nv
      by (fastforce simp: same_file_def Let_def split: if_splits)
  next
    case False
    then have "t = s" using Cons.prems by (auto split: list.splits)
    then show ?thesis by (simp add: same_file_def)
  qed
qed (simp add: same_file_def)

lemma take_response_frame:
  assumes "take_response E r s = (x, t)"
  shows "same_file s t \<and> k_world t = k_world s \<and> (\<exists>hs. k_resp t = Some (r\<lparr>gr_headers := hs\<rparr>) \<and> (\<forall>r'. x = Inr r' \<longrightarrow> r' = r\<lparr>gr_headers := hs\<rparr>))"
proof -
  obtain meta hs where m: "get_aws_metadata (gr_headers r) (provider.truncate (s3_provider_of E)) = (meta, hs)" by fastforce
  let ?r = "r\<lparr>gr_headers := hs\<rparr>" and ?s = "s\<lparr>k_metadata := meta, k_resp := Some (r\<lparr>gr_headers := hs\<rparr>)\<rparr>"
  have "xfer_bind (take_headers (''content-range'' \<in> set (map fst hs)) hs) (\<lambda>_ s.
      xfer_bind (handle_restore_headers E ?r) (\<lambda>_ s. (Inr ?r, s)) (handle_encryption_headers E ?r (handle_version_headers E (msg_header ?r) False s))) ?s = (x, t)"
    using assms by (simp add: take_response_def m Let_def)
  then show ?thesis
  proof (cases rule: xfer_bind_cases)
    case (1 e)
    then show ?thesis using take_headers_frame [OF 1(1)] by (auto simp: same_file_def)
  next
    case (2 y u)
    let ?u = "handle_encryption_headers E ?r (handle_version_headers E (msg_header ?r) False u)"
    have u: "same_file s ?u \<and> k_resp ?u = Some ?r \<and> k_world ?u = k_world s"
      using take_headers_frame [OF 2(1)] by (simp add: same_file_def handle_encryption_headers_def handle_version_headers_def Let_def)
    have rest: "handle_restore_headers E ?r v = (z, v') \<Longrightarrow> same_file v v' \<and> k_resp v' = k_resp v \<and> k_world v' = k_world v" for v z v'
      by (auto simp: handle_restore_headers_def same_file_def dest: restore_parts_frame split: option.splits)
    from 2(2) show ?thesis
    proof (cases rule: xfer_bind_cases)
      case (1 e)
      then show ?thesis using rest [OF 1(1)] u by (auto simp: same_file_def)
    next
      case (2 z v)
      then show ?thesis using rest [OF 2(1)] u by (auto simp: same_file_def)
    qed
  qed
qed

lemma body_of_headers [simp]:
  "body_of (r\<lparr>gr_headers := hs\<rparr>) = body_of r" "unbroken (r\<lparr>gr_headers := hs\<rparr>) = unbroken r" "all_there (r\<lparr>gr_headers := hs\<rparr>) = all_there r"
  by (cases "gr_length r"; simp add: body_of_def unbroken_def all_there_def)+

text \<open>The calls before the loop.\<close>

lemma open_calls:
  assumes "0 < buffer" "cb = NoCb \<or> callable cb"
  shows "\<exists>cc c. (if cb = NoCb then (\<lambda>s. (Inr 0, s))
      else xfer_bind (xfer_lift (buffers_per_call buffer len num_cb))
        (\<lambda>cb_count. xfer_bind (call_back cb 0 cs) (\<lambda>_ s. (Inr cb_count, s)))) s = (Inr cc, s\<lparr>k_calls := c\<rparr>) \<and> (cb = NoCb \<longrightarrow> c = k_calls s)"
proof (cases "cb = NoCb")
  case True
  then show ?thesis by (intro exI [of _ 0] exI [of _ "k_calls s"]) simp
next
  case False
  then obtain c where c: "call_back cb 0 cs s = (Inr (), s\<lparr>k_calls := c\<rparr>)" using assms call_back_ok by metis
  have "\<exists>n. buffers_per_call buffer len num_cb = Inr n" using assms(1) by (simp add: buffers_per_call_def)
  then obtain n where "buffers_per_call buffer len num_cb = Inr n" ..
  then show ?thesis using c False by (intro exI [of _ n] exI [of _ c]) (simp add: xfer_bind_def)
qed

text \<open>A successful \<open>GET\<close>, with a callback only if the body is as long as it says.\<close>

lemma get_file_after_open:
  assumes "key_open E ''r'' hs (get_query_args torrent (case version_id of None \<Rightarrow> k_version_id s | Some v \<Rightarrow> Some v) rh) retries s = (Inr r, u)"
    and r: "unbroken r" "0 < s3_buffer E"
    and cb: "cb = NoCb \<or> callable cb \<and> all_there r \<and> (case k_size u of None \<Rightarrow> True | Some n \<Rightarrow> n \<le> 0 \<or> int (length (body_of r)) \<le> n)"
  shows "\<exists>t. get_file_internal E hs cb num_cb torrent version_id retries rh s = (Inr (), t) \<and> k_file t = file_write (body_of r) (k_file u)
    \<and> k_hashes t = (if torrent then k_hashes u else AList.update ''md5'' (s3_md5 E (body_of r)) (k_hashes u))
    \<and> k_resp t = None \<and> k_world t = k_world u \<and> k_fields t = k_fields u \<and> k_name t = k_name u
    \<and> k_size t = (if k_size u = None \<and> \<not> torrent \<and> map_of hs ''Range'' = None then Some (int (length (body_of r))) else k_size u)
    \<and> (cb = NoCb \<longrightarrow> k_calls t = k_calls u)"
proof -
  let ?cs = "case k_size u of None \<Rightarrow> 0 | Some n \<Rightarrow> n"
  have cs: "cb = NoCb \<or> callable cb \<and> all_there r \<and> (?cs \<le> 0 \<or> int (length [] + length (body_of r)) \<le> ?cs)"
    using cb by (cases "k_size u") auto
  obtain cc c0 where pre: "(if cb = NoCb then (\<lambda>s. (Inr 0, s))
      else xfer_bind (xfer_lift (buffers_per_call (s3_buffer E) (k_size u) num_cb))
        (\<lambda>cb_count. xfer_bind (call_back cb 0 ?cs) (\<lambda>_ s. (Inr cb_count, s)))) u = (Inr cc, u\<lparr>k_calls := c0\<rparr>)" "cb = NoCb \<longrightarrow> c0 = k_calls u"
    using open_calls [OF r(2), of cb "k_size u" num_cb ?cs u] cb by blast
  obtain i rp m cl c where loop: "get_loop E cb ?cs cc [] 0 r (u\<lparr>k_calls := c0\<rparr>) = (Inr (body_of r, i),
      u\<lparr>k_resp := rp, k_mode := m, k_closed := cl, k_file := file_write (body_of r) (k_file u), k_calls := c\<rparr>)" "closes rp"
      "cb = NoCb \<longrightarrow> c = c0"
    using get_loop_whole [OF r cs, of cc 0 "u\<lparr>k_calls := c0\<rparr>"] by auto
  let ?v = "u\<lparr>k_resp := rp, k_mode := m, k_closed := cl, k_file := file_write (body_of r) (k_file u)\<rparr>"
  obtain c1 where post: "(if cb \<noteq> NoCb \<and> (cc \<le> 1 \<or> 0 < i) \<and> body_of r \<noteq> [] then call_back cb (int (length (body_of r))) ?cs
      else (\<lambda>s. (Inr (), s))) (?v\<lparr>k_calls := c\<rparr>) = (Inr (), ?v\<lparr>k_calls := c1\<rparr>)" "cb = NoCb \<longrightarrow> c1 = c"
  proof (cases "cb \<noteq> NoCb \<and> (cc \<le> 1 \<or> 0 < i) \<and> body_of r \<noteq> []")
    case True
    then have "callable cb" using cb by blast
    from call_back_ok [OF this] obtain c1 where
      "call_back cb (int (length (body_of r))) ?cs (?v\<lparr>k_calls := c\<rparr>) = (Inr (), (?v\<lparr>k_calls := c\<rparr>)\<lparr>k_calls := c1\<rparr>)"
      by (rule exE)
    then show ?thesis using that [of c1] True by simp
  next
    case False
    then show ?thesis using that [of c] by (simp add: if_not_P)
  qed
  define w where "w = (let s = ?v\<lparr>k_calls := c1\<rparr>; s = (if torrent then s else s\<lparr>k_hashes := AList.update ''md5'' (s3_md5 E (body_of r)) (k_hashes s)\<rparr>)
    in if k_size s = None \<and> \<not> torrent \<and> map_of hs ''Range'' = None then s\<lparr>k_size := Some (int (length (body_of r)))\<rparr> else s)"
  have "get_file_internal E hs cb num_cb torrent version_id retries rh s = key_close False w"
    by (simp only: get_file_internal_def Let_def xfer_bind_def assms(1) pre(1) loop(1) post(1) prod.case sum.case w_def)
  also have "\<dots> = (Inr (), w\<lparr>k_resp := None, k_mode := None, k_closed := True\<rparr>)"
    by (rule key_close_closes) (use loop(2) in \<open>simp add: w_def Let_def\<close>)
  finally show ?thesis using loop(3) post(2) pre(2)
    by (intro exI [of _ "w\<lparr>k_resp := None, k_mode := None, k_closed := True\<rparr>"]) (simp add: w_def Let_def)
qed

text \<open>Headers whose numbers can be read, and no header of a restoration.\<close>

definition readable :: "'w s3_env \<Rightarrow> (string, string) dict \<Rightarrow> bool" where
  "readable E hs \<longleftrightarrow> (\<forall>(n, v) \<in> set hs. (str_lower n = ''content-length'' \<longrightarrow> \<not> isl (py_int v))
     \<and> (str_lower n = ''content-range'' \<longrightarrow> \<not> isl (py_int (after_slash v)))) \<and> map_of hs (str_lower (restore_header (s3_provider_of E))) = None"

lemma aws_metadata_headers: "set (snd (get_aws_metadata hs p)) \<subseteq> set hs"
proof -
  have del: "set (AList.delete k xs) \<subseteq> set xs" for k and xs :: "(string, string) dict" by (auto simp: AList.delete_eq)
  have "set (snd (fold (take_meta p) ks (m, xs))) \<subseteq> set xs" for ks m and xs :: "(string, string) dict"
  proof (induction ks arbitrary: m xs)
    case (Cons k ks)
    obtain m' ys where k: "take_meta p k (m, xs) = (m', ys)" by fastforce
    then have "set ys \<subseteq> set xs" using del by (auto simp: take_meta_def split: if_splits)
    with Cons [of m' ys] k show ?case by simp
  qed simp
  then show ?thesis by (simp add: get_aws_metadata_take)
qed

lemma take_headers_readable:
  fixes s :: "'w s3_key"
  shows "\<forall>(n, v) \<in> set hs. (str_lower n = ''content-length'' \<longrightarrow> \<not> isl (py_int v)) \<and> (str_lower n = ''content-range'' \<longrightarrow> \<not> isl (py_int (after_slash v)))
   \<Longrightarrow> \<exists>t. take_headers b hs s = (Inr (), t)"
proof (induction hs arbitrary: s)
  case (Cons h hs)
  obtain n v where h: "h = (n, v)" by fastforce
  have rest: "\<exists>t. take_headers b hs s' = (Inr (), t)" for s' :: "'w s3_key" using Cons by simp
  have "\<exists>m. y = Inr m" if "\<not> isl y" for y :: "int res" using that by (cases y) auto
  then show ?case using rest Cons.prems h by (fastforce simp: xfer_bind_def)
qed simp

lemma take_response_readable:
  assumes "readable E (gr_headers r)"
  shows "\<exists>hs t. take_response E r s = (Inr (r\<lparr>gr_headers := hs\<rparr>), t)"
proof -
  obtain meta hs where m: "get_aws_metadata (gr_headers r) (provider.truncate (s3_provider_of E)) = (meta, hs)" by fastforce
  have sub: "set hs \<subseteq> set (gr_headers r)" using aws_metadata_headers [of "gr_headers r" "provider.truncate (s3_provider_of E)"] m by simp
  let ?r = "r\<lparr>gr_headers := hs\<rparr>" and ?s = "s\<lparr>k_metadata := meta, k_resp := Some (r\<lparr>gr_headers := hs\<rparr>)\<rparr>"
  obtain t where t: "take_headers (''content-range'' \<in> set (map fst hs)) hs ?s = (Inr (), t)"
    using take_headers_readable [of hs] assms sub by (fastforce simp: readable_def)
  let ?u = "handle_encryption_headers E ?r (handle_version_headers E (msg_header ?r) False t)"
  have "map_of hs (str_lower (restore_header (s3_provider_of E))) = None"
    using assms sub by (auto simp: readable_def map_of_eq_None_iff)
  then have "handle_restore_headers E ?r ?u = (Inr (), ?u)" by (simp add: handle_restore_headers_def msg_header_def)
  then have "take_response E r s = (Inr ?r, ?u)" by (simp add: take_response_def m t [simplified] Let_def xfer_bind_def)
  then show ?thesis by blast
qed

lemma key_open_fresh:
  assumes "k_resp s = None" "s3_get E (hs, k_name s, q, retries) (k_world s) = (Inr r, w)" "199 \<le> gr_status r" "gr_status r \<le> 299" "readable E (gr_headers r)"
  shows "\<exists>hs' u. key_open E ''r'' hs q retries s = (Inr (r\<lparr>gr_headers := hs'\<rparr>), u) \<and> same_file s u \<and> k_world u = w"
proof -
  obtain hs' u where u: "take_response E r (s\<lparr>k_mode := Some ''r'', k_world := w, k_resp := Some r\<rparr>) = (Inr (r\<lparr>gr_headers := hs'\<rparr>), u)"
    using take_response_readable [OF assms(5)] by blast
  then have "key_open E ''r'' hs q retries s = (Inr (r\<lparr>gr_headers := hs'\<rparr>), u)"
    using assms by (simp add: key_open_def key_open_read_def Let_def)
  then show ?thesis using take_response_frame [OF u] by (auto simp: same_file_def)
qed

lemma get_file_fresh:
  assumes "k_resp s = None" "s3_get E (hs, k_name s, get_query_args False (case v of None \<Rightarrow> k_version_id s | Some x \<Rightarrow> Some x) rh, retries) (k_world s) = (Inr r, w)"
    and "199 \<le> gr_status r" "gr_status r \<le> 299" "readable E (gr_headers r)" "unbroken r" "0 < s3_buffer E"
  shows "\<exists>t. key_get_file E hs NoCb n False v retries rh s = (Inr (), t) \<and> k_file t = file_write (body_of r) (k_file s)
    \<and> map_of (k_hashes t) ''md5'' = Some (s3_md5 E (body_of r)) \<and> k_resp t = None \<and> k_world t = w"
proof -
  obtain hs' u where u: "key_open E ''r'' hs (get_query_args False (case v of None \<Rightarrow> k_version_id s | Some x \<Rightarrow> Some x) rh) retries s
      = (Inr (r\<lparr>gr_headers := hs'\<rparr>), u)" "same_file s u" "k_world u = w"
    using key_open_fresh [OF assms(1-5)] by blast
  from get_file_after_open [OF u(1), of NoCb n] assms(6,7) u(2,3)
  show ?thesis by (auto simp: key_get_file_def same_file_def update_conv')
qed

lemma take_response_error:
  assumes "take_response E r s = (Inl e, t)"
  shows "\<exists>x. e = Raised x"
proof -
  have hd: "\<exists>x. e = Raised x" if "take_headers b hs s = (Inl e, t)" for b hs e t and s :: "'a s3_key"
    using that
  proof (induction hs arbitrary: s)
    case (Cons h hs)
    obtain n v where h: "h = (n, v)" by fastforce
    have lift: "\<exists>x. e = Raised x" if "xfer_bind (xfer_lift (y :: int res)) (\<lambda>m s. take_headers b hs (s\<lparr>k_size := Some m\<rparr>)) s = (Inl e, t)" for y
      using that Cons.IH by (cases y) (auto simp: xfer_bind_def)
    show ?case using Cons.prems Cons.IH lift h by (auto split: if_splits)
  qed simp
  have parts: "\<exists>x. e = Raised x" if "restore_parts ps s = (Inl e, t)" for ps e t and s :: "'a s3_key"
    using that by (induction ps arbitrary: s) (auto simp: Let_def split: list.splits if_splits)
  have "\<exists>x. e = Raised x" if "handle_restore_headers E r' s = (Inl e, t)" for r' e t s
    using that parts by (auto simp: handle_restore_headers_def split: option.splits)
  then show ?thesis using assms hd
    by (fastforce simp: take_response_def Let_def elim!: xfer_bind_cases split: prod.splits)
qed

text \<open>After an error answer the response stays with the key, read to its end.\<close>

lemma key_open_failed:
  assumes "k_resp s = None" "key_open E ''r'' hs q retries s = (Inl (ResponseError n), t)"
    and fresh: "\<And>a w r w'. s3_get E a w = (Inr r, w') \<Longrightarrow> gr_cached r = []" and net: "\<And>a w n w'. s3_get E a w \<noteq> (Inl (ResponseError n), w')"
  shows "\<exists>r. k_resp t = Some r \<and> \<not> gr_open r \<and> same_file s t"
proof -
  obtain x w where g: "s3_get E (hs, k_name s, q, retries) (k_world s) = (x, w)" by fastforce
  show ?thesis
  proof (cases x)
    case (Inl e)
    then show ?thesis using assms g by (auto simp: key_open_def key_open_read_def)
  next
    case (Inr r)
    let ?s = "s\<lparr>k_mode := Some ''r'', k_world := w, k_resp := Some r\<rparr>"
    show ?thesis
    proof (cases "gr_status r < 199 \<or> 299 < gr_status r")
      case True
      obtain y r' where y: "http_read_all r = (y, r')" by fastforce
      have closed: "\<And>d. y = Inr d \<Longrightarrow> \<not> gr_open r'" using y by (auto simp: http_read_all_def Let_def split: if_splits)
      have "y \<noteq> Inl (ResponseError n)" using y by (auto simp: http_read_all_def Let_def split: if_splits)
      then obtain d where "y = Inr d" "t = ?s\<lparr>k_resp := Some (r'\<lparr>gr_cached := d\<rparr>)\<rparr>"
        using assms(1,2) g Inr True y fresh [OF g [unfolded Inr]]
        by (auto simp: key_open_def key_open_read_def Let_def response_read_def split: sum.splits)
      then show ?thesis using closed by (simp add: same_file_def)
    next
      case False
      then have "take_response E r ?s = (Inl (ResponseError n), t)"
        using assms(1,2) g Inr by (simp add: key_open_def key_open_read_def Let_def)
      from take_response_error [OF this] show ?thesis by simp
    qed
  qed
qed

lemma get_file_of_closed:
  fixes s :: "'w s3_key"
  assumes "k_resp s = Some r" "\<not> gr_open r" "0 < s3_buffer E" "cb = NoCb \<or> callable cb"
  shows "\<exists>t. key_get_file E hs cb n False v retries rh s = (Inr (), t) \<and> k_file t = k_file s
    \<and> map_of (k_hashes t) ''md5'' = Some (s3_md5 E []) \<and> k_resp t = None \<and> k_world t = k_world s"
proof -
  let ?cs = "case k_size s of None \<Rightarrow> 0 | Some n \<Rightarrow> n"
  have open': "key_open E ''r'' hs (get_query_args False (case v of None \<Rightarrow> k_version_id s | Some x \<Rightarrow> Some x) rh) retries s = (Inr r, s\<lparr>k_mode := Some ''r''\<rparr>)"
    using assms(1) by (simp add: key_open_def key_open_read_def)
  have close: "key_close False (u\<lparr>k_resp := Some r\<rparr>) = (Inr (), u\<lparr>k_resp := None, k_mode := None, k_closed := True\<rparr>)" for u :: "'w s3_key"
    using key_close_closes [of "u\<lparr>k_resp := Some r\<rparr>"] assms(2) by (simp add: closes_def)
  have loop: "get_loop E cb cs cc [] 0 r u = (Inr ([], 0), u\<lparr>k_resp := None, k_mode := None, k_closed := True\<rparr>)" for cs cc and u :: "'w s3_key"
    using assms(2) close by (subst get_loop.simps) (simp add: response_read_def http_read_def xfer_bind_def)
  have "\<exists>m. buffers_per_call (s3_buffer E) (k_size s) n = Inr m" using assms(3) by (simp add: buffers_per_call_def)
  then obtain m c where m: "buffers_per_call (s3_buffer E) (k_size s) n = Inr m"
      "callable cb \<Longrightarrow> call_back cb 0 ?cs (s\<lparr>k_mode := Some ''r''\<rparr>) = (Inr (), s\<lparr>k_mode := Some ''r'', k_calls := c\<rparr>)"
    using call_back_ok [of cb 0 ?cs "s\<lparr>k_mode := Some ''r''\<rparr>"] by auto
  consider "cb = NoCb" | "cb \<noteq> NoCb" "callable cb" using assms(4) by blast
  then show ?thesis
  proof cases
    case 1
    then show ?thesis using loop
      by (simp add: key_get_file_def get_file_internal_def Let_def xfer_bind_def open' key_close_def update_conv')
  next
    case 2
    then show ?thesis using loop m
      by (simp add: key_get_file_def get_file_internal_def Let_def xfer_bind_def open' key_close_def update_conv')
  qed
qed

end
