(* ===== verification/S3_Object.thy ===== *)
theory S3_Object
  imports S3_Key
begin

text \<open>
  Reading an object of S3: a service that holds one object and answers ranges, over connections that
  break as a plan says; what the reading half of a key does with it; and the object as a file,
  \<open>KeyFile\<close> of \<^verbatim>\<open>boto/s3/keyfile.py\<close>.
\<close>

section \<open>A service with one object\<close>

text \<open>
  What happens to a request: it fails without an answer, its body breaks off after some bytes (the
  connection is reset, or just ends).
\<close>

datatype get_fault = NoAnswer transfer_exc | Reset nat | Ended nat

definition range_of :: "headers \<Rightarrow> (nat \<times> nat option) option" where
  "range_of hs =
     (case map_of hs ''Range'' of
        Some (HStr v) \<Rightarrow>
          (if str_startswith v ''bytes='' then
             (case leading_digits (drop 6 v) of
                Some (a, c # t) \<Rightarrow>
                  if c \<noteq> CHR ''-'' then None else if t = [] then Some (a, None)
                  else map_option (\<lambda>(b, _). (a, Some b)) (leading_digits t)
              | _ \<Rightarrow> None)
           else None)
      | _ \<Rightarrow> None)"

definition whole_response :: "nat \<Rightarrow> (string, string) dict \<Rightarrow> string \<Rightarrow> get_response" where
  "whole_response status hs body = \<lparr>gr_status = status, gr_headers = (''content-length'', nat_str (length body)) # hs,
     gr_avail = body, gr_length = Some (length body), gr_reset = False, gr_open = True, gr_cached = []\<rparr>"

definition object_response :: "string \<Rightarrow> string \<Rightarrow> headers \<Rightarrow> get_response" where
  "object_response D tag hs =
     (case range_of hs of
        None \<Rightarrow> whole_response 200 [(''etag'', tag)] D
      | Some (a, b) \<Rightarrow>
          if a < length D
          then whole_response 206 [(''etag'', tag), (''content-range'', ''bytes '' @ nat_str a @ ''-'' @
                 nat_str (case b of None \<Rightarrow> length D - 1 | Some b \<Rightarrow> min b (length D - 1)) @ ''/'' @ nat_str (length D))]
                 (case b of None \<Rightarrow> drop a D | Some b \<Rightarrow> take (b + 1 - a) (drop a D))
          else whole_response 416 [] [])"

definition object_get :: "string \<Rightarrow> string \<Rightarrow> get_args \<Rightarrow> get_fault list \<Rightarrow> (transfer_exc + get_response) \<times> get_fault list" where
  "object_get D tag args w =
     (let r = object_response D tag (fst args)
      in case w of
           [] \<Rightarrow> (Inr r, [])
         | NoAnswer e # w \<Rightarrow> (Inl e, w)
         | Reset n # w \<Rightarrow> (Inr (r\<lparr>gr_avail := take n (gr_avail r), gr_reset := True\<rparr>), w)
         | Ended n # w \<Rightarrow> (Inr (r\<lparr>gr_avail := take n (gr_avail r)\<rparr>), w))"

definition object_env :: "string \<Rightarrow> string \<Rightarrow> get_fault list s3_env \<Rightarrow> bool" where
  "object_env D tag E \<longleftrightarrow> s3_get E = object_get D tag \<and> 0 < s3_buffer E
     \<and> metadata_prefix (s3_provider_of E) = ''x-amz-meta-'' \<and> restore_header (s3_provider_of E) = ''x-amz-restore''"

lemma range_of_from:
  "map_of hs ''Range'' = Some (HStr (''bytes='' @ nat_str a @ ''-'')) \<Longrightarrow> range_of hs = Some (a, None)"
  "map_of hs ''Range'' = Some (HStr (''bytes='' @ nat_str a @ ''-'' @ nat_str b)) \<Longrightarrow> range_of hs = Some (a, Some b)"
proof -
  have start: "str_startswith (''bytes='' @ s) ''bytes=''" "drop 6 (''bytes='' @ s) = s" for s
    by (simp_all add: str_startswith_def)
  have 1: "leading_digits (nat_str a @ ''-'' @ t) = Some (a, ''-'' @ t)" for t
    by (rule leading_digits_nat) (simp add: is_digit_def)
  have 2: "leading_digits (nat_str b) = Some (b, [])" using leading_digits_nat [of "[]" b] by simp
  have ne: "nat_str b \<noteq> []" by simp
  show "map_of hs ''Range'' = Some (HStr (''bytes='' @ nat_str a @ ''-'')) \<Longrightarrow> range_of hs = Some (a, None)"
    using 1 [of "[]"] by (simp only: range_of_def option.case hval.case start if_True append_Nil2) simp
  show "map_of hs ''Range'' = Some (HStr (''bytes='' @ nat_str a @ ''-'' @ nat_str b)) \<Longrightarrow> range_of hs = Some (a, Some b)"
    using 1 [of "nat_str b"] 2 ne by (simp only: range_of_def option.case hval.case start if_True) simp
qed

lemma after_slash_nat: "after_slash (x @ CHR ''/'' # nat_str n) = nat_str n"
proof -
  have "CHR ''/'' \<notin> set (nat_str n)" using nat_str_digits [of "CHR ''/''" n] by auto
  then show ?thesis by (simp add: after_slash_def str_split_at str_split_no_sep)
qed

lemma readable_object:
  assumes "metadata_prefix (s3_provider_of E) = ''x-amz-meta-''" "restore_header (s3_provider_of E) = ''x-amz-restore''"
  shows "readable E (gr_headers (object_response D tag hs))"
proof -
  have slash: "py_int (after_slash (''bytes '' @ nat_str x @ ''-'' @ nat_str y @ ''/'' @ nat_str n)) = Inr (int n)" for x y n
    using after_slash_nat [of "''bytes '' @ nat_str x @ ''-'' @ nat_str y" n] by simp
  show ?thesis
    using assms slash by (auto simp: readable_def object_response_def whole_response_def str_lower_def lower_char_def split: option.splits)
qed

text \<open>Opening an object at a position, over connections that do not break.\<close>

definition range_from :: "nat \<Rightarrow> headers" where
  "range_from n = [(''Range'', HStr (''bytes='' @ nat_str n @ ''-''))]"

definition opens_at :: "string \<Rightarrow> headers \<Rightarrow> nat \<Rightarrow> bool" where
  "opens_at D hs n \<longleftrightarrow> (range_of hs = None \<and> n = 0
     \<or> (\<exists>b. range_of hs = Some (n, b) \<and> (case b of None \<Rightarrow> True | Some m \<Rightarrow> length D \<le> m + 1)))"

lemma opens_at_range [simp]: "opens_at D (range_from n) n" "opens_at D [] 0"
  by (simp_all add: opens_at_def range_from_def range_of_from) (simp add: range_of_def)

lemma object_at:
  assumes "opens_at D hs n" "n < length D \<or> range_of hs = None"
  shows "all_there (object_response D tag hs)" "unbroken (object_response D tag hs)" "body_of (object_response D tag hs) = drop n D"
    "gr_status (object_response D tag hs) \<in> {200, 206}" "gr_cached (object_response D tag hs) = []"
  using assms by (auto simp: opens_at_def object_response_def whole_response_def all_there_def unbroken_def body_of_def split: option.splits)

lemma take_object:
  fixes s :: "'w s3_key"
  assumes "opens_at D hs n" "n < length D \<or> range_of hs = None" "metadata_prefix (s3_provider_of E) = ''x-amz-meta-''"
    and "restore_header (s3_provider_of E) = ''x-amz-restore''" and r: "gr_headers r = gr_headers (object_response D tag hs)"
  shows "\<exists>t. take_response E r s = (Inr r, t) \<and> k_size t = Some (int (length D))
    \<and> k_resp t = Some r \<and> k_etag t = Some tag \<and> k_world t = k_world s \<and> same_file s t"
proof -
  let ?r = "object_response D tag hs"
  have meta: "get_aws_metadata (gr_headers r) (provider.truncate (s3_provider_of E)) = ([], gr_headers r)"
    unfolding get_aws_metadata_take r
    by (rule take_meta_other) (use assms(3) in \<open>auto simp: object_response_def whole_response_def provider.defs str_startswith_def
      str_lower_def lower_char_def split: option.splits\<close>)
  have slash: "py_int (after_slash (''bytes '' @ nat_str x @ ''-'' @ nat_str y @ ''/'' @ nat_str n)) = Inr (int n)" for x y n
    using after_slash_nat [of "''bytes '' @ nat_str x @ ''-'' @ nat_str y" n] by simp
  have size: "\<exists>u. take_headers (''content-range'' \<in> set (map fst (gr_headers ?r))) (gr_headers ?r) v = (Inr (), u)
      \<and> k_size u = Some (int (length D)) \<and> k_etag u = Some tag" for v :: "'w s3_key"
    using assms(1,2) slash
    by (auto simp: opens_at_def object_response_def whole_response_def xfer_bind_def str_lower_def lower_char_def base_fields_def
      k_etag_def underscored_def update_conv')
  have "msg_header r ''x-amz-restore'' = None" using assms(1,2)
    by (auto simp: msg_header_def r opens_at_def object_response_def whole_response_def str_lower_def lower_char_def)
  then have restore: "handle_restore_headers E r v = (Inr (), v)" for v :: "'w s3_key"
    using assms(4) by (simp add: handle_restore_headers_def)
  obtain u where u: "take_headers (''content-range'' \<in> set (map fst (gr_headers r))) (gr_headers r) (s\<lparr>k_metadata := [], k_resp := Some r\<rparr>) = (Inr (), u)"
      "k_size u = Some (int (length D))" "k_etag u = Some tag"
    using size unfolding r by blast
  let ?t = "handle_encryption_headers E r (handle_version_headers E (msg_header r) False u)"
  have "take_response E r s = (Inr r, ?t)"
    by (simp add: take_response_def meta Let_def xfer_bind_def u(1) [simplified] restore)
  then show ?thesis
    using u(2,3) take_headers_frame [OF u(1)]
    by (auto simp: handle_encryption_headers_def handle_version_headers_def Let_def same_file_def k_etag_def)
qed

lemma open_response:
  assumes "object_env D tag E" "k_resp s = None" "opens_at D hs n" "n < length D \<or> range_of hs = None"
    and get: "s3_get E (hs, k_name s, q, retries) (k_world s) = (Inr r, w)"
    and r: "gr_headers r = gr_headers (object_response D tag hs)" "gr_status r = gr_status (object_response D tag hs)"
  shows "\<exists>t. key_open_read E hs q retries s = (Inr r, t) \<and> k_size t = Some (int (length D))
    \<and> k_resp t = Some r \<and> k_etag t = Some tag \<and> k_world t = w \<and> same_file s t"
proof -
  let ?s = "s\<lparr>k_mode := Some ''r'', k_world := w, k_resp := Some r\<rparr>"
  have "key_open_read E hs q retries s = take_response E r ?s"
    using assms object_at(4) [OF assms(3,4), of tag] by (auto simp: key_open_read_def Let_def)
  moreover obtain t where "take_response E r ?s = (Inr r, t)"
     "k_size t = Some (int (length D))" "k_resp t = Some r" "k_etag t = Some tag" "k_world t = k_world ?s" "same_file ?s t"
    using take_object [of D hs n E r tag ?s] assms(1,3,4) r(1) by (auto simp: object_env_def)
  ultimately show ?thesis by (simp add: same_file_def)
qed

lemma open_object:
  assumes "object_env D tag E" "k_resp s = None" "k_world s = []" "opens_at D hs n" "n < length D \<or> range_of hs = None"
  shows "\<exists>t. key_open_read E hs q retries s = (Inr (object_response D tag hs), t) \<and> k_size t = Some (int (length D))
    \<and> k_resp t = Some (object_response D tag hs) \<and> k_etag t = Some tag \<and> k_world t = [] \<and> same_file s t"
  by (rule open_response [OF assms(1,2,4,5)]) (use assms(1,3) in \<open>simp_all add: object_env_def object_get_def Let_def\<close>)

lemma open_past_object:
  assumes "object_env D tag E" "k_resp s = None" "k_world s = []" "range_of hs = Some (n, None)" "length D \<le> n"
  shows "\<exists>r. key_open_read E hs q retries s = (Inl (ResponseError 416), s\<lparr>k_mode := Some ''r'', k_world := [], k_resp := Some r\<rparr>)
    \<and> \<not> gr_open r \<and> unbroken r"
  using assms by (intro exI [of _ "whole_response 416 [] []\<lparr>gr_open := False\<rparr>"])
    (simp add: key_open_read_def object_env_def object_get_def object_response_def whole_response_def Let_def
      response_read_def http_read_all_def unbroken_def)

section \<open>An object as a file\<close>

text \<open>
  \<open>KeyFile\<close>, without its constant attributes; \<open>kf_location\<close> is \<open>None\<close> once the file is closed.
\<close>

record 'w keyfile =
  kf_key :: "'w s3_key"
  kf_location :: "int option"
  kf_closed :: bool

definition on_key :: "('w, 'a) s3x \<Rightarrow> ('w keyfile, 'a) xfer" where
  "on_key m kf = (case m (kf_key kf) of (x, s) \<Rightarrow> (x, kf\<lparr>kf_key := s\<rparr>))"

definition keyfile_init :: "'w s3_env \<Rightarrow> 'w s3_key \<Rightarrow> (transfer_exc + 'w keyfile) \<times> 'w s3_key" where
  "keyfile_init E s =
     (case key_open_read E [] [] None s of
        (Inl e, s) \<Rightarrow> (Inl e, s)
      | (Inr _, s) \<Rightarrow> (Inr \<lparr>kf_key = s, kf_location = Some 0, kf_closed = False\<rparr>, s))"

definition keyfile_tell :: "('w keyfile, int) xfer" where
  "keyfile_tell kf = (case kf_location kf of None \<Rightarrow> (Inl (Raised ValueError), kf) | Some n \<Rightarrow> (Inr n, kf))"

definition keyfile_read :: "'w s3_env \<Rightarrow> nat \<Rightarrow> ('w keyfile, string) xfer" where
  "keyfile_read E n kf =
     (case kf_location kf of
        None \<Rightarrow> (Inl (Raised TypeError), kf)
      | Some l \<Rightarrow> on_key (key_read E n) (kf\<lparr>kf_location := Some (l + int n)\<rparr>))"

definition keyfile_close :: "('w keyfile, unit) xfer" where
  "keyfile_close = xfer_bind (on_key (key_close False)) (\<lambda>_ kf. (Inr (), kf\<lparr>kf_location := None, kf_closed := True\<rparr>))"

text \<open>\<open>seek\<close> to \<open>pos\<close> from the start, from the location or from the end.\<close>

definition seek_open :: "'w s3_env \<Rightarrow> int \<Rightarrow> ('w keyfile, unit) xfer" where
  "seek_open E pos kf =
     (case on_key (key_open_read E [(''Range'', HStr (''bytes='' @ str_int pos @ ''-''))] [] None) kf of
        (Inl e, kf) \<Rightarrow> if e = ResponseError 416 then (Inr (), kf\<lparr>kf_location := Some pos\<rparr>) else (Inl e, kf)
      | (Inr _, kf) \<Rightarrow> (Inr (), kf\<lparr>kf_location := Some pos\<rparr>))"

definition keyfile_seek :: "'w s3_env \<Rightarrow> int \<Rightarrow> nat \<Rightarrow> ('w keyfile, unit) xfer" where
  "keyfile_seek E pos whence = xfer_bind (on_key (key_close True)) (\<lambda>_ kf.
     if whence = 2 then
       (case k_size (kf_key kf) of
          None \<Rightarrow> (Inl (Raised TypeError), kf)
        | Some len \<Rightarrow>
            if len = 0 then (Inr (), kf)
            else let pos = len + pos - 1
            in if pos < 0 then (Inl FileError, kf)
               else xfer_bind (on_key (key_open_read E [(''Range'', HStr (''bytes='' @ str_int pos @ ''-''))] [] None)) (\<lambda>_.
                    xfer_bind (on_key (key_read E 1)) (\<lambda>_ kf. (Inr (), kf\<lparr>kf_location := Some (pos + 1)\<rparr>))) kf)
     else if whence = 0 then if pos < 0 then (Inl FileError, kf) else seek_open E pos kf
     else if whence = 1 then
       (case kf_location kf of None \<Rightarrow> (Inl (Raised TypeError), kf) | Some l \<Rightarrow> seek_open E (pos + l) kf)
     else (Inl FileError, kf))"

section \<open>What the file does\<close>

text \<open>
  Two positions describe a \<open>KeyFile\<close>: the byte that the next read starts from, and the location that
  \<open>tell\<close> gives.
\<close>

record cursor =
  cur_next :: nat
  cur_loc :: "int option"

datatype file_op = Tell | Read nat | Seek int nat | Close
datatype file_answer = Told int | Got string | Done | Failed transfer_exc

definition answered :: "('a \<Rightarrow> file_answer) \<Rightarrow> ('s, 'a) xfer \<Rightarrow> 's \<Rightarrow> file_answer \<times> 's" where
  "answered f m s = (case m s of (Inl e, s) \<Rightarrow> (Failed e, s) | (Inr x, s) \<Rightarrow> (f x, s))"

primrec keyfile_step :: "'w s3_env \<Rightarrow> file_op \<Rightarrow> 'w keyfile \<Rightarrow> file_answer \<times> 'w keyfile" where
  "keyfile_step E Tell = answered Told keyfile_tell"
| "keyfile_step E (Read n) = answered Got (keyfile_read E n)"
| "keyfile_step E (Seek pos whence) = answered (\<lambda>_. Done) (keyfile_seek E pos whence)"
| "keyfile_step E Close = answered (\<lambda>_. Done) keyfile_close"

fun cursor_step :: "string \<Rightarrow> file_op \<Rightarrow> cursor \<Rightarrow> file_answer \<times> cursor" where
  "cursor_step D Tell c = (case cur_loc c of None \<Rightarrow> (Failed (Raised ValueError), c) | Some l \<Rightarrow> (Told l, c))"
| "cursor_step D (Read n) c =
     (case cur_loc c of
        None \<Rightarrow> (Failed (Raised TypeError), c)
      | Some l \<Rightarrow> let d = take n (drop (cur_next c) D)
          in (Got d, \<lparr>cur_next = (if d = [] then 0 else cur_next c + length d), cur_loc = Some (l + int n)\<rparr>))"
| "cursor_step D (Seek pos whence) c =
     (if whence = 2 then
        if D = [] then (Done, c\<lparr>cur_next := 0\<rparr>)
        else if int (length D) + pos - 1 < 0 then (Failed FileError, c\<lparr>cur_next := 0\<rparr>)
        else if 0 < pos then (Failed (ResponseError 416), c\<lparr>cur_next := length D\<rparr>)
        else (Done, \<lparr>cur_next = nat (int (length D) + pos), cur_loc = Some (int (length D) + pos)\<rparr>)
      else if whence = 0 then
        if pos < 0 then (Failed FileError, c\<lparr>cur_next := 0\<rparr>) else (Done, \<lparr>cur_next = nat pos, cur_loc = Some pos\<rparr>)
      else if whence = 1 then
        (case cur_loc c of None \<Rightarrow> (Failed (Raised TypeError), c\<lparr>cur_next := 0\<rparr>)
         | Some l \<Rightarrow> (Done, \<lparr>cur_next = nat (pos + l), cur_loc = Some (pos + l)\<rparr>))
      else (Failed FileError, c\<lparr>cur_next := 0\<rparr>))"
| "cursor_step D Close c = (Done, \<lparr>cur_next = 0, cur_loc = None\<rparr>)"

fun run_ops :: "(file_op \<Rightarrow> 's \<Rightarrow> file_answer \<times> 's) \<Rightarrow> file_op list \<Rightarrow> 's \<Rightarrow> file_answer list \<times> 's" where
  "run_ops step [] s = ([], s)"
| "run_ops step (op # ops) s = (case step op s of (a, s) \<Rightarrow> case run_ops step ops s of (as, s) \<Rightarrow> (a # as, s))"

text \<open>The key has a response whose body is what follows position \<open>n\<close>, or none and the next one starts at 0.\<close>

definition key_at :: "string \<Rightarrow> nat \<Rightarrow> get_fault list s3_key \<Rightarrow> bool" where
  "key_at D n s \<longleftrightarrow> k_world s = [] \<and> k_size s = Some (int (length D)) \<and>
     (case k_resp s of None \<Rightarrow> n = 0
      | Some r \<Rightarrow> unbroken r \<and> (all_there r \<or> \<not> gr_open r) \<and> body_of r = drop n D)"

definition cursor_of :: "string \<Rightarrow> get_fault list keyfile \<Rightarrow> cursor \<Rightarrow> bool" where
  "cursor_of D kf c \<longleftrightarrow> kf_location kf = cur_loc c \<and> key_at D (cur_next c) (kf_key kf)"

lemma key_at_past: "length D \<le> n \<Longrightarrow> length D \<le> m \<Longrightarrow> key_at D n s \<Longrightarrow> k_resp s \<noteq> None \<Longrightarrow> key_at D m s"
  by (auto simp: key_at_def)

lemma close_at:
  assumes "key_at D n s"
  shows "\<exists>t. key_close fast s = (Inr (), t) \<and> key_at D 0 t \<and> k_resp t = None"
proof (cases fast)
  case True
  then show ?thesis using assms by (simp add: key_close_def key_at_def)
next
  case False
  have "closes (k_resp s)" using assms by (auto simp: closes_def key_at_def split: option.splits)
  from key_close_closes [OF this] False assms show ?thesis by (simp add: key_at_def)
qed

lemma open_at:
  assumes E: "object_env D tag E" and s: "k_resp s = None" "k_world s = []" "k_size s = Some (int (length D))"
    and hs: "opens_at D hs n" and ok: "n < length D \<or> range_of hs = None"
  shows "\<exists>r t. key_open_read E hs q retries s = (Inr r, t) \<and> key_at D n t \<and> k_resp t = Some r"
  using open_object [OF E s(1,2) hs ok, of q retries] object_at [OF hs ok, of tag]
  by (auto simp: key_at_def)

lemma read_at:
  assumes E: "object_env D tag E" and s: "key_at D n s" and pos: "0 < m"
  shows "\<exists>t. key_read E m s = (Inr (take m (drop n D)), t) \<and> key_at D (if take m (drop n D) = [] then 0 else n + length (take m (drop n D))) t"
proof -
  obtain r u where o: "key_open_read E [] [] None s = (Inr r, u)" "key_at D n u" "k_resp u = Some r"
  proof (cases "k_resp s")
    case None
    then have n: "n = 0" using s by (simp add: key_at_def)
    have "\<exists>r t. key_open_read E [] [] None s = (Inr r, t) \<and> key_at D n t \<and> k_resp t = Some r"
      by (rule open_at [OF E None]) (use s n in \<open>auto simp: key_at_def range_of_def\<close>)
    then show ?thesis using that by blast
  next
    case (Some r)
    then show ?thesis using that [of r s] s by (simp add: key_open_read_def)
  qed
  then have r: "unbroken r" "all_there r \<or> \<not> gr_open r" "body_of r = drop n D" by (simp_all add: key_at_def)
  obtain r' where r': "http_read m r = (Inr (take m (drop n D)), r')" "unbroken r'" "body_of r' = drop m (drop n D)"
    using http_read_body [OF r(1) pos] r(3) by auto
  have there: "all_there r' \<or> \<not> gr_open r'" using http_read_there [OF _ r'(1)] r(2) r'(1) by (auto simp: http_read_def)
  have at: "key_at D (n + length (take m (drop n D))) (u\<lparr>k_resp := Some r'\<rparr>)"
    using o(2) r' there by (cases "m \<le> length D - n") (auto simp: key_at_def add.commute min_def)
  then obtain t where t: "key_close False (u\<lparr>k_resp := Some r'\<rparr>) = (Inr (), t)" "key_at D 0 t" using close_at by metis
  show ?thesis
  proof (cases "take m (drop n D) = []")
    case True
    then show ?thesis using o(1) r'(1) pos t by (simp add: key_read_def xfer_bind_def response_read_def)
  next
    case False
    then have "key_read E m s = (Inr (take m (drop n D)), u\<lparr>k_resp := Some r'\<rparr>)"
      using o(1) r'(1) pos by (simp add: key_read_def xfer_bind_def response_read_def Let_def)
    then show ?thesis using at False by auto
  qed
qed

lemma range_of_negative: "pos < 0 \<Longrightarrow> range_of [(''Range'', HStr (''bytes='' @ str_int pos @ ''-''))] = None"
  by (simp add: range_of_def str_startswith_def str_int_def leading_digits_def is_digit_def)

lemma seek_open_at:
  assumes E: "object_env D tag E" and s: "key_at D n (kf_key kf)" "k_resp (kf_key kf) = None"
  shows "\<exists>t. seek_open E pos kf = (Inr (), t) \<and> kf_location t = Some pos \<and> key_at D (nat pos) (kf_key t)"
proof -
  let ?hs = "[(''Range'', HStr (''bytes='' @ str_int pos @ ''-''))]"
  have range: "range_of ?hs = None \<and> nat pos = 0 \<or> range_of ?hs = Some (nat pos, None)"
  proof (cases "pos < 0")
    case True
    then show ?thesis by (simp add: range_of_negative [simplified])
  next
    case False
    then show ?thesis using range_of_from(1) [of ?hs "nat pos"] by (simp add: str_int_def)
  qed
  then have hs: "opens_at D ?hs (nat pos)" by (auto simp: opens_at_def)
  have k: "k_world (kf_key kf) = []" "k_size (kf_key kf) = Some (int (length D))" using s(1) by (simp_all add: key_at_def)
  show ?thesis
  proof (cases "nat pos < length D \<or> range_of ?hs = None")
    case True
    obtain r t where "key_open_read E ?hs [] None (kf_key kf) = (Inr r, t)" "key_at D (nat pos) t"
      using open_at [OF E s(2) k hs True] by blast
    then show ?thesis by (simp add: seek_open_def on_key_def)
  next
    case False
    then have past: "range_of ?hs = Some (nat pos, None)" "length D \<le> nat pos" using range by auto
    obtain r where "key_open_read E ?hs [] None (kf_key kf) = (Inl (ResponseError 416), (kf_key kf)\<lparr>k_mode := Some ''r'', k_world := [], k_resp := Some r\<rparr>)"
        "\<not> gr_open r" "unbroken r"
      using open_past_object [OF E s(2) k(1) past] by blast
    then show ?thesis using past(2) k(2) by (simp add: seek_open_def on_key_def key_at_def body_of_def)
  qed
qed

lemma seek_end_at:
  assumes E: "object_env D tag E" and s: "key_at D n (kf_key kf)" "k_resp (kf_key kf) = None" and c: "kf_location kf = cur_loc c" "cur_next c = n"
    and kf: "k_size (kf_key kf) = Some len" "D \<noteq> []" "0 \<le> len + pos - 1"
  shows "\<exists>a t. xfer_bind (on_key (key_open_read E [(''Range'', HStr (''bytes='' @ str_int (len + pos - 1) @ ''-''))] [] None)) (\<lambda>_.
        xfer_bind (on_key (key_read E 1)) (\<lambda>_ kf. (Inr (), kf\<lparr>kf_location := Some (len + pos)\<rparr>))) kf = (a, t)
    \<and> (if 0 < pos then a = Inl (ResponseError 416) \<and> cursor_of D t (c\<lparr>cur_next := length D\<rparr>)
       else a = Inr () \<and> cursor_of D t \<lparr>cur_next = nat (int (length D) + pos), cur_loc = Some (int (length D) + pos)\<rparr>)"
proof -
  let ?q = "nat (len + pos - 1)" and ?hs = "[(''Range'', HStr (''bytes='' @ str_int (len + pos - 1) @ ''-''))]"
  have hs: "opens_at D ?hs ?q" using opens_at_range(1) [of D ?q] kf(3) by (simp add: range_from_def str_int_def)
  have len: "len = int (length D)" using s(1) kf(1) by (simp add: key_at_def)
  have k: "k_world (kf_key kf) = []" "k_size (kf_key kf) = Some (int (length D))" using s(1) by (simp_all add: key_at_def)
  have range: "range_of ?hs = Some (?q, None)"
    using range_of_from(1) [of ?hs ?q] kf(3) by (simp add: str_int_def)
  show ?thesis
  proof (cases "0 < pos")
    case True
    then have "length D \<le> ?q" using len kf(3) by simp
    then obtain r where "key_open_read E ?hs [] None (kf_key kf) = (Inl (ResponseError 416), (kf_key kf)\<lparr>k_mode := Some ''r'', k_world := [], k_resp := Some r\<rparr>)"
        "\<not> gr_open r" "unbroken r"
      using open_past_object [OF E s(2) k(1) range] by blast
    then show ?thesis using True c k(2) by (simp add: xfer_bind_def on_key_def cursor_of_def key_at_def body_of_def)
  next
    case False
    then have q: "?q < length D" "nat (int (length D) + pos) = ?q + 1" using len kf(2,3) by (cases D; simp)+
    obtain r t where t: "key_open_read E ?hs [] None (kf_key kf) = (Inr r, t)" "key_at D ?q t"
      using open_at [OF E s(2) k hs] q(1) by blast
    have one: "take 1 (drop ?q D) \<noteq> []" "length (take 1 (drop ?q D)) = 1" using q(1) by simp_all
    obtain u where "key_read E 1 t = (Inr (take 1 (drop ?q D)), u)" "key_at D (?q + 1) u"
      using read_at [OF E t(2), of 1] one by auto
    then show ?thesis using False t(1) len q(2) by (simp add: xfer_bind_def on_key_def cursor_of_def)
  qed
qed

lemma seek_step:
  assumes E: "object_env D tag E" and kf: "cursor_of D kf c"
  shows "\<exists>t. keyfile_step E (Seek pos whence) kf = (fst (cursor_step D (Seek pos whence) c), t)
    \<and> cursor_of D t (snd (cursor_step D (Seek pos whence) c))"
proof -
  obtain u where u: "key_close True (kf_key kf) = (Inr (), u)" "key_at D 0 u" "k_resp u = None"
    using close_at [of D "cur_next c" "kf_key kf" True] kf by (auto simp: cursor_of_def)
  define kg where "kg = kf\<lparr>kf_key := u\<rparr>"
  have kg: "on_key (key_close True) kf = (Inr (), kg)" "key_at D 0 (kf_key kg)" "k_resp (kf_key kg) = None"
      "kf_location kg = cur_loc c" "k_size (kf_key kg) = Some (int (length D))"
    using u kf by (simp_all add: kg_def on_key_def cursor_of_def key_at_def)
  have stay: "cursor_of D kg (c\<lparr>cur_next := 0\<rparr>)" using kg by (simp add: cursor_of_def)
  note unf = keyfile_step.simps answered_def keyfile_seek_def xfer_bind_def kg(1)
  consider "whence = 2" | "whence = 0" | "whence = 1" | "2 < whence" by linarith
  then show ?thesis
  proof cases
    case 1
    show ?thesis
    proof (cases "D = [] \<or> int (length D) + pos - 1 < 0")
      case True
      then show ?thesis using 1 stay kg(5) by (auto simp: unf Let_def)
    next
      case False
      then have D: "D \<noteq> []" "0 \<le> int (length D) + pos - 1" by auto
      obtain a t where "xfer_bind (on_key (key_open_read E [(''Range'', HStr (''bytes='' @ str_int (int (length D) + pos - 1) @ ''-''))] [] None)) (\<lambda>_.
          xfer_bind (on_key (key_read E 1)) (\<lambda>_ kf. (Inr (), kf\<lparr>kf_location := Some (int (length D) + pos)\<rparr>))) kg = (a, t)"
        "if 0 < pos then a = Inl (ResponseError 416) \<and> cursor_of D t (c\<lparr>cur_next := 0, cur_next := length D\<rparr>)
         else a = Inr () \<and> cursor_of D t \<lparr>cur_next = nat (int (length D) + pos), cur_loc = Some (int (length D) + pos)\<rparr>"
        using seek_end_at [OF E kg(2,3) _ _ kg(5) D, of "c\<lparr>cur_next := 0\<rparr>"] kg(4) by auto
      then have "keyfile_step E (Seek pos 2) kf = ((case a of Inl e \<Rightarrow> Failed e | Inr _ \<Rightarrow> Done), t)"
        and "if 0 < pos then a = Inl (ResponseError 416) \<and> cursor_of D t (c\<lparr>cur_next := length D\<rparr>)
         else a = Inr () \<and> cursor_of D t \<lparr>cur_next = nat (int (length D) + pos), cur_loc = Some (int (length D) + pos)\<rparr>"
        using D kg(5) by (cases "0 < pos"; simp add: keyfile_step.simps answered_def keyfile_seek_def xfer_bind_def [of "on_key (key_close True)"] kg(1) Let_def split: sum.splits)+
      then show ?thesis using 1 D by (cases "0 < pos") auto
    qed
  next
    case 2
    show ?thesis
    proof (cases "pos < 0")
      case True
      then show ?thesis using 2 stay by (simp add: unf)
    next
      case False
      then show ?thesis using 2 seek_open_at [OF E kg(2,3), of pos] by (auto simp: unf cursor_of_def)
    qed
  next
    case 3
    show ?thesis
    proof (cases "cur_loc c")
      case None
      then show ?thesis using 3 stay kg(4) by (simp add: unf)
    next
      case (Some l)
      then show ?thesis using 3 seek_open_at [OF E kg(2,3), of "pos + l"] kg(4) by (auto simp: unf cursor_of_def)
    qed
  next
    case 4
    then show ?thesis using stay by (simp add: unf)
  qed
qed

lemma keyfile_step_cursor:
  assumes E: "object_env D tag E" and kf: "cursor_of D kf c" and op: "op \<noteq> Read 0"
  shows "\<exists>t. keyfile_step E op kf = (fst (cursor_step D op c), t) \<and> cursor_of D t (snd (cursor_step D op c))"
proof (cases op)
  case Tell
  then show ?thesis using kf by (cases "cur_loc c") (simp_all add: answered_def keyfile_tell_def cursor_of_def)
next
  case (Read n)
  show ?thesis
  proof (cases "cur_loc c")
    case None
    then show ?thesis using Read kf by (simp add: answered_def keyfile_read_def cursor_of_def)
  next
    case (Some l)
    have "key_at D (cur_next c) (kf_key kf)" "0 < n" using kf op Read by (auto simp: cursor_of_def)
    from read_at [OF E this] show ?thesis using Read Some kf
      by (auto simp: answered_def keyfile_read_def cursor_of_def on_key_def Let_def)
  qed
next
  case (Seek pos whence)
  then show ?thesis using seek_step [OF E kf] by blast
next
  case Close
  have "key_at D (cur_next c) (kf_key kf)" using kf by (simp add: cursor_of_def)
  from close_at [OF this, of False] show ?thesis using Close
    by (auto simp: answered_def keyfile_close_def xfer_bind_def on_key_def cursor_of_def)
qed

lemma run_ops_simulates:
  assumes "\<And>op s c. R s c \<Longrightarrow> P op \<Longrightarrow> \<exists>t. f op s = (fst (g op c), t) \<and> R t (snd (g op c))"
  shows "R s c \<Longrightarrow> \<forall>op \<in> set ops. P op \<Longrightarrow> fst (run_ops f ops s) = fst (run_ops g ops c)"
proof (induction ops arbitrary: s c)
  case (Cons op ops)
  obtain t where t: "f op s = (fst (g op c), t)" "R t (snd (g op c))" using assms [of s c op] Cons.prems by auto
  then have "fst (run_ops f ops t) = fst (run_ops g ops (snd (g op c)))" using Cons.IH Cons.prems by simp
  then show ?case using t(1) by (auto split: prod.splits)
qed simp

lemma keyfile_init_cursor:
  assumes E: "object_env D tag E" and s: "k_resp s = None" "k_world s = []"
  shows "\<exists>kf t. keyfile_init E s = (Inr kf, t) \<and> cursor_of D kf \<lparr>cur_next = 0, cur_loc = Some 0\<rparr>"
proof -
  have 0: "opens_at D [] 0" "0 < length D \<or> range_of [] = None" by (simp_all add: range_of_def)
  obtain t where "key_open_read E [] [] None s = (Inr (object_response D tag []), t)" "k_size t = Some (int (length D))"
      "k_resp t = Some (object_response D tag [])" "k_world t = []"
    using open_object [OF E s 0, of "[]" None] by blast
  then show ?thesis using object_at [OF 0, of tag] by (simp add: keyfile_init_def cursor_of_def key_at_def)
qed

text \<open>
  C26: a \<open>KeyFile\<close> on an object behaves, in every sequence of \<open>tell\<close>, \<open>read\<close>, \<open>seek\<close> and \<open>close\<close> with
  reads of positive sizes, as the object's bytes with two positions: \<open>cursor_step\<close> says what each operation
  answers, errors included, and how it moves them.  In particular a read at the end puts the next one
  at the start of the object.
\<close>

theorem keyfile_refines_cursor:
  assumes "object_env D tag E" "k_resp s = None" "k_world s = []" "Read 0 \<notin> set ops"
  shows "\<exists>kf t. keyfile_init E s = (Inr kf, t)
    \<and> fst (run_ops (keyfile_step E) ops kf) = fst (run_ops (cursor_step D) ops \<lparr>cur_next = 0, cur_loc = Some 0\<rparr>)"
proof -
  obtain kf t where kf: "keyfile_init E s = (Inr kf, t)" "cursor_of D kf \<lparr>cur_next = 0, cur_loc = Some 0\<rparr>"
    using keyfile_init_cursor [OF assms(1-3)] by blast
  have "fst (run_ops (keyfile_step E) ops kf) = fst (run_ops (cursor_step D) ops \<lparr>cur_next = 0, cur_loc = Some 0\<rparr>)"
    by (rule run_ops_simulates [where R = "cursor_of D" and P = "\<lambda>op. op \<noteq> Read 0"])
      (use keyfile_step_cursor [OF assms(1)] kf(2) assms(4) in auto)
  then show ?thesis using kf(1) by blast
qed

lemma get_object:
  assumes "object_env D tag E" "k_resp s = None" "k_world s = []" "opens_at D hs n" "n < length D \<or> range_of hs = None"
    and "cb = NoCb \<or> callable cb"
  shows "\<exists>t. key_get_file E hs cb num_cb False v retries rh s = (Inr (), t) \<and> k_file t = file_write (drop n D) (k_file s)
    \<and> map_of (k_hashes t) ''md5'' = Some (s3_md5 E (drop n D)) \<and> k_etag t = Some tag \<and> k_size t = Some (int (length D)) \<and> k_resp t = None
    \<and> k_world t = [] \<and> (cb = NoCb \<longrightarrow> k_calls t = k_calls s)"
proof -
  let ?q = "get_query_args False (case v of None \<Rightarrow> k_version_id s | Some v \<Rightarrow> Some v) rh"
  have E: "0 < s3_buffer E" using assms(1) by (simp add: object_env_def)
  have s: "k_resp (s\<lparr>k_mode := Some ''r''\<rparr>) = None" "k_world (s\<lparr>k_mode := Some ''r''\<rparr>) = []" using assms(2,3) by simp_all
  obtain u where u: "key_open E ''r'' hs ?q retries s = (Inr (object_response D tag hs), u)" "k_size u = Some (int (length D))"
      "k_etag u = Some tag" "same_file s u" "k_world u = []"
    using open_object [OF assms(1) s assms(4,5), of ?q retries] by (auto simp: key_open_def same_file_def)
  note r = object_at [OF assms(4,5), of tag]
  from get_file_after_open [OF u(1) r(2) E, of cb num_cb] assms(6) u r show ?thesis
    by (auto simp: key_get_file_def same_file_def k_etag_def update_conv')
qed

section \<open>A connection that is reset\<close>

text \<open>A response whose connection is reset before all that was announced has arrived.\<close>

definition resetting :: "get_response \<Rightarrow> bool" where
  "resetting r \<longleftrightarrow> gr_open r \<and> gr_reset r \<and> gr_cached r = [] \<and> (\<exists>m. gr_length r = Some m \<and> length (gr_avail r) < m)"

text \<open>What it is after the reset: open, with bytes announced that will not come.\<close>

definition cut_off :: "get_response \<Rightarrow> bool" where
  "cut_off r \<longleftrightarrow> gr_open r \<and> \<not> gr_reset r \<and> gr_cached r = [] \<and> gr_avail r = [] \<and> (\<exists>m. gr_length r = Some m \<and> 0 < m)"

lemma http_read_resetting:
  assumes "resetting r" "0 < n"
  shows "(length (gr_avail r) < n \<and> (\<exists>r'. http_read n r = (Inl (SocketError False), r') \<and> cut_off r'))
    \<or> (\<exists>r'. http_read n r = (Inr (take n (gr_avail r)), r') \<and> take n (gr_avail r) \<noteq> [] \<and> resetting r' \<and> gr_avail r' = drop n (gr_avail r)
        \<and> (\<forall>m. gr_length r = Some m \<longrightarrow> gr_length r' = Some (m - length (take n (gr_avail r)))))"
proof -
  obtain m where m: "gr_length r = Some m" "length (gr_avail r) < m" using assms(1) by (auto simp: resetting_def)
  show ?thesis
  proof (cases "length (gr_avail r) < n")
    case True
    then have "http_read n r = (Inl (SocketError False), r\<lparr>gr_avail := [], gr_reset := False\<rparr>)"
      using assms m by (simp add: http_read_def resetting_def Let_def min_def)
    moreover have "cut_off (r\<lparr>gr_avail := [], gr_reset := False\<rparr>)" using assms(1) m by (simp add: cut_off_def resetting_def)
    ultimately show ?thesis using True by blast
  next
    case False
    then have n: "n \<le> length (gr_avail r)" "min n m = n" using m by simp_all
    then have ne: "take n (gr_avail r) \<noteq> []" using assms(2) by auto
    have "http_read n r = (Inr (take n (gr_avail r)), r\<lparr>gr_avail := drop n (gr_avail r), gr_length := Some (m - n), gr_open := True\<rparr>)"
      using assms m n ne by (simp add: http_read_def resetting_def Let_def min_def)
    then show ?thesis using assms(1) m n ne by (intro disjI2 exI, intro conjI) (assumption, auto simp: resetting_def)
  qed
qed

lemma get_loop_reset:
  assumes "resetting r" "0 < s3_buffer E" "cb = NoCb \<or> callable cb"
    and "cs \<le> 0 \<or> int (length data + length (gr_avail r)) < cs"
  shows "\<exists>k r' c. get_loop E cb cs cc data i r s = (Inl (SocketError False), s\<lparr>k_resp := Some r', k_file := file_write (take k (gr_avail r)) (k_file s), k_calls := c\<rparr>)
    \<and> cut_off r'"
  using assms
proof (induction "length (gr_avail r)" arbitrary: data i r s rule: less_induct)
  case less
  let ?d = "take (s3_buffer E) (gr_avail r)"
  from http_read_resetting [OF less.prems(1,2)] show ?case
  proof (elim disjE conjE exE)
    fix r' assume "http_read (s3_buffer E) r = (Inl (SocketError False), r')" "cut_off r'"
    then have "get_loop E cb cs cc data i r s = (Inl (SocketError False), s\<lparr>k_resp := Some r'\<rparr>)"
      by (subst get_loop.simps) (simp add: response_read_def)
    moreover have "s\<lparr>k_resp := Some r'\<rparr> = s\<lparr>k_resp := Some r', k_file := file_write (take 0 (gr_avail r)) (k_file s), k_calls := k_calls s\<rparr>"
      by (cases s) (simp add: file_write_def)
    ultimately show ?case using \<open>cut_off r'\<close> by metis
  next
    fix r' assume read: "http_read (s3_buffer E) r = (Inr ?d, r')" and d: "?d \<noteq> []" and r': "resetting r'" "gr_avail r' = drop (s3_buffer E) (gr_avail r)"
    let ?s = "s\<lparr>k_resp := Some r', k_file := file_write ?d (k_file s)\<rparr>" and ?data = "data @ ?d"
    have res: "response_read (Some (s3_buffer E)) r = (Inr ?d, r')" by (simp add: response_read_def read)
    have smaller: "length (gr_avail r') < length (gr_avail r)" using d less.prems(2) r'(2) by (cases "gr_avail r") auto
    have len: "length ?data + length (gr_avail r') = length data + length (gr_avail r)" using r'(2) by simp
    have cs: "\<not> (0 < cs \<and> cs \<le> int (length ?data))" using less.prems(4) len by linarith
    have step: "\<exists>k r'' c. get_loop E cb cs cc ?data j r' (?s\<lparr>k_calls := c0\<rparr>) = (Inl (SocketError False),
        s\<lparr>k_resp := Some r'', k_file := file_write (take k (gr_avail r)) (k_file s), k_calls := c\<rparr>) \<and> cut_off r''" for j c0
    proof -
      obtain k r'' c where k: "get_loop E cb cs cc ?data j r' (?s\<lparr>k_calls := c0\<rparr>) = (Inl (SocketError False),
        (?s\<lparr>k_calls := c0\<rparr>)\<lparr>k_resp := Some r'', k_file := file_write (take k (gr_avail r')) (file_write ?d (k_file s)), k_calls := c\<rparr>)" "cut_off r''"
        using less.hyps [OF smaller r'(1) less.prems(2,3), of ?data j "?s\<lparr>k_calls := c0\<rparr>"] less.prems(4) len by fastforce
      have "?d @ take k (gr_avail r') = take (s3_buffer E + k) (gr_avail r)" using r'(2) by (simp add: take_add)
      then have "file_write (take k (gr_avail r')) (file_write ?d (k_file s)) = file_write (take (s3_buffer E + k) (gr_avail r)) (k_file s)"
        by (simp flip: file_write_append)
      then show ?thesis using k by (intro exI [of _ "s3_buffer E + k"] exI [of _ r''] exI [of _ c]) simp
    qed
    consider (none) "cb = NoCb" | (call) "cb \<noteq> NoCb" "i + 1 = cc \<or> cc = -1" | (quiet) "cb \<noteq> NoCb" "\<not> (i + 1 = cc \<or> cc = -1)" by blast
    then show ?case
    proof cases
      case none
      then have "get_loop E cb cs cc data i r s = get_loop E cb cs cc ?data i r' (?s\<lparr>k_calls := k_calls s\<rparr>)"
        using res d by (subst get_loop.simps) (simp add: Let_def)
      then show ?thesis using step [of i "k_calls s"] by metis
    next
      case call
      then obtain c0 where "call_back cb (int (length ?data)) cs ?s = (Inr (), ?s\<lparr>k_calls := c0\<rparr>)"
        using call_back_ok less.prems(3) by metis
      then have "get_loop E cb cs cc data i r s = get_loop E cb cs cc ?data 0 r' (?s\<lparr>k_calls := c0\<rparr>)"
        using res d cs call by (subst get_loop.simps) (auto simp: Let_def)
      then show ?thesis using step [of 0 c0] by metis
    next
      case quiet
      then have "get_loop E cb cs cc data i r s = get_loop E cb cs cc ?data (i + 1) r' (?s\<lparr>k_calls := k_calls s\<rparr>)"
        using res d cs by (subst get_loop.simps) (auto simp: Let_def)
      then show ?thesis using step [of "i + 1" "k_calls s"] by metis
    qed
  qed
qed

lemma close_cut_off:
  assumes "k_resp s = Some r" "cut_off r"
  shows "\<exists>r'. key_close False s = (Inl IncompleteRead, s\<lparr>k_resp := Some r'\<rparr>) \<and> \<not> gr_open r' \<and> gr_cached r' = []"
  using assms by (auto simp: key_close_def response_read_def http_read_all_def cut_off_def)

section \<open>Properties of reading\<close>

definition example_provider :: s3_provider where
  "example_provider = \<lparr>access_key = ''a'', secret_key = ''s'', security_token = None, header_prefix = ''x-amz-'',
     metadata_prefix = ''x-amz-meta-'', date_header = ''x-amz-date'', auth_header = ''AWS'',
     security_token_header = ''x-amz-security-token'', acl_header = ''x-amz-acl'', storage_class_header = ''x-amz-storage-class'',
     sse_header = Some ''x-amz-server-side-encryption'', version_id_header = ''x-amz-version-id'',
     copy_source_version_id = ''x-amz-copy-source-version-id'', delete_marker_header = ''x-amz-delete-marker'',
     restore_header = ''x-amz-restore'', chunked_transfer_support = False, provider_name = ''aws''\<rparr>"

definition example_s3 :: "string \<Rightarrow> get_fault list s3_env" where
  "example_s3 D = \<lparr>s3_provider_of = example_provider, s3_buffer = 2, s3_md5 = (\<lambda>x. x @ ''!''), s3_get = object_get D ''tag-1''\<rparr>"

lemma example_s3: "object_env D ''tag-1'' (example_s3 D)"
  by (simp add: object_env_def example_s3_def example_provider_def)

abbreviation empty_file :: pyfile where
  "empty_file \<equiv> \<lparr>file_data = [], file_pos = 0, file_mode = Some ''wb''\<rparr>"

theorem keyfile_refines_cursor_witness:
  "\<exists>kf t. keyfile_init (example_s3 ''abcde'') (key_init (Some ''k'') empty_file []) = (Inr kf, t)
    \<and> fst (run_ops (keyfile_step (example_s3 ''abcde'')) [Read 2, Seek (-3) 2, Read 1, Tell, Read 9, Tell, Read 9, Read 9, Seek 7 0, Read 1, Close, Tell] kf)
      = [Got ''ab'', Done, Got ''c'', Told 3, Got ''de'', Told 12, Got [], Got ''abcde'', Done, Got [], Done, Failed (Raised ValueError)]"
  using keyfile_refines_cursor [OF example_s3, of "key_init (Some ''k'') empty_file []"
    "[Read 2, Seek (-3) 2, Read 1, Tell, Read 9, Tell, Read 9, Read 9, Seek 7 0, Read 1, Close, Tell]" "''abcde''"]
  by (simp add: key_init_def Let_def)

text \<open>
  C7: getting an object, whole or from a position, with a callback or without one, writes exactly these bytes
  at the file's place, leaves their MD5, the entity tag and the size of the whole object with the key, and
  closes it.
\<close>

theorem get_file_writes_object:
  assumes "object_env D tag E" "k_resp s = None" "k_world s = []" "opens_at D hs n" "n < length D \<or> range_of hs = None"
    and "cb = NoCb \<or> callable cb"
  shows "\<exists>t. key_get_file E hs cb num_cb False v retries rh s = (Inr (), t) \<and> k_file t = file_write (drop n D) (k_file s)
    \<and> map_of (k_hashes t) ''md5'' = Some (s3_md5 E (drop n D)) \<and> k_etag t = Some tag \<and> k_size t = Some (int (length D)) \<and> k_resp t = None"
  using get_object [OF assms, of num_cb v retries rh] by blast

theorem get_file_writes_object_witness:
  "\<exists>t. key_get_file (example_s3 ''abcde'') (range_from 2) Cb 10 False None (Some 0) [] (key_init (Some ''k'') empty_file []) = (Inr (), t)
    \<and> k_file t = \<lparr>file_data = ''cde'', file_pos = 3, file_mode = Some ''wb''\<rparr> \<and> map_of (k_hashes t) ''md5'' = Some ''cde!''
    \<and> k_etag t = Some ''tag-1'' \<and> k_size t = Some 5 \<and> k_resp t = None"
  using get_file_writes_object [OF example_s3, of "key_init (Some ''k'') empty_file []" "''abcde''" "range_from 2" 2 Cb 10 None "Some 0" "[]"]
  by (simp add: key_init_def file_write_def appends_def str_startswith_def) (simp add: example_s3_def numeral_3_eq_3)

text \<open>What a service gives are responses of which nothing was read; its failures are no error answers.\<close>

definition unread_responses :: "'w s3_env \<Rightarrow> bool" where
  "unread_responses E \<longleftrightarrow> (\<forall>a w. case fst (s3_get E a w) of Inr r \<Rightarrow> gr_cached r = [] | Inl e \<Rightarrow> \<forall>n. e \<noteq> ResponseError n)"

lemma unread_responses:
  assumes "unread_responses E"
  shows "s3_get E a w = (Inr r, w') \<Longrightarrow> gr_cached r = []" "s3_get E a w \<noteq> (Inl (ResponseError n), w')"
proof -
  have *: "case fst (s3_get E a w) of Inr r \<Rightarrow> gr_cached r = [] | Inl e \<Rightarrow> \<forall>n. e \<noteq> ResponseError n"
    using assms unfolding unread_responses_def by blast
  show "s3_get E a w = (Inr r, w') \<Longrightarrow> gr_cached r = []" "s3_get E a w \<noteq> (Inl (ResponseError n), w')"
    using * by auto
qed

text \<open>
  C27: after an answer with an error status the key keeps the response, so that the next \<open>get_file\<close> with it
  sends no request, writes nothing and succeeds, whatever the service would answer.
\<close>

theorem failed_get_poisons_key:
  assumes "k_resp s = None" "key_open E ''r'' hs q retries s = (Inl (ResponseError n), t)" "0 < s3_buffer E"
    and "unread_responses E" "cb = NoCb \<or> callable cb"
  shows "\<exists>u. key_get_file E hs' cb num_cb False v retries' rh t = (Inr (), u) \<and> k_file u = k_file s
    \<and> map_of (k_hashes u) ''md5'' = Some (s3_md5 E []) \<and> k_world u = k_world t"
proof -
  obtain r where r: "k_resp t = Some r" "\<not> gr_open r" "same_file s t"
    using key_open_failed [OF assms(1,2)] unread_responses [OF assms(4)] by blast
  show ?thesis using get_file_of_closed [OF r(1,2) assms(3,5), of hs' num_cb v retries' rh] r(3) by (auto simp: same_file_def)
qed

text \<open>A service that refuses the first request and then has an object.\<close>

definition refuses_once :: "get_args \<Rightarrow> bool \<Rightarrow> (transfer_exc + get_response) \<times> bool" where
  "refuses_once args w = (if w then (Inr (whole_response 403 [] ''denied''), False) else (Inr (object_response ''abcde'' ''tag-1'' (fst args)), False))"

definition refusing_s3 :: "bool s3_env" where
  "refusing_s3 = \<lparr>s3_provider_of = example_provider, s3_buffer = 2, s3_md5 = (\<lambda>x. x @ ''!''), s3_get = refuses_once\<rparr>"

theorem failed_get_poisons_key_witness:
  "\<exists>t u. key_open refusing_s3 ''r'' [] [] None (key_init (Some ''k'') empty_file True) = (Inl (ResponseError 403), t)
    \<and> key_get_file refusing_s3 [] NoCb 10 False None None [] t = (Inr (), u) \<and> k_file u = empty_file
    \<and> map_of (k_hashes u) ''md5'' = Some ''!'' \<and> k_world u = False"
proof -
  define t where "t = (key_init (Some ''k'') empty_file False)\<lparr>k_mode := Some ''r'',
    k_resp := Some ((whole_response 403 [] ''denied'')\<lparr>gr_avail := [], gr_length := Some 0, gr_open := False, gr_cached := ''denied''\<rparr>)\<rparr>"
  have t: "key_open refusing_s3 ''r'' [] [] None (key_init (Some ''k'') empty_file True) = (Inl (ResponseError 403), t)"
    by (simp add: t_def key_open_def key_open_read_def key_init_def refusing_s3_def refuses_once_def whole_response_def Let_def
      response_read_def http_read_all_def)
  have "unread_responses refusing_s3"
    by (simp add: unread_responses_def refusing_s3_def refuses_once_def whole_response_def object_response_def split: option.splits)
  from failed_get_poisons_key [OF _ t _ this, of NoCb "[]" 10 None None "[]"]
  show ?thesis using t by (simp add: key_init_def refusing_s3_def t_def)
qed

text \<open>
  \<open>read\<close> without a size does not move on: once it gave the rest of the object it gives the same again, so
  that a loop until nothing is left does not end.
\<close>

theorem read_all_repeats:
  assumes "key_read E 0 s = (Inr d, t)" "d \<noteq> []"
  shows "key_read E 0 t = (Inr d, t)"
proof -
  from assms(1) obtain r u where o: "key_open_read E [] [] None s = (Inr r, u)"
    and r: "(case response_read None r of (Inl e, r) \<Rightarrow> (Inl e, u\<lparr>k_resp := Some r\<rparr>)
      | (Inr d, r) \<Rightarrow> if d = [] then xfer_bind (key_close False) (\<lambda>_ s. (Inr d, s)) (u\<lparr>k_resp := Some r\<rparr>) else (Inr d, u\<lparr>k_resp := Some r\<rparr>)) = (Inr d, t)"
    unfolding key_read_def Let_def by (cases rule: xfer_bind_cases) simp_all
  obtain x r' where read: "response_read None r = (x, r')" by fastforce
  obtain d' where x: "x = Inr d'" using r read by (cases x) auto
  have "d' \<noteq> []"
  proof
    assume "d' = []"
    then have "xfer_bind (key_close False) (\<lambda>_ s. (Inr [], s)) (u\<lparr>k_resp := Some r'\<rparr>) = (Inr d, t)" using r read x by simp
    then show False using assms(2) by (cases rule: xfer_bind_cases) auto
  qed
  then have d: "d' = d" "t = u\<lparr>k_resp := Some r'\<rparr>" using r read x by simp_all
  have "gr_cached r' = d" using read x d(1) assms(2) by (auto simp: response_read_def split: if_splits prod.splits sum.splits)
  then show ?thesis using d assms(2) by (simp add: key_read_def key_open_read_def xfer_bind_def response_read_def Let_def)
qed

theorem read_all_repeats_witness:
  "\<exists>t. key_read (example_s3 ''abc'') 0 (key_init (Some ''k'') empty_file []) = (Inr ''abc'', t) \<and> key_read (example_s3 ''abc'') 0 t = (Inr ''abc'', t)"
proof -
  let ?s = "key_init (Some ''k'') empty_file []"
  obtain t where t: "key_open_read (example_s3 ''abc'') [] [] None ?s = (Inr (object_response ''abc'' ''tag-1'' []), t)"
    using open_object [OF example_s3, of ?s "''abc''" "[]" 0 "[]" None] by (auto simp: key_init_def range_of_def)
  have "object_response ''abc'' ''tag-1'' [] = whole_response 200 [(''etag'', ''tag-1'')] ''abc''"
    by (simp add: object_response_def range_of_def)
  then obtain r where "response_read None (object_response ''abc'' ''tag-1'' []) = (Inr ''abc'', r)"
    by (simp add: response_read_def http_read_all_def whole_response_def)
  then have "key_read (example_s3 ''abc'') 0 ?s = (Inr ''abc'', t\<lparr>k_resp := Some r\<rparr>)"
    using t by (simp add: key_read_def xfer_bind_def)
  from read_all_repeats [OF this] this show ?thesis by blast
qed

end
