(* ===== verification/S3_Download.thy ===== *)
theory S3_Download
  imports S3_Object
begin

text \<open>
  Resumable downloads: \<open>ResumableDownloadHandler\<close> of \<^verbatim>\<open>boto/s3/resumable_download_handler.py\<close>, over the
  keys of \<open>S3_Key\<close> (the branch for keys that are not \<open>GSKey\<close>s).
\<close>

section \<open>The handler\<close>

text \<open>
  \<open>dl_named\<close> and \<open>dl_writable\<close> say whether a tracker file was named and can be written, \<open>dl_tracker\<close> is what
  it holds; \<open>dl_sleeps\<close> are the seconds slept so far.
\<close>

record 'w download =
  dl_key :: "'w s3_key"
  dl_etag :: "string option"
  dl_start :: "nat option"
  dl_named :: bool
  dl_writable :: bool
  dl_tracker :: "string option"
  dl_sleeps :: "nat list"

type_synonym ('w, 'a) dlx = "('w download, 'a) xfer"

definition on_dl_key :: "('w, 'a) s3x \<Rightarrow> ('w, 'a) dlx" where
  "on_dl_key m s = (case m (dl_key s) of (x, k) \<Rightarrow> (x, s\<lparr>dl_key := k\<rparr>))"

text \<open>\<open>_load_tracker_file_etag\<close>: the first line, without its end.\<close>

definition load_tracker_file_etag :: "'w download \<Rightarrow> 'w download" where
  "load_tracker_file_etag s =
     (case dl_tracker s of None \<Rightarrow> s | Some text \<Rightarrow> s\<lparr>dl_etag := Some (takeWhile (\<lambda>c. c \<noteq> CHR 0x0A) text)\<rparr>)"

definition download_init :: "bool \<Rightarrow> bool \<Rightarrow> string option \<Rightarrow> 'w s3_key \<Rightarrow> 'w download" where
  "download_init named writable text key =
     (let s = \<lparr>dl_key = key, dl_etag = None, dl_start = None, dl_named = named, dl_writable = writable, dl_tracker = text, dl_sleeps = []\<rparr>
      in if named then load_tracker_file_etag s else s)"

definition key_etag_stripped :: "'w s3_key \<Rightarrow> string res" where
  "key_etag_stripped k = (case k_etag k of None \<Rightarrow> Inl AttributeError | Some t \<Rightarrow> Inr (strip_quotes t))"

definition save_tracker_info :: "('w, unit) dlx" where
  "save_tracker_info s = xfer_bind (xfer_lift (key_etag_stripped (dl_key s))) (\<lambda>tag s.
     let s = s\<lparr>dl_etag := Some tag\<rparr>
     in if \<not> dl_named s then (Inr (), s)
        else if \<not> dl_writable s then (Inl (Resumable ABORT), s)
        else (Inr (), s\<lparr>dl_tracker := Some (tag @ [CHR 0x0A])\<rparr>)) s"

definition remove_download_tracker :: "'w download \<Rightarrow> 'w download" where
  "remove_download_tracker s = (if dl_named s then s\<lparr>dl_tracker := None\<rparr> else s)"

definition cur_file_size :: "'w download \<Rightarrow> nat" where
  "cur_file_size s = length (file_data (k_file (dl_key s)))"

definition on_file :: "(pyfile \<Rightarrow> pyfile) \<Rightarrow> 'w download \<Rightarrow> 'w download" where
  "on_file f s = s\<lparr>dl_key := (dl_key s)\<lparr>k_file := f (k_file (dl_key s))\<rparr>\<rparr>"

text \<open>\<open>get_cur_file_size(fp, position_to_eof=True)\<close> positions the file.\<close>

definition seek_end :: "pyfile \<Rightarrow> pyfile" where
  "seek_end f = f\<lparr>file_pos := length (file_data f)\<rparr>"

text \<open>\<open>truncate(0)\<close> leaves the position.\<close>

definition truncate_file :: "pyfile \<Rightarrow> pyfile" where
  "truncate_file f = f\<lparr>file_data := []\<rparr>"

definition range_between :: "nat \<Rightarrow> int \<Rightarrow> string" where
  "range_between n m = ''bytes='' @ nat_str n @ ''-'' @ str_int m"

text \<open>Whether the file at hand is the start of the object.\<close>

definition resumes :: "nat \<Rightarrow> ('w, bool) dlx" where
  "resumes n s =
     (case dl_etag s of
        Some tag \<Rightarrow> if n = 0 \<or> tag = [] then (Inr False, s)
                    else xfer_bind (xfer_lift (key_etag_stripped (dl_key s))) (\<lambda>t s. (Inr (tag = t), s)) s
      | None \<Rightarrow> (Inr False, s))"

definition attempt_resumable_download :: "'w s3_env \<Rightarrow> headers \<Rightarrow> callback \<Rightarrow> int \<Rightarrow> bool \<Rightarrow> string option \<Rightarrow> ('w, unit) dlx" where
  "attempt_resumable_download E hs cb num_cb torrent version_id s =
     (let n = cur_file_size s
      in xfer_bind (resumes n) (\<lambda>resume s.
           if resume then
             (case k_size (dl_key s) of
                None \<Rightarrow> (Inl (Raised TypeError), s)
              | Some m \<Rightarrow>
                  if m < int n then (Inl (Resumable ABORT), s)
                  else if int n = m then (Inr (), s)
                  else on_dl_key (key_get_file E (AList.update ''Range'' (HStr (range_between n (m - 1))) hs) (Translated cb (int n))
                         num_cb torrent version_id (Some 0) []) (s\<lparr>dl_start := Some n\<rparr>))
           else xfer_bind save_tracker_info (\<lambda>_ s.
                  on_dl_key (key_get_file E hs cb num_cb torrent version_id (Some 0) []) (on_file truncate_file (s\<lparr>dl_start := Some 0\<rparr>))) s)
         (on_file seek_end s))"

text \<open>The handlers of \<open>get_file\<close>: they return if there is to be another attempt.\<close>

definition handle_download_exception :: "'w s3_env \<Rightarrow> headers \<Rightarrow> callback \<Rightarrow> int \<Rightarrow> bool \<Rightarrow> string option \<Rightarrow> transfer_exc \<Rightarrow> ('w, unit) dlx" where
  "handle_download_exception E hs cb num_cb torrent version_id e s =
     (if retryable e
      then if e = SocketError True then on_dl_key (key_get_file E hs cb num_cb torrent version_id (Some 0) []) s else (Inr (), s)
      else case e of
             Resumable ABORT_CUR_PROCESS \<Rightarrow> (Inl e, s)
           | Resumable ABORT \<Rightarrow> (Inl e, remove_download_tracker s)
           | Resumable _ \<Rightarrow> (Inr (), s)
           | _ \<Rightarrow> (Inl e, s))"

text \<open>\<open>key.close()\<close>, where \<open>IncompleteRead\<close> is ignored.\<close>

definition close_for_retry :: "('w, unit) dlx" where
  "close_for_retry s = (case on_dl_key (key_close False) s of (Inl IncompleteRead, s) \<Rightarrow> (Inr (), s) | (x, s) \<Rightarrow> (x, s))"

text \<open>One turn of the loop, with \<open>p\<close> turns without progress before: \<open>None\<close> if the download is complete.\<close>

definition download_round :: "'w s3_env \<Rightarrow> nat \<Rightarrow> headers \<Rightarrow> callback \<Rightarrow> int \<Rightarrow> bool \<Rightarrow> string option \<Rightarrow> nat \<Rightarrow> ('w, nat option) dlx" where
  "download_round E tries hs cb num_cb torrent version_id p s =
     (case attempt_resumable_download E hs cb num_cb torrent version_id s of
        (Inr _, t) \<Rightarrow> (Inr None, remove_download_tracker t)
      | (Inl e, t) \<Rightarrow>
          xfer_bind (handle_download_exception E hs cb num_cb torrent version_id e) (\<lambda>_ t.
            let p = (if cur_file_size s < cur_file_size t then 0 else p + 1)
            in if tries < p then (Inl (Resumable ABORT_CUR_PROCESS), t)
               else xfer_bind close_for_retry (\<lambda>_ t. (Inr (Some p), t\<lparr>dl_sleeps := dl_sleeps t @ [2 ^ p]\<rparr>)) t) t)"

partial_function (option) download_loop ::
  "'w s3_env \<Rightarrow> nat \<Rightarrow> headers \<Rightarrow> callback \<Rightarrow> int \<Rightarrow> bool \<Rightarrow> string option \<Rightarrow> nat \<Rightarrow> 'w download \<Rightarrow> ((transfer_exc + unit) \<times> 'w download) option" where
  "download_loop E tries hs cb num_cb torrent version_id p s =
     (case download_round E tries hs cb num_cb torrent version_id p s of
        (Inl e, s) \<Rightarrow> Some (Inl e, s)
      | (Inr None, s) \<Rightarrow> Some (Inr (), s)
      | (Inr (Some p), s) \<Rightarrow> download_loop E tries hs cb num_cb torrent version_id p s)"

definition download_file :: "'w s3_env \<Rightarrow> nat option \<Rightarrow> nat \<Rightarrow> headers \<Rightarrow> callback \<Rightarrow> int \<Rightarrow> bool \<Rightarrow> string option
    \<Rightarrow> 'w download \<Rightarrow> ((transfer_exc + unit) \<times> 'w download) option" where
  "download_file E tries configured hs cb num_cb torrent version_id s =
     download_loop E (case tries of None \<Rightarrow> configured | Some n \<Rightarrow> n) hs cb num_cb torrent version_id 0 s"

text \<open>
  The two entries of \<open>Key\<close>; \<open>handler\<close> gives the number of tries of a \<open>ResumableDownloadHandler\<close> and the one
  configured.  \<open>get_contents_to_filename\<close> gives the file that is left, if any: it is emptied at first and
  removed on failure.
\<close>

definition get_contents_to_file :: "'w s3_env \<Rightarrow> (nat option \<times> nat) option \<Rightarrow> headers \<Rightarrow> callback \<Rightarrow> int \<Rightarrow> bool \<Rightarrow> string option
    \<Rightarrow> (string \<times> string) list \<Rightarrow> 'w download \<Rightarrow> ((transfer_exc + unit) \<times> 'w download) option" where
  "get_contents_to_file E handler hs cb num_cb torrent version_id response_headers s =
     (case handler of
        Some (tries, configured) \<Rightarrow> download_file E tries configured hs cb num_cb torrent version_id s
      | None \<Rightarrow> Some (on_dl_key (key_get_file E hs cb num_cb torrent version_id None response_headers) s))"

definition get_contents_to_filename :: "'w s3_env \<Rightarrow> (nat option \<times> nat) option \<Rightarrow> headers \<Rightarrow> callback \<Rightarrow> int \<Rightarrow> bool \<Rightarrow> string option
    \<Rightarrow> (string \<times> string) list \<Rightarrow> 'w download \<Rightarrow> ((transfer_exc + unit) \<times> 'w download \<times> pyfile option) option" where
  "get_contents_to_filename E handler hs cb num_cb torrent version_id response_headers s =
     (case get_contents_to_file E handler hs cb num_cb torrent version_id response_headers
             (on_file (\<lambda>_. \<lparr>file_data = [], file_pos = 0, file_mode = Some ''wb''\<rparr>) s) of
        None \<Rightarrow> None
      | Some (Inl e, t) \<Rightarrow> Some (Inl e, t, None)
      | Some (Inr _, t) \<Rightarrow> Some (Inr (), t, Some (k_file (dl_key t))))"

section \<open>Attempts\<close>

lemma get_without_answer:
  assumes "k_resp s = None" "\<And>q. s3_get E (hs, k_name s, q, retries) (k_world s) = (Inl e, w)"
  shows "key_get_file E hs cb num_cb torrent v retries rh s = (Inl e, s\<lparr>k_mode := Some ''r'', k_world := w\<rparr>)"
  using assms by (simp add: key_get_file_def get_file_internal_def key_open_def key_open_read_def xfer_bind_def Let_def)

lemma file_write_end:
  assumes "file_pos f = length (file_data f) \<or> appends f"
  shows "file_data (file_write d f) = file_data f @ d" "file_mode (file_write d f) = file_mode f"
  using assms by (auto simp: file_write_def Let_def)

text \<open>The key knows the object; it is closed, and \<open>w\<close> is what will happen to its requests.\<close>

definition knows :: "string \<Rightarrow> string \<Rightarrow> 'w download \<Rightarrow> bool" where
  "knows D tag s \<longleftrightarrow> k_size (dl_key s) = Some (int (length D)) \<and> k_etag (dl_key s) = Some tag \<and> (dl_named s \<longrightarrow> dl_writable s)"

definition at_rest :: "string \<Rightarrow> string \<Rightarrow> get_fault list \<Rightarrow> get_fault list download \<Rightarrow> bool" where
  "at_rest D tag w s \<longleftrightarrow> k_resp (dl_key s) = None \<and> k_world (dl_key s) = w \<and> knows D tag s"

text \<open>The handler takes the file for the start of the object.\<close>

definition matches :: "string \<Rightarrow> 'w download \<Rightarrow> bool" where
  "matches tag s \<longleftrightarrow> cur_file_size s \<noteq> 0 \<and> dl_etag s = Some (strip_quotes tag) \<and> strip_quotes tag \<noteq> []"

text \<open>
  The file can be written at its end, is the start of the object if it is taken for it, and then there is a
  callback.
\<close>

definition continuable :: "string \<Rightarrow> string \<Rightarrow> callback \<Rightarrow> 'w download \<Rightarrow> bool" where
  "continuable D tag cb s \<longleftrightarrow> (let f = k_file (dl_key s) in
     if matches tag s then callable cb \<and> file_data f = take (length (file_data f)) D
     else (cb = NoCb \<or> callable cb) \<and> (appends f \<or> file_data f = []))"

text \<open>The same without the callback.\<close>

definition starts_object :: "string \<Rightarrow> string \<Rightarrow> 'w download \<Rightarrow> bool" where
  "starts_object D tag s \<longleftrightarrow> (let f = k_file (dl_key s) in
     if matches tag s then file_data f = take (length (file_data f)) D else appends f \<or> file_data f = [])"

lemma continuable_iff:
  "continuable D tag cb s \<longleftrightarrow> starts_object D tag s \<and> (callable cb \<or> cb = NoCb \<and> \<not> matches tag s)"
  by (auto simp: continuable_def starts_object_def Let_def)

lemma at_rest_knows: "at_rest D tag w s \<Longrightarrow> knows D tag s"
  by (simp add: at_rest_def)

lemma resumes_matches:
  assumes "k_etag (dl_key s) = Some tag"
  shows "resumes (cur_file_size s) s = (Inr (matches tag s), s)"
  using assms by (auto simp: resumes_def matches_def key_etag_stripped_def xfer_bind_def split: option.splits)

lemma on_file_simps [simp]:
  "dl_etag (on_file f s) = dl_etag s" "dl_named (on_file f s) = dl_named s" "dl_writable (on_file f s) = dl_writable s"
  "dl_sleeps (on_file f s) = dl_sleeps s" "dl_key (on_file f s) = (dl_key s)\<lparr>k_file := f (k_file (dl_key s))\<rparr>"
  "cur_file_size (on_file seek_end s) = cur_file_size s" "matches tag (on_file seek_end s) = matches tag s"
  "k_etag (k\<lparr>k_file := x\<rparr>) = k_etag k" "k_etag (k\<lparr>k_mode := a, k_world := w\<rparr>) = k_etag k"
  by (simp_all add: on_file_def cur_file_size_def seek_end_def matches_def k_etag_def)

text \<open>The request of an attempt, the state it starts from, and the callback.\<close>

definition request_of :: "string \<Rightarrow> string \<Rightarrow> headers \<Rightarrow> callback \<Rightarrow> 'w download \<Rightarrow> headers \<times> callback \<times> 'w download" where
  "request_of D tag hs cb s = (let n = cur_file_size s; t = on_file seek_end s in
     if matches tag s then (AList.update ''Range'' (HStr (range_between n (int (length D) - 1))) hs, Translated cb (int n), t\<lparr>dl_start := Some n\<rparr>)
     else (hs, cb, on_file truncate_file (t\<lparr>dl_etag := Some (strip_quotes tag),
             dl_tracker := (if dl_named s then Some (strip_quotes tag @ [CHR 0x0A]) else dl_tracker s), dl_start := Some 0\<rparr>)))"

lemma attempt_request:
  assumes "knows D tag s" "matches tag s \<longrightarrow> cur_file_size s < length D" "request_of D tag hs cb s = (hs', cb', t)"
  shows "attempt_resumable_download E hs cb n torrent v s = on_dl_key (key_get_file E hs' cb' n torrent v (Some 0) []) t"
proof -
  let ?s = "on_file seek_end s"
  have tag: "k_etag (dl_key ?s) = Some tag" using assms(1) by (simp add: knows_def)
  have r: "resumes (cur_file_size s) ?s = (Inr (matches tag s), ?s)" using resumes_matches [OF tag] by simp
  show ?thesis
  proof (cases "matches tag s")
    case True
    then show ?thesis using assms True r
      by (simp add: attempt_resumable_download_def xfer_bind_def Let_def knows_def request_of_def)
  next
    case False
    then have "attempt_resumable_download E hs cb n torrent v s = xfer_bind save_tracker_info (\<lambda>_ s.
        on_dl_key (key_get_file E hs cb n torrent v (Some 0) []) (on_file truncate_file (s\<lparr>dl_start := Some 0\<rparr>))) ?s"
      using r by (simp add: attempt_resumable_download_def xfer_bind_def Let_def)
    moreover have "save_tracker_info ?s = (Inr (), ?s\<lparr>dl_etag := Some (strip_quotes tag),
        dl_tracker := (if dl_named s then Some (strip_quotes tag @ [CHR 0x0A]) else dl_tracker s)\<rparr>)"
      using assms(1) tag by (simp add: save_tracker_info_def key_etag_stripped_def xfer_bind_def knows_def Let_def on_file_def)
    ultimately show ?thesis using assms(3) False by (auto simp: xfer_bind_def request_of_def Let_def)
  qed
qed

lemma request_of_callback: "request_of D tag hs cb s = (hs', cb', t) \<Longrightarrow> \<exists>c. request_of D tag hs cb0 s = (hs', c, t)"
  by (auto simp: request_of_def Let_def split: if_splits)

lemma shorter: "\<not> (P \<and> (m :: nat) \<le> n) \<Longrightarrow> P \<longrightarrow> n < m"
  by auto

lemma attempt_complete:
  assumes "at_rest D tag w s" "starts_object D tag s" "matches tag s" "length D \<le> cur_file_size s"
  shows "attempt_resumable_download E hs cb n torrent v s = (Inr (), on_file seek_end s) \<and> file_data (k_file (dl_key s)) = D"
proof -
  have tag: "k_etag (dl_key (on_file seek_end s)) = Some tag" using assms(1) by (simp add: at_rest_def knows_def)
  have r: "resumes (cur_file_size s) (on_file seek_end s) = (Inr True, on_file seek_end s)" using resumes_matches [OF tag] assms(3) by simp
  have d: "file_data (k_file (dl_key s)) = take (cur_file_size s) D" using assms(2,3) by (simp add: starts_object_def cur_file_size_def Let_def)
  then have "cur_file_size s = length D" using assms(4) by (simp add: cur_file_size_def min_def split: if_splits)
  then show ?thesis using r d assms(1) by (simp add: attempt_resumable_download_def xfer_bind_def Let_def at_rest_def knows_def)
qed

lemma range_between: "range_of (AList.update ''Range'' (HStr (range_between n (int m))) hs) = Some (n, Some m)"
  using range_of_from(2) [of "AList.update ''Range'' (HStr (range_between n (int m))) hs" n m]
  by (simp add: range_between_def str_int_def update_conv')

text \<open>What an attempt asks for is what is missing, and it is written after what the file has.\<close>

lemma request_cases:
  assumes "request_of D tag hs cb s = (hs', cb', t)"
  obtains (resume) "matches tag s" "hs' = AList.update ''Range'' (HStr (range_between (cur_file_size s) (int (length D) - 1))) hs"
      "cb' = Translated cb (int (cur_file_size s))" "dl_key t = (dl_key s)\<lparr>k_file := seek_end (k_file (dl_key s))\<rparr>"
      "dl_etag t = dl_etag s" "dl_named t = dl_named s" "dl_writable t = dl_writable s" "dl_sleeps t = dl_sleeps s"
  | (anew) "\<not> matches tag s" "hs' = hs" "cb' = cb" "dl_key t = (dl_key s)\<lparr>k_file := truncate_file (seek_end (k_file (dl_key s)))\<rparr>"
      "dl_named t = dl_named s" "dl_writable t = dl_writable s" "dl_sleeps t = dl_sleeps s"
  using assms by (cases "matches tag s") (auto simp: request_of_def Let_def)

lemma file_simps [simp]:
  "file_data (seek_end f) = file_data f" "file_pos (seek_end f) = length (file_data f)" "appends (seek_end f) = appends f"
  "file_data (truncate_file f) = []" "file_pos (truncate_file f) = file_pos f" "appends (truncate_file f) = appends f"
  by (simp_all add: seek_end_def truncate_file_def appends_def)

lemma request_fits:
  assumes s: "at_rest D tag w s" "continuable D tag cb s" and r: "request_of D tag hs cb s = (hs', cb', t)"
    and more: "\<not> (matches tag s \<and> length D \<le> cur_file_size s)" and hs: "range_of hs = None"
  shows "at_rest D tag w t" "\<exists>m. opens_at D hs' m \<and> (m < length D \<or> range_of hs' = None) \<and> file_data (k_file (dl_key t)) = take m D"
    "cb' = NoCb \<or> callable cb'" "file_pos (k_file (dl_key t)) = cur_file_size t \<or> appends (k_file (dl_key t))"
    "continuable D tag cb t" "cur_file_size t \<le> cur_file_size s" "dl_sleeps t = dl_sleeps s" "dl_named t = dl_named s"
proof -
  have "at_rest D tag w t \<and> (\<exists>m. opens_at D hs' m \<and> (m < length D \<or> range_of hs' = None) \<and> file_data (k_file (dl_key t)) = take m D)
    \<and> (cb' = NoCb \<or> callable cb') \<and> (file_pos (k_file (dl_key t)) = cur_file_size t \<or> appends (k_file (dl_key t)))
    \<and> continuable D tag cb t \<and> cur_file_size t \<le> cur_file_size s \<and> dl_sleeps t = dl_sleeps s \<and> dl_named t = dl_named s"
    using r
  proof (cases rule: request_cases)
    case resume
    define m where "m = cur_file_size s"
    have f: "file_data (k_file (dl_key s)) = take m D" "m < length D" "callable cb"
      using s(2) more resume(1) by (simp_all add: continuable_def Let_def cur_file_size_def m_def)
    have "range_of hs' = Some (m, Some (length D - 1))"
      using range_between [of m "length D - 1" hs] resume(2) f(2) by (simp add: m_def of_nat_diff)
    then have open': "opens_at D hs' m" by (simp add: opens_at_def)
    have size: "cur_file_size t = m" using resume(4) by (simp add: cur_file_size_def m_def)
    then have "matches tag t" using resume(1,5) by (simp add: matches_def m_def)
    then have c: "continuable D tag cb t" using f resume(4) by (simp add: continuable_def)
    have a: "at_rest D tag w t" using s(1) resume(4,6,7) by (simp add: at_rest_def knows_def)
    have "file_data (k_file (dl_key t)) = take m D" "file_pos (k_file (dl_key t)) = cur_file_size t"
      using f(1,2) resume(4) size by simp_all
    then show ?thesis using open' f(2,3) resume(3,6,8) size a c by (auto simp flip: m_def)
  next
    case anew
    have f: "cb = NoCb \<or> callable cb" "appends (k_file (dl_key s)) \<or> file_data (k_file (dl_key s)) = []"
      using s(2) anew(1) by (simp_all add: continuable_def Let_def)
    have size: "cur_file_size t = 0" using anew(4) by (simp add: cur_file_size_def)
    then have "\<not> matches tag t" by (simp add: matches_def)
    moreover have "opens_at D hs' 0" using hs anew(2) by (simp add: opens_at_def)
    ultimately show ?thesis using s(1) anew f size hs
      by (intro conjI exI [of _ 0]) (auto simp: at_rest_def knows_def continuable_def cur_file_size_def)
  qed
  then show "at_rest D tag w t" "\<exists>m. opens_at D hs' m \<and> (m < length D \<or> range_of hs' = None) \<and> file_data (k_file (dl_key t)) = take m D"
    "cb' = NoCb \<or> callable cb'" "file_pos (k_file (dl_key t)) = cur_file_size t \<or> appends (k_file (dl_key t))"
    "continuable D tag cb t" "cur_file_size t \<le> cur_file_size s" "dl_sleeps t = dl_sleeps s" "dl_named t = dl_named s"
    by blast+
qed

lemma attempt_answered:
  assumes E: "object_env D tag E" and s: "at_rest D tag [] s" "continuable D tag cb s" and hs: "range_of hs = None"
  shows "\<exists>t. attempt_resumable_download E hs cb n False v s = (Inr (), t) \<and> file_data (k_file (dl_key t)) = D \<and> dl_named t = dl_named s"
proof (cases "matches tag s \<and> length D \<le> cur_file_size s")
  case True
  then show ?thesis using attempt_complete [OF s(1)] s(2) by (intro exI [of _ "on_file seek_end s"]) (simp add: continuable_iff seek_end_def)
next
  case False
  obtain hs' cb' t where r: "request_of D tag hs cb s = (hs', cb', t)" by (cases "request_of D tag hs cb s")
  note fits = request_fits [OF s r False hs]
  obtain m where m: "opens_at D hs' m" "m < length D \<or> range_of hs' = None" "file_data (k_file (dl_key t)) = take m D" using fits(2) by blast
  have k: "k_resp (dl_key t) = None" "k_world (dl_key t) = []" using fits(1) by (simp_all add: at_rest_def knows_def)
  obtain u where u: "key_get_file E hs' cb' n False v (Some 0) [] (dl_key t) = (Inr (), u)" "k_file u = file_write (drop m D) (k_file (dl_key t))"
    using get_object [OF E k m(1,2) fits(3), of n v "Some 0" "[]"] by blast
  have "file_data (k_file u) = D" using file_write_end(1) [of "k_file (dl_key t)" "drop m D"] fits(4) m(3) u(2)
    by (simp add: cur_file_size_def)
  then show ?thesis using attempt_request [OF at_rest_knows [OF s(1)] shorter [OF False] r] u(1) fits(8) by (simp add: on_dl_key_def)
qed

lemma attempt_unanswered:
  assumes E: "object_env D tag E" and s: "at_rest D tag (NoAnswer e # w) s" "starts_object D tag s" and hs: "range_of hs = None"
    and more: "\<not> (matches tag s \<and> length D \<le> cur_file_size s)"
  shows "\<exists>t. attempt_resumable_download E hs cb n torrent v s = (Inl e, t) \<and> at_rest D tag w t \<and> starts_object D tag t
    \<and> cur_file_size t \<le> cur_file_size s \<and> dl_named t = dl_named s
    \<and> (if matches tag s then matches tag t \<and> cur_file_size t = cur_file_size s else \<not> matches tag t)"
proof -
  obtain hs' cb' t where r: "request_of D tag hs cb s = (hs', cb', t)" by (cases "request_of D tag hs cb s")
  then obtain c where c: "request_of D tag hs Cb s = (hs', c, t)" using request_of_callback by blast
  have "continuable D tag Cb s" using s(2) by (simp add: continuable_iff)
  note fits = request_fits [OF s(1) this c more hs]
  let ?t = "t\<lparr>dl_key := (dl_key t)\<lparr>k_mode := Some ''r'', k_world := w\<rparr>\<rparr>"
  have "s3_get E (hs', k_name (dl_key t), q, Some 0) (k_world (dl_key t)) = (Inl e, w)" for q
    using E fits(1) by (simp add: object_env_def object_get_def at_rest_def knows_def Let_def)
  then have "key_get_file E hs' cb' n torrent v (Some 0) [] (dl_key t) = (Inl e, (dl_key t)\<lparr>k_mode := Some ''r'', k_world := w\<rparr>)"
    using get_without_answer [of "dl_key t" E hs' "Some 0" e w] fits(1) by (simp add: at_rest_def knows_def)
  then have "attempt_resumable_download E hs cb n torrent v s = (Inl e, ?t)"
    using attempt_request [OF at_rest_knows [OF s(1)] shorter [OF more] r] by (simp add: on_dl_key_def)
  moreover have "at_rest D tag w ?t" using fits(1) by (simp add: at_rest_def knows_def)
  moreover have size: "cur_file_size ?t = cur_file_size t" "matches tag ?t = matches tag t" by (simp_all add: cur_file_size_def matches_def)
  moreover have "starts_object D tag ?t" using fits(5) by (simp add: continuable_iff starts_object_def matches_def cur_file_size_def)
  moreover have "if matches tag s then matches tag t \<and> cur_file_size t = cur_file_size s else \<not> matches tag t"
    using r by (cases rule: request_cases) (auto simp: matches_def cur_file_size_def)
  ultimately show ?thesis using fits(6,8) by (intro exI [of _ ?t]) simp
qed

section \<open>Rounds\<close>

text \<open>Failures without an answer that only lead to another attempt.\<close>

definition passing :: "transfer_exc \<Rightarrow> bool" where
  "passing e \<longleftrightarrow> retryable e \<and> e \<noteq> SocketError True"

lemma round_answered:
  assumes "object_env D tag E" "at_rest D tag [] s" "continuable D tag cb s" "range_of hs = None"
  shows "\<exists>t. download_round E tries hs cb n False v p s = (Inr None, t) \<and> file_data (k_file (dl_key t)) = D \<and> (dl_named s \<longrightarrow> dl_tracker t = None)"
  using attempt_answered [OF assms, of n v] by (auto simp: download_round_def remove_download_tracker_def)

lemma close_at_rest:
  assumes "at_rest D tag w s"
  shows "\<exists>t. close_for_retry s = (Inr (), t) \<and> at_rest D tag w t \<and> k_file (dl_key t) = k_file (dl_key s) \<and> dl_etag t = dl_etag s
    \<and> dl_named t = dl_named s"
  using assms by (simp add: close_for_retry_def on_dl_key_def key_close_def at_rest_def knows_def k_etag_def)

lemma starts_object_frame:
  assumes "k_file (dl_key t) = k_file (dl_key s)" "dl_etag t = dl_etag s"
  shows "starts_object D tag t = starts_object D tag s" "matches tag t = matches tag s" "cur_file_size t = cur_file_size s"
  using assms by (simp_all add: starts_object_def matches_def cur_file_size_def)

lemma round_unanswered:
  assumes "object_env D tag E" "at_rest D tag (NoAnswer e # w) s" "starts_object D tag s" "range_of hs = None" "passing e" "p < tries"
    and more: "\<not> (matches tag s \<and> length D \<le> cur_file_size s)"
  shows "\<exists>t. download_round E tries hs cb n torrent v p s = (Inr (Some (p + 1)), t) \<and> at_rest D tag w t \<and> starts_object D tag t
    \<and> dl_named t = dl_named s \<and> (if matches tag s then matches tag t \<and> cur_file_size t = cur_file_size s else \<not> matches tag t)"
proof -
  obtain t where t: "attempt_resumable_download E hs cb n torrent v s = (Inl e, t)" "at_rest D tag w t" "starts_object D tag t"
      "cur_file_size t \<le> cur_file_size s" "dl_named t = dl_named s"
      "if matches tag s then matches tag t \<and> cur_file_size t = cur_file_size s else \<not> matches tag t"
    using attempt_unanswered [OF assms(1-4) more] by blast
  have h: "handle_download_exception E hs cb n torrent v e t = (Inr (), t)" using assms(5) by (simp add: handle_download_exception_def passing_def)
  obtain u where u: "close_for_retry t = (Inr (), u)" "at_rest D tag w u" "k_file (dl_key u) = k_file (dl_key t)" "dl_etag u = dl_etag t"
      "dl_named u = dl_named t"
    using close_at_rest [OF t(2)] by blast
  let ?u = "u\<lparr>dl_sleeps := dl_sleeps u @ [2 ^ (p + 1)]\<rparr>"
  have "download_round E tries hs cb n torrent v p s = (Inr (Some (p + 1)), ?u)"
    using t(1,4) h u(1) assms(6) by (simp add: download_round_def xfer_bind_def Let_def)
  moreover have "at_rest D tag w ?u" using u(2) by (simp add: at_rest_def knows_def)
  moreover have "starts_object D tag ?u" "matches tag ?u = matches tag t" "cur_file_size ?u = cur_file_size t"
    using starts_object_frame [of ?u t] u(3,4) t(3) by simp_all
  ultimately show ?thesis using t(5,6) u(5) by (intro exI [of _ ?u]) simp
qed

lemma loop_complete:
  assumes "at_rest D tag w s" "starts_object D tag s" "matches tag s" "length D \<le> cur_file_size s"
  shows "\<exists>t. download_loop E tries hs cb n torrent v p s = Some (Inr (), t) \<and> file_data (k_file (dl_key t)) = D \<and> (dl_named s \<longrightarrow> dl_tracker t = None)"
  using attempt_complete [OF assms] by (subst download_loop.simps) (simp add: download_round_def remove_download_tracker_def)

lemma loop_unanswered:
  assumes "object_env D tag E" "range_of hs = None" "at_rest D tag (map NoAnswer es) s" "continuable D tag cb s" "\<forall>e \<in> set es. passing e" "p + length es \<le> tries"
  shows "\<exists>t. download_loop E tries hs cb n False v p s = Some (Inr (), t) \<and> file_data (k_file (dl_key t)) = D \<and> (dl_named s \<longrightarrow> dl_tracker t = None)"
  using assms(3-)
proof (induction es arbitrary: p s)
  case Nil
  then obtain t where "download_round E tries hs cb n False v p s = (Inr None, t)" "file_data (k_file (dl_key t)) = D" "dl_named s \<longrightarrow> dl_tracker t = None"
    using round_answered [OF assms(1) _ _ assms(2)] by fastforce
  then show ?case by (subst download_loop.simps) simp
next
  case (Cons e es)
  have st: "starts_object D tag s" using Cons.prems(2) by (simp add: continuable_iff)
  show ?case
  proof (cases "matches tag s \<and> length D \<le> cur_file_size s")
    case True
    then show ?thesis using loop_complete [OF Cons.prems(1) st] by blast
  next
    case False
    have "\<exists>t. download_round E tries hs cb n False v p s = (Inr (Some (p + 1)), t) \<and> at_rest D tag (map NoAnswer es) t
        \<and> starts_object D tag t \<and> dl_named t = dl_named s \<and> (if matches tag s then matches tag t \<and> cur_file_size t = cur_file_size s else \<not> matches tag t)"
      by (rule round_unanswered [OF assms(1) _ st assms(2) _ _ False, of e]) (use Cons.prems in simp_all)
    then obtain t where t: "download_round E tries hs cb n False v p s = (Inr (Some (p + 1)), t)" "at_rest D tag (map NoAnswer es) t"
        "continuable D tag cb t" "dl_named t = dl_named s"
      using Cons.prems(2) by (auto simp: continuable_iff split: if_splits)
    then obtain u where "download_loop E tries hs cb n False v (p + 1) t = Some (Inr (), u)" "file_data (k_file (dl_key u)) = D"
        "dl_named t \<longrightarrow> dl_tracker u = None"
      using Cons.IH [OF t(2,3), of "p + 1"] Cons.prems(3,4) by auto
    then show ?thesis using t(1,4) by (subst download_loop.simps) simp
  qed
qed

text \<open>
  Without a callback, the start of the object in the file cannot be gone on with: the missing callback is wrapped and
  called.
\<close>

lemma get_file_uncalled:
  assumes "key_open E ''r'' hs (get_query_args torrent (case v of None \<Rightarrow> k_version_id s | Some v \<Rightarrow> Some v) rh) retries s = (Inr r, u)"
    and "0 < s3_buffer E" "k_size u \<noteq> None"
  shows "key_get_file E hs (Translated NoCb m) n torrent v retries rh s = (Inl (Raised TypeError), u)"
proof -
  have "\<exists>c. buffers_per_call (s3_buffer E) (k_size u) n = Inr c" using assms(2) by (simp add: buffers_per_call_def)
  then obtain c where "buffers_per_call (s3_buffer E) (k_size u) n = Inr c" by blast
  then show ?thesis using assms by (auto simp: key_get_file_def get_file_internal_def xfer_bind_def Let_def)
qed

lemma round_uncalled:
  assumes "object_env D tag E" "range_of hs = None" "at_rest D tag [] s" "matches tag s" "cur_file_size s < length D"
  shows "\<exists>t. download_round E tries hs NoCb n torrent v p s = (Inl (Raised TypeError), t)
    \<and> file_data (k_file (dl_key t)) = file_data (k_file (dl_key s))"
proof -
  define m where "m = cur_file_size s"
  obtain hs' cb' t where r: "request_of D tag hs NoCb s = (hs', cb', t)" by (cases "request_of D tag hs NoCb s")
  have t: "hs' = AList.update ''Range'' (HStr (range_between m (int (length D) - 1))) hs" "cb' = Translated NoCb (int m)"
      "dl_key t = (dl_key s)\<lparr>k_file := seek_end (k_file (dl_key s))\<rparr>"
    using r by (cases rule: request_cases; use assms(4) in \<open>simp add: m_def\<close>)+
  have "range_of hs' = Some (m, Some (length D - 1))"
    using range_between [of m "length D - 1" hs] t(1) assms(5) by (simp add: m_def of_nat_diff)
  then have hs': "opens_at D hs' m" "m < length D \<or> range_of hs' = None" using assms(5) by (simp_all add: opens_at_def m_def)
  let ?q = "get_query_args torrent (case v of None \<Rightarrow> k_version_id (dl_key t) | Some v \<Rightarrow> Some v) []"
  let ?k = "(dl_key t)\<lparr>k_mode := Some ''r''\<rparr>"
  have k: "k_resp ?k = None" "k_world ?k = []" using assms(3) t(3) by (simp_all add: at_rest_def)
  obtain u where "key_open_read E hs' ?q (Some 0) ?k = (Inr (object_response D tag hs'), u)" "k_size u = Some (int (length D))" "same_file ?k u"
    using open_object [OF assms(1) k hs', of ?q "Some 0"] by blast
  then have u: "key_open E ''r'' hs' ?q (Some 0) (dl_key t) = (Inr (object_response D tag hs'), u)" "k_size u \<noteq> None"
      "k_file u = k_file (dl_key t)"
    by (simp_all add: key_open_def same_file_def)
  have "0 < s3_buffer E" using assms(1) by (simp add: object_env_def)
  then have "key_get_file E hs' cb' n torrent v (Some 0) [] (dl_key t) = (Inl (Raised TypeError), u)"
    using get_file_uncalled [OF u(1) _ u(2)] t(2) by simp
  then have a: "attempt_resumable_download E hs NoCb n torrent v s = (Inl (Raised TypeError), t\<lparr>dl_key := u\<rparr>)"
    using attempt_request [OF at_rest_knows [OF assms(3)] _ r] assms(5) by (simp add: on_dl_key_def)
  have "download_round E tries hs NoCb n torrent v p s = (Inl (Raised TypeError), t\<lparr>dl_key := u\<rparr>)"
    by (simp add: download_round_def a xfer_bind_def handle_download_exception_def)
  then show ?thesis using u(3) t(3) by simp
qed

lemma loop_uncalled:
  assumes "object_env D tag E" "range_of hs = None"
    and "at_rest D tag (map NoAnswer es) s" "starts_object D tag s" "matches tag s" "cur_file_size s < length D"
      "\<forall>e \<in> set es. passing e" "p + length es \<le> tries"
  shows "\<exists>t. download_loop E tries hs NoCb n torrent v p s = Some (Inl (Raised TypeError), t)
    \<and> file_data (k_file (dl_key t)) = take (cur_file_size s) D"
  using assms(3-)
proof (induction es arbitrary: p s)
  case Nil
  then have "file_data (k_file (dl_key s)) = take (cur_file_size s) D" by (simp add: starts_object_def cur_file_size_def Let_def)
  then show ?case using round_uncalled [OF assms(1,2), of s tries n torrent v p] Nil by (subst download_loop.simps) auto
next
  case (Cons e es)
  have "\<not> (matches tag s \<and> length D \<le> cur_file_size s)" using Cons.prems(4) by simp
  then have "\<exists>t. download_round E tries hs NoCb n torrent v p s = (Inr (Some (p + 1)), t) \<and> at_rest D tag (map NoAnswer es) t
      \<and> starts_object D tag t \<and> dl_named t = dl_named s \<and> (if matches tag s then matches tag t \<and> cur_file_size t = cur_file_size s else \<not> matches tag t)"
    by (intro round_unanswered [OF assms(1) _ Cons.prems(2) assms(2), of e]) (use Cons.prems in simp_all)
  then obtain t where t: "download_round E tries hs NoCb n torrent v p s = (Inr (Some (p + 1)), t)" "at_rest D tag (map NoAnswer es) t"
      "starts_object D tag t" "matches tag t" "cur_file_size t = cur_file_size s"
    using Cons.prems(3) by auto
  then show ?case using Cons.IH [OF t(2-4), of "p + 1"] Cons.prems(4-6) by (subst download_loop.simps) auto
qed

text \<open>
  C8: a resumable download completes if at most \<open>num_retries\<close> requests fail without an answer (and not by a
  broken pipe): it returns, the file is the object, whether it was empty, held the object's start (with the
  entity tag in the tracker file) or, open for appending, anything else; and the tracker file is gone.  The exception is a
  download without a callback, as by default, that finds a start of the object: it raises \<open>TypeError\<close> and leaves
  the file as it was.
\<close>

theorem download_completes:
  assumes "object_env D tag E" "range_of hs = None" "at_rest D tag (map NoAnswer es) s" "starts_object D tag s"
    and "cb = NoCb \<or> callable cb" "\<forall>e \<in> set es. passing e" "length es \<le> (case tries of None \<Rightarrow> configured | Some m \<Rightarrow> m)"
  shows "\<exists>r t. download_file E tries configured hs cb n False v s = Some (r, t)
    \<and> (if cb = NoCb \<and> matches tag s \<and> cur_file_size s < length D
       then r = Inl (Raised TypeError) \<and> file_data (k_file (dl_key t)) = take (cur_file_size s) D
       else r = Inr () \<and> file_data (k_file (dl_key t)) = D \<and> (dl_named s \<longrightarrow> dl_tracker t = None))"
proof -
  let ?tries = "case tries of None \<Rightarrow> configured | Some m \<Rightarrow> m"
  consider (uncalled) "cb = NoCb" "matches tag s" "cur_file_size s < length D"
    | (complete) "cb = NoCb" "matches tag s" "length D \<le> cur_file_size s"
    | (continuable) "continuable D tag cb s" "\<not> (cb = NoCb \<and> matches tag s)"
    using assms(4,5) by (fastforce simp: continuable_iff)
  then show ?thesis
  proof cases
    case uncalled
    then show ?thesis using loop_uncalled [OF assms(1-4) uncalled(2,3) assms(6), of 0 ?tries n False v] assms(7)
      by (auto simp: download_file_def)
  next
    case complete
    then show ?thesis using loop_complete [OF assms(3,4) complete(2,3), of E ?tries hs cb n False v 0] by (auto simp: download_file_def)
  next
    case continuable
    then show ?thesis using loop_unanswered [OF assms(1-3) continuable(1) assms(6), of 0 ?tries n v] assms(7) by (auto simp: download_file_def)
  qed
qed

text \<open>A download of which a handler finds the start: the tracker file has the entity tag.\<close>

definition interrupted :: "string \<Rightarrow> get_fault list \<Rightarrow> get_fault list download" where
  "interrupted d w = download_init True True (Some (''tag-1'' @ [CHR 0x0A]))
     ((key_init (Some ''k'') \<lparr>file_data = d, file_pos = 0, file_mode = Some ''r+b''\<rparr> w)\<lparr>k_size := Some 5, k_fields := [(''etag'', ''tag-1'')]\<rparr>)"

lemma interrupted:
  "starts_object ''abcde'' ''tag-1'' (interrupted ''abc'' w)" "cur_file_size (interrupted ''abc'' w) = 3"
  "at_rest ''abcde'' ''tag-1'' w (interrupted ''abc'' w)" "continuable ''abcde'' ''tag-1'' Cb (interrupted ''abc'' w)"
  "matches ''tag-1'' (interrupted ''abc'' w)" "dl_named (interrupted ''abc'' w)"
  by (simp_all add: starts_object_def at_rest_def knows_def continuable_def matches_def interrupted_def download_init_def load_tracker_file_etag_def k_etag_def
    strip_quotes_def key_init_def cur_file_size_def Let_def)

theorem download_completes_witness:
  "\<exists>t. download_file (example_s3 ''abcde'') None 6 [] Cb 10 False None (interrupted ''abc'' [NoAnswer HTTPError, NoAnswer (SocketError False)])
      = Some (Inr (), t) \<and> file_data (k_file (dl_key t)) = ''abcde'' \<and> dl_tracker t = None"
  using download_completes [OF example_s3 _ _ interrupted(1) [of "[NoAnswer HTTPError, NoAnswer (SocketError False)]"], where hs = "[]" and es = "[HTTPError, SocketError False]"
    and cb = Cb and tries = None and configured = 6 and n = 10 and v = None] interrupted(3,6)
  by (simp add: range_of_def passing_def)

section \<open>After a reset\<close>

lemma get_reset:
  assumes E: "object_env D tag E" and s: "k_resp s = None" "k_world s = Reset m # w" and hs: "opens_at D hs n" "n + m < length D"
    and cb: "cb = NoCb \<or> callable cb"
  shows "\<exists>k r t. key_get_file E hs cb num_cb False v retries rh s = (Inl (SocketError False), t) \<and> k \<le> m
    \<and> k_file t = file_write (take k (drop n D)) (k_file s) \<and> k_resp t = Some r \<and> cut_off r
    \<and> k_world t = w \<and> k_size t = Some (int (length D)) \<and> k_etag t = Some tag"
proof -
  let ?r0 = "object_response D tag hs"
  define r where "r = ?r0\<lparr>gr_avail := take m (gr_avail ?r0), gr_reset := True\<rparr>"
  have n: "n < length D \<or> range_of hs = None" using hs by simp
  have r0: "gr_open ?r0" "gr_length ?r0 = Some (length (drop n D))" "gr_avail ?r0 = drop n D" "gr_cached ?r0 = []"
    using hs by (auto simp: opens_at_def object_response_def whole_response_def split: option.splits)
  have r: "resetting r" "gr_avail r = take m (drop n D)" using r0 hs(2) by (simp_all add: r_def resetting_def)
  let ?q = "get_query_args False (case v of None \<Rightarrow> k_version_id s | Some v \<Rightarrow> Some v) rh"
  let ?s = "s\<lparr>k_mode := Some ''r''\<rparr>"
  have get: "s3_get E (hs, k_name ?s, ?q, retries) (k_world ?s) = (Inr r, w)"
    using E s(2) by (simp add: object_env_def object_get_def r_def Let_def)
  have rp: "k_resp ?s = None" using s(1) by simp
  obtain u where "key_open_read E hs ?q retries ?s = (Inr r, u)" "k_size u = Some (int (length D))"
      "k_etag u = Some tag" "same_file ?s u" "k_world u = w"
    using open_response [OF E rp hs(1) n get] by (auto simp: r_def)
  then have u: "key_open E ''r'' hs ?q retries s = (Inr r, u)" "k_size u = Some (int (length D))"
      "k_etag u = Some tag" "k_file u = k_file s" "k_world u = w"
    by (simp_all add: key_open_def same_file_def)
  have buf: "0 < s3_buffer E" using E by (simp add: object_env_def)
  obtain cc c0 where pre: "(if cb = NoCb then (\<lambda>s. (Inr 0, s))
      else xfer_bind (xfer_lift (buffers_per_call (s3_buffer E) (Some (int (length D))) num_cb))
        (\<lambda>cb_count. xfer_bind (call_back cb 0 (int (length D))) (\<lambda>_ s. (Inr cb_count, s)))) u = (Inr cc, u\<lparr>k_calls := c0\<rparr>)"
    using open_calls [OF buf cb] by blast
  have "int (length D) \<le> 0 \<or> int (length [] + length (gr_avail r)) < int (length D)" using r(2) hs(2) by simp
  then obtain k r' c where loop: "get_loop E cb (int (length D)) cc [] 0 r (u\<lparr>k_calls := c0\<rparr>) = (Inl (SocketError False),
      (u\<lparr>k_calls := c0\<rparr>)\<lparr>k_resp := Some r', k_file := file_write (take k (gr_avail r)) (k_file u), k_calls := c\<rparr>)" "cut_off r'"
    using get_loop_reset [OF r(1) buf cb, of "int (length D)" "[]" cc 0 "u\<lparr>k_calls := c0\<rparr>"] by auto
  let ?t = "(u\<lparr>k_calls := c0\<rparr>)\<lparr>k_resp := Some r', k_file := file_write (take k (gr_avail r)) (k_file u), k_calls := c\<rparr>"
  have "key_get_file E hs cb num_cb False v retries rh s = (Inl (SocketError False), ?t)"
    by (simp only: key_get_file_def get_file_internal_def Let_def xfer_bind_def u(1,2) option.case pre loop(1) prod.case sum.case)
  moreover have "take k (gr_avail r) = take (min k m) (drop n D)" using r(2) by simp
  ultimately show ?thesis using u loop(2) by (intro exI [of _ "min k m"] exI [of _ r'] exI [of _ ?t]) (simp add: k_etag_def)
qed

lemma attempt_reset:
  assumes E: "object_env D tag E" and s: "at_rest D tag (Reset m # w) s" "continuable D tag cb s" and hs: "range_of hs = None"
    and m: "cur_file_size s + m < length D"
  shows "\<exists>k r t. attempt_resumable_download E hs cb n False v s = (Inl (SocketError False), t) \<and> k \<le> cur_file_size s + m
    \<and> file_data (k_file (dl_key t)) = take k D \<and> k_resp (dl_key t) = Some r \<and> cut_off r \<and> k_world (dl_key t) = w \<and> knows D tag t
    \<and> dl_named t = dl_named s"
proof -
  have more: "\<not> (matches tag s \<and> length D \<le> cur_file_size s)" using m by simp
  obtain hs' cb' t where r: "request_of D tag hs cb s = (hs', cb', t)" by (cases "request_of D tag hs cb s")
  note fits = request_fits [OF s r more hs]
  obtain j where j: "opens_at D hs' j" "j < length D \<or> range_of hs' = None" "file_data (k_file (dl_key t)) = take j D" using fits(2) by blast
  have "j < length D" using j(1,2) m by (auto simp: opens_at_def)
  then have "cur_file_size t = j" using j(3) by (simp add: cur_file_size_def)
  then have jm: "j + m < length D" using fits(6) m by simp
  have k: "k_resp (dl_key t) = None" "k_world (dl_key t) = Reset m # w" using fits(1) by (simp_all add: at_rest_def)
  obtain i r u where u: "key_get_file E hs' cb' n False v (Some 0) [] (dl_key t) = (Inl (SocketError False), u)" "i \<le> m"
      "k_file u = file_write (take i (drop j D)) (k_file (dl_key t))" "k_resp u = Some r" "cut_off r" "k_world u = w"
      "k_size u = Some (int (length D))" "k_etag u = Some tag"
    using get_reset [OF E k j(1) jm fits(3), of n v "Some 0" "[]"] by blast
  have "attempt_resumable_download E hs cb n False v s = (Inl (SocketError False), t\<lparr>dl_key := u\<rparr>)"
    using attempt_request [OF at_rest_knows [OF s(1)] shorter [OF more] r] u(1) by (simp add: on_dl_key_def)
  moreover have "file_data (k_file u) = take (j + i) D"
    using file_write_end(1) [of "k_file (dl_key t)" "take i (drop j D)"] fits(4) j(3) u(3) by (simp add: cur_file_size_def take_add)
  moreover have "knows D tag (t\<lparr>dl_key := u\<rparr>)" using u(7,8) fits(1) by (simp add: knows_def at_rest_def)
  moreover have "j + i \<le> cur_file_size s + m" using fits(6) \<open>cur_file_size t = j\<close> u(2) by simp
  ultimately show ?thesis using u(4-6) fits(8) by (intro exI [of _ "j + i"] exI [of _ r] exI [of _ "t\<lparr>dl_key := u\<rparr>"]) simp
qed

text \<open>An attempt with a key whose response is left over.\<close>

lemma attempt_left_over:
  assumes "knows D tag s" "k_resp (dl_key s) = Some r" "\<not> gr_open r" "0 < s3_buffer E" "cb = NoCb \<or> callable cb"
    and "file_data (k_file (dl_key s)) = take k D" "k < length D"
  shows "\<exists>x j t. attempt_resumable_download E hs cb n False v s = (x, t) \<and> (x = Inr () \<or> cb = NoCb \<and> x = Inl (Raised TypeError))
    \<and> j \<le> k \<and> file_data (k_file (dl_key t)) = take j D \<and> k_world (dl_key t) = k_world (dl_key s) \<and> dl_named t = dl_named s"
proof -
  have more: "matches tag s \<longrightarrow> cur_file_size s < length D" using assms(6,7) by (simp add: cur_file_size_def)
  obtain hs' cb' t where r: "request_of D tag hs cb s = (hs', cb', t)" by (cases "request_of D tag hs cb s")
  have t: "k_resp (dl_key t) = Some r" "cb' = NoCb \<or> callable cb' \<or> cb = NoCb \<and> (\<exists>m. cb' = Translated NoCb m)"
      "k_world (dl_key t) = k_world (dl_key s)" "dl_named t = dl_named s" "k_size (dl_key t) \<noteq> None"
      "file_data (k_file (dl_key t)) = take k D \<or> file_data (k_file (dl_key t)) = take 0 D"
    using r by (cases rule: request_cases; use assms in \<open>auto simp: knows_def\<close>)+
  have "\<exists>x u. key_get_file E hs' cb' n False v (Some 0) [] (dl_key t) = (x, u) \<and> (x = Inr () \<or> cb = NoCb \<and> x = Inl (Raised TypeError))
      \<and> k_file u = k_file (dl_key t) \<and> k_world u = k_world (dl_key t)"
  proof (cases "cb' = NoCb \<or> callable cb'")
    case True
    then show ?thesis using get_file_of_closed [OF t(1) assms(3,4) True] by blast
  next
    case False
    then obtain m where m: "cb = NoCb" "cb' = Translated NoCb m" using t(2) by blast
    have "key_open E ''r'' hs' q (Some 0) (dl_key t) = (Inr r, (dl_key t)\<lparr>k_mode := Some ''r''\<rparr>)" for q
      using t(1) by (simp add: key_open_def key_open_read_def)
    from get_file_uncalled [OF this assms(4)] t(5) m show ?thesis by simp
  qed
  then obtain x u where "key_get_file E hs' cb' n False v (Some 0) [] (dl_key t) = (x, u)" "x = Inr () \<or> cb = NoCb \<and> x = Inl (Raised TypeError)"
      "k_file u = k_file (dl_key t)" "k_world u = k_world (dl_key t)"
    by blast
  moreover have "\<exists>j \<le> k. file_data (k_file (dl_key t)) = take j D" using t(6) by auto
  ultimately show ?thesis using attempt_request [OF assms(1) more r] t(3,4) by (auto simp: on_dl_key_def)
qed

text \<open>
  C13: if the connection is reset while the body arrives, the download ends in its next attempt without having sent another
  request, and the file is a proper prefix of the object.  With a callback it returns, and the tracker file is removed as if
  the file were complete; without one it does the same or raises \<open>TypeError\<close> (if bytes had been written).
\<close>

theorem download_ends_cut_off:
  assumes "object_env D tag E" "range_of hs = None" "at_rest D tag (Reset m # w) s" "continuable D tag cb s"
    and "cur_file_size s + m < length D" "1 \<le> (case tries of None \<Rightarrow> configured | Some n \<Rightarrow> n)"
  shows "\<exists>r t k. download_file E tries configured hs cb n False v s = Some (r, t)
    \<and> k < length D \<and> file_data (k_file (dl_key t)) = take k D \<and> k_world (dl_key t) = w
    \<and> (r = Inr () \<and> (dl_named s \<longrightarrow> dl_tracker t = None) \<or> cb = NoCb \<and> r = Inl (Raised TypeError))"
proof -
  let ?tries = "case tries of None \<Rightarrow> configured | Some n \<Rightarrow> n"
  obtain k r t where t: "attempt_resumable_download E hs cb n False v s = (Inl (SocketError False), t)" "k \<le> cur_file_size s + m"
      "file_data (k_file (dl_key t)) = take k D" "k_resp (dl_key t) = Some r" "cut_off r" "k_world (dl_key t) = w" "knows D tag t"
      "dl_named t = dl_named s"
    using attempt_reset [OF assms(1,3,4,2,5), of n v] by blast
  have h: "handle_download_exception E hs cb n False v (SocketError False) t = (Inr (), t)" by (simp add: handle_download_exception_def)
  obtain r' where r': "key_close False (dl_key t) = (Inl IncompleteRead, (dl_key t)\<lparr>k_resp := Some r'\<rparr>)" "\<not> gr_open r'"
    using close_cut_off [OF t(4,5)] by blast
  define p :: nat where "p = (if cur_file_size s < cur_file_size t then 0 else 1)"
  define u where "u = t\<lparr>dl_key := (dl_key t)\<lparr>k_resp := Some r'\<rparr>, dl_sleeps := dl_sleeps t @ [2 ^ p]\<rparr>"
  have round1: "download_round E ?tries hs cb n False v 0 s = (Inr (Some p), u)"
    using t(1) h r'(1) assms(6) by (simp add: download_round_def xfer_bind_def Let_def close_for_retry_def on_dl_key_def p_def u_def)
  have u: "knows D tag u" "k_resp (dl_key u) = Some r'" "file_data (k_file (dl_key u)) = take k D" "k_world (dl_key u) = w" "dl_named u = dl_named s"
    using t(3,6,7,8) by (simp_all add: u_def knows_def k_etag_def)
  have buf: "0 < s3_buffer E" "k < length D" using assms(1,5) t(2) by (simp_all add: object_env_def)
  have cb: "cb = NoCb \<or> callable cb" using assms(4) by (auto simp: continuable_iff)
  obtain y j x where x: "attempt_resumable_download E hs cb n False v u = (y, x)" "y = Inr () \<or> cb = NoCb \<and> y = Inl (Raised TypeError)"
      "j \<le> k" "file_data (k_file (dl_key x)) = take j D" "k_world (dl_key x) = w" "dl_named x = dl_named s"
    using attempt_left_over [OF u(1,2) r'(2) buf(1) cb u(3) buf(2)] u(4,5) by metis
  let ?x = "if y = Inr () then remove_download_tracker x else x"
  have "download_round E ?tries hs cb n False v p u = (case y of Inl e \<Rightarrow> (Inl e, x) | Inr _ \<Rightarrow> (Inr None, remove_download_tracker x))"
    using x(1,2) by (auto simp: download_round_def xfer_bind_def handle_download_exception_def)
  then have "download_file E tries configured hs cb n False v s = Some (y, ?x)"
    using round1 x(2) by (auto simp: download_file_def download_loop.simps [of _ _ _ _ _ _ _ 0 s] download_loop.simps [of _ _ _ _ _ _ _ p u])
  moreover have "j < length D" using x(3) buf(2) by simp
  moreover have "file_data (k_file (dl_key ?x)) = take j D" "k_world (dl_key ?x) = w" using x(4,5) by (simp_all add: remove_download_tracker_def)
  moreover have "y = Inr () \<and> (dl_named s \<longrightarrow> dl_tracker ?x = None) \<or> cb = NoCb \<and> y = Inl (Raised TypeError)"
    using x(2,6) by (auto simp: remove_download_tracker_def)
  ultimately show ?thesis by blast
qed

theorem download_ends_cut_off_witness:
  "\<exists>t k. download_file (example_s3 ''abcde'') (Some 6) 0 [] Cb 10 False None (interrupted ''ab'' [Reset 2]) = Some (Inr (), t) \<and> k < 5
    \<and> file_data (k_file (dl_key t)) = take k ''abcde'' \<and> k_world (dl_key t) = [] \<and> dl_tracker t = None"
proof -
  have s: "at_rest ''abcde'' ''tag-1'' [Reset 2] (interrupted ''ab'' [Reset 2])" "continuable ''abcde'' ''tag-1'' Cb (interrupted ''ab'' [Reset 2])"
    "cur_file_size (interrupted ''ab'' [Reset 2]) = 2" "dl_named (interrupted ''ab'' [Reset 2])"
    by (simp_all add: at_rest_def knows_def continuable_def matches_def interrupted_def download_init_def load_tracker_file_etag_def k_etag_def
      strip_quotes_def key_init_def cur_file_size_def Let_def)
  show ?thesis using download_ends_cut_off [OF example_s3 _ s(1,2), where hs = "[]" and configured = 0 and tries = "Some 6" and n = 10 and v = None] s(3,4)
    by (simp add: range_of_def eval_nat_numeral) blast
qed

text \<open>
  A download that finds the start of the object in its file and is given no callback sends its request and
  raises \<open>TypeError\<close>, because the missing callback is wrapped and called; the file is left as it was.
\<close>

theorem resume_needs_callback:
  assumes "object_env D tag E" "range_of hs = None" "at_rest D tag [] s" "matches tag s" "cur_file_size s < length D"
  shows "\<exists>t. download_file E tries configured hs NoCb n torrent v s = Some (Inl (Raised TypeError), t)
    \<and> file_data (k_file (dl_key t)) = file_data (k_file (dl_key s))"
proof -
  have "\<exists>t. download_round E tries' hs NoCb n torrent v 0 s = (Inl (Raised TypeError), t) \<and> file_data (k_file (dl_key t)) = file_data (k_file (dl_key s))"
    for tries' by (rule round_uncalled [OF assms])
  then obtain t where "download_round E (case tries of None \<Rightarrow> configured | Some n \<Rightarrow> n) hs NoCb n torrent v 0 s = (Inl (Raised TypeError), t)"
    "file_data (k_file (dl_key t)) = file_data (k_file (dl_key s))" by blast
  then show ?thesis by (simp add: download_file_def download_loop.simps [of _ _ _ _ _ _ _ 0 s])
qed

theorem resume_needs_callback_witness:
  "\<exists>t. download_file (example_s3 ''abcde'') None 6 [] NoCb 10 False None (interrupted ''abc'' []) = Some (Inl (Raised TypeError), t)
    \<and> file_data (k_file (dl_key t)) = ''abc''"
proof -
  have s: "file_data (k_file (dl_key (interrupted ''abc'' []))) = ''abc''"
    by (simp add: interrupted_def download_init_def load_tracker_file_etag_def key_init_def)
  show ?thesis using resume_needs_callback [OF example_s3 _ interrupted(3,5), of "[]" None 6 10 False None] s
    by (simp add: range_of_def cur_file_size_def)
qed

end
