(* ===== verification/S3_Conn.thy ===== *)
theory S3_Conn
  imports Complex_Main Conn_Mexe
begin

text \<open>
  Connections to S3, \<^verbatim>\<open>boto/s3/connection.py\<close>: the calling formats, which say where the bucket's name goes,
  the requests that \<open>make_request\<close> sends, signed URLs and forms.

  The signature (\<open>sign_string\<close>, \<open>presign\<close> of the connection's handler) and the clock are parameters.
\<close>

section \<open>Calling formats\<close>

datatype calling_format = Subdomain | VHost | OrdinaryFormat | ProtocolIndependent

definition is_upper :: "char \<Rightarrow> bool" where
  "is_upper c \<longleftrightarrow> CHR ''A'' \<le> c \<and> c \<le> CHR ''Z''"

text \<open>\<open>(n + 'a').islower()\<close> of a byte string.\<close>

definition check_lowercase_bucketname :: "string \<Rightarrow> unit res" where
  "check_lowercase_bucketname n = (if \<exists>c \<in> set n. is_upper c then Inl (Boto_Error ''BotoClientError'') else Inr ())"

definition get_bucket_server :: "calling_format \<Rightarrow> string \<Rightarrow> string \<Rightarrow> string res" where
  "get_bucket_server fmt server bucket =
     (case fmt of
        Subdomain \<Rightarrow> res_bind (check_lowercase_bucketname bucket) (\<lambda>_. Inr (bucket @ ''.'' @ server))
      | VHost \<Rightarrow> res_bind (check_lowercase_bucketname bucket) (\<lambda>_. Inr bucket)
      | _ \<Rightarrow> Inr server)"

definition build_host :: "calling_format \<Rightarrow> string \<Rightarrow> string \<Rightarrow> string res" where
  "build_host fmt server bucket = (if bucket = [] then Inr server else get_bucket_server fmt server bucket)"

definition utf8able :: "string \<Rightarrow> string res" where
  "utf8able s = (if utf8_valid s then Inr s else Inl UnicodeDecodeError)"

definition build_auth_path :: "string \<Rightarrow> string \<Rightarrow> string res" where
  "build_auth_path bucket key =
     res_bind (utf8able key) (\<lambda>key. res_bind (utf8able bucket) (\<lambda>bucket.
       Inr ((if bucket \<noteq> [] then ''/'' @ bucket else []) @ ''/'' @ quote ''/'' key)))"

definition build_path_base :: "calling_format \<Rightarrow> string \<Rightarrow> string \<Rightarrow> string res" where
  "build_path_base fmt bucket key = res_bind (utf8able key) (\<lambda>key.
     Inr ((if fmt \<in> {OrdinaryFormat, ProtocolIndependent} \<and> bucket \<noteq> [] then ''/'' @ bucket @ ''/'' else ''/'') @ quote ''/'' key))"


section \<open>Requests\<close>

definition with_query :: "string option \<Rightarrow> string \<Rightarrow> string" where
  "with_query query_args path = (if str_true query_args then path @ ''?'' @ the query_args else path)"

text \<open>The request of \<open>S3Connection.make_request\<close>; \<open>on_gae\<close> and \<open>ver\<close> are those of \<open>server_name\<close>.\<close>

definition s3_http_request :: "bool \<Rightarrow> string \<Rightarrow> calling_format \<Rightarrow> aws_conn \<Rightarrow> string \<Rightarrow> string \<Rightarrow> string \<Rightarrow> headers option \<Rightarrow> string
    \<Rightarrow> string option \<Rightarrow> request res" where
  "s3_http_request on_gae ver fmt c method bucket key hs data query_args =
     res_bind (build_path_base fmt bucket key) (\<lambda>path.
     res_bind (build_auth_path bucket key) (\<lambda>auth_path.
     res_bind (build_host fmt (server_name on_gae ver c None) bucket) (\<lambda>h.
       build_base_http_request on_gae ver c method (with_query query_args path) (Some (with_query query_args auth_path)) None hs data h)))"

definition s3_make_request :: "mexe_env \<Rightarrow> calling_format \<Rightarrow> nat option \<Rightarrow> nat option \<Rightarrow> aws_conn \<Rightarrow> nat \<Rightarrow> http_conn conn_pool \<Rightarrow> nat
    \<Rightarrow> string \<Rightarrow> string \<Rightarrow> string \<Rightarrow> headers option \<Rightarrow> string \<Rightarrow> string option \<Rightarrow> ((mexe_exc + response) \<times> mexe_state option) option" where
  "s3_make_request E fmt override cfg c ticks pool first_id method bucket key hs data query_args =
     (case s3_http_request (gae E) (py_version E) fmt c method bucket key hs data query_args of
        Inl e \<Rightarrow> Some (Inl (Raised e), None)
      | Inr req \<Rightarrow> map_option (\<lambda>(r, s). (r, Some s)) (mexe E override cfg c ticks pool first_id req))"

section \<open>Signed URLs\<close>

record s3_signer =
  sign_string :: "string \<Rightarrow> string"
  presign_request :: "request \<Rightarrow> int \<Rightarrow> string res"
  v4_capability :: bool
  no_sign :: bool








section \<open>Forms\<close>

definition quoted_pair :: "string \<Rightarrow> string \<Rightarrow> string" where
  "quoted_pair n v = ''{'' @ [CHR 0x22] @ n @ [CHR 0x22] @ '': '' @ [CHR 0x22] @ v @ [CHR 0x22] @ ''}''"

definition build_post_policy :: "string \<Rightarrow> string list \<Rightarrow> string" where
  "build_post_policy expiration conditions =
     ''{'' @ [CHR 0x22] @ ''expiration'' @ [CHR 0x22] @ '': '' @ [CHR 0x22] @ expiration @ [CHR 0x22] @ '','' @ [CHR 0x0A]
     @ [CHR 0x22] @ ''conditions'' @ [CHR 0x22] @ '': ['' @ str_join '','' conditions @ '']}''"

text \<open>Conditions and fields, in their order; \<open>expiration\<close> is the time formatted.\<close>

definition in_quotes :: "string \<Rightarrow> string" where
  "in_quotes s = [CHR 0x22] @ s @ [CHR 0x22]"

definition key_condition :: "string \<Rightarrow> string" where
  "key_condition key =
     (if str_endswith key ''${filename}''
      then ''['' @ in_quotes ''starts-with'' @ '', '' @ in_quotes ''$key'' @ '', '' @ in_quotes (take (length key - 11) key) @ '']''
      else quoted_pair ''key'' key)"

definition given :: "string option \<Rightarrow> (string \<Rightarrow> 'a) \<Rightarrow> 'a list" where
  "given v f = (if str_true v then [f (the v)] else [])"

definition build_post_form_args :: "bool \<Rightarrow> string \<Rightarrow> calling_format \<Rightarrow> aws_conn \<Rightarrow> provider \<Rightarrow> s3_signer \<Rightarrow> string \<Rightarrow> string \<Rightarrow> string
    \<Rightarrow> string option \<Rightarrow> string option \<Rightarrow> nat option \<Rightarrow> string \<Rightarrow> (string, string) dict \<Rightarrow> string list \<Rightarrow> string option \<Rightarrow> string option
    \<Rightarrow> (string \<times> (string \<times> string) list) res" where
  "build_post_form_args on_gae ver fmt c p S expiration bucket key acl redirect max_len http_method form_fields conditions storage encryption =
     (let conditions = conditions @ [quoted_pair ''bucket'' bucket, key_condition key]
            @ given acl (quoted_pair ''acl'') @ given redirect (quoted_pair ''success_action_redirect'')
            @ (case max_len of None \<Rightarrow> [] | Some n \<Rightarrow> if n = 0 then [] else [''['' @ in_quotes ''content-length-range'' @ '', 0, '' @ nat_str n @ '']''])
            @ given (security_token p) (quoted_pair ''x-amz-security-token'')
            @ given storage (quoted_pair ''x-amz-storage-class'')
            @ given encryption (quoted_pair ''x-amz-server-side-encryption'');
          form_fields = form_fields @ given acl (Pair ''acl'') @ given redirect (Pair ''success_action_redirect'')
            @ given (security_token p) (Pair ''x-amz-security-token'')
            @ given storage (Pair ''x-amz-storage-class'') @ given encryption (Pair ''x-amz-server-side-encryption'');
          policy = b64encode (build_post_policy expiration conditions)
      in res_bind (build_host fmt (server_name on_gae ver c None) bucket) (\<lambda>h.
           Inr (http_method @ ''://'' @ h @ ''/'',
                form_fields @ [(''policy'', policy), (''AWSAccessKeyId'', access_key p), (''signature'', sign_string S policy), (''key'', key)])))"

section \<open>What is signed is what is asked for\<close>




















end
