(* ===== verification/Py_Base64.thy ===== *)
theory Py_Base64
  imports Py_Net
begin

text \<open>Decoding Base64 as \<open>binascii\<close> does: lenient about characters outside the alphabet; what was encoded is decoded.\<close>

section \<open>\<open>binascii.a2b_base64\<close>\<close>

definition b64_val :: "char \<Rightarrow> nat option" where
  "b64_val c =
     (if is_upper_case c then Some (of_char c - 65)
      else if is_lower_case c then Some (of_char c - 71)
      else if is_digit c then Some (of_char c + 4)
      else if c = CHR ''+'' then Some 62
      else if c = CHR ''/'' then Some 63
      else None)"

text \<open>
  The loop of CPython: \<open>acc\<close> holds the \<open>bits\<close> bits that are left over, \<open>quad\<close> counts the characters; what is no
  character of the alphabet is skipped, and a complete padding ends the input.
\<close>

fun a2b_loop :: "nat \<Rightarrow> nat \<Rightarrow> nat \<Rightarrow> string \<Rightarrow> string res" where
  "a2b_loop acc bits quad [] = (if bits = 0 then Inr [] else Inl ValueError)"
| "a2b_loop acc bits quad (c # s) =
     (if c = CHR ''=''
      then if quad < 2 \<or> quad = 2 \<and> (case dropWhile (\<lambda>x. b64_val x = None \<and> x \<noteq> CHR ''='') s of [] \<Rightarrow> True | x # _ \<Rightarrow> x \<noteq> CHR ''='')
           then a2b_loop acc bits quad s else Inr []
      else case b64_val c of
             None \<Rightarrow> a2b_loop acc bits quad s
           | Some v \<Rightarrow>
               (let acc = acc * 64 + v; bits = bits + 6; quad = (quad + 1) mod 4
                in if 8 \<le> bits
                   then res_bind (a2b_loop (acc mod 2 ^ (bits - 8)) (bits - 8) quad s) (\<lambda>t. Inr (char_of (acc div 2 ^ (bits - 8)) # t))
                   else a2b_loop acc bits quad s))"

definition a2b_base64 :: "string \<Rightarrow> string res" where
  "a2b_base64 s = a2b_loop 0 0 0 s"

lemma b64_val_char:
  assumes "d < 64"
  shows "b64_val (b64_char d) = Some d \<and> b64_char d \<noteq> CHR ''=''"
proof -
  let ?a = "''ABCDEFGHIJKLMNOPQRSTUVWXYZabcdefghijklmnopqrstuvwxyz0123456789+/''"
  have len: "length ?a = 64" by simp
  have upt: "[0..<64] = 0 # 1 # [2..<64]" by (simp add: upt_conv_Cons numeral_2_eq_2)
  have vals: "map b64_val ?a = map Some [0..<64]"
    unfolding upt by (simp add: b64_val_def is_upper_case_def is_lower_case_def is_digit_def upt_rec_numeral)
  have "b64_val (?a ! d) = map b64_val ?a ! d" using assms len by (subst nth_map) simp_all
  also have "\<dots> = Some d" unfolding vals using assms by simp
  finally have "b64_val (b64_char d) = Some d" by (simp only: b64_char_def)
  moreover have "b64_char d \<in> set ?a" unfolding b64_char_def using assms len by (intro nth_mem) simp
  moreover have "CHR ''='' \<notin> set ?a" by simp
  ultimately show ?thesis by metis
qed

lemma a2b_char:
  assumes "d < 64"
  shows "a2b_loop acc bits quad (b64_char d # s) =
     (if 2 \<le> bits
      then res_bind (a2b_loop ((acc * 64 + d) mod 2 ^ (bits - 2)) (bits - 2) ((quad + 1) mod 4) s)
             (\<lambda>t. Inr (char_of ((acc * 64 + d) div 2 ^ (bits - 2)) # t))
      else a2b_loop (acc * 64 + d) (bits + 6) ((quad + 1) mod 4) s)"
  using b64_val_char [OF assms] by (simp add: Let_def)

declare a2b_loop.simps(2) [simp del]

lemma regroup: "b = q * 16 + r \<Longrightarrow> (a * 256 + b) * 4 + t = (a * 16 + q) * 64 + (r * 4 + t)" for a b q r t :: nat
  by simp

lemma middle:
  fixes a q :: nat
  assumes "q < 16"
  shows "(a * 16 + q) mod 64 = a mod 4 * 16 + q"
proof -
  have e: "a * 16 + q = a div 4 * 64 + (a mod 4 * 16 + q)" using div_mult_mod_eq [of a 4] by linarith
  have "a mod 4 < 4" by simp
  then have "a mod 4 * 16 + q < 64" using assms by linarith
  then show ?thesis by (subst e) (simp only: mod_mult_self3 mod_less)
qed

text \<open>The six-bit pieces of three bytes.\<close>

lemma sextets:
  fixes a b c :: nat
  assumes "a < 256" "b < 256" "c < 256"
  defines "x \<equiv> (a * 256 + b) * 256 + c"
  shows "x div 262144 = a div 4" "x div 4096 mod 64 = a mod 4 * 16 + b div 16" "x div 64 mod 64 = b mod 16 * 4 + c div 64" "x mod 64 = c mod 64"
proof -
  have y: "x div 256 = a * 256 + b" using assms(3) by (simp add: x_def)
  have "x div 262144 = x div 256 div 256 div 4" by (simp flip: div_mult2_eq)
  then show "x div 262144 = a div 4" using assms(2) by (simp add: y)
  have "x div 4096 = x div 256 div 16" by (simp flip: div_mult2_eq)
  also have "\<dots> = a * 16 + b div 16" unfolding y by simp
  finally have e: "x div 4096 = a * 16 + b div 16" .
  show "x div 4096 mod 64 = a mod 4 * 16 + b div 16" unfolding e using assms(2) by (intro middle) (simp add: less_mult_imp_div_less)
  have "x div 64 = (a * 256 + b) * 4 + c div 64" by (simp add: x_def)
  also have "\<dots> = (a * 16 + b div 16) * 64 + (b mod 16 * 4 + c div 64)"
    by (rule regroup) simp
  finally have e: "x div 64 = (a * 16 + b div 16) * 64 + (b mod 16 * 4 + c div 64)" .
  have "x div 64 mod 64 = (b mod 16 * 4 + c div 64) mod 64" unfolding e by (rule mod_mult_self3)
  also have "\<dots> = b mod 16 * 4 + c div 64"
  proof -
    have "b mod 16 * 4 + c div 64 < 64" using assms(3) by (simp add: less_mult_imp_div_less)
    then show ?thesis by simp
  qed
  finally show "x div 64 mod 64 = b mod 16 * 4 + c div 64" .
  have x: "x = c + 64 * ((a * 256 + b) * 4)" by (simp add: x_def)
  show "x mod 64 = c mod 64" unfolding x by (rule mod_mult_self2)
qed

lemma a2b_group:
  "a2b_loop 0 0 0 (b64encode (a # b # c # s)) = res_bind (a2b_loop 0 0 0 (b64encode s)) (\<lambda>t. Inr (a # b # c # t))"
proof -
  define x :: nat where "x = of_char a"
  define y :: nat where "y = of_char b"
  define z :: nat where "z = of_char c"
  note xyz = x_def y_def z_def
  have less: "x < 256" "y < 256" "z < 256" using of_char_less [of a] of_char_less [of b] of_char_less [of c] xyz by simp_all
  have chars: "char_of x = a" "char_of y = b" "char_of z = c" by (simp_all add: xyz)
  have d: "x div 4 < 64" "x mod 4 * 16 + y div 16 < 64" "y mod 16 * 4 + z div 64 < 64" "z mod 64 < 64"
    using less by (simp_all add: less_mult_imp_div_less)
  have y: "(y div 16 < 16)" "z div 64 < 4" using less by (simp_all add: less_mult_imp_div_less)
  have e1: "(x div 4 * 64 + (x mod 4 * 16 + y div 16)) div 16 = x" "(x div 4 * 64 + (x mod 4 * 16 + y div 16)) mod 16 = y div 16"
  proof -
    have *: "x div 4 * 64 + (x mod 4 * 16 + y div 16) = x * 16 + y div 16" using div_mult_mod_eq [of x 4] by linarith
    show "(x div 4 * 64 + (x mod 4 * 16 + y div 16)) div 16 = x" "(x div 4 * 64 + (x mod 4 * 16 + y div 16)) mod 16 = y div 16"
      unfolding * using y by simp_all
  qed
  have e2: "(y div 16 * 64 + (y mod 16 * 4 + z div 64)) div 4 = y" "(y div 16 * 64 + (y mod 16 * 4 + z div 64)) mod 4 = z div 64"
  proof -
    have *: "y div 16 * 64 + (y mod 16 * 4 + z div 64) = y * 4 + z div 64" using div_mult_mod_eq [of y 16] by linarith
    show "(y div 16 * 64 + (y mod 16 * 4 + z div 64)) div 4 = y" "(y div 16 * 64 + (y mod 16 * 4 + z div 64)) mod 4 = z div 64"
      unfolding * using y by simp_all
  qed
  have e3: "z div 64 * 64 + z mod 64 = z" by simp
  have "b64encode (a # b # c # s) = b64_char (x div 4) # b64_char (x mod 4 * 16 + y div 16) # b64_char (y mod 16 * 4 + z div 64)
      # b64_char (z mod 64) # b64encode s"
    using sextets [OF less] by (simp add: xyz Let_def)
  then show ?thesis
    by (simp add: a2b_char d e1 e2 e3 chars res_bind_assoc del: b64encode.simps)
qed

text \<open>What was encoded is decoded.\<close>

lemma a2b_b64encode: "a2b_base64 (b64encode s) = Inr s"
proof -
  have "a2b_loop 0 0 0 (b64encode s) = Inr s"
  proof (induction s rule: b64encode.induct)
    case (2 a)
    define x :: nat where "x = of_char a"
    have x: "x < 256" "char_of x = a" using of_char_less [of a] by (simp_all add: x_def)
    have "x * 16 div 64 = x div 4" "x * 16 mod 64 = x mod 4 * 16" using mod_mult_mult2 [of x 16 4] by simp_all
    moreover have "x div 4 < 64" "x mod 4 * 16 < 64" using x(1) by (simp_all add: less_mult_imp_div_less)
    moreover have "(x div 4 * 64 + x mod 4 * 16) div 16 = x" "(x div 4 * 64 + x mod 4 * 16) mod 16 = 0"
    proof -
      have *: "x div 4 * 64 + x mod 4 * 16 = x * 16" using div_mult_mod_eq [of x 4] by linarith
      show "(x div 4 * 64 + x mod 4 * 16) div 16 = x" "(x div 4 * 64 + x mod 4 * 16) mod 16 = 0" unfolding * by simp_all
    qed
    ultimately show ?case using x(2) by (simp add: a2b_char a2b_loop.simps(2) [of _ _ _ "CHR ''=''"] flip: x_def)
  next
    case (3 a b)
    define x :: nat where "x = of_char a"
    define y :: nat where "y = of_char b"
    have less: "x < 256" "y < 256" and chars: "char_of x = a" "char_of y = b"
      using of_char_less [of a] of_char_less [of b] by (simp_all add: x_def y_def)
    have y: "y div 16 < 16" using less by (simp add: less_mult_imp_div_less)
    define v where "v = x * 256 + y"
    have v16: "v = y + 16 * (x * 16)" by (simp add: v_def)
    have "v mod 16 = y mod 16" unfolding v16 by (rule mod_mult_self2)
    then have v: "v div 256 = x" "v div 16 = x * 16 + y div 16" "v mod 16 = y mod 16" using less(2) by (simp_all add: v_def)
    have "v * 4 div 4096 = v div 256 div 4" using div_mult_mult2 [of 4 v 1024] by (simp flip: div_mult2_eq)
    then have six1: "v * 4 div 4096 = x div 4" by (simp add: v(1))
    have "v * 4 div 64 = v div 16" using div_mult_mult2 [of 4 v 16] by simp
    then have six2: "v * 4 div 64 mod 64 = x mod 4 * 16 + y div 16" using middle [OF y] by (simp only: v(2))
    have six3: "v * 4 mod 64 = y mod 16 * 4" using mod_mult_mult2 [of v 4 16] by (simp add: v(3))
    have six: "(x * 256 + y) * 4 div 4096 = x div 4" "(x * 256 + y) * 4 div 64 mod 64 = x mod 4 * 16 + y div 16" "(x * 256 + y) * 4 mod 64 = y mod 16 * 4"
      using six1 six2 six3 unfolding v_def by blast+
    have d: "x div 4 < 64" "x mod 4 * 16 + y div 16 < 64" "y mod 16 * 4 < 64" using less by (simp_all add: less_mult_imp_div_less)
    have e1: "(x div 4 * 64 + (x mod 4 * 16 + y div 16)) div 16 = x" "(x div 4 * 64 + (x mod 4 * 16 + y div 16)) mod 16 = y div 16"
    proof -
      have *: "x div 4 * 64 + (x mod 4 * 16 + y div 16) = x * 16 + y div 16" using div_mult_mod_eq [of x 4] by linarith
      show "(x div 4 * 64 + (x mod 4 * 16 + y div 16)) div 16 = x" "(x div 4 * 64 + (x mod 4 * 16 + y div 16)) mod 16 = y div 16"
        unfolding * using y by simp_all
    qed
    have e2: "(y div 16 * 64 + y mod 16 * 4) div 4 = y" "(y div 16 * 64 + y mod 16 * 4) mod 4 = 0"
    proof -
      have *: "y div 16 * 64 + y mod 16 * 4 = y * 4" using div_mult_mod_eq [of y 16] by linarith
      show "(y div 16 * 64 + y mod 16 * 4) div 4 = y" "(y div 16 * 64 + y mod 16 * 4) mod 4 = 0" unfolding * by simp_all
    qed
    have "b64encode [a, b] = [b64_char (x div 4), b64_char (x mod 4 * 16 + y div 16), b64_char (y mod 16 * 4), CHR ''='']"
      using six by (simp add: Let_def x_def y_def)
    then show ?case by (simp add: a2b_char d e1 e2 chars a2b_loop.simps(2) [of _ _ _ "CHR ''=''"] del: b64encode.simps)
  next
    case (4 a b c s)
    then show ?case by (simp add: a2b_group del: b64encode.simps)
  qed simp
  then show ?thesis by (simp add: a2b_base64_def)
qed

end
