(* ===== verification/S3_Hash.thy ===== *)
theory S3_Hash
  imports Transfer_Base Py_Base64
begin

text \<open>
  Hashes of files and their texts: \<open>compute_hash\<close> and \<open>compute_md5\<close> of \<^verbatim>\<open>boto/utils.py\<close>, and the two forms in which a key
  takes and gives its MD5, \<open>md5\<close> and \<open>base64md5\<close> of \<^verbatim>\<open>boto/s3/key.py\<close>.
\<close>

section \<open>Hashing a file\<close>

text \<open>What there is to read: \<open>len\<close> bytes, or everything if no length (or the length 0) is given.\<close>

definition portion :: "nat option \<Rightarrow> string \<Rightarrow> string" where
  "portion len s = (case len of None \<Rightarrow> s | Some n \<Rightarrow> if n = 0 then s else take n s)"

definition read_amount :: "nat \<Rightarrow> nat option \<Rightarrow> nat" where
  "read_amount buf len = (case len of None \<Rightarrow> buf | Some n \<Rightarrow> if n \<noteq> 0 \<and> n < buf then n else buf)"

text \<open>The length that is left after a chunk of \<open>n\<close> bytes, and whether that was the last one.\<close>

definition size_left :: "nat option \<Rightarrow> nat \<Rightarrow> nat option" where
  "size_left len n = map_option (\<lambda>m. m - n) len"

definition was_last :: "nat option \<Rightarrow> nat \<Rightarrow> bool" where
  "was_last len n \<longleftrightarrow> (case len of None \<Rightarrow> False | Some m \<Rightarrow> m \<noteq> 0 \<and> m \<le> n)"

function feed_file :: "nat \<Rightarrow> nat option \<Rightarrow> string \<Rightarrow> string \<Rightarrow> pyfile \<Rightarrow> string \<times> pyfile" where
  "feed_file buf len fed chunk f =
     (if chunk = [] then (fed, f)
      else if was_last len (length chunk) then (fed @ chunk, f)
      else case file_read (read_amount buf (size_left len (length chunk))) f of
             (chunk', f) \<Rightarrow> feed_file buf (size_left len (length chunk)) (fed @ chunk) chunk' f)"
  by pat_completeness auto
termination
  by (relation "measure (\<lambda>(buf, len, fed, chunk, f). length chunk + length (file_rest f))") (auto simp: file_read_rest file_rest_def,
      simp add: min_def flip: length_greater_0_conv, arith)

declare feed_file.simps [simp del]

definition compute_hash :: "(string \<Rightarrow> string) \<Rightarrow> nat \<Rightarrow> nat option \<Rightarrow> pyfile \<Rightarrow> (string \<times> string \<times> nat) res \<times> pyfile" where
  "compute_hash H buf len f =
     (let spos = file_pos f
      in case file_read (read_amount buf len) f of (s, f) \<Rightarrow>
         case feed_file buf len [] s f of (fed, f) \<Rightarrow>
           (let base64_digest = encodestring (H fed)
            in if base64_digest = [] then (Inl IndexError, f)
               else (Inr (hexlify (H fed), if last base64_digest = CHR 0x0A then butlast base64_digest else base64_digest, file_pos f - spos),
                     f\<lparr>file_pos := spos\<rparr>)))"

lemma take_then_drop: "n \<le> m \<Longrightarrow> take n r @ drop n (take m r) = take m r"
  using append_take_drop_id [of n "take m r"] by (simp add: min_def)

lemma feed_file_portion:
  assumes "0 < buf"
  shows "file_rest (f\<lparr>file_pos := p\<rparr>) = r \<Longrightarrow>
    feed_file buf len fed (take (read_amount buf len) r) (f\<lparr>file_pos := p + min (read_amount buf len) (length r)\<rparr>)
      = (fed @ portion len r, f\<lparr>file_pos := p + length (portion len r)\<rparr>)"
proof (induction "length r" arbitrary: len fed p r rule: less_induct)
  case less
  define n where "n = read_amount buf len"
  have n: "0 < n" using assms by (auto simp: n_def read_amount_def split: option.splits)
  show ?case
  proof (cases "r = []")
    case True
    then show ?thesis by (subst feed_file.simps) (simp add: portion_def split: option.splits)
  next
    case False
    then have ne: "take n r \<noteq> []" using n by simp
    show ?thesis
    proof (cases "was_last len (length (take n r))")
      case True
      then obtain m where m: "len = Some m" "m \<noteq> 0" "m \<le> length r" "m \<le> n" by (auto simp: was_last_def split: option.splits)
      then have "n = m" by (auto simp: n_def read_amount_def split: if_splits)
      then show ?thesis using m ne True unfolding n_def [symmetric] by (subst feed_file.simps) (simp add: portion_def)
    next
      case more: False
      define p' where "p' = p + min n (length r)"
      have rest: "file_rest (f\<lparr>file_pos := p'\<rparr>) = drop n r"
        using less.prems by (auto simp: p'_def file_rest_def min_def add.commute)
      have shorter: "length (drop n r) < length r" using n False by simp
      let ?len = "size_left len (length (take n r))"
      have "feed_file buf len fed (take n r) (f\<lparr>file_pos := p'\<rparr>) =
          (case file_read (read_amount buf ?len) (f\<lparr>file_pos := p'\<rparr>) of (c, g) \<Rightarrow> feed_file buf ?len (fed @ take n r) c g)"
        using ne more by (subst feed_file.simps) simp
      also have "\<dots> = feed_file buf ?len (fed @ take n r) (take (read_amount buf ?len) (drop n r))
          (f\<lparr>file_pos := p' + min (read_amount buf ?len) (length (drop n r))\<rparr>)"
        unfolding file_read_rest rest by simp
      also have "\<dots> = ((fed @ take n r) @ portion ?len (drop n r), f\<lparr>file_pos := p' + length (portion ?len (drop n r))\<rparr>)"
        by (rule less.hyps [OF shorter rest])
      also have "\<dots> = (fed @ portion len r, f\<lparr>file_pos := p + length (portion len r)\<rparr>)"
      proof (cases len)
        case None
        then show ?thesis by (simp add: size_left_def portion_def p'_def)
      next
        case (Some m)
        then have "\<not> m \<le> length (take n r) \<or> m = 0" using more by (auto simp: was_last_def)
        then show ?thesis using Some by (auto simp: size_left_def portion_def p'_def take_drop take_then_drop min_def)
      qed
      finally show ?thesis by (simp add: n_def p'_def)
    qed
  qed
qed

lemma compute_hash_portion:
  assumes "0 < buf" "H (portion len (file_rest f)) \<noteq> []" "length (H (portion len (file_rest f))) \<le> 57"
  shows "compute_hash H buf len f = (Inr (hexlify (H (portion len (file_rest f))), b64encode (H (portion len (file_rest f))),
    length (portion len (file_rest f))), f)"
proof -
  have feed: "feed_file buf len [] (take (read_amount buf len) (file_rest f)) (f\<lparr>file_pos := file_pos f + min (read_amount buf len) (length (file_rest f))\<rparr>)
      = (portion len (file_rest f), f\<lparr>file_pos := file_pos f + length (portion len (file_rest f))\<rparr>)"
    using feed_file_portion [OF assms(1), where f = f and p = "file_pos f" and r = "file_rest f" and len = len and fed = "[]"] by simp
  define d where "d = H (portion len (file_rest f))"
  have "pieces 57 d = [d]" using assms(2,3) unfolding d_def [symmetric] by (simp add: pieces_step)
  then have e: "encodestring d = b64encode d @ [CHR 0x0A]" by (simp add: encodestring_def)
  show ?thesis using feed by (simp add: compute_hash_def file_read_rest e d_def [symmetric] Let_def)
qed

section \<open>The MD5 of a key\<close>

text \<open>\<open>local_hashes\<close> as the two properties set and give it.\<close>

definition set_key_md5 :: "string \<Rightarrow> (string, string) dict \<Rightarrow> (string, string) dict res" where
  "set_key_md5 v hashes =
     (if v = [] then Inr (AList.delete ''md5'' hashes)
      else res_bind (unhexlify v) (\<lambda>d. Inr (AList.update ''md5'' d hashes)))"

definition key_base64md5 :: "(string, string) dict \<Rightarrow> string option" where
  "key_base64md5 hashes = (case map_of hashes ''md5'' of None \<Rightarrow> None | Some d \<Rightarrow> if d = [] then None else Some (b64encode d))"

definition set_key_base64md5 :: "string \<Rightarrow> (string, string) dict \<Rightarrow> (string, string) dict res" where
  "set_key_base64md5 v hashes =
     (if v = [] then Inr (AList.delete ''md5'' hashes)
      else res_bind (a2b_base64 v) (\<lambda>d. Inr (AList.update ''md5'' d hashes)))"

definition get_md5_from_hexdigest :: "string \<Rightarrow> (string \<times> string) res" where
  "get_md5_from_hexdigest md5_hexdigest =
     res_bind (unhexlify md5_hexdigest) (\<lambda>digest.
       let base64md5 = encodestring digest
       in if base64md5 = [] then Inl IndexError
          else Inr (md5_hexdigest, if last base64md5 = CHR 0x0A then butlast base64md5 else base64md5))"

lemma hexlify_ne: "d \<noteq> [] \<Longrightarrow> hexlify d \<noteq> []"
  by (cases d) (simp_all add: hexlify_def)

lemma b64encode_ne: "d \<noteq> [] \<Longrightarrow> b64encode d \<noteq> []"
  by (cases d rule: b64encode.cases) (simp_all add: Let_def)

lemma set_key_md5_hex: "d \<noteq> [] \<Longrightarrow> set_key_md5 (hexlify d) hashes = Inr (AList.update ''md5'' d hashes)"
  by (simp add: set_key_md5_def hexlify_ne unhexlify_hexlify)

lemma set_key_base64md5_b64: "d \<noteq> [] \<Longrightarrow> set_key_base64md5 (b64encode d) hashes = Inr (AList.update ''md5'' d hashes)"
  by (simp add: set_key_base64md5_def b64encode_ne a2b_b64encode)

text \<open>
  The two forms of a key's MD5 agree: setting either of them from a digest and asking for the other gives the other
  text of the same digest.
\<close>

theorem md5_forms_roundtrip:
  assumes "d \<noteq> []"
  shows "(\<exists>h. set_key_md5 (hexlify d) hashes = Inr h \<and> key_base64md5 h = Some (b64encode d) \<and> key_md5 h = Some (hexlify d))
    \<and> (\<exists>h. set_key_base64md5 (b64encode d) hashes = Inr h \<and> key_md5 h = Some (hexlify d) \<and> key_base64md5 h = Some (b64encode d))"
  using assms by (simp add: set_key_md5_hex set_key_base64md5_b64 key_md5_def key_base64md5_def update_conv')

theorem md5_forms_roundtrip_witness:
  "(\<exists>h. set_key_md5 ''6162'' [] = Inr h \<and> key_base64md5 h = Some ''YWI='' \<and> key_md5 h = Some ''6162'')
    \<and> (\<exists>h. set_key_base64md5 ''YWI='' [] = Inr h \<and> key_md5 h = Some ''6162'' \<and> key_base64md5 h = Some ''YWI='')"
proof -
  have "hexlify ''ab'' = ''6162''" "b64encode ''ab'' = ''YWI=''" by (simp_all add: hexlify_def hex_char_def b64_char_def Let_def char_eval)
  then show ?thesis using md5_forms_roundtrip [of "''ab''" "[]"] by simp
qed

end
