(* ===== verification/S3_Send.thy ===== *)
theory S3_Send
  imports S3_Hash S3_Object S3_Conn
begin

text \<open>
  Keys of S3, the writing half: \<open>send_file\<close>, \<open>should_retry\<close> and the \<open>set_contents\<close> methods of \<^verbatim>\<open>boto/s3/key.py\<close>,
  over \<open>_mexe\<close> of \<open>Conn_Mexe\<close>, which calls the closure \<open>sender\<close> for every attempt.

  The service is a record of operations on its state \<open>'w\<close>: the start of a request with the headers that
  \<open>send_file\<close> built (those that authorisation adds are those of \<open>Conn_Mexe\<close>), bytes sent, the response.
\<close>

section \<open>The service and the state of an upload\<close>

record put_response =
  pr_status :: nat
  pr_reason :: string
  pr_headers :: "(string, string) dict"
  pr_body :: string

definition pr_header :: "put_response \<Rightarrow> string \<Rightarrow> string option" where
  "pr_header r name = map_of (pr_headers r) (str_lower name)"

definition mexe_response :: "put_response \<Rightarrow> response" where
  "mexe_response r = \<lparr>resp_status = pr_status r, resp_reason = pr_reason r, resp_location = pr_header r ''location'',
     resp_connection = pr_header r ''connection'', resp_body = pr_body r\<rparr>"

record 'w put_service =
  ps_begin :: "headers \<Rightarrow> 'w \<Rightarrow> (mexe_exc + unit) \<times> 'w"
  ps_send :: "string \<Rightarrow> 'w \<Rightarrow> (mexe_exc + unit) \<times> 'w"
  ps_response :: "'w \<Rightarrow> (mexe_exc + put_response) \<times> 'w"
  ps_lookup :: "string \<Rightarrow> 'w \<Rightarrow> (mexe_exc + bool) \<times> 'w"
  ps_error_code :: "string \<Rightarrow> string option"

text \<open>
  \<open>pe_retry\<close> and below are the arguments of the call of \<open>_mexe\<close>; \<open>pe_guess\<close> is \<open>mimetypes.guess_type\<close>, \<open>pe_v4\<close> says
  whether the connection needs the hash \<open>pe_sha256\<close> of the body.
\<close>

record 'w put_env =
  pe_s3 :: "'w s3_env"
  pe_service :: "'w put_service"
  pe_bucket :: string
  pe_format :: calling_format
  pe_guess :: "string \<Rightarrow> string option"
  pe_v4 :: bool
  pe_sha256 :: "string \<Rightarrow> string"
  pe_mexe :: mexe_env
  pe_cfg :: "nat option"
  pe_conn :: aws_conn
  pe_ticks :: nat
  pe_pool :: "http_conn conn_pool"
  pe_first_id :: nat

text \<open>
  The key, whose \<open>k_file\<close> is the file that is sent; whether that file can be positioned; \<open>read_from_stream\<close>; and
  what the digester of the call was fed, if it has one.
\<close>

record 'w sending =
  sd_key :: "'w s3_key"
  sd_seekable :: bool
  sd_read_from_stream :: bool
  sd_fed :: "string option"

type_synonym ('w, 'a) putx = "'w sending \<Rightarrow> (mexe_exc + 'a) \<times> 'w sending"

definition put_bind :: "('w, 'a) putx \<Rightarrow> ('a \<Rightarrow> ('w, 'b) putx) \<Rightarrow> ('w, 'b) putx" where
  "put_bind m f s = (case m s of (Inl e, t) \<Rightarrow> (Inl e, t) | (Inr x, t) \<Rightarrow> f x t)"

definition put_lift :: "'a res \<Rightarrow> ('w, 'a) putx" where
  "put_lift r s = (case r of Inl e \<Rightarrow> (Inl (mexe_exc.Raised e), s) | Inr x \<Rightarrow> (Inr x, s))"

definition on_key :: "('w s3_key \<Rightarrow> 'w s3_key) \<Rightarrow> 'w sending \<Rightarrow> 'w sending" where
  "on_key f s = s\<lparr>sd_key := f (sd_key s)\<rparr>"

definition on_put :: "('w \<Rightarrow> (mexe_exc + 'a) \<times> 'w) \<Rightarrow> ('w, 'a) putx" where
  "on_put m s = (case m (k_world (sd_key s)) of (r, w) \<Rightarrow> (r, on_key (\<lambda>k. k\<lparr>k_world := w\<rparr>) s))"

definition set_field :: "string \<Rightarrow> string option \<Rightarrow> 'w s3_key \<Rightarrow> 'w s3_key" where
  "set_field n v k = k\<lparr>k_fields := (case v of None \<Rightarrow> AList.delete n (k_fields k) | Some x \<Rightarrow> AList.update n x (k_fields k))\<rparr>"

definition data_error :: mexe_exc where
  "data_error = mexe_exc.Raised (Boto_Error ''StorageDataError'')"

section \<open>\<open>should_retry\<close>\<close>

definition retry_at_once :: "bool \<Rightarrow> put_response \<Rightarrow> bool" where
  "retry_at_once chunked r \<longleftrightarrow> \<not> chunked \<and> (pr_status r \<in> {500, 503} \<or> str_true (pr_header r ''location''))"

definition expected_etag :: "string option \<Rightarrow> string" where
  "expected_etag md5 = [CHR 0x22] @ (case md5 of None \<Rightarrow> ''None'' | Some m \<Rightarrow> m) @ [CHR 0x22]"

definition should_retry :: "'w put_env \<Rightarrow> bool \<Rightarrow> put_response \<Rightarrow> ('w, bool) putx" where
  "should_retry E chunked r s =
     (if retry_at_once chunked r then (Inr True, s)
      else if 200 \<le> pr_status r \<and> pr_status r \<le> 299
      then let s = on_key (set_field ''etag'' (pr_header r ''etag'')) s
           in if pr_header r ''x-amz-server-side-encryption-customer-algorithm'' = None
                 \<and> pr_header r ''x-goog-encryption-kms-key-name'' = None
                 \<and> pr_header r ''etag'' \<noteq> Some (expected_etag (key_md5 (k_hashes (sd_key s))))
              then (Inl data_error, s) else (Inr True, s)
      else if pr_status r = 400 \<and> ps_error_code (pe_service E) (pr_body r) = Some ''RequestTimeout''
      then (Inl (PleaseRetry (Some (mexe_response r))), s)
      else (Inr False, s))"

section \<open>\<open>sender\<close>\<close>

definition note_call :: "bool \<Rightarrow> nat \<Rightarrow> int \<Rightarrow> 'w sending \<Rightarrow> 'w sending" where
  "note_call cb n len s = (if cb then on_key (\<lambda>k. k\<lparr>k_calls := k_calls k @ [(int n, len)]\<rparr>) s else s)"

definition send_cb_size :: "nat option \<Rightarrow> int option \<Rightarrow> int" where
  "send_cb_size len key_size =
     (case len of Some n \<Rightarrow> if n \<noteq> 0 then int n else (case key_size of None \<Rightarrow> 0 | Some m \<Rightarrow> m)
      | None \<Rightarrow> (case key_size of None \<Rightarrow> 0 | Some m \<Rightarrow> m))"

definition send_cb_count :: "nat \<Rightarrow> bool \<Rightarrow> int \<Rightarrow> int \<Rightarrow> int" where
  "send_cb_count buffer chunked cb_size num_cb =
     (if chunked \<and> cb_size = 0 then 1048576 div int buffer
      else if 1 < num_cb then ceil_quotient (cb_size div int buffer) (num_cb - 1)
      else if num_cb < 0 then -1 else 0)"

definition sender_rewind :: "nat option \<Rightarrow> ('w, unit) putx" where
  "sender_rewind spos s =
     (case spos of
        Some p \<Rightarrow> (Inr (), on_key (\<lambda>k. k\<lparr>k_file := (k_file k)\<lparr>file_pos := p\<rparr>\<rparr>) s)
      | None \<Rightarrow> if sd_read_from_stream s then (Inl data_error, s) else (Inr (), s))"

text \<open>\<open>'%x' % n\<close>.\<close>

fun hex_str :: "nat \<Rightarrow> string" where
  "hex_str n = (if n < 16 then [hex_char n] else hex_str (n div 16) @ [hex_char (n mod 16)])"

declare hex_str.simps [simp del]

definition crlf :: string where
  "crlf = [CHR 0x0D, CHR 0x0A]"

definition send_chunk :: "'w put_env \<Rightarrow> bool \<Rightarrow> string \<Rightarrow> ('w, unit) putx" where
  "send_chunk E chunked chunk =
     (if chunked
      then put_bind (on_put (ps_send (pe_service E) (hex_str (length chunk) @ '';'' @ crlf))) (\<lambda>_.
           put_bind (on_put (ps_send (pe_service E) chunk)) (\<lambda>_.
           on_put (ps_send (pe_service E) crlf)))
      else on_put (ps_send (pe_service E) chunk))"

definition feed :: "string \<Rightarrow> 'w sending \<Rightarrow> 'w sending" where
  "feed chunk s = s\<lparr>sd_fed := map_option (\<lambda>d. d @ chunk) (sd_fed s)\<rparr>"

text \<open>
  The loop over the chunks, with the file \<open>f\<close> behind \<open>chunk\<close>; \<open>n\<close> is \<open>data_len\<close>, \<open>i\<close> counts the chunks since the
  last call.
\<close>

function send_chunks :: "'w put_env \<Rightarrow> bool \<Rightarrow> bool \<Rightarrow> int \<Rightarrow> int \<Rightarrow> nat option \<Rightarrow> nat \<Rightarrow> int \<Rightarrow> string \<Rightarrow> pyfile \<Rightarrow> ('w, nat \<times> int) putx" where
  "send_chunks E chunked cb cb_size cb_count togo n i chunk f s =
     (if chunk = [] then (Inr (n, i), s)
      else case send_chunk E chunked chunk s of
             (Inl e, s) \<Rightarrow> (Inl e, s)
           | (Inr _, s) \<Rightarrow>
               (let n = n + length chunk; s = feed chunk s
                in if was_last togo (length chunk) then (Inr (n, i), s)
                   else let togo = size_left togo (length chunk);
                            call = cb \<and> (i + 1 = cb_count \<or> cb_count = -1);
                            s = note_call call n cb_size s;
                            i = (if \<not> cb then i else if call then 0 else i + 1)
                        in case file_read (read_amount (s3_buffer (pe_s3 E)) togo) f of
                             (chunk, f) \<Rightarrow> send_chunks E chunked cb cb_size cb_count togo n i chunk f (on_key (\<lambda>k. k\<lparr>k_file := f\<rparr>) s)))"
  by pat_completeness auto
termination
  by (relation "measure (\<lambda>(E, ch, cb, cs, cc, togo, n, i, chunk, f, s). length chunk + length (file_rest f))")
    (auto simp: file_read_rest file_rest_def, simp add: min_def flip: length_greater_0_conv, arith)

declare send_chunks.simps [simp del]

definition fed_hashes :: "(string \<Rightarrow> string) \<Rightarrow> string option \<Rightarrow> (string, string) dict \<Rightarrow> (string, string) dict" where
  "fed_hashes H fed hashes = (case fed of None \<Rightarrow> hashes | Some d \<Rightarrow> AList.update ''md5'' (H d) hashes)"

text \<open>What follows the data: the key's size and hashes, the end of a chunked body, the last call, the response.\<close>

definition sender_finish :: "'w put_env \<Rightarrow> bool \<Rightarrow> bool \<Rightarrow> int \<Rightarrow> int \<Rightarrow> nat \<Rightarrow> int \<Rightarrow> ('w, put_response) putx" where
  "sender_finish E chunked cb cb_size cb_count n i s =
     (let s = on_key (\<lambda>k. k\<lparr>k_size := Some (int n),
            k_hashes := fed_hashes (s3_md5 (pe_s3 E)) (sd_fed s) (k_hashes k)\<rparr>) s
      in put_bind (if chunked then put_bind (on_put (ps_send (pe_service E) (''0'' @ crlf))) (\<lambda>_. on_put (ps_send (pe_service E) crlf))
           else (\<lambda>s. (Inr (), s))) (\<lambda>_ s.
           put_bind (on_put (ps_response (pe_service E))) (\<lambda>r.
           put_bind (should_retry E chunked r) (\<lambda>again s.
             if again then (Inr r, s) else (Inl (ServerError (pr_status r) (pr_reason r) (Some (pr_body r))), s)))
           (note_call (cb \<and> (cb_count \<le> 1 \<or> 0 < i) \<and> 0 < n) n cb_size s)) s)"

definition sender :: "'w put_env \<Rightarrow> nat option \<Rightarrow> nat option \<Rightarrow> bool \<Rightarrow> bool \<Rightarrow> int \<Rightarrow> headers \<Rightarrow> ('w, put_response) putx" where
  "sender E spos len chunked cb num_cb hs =
     put_bind (sender_rewind spos) (\<lambda>_.
     put_bind (on_put (ps_begin (pe_service E) hs)) (\<lambda>_ s.
       let cb_size = send_cb_size len (k_size (sd_key s));
           cb_count = send_cb_count (s3_buffer (pe_s3 E)) chunked cb_size num_cb;
           s = note_call cb 0 cb_size s
       in case file_read (read_amount (s3_buffer (pe_s3 E)) len) (k_file (sd_key s)) of
            (chunk, f) \<Rightarrow>
              put_bind (send_chunks E chunked cb cb_size cb_count len 0 0 chunk f)
                (\<lambda>(n, i). sender_finish E chunked cb cb_size cb_count n i)
                (on_key (\<lambda>k. k\<lparr>k_file := f\<rparr>) s\<lparr>sd_read_from_stream := (sd_read_from_stream s \<or> spos = None)\<rparr>)))"

section \<open>\<open>send_file\<close>\<close>

definition merged_field :: "string \<Rightarrow> string \<Rightarrow> headers \<Rightarrow> ('w, unit) putx" where
  "merged_field header field hs =
     (if find_matching_headers header hs = [] then (\<lambda>s. (Inr (), s))
      else put_bind (put_lift (merge_headers_by_name header hs)) (\<lambda>v s. (Inr (), on_key (set_field field (Some v)) s)))"

definition guessed_type :: "'w put_env \<Rightarrow> string \<Rightarrow> string" where
  "guessed_type E path = (case pe_guess E path of None \<Rightarrow> DefaultContentType | Some t \<Rightarrow> t)"

definition content_type_header :: "'w put_env \<Rightarrow> headers \<Rightarrow> ('w, headers) putx" where
  "content_type_header E hs s =
     (case find_matching_headers ''Content-Type'' hs of
        n # ns \<Rightarrow>
          if ns = [] \<and> map_of hs n = Some HNone then (Inr (AList.delete n hs), s)
          else put_bind (merged_field ''Content-Type'' ''content_type'' hs) (\<lambda>_ s. (Inr hs, s)) s
      | [] \<Rightarrow>
          (let s = (if str_true (k_path (sd_key s)) then on_key (set_field ''content_type'' (Some (guessed_type E (the (k_path (sd_key s)))))) s else s)
           in (Inr (AList.update ''Content-Type'' (case map_of (k_fields (sd_key s)) ''content_type'' of None \<Rightarrow> HNone | Some t \<Rightarrow> HStr t) hs), s)))"

definition body_hash_header :: "'w put_env \<Rightarrow> nat option \<Rightarrow> headers \<Rightarrow> ('w, headers) putx" where
  "body_hash_header E len hs s =
     (if \<not> pe_v4 E then (Inr hs, s)
      else if \<not> sd_seekable s then (Inl (mexe_exc.Raised (IOError ''tell'')), s)
      else case compute_hash (pe_sha256 E) 8192 len (k_file (sd_key s)) of
             (Inl e, f) \<Rightarrow> (Inl (mexe_exc.Raised e), on_key (\<lambda>k. k\<lparr>k_file := f\<rparr>) s)
           | (Inr (hex, _, _), f) \<Rightarrow> (Inr (AList.update ''_sha256'' (HStr hex) hs), on_key (\<lambda>k. k\<lparr>k_file := f\<rparr>) s))"

definition length_headers :: "bool \<Rightarrow> 'w s3_key \<Rightarrow> headers \<Rightarrow> headers" where
  "length_headers chunked k hs =
     (let hs = (case key_base64md5 (k_hashes k) of None \<Rightarrow> hs | Some m \<Rightarrow> AList.update ''Content-MD5'' (HStr m) hs)
      in if chunked then AList.update ''Transfer-Encoding'' (HStr ''chunked'') hs
         else AList.update ''Content-Length'' (HStr (case k_size k of None \<Rightarrow> ''None'' | Some n \<Rightarrow> str_int n)) hs)"

definition put_headers :: "'w put_env \<Rightarrow> bool \<Rightarrow> nat option \<Rightarrow> headers \<Rightarrow> ('w, headers) putx" where
  "put_headers E chunked len hs s =
     (let p = s3_provider_of (pe_s3 E);
          hs = filter (\<lambda>h. fst h \<notin> set (find_matching_headers ''User-Agent'' hs)) hs;
          hs = AList.update ''User-Agent'' (HStr (agent (pe_mexe E))) hs;
          hs = (case k_storage_class (sd_key s) of
                  Some c \<Rightarrow> if c = ''STANDARD'' then hs else AList.update (storage_class_header p) (HStr c) hs
                | None \<Rightarrow> hs)
      in put_bind (merged_field ''Content-Encoding'' ''content_encoding'' hs) (\<lambda>_.
         put_bind (merged_field ''Content-Language'' ''content_language'' hs) (\<lambda>_.
         put_bind (content_type_header E hs) (\<lambda>hs s.
         put_bind (body_hash_header E len (length_headers chunked (sd_key s) hs)) (\<lambda>hs s.
           let hs = AList.update ''Expect'' (HStr ''100-Continue'') hs
           in (Inr (merge_meta hs (map (\<lambda>(k, v). (k, HStr v)) (k_metadata (sd_key s))) (provider.truncate p)), s)) s))) s)"

text \<open>The attempts that \<open>_mexe\<close> makes: the state after \<open>n\<close> of them, and what the next one is answered.\<close>

primrec attempts :: "(('w, put_response) putx) \<Rightarrow> nat \<Rightarrow> 'w sending \<Rightarrow> 'w sending" where
  "attempts m 0 s = s"
| "attempts m (Suc n) s = snd (m (attempts m n s))"

definition attempt_answer :: "(('w, put_response) putx) \<Rightarrow> 'w sending \<Rightarrow> nat \<Rightarrow> http_conn \<Rightarrow> request \<Rightarrow> mexe_exc + response" where
  "attempt_answer m s n con req = (case fst (m (attempts m n s)) of Inl e \<Rightarrow> Inl e | Inr r \<Rightarrow> Inr (mexe_response r))"

definition put_request :: "'w put_env \<Rightarrow> (('w, put_response) putx) \<Rightarrow> headers \<Rightarrow> string option \<Rightarrow> 'w sending \<Rightarrow> ((mexe_exc + put_response) \<times> 'w sending) option" where
  "put_request E m hs query_args s =
     (case s3_make_request (pe_mexe E\<lparr>answer := attempt_answer m s\<rparr>) (pe_format E) None (pe_cfg E) (pe_conn E) (pe_ticks E) (pe_pool E)
             (pe_first_id E) ''PUT'' (pe_bucket E) (case k_name (sd_key s) of None \<Rightarrow> ''None'' | Some n \<Rightarrow> n) (Some hs) [] query_args of
        None \<Rightarrow> None
      | Some (r, None) \<Rightarrow> Some (case r of Inl e \<Rightarrow> Inl e | Inr _ \<Rightarrow> Inl ClientError, s)
      | Some (r, Some ms) \<Rightarrow>
          (let n = length (m_sent ms)
           in Some (case r of Inl e \<Rightarrow> Inl e | Inr _ \<Rightarrow> fst (m (attempts m (n - 1) s)), attempts m n s)))"

definition send_file_internal :: "'w put_env \<Rightarrow> headers \<Rightarrow> bool \<Rightarrow> int \<Rightarrow> string option \<Rightarrow> bool \<Rightarrow> nat option \<Rightarrow> 'w sending
    \<Rightarrow> ((mexe_exc + unit) \<times> 'w sending) option" where
  "send_file_internal E hs cb num_cb query_args chunked len s =
     (let spos = (if sd_seekable s then Some (file_pos (k_file (sd_key s))) else None);
          s = s\<lparr>sd_read_from_stream := (sd_seekable s \<and> sd_read_from_stream s),
                sd_fed := (if key_md5 (k_hashes (sd_key s)) = None then Some [] else None)\<rparr>
      in case put_headers E chunked len hs s of
           (Inl e, s) \<Rightarrow> Some (Inl e, s)
         | (Inr hs, s) \<Rightarrow>
             (case put_request E (sender E spos len chunked cb num_cb hs) hs query_args s of
                None \<Rightarrow> None
              | Some (Inl e, s) \<Rightarrow> Some (Inl e, s)
              | Some (Inr r, s) \<Rightarrow> Some (Inr (), on_key (handle_version_headers (pe_s3 E) (pr_header r) True) s)))"

definition key_send_file :: "'w put_env \<Rightarrow> headers \<Rightarrow> bool \<Rightarrow> int \<Rightarrow> string option \<Rightarrow> bool \<Rightarrow> nat option \<Rightarrow> 'w sending
    \<Rightarrow> ((mexe_exc + unit) \<times> 'w sending) option" where
  "key_send_file E hs cb num_cb query_args chunked len s = send_file_internal E hs cb num_cb query_args chunked len s"

section \<open>The \<open>set_contents\<close> methods\<close>

definition reduced_headers :: "'w put_env \<Rightarrow> bool \<Rightarrow> headers \<Rightarrow> 'w sending \<Rightarrow> headers \<times> 'w sending" where
  "reduced_headers E reduced hs s =
     (let h = storage_class_header (s3_provider_of (pe_s3 E))
      in if reduced then (if h = [] then hs else AList.update h (HStr ''REDUCED_REDUNDANCY'') hs,
                          on_key (\<lambda>k. k\<lparr>k_storage_class := Some ''REDUCED_REDUNDANCY''\<rparr>) s)
         else (hs, s))"

text \<open>
  Sending unless the key must not be replaced and exists; \<open>nameless\<close> says that a header is named \<open>None\<close>, on which
  \<open>find_matching_headers\<close> fails.
\<close>

definition send_unless_there :: "'w put_env \<Rightarrow> bool \<Rightarrow> headers \<Rightarrow> bool \<Rightarrow> bool \<Rightarrow> int \<Rightarrow> string option \<Rightarrow> bool \<Rightarrow> nat option \<Rightarrow> 'w sending
    \<Rightarrow> ((mexe_exc + bool) \<times> 'w sending) option" where
  "send_unless_there E nameless hs replace cb num_cb query_args chunked len s =
     (case (if replace then (Inr False, s) else on_put (ps_lookup (pe_service E) (case k_name (sd_key s) of None \<Rightarrow> [] | Some n \<Rightarrow> n)) s) of
        (Inl e, s) \<Rightarrow> Some (Inl e, s)
      | (Inr there, s) \<Rightarrow>
          if there then Some (Inr False, s)
          else if nameless then Some (Inl (mexe_exc.Raised AttributeError), s)
          else (case key_send_file E hs cb num_cb query_args chunked len s of
                  None \<Rightarrow> None
                | Some (Inl e, s) \<Rightarrow> Some (Inl e, s)
                | Some (Inr _, s) \<Rightarrow> Some (Inr True, s)))"

definition set_contents_from_stream :: "'w put_env \<Rightarrow> headers \<Rightarrow> bool \<Rightarrow> bool \<Rightarrow> int \<Rightarrow> string option \<Rightarrow> bool \<Rightarrow> string option \<Rightarrow> nat option
    \<Rightarrow> 'w sending \<Rightarrow> ((mexe_exc + bool) \<times> 'w sending) option" where
  "set_contents_from_stream E hs replace cb num_cb policy reduced query_args len s =
     (let p = s3_provider_of (pe_s3 E)
      in if \<not> chunked_transfer_support p \<or> \<not> str_true (k_name (sd_key s))
         then Some (Inl (mexe_exc.Raised (Boto_Error ''BotoClientError'')), s)
         else case reduced_headers E reduced (if str_true policy then AList.update (acl_header p) (HStr (the policy)) hs else hs) s of
                (hs, s) \<Rightarrow> send_unless_there E False hs replace cb num_cb query_args True len s)"

text \<open>The position of the file before it is read: rewound, or checked not to be the end of a file that has data.\<close>

definition check_position :: "bool \<Rightarrow> ('w, unit) putx" where
  "check_position rewind s =
     (if \<not> sd_seekable s then (Inl (mexe_exc.Raised (IOError ''tell'')), s)
      else let f = k_file (sd_key s)
      in if rewind then (Inr (), on_key (\<lambda>k. k\<lparr>k_file := f\<lparr>file_pos := 0\<rparr>\<rparr>) s)
         else if file_pos f = length (file_data f) \<and> file_pos f \<noteq> 0 then (Inl (mexe_exc.Raised AttributeError), s)
         else (Inr (), s))"

text \<open>The MD5 and the size, computed or given; the value is the size to send.\<close>

definition settle_md5 :: "'w put_env \<Rightarrow> (string \<times> string) option \<Rightarrow> nat option \<Rightarrow> ('w, nat option) putx" where
  "settle_md5 E md5 len s =
     (let f = k_file (sd_key s)
      in put_bind (case md5 of
           None \<Rightarrow>
             (\<lambda>s. case compute_hash (s3_md5 (pe_s3 E)) 8192 len f of
                (Inl e, f) \<Rightarrow> (Inl (mexe_exc.Raised e), on_key (\<lambda>k. k\<lparr>k_file := f\<rparr>) s)
              | (Inr (hex, b64, n), f) \<Rightarrow> (Inr ((hex, b64), Some n), on_key (\<lambda>k. k\<lparr>k_file := f, k_size := Some (int n)\<rparr>) s))
         | Some m \<Rightarrow>
             (\<lambda>s. case len of
                Some n \<Rightarrow> if n \<noteq> 0 then (Inr (m, Some n), on_key (\<lambda>k. k\<lparr>k_size := Some (int n)\<rparr>) s)
                          else (Inr (m, Some (length (file_rest f))), on_key (\<lambda>k. k\<lparr>k_size := Some (int (length (file_data f)) - int (file_pos f))\<rparr>) s)
              | None \<Rightarrow> (Inr (m, Some (length (file_rest f))), on_key (\<lambda>k. k\<lparr>k_size := Some (int (length (file_data f)) - int (file_pos f))\<rparr>) s)))
         (\<lambda>((hex, b64), len) s.
            put_bind (put_lift (res_bind (set_key_md5 hex (k_hashes (sd_key s))) (set_key_base64md5 b64)))
              (\<lambda>h s. (Inr len, on_key (\<lambda>k. k\<lparr>k_hashes := h\<rparr>) s)) s) s)"

definition set_contents_from_file :: "'w put_env \<Rightarrow> headers \<Rightarrow> bool \<Rightarrow> bool \<Rightarrow> int \<Rightarrow> string option \<Rightarrow> (string \<times> string) option \<Rightarrow> bool \<Rightarrow> string option
    \<Rightarrow> bool \<Rightarrow> nat option \<Rightarrow> bool \<Rightarrow> string option \<Rightarrow> 'w sending \<Rightarrow> ((mexe_exc + int option) \<times> 'w sending) option" where
  "set_contents_from_file E hs replace cb num_cb policy md5 reduced query_args encrypt len rewind fname s =
     (let p = s3_provider_of (pe_s3 E);
          hs = (if str_true policy then AList.update (acl_header p) (HStr (the policy)) hs else hs);
          hs = (case sse_header p of Some h \<Rightarrow> if encrypt then AList.update h (HStr ''AES256'') hs else hs | None \<Rightarrow> hs)
      in case check_position rewind s of
           (Inl e, s) \<Rightarrow> Some (Inl e, s)
         | (Inr _, s) \<Rightarrow>
            (case reduced_headers E reduced hs s of (hs, s) \<Rightarrow>
             let s = (case fname of None \<Rightarrow> s | Some n \<Rightarrow> on_key (\<lambda>k. k\<lparr>k_path := Some n\<rparr>) s);
                 chunked = (md5 = None \<and> chunked_transfer_support p)
             in case (if chunked then (Inr len, on_key (\<lambda>k. k\<lparr>k_size := None\<rparr>) s) else settle_md5 E md5 len s) of
                  (Inl e, s) \<Rightarrow> Some (Inl e, s)
                | (Inr len, s) \<Rightarrow>
                   (let s = on_key (\<lambda>k. if k_name k = None then k\<lparr>k_name := key_md5 (k_hashes k)\<rparr> else k) s
                    in case send_unless_there E (encrypt \<and> sse_header p = None) hs replace cb num_cb query_args chunked len s of
                         None \<Rightarrow> None
                       | Some (Inl e, s) \<Rightarrow> Some (Inl e, s)
                       | Some (Inr sent, s) \<Rightarrow> Some (Inr (if sent then k_size (sd_key s) else None), s))))"

definition with_file :: "pyfile \<Rightarrow> ('w sending \<Rightarrow> ('a \<times> 'w sending) option) \<Rightarrow> 'w sending \<Rightarrow> ('a \<times> 'w sending) option" where
  "with_file f m s =
     (case m (on_key (\<lambda>k. k\<lparr>k_file := f\<rparr>) s\<lparr>sd_seekable := True\<rparr>) of
        None \<Rightarrow> None
      | Some (x, t) \<Rightarrow> Some (x, on_key (\<lambda>k. k\<lparr>k_file := k_file (sd_key s)\<rparr>) t\<lparr>sd_seekable := sd_seekable s\<rparr>))"

definition set_contents_from_filename :: "'w put_env \<Rightarrow> string \<Rightarrow> string \<Rightarrow> headers \<Rightarrow> bool \<Rightarrow> bool \<Rightarrow> int \<Rightarrow> string option \<Rightarrow> (string \<times> string) option \<Rightarrow> bool
    \<Rightarrow> bool \<Rightarrow> 'w sending \<Rightarrow> ((mexe_exc + int option) \<times> 'w sending) option" where
  "set_contents_from_filename E filename contents hs replace cb num_cb policy md5 reduced encrypt =
     with_file \<lparr>file_data = contents, file_pos = 0, file_mode = Some ''rb''\<rparr>
       (set_contents_from_file E hs replace cb num_cb policy md5 reduced None encrypt None False (Some filename))"

definition set_contents_from_string :: "'w put_env \<Rightarrow> string \<Rightarrow> headers \<Rightarrow> bool \<Rightarrow> bool \<Rightarrow> int \<Rightarrow> string option \<Rightarrow> (string \<times> string) option \<Rightarrow> bool
    \<Rightarrow> bool \<Rightarrow> 'w sending \<Rightarrow> ((mexe_exc + int option) \<times> 'w sending) option" where
  "set_contents_from_string E string_data hs replace cb num_cb policy md5 reduced encrypt =
     with_file \<lparr>file_data = string_data, file_pos = 0, file_mode = None\<rparr>
       (set_contents_from_file E hs replace cb num_cb policy md5 reduced None encrypt None False None)"

section \<open>Attempts of a call\<close>

text \<open>After transient failures an exception that is not retried ends the call.\<close>

lemma mexe_fails_at:
  assumes "retry_handler E = None" and "authorizes E" and "\<not> use_proxy c" and "k \<le> n"
    and "\<And>j con q. j < k \<Longrightarrow> transient (answer E j con q)"
    and "\<And>con q. answer E k con q = Inl (mexe_exc.Raised e)"
  shows "\<exists>s. mexe E (Some n) cfg c ticks pool first_id req = Some (Inl (mexe_exc.Raised e), s) \<and> length (m_sent s) = Suc k"
proof -
  from mexe_enters [OF assms(3)] obtain s where s: "mexe E (Some n) cfg c ticks pool first_id req = mexe_loop E n s"
    "\<not> use_proxy (m_self s)" "m_sent s = []" "m_i s = 0" "m_rounds s = 0" "m_sleeps s = []" by blast
  from loop_transient [where k = k and n = n and s = s and j = 0 and E = E] assms(1-5) s
  obtain t where t: "mexe_loop E n s = mexe_loop E n t" "m_i t = k" "length (m_sent t) = k" by fastforce
  obtain q where q: "prepared E t = Inr q" using prepared_works [OF assms(2)] by blast
  have "\<exists>u. mexe_round E t = Raise (mexe_exc.Raised e) u \<and> length (m_sent u) = Suc k"
    using q assms(6) t(3) by (simp add: mexe_round_def handle_exc_def Let_def)
  then obtain u where u: "mexe_round E t = Raise (mexe_exc.Raised e) u" "length (m_sent u) = Suc k" by blast
  have "mexe_loop E n t = Some (Inl (mexe_exc.Raised e), u)" using u(1) t(2) assms(4) by (subst mexe_loop.simps) simp
  then show ?thesis using s(1) t(1) u(2) by auto
qed

text \<open>Requests of S3 can be built.\<close>

lemma get_path_slash: "\<exists>q. get_path c (CHR ''/'' # p) = Inr q"
  by (simp add: get_path_def Let_def)

lemma s3_http_request_works:
  assumes "utf8_valid bucket" "utf8_valid key" "\<forall>x \<in> set bucket. \<not> is_upper x" "\<not> use_proxy c"
  shows "\<exists>req. s3_http_request g ver fmt c method bucket key hs data q = Inr req"
proof -
  obtain p where p: "build_path_base fmt bucket key = Inr (CHR ''/'' # p)"
    using assms(2) by (cases "(fmt = OrdinaryFormat \<or> fmt = ProtocolIndependent) \<and> bucket \<noteq> []") (auto simp: build_path_base_def utf8able_def)
  obtain a where a: "build_auth_path bucket key = Inr (CHR ''/'' # a)" using assms(1,2) by (cases "bucket = []") (auto simp: build_auth_path_def utf8able_def)
  have "\<exists>h. build_host fmt (server_name g ver c None) bucket = Inr h"
    using assms(3) by (cases fmt) (auto simp: build_host_def get_bucket_server_def check_lowercase_bucketname_def)
  then obtain h where h: "build_host fmt (server_name g ver c None) bucket = Inr h" by blast
  have w: "\<exists>x. with_query q (CHR ''/'' # y) = CHR ''/'' # x" for y by (auto simp: with_query_def)
  obtain p' a' where pa: "with_query q (CHR ''/'' # p) = CHR ''/'' # p'" "with_query q (CHR ''/'' # a) = CHR ''/'' # a'" using w by metis
  obtain p'' a'' where "get_path c (CHR ''/'' # p') = Inr p''" "get_path c (CHR ''/'' # a') = Inr a''" using get_path_slash by metis
  then show ?thesis using p a h pa assms(4) by (simp add: s3_http_request_def build_base_http_request_def Let_def)
qed

lemma put_bind_Inr: "m s = (Inr x, t) \<Longrightarrow> put_bind m f s = f x t"
  by (simp add: put_bind_def)

section \<open>A service that fails\<close>

text \<open>
  A service that stores the bodies it is sent, and fails as planned: \<open>Cut n\<close> resets the connection of one request when
  more than \<open>n\<close> bytes were sent, or the response is waited for; \<open>Busy\<close> answers one request with 503.
\<close>

datatype put_fault = Cut nat | Busy

record put_world =
  pw_plan :: "put_fault list"
  pw_got :: string
  pw_stored :: "string option"

definition lossy_send :: "string \<Rightarrow> put_world \<Rightarrow> (mexe_exc + unit) \<times> put_world" where
  "lossy_send d w =
     (case pw_plan w of
        Cut n # fs \<Rightarrow> if n < length (pw_got w) + length d then (Inl (HttpException ''reset''), w\<lparr>pw_plan := fs\<rparr>)
                      else (Inr (), w\<lparr>pw_got := pw_got w @ d\<rparr>)
      | _ \<Rightarrow> (Inr (), w\<lparr>pw_got := pw_got w @ d\<rparr>))"

definition lossy_response :: "(string \<Rightarrow> string) \<Rightarrow> put_world \<Rightarrow> (mexe_exc + put_response) \<times> put_world" where
  "lossy_response H w =
     (case pw_plan w of
        Cut n # fs \<Rightarrow> (Inl (HttpException ''reset''), w\<lparr>pw_plan := fs\<rparr>)
      | Busy # fs \<Rightarrow> (Inr \<lparr>pr_status = 503, pr_reason = ''Slow Down'', pr_headers = [], pr_body = []\<rparr>, w\<lparr>pw_plan := fs\<rparr>)
      | [] \<Rightarrow> (Inr \<lparr>pr_status = 200, pr_reason = ''OK'', pr_headers = [(''etag'', expected_etag (Some (hexlify (H (pw_got w)))))],
                    pr_body = []\<rparr>, w\<lparr>pw_stored := Some (pw_got w)\<rparr>))"

definition lossy_service :: "(string \<Rightarrow> string) \<Rightarrow> put_world put_service" where
  "lossy_service H =
     \<lparr>ps_begin = (\<lambda>hs w. (Inr (), w\<lparr>pw_got := []\<rparr>)), ps_send = lossy_send, ps_response = lossy_response H,
      ps_lookup = (\<lambda>n w. (Inr (pw_stored w \<noteq> None), w)), ps_error_code = (\<lambda>b. None)\<rparr>"

text \<open>What attempts leave alone; the hashes of the key if there is no digester.\<close>

definition kept :: "put_world sending \<Rightarrow> put_world sending \<Rightarrow> bool" where
  "kept s t \<longleftrightarrow> sd_seekable t = sd_seekable s \<and> sd_read_from_stream t = sd_read_from_stream s
     \<and> (sd_fed s = None \<longrightarrow> sd_fed t = None \<and> k_hashes (sd_key t) = k_hashes (sd_key s)) \<and> k_name (sd_key t) = k_name (sd_key s)
     \<and> file_data (k_file (sd_key t)) = file_data (k_file (sd_key s)) \<and> file_mode (k_file (sd_key t)) = file_mode (k_file (sd_key s))
     \<and> pw_stored (k_world (sd_key t)) = pw_stored (k_world (sd_key s))"

text \<open>How sending \<open>d\<close> ends, by the first fault that is planned.\<close>

definition sent_result :: "put_world sending \<Rightarrow> string \<Rightarrow> (mexe_exc + 'a) \<Rightarrow> put_world sending \<Rightarrow> bool" where
  "sent_result s d res t \<longleftrightarrow>
     (case res of
        Inl e \<Rightarrow> e = HttpException ''reset'' \<and> (\<exists>m. pw_plan (k_world (sd_key s)) = Cut m # pw_plan (k_world (sd_key t)))
      | Inr _ \<Rightarrow> pw_plan (k_world (sd_key t)) = pw_plan (k_world (sd_key s))
                 \<and> pw_got (k_world (sd_key t)) = pw_got (k_world (sd_key s)) @ d
                 \<and> k_hashes (sd_key t) = k_hashes (sd_key s) \<and> sd_fed t = map_option (\<lambda>x. x @ d) (sd_fed s))"

lemma kept_refl [simp]: "kept s s"
  by (simp add: kept_def)

lemma kept_trans: "kept s t \<Longrightarrow> kept t u \<Longrightarrow> kept s u"
  by (simp add: kept_def)

lemma sent_result_append: "sent_result s d (Inr x) t \<Longrightarrow> sent_result t d' res u \<Longrightarrow> sent_result s (d @ d') res u"
  by (cases "sd_fed s") (auto simp: sent_result_def split: sum.splits)

lemma send_chunk_lossy:
  assumes "pe_service E = lossy_service H" "send_chunk E False d s = (res, t)"
  shows "kept s t \<and> sent_result s d res (feed d t) \<and> (\<forall>e. res = Inl e \<longrightarrow> sent_result s d res t) \<and> k_file (sd_key t) = k_file (sd_key s)"
proof -
  have "kept s t \<and> sent_result s d res (feed d t) \<and> (\<forall>e. res = Inl e \<longrightarrow> sent_result s d res t) \<and> k_file (sd_key t) = k_file (sd_key s)"
    if "lossy_send d (k_world (sd_key s)) = (res, w)" "t = on_key (\<lambda>k. k\<lparr>k_world := w\<rparr>) s" for w
    using that by (auto simp: lossy_send_def kept_def sent_result_def on_key_def feed_def split: list.splits put_fault.splits if_splits)
  then show ?thesis using assms by (auto simp: send_chunk_def on_put_def lossy_service_def split: prod.splits)
qed

text \<open>Steps that only touch the file's position and the calls of the callback.\<close>

lemma kept_step:
  assumes "file_data f = file_data (k_file (sd_key s))" "file_mode f = file_mode (k_file (sd_key s))"
  shows "kept s (on_key (\<lambda>k. k\<lparr>k_file := f\<rparr>) (note_call c n z (feed d s)))"
    and "sd_fed (on_key (\<lambda>k. k\<lparr>k_file := f\<rparr>) (note_call c n z s)) = sd_fed s"
    and "k_world (sd_key (on_key (\<lambda>k. k\<lparr>k_file := f\<rparr>) (note_call c n z s))) = k_world (sd_key s)"
    and "k_file (sd_key (on_key (\<lambda>k. k\<lparr>k_file := f\<rparr>) s)) = f"
  using assms by (simp_all add: kept_def on_key_def note_call_def feed_def)

lemma kept_feed [simp]: "kept s (feed d s)"
  by (simp add: kept_def feed_def)

lemma sent_result_nil: "sent_result s [] (Inr x) s"
  by (simp add: sent_result_def option.map_ident)

lemma sent_result_weaken: "sent_result s d (Inr x) t \<Longrightarrow> sent_result s d (Inr y) t" "sent_result s d (Inl e) t \<Longrightarrow> sent_result s d' (Inl e) t"
  by (simp_all add: sent_result_def)

lemma send_chunks_lossy:
  assumes "0 < s3_buffer (pe_s3 E)" "pe_service E = lossy_service H"
  shows "file_rest (f\<lparr>file_pos := p\<rparr>) = r \<Longrightarrow> file_data f = file_data (k_file (sd_key s)) \<Longrightarrow> file_mode f = file_mode (k_file (sd_key s)) \<Longrightarrow>
    send_chunks E False cb cs cc len n i (take (read_amount (s3_buffer (pe_s3 E)) len) r)
      (f\<lparr>file_pos := p + min (read_amount (s3_buffer (pe_s3 E)) len) (length r)\<rparr>) s = (res, t) \<Longrightarrow>
    kept s t \<and> sent_result s (portion len r) res t \<and> (\<forall>n' i'. res = Inr (n', i') \<longrightarrow> n' = n + length (portion len r))"
proof (induction "length r" arbitrary: len p n i r s res t rule: less_induct)
  case less
  define b where "b = read_amount (s3_buffer (pe_s3 E)) len"
  have b: "0 < b" using assms(1) by (auto simp: b_def read_amount_def split: option.splits)
  define g where "g = f\<lparr>file_pos := p + min b (length r)\<rparr>"
  have eq: "send_chunks E False cb cs cc len n i (take b r) g s = (res, t)" using less.prems(4) by (simp add: b_def g_def)
  show ?case
  proof (cases "r = []")
    case True
    then have "res = Inr (n, i)" "t = s" using eq by (simp_all add: send_chunks.simps [of E False cb cs cc len n i "[]"])
    then show ?thesis using True by (simp add: portion_def sent_result_nil split: option.splits)
  next
    case False
    then have ne: "take b r \<noteq> []" using b by simp
    obtain x u where xu: "send_chunk E False (take b r) s = (x, u)" by fastforce
    note ch = send_chunk_lossy [OF assms(2) xu]
    show ?thesis
    proof (cases x)
      case (Inl e)
      then have "res = Inl e" "t = u" using eq xu ne by (simp_all add: send_chunks.simps [of E False cb cs cc len n i "take b r"])
      then show ?thesis using ch Inl sent_result_weaken(2) by auto
    next
      case (Inr v)
      then have sent: "sent_result s (take b r) (Inr v) (feed (take b r) u)" using ch by simp
      have ku: "kept s (feed (take b r) u)" using ch kept_trans [OF _ kept_feed] by blast
      show ?thesis
      proof (cases "was_last len (length (take b r))")
        case True
        then have rt: "res = Inr (n + length (take b r), i)" "t = feed (take b r) u"
          using eq xu ne Inr by (simp_all add: send_chunks.simps [of E False cb cs cc len n i "take b r"] Let_def)
        obtain m where m: "len = Some m" "m \<noteq> 0" "m \<le> length r" "m \<le> b" using True by (auto simp: was_last_def split: option.splits)
        then have "b = m" by (auto simp: b_def read_amount_def split: if_splits)
        then have "portion len r = take b r" using m by (simp add: portion_def)
        then show ?thesis using rt ku sent_result_weaken(1) [OF sent] by simp
      next
        case more: False
        define len' where "len' = size_left len (length (take b r))"
        define b' where "b' = read_amount (s3_buffer (pe_s3 E)) len'"
        define p' where "p' = p + min b (length r)"
        have rest: "file_rest (f\<lparr>file_pos := p'\<rparr>) = drop b r" using less.prems(1) by (auto simp: p'_def file_rest_def min_def add.commute)
        have shorter: "length (drop b r) < length r" using b False by simp
        define h where "h = f\<lparr>file_pos := p' + min b' (length (drop b r))\<rparr>"
        have read: "file_read b' g = (take b' (drop b r), h)" using rest by (simp add: file_read_rest g_def h_def p'_def)
        define call where "call = (cb \<and> (i + 1 = cc \<or> cc = -1))"
        define v where "v = on_key (\<lambda>k. k\<lparr>k_file := h\<rparr>) (note_call call (n + length (take b r)) cs (feed (take b r) u))"
        have rec: "send_chunks E False cb cs cc len' (n + length (take b r)) (if \<not> cb then i else if call then 0 else i + 1) (take b' (drop b r)) h v = (res, t)"
          using eq xu ne more Inr read
          by (simp add: send_chunks.simps [of E False cb cs cc len n i "take b r"] Let_def len'_def [symmetric] b'_def [symmetric] call_def [symmetric] v_def [symmetric] del: length_take split del: if_split)
        have uf: "file_data h = file_data (k_file (sd_key u))" "file_mode h = file_mode (k_file (sd_key u))"
          using ch less.prems(2,3) by (simp_all add: h_def)
        have kv: "kept s v" using ch kept_trans kept_step(1) [OF uf] unfolding v_def by blast
        have sv: "sent_result s (take b r) (Inr ()) v" using sent by (simp add: v_def sent_result_def on_key_def note_call_def)
        have vf: "file_data f = file_data (k_file (sd_key v))" "file_mode f = file_mode (k_file (sd_key v))" by (simp_all add: v_def on_key_def h_def)
        have ih: "kept v t \<and> sent_result v (portion len' (drop b r)) res t
            \<and> (\<forall>n' i'. res = Inr (n', i') \<longrightarrow> n' = n + length (take b r) + length (portion len' (drop b r)))"
          by (rule less.hyps [OF shorter rest vf]) (use rec in \<open>simp add: h_def b'_def\<close>)
        have "take b r @ portion len' (drop b r) = portion len r"
        proof (cases len)
          case (Some m)
          then have "\<not> m \<le> length (take b r) \<or> m = 0" using more by (auto simp: was_last_def)
          then show ?thesis using Some by (auto simp: len'_def size_left_def portion_def take_drop take_then_drop min_def)
        qed (simp add: len'_def size_left_def portion_def)
        moreover have "length (take b r) + length (portion len' (drop b r)) = length (take b r @ portion len' (drop b r))" by simp
        ultimately show ?thesis using ih kept_trans [OF kv] sent_result_append [OF sv] by (metis add.assoc)
      qed
    qed
  qed
qed

text \<open>One attempt: it fails as planned, or the body is stored and its entity tag is compared with the key's MD5.\<close>

definition busy :: put_response where
  "busy = \<lparr>pr_status = 503, pr_reason = ''Slow Down'', pr_headers = [], pr_body = []\<rparr>"

definition accepted :: "(string \<Rightarrow> string) \<Rightarrow> string \<Rightarrow> put_response" where
  "accepted H d = \<lparr>pr_status = 200, pr_reason = ''OK'', pr_headers = [(''etag'', expected_etag (Some (hexlify (H d))))], pr_body = []\<rparr>"

definition finished :: "(string \<Rightarrow> string) \<Rightarrow> put_world sending \<Rightarrow> string \<Rightarrow> (mexe_exc + put_response) \<Rightarrow> put_world sending \<Rightarrow> bool" where
  "finished H s d res t \<longleftrightarrow>
     k_name (sd_key t) = k_name (sd_key s) \<and> sd_seekable t = sd_seekable s
     \<and> k_hashes (sd_key t) = fed_hashes H (map_option (\<lambda>x. x @ d) (sd_fed s)) (k_hashes (sd_key s))
     \<and> k_size (sd_key t) = Some (int (length d)) \<and> k_world (sd_key t) = \<lparr>pw_plan = [], pw_got = d, pw_stored = Some d\<rparr>
     \<and> map_of (k_fields (sd_key t)) ''etag'' = Some (expected_etag (Some (hexlify (H d))))
     \<and> res = (if expected_etag (Some (hexlify (H d))) = expected_etag (key_md5 (k_hashes (sd_key t))) then Inr (accepted H d) else Inl data_error)"

definition failed :: "(string \<Rightarrow> string) \<Rightarrow> put_world sending \<Rightarrow> string \<Rightarrow> (mexe_exc + put_response) \<Rightarrow> put_world sending \<Rightarrow> bool" where
  "failed H s d res t \<longleftrightarrow>
     kept s t \<and> (\<exists>x. pw_plan (k_world (sd_key s)) = x # pw_plan (k_world (sd_key t))
       \<and> (case x of Cut m \<Rightarrow> res = Inl (HttpException ''reset'')
          | Busy \<Rightarrow> res = Inr busy \<and> sd_fed t = map_option (\<lambda>x. x @ d) (sd_fed s)
              \<and> k_hashes (sd_key t) = fed_hashes H (sd_fed t) (k_hashes (sd_key s))))"

lemma fed_hashes_None [simp]: "fed_hashes H None hashes = hashes"
  by (simp add: fed_hashes_def)

lemma should_retry_accepted:
  assumes e: "e = expected_etag (Some (hexlify (H d)))"
  shows "should_retry E False (accepted H d) s =
    (if e = expected_etag (key_md5 (k_hashes (sd_key s))) then Inr True else Inl data_error, on_key (set_field ''etag'' (Some e)) s)"
proof -
  have "retry_at_once False (accepted H d) = False" "pr_header (accepted H d) ''etag'' = Some e"
    "pr_header (accepted H d) ''x-amz-server-side-encryption-customer-algorithm'' = None"
    "pr_header (accepted H d) ''x-goog-encryption-kms-key-name'' = None" "pr_status (accepted H d) = 200"
    by (simp_all add: accepted_def retry_at_once_def pr_header_def str_true_def str_lower_def lower_char_def e)
  moreover have "k_hashes (sd_key (on_key (set_field n v) s)) = k_hashes (sd_key s)" for n v by (simp add: on_key_def set_field_def)
  ultimately show ?thesis by (simp add: should_retry_def Let_def)
qed

lemma sender_finish_lossy:
  assumes "pe_service E = lossy_service H" "s3_md5 (pe_s3 E) = H" "pw_got (k_world (sd_key s)) = d"
    and "sender_finish E False cb cs cc (length d) i s = (res, t)" "sd_fed s = map_option (\<lambda>x. x @ d) fed"
  shows "if pw_plan (k_world (sd_key s)) = [] then finished H (s\<lparr>sd_fed := fed\<rparr>) d res t else failed H (s\<lparr>sd_fed := fed\<rparr>) d res t"
proof -
  define u where "u = note_call (cb \<and> (cc \<le> 1 \<or> 0 < i) \<and> 0 < length d) (length d) cs (on_key (\<lambda>k. k\<lparr>k_size := Some (int (length d)),
    k_hashes := fed_hashes H (sd_fed s) (k_hashes k)\<rparr>) s)"
  have u: "k_world (sd_key u) = k_world (sd_key s)" "k_size (sd_key u) = Some (int (length d))" "sd_fed u = sd_fed s"
    "k_hashes (sd_key u) = fed_hashes H (sd_fed s) (k_hashes (sd_key s))" "k_name (sd_key u) = k_name (sd_key s)"
    "sd_seekable u = sd_seekable s" "sd_read_from_stream u = sd_read_from_stream s" "k_file (sd_key u) = k_file (sd_key s)"
    by (simp_all add: u_def note_call_def on_key_def)
  obtain x w where xw: "lossy_response H (k_world (sd_key s)) = (x, w)" by fastforce
  have rt: "put_bind (on_put (ps_response (pe_service E))) (\<lambda>r.
           put_bind (should_retry E False r) (\<lambda>again s.
             if again then (Inr r, s) else (Inl (ServerError (pr_status r) (pr_reason r) (Some (pr_body r))), s))) u = (res, t)"
    using assms(4) by (simp add: sender_finish_def put_bind_def u_def assms(2) Let_def split del: if_split)
  have rt: "(case x of Inl e \<Rightarrow> (Inl e, on_key (\<lambda>k. k\<lparr>k_world := w\<rparr>) u)
     | Inr r \<Rightarrow> put_bind (should_retry E False r) (\<lambda>again s.
             if again then (Inr r, s) else (Inl (ServerError (pr_status r) (pr_reason r) (Some (pr_body r))), s)) (on_key (\<lambda>k. k\<lparr>k_world := w\<rparr>) u)) = (res, t)"
    using rt xw by (simp add: put_bind_def on_put_def assms(1) lossy_service_def u split: sum.splits)
  show ?thesis
  proof (cases "pw_plan (k_world (sd_key s))")
    case Nil
    have x: "x = Inr (accepted H d)" "w = (k_world (sd_key s))\<lparr>pw_stored := Some d\<rparr>" using xw Nil assms(3) by (auto simp: lossy_response_def accepted_def)
    have w: "w = \<lparr>pw_plan = [], pw_got = d, pw_stored = Some d\<rparr>" using x(2) Nil assms(3) by simp
    define e where "e = expected_etag (Some (hexlify (H d)))"
    define c where "c = (e = expected_etag (key_md5 (k_hashes (sd_key u))))"
    define v where "v = on_key (set_field ''etag'' (Some e)) (on_key (\<lambda>k. k\<lparr>k_world := w\<rparr>) u)"
    have v: "k_world (sd_key v) = w" "k_size (sd_key v) = k_size (sd_key u)" "k_hashes (sd_key v) = k_hashes (sd_key u)" "k_name (sd_key v) = k_name (sd_key u)"
      "sd_seekable v = sd_seekable u" "map_of (k_fields (sd_key v)) ''etag'' = Some e"
      by (simp_all add: v_def on_key_def set_field_def update_conv')
    have "k_hashes (sd_key (on_key (\<lambda>k. k\<lparr>k_world := w\<rparr>) u)) = k_hashes (sd_key u)" by (simp add: on_key_def)
    then have "res = (if c then Inr (accepted H d) else Inl data_error) \<and> t = v"
      using rt x(1) by (cases c) (simp_all add: put_bind_def should_retry_accepted [where H = H and d = d and e = e, OF e_def] v_def, simp_all add: c_def)
    then show ?thesis using Nil v w u assms(5) by (simp add: finished_def c_def flip: e_def)
  next
    case (Cons f fs)
    show ?thesis
    proof (cases f)
      case (Cut m)
      then show ?thesis using rt u xw Cons assms(5) by (auto simp: lossy_response_def failed_def kept_def on_key_def)
    next
      case Busy
      then have "x = Inr busy" "w = (k_world (sd_key s))\<lparr>pw_plan := fs\<rparr>" using xw Cons by (auto simp: lossy_response_def busy_def)
      then show ?thesis using rt u Cons Busy assms(5)
        by (auto simp: failed_def kept_def on_key_def should_retry_def retry_at_once_def busy_def put_bind_def)
    qed
  qed
qed

lemma sender_lossy:
  assumes "0 < s3_buffer (pe_s3 E)" "pe_service E = lossy_service H" "s3_md5 (pe_s3 E) = H"
    and d: "d = portion len (drop p (file_data (k_file (sd_key s))))"
    and eq: "sender E (Some p) len False cb num_cb hs s = (res, t)"
  shows "if pw_plan (k_world (sd_key s)) = [] then finished H s d res t else failed H s d res t"
proof -
  define f where "f = (k_file (sd_key s))\<lparr>file_pos := p\<rparr>"
  define r where "r = file_rest f"
  have r: "r = drop p (file_data (k_file (sd_key s)))" by (simp add: r_def f_def file_rest_def)
  define b where "b = read_amount (s3_buffer (pe_s3 E)) len"
  define z where "z = send_cb_size len (k_size (sd_key s))"
  define cc where "cc = send_cb_count (s3_buffer (pe_s3 E)) False z num_cb"
  define g where "g = f\<lparr>file_pos := p + min b (length r)\<rparr>"
  define s1 where "s1 = on_key (\<lambda>k. k\<lparr>k_file := f\<rparr>) s"
  define s2 where "s2 = on_key (\<lambda>k. k\<lparr>k_world := (k_world (sd_key s))\<lparr>pw_got := []\<rparr>\<rparr>) s1"
  define v where "v = on_key (\<lambda>k. k\<lparr>k_file := g\<rparr>) (note_call cb 0 z s2)"
  have read: "file_read b f = (take b r, g)" by (simp add: file_read_rest r_def g_def) (simp add: f_def)
  have v: "kept s v" "sd_fed v = sd_fed s" "pw_plan (k_world (sd_key v)) = pw_plan (k_world (sd_key s))" "pw_got (k_world (sd_key v)) = []"
    "k_hashes (sd_key v) = k_hashes (sd_key s)" "k_file (sd_key v) = g" "sd_read_from_stream v = sd_read_from_stream s"
    by (simp_all add: v_def s1_def s2_def note_call_def on_key_def kept_def g_def f_def)
  obtain x u where xu: "send_chunks E False cb z cc len 0 0 (take b r) g v = (x, u)" by fastforce
  have run: "(case x of Inl e \<Rightarrow> (Inl e, u) | Inr (n, i) \<Rightarrow> sender_finish E False cb z cc n i u) = (res, t)"
  proof -
    have 1: "sender_rewind (Some p) s = (Inr (), s1)" by (simp add: sender_rewind_def s1_def f_def on_key_def)
    have 2: "on_put (ps_begin (pe_service E) hs) s1 = (Inr (), s2)" using assms(2) by (simp add: on_put_def lossy_service_def s2_def) (simp add: s1_def on_key_def)
    have 3: "k_size (sd_key s2) = k_size (sd_key s)" "k_file (sd_key (note_call cb 0 z s2)) = f" by (simp_all add: s1_def s2_def on_key_def note_call_def)
    have 4: "(on_key (\<lambda>k. k\<lparr>k_file := g\<rparr>) (note_call cb 0 z s2))\<lparr>sd_read_from_stream := sd_read_from_stream (note_call cb 0 z s2)\<rparr> = v"
      by (simp add: v_def on_key_def)
    have "sender E (Some p) len False cb num_cb hs s
        = put_bind (send_chunks E False cb z cc len 0 0 (take b r) g) (\<lambda>(n, i). sender_finish E False cb z cc n i) v"
      unfolding sender_def put_bind_Inr [where m = "sender_rewind (Some p)", OF 1]
        put_bind_Inr [where m = "on_put (ps_begin (pe_service E) hs)", OF 2] by (simp add: Let_def 3 4 read flip: z_def cc_def b_def)
    then show ?thesis using eq xu by (simp add: put_bind_def split: sum.splits prod.splits)
  qed
  have sent: "kept v u \<and> sent_result v (portion len r) x u \<and> (\<forall>n' i'. x = Inr (n', i') \<longrightarrow> n' = 0 + length (portion len r))"
  proof (rule send_chunks_lossy [OF assms(1,2)])
    show "file_rest (f\<lparr>file_pos := p\<rparr>) = r" "file_data f = file_data (k_file (sd_key v))" "file_mode f = file_mode (k_file (sd_key v))"
      unfolding v(6) by (simp_all add: g_def r_def) (simp add: f_def)
  qed (use xu in \<open>simp add: b_def g_def\<close>)
  have d: "portion len r = d" using d r by simp
  show ?thesis
  proof (cases x)
    case (Inl e)
    then have "res = Inl e" "t = u" using run by simp_all
    then show ?thesis using sent Inl v kept_trans by (auto simp: sent_result_def failed_def)
  next
    case (Inr y)
    obtain n i where y: "y = (n, i)" by fastforce
    then have fin: "sender_finish E False cb z cc (length d) i u = (res, t)" using run Inr sent d by simp
    have su: "pw_got (k_world (sd_key u)) = d" "sd_fed u = map_option (\<lambda>x. x @ d) (sd_fed s)" "pw_plan (k_world (sd_key u)) = pw_plan (k_world (sd_key s))"
      "k_hashes (sd_key u) = k_hashes (sd_key s)"
      using sent Inr v d by (simp_all add: sent_result_def)
    have ku: "kept s u" using sent kept_trans [OF v(1)] by blast
    define u' where "u' = u\<lparr>sd_fed := sd_fed s\<rparr>"
    have u': "sd_fed u' = sd_fed s" "k_hashes (sd_key u') = k_hashes (sd_key s)" "k_name (sd_key u') = k_name (sd_key s)"
      "sd_seekable u' = sd_seekable s" "pw_plan (k_world (sd_key u')) = pw_plan (k_world (sd_key s))" "kept s u'"
      using ku su by (simp_all add: u'_def kept_def)
    have *: "if pw_plan (k_world (sd_key u)) = [] then finished H u' d res t else failed H u' d res t"
      unfolding u'_def by (rule sender_finish_lossy [OF assms(2,3) su(1) fin su(2)])
    show ?thesis
    proof (cases "pw_plan (k_world (sd_key s)) = []")
      case True
      then show ?thesis using * su(3) u' by (simp add: finished_def)
    next
      case False
      then have "failed H u' d res t" using * su(3) by simp
      then have "failed H s d res t" using kept_trans [OF u'(6)] unfolding failed_def u'(1,2,5) by blast
      then show ?thesis using False by simp
    qed
  qed
qed

section \<open>Attempts with the failing service\<close>

definition put_ready :: "put_world put_env \<Rightarrow> (string \<Rightarrow> string) \<Rightarrow> bool" where
  "put_ready E H \<longleftrightarrow> pe_service E = lossy_service H \<and> s3_md5 (pe_s3 E) = H \<and> 0 < s3_buffer (pe_s3 E) \<and> \<not> pe_v4 E
     \<and> retry_handler (pe_mexe E) = None \<and> authorizes (pe_mexe E) \<and> \<not> use_proxy (pe_conn E)
     \<and> utf8_valid (pe_bucket E) \<and> (\<forall>x \<in> set (pe_bucket E). \<not> is_upper x)"

definition put_retries :: "'w put_env \<Rightarrow> nat" where
  "put_retries E = (case pe_cfg E of Some k \<Rightarrow> k | None \<Rightarrow> num_retries (pe_conn E))"

lemma attempts_lossy:
  assumes ready: "put_ready E H" and "sd_fed s = None" and d: "d = portion len (drop p (file_data (k_file (sd_key s))))"
    and m: "m = sender E (Some p) len False cb num_cb hs"
  shows "j \<le> length (pw_plan (k_world (sd_key s))) \<Longrightarrow>
    kept s (attempts m j s) \<and> pw_plan (k_world (sd_key (attempts m j s))) = drop j (pw_plan (k_world (sd_key s)))"
    and "j < length (pw_plan (k_world (sd_key s))) \<Longrightarrow> fst (m (attempts m j s)) \<in> {Inl (HttpException ''reset''), Inr busy}"
    and "finished H s d (fst (m (attempts m (length (pw_plan (k_world (sd_key s)))) s))) (attempts m (Suc (length (pw_plan (k_world (sd_key s))))) s)"
proof -
  let ?plan = "pw_plan (k_world (sd_key s))"
  have step: "if pw_plan (k_world (sd_key u)) = [] then finished H u d (fst (m u)) (snd (m u)) else failed H u d (fst (m u)) (snd (m u))"
    if "kept s u" for u
    unfolding m by (rule sender_lossy) (use ready that d in \<open>simp_all add: put_ready_def kept_def\<close>)
  have next_one: "failed H u d (fst (m u)) (snd (m u))" if "kept s u" "pw_plan (k_world (sd_key u)) \<noteq> []" for u
    using step [OF that(1)] that(2) by simp
  have all: "kept s (attempts m j s) \<and> pw_plan (k_world (sd_key (attempts m j s))) = drop j ?plan" if "j \<le> length ?plan" for j
    using that
  proof (induction j)
    case (Suc j)
    then have ih: "kept s (attempts m j s)" "pw_plan (k_world (sd_key (attempts m j s))) = drop j ?plan" by simp_all
    then have "failed H (attempts m j s) d (fst (m (attempts m j s))) (snd (m (attempts m j s)))" using Suc.prems by (intro next_one) simp_all
    then obtain x where "kept (attempts m j s) (attempts m (Suc j) s)" "drop j ?plan = x # pw_plan (k_world (sd_key (attempts m (Suc j) s)))"
      using ih(2) by (auto simp: failed_def)
    then show ?case using kept_trans [OF ih(1)] by (metis drop_Suc list.sel(3) tl_drop)
  qed simp
  show "j \<le> length ?plan \<Longrightarrow> kept s (attempts m j s) \<and> pw_plan (k_world (sd_key (attempts m j s))) = drop j ?plan" by (rule all)
  show "fst (m (attempts m j s)) \<in> {Inl (HttpException ''reset''), Inr busy}" if "j < length ?plan"
  proof -
    have "failed H (attempts m j s) d (fst (m (attempts m j s))) (snd (m (attempts m j s)))" using all [of j] that by (intro next_one) simp_all
    then obtain x where "case x of Cut n \<Rightarrow> fst (m (attempts m j s)) = Inl (HttpException ''reset'')
       | Busy \<Rightarrow> fst (m (attempts m j s)) = Inr busy \<and> sd_fed (snd (m (attempts m j s))) = map_option (\<lambda>x. x @ d) (sd_fed (attempts m j s))
           \<and> k_hashes (sd_key (snd (m (attempts m j s)))) = fed_hashes H (sd_fed (snd (m (attempts m j s)))) (k_hashes (sd_key (attempts m j s)))"
      unfolding failed_def by blast
    then show ?thesis by (cases x) simp_all
  qed
  have last: "kept s (attempts m (length ?plan) s)" "pw_plan (k_world (sd_key (attempts m (length ?plan) s))) = []" using all [of "length ?plan"] by simp_all
  then show "finished H s d (fst (m (attempts m (length ?plan) s))) (attempts m (Suc (length ?plan)) s)"
    using step [OF last(1)] assms(2) by (simp add: finished_def kept_def)
qed

text \<open>A call whose first \<open>k\<close> attempts fail in a way that is retried ends with the outcome of the next one.\<close>

lemma put_request_attempts:
  assumes ready: "put_ready E H" and name: "k_name (sd_key s) = Some n" "utf8_valid n" and plan: "k \<le> put_retries E"
    and fails: "\<And>j. j < k \<Longrightarrow> fst (m (attempts m j s)) \<in> {Inl (HttpException ''reset''), Inr busy}"
    and ends: "fst (m (attempts m k s)) \<in> {Inr (accepted H d), Inl data_error}"
  shows "put_request E m hs q s = Some (fst (m (attempts m k s)), attempts m (Suc k) s)"
proof -
  define M where "M = pe_mexe E\<lparr>answer := attempt_answer m s\<rparr>"
  obtain req where req: "s3_http_request (gae M) (py_version M) (pe_format E) (pe_conn E) ''PUT'' (pe_bucket E) n (Some hs) [] q = Inr req"
    using s3_http_request_works name(2) ready unfolding put_ready_def by metis
  have override: "mexe M None (pe_cfg E) c ticks pool first_id req = mexe M (Some (put_retries E)) (pe_cfg E) c ticks pool first_id req"
    if "c = pe_conn E" for c ticks pool first_id
    using that by (simp add: mexe_def put_retries_def)
  have M: "retry_handler M = None" "authorizes M" "\<not> use_proxy (pe_conn E)" using ready by (simp_all add: put_ready_def M_def authorizes_def)
  have busy: "transient (Inr (mexe_response busy))" by (simp add: transient_def mexe_response_def busy_def retried_status_def)
  have transient: "transient (answer M j con x)" if "j < k" for j con x
    using fails [of j] that busy by (auto simp: M_def attempt_answer_def transient_def)
  from ends consider "fst (m (attempts m k s)) = Inr (accepted H d)" | "fst (m (attempts m k s)) = Inl data_error" by auto
  then have "\<exists>r ms. mexe M (Some (put_retries E)) (pe_cfg E) (pe_conn E) (pe_ticks E) (pe_pool E) (pe_first_id E) req = Some (r, ms)
     \<and> length (m_sent ms) = Suc k \<and> (case r of Inl e \<Rightarrow> fst (m (attempts m k s)) = Inl e | Inr _ \<Rightarrow> True)"
  proof cases
    case 1
    then have ans: "answer M k con x = Inr (mexe_response (accepted H d))" for con x by (simp add: M_def attempt_answer_def)
    have "final_response (mexe_response (accepted H d))"
      by (simp add: final_response_def mexe_response_def accepted_def retried_status_def is_redirect_def)
    then have "\<exists>ms. mexe M (Some (put_retries E)) (pe_cfg E) (pe_conn E) (pe_ticks E) (pe_pool E) (pe_first_id E) req
         = Some (Inr (mexe_response (accepted H d)), ms) \<and> length (m_sent ms) = Suc k
         \<and> m_sleeps ms = map (\<lambda>i. min (random M i * 2 ^ i) (max_retry_delay M)) [0..<k]"
      using M plan transient ans by (intro mexe_succeeds) simp_all
    then obtain ms where "mexe M (Some (put_retries E)) (pe_cfg E) (pe_conn E) (pe_ticks E) (pe_pool E) (pe_first_id E) req
         = Some (Inr (mexe_response (accepted H d)), ms)" "length (m_sent ms) = Suc k" by (elim exE conjE)
    then show ?thesis by (intro exI [of _ "Inr (mexe_response (accepted H d))"] exI [of _ ms]) simp
  next
    case 2
    then have ans: "answer M k con x = Inl (mexe_exc.Raised (Boto_Error ''StorageDataError''))" for con x by (simp add: M_def attempt_answer_def data_error_def)
    have "\<exists>ms. mexe M (Some (put_retries E)) (pe_cfg E) (pe_conn E) (pe_ticks E) (pe_pool E) (pe_first_id E) req
         = Some (Inl (mexe_exc.Raised (Boto_Error ''StorageDataError'')), ms) \<and> length (m_sent ms) = Suc k"
      using M plan transient ans by (intro mexe_fails_at) simp_all
    then obtain ms where "mexe M (Some (put_retries E)) (pe_cfg E) (pe_conn E) (pe_ticks E) (pe_pool E) (pe_first_id E) req = Some (Inl data_error, ms)"
        "length (m_sent ms) = Suc k" unfolding data_error_def by (elim exE conjE)
    then show ?thesis using 2 by (intro exI [of _ "Inl data_error"] exI [of _ ms]) simp
  qed
  then obtain r ms where ms: "mexe M (Some (put_retries E)) (pe_cfg E) (pe_conn E) (pe_ticks E) (pe_pool E) (pe_first_id E) req = Some (r, ms)"
    "length (m_sent ms) = Suc k" "case r of Inl e \<Rightarrow> fst (m (attempts m k s)) = Inl e | Inr _ \<Rightarrow> True" by blast
  have "s3_make_request M (pe_format E) None (pe_cfg E) (pe_conn E) (pe_ticks E) (pe_pool E) (pe_first_id E) ''PUT'' (pe_bucket E) n (Some hs) [] q = Some (r, Some ms)"
    using req ms(1) override by (simp add: s3_make_request_def)
  then show ?thesis using ms(2,3) name(1) by (cases r) (simp_all add: put_request_def M_def [symmetric] Let_def)
qed

lemma put_request_lossy:
  assumes ready: "put_ready E H" and fed: "sd_fed s = None" and d: "d = portion len (drop p (file_data (k_file (sd_key s))))"
    and name: "k_name (sd_key s) = Some n" "utf8_valid n" and plan: "length (pw_plan (k_world (sd_key s))) \<le> put_retries E"
  shows "\<exists>res t. put_request E (sender E (Some p) len False cb num_cb hs) hs q s = Some (res, t) \<and> finished H s d res t"
proof -
  define m where "m = sender E (Some p) len False cb num_cb hs"
  define k where "k = length (pw_plan (k_world (sd_key s)))"
  note att = attempts_lossy [OF ready fed d m_def]
  have fin: "finished H s d (fst (m (attempts m k s))) (attempts m (Suc k) s)" using att(3) by (simp add: k_def)
  have "put_request E m hs q s = Some (fst (m (attempts m k s)), attempts m (Suc k) s)"
  proof (rule put_request_attempts [OF ready name])
    show "k \<le> put_retries E" using plan by (simp add: k_def)
    show "fst (m (attempts m j s)) \<in> {Inl (HttpException ''reset''), Inr busy}" if "j < k" for j using att(2) that by (simp add: k_def)
    show "fst (m (attempts m k s)) \<in> {Inr (accepted H d), Inl data_error}" using fin by (auto simp: finished_def split: if_splits)
  qed
  then show ?thesis using fin unfolding m_def [symmetric] by blast
qed

section \<open>Sending a file\<close>

text \<open>With string values, the headers can be built, and only attributes of the key change.\<close>

definition text_headers :: "headers \<Rightarrow> bool" where
  "text_headers hs \<longleftrightarrow> (\<forall>h \<in> set hs. \<exists>v. snd h = HStr v)"

lemma all_str_text: "\<forall>v \<in> set vs. \<exists>x. v = HStr x \<Longrightarrow> \<exists>ss. all_str vs = Inr ss"
proof (induction vs)
  case (Cons v vs)
  then obtain x ss where "v = HStr x" "all_str vs = Inr ss" by auto
  then show ?case by (simp add: hval_str_def)
qed simp

lemma text_headers_update: "text_headers hs \<Longrightarrow> text_headers (AList.update n (HStr v) hs)"
  by (induction hs) (auto simp: text_headers_def)

lemma text_headers_filter: "text_headers hs \<Longrightarrow> text_headers (filter P hs)"
  by (auto simp: text_headers_def)

lemma merge_text:
  assumes "text_headers hs"
  shows "\<exists>v. merge_headers_by_name name hs = Inr v"
proof -
  have "\<exists>x. the (map_of hs n) = HStr x" if n: "n \<in> set (map fst hs)" for n
  proof -
    obtain v where v: "map_of hs n = Some v" using n by (auto dest: weak_map_of_SomeI)
    then have "(n, v) \<in> set hs" by (rule map_of_SomeD)
    then show ?thesis using assms v by (auto simp: text_headers_def)
  qed
  then have "\<exists>ss. all_str (filter (\<lambda>v. v \<noteq> HNone) (map (\<lambda>h. the (map_of hs h)) (find_matching_headers name hs))) = Inr ss"
    by (intro all_str_text) (auto simp: find_matching_headers_def)
  then show ?thesis by (auto simp: merge_headers_by_name_def)
qed

lemma merged_field_text:
  assumes "text_headers hs"
  shows "\<exists>f. merged_field name n hs s = (Inr (), on_key (\<lambda>k. k\<lparr>k_fields := f\<rparr>) s)"
proof (cases "find_matching_headers name hs = []")
  case True
  then show ?thesis by (intro exI [of _ "k_fields (sd_key s)"]) (simp add: merged_field_def on_key_def)
next
  case False
  obtain v where "merge_headers_by_name name hs = Inr v" using merge_text [OF assms] by blast
  then show ?thesis using False
    by (intro exI [of _ "AList.update n v (k_fields (sd_key s))"]) (simp add: merged_field_def put_bind_def put_lift_def on_key_def set_field_def)
qed

lemma content_type_text:
  assumes "text_headers hs"
  shows "\<exists>h f. content_type_header E hs s = (Inr h, on_key (\<lambda>k. k\<lparr>k_fields := f\<rparr>) s)"
proof (cases "find_matching_headers ''Content-Type'' hs")
  case Nil
  then show ?thesis
    by (cases "str_true (k_path (sd_key s))")
      (auto simp: content_type_header_def Let_def on_key_def set_field_def intro: exI [of _ "k_fields (sd_key s)"])
next
  case (Cons n ns)
  then have "n \<in> set (find_matching_headers ''Content-Type'' hs)" by simp
  then have "map_of hs n \<noteq> Some HNone" using assms by (auto simp: text_headers_def dest!: map_of_SomeD)
  obtain f where "merged_field ''Content-Type'' ''content_type'' hs s = (Inr (), on_key (\<lambda>k. k\<lparr>k_fields := f\<rparr>) s)"
    using merged_field_text [OF assms] by blast
  then show ?thesis using Cons \<open>map_of hs n \<noteq> Some HNone\<close> by (auto simp: content_type_header_def put_bind_def)
qed

lemma put_headers_text:
  assumes "text_headers hs" "\<not> pe_v4 E"
  shows "\<exists>h f. put_headers E chunked len hs s = (Inr h, on_key (\<lambda>k. k\<lparr>k_fields := f\<rparr>) s)"
proof -
  define hs' where "hs' = (let hs = filter (\<lambda>h. fst h \<notin> set (find_matching_headers ''User-Agent'' hs)) hs;
          hs = AList.update ''User-Agent'' (HStr (agent (pe_mexe E))) hs
      in case k_storage_class (sd_key s) of
                  Some c \<Rightarrow> if c = ''STANDARD'' then hs else AList.update (storage_class_header (s3_provider_of (pe_s3 E))) (HStr c) hs
                | None \<Rightarrow> hs)"
  have hs': "text_headers hs'" using assms(1)
    by (simp add: hs'_def Let_def text_headers_update text_headers_filter split: option.splits)
  obtain f1 where 1: "merged_field ''Content-Encoding'' ''content_encoding'' hs' s = (Inr (), on_key (\<lambda>k. k\<lparr>k_fields := f1\<rparr>) s)"
    using merged_field_text [OF hs'] by blast
  define s1 where "s1 = on_key (\<lambda>k. k\<lparr>k_fields := f1\<rparr>) s"
  obtain f2 where 2: "merged_field ''Content-Language'' ''content_language'' hs' s1 = (Inr (), on_key (\<lambda>k. k\<lparr>k_fields := f2\<rparr>) s1)"
    using merged_field_text [OF hs'] by blast
  define s2 where "s2 = on_key (\<lambda>k. k\<lparr>k_fields := f2\<rparr>) s1"
  obtain h3 f3 where 3: "content_type_header E hs' s2 = (Inr h3, on_key (\<lambda>k. k\<lparr>k_fields := f3\<rparr>) s2)"
    using content_type_text [OF hs'] by blast
  have same: "on_key (\<lambda>k. k\<lparr>k_fields := f3\<rparr>) s2 = on_key (\<lambda>k. k\<lparr>k_fields := f3\<rparr>) s" by (simp add: s1_def s2_def on_key_def)
  have body: "body_hash_header E len hs s = (Inr hs, s)" for hs s using assms(2) by (simp add: body_hash_header_def)
  have "\<exists>h. put_headers E chunked len hs s = (Inr h, on_key (\<lambda>k. k\<lparr>k_fields := f3\<rparr>) s2)"
    using 1 2 3 by (simp add: put_headers_def hs'_def [symmetric] put_bind_def s1_def [symmetric] s2_def [symmetric] body)
      (simp add: put_headers_def Let_def put_bind_def hs'_def body s1_def s2_def)?
  then show ?thesis unfolding same by blast
qed

text \<open>What \<open>send_file\<close> leaves when the MD5 is known: the object, and an error exactly if its entity tag is another one.\<close>

definition put_outcome :: "(string \<Rightarrow> string) \<Rightarrow> string \<Rightarrow> put_world sending \<Rightarrow> bool" where
  "put_outcome H d t \<longleftrightarrow> pw_stored (k_world (sd_key t)) = Some d \<and> k_size (sd_key t) = Some (int (length d))
     \<and> map_of (k_fields (sd_key t)) ''etag'' = Some (expected_etag (Some (hexlify (H d))))"

text \<open>The request of \<open>send_file\<close>, and what it leaves of it.\<close>

lemma send_file_request:
  assumes "put_ready E H" "sd_seekable s" "text_headers hs" "p = file_pos (k_file (sd_key s))"
  shows "\<exists>h s2. sd_fed s2 = (if key_md5 (k_hashes (sd_key s)) = None then Some [] else None) \<and> k_name (sd_key s2) = k_name (sd_key s)
    \<and> k_world (sd_key s2) = k_world (sd_key s) \<and> k_hashes (sd_key s2) = k_hashes (sd_key s) \<and> k_file (sd_key s2) = k_file (sd_key s)
    \<and> (\<forall>res v. put_request E (sender E (Some p) len False cb num_cb h) h q s2 = Some (res, v) \<longrightarrow>
        (\<exists>t. send_file_internal E hs cb num_cb q False len s = Some (map_sum id (\<lambda>_. ()) res, t) \<and> k_world (sd_key t) = k_world (sd_key v)
          \<and> k_size (sd_key t) = k_size (sd_key v) \<and> k_fields (sd_key t) = k_fields (sd_key v) \<and> k_hashes (sd_key t) = k_hashes (sd_key v)))"
proof -
  define s1 where "s1 = s\<lparr>sd_read_from_stream := (sd_seekable s \<and> sd_read_from_stream s),
    sd_fed := (if key_md5 (k_hashes (sd_key s)) = None then Some [] else None)\<rparr>"
  have v4: "\<not> pe_v4 E" using assms(1) by (simp add: put_ready_def)
  obtain h f where h: "put_headers E False len hs s1 = (Inr h, on_key (\<lambda>k. k\<lparr>k_fields := f\<rparr>) s1)" using put_headers_text [OF assms(3) v4] by blast
  define s2 where "s2 = on_key (\<lambda>k. k\<lparr>k_fields := f\<rparr>) s1"
  have s2: "sd_fed s2 = (if key_md5 (k_hashes (sd_key s)) = None then Some [] else None)" "k_name (sd_key s2) = k_name (sd_key s)"
    "k_world (sd_key s2) = k_world (sd_key s)" "k_hashes (sd_key s2) = k_hashes (sd_key s)" "k_file (sd_key s2) = k_file (sd_key s)"
    by (simp_all add: s2_def s1_def on_key_def)
  have run: "\<exists>t. send_file_internal E hs cb num_cb q False len s = Some (map_sum id (\<lambda>_. ()) res, t) \<and> k_world (sd_key t) = k_world (sd_key v)
          \<and> k_size (sd_key t) = k_size (sd_key v) \<and> k_fields (sd_key t) = k_fields (sd_key v) \<and> k_hashes (sd_key t) = k_hashes (sd_key v)"
    if req: "put_request E (sender E (Some p) len False cb num_cb h) h q s2 = Some (res, v)" for res v
  proof -
    define t where "t = (case res of Inl e \<Rightarrow> v | Inr r \<Rightarrow> on_key (handle_version_headers (pe_s3 E) (pr_header r) True) v)"
    have "k_world (sd_key t) = k_world (sd_key v)" "k_size (sd_key t) = k_size (sd_key v)" "k_fields (sd_key t) = k_fields (sd_key v)"
      "k_hashes (sd_key t) = k_hashes (sd_key v)"
      by (simp_all add: t_def on_key_def handle_version_headers_def Let_def split: sum.splits)
    moreover have "send_file_internal E hs cb num_cb q False len s = Some (map_sum id (\<lambda>_. ()) res, t)"
      using req h assms(2) unfolding send_file_internal_def Let_def s1_def [symmetric] s2_def [symmetric] assms(4) [symmetric]
      by (simp add: t_def split: sum.splits)
    ultimately show ?thesis by blast
  qed
  show ?thesis by (intro exI [of _ h] exI [of _ s2] conjI s2 allI impI run)
qed

lemma send_known_md5:
  assumes ready: "put_ready E H" and "sd_seekable s" and hs: "text_headers hs" and md5: "key_md5 (k_hashes (sd_key s)) = Some m"
    and d: "d = portion len (file_rest (k_file (sd_key s)))"
    and name: "k_name (sd_key s) = Some n" "utf8_valid n" and plan: "length (pw_plan (k_world (sd_key s))) \<le> put_retries E"
  shows "\<exists>t. send_file_internal E hs cb num_cb q False len s = Some (if expected_etag (Some (hexlify (H d))) = expected_etag (Some m) then Inr () else Inl data_error, t)
    \<and> put_outcome H d t \<and> key_md5 (k_hashes (sd_key t)) = Some m"
proof -
  define p where "p = file_pos (k_file (sd_key s))"
  obtain h s2 where s2: "sd_fed s2 = None" "k_name (sd_key s2) = Some n" "k_world (sd_key s2) = k_world (sd_key s)" "k_hashes (sd_key s2) = k_hashes (sd_key s)"
    "k_file (sd_key s2) = k_file (sd_key s)"
    and run: "\<And>res v. put_request E (sender E (Some p) len False cb num_cb h) h q s2 = Some (res, v) \<Longrightarrow>
        (\<exists>t. send_file_internal E hs cb num_cb q False len s = Some (map_sum id (\<lambda>_. ()) res, t) \<and> k_world (sd_key t) = k_world (sd_key v)
          \<and> k_size (sd_key t) = k_size (sd_key v) \<and> k_fields (sd_key t) = k_fields (sd_key v) \<and> k_hashes (sd_key t) = k_hashes (sd_key v))"
    using send_file_request [OF ready assms(2) hs p_def, of len cb num_cb q] md5 name(1) by auto
  have d2: "d = portion len (drop p (file_data (k_file (sd_key s2))))" using d s2(5) by (simp add: file_rest_def p_def)
  obtain res v where v: "put_request E (sender E (Some p) len False cb num_cb h) h q s2 = Some (res, v)" "finished H s2 d res v"
    using put_request_lossy [OF ready s2(1) d2 s2(2) name(2)] plan s2(3) by metis
  obtain t where t: "send_file_internal E hs cb num_cb q False len s = Some (map_sum id (\<lambda>_. ()) res, t)" "k_world (sd_key t) = k_world (sd_key v)"
    "k_size (sd_key t) = k_size (sd_key v)" "k_fields (sd_key t) = k_fields (sd_key v)" "k_hashes (sd_key t) = k_hashes (sd_key v)" using run [OF v(1)] by blast
  have hashes: "key_md5 (k_hashes (sd_key v)) = Some m" using v(2) s2 md5 by (simp add: finished_def)
  have "map_sum id (\<lambda>_. ()) res = (if expected_etag (Some (hexlify (H d))) = expected_etag (Some m) then Inr () else Inl data_error)"
    using v(2) hashes by (simp add: finished_def)
  moreover have "put_outcome H d t" using v(2) t by (simp add: finished_def put_outcome_def)
  moreover have "key_md5 (k_hashes (sd_key t)) = Some m" using hashes t(5) by simp
  ultimately show ?thesis using t(1) by (intro exI [of _ t] conjI) simp_all
qed

lemma settle_computed:
  assumes "s3_md5 (pe_s3 E) d \<noteq> []" "length (s3_md5 (pe_s3 E) d) \<le> 57" "d = portion len (file_rest (k_file (sd_key s)))"
  shows "\<exists>h. settle_md5 E None len s = (Inr (Some (length d)), on_key (\<lambda>k. k\<lparr>k_size := Some (int (length d)), k_hashes := h\<rparr>) s)
    \<and> key_md5 h = Some (hexlify (s3_md5 (pe_s3 E) d))"
proof -
  let ?H = "s3_md5 (pe_s3 E)"
  define f where "f = k_file (sd_key s)"
  have c: "compute_hash ?H 8192 len f = (Inr (hexlify (?H d), b64encode (?H d), length d), f)"
    using compute_hash_portion [of 8192 ?H len f] assms by (simp add: f_def)
  define h where "h = AList.update ''md5'' (?H d) (k_hashes (sd_key s))"
  have e: "on_key (\<lambda>k. k\<lparr>k_hashes := h\<rparr>) (on_key (\<lambda>k. k\<lparr>k_file := f, k_size := Some (int (length d))\<rparr>) s)
      = on_key (\<lambda>k. k\<lparr>k_size := Some (int (length d)), k_hashes := h\<rparr>) s"
    by (simp add: on_key_def f_def)
  have "k_hashes (sd_key (on_key (\<lambda>k. k\<lparr>k_file := f, k_size := Some (int (length d))\<rparr>) s)) = k_hashes (sd_key s)" by (simp add: on_key_def)
  then have "settle_md5 E None len s = (Inr (Some (length d)), on_key (\<lambda>k. k\<lparr>k_size := Some (int (length d)), k_hashes := h\<rparr>) s)"
    using c assms(1) unfolding settle_md5_def f_def [symmetric] Let_def
    by (simp add: put_bind_def put_lift_def set_key_md5_hex set_key_base64md5_b64 h_def [symmetric] e)
  moreover have "key_md5 h = Some (hexlify (?H d))" using assms(1) by (simp add: h_def key_md5_def update_conv')
  ultimately show ?thesis by blast
qed

text \<open>A connection whose service cuts one request and refuses another.\<close>

definition example_put :: "put_world put_env" where
  "example_put =
     \<lparr>pe_s3 = \<lparr>s3_provider_of = example_provider, s3_buffer = 2, s3_md5 = (\<lambda>x. x @ ''!''), s3_get = (\<lambda>a w. (Inl HTTPError, w))\<rparr>,
      pe_service = lossy_service (\<lambda>x. x @ ''!''), pe_bucket = ''b'', pe_format = Subdomain, pe_guess = (\<lambda>p. None), pe_v4 = False,
      pe_sha256 = (\<lambda>x. x), pe_mexe = basic_env (\<lambda>n c r. Inl CertException), pe_cfg = None, pe_conn = direct_conn ''h'' True,
      pe_ticks = 0, pe_pool = conn_pool_init, pe_first_id = 0\<rparr>"

definition example_sending :: "string \<Rightarrow> put_fault list \<Rightarrow> put_world sending" where
  "example_sending D plan = \<lparr>sd_key = key_init (Some ''k'') \<lparr>file_data = D, file_pos = 1, file_mode = Some ''rb''\<rparr> \<lparr>pw_plan = plan, pw_got = [], pw_stored = None\<rparr>,
     sd_seekable = True, sd_read_from_stream = False, sd_fed = None\<rparr>"

lemma example_put: "put_ready example_put (\<lambda>x. x @ ''!'')" "put_retries example_put = 6"
  by (simp_all add: put_ready_def example_put_def put_retries_def direct_conn_def is_upper_def in_range_def)

text \<open>
  C6: \<open>set_contents_from_file\<close>, whatever the callback, the policy, the storage class, encryption and the headers, stores
  exactly the bytes of the file from its place (or its start), at most \<open>len\<close> of them, leaves their number as the key's
  size and their MD5 and entity tag with the key, and returns their number, if at most as many requests as there are
  retries are cut off or answered with 503.
\<close>

theorem put_stores_file:
  assumes "put_ready E H" and "sd_seekable s" and "text_headers hs" and "\<not> chunked_transfer_support (s3_provider_of (pe_s3 E))"
    and "k_name (sd_key s) = Some n" "utf8_valid n" and "length (pw_plan (k_world (sd_key s))) \<le> put_retries E"
    and "rewind \<or> file_pos (k_file (sd_key s)) \<noteq> length (file_data (k_file (sd_key s))) \<or> file_pos (k_file (sd_key s)) = 0"
    and "d = portion len (if rewind then file_data (k_file (sd_key s)) else file_rest (k_file (sd_key s)))"
    and "H d \<noteq> []" "length (H d) \<le> 57" and "encrypt \<longrightarrow> sse_header (s3_provider_of (pe_s3 E)) \<noteq> None"
  shows "\<exists>t. set_contents_from_file E hs True cb num_cb policy None reduced q encrypt len rewind fname s = Some (Inr (Some (int (length d))), t)
    \<and> put_outcome H d t \<and> key_md5 (k_hashes (sd_key t)) = Some (hexlify (H d))"
proof -
  define s1 where "s1 = (if rewind then on_key (\<lambda>k. k\<lparr>k_file := (k_file (sd_key s))\<lparr>file_pos := 0\<rparr>\<rparr>) s else s)"
  have check: "check_position rewind s = (Inr (), s1)" using assms(2,8) by (auto simp: check_position_def s1_def Let_def)
  define hs1 where "hs1 = (let hs = (if str_true policy then AList.update (acl_header (s3_provider_of (pe_s3 E))) (HStr (the policy)) hs else hs)
     in case sse_header (s3_provider_of (pe_s3 E)) of Some h \<Rightarrow> if encrypt then AList.update h (HStr ''AES256'') hs else hs | None \<Rightarrow> hs)"
  obtain hs2 c where red: "reduced_headers E reduced hs1 s1 = (hs2, on_key (\<lambda>k. k\<lparr>k_storage_class := c\<rparr>) s1)" "text_headers hs2"
  proof -
    have "text_headers hs1" using assms(3) by (simp add: hs1_def Let_def text_headers_update split: option.splits)
    moreover have "s1 = on_key (\<lambda>k. k\<lparr>k_storage_class := k_storage_class (sd_key s1)\<rparr>) s1" by (simp add: on_key_def)
    ultimately show ?thesis using that unfolding reduced_headers_def Let_def by (cases reduced) (auto simp: text_headers_update)
  qed
  define s2 where "s2 = (let s = on_key (\<lambda>k. k\<lparr>k_storage_class := c\<rparr>) s1 in case fname of None \<Rightarrow> s | Some n \<Rightarrow> on_key (\<lambda>k. k\<lparr>k_path := Some n\<rparr>) s)"
  have s2: "sd_seekable s2" "k_name (sd_key s2) = Some n" "k_world (sd_key s2) = k_world (sd_key s)" "d = portion len (file_rest (k_file (sd_key s2)))"
    using assms(2,5,9) by (simp_all add: s2_def s1_def on_key_def Let_def file_rest_def split: option.splits)
  have H: "s3_md5 (pe_s3 E) = H" using assms(1) by (simp add: put_ready_def)
  obtain h where h: "settle_md5 E None len s2 = (Inr (Some (length d)), on_key (\<lambda>k. k\<lparr>k_size := Some (int (length d)), k_hashes := h\<rparr>) s2)"
    "key_md5 h = Some (hexlify (H d))"
    using settle_computed [of E d len s2] s2(4) assms(10,11) H by auto
  define s3 where "s3 = on_key (\<lambda>k. k\<lparr>k_size := Some (int (length d)), k_hashes := h\<rparr>) s2"
  have s3: "sd_seekable s3" "k_name (sd_key s3) = Some n" "k_world (sd_key s3) = k_world (sd_key s)" "k_hashes (sd_key s3) = h"
    "k_file (sd_key s3) = k_file (sd_key s2)" using s2 by (simp_all add: s3_def on_key_def)
  have "portion (Some (length d)) (file_rest (k_file (sd_key s2))) = d" unfolding s2(4) by (auto simp: portion_def min_def split: option.splits)
  then have d3: "d = portion (Some (length d)) (file_rest (k_file (sd_key s3)))" by (simp add: s3(5))
  have md5: "key_md5 (k_hashes (sd_key s3)) = Some (hexlify (H d))" using h(2) s3(4) by simp
  have plan: "length (pw_plan (k_world (sd_key s3))) \<le> put_retries E" using assms(7) s3(3) by simp
  obtain t where t: "send_file_internal E hs2 cb num_cb q False (Some (length d)) s3 = Some (Inr (), t)" "put_outcome H d t"
    "key_md5 (k_hashes (sd_key t)) = Some (hexlify (H d))"
    using send_known_md5 [OF assms(1) s3(1) red(2) md5 d3 s3(2) assms(6) plan, where cb = cb and num_cb = num_cb and q = q]
    unfolding simp_thms if_True by blast
  have name: "on_key (\<lambda>k. if k_name k = None then k\<lparr>k_name := key_md5 (k_hashes k)\<rparr> else k) s3 = s3" using s3(2) by (simp add: on_key_def)
  have "set_contents_from_file E hs True cb num_cb policy None reduced q encrypt len rewind fname s = Some (Inr (k_size (sd_key t)), t)"
    using assms(4,12) check red(1) h(1) t(1) name
    unfolding set_contents_from_file_def Let_def hs1_def [unfolded Let_def, symmetric] s2_def [unfolded Let_def, symmetric] s3_def [symmetric]
    by (simp add: s2_def [unfolded Let_def, symmetric] s3_def [symmetric] send_unless_there_def key_send_file_def)
  then show ?thesis using t by (auto simp: put_outcome_def)
qed

theorem put_stores_file_witness:
  "\<exists>t. set_contents_from_file example_put [(''X-A'', HStr ''v'')] True True 10 (Some ''private'') None True None True (Some 3) False (Some ''f'')
      (example_sending ''abcdef'' [Cut 1, Busy]) = Some (Inr (Some 3), t)
    \<and> put_outcome (\<lambda>x. x @ ''!'') ''bcd'' t \<and> key_md5 (k_hashes (sd_key t)) = Some (hexlify ''bcd!'')"
proof -
  define s where "s = example_sending ''abcdef'' [Cut 1, Busy]"
  have "\<exists>t. set_contents_from_file example_put [(''X-A'', HStr ''v'')] True True 10 (Some ''private'') None True None True (Some 3) False (Some ''f'') s
      = Some (Inr (Some (int (length ''bcd''))), t)
    \<and> put_outcome (\<lambda>x. x @ ''!'') ''bcd'' t \<and> key_md5 (k_hashes (sd_key t)) = Some (hexlify (''bcd'' @ ''!''))"
  proof (rule put_stores_file [OF example_put(1)])
    show "k_name (sd_key s) = Some ''k''" by (simp add: s_def example_sending_def key_init_def)
    show "''bcd'' = portion (Some 3) (if False then file_data (k_file (sd_key s)) else file_rest (k_file (sd_key s)))"
      by (simp add: s_def example_sending_def key_init_def portion_def file_rest_def)
    show "\<not> chunked_transfer_support (s3_provider_of (pe_s3 example_put))" by (simp add: example_put_def example_provider_def)
    show "length (pw_plan (k_world (sd_key s))) \<le> put_retries example_put" by (simp add: example_put(2) s_def example_sending_def key_init_def)
    show "True \<longrightarrow> sse_header (s3_provider_of (pe_s3 example_put)) \<noteq> None" by (simp add: example_put_def example_provider_def)
  qed (simp_all add: s_def example_sending_def key_init_def text_headers_def in_range_def)
  then show ?thesis by (simp add: s_def)
qed

section \<open>A digester that is fed twice\<close>

lemma expected_etag_hexlify [simp]: "expected_etag (Some (hexlify a)) = expected_etag (Some (hexlify b)) \<longleftrightarrow> a = b"
proof -
  have "a = b" if "hexlify a = hexlify b" using that unhexlify_hexlify by (metis sum.inject(2))
  then show ?thesis by (auto simp: expected_etag_def)
qed

text \<open>
  C14: the digesters of \<open>send_file\<close> are made once for all attempts.  Without an MD5 that is known before, a single
  answer 503 makes a successful call raise \<open>StorageDataError\<close>: the object is stored with its bytes, but its entity
  tag is compared with the MD5 of the bytes sent twice, which stays with the key.
\<close>

theorem retry_spoils_digest:
  assumes "put_ready E H" and "sd_seekable s" and "text_headers hs" and "key_md5 (k_hashes (sd_key s)) = None"
    and d: "d = portion len (file_rest (k_file (sd_key s)))"
    and "k_name (sd_key s) = Some n" "utf8_valid n" and "pw_plan (k_world (sd_key s)) = [Busy]" "1 \<le> put_retries E" and "H (d @ d) \<noteq> []"
  shows "\<exists>t. key_send_file E hs cb num_cb q False len s = Some (if H (d @ d) = H d then Inr () else Inl data_error, t)
    \<and> put_outcome H d t \<and> key_md5 (k_hashes (sd_key t)) = Some (hexlify (H (d @ d)))"
proof -
  define p where "p = file_pos (k_file (sd_key s))"
  obtain h s2 where s2: "sd_fed s2 = Some []" "k_name (sd_key s2) = Some n" "k_world (sd_key s2) = k_world (sd_key s)" "k_file (sd_key s2) = k_file (sd_key s)"
    and run: "\<And>res v. put_request E (sender E (Some p) len False cb num_cb h) h q s2 = Some (res, v) \<Longrightarrow>
        (\<exists>t. send_file_internal E hs cb num_cb q False len s = Some (map_sum id (\<lambda>_. ()) res, t) \<and> k_world (sd_key t) = k_world (sd_key v)
          \<and> k_size (sd_key t) = k_size (sd_key v) \<and> k_fields (sd_key t) = k_fields (sd_key v) \<and> k_hashes (sd_key t) = k_hashes (sd_key v))"
    using send_file_request [OF assms(1-3) p_def, of len cb num_cb q] assms(4,6) by auto
  have d2: "d = portion len (drop p (file_data (k_file (sd_key s2))))" using d s2(4) by (simp add: file_rest_def p_def)
  define m where "m = sender E (Some p) len False cb num_cb h"
  have step: "if pw_plan (k_world (sd_key u)) = [] then finished H u d (fst (m u)) (snd (m u)) else failed H u d (fst (m u)) (snd (m u))"
    if "d = portion len (drop p (file_data (k_file (sd_key u))))" for u
    unfolding m_def by (rule sender_lossy) (use assms(1) that in \<open>simp_all add: put_ready_def\<close>)
  define u where "u = snd (m s2)"
  have "failed H s2 d (fst (m s2)) u" using step [OF d2] s2(3) assms(8) by (simp add: u_def)
  then have u: "kept s2 u" "pw_plan (k_world (sd_key u)) = []" "fst (m s2) = Inr busy" "sd_fed u = Some d"
    using s2 assms(8) by (simp_all add: failed_def)
  then have "d = portion len (drop p (file_data (k_file (sd_key u))))" using d2 by (simp add: kept_def)
  then have fin: "finished H u d (fst (m u)) (snd (m u))" using step [of u] u(2) by simp
  have att: "attempts m 0 s2 = s2" "attempts m (Suc 0) s2 = u" "attempts m (Suc (Suc 0)) s2 = snd (m u)" by (simp_all add: u_def)
  have "put_request E m h q s2 = Some (fst (m (attempts m (Suc 0) s2)), attempts m (Suc (Suc 0)) s2)"
  proof (rule put_request_attempts [OF assms(1) s2(2) assms(7)])
    show "fst (m (attempts m j s2)) \<in> {Inl (HttpException ''reset''), Inr busy}" if "j < Suc 0" for j using that u(3) by simp
    show "fst (m (attempts m (Suc 0) s2)) \<in> {Inr (accepted H d), Inl data_error}" using fin unfolding att by (simp add: finished_def)
  qed (use assms(9) in simp)
  then have req: "put_request E m h q s2 = Some (fst (m u), snd (m u))" unfolding att .
  obtain t where t: "key_send_file E hs cb num_cb q False len s = Some (map_sum id (\<lambda>_. ()) (fst (m u)), t)" "k_world (sd_key t) = k_world (sd_key (snd (m u)))"
    "k_size (sd_key t) = k_size (sd_key (snd (m u)))" "k_fields (sd_key t) = k_fields (sd_key (snd (m u)))" "k_hashes (sd_key t) = k_hashes (sd_key (snd (m u)))"
    using run [OF req [unfolded m_def]] unfolding m_def key_send_file_def by blast
  have md5: "key_md5 (k_hashes (sd_key (snd (m u)))) = Some (hexlify (H (d @ d)))"
    using fin u(4) assms(10) by (simp add: finished_def fed_hashes_def key_md5_def update_conv')
  have res: "map_sum id (\<lambda>_. ()) (fst (m u)) = (if H (d @ d) = H d then Inr () else Inl data_error)"
    using fin md5 by (auto simp: finished_def)
  show ?thesis using t fin md5 unfolding res by (intro exI [of _ t]) (simp add: finished_def put_outcome_def)
qed

theorem retry_spoils_digest_witness:
  "\<exists>t. key_send_file example_put [] False 10 None False None (example_sending ''abc'' [Busy]) = Some (Inl data_error, t)
    \<and> put_outcome (\<lambda>x. x @ ''!'') ''bc'' t \<and> key_md5 (k_hashes (sd_key t)) = Some (hexlify ''bcbc!'')"
proof -
  define s where "s = example_sending ''abc'' [Busy]"
  have "\<exists>t. key_send_file example_put [] False 10 None False None s
      = Some (if (''bc'' @ ''bc'') @ ''!'' = ''bc'' @ ''!'' then Inr () else Inl data_error, t)
    \<and> put_outcome (\<lambda>x. x @ ''!'') ''bc'' t \<and> key_md5 (k_hashes (sd_key t)) = Some (hexlify ((''bc'' @ ''bc'') @ ''!''))"
  proof (rule retry_spoils_digest [OF example_put(1)])
    show "k_name (sd_key s) = Some ''k''" by (simp add: s_def example_sending_def key_init_def)
    show "''bc'' = portion None (file_rest (k_file (sd_key s)))" by (simp add: s_def example_sending_def key_init_def portion_def file_rest_def)
  qed (simp_all add: s_def example_sending_def key_init_def text_headers_def in_range_def example_put(2) key_md5_def)
  then show ?thesis by (simp add: s_def)
qed

end
