(* ===== verification/DDB_Types.thy ===== *)
theory DDB_Types
  imports Complex_Main Py_Base64
begin

text \<open>
  The types of DynamoDB, \<^verbatim>\<open>boto/dynamodb/types.py\<close>: Python values, their encoding as typed JSON by a \<open>Dynamizer\<close>, and
  decoding.

  JSON values are Python values too, so that \<open>encode\<close> and \<open>decode\<close> have one type.  A text is the string of its UTF-8 bytes.
  Of \<open>decimal\<close> there is what the code uses: conversion from strings and floats under \<open>DYNAMODB_CONTEXT\<close>, and to strings.
\<close>

section \<open>Decimal numbers\<close>

text \<open>Sign, coefficient and exponent; infinity; NaN, with whether it signals and its payload.\<close>

datatype decimal = Finite bool nat int | Infinite bool | NaN bool bool string

text \<open>A finite float is a fraction in lowest terms whose denominator is a power of two: sign, numerator, exponent.\<close>

datatype pyfloat = Ratio bool nat nat | FloatInf bool | FloatNaN

definition decimal_of_int :: "int \<Rightarrow> decimal" where
  "decimal_of_int n = Finite (n < 0) (nat \<bar>n\<bar>) 0"

primrec decimal_of_float :: "pyfloat \<Rightarrow> decimal" where
  "decimal_of_float (Ratio s n k) = Finite s (n * 5 ^ k) (- int k)"
| "decimal_of_float (FloatInf s) = Infinite s"
| "decimal_of_float FloatNaN = NaN False False []"

text \<open>\<open>Decimal.__str__\<close>.\<close>

definition exponent_str :: "int \<Rightarrow> string" where
  "exponent_str n = (if n < 0 then str_int n else ''+'' @ str_int n)"

fun decimal_str :: "decimal \<Rightarrow> string" where
  "decimal_str (Infinite s) = (if s then ''-'' else []) @ ''Infinity''"
| "decimal_str (NaN s q p) = (if s then ''-'' else []) @ (if q then ''sNaN'' else ''NaN'') @ p"
| "decimal_str (Finite s c e) =
     (let ds = nat_str c; n = int (length ds); leftdigits = e + n;
          dotplace = (if e \<le> 0 \<and> -6 < leftdigits then leftdigits else 1);
          (intpart, fracpart) =
            (if dotplace \<le> 0 then (''0'', ''.'' @ replicate (nat (- dotplace)) (CHR ''0'') @ ds)
             else if n \<le> dotplace then (ds @ replicate (nat (dotplace - n)) (CHR ''0''), [])
             else (take (nat dotplace) ds, ''.'' @ drop (nat dotplace) ds))
      in (if s then ''-'' else []) @ intpart @ fracpart @ (if leftdigits = dotplace then [] else ''E'' @ exponent_str (leftdigits - dotplace)))"

text \<open>The regular expression of \<open>decimal\<close>, in its parts: sign, integer, fraction, exponent.\<close>

definition take_sign :: "string \<Rightarrow> bool \<times> string" where
  "take_sign s = (case s of c # t \<Rightarrow> if c = CHR ''-'' then (True, t) else if c = CHR ''+'' then (False, t) else (False, s) | [] \<Rightarrow> (False, s))"

definition take_fraction :: "string \<Rightarrow> string option \<times> string" where
  "take_fraction s = (case s of c # t \<Rightarrow> if c = CHR ''.'' then (Some (takeWhile is_digit t), dropWhile is_digit t) else (None, s) | [] \<Rightarrow> (None, s))"

definition digits_num :: "string \<Rightarrow> nat" where
  "digits_num s = (case digits_val 0 s of None \<Rightarrow> 0 | Some n \<Rightarrow> n)"

definition parse_exponent :: "string \<Rightarrow> int option" where
  "parse_exponent s =
     (case s of
        [] \<Rightarrow> Some 0
      | c # t \<Rightarrow>
          if c \<in> {CHR ''E'', CHR ''e''}
          then (case take_sign t of (neg, ds) \<Rightarrow>
                  if ds \<noteq> [] \<and> (\<forall>d \<in> set ds. is_digit d) then Some (if neg then - int (digits_num ds) else int (digits_num ds)) else None)
          else None)"

definition parse_special :: "bool \<Rightarrow> string \<Rightarrow> decimal option" where
  "parse_special neg s =
     (let l = str_lower s
      in if l \<in> {''inf'', ''infinity''} then Some (Infinite neg)
         else let (q, t) = (if str_startswith l ''s'' then (True, drop 1 l) else (False, l))
              in if str_startswith t ''nan'' \<and> (\<forall>d \<in> set (drop 3 t). is_digit d)
                 then Some (NaN neg q (dropWhile (\<lambda>c. c = CHR ''0'') (drop 3 t))) else None)"

definition parse_decimal :: "string \<Rightarrow> decimal option" where
  "parse_decimal s =
     (case take_sign (str_strip s) of (neg, s) \<Rightarrow>
        let i = takeWhile is_digit s; (f, rest) = take_fraction (dropWhile is_digit s)
        in if i \<noteq> [] \<or> f \<noteq> None \<and> f \<noteq> Some []
           then (let frac = (case f of None \<Rightarrow> [] | Some f \<Rightarrow> f)
                 in map_option (\<lambda>e. Finite neg (digits_num (i @ frac)) (e - int (length frac))) (parse_exponent rest))
           else parse_special neg s)"

text \<open>
  \<open>DYNAMODB_CONTEXT\<close>: 38 digits, exponents from -128 to 126.  Every loss of digits and every exponent out of range is
  trapped; a string that is no number is not, and gives NaN.
\<close>

definition fits :: "nat \<Rightarrow> int \<Rightarrow> bool" where
  "fits c e \<longleftrightarrow> (if c = 0 then -165 \<le> e \<and> e \<le> 126 else length (nat_str c) \<le> 38 \<and> -165 \<le> e \<and> int (length (nat_str c)) + e - 38 \<le> 89)"

definition context_fix :: "decimal \<Rightarrow> decimal res" where
  "context_fix d = (case d of Finite s c e \<Rightarrow> if fits c e then Inr d else Inl (Boto_Error ''DecimalException'')
     | NaN s q p \<Rightarrow> Inr (if 38 < length p then NaN False False [] else d) | _ \<Rightarrow> Inr d)"

definition create_from_string :: "string \<Rightarrow> decimal res" where
  "create_from_string s = (case parse_decimal s of None \<Rightarrow> Inr (NaN False False []) | Some d \<Rightarrow> context_fix d)"

subsection \<open>What is printed is parsed\<close>

lemma is_digit_nat_str: "d \<in> set (nat_str n) \<Longrightarrow> is_digit d"
  using nat_str_digits [of d n] by (simp add: is_digit_def)

lemma digits_num_nat_str [simp]: "digits_num (nat_str n) = n"
  by (simp add: digits_num_def digits_val_nat_str)

lemma digits_num_zeros: "digits_num (replicate k (CHR ''0'') @ s) = digits_num s"
proof -
  have "digits_val 0 (replicate k (CHR ''0'') @ s) = digits_val 0 s"
    by (induction k) (simp_all add: digit_val_def)
  then show ?thesis by (simp add: digits_num_def)
qed

lemma strip_solid: "\<forall>c \<in> set s. \<not> is_space c \<Longrightarrow> str_strip s = s"
  by (simp add: str_strip_def str_lstrip_def dropWhile_all_not)

lemma exponent_str_form: "exponent_str m = (if m < 0 then CHR ''-'' else CHR ''+'') # nat_str (nat \<bar>m\<bar>)"
  by (simp add: exponent_str_def str_int_def)

lemma exponent_str_solid: "\<forall>c \<in> set (''E'' @ exponent_str m). \<not> is_space c"
proof -
  have "\<not> is_space (CHR ''E'')" "\<not> is_space (CHR ''-'')" "\<not> is_space (CHR ''+'')" by (simp_all add: is_space_def)
  then show ?thesis using nat_str_not_space unfolding exponent_str_form by auto
qed

lemma parse_exponent_str: "parse_exponent (''E'' @ exponent_str m) = Some m"
proof -
  have ds: "nat_str k \<noteq> [] \<and> (\<forall>d \<in> set (nat_str k). is_digit d)" for k using is_digit_nat_str by simp
  show ?thesis using ds by (simp add: parse_exponent_def exponent_str_def str_int_def take_sign_def)
qed

lemma span_digits:
  assumes "\<forall>d \<in> set i. is_digit d" "t = [] \<or> \<not> is_digit (hd t)"
  shows "takeWhile is_digit (i @ t) = i" "dropWhile is_digit (i @ t) = t"
  using assms by (induction i) (auto simp: hd_Cons_tl elim: list.set_cases, (cases t; simp)+)

lemma parse_parts:
  assumes i: "i \<noteq> []" "\<forall>d \<in> set i. is_digit d" and f: "\<forall>d \<in> set f. is_digit d" and x: "x = [] \<or> x = ''E'' @ exponent_str m"
  shows "parse_decimal ((if neg then ''-'' else []) @ i @ (if dot then ''.'' @ f else []) @ x)
    = Some (Finite neg (digits_num (i @ (if dot then f else []))) ((if x = [] then 0 else m) - int (length (if dot then f else []))))"
proof -
  obtain d i' where di: "i = d # i'" using i(1) by (cases i) simp_all
  have d: "is_digit d" using i(2) di by simp
  have dot: "\<not> is_digit (CHR ''.'')" "\<not> is_digit (CHR ''E'')" by (simp_all add: is_digit_def)
  have dch: "d \<noteq> CHR ''-''" "d \<noteq> CHR ''+''" using d by (auto simp: is_digit_def)
  have px: "parse_exponent x = Some (if x = [] then 0 else m)" using x parse_exponent_str by (auto simp: parse_exponent_def)
  have xE: "x = [] \<or> hd x = CHR ''E''" using x by auto
  have solid: "\<not> is_space c" if "is_digit c" for c using that by (auto simp: is_digit_def is_space_def)
  have xs: "\<forall>c \<in> set x. \<not> is_space c"
    using x exponent_str_solid by (elim disjE) simp_all
  have all: "\<forall>c \<in> set ((if neg then ''-'' else []) @ i @ (if dot then ''.'' @ f else []) @ x). \<not> is_space c"
    using solid i(2) f xs by (auto simp: is_space_def)
  have sign: "take_sign ((if neg then ''-'' else []) @ i @ (if dot then ''.'' @ f else []) @ x) = (neg, i @ (if dot then ''.'' @ f else []) @ x)"
    using dch by (simp add: take_sign_def di)
  have i2: "takeWhile is_digit (i @ (if dot then ''.'' @ f else []) @ x) = i"
    "dropWhile is_digit (i @ (if dot then ''.'' @ f else []) @ x) = (if dot then ''.'' @ f else []) @ x"
    using xE dot by (intro span_digits [OF i(2)]; auto)+
  have "take_fraction ((if dot then ''.'' @ f else []) @ x) = (if dot then Some f else None, x)"
  proof (cases dot)
    case True
    have "takeWhile is_digit (f @ x) = f" "dropWhile is_digit (f @ x) = x" using xE dot by (intro span_digits [OF f]; auto)+
    then show ?thesis using True by (simp add: take_fraction_def)
  next
    case False
    then show ?thesis using xE by (cases x) (auto simp: take_fraction_def)
  qed
  then show ?thesis using i(1) by (simp add: parse_decimal_def strip_solid [OF all] sign i2 px)
qed

lemma decimal_str_parses: "parse_decimal (decimal_str (Finite s c e)) = Some (Finite s c e)"
proof -
  define ds where "ds = nat_str c"
  define n where "n = int (length ds)"
  define left where "left = e + n"
  define dp where "dp = (if e \<le> 0 \<and> -6 < left then left else 1)"
  have ds: "ds \<noteq> []" "\<forall>d \<in> set ds. is_digit d" "digits_num ds = c" using is_digit_nat_str by (simp_all add: ds_def)
  have n: "0 < n" using ds(1) by (simp add: n_def)
  have zero: "is_digit (CHR ''0'')" by (simp add: is_digit_def)
  define x where "x = (if left = dp then [] else ''E'' @ exponent_str (left - dp))"
  have x: "x = [] \<or> x = ''E'' @ exponent_str (left - dp)" "(if x = [] then 0 else left - dp) = left - dp" by (simp_all add: x_def)
  have form: "decimal_str (Finite s c e) = (case (if dp \<le> 0 then (''0'', ''.'' @ replicate (nat (- dp)) (CHR ''0'') @ ds)
             else if n \<le> dp then (ds @ replicate (nat (dp - n)) (CHR ''0''), [])
             else (take (nat dp) ds, ''.'' @ drop (nat dp) ds)) of (i, f) \<Rightarrow> (if s then ''-'' else []) @ i @ f @ x)"
    unfolding decimal_str.simps Let_def ds_def [symmetric] n_def [symmetric] left_def [symmetric] dp_def [symmetric] x_def [symmetric] by (rule refl)
  consider "dp \<le> 0" | "0 < dp" "n \<le> dp" | "0 < dp" "dp < n" by linarith
  then show ?thesis
  proof cases
    case 1
    then have str: "decimal_str (Finite s c e) = (if s then ''-'' else []) @ ''0'' @ (if True then ''.'' @ (replicate (nat (- dp)) (CHR ''0'') @ ds) else []) @ x"
      using 1 unfolding form by simp
    have len: "left = dp" using 1 by (simp add: dp_def split: if_splits)
    have "digits_num (''0'' @ replicate (nat (- dp)) (CHR ''0'') @ ds) = c"
      using digits_num_zeros [of "Suc (nat (- dp))" ds] ds(3) by simp
    moreover have "parse_decimal (decimal_str (Finite s c e))
        = Some (Finite s (digits_num (''0'' @ (if True then replicate (nat (- dp)) (CHR ''0'') @ ds else [])))
            ((if x = [] then 0 else left - dp) - int (length (if True then replicate (nat (- dp)) (CHR ''0'') @ ds else []))))"
      unfolding str by (rule parse_parts) (use ds zero x in auto)
    moreover have "- int (nat (- dp)) - n = e" using 1 len by (simp add: left_def)
    ultimately show ?thesis using x(2) len by (simp add: n_def)
  next
    case 2
    have fits: "nat (dp - n) = 0"
    proof -
      have "dp \<le> n" using n by (simp add: dp_def left_def)
      then show ?thesis by simp
    qed
    have eq: "dp = n" using 2 fits by simp
    have str: "decimal_str (Finite s c e) = (if s then ''-'' else []) @ ds @ (if False then ''.'' @ [] else []) @ x"
      using 2 fits unfolding form by simp
    have "parse_decimal (decimal_str (Finite s c e))
        = Some (Finite s (digits_num (ds @ (if False then [] else []))) ((if x = [] then 0 else left - dp) - int (length (if False then [] else ([]::string)))))"
      unfolding str by (rule parse_parts) (use ds x in auto)
    then show ?thesis using ds(3) x(2) eq by (simp add: left_def)
  next
    case 3
    define k where "k = nat dp"
    have k: "0 < k" "k < length ds" using 3 by (simp_all add: k_def n_def)
    have str: "decimal_str (Finite s c e) = (if s then ''-'' else []) @ take k ds @ (if True then ''.'' @ drop k ds else []) @ x"
      using 3 unfolding form by (simp add: k_def)
    have dig: "\<forall>d \<in> set (take k ds). is_digit d" "\<forall>d \<in> set (drop k ds). is_digit d" using ds(2) by (auto dest: in_set_takeD in_set_dropD)
    have "parse_decimal (decimal_str (Finite s c e))
        = Some (Finite s (digits_num (take k ds @ (if True then drop k ds else []))) ((if x = [] then 0 else left - dp) - int (length (if True then drop k ds else []))))"
      unfolding str by (rule parse_parts) (use ds dig k x(1) in auto)
    moreover have "left - dp - int (length ds - k) = e" using k by (simp add: left_def n_def k_def of_nat_diff 3 less_imp_le)
    ultimately show ?thesis using ds(3) x(2) by simp
  qed
qed

section \<open>Values\<close>

text \<open>
  Strings are \<open>str\<close> (bytes) and \<open>unicode\<close>; a set is a list without two equal elements; a dictionary with text keys is an
  association list.  Tuples stand for what has no type of DynamoDB.
\<close>

datatype pyval =
    PNone
  | PBool bool
  | PInt int
  | PFloat pyfloat
  | PDec decimal
  | PStr string
  | PUni string
  | PBinary string
  | PSet "pyval list"
  | PMap "(string \<times> pyval) list"
  | PList "pyval list"
  | PTuple "pyval list"

primrec res_map :: "('a \<Rightarrow> 'b res) \<Rightarrow> 'a list \<Rightarrow> 'b list res" where
  "res_map f [] = Inr []"
| "res_map f (x # xs) = res_bind (f x) (\<lambda>y. res_bind (res_map f xs) (\<lambda>ys. Inr (y # ys)))"

lemma res_map_cong [fundef_cong]: "xs = ys \<Longrightarrow> (\<And>x. x \<in> set ys \<Longrightarrow> f x = g x) \<Longrightarrow> res_map f xs = res_map g ys"
  by (induction ys arbitrary: xs) auto

lemma res_map_Inr: "res_map f xs = Inr ys \<longleftrightarrow> list_all2 (\<lambda>x y. f x = Inr y) xs ys"
  by (induction xs arbitrary: ys) (auto simp: res_bind_Inr_iff list_all2_Cons1)

lemma res_map_source: "res_map f xs = Inr ys \<Longrightarrow> y \<in> set ys \<Longrightarrow> \<exists>x \<in> set xs. f x = Inr y"
  by (induction xs arbitrary: ys) (auto simp: res_bind_Inr_iff)

text \<open>The value of a number; NaN has none that equals anything.\<close>

datatype numeric = Rational rat | Unbounded bool

definition decimal_value :: "decimal \<Rightarrow> numeric option" where
  "decimal_value d = (case d of Finite s c e \<Rightarrow> Some (Rational ((if s then -1 else 1) * of_nat c * (if e < 0 then 1 / 10 ^ nat (- e) else 10 ^ nat e)))
     | Infinite s \<Rightarrow> Some (Unbounded s) | NaN s q p \<Rightarrow> None)"

definition number_decimal :: "pyval \<Rightarrow> decimal option" where
  "number_decimal v = (case v of PBool b \<Rightarrow> Some (decimal_of_int (if b then 1 else 0)) | PInt n \<Rightarrow> Some (decimal_of_int n)
     | PFloat f \<Rightarrow> Some (decimal_of_float f) | PDec d \<Rightarrow> Some d | _ \<Rightarrow> None)"

definition is_num :: "pyval \<Rightarrow> bool" where
  "is_num v \<longleftrightarrow> number_decimal v \<noteq> None"

definition is_str :: "pyval \<Rightarrow> bool" where
  "is_str v \<longleftrightarrow> (case v of PStr s \<Rightarrow> True | PUni s \<Rightarrow> True | _ \<Rightarrow> False)"

definition is_binary :: "pyval \<Rightarrow> bool" where
  "is_binary v \<longleftrightarrow> (case v of PBinary s \<Rightarrow> True | _ \<Rightarrow> False)"

definition ascii_text :: "string \<Rightarrow> bool" where
  "ascii_text s \<longleftrightarrow> (\<forall>c \<in> set s. (of_char c :: nat) < 128)"

definition scalar_eq :: "pyval \<Rightarrow> pyval \<Rightarrow> bool" where
  "scalar_eq v w =
     (case (v, w) of
        (PNone, PNone) \<Rightarrow> True
      | (PStr a, PUni b) \<Rightarrow> a = b \<and> ascii_text a
      | (PUni a, PStr b) \<Rightarrow> a = b \<and> ascii_text a
      | (PStr a, PStr b) \<Rightarrow> a = b
      | (PUni a, PUni b) \<Rightarrow> a = b
      | (PBinary a, PBinary b) \<Rightarrow> a = b
      | (PBinary a, PStr b) \<Rightarrow> a = b
      | (PStr a, PBinary b) \<Rightarrow> a = b
      | (PBinary a, PUni b) \<Rightarrow> a = b \<and> ascii_text a
      | (PUni a, PBinary b) \<Rightarrow> a = b \<and> ascii_text a
      | _ \<Rightarrow> (case (number_decimal v, number_decimal w) of
            (Some d, Some e) \<Rightarrow> decimal_value d \<noteq> None \<and> decimal_value d = decimal_value e
          | _ \<Rightarrow> False))"

lemma size_element: "x \<in> set xs \<Longrightarrow> size (x::pyval) < Suc (size_list size xs)"
  by (induction xs) auto

lemma size_field: "(k, x) \<in> set fs \<Longrightarrow> size (x::pyval) < Suc (size_list (size_prod (\<lambda>_. 0) size) fs)"
  by (induction fs) auto

text \<open>\<open>==\<close> of values.\<close>

function py_eq :: "pyval \<Rightarrow> pyval \<Rightarrow> bool" where
  "py_eq v w =
     (case (v, w) of
        (PList xs, PList ys) \<Rightarrow> length xs = length ys \<and> (\<forall>(x, y) \<in> set (zip xs ys). py_eq x y)
      | (PTuple xs, PTuple ys) \<Rightarrow> length xs = length ys \<and> (\<forall>(x, y) \<in> set (zip xs ys). py_eq x y)
      | (PSet xs, PSet ys) \<Rightarrow> length xs = length ys \<and> (\<forall>x \<in> set xs. \<exists>y \<in> set ys. py_eq x y)
      | (PMap fs, PMap gs) \<Rightarrow> length fs = length gs \<and> (\<forall>(k, x) \<in> set fs. \<exists>(l, y) \<in> set gs. k = l \<and> py_eq x y)
      | _ \<Rightarrow> scalar_eq v w)"
  by pat_completeness auto
termination
  by (relation "measure (size \<circ> fst)") (auto intro!: size_element dest: set_zip_leftD size_field)

declare py_eq.simps [simp del]

section \<open>Encoding\<close>

definition get_dynamodb_type :: "bool \<Rightarrow> pyval \<Rightarrow> string res" where
  "get_dynamodb_type use_boolean v =
     (if v = PNone then Inr ''NULL''
      else if is_num v then Inr (case v of PBool _ \<Rightarrow> if use_boolean then ''BOOL'' else ''N'' | _ \<Rightarrow> ''N'')
      else if is_str v then Inr ''S''
      else case v of
             PSet xs \<Rightarrow> if \<forall>x \<in> set xs. is_num x then Inr ''NS''
                       else if \<forall>x \<in> set xs. is_str x then Inr ''SS''
                       else if \<forall>x \<in> set xs. is_binary x then Inr ''BS'' else Inl TypeError
           | PBinary _ \<Rightarrow> Inr ''B''
           | PMap _ \<Rightarrow> Inr ''M''
           | PList _ \<Rightarrow> Inr ''L''
           | _ \<Rightarrow> Inl TypeError)"

definition number_error :: py_exc where
  "number_error = Boto_Error ''DynamoDBNumberError''"

definition encode_n :: "pyval \<Rightarrow> string res" where
  "encode_n v =
     (case number_decimal v of
        None \<Rightarrow> Inl number_error
      | Some d \<Rightarrow> (case context_fix d of
            Inl e \<Rightarrow> Inl number_error
          | Inr d \<Rightarrow> (case d of Finite s c e \<Rightarrow> Inr (decimal_str d) | _ \<Rightarrow> Inl number_error)))"

definition encode_s :: "pyval \<Rightarrow> string res" where
  "encode_s v = (case v of PStr b \<Rightarrow> if utf8_valid b then Inr b else Inl UnicodeDecodeError | PUni u \<Rightarrow> Inr u | _ \<Rightarrow> Inl TypeError)"

definition encode_b :: "pyval \<Rightarrow> string res" where
  "encode_b v = (case v of PBinary b \<Rightarrow> Inr (b64encode b) | _ \<Rightarrow> Inl AttributeError)"

definition elements :: "pyval \<Rightarrow> pyval list" where
  "elements v = (case v of PSet xs \<Rightarrow> xs | _ \<Rightarrow> [])"

text \<open>The encoders of the types that hold no other values, chosen by the type's name.\<close>

definition encode_scalar :: "string \<Rightarrow> pyval \<Rightarrow> pyval res" where
  "encode_scalar t v =
     (let texts = (\<lambda>f. res_bind (res_map f (elements v)) (\<lambda>ts. Inr (PList (map PUni ts))))
      in if t = ''NULL'' then Inr (PBool True)
         else if t = ''BOOL'' then Inr v
         else if t = ''N'' then res_bind (encode_n v) (\<lambda>s. Inr (PUni s))
         else if t = ''S'' then res_bind (encode_s v) (\<lambda>s. Inr (PUni s))
         else if t = ''B'' then res_bind (encode_b v) (\<lambda>s. Inr (PUni s))
         else if t = ''NS'' then texts encode_n
         else if t = ''SS'' then texts encode_s
         else if t = ''BS'' then texts encode_b
         else Inl ValueError)"

function encode :: "bool \<Rightarrow> pyval \<Rightarrow> pyval res" where
  "encode ub v =
     res_bind (get_dynamodb_type ub v) (\<lambda>t.
       res_bind (case v of
                   PMap fs \<Rightarrow> res_bind (res_map (\<lambda>(k, x). res_bind (encode ub x) (\<lambda>y. Inr (k, y))) fs) (\<lambda>gs. Inr (PMap gs))
                 | PList xs \<Rightarrow> res_bind (res_map (encode ub) xs) (\<lambda>ys. Inr (PList ys))
                 | _ \<Rightarrow> encode_scalar t v) (\<lambda>x. Inr (PMap [(t, x)])))"
  by pat_completeness auto
termination
  by (relation "measure (size \<circ> snd)") (auto dest!: size_element size_field)

declare encode.simps [simp del]

section \<open>Decoding\<close>

fun hashable :: "pyval \<Rightarrow> bool" where
  "hashable (PSet xs) = False"
| "hashable (PMap fs) = False"
| "hashable (PList xs) = False"
| "hashable (PTuple xs) = (\<forall>x \<in> set xs. hashable x)"
| "hashable v = True"

definition set_add :: "pyval \<Rightarrow> pyval list \<Rightarrow> pyval list" where
  "set_add x xs = (if \<exists>y \<in> set xs. py_eq y x then xs else xs @ [x])"

definition py_set :: "pyval list \<Rightarrow> pyval res" where
  "py_set xs = (if \<forall>x \<in> set xs. hashable x then Inr (PSet (fold set_add xs [])) else Inl TypeError)"

text \<open>The characters of a text: a byte and the continuation bytes that follow it.\<close>

function text_chars :: "string \<Rightarrow> string list" where
  "text_chars [] = []"
| "text_chars (c # s) = (c # takeWhile (in_range 128 191) s) # text_chars (dropWhile (in_range 128 191) s)"
  by pat_completeness auto
termination
  by (relation "measure length") (auto simp: le_imp_less_Suc length_dropWhile_le)

definition iterate :: "pyval \<Rightarrow> pyval list res" where
  "iterate v = (case v of PList xs \<Rightarrow> Inr xs | PTuple xs \<Rightarrow> Inr xs | PSet xs \<Rightarrow> Inr xs | PMap fs \<Rightarrow> Inr (map (PUni \<circ> fst) fs)
     | PStr s \<Rightarrow> Inr (map (\<lambda>c. PStr [c]) s) | PUni s \<Rightarrow> Inr (map PUni (text_chars s)) | _ \<Rightarrow> Inl TypeError)"

text \<open>\<open>create_decimal\<close> of a value; the lists and tuples that it accepts are left out.\<close>

definition decode_n :: "pyval \<Rightarrow> pyval res" where
  "decode_n v =
     (case v of
        PStr s \<Rightarrow> res_bind (create_from_string s) (\<lambda>d. Inr (PDec d))
      | PUni s \<Rightarrow> res_bind (create_from_string s) (\<lambda>d. Inr (PDec d))
      | _ \<Rightarrow> (case number_decimal v of Some d \<Rightarrow> res_bind (context_fix d) (\<lambda>d. Inr (PDec d))
          | None \<Rightarrow> (case v of PList _ \<Rightarrow> Inl ValueError | PTuple _ \<Rightarrow> Inl ValueError | _ \<Rightarrow> Inl TypeError)))"

definition convert_binary :: "pyval \<Rightarrow> pyval res" where
  "convert_binary v =
     (case v of
        PStr s \<Rightarrow> (case a2b_base64 s of Inl e \<Rightarrow> Inl TypeError | Inr b \<Rightarrow> Inr (PBinary b))
      | PUni s \<Rightarrow> if \<not> ascii_text s then Inl ValueError
                 else (case a2b_base64 s of Inl e \<Rightarrow> Inl TypeError | Inr b \<Rightarrow> Inr (PBinary b))
      | _ \<Rightarrow> Inl TypeError)"

definition decode_set :: "(pyval \<Rightarrow> pyval res) \<Rightarrow> pyval \<Rightarrow> pyval res" where
  "decode_set f v = res_bind (iterate v) (\<lambda>xs. res_bind (res_map f xs) py_set)"

text \<open>The decoders by the type's name in lower case; a name without a decoder leaves \<open>attr\<close> as it is.\<close>

definition decode_scalar :: "pyval \<Rightarrow> string \<Rightarrow> pyval \<Rightarrow> pyval res" where
  "decode_scalar attr t v =
     (if t = ''n'' then decode_n v
      else if t = ''s'' then Inr v
      else if t = ''ns'' then decode_set decode_n v
      else if t = ''ss'' then decode_set Inr v
      else if t = ''b'' then convert_binary v
      else if t = ''bs'' then decode_set convert_binary v
      else if t = ''null'' then Inr PNone
      else if t = ''bool'' then Inr v
      else Inr attr)"

text \<open>A value of one entry has no keys unless it is a dictionary.\<close>

definition not_typed :: "pyval \<Rightarrow> pyval res" where
  "not_typed v =
     (case v of PStr _ \<Rightarrow> Inr v | PUni _ \<Rightarrow> Inr v
      | PList xs \<Rightarrow> if length xs = 1 then Inl AttributeError else Inr v
      | PTuple xs \<Rightarrow> if length xs = 1 then Inl AttributeError else Inr v
      | PSet xs \<Rightarrow> if length xs = 1 then Inl AttributeError else Inr v
      | PMap _ \<Rightarrow> Inr v
      | _ \<Rightarrow> Inl TypeError)"

function decode :: "pyval \<Rightarrow> pyval res" where
  "decode attr =
     (case attr of
        PMap [(t, v)] \<Rightarrow>
          if str_lower t = t then Inr attr
          else if str_lower t = ''m''
          then (case v of
                  PMap fs \<Rightarrow> res_bind (res_map (\<lambda>(k, x). res_bind (decode x) (\<lambda>y. Inr (k, y))) fs) (\<lambda>gs. Inr (PMap gs))
                | _ \<Rightarrow> Inl AttributeError)
          else if str_lower t = ''l''
          then (case v of
                  PList xs \<Rightarrow> res_bind (res_map decode xs) (\<lambda>ys. Inr (PList ys))
                | PTuple xs \<Rightarrow> res_bind (res_map decode xs) (\<lambda>ys. Inr (PList ys))
                | _ \<Rightarrow> res_bind (iterate v) (\<lambda>xs. res_bind (res_map not_typed xs) (\<lambda>ys. Inr (PList ys))))
          else decode_scalar attr (str_lower t) v
      | _ \<Rightarrow> not_typed attr)"
  by pat_completeness auto
termination
  by (relation "measure size") (auto dest!: size_element size_field)

declare decode.simps [simp del]

section \<open>What is sent has the types of DynamoDB\<close>

definition raw_number :: "pyval \<Rightarrow> bool" where
  "raw_number x \<longleftrightarrow> (case x of PUni s \<Rightarrow> (case parse_decimal s of Some (Finite n c e) \<Rightarrow> fits c e | _ \<Rightarrow> False) | _ \<Rightarrow> False)"

definition raw_text :: "pyval \<Rightarrow> bool" where
  "raw_text x \<longleftrightarrow> (case x of PUni s \<Rightarrow> True | _ \<Rightarrow> False)"

definition raw_binary :: "pyval \<Rightarrow> bool" where
  "raw_binary x \<longleftrightarrow> (case x of PUni s \<Rightarrow> (case a2b_base64 s of Inr b \<Rightarrow> True | _ \<Rightarrow> False) | _ \<Rightarrow> False)"

definition raw_scalar :: "string \<Rightarrow> pyval \<Rightarrow> bool" where
  "raw_scalar t x \<longleftrightarrow>
     (if t = ''N'' then raw_number x
      else if t = ''S'' then raw_text x
      else if t = ''B'' then raw_binary x
      else if t = ''NULL'' then x = PBool True
      else if t = ''BOOL'' then x \<in> {PBool True, PBool False}
      else case x of PList xs \<Rightarrow> t = ''NS'' \<and> (\<forall>y \<in> set xs. raw_number y) \<or> t = ''SS'' \<and> (\<forall>y \<in> set xs. raw_text y)
             \<or> t = ''BS'' \<and> (\<forall>y \<in> set xs. raw_binary y) | _ \<Rightarrow> False)"

function raw_ok :: "pyval \<Rightarrow> bool" where
  "raw_ok r =
     (case r of
        PMap [(t, x)] \<Rightarrow>
          if t = ''M'' then (case x of PMap fs \<Rightarrow> \<forall>(k, y) \<in> set fs. raw_ok y | _ \<Rightarrow> False)
          else if t = ''L'' then (case x of PList xs \<Rightarrow> \<forall>y \<in> set xs. raw_ok y | _ \<Rightarrow> False)
          else raw_scalar t x
      | _ \<Rightarrow> False)"
  by pat_completeness auto
termination
  by (relation "measure size") (auto dest!: size_element size_field)

declare raw_ok.simps [simp del]

lemma value_induct:
  assumes "\<And>v. (\<And>xs x. v = PList xs \<Longrightarrow> x \<in> set xs \<Longrightarrow> P x) \<Longrightarrow> (\<And>fs k x. v = PMap fs \<Longrightarrow> (k, x) \<in> set fs \<Longrightarrow> P x) \<Longrightarrow> P v"
  shows "P (v :: pyval)"
proof (induction "size v" arbitrary: v rule: less_induct)
  case less
  show ?case
  proof (rule assms)
    show "P x" if "v = PList xs" "x \<in> set xs" for xs x using less size_element [OF that(2)] that(1) by simp
    show "P x" if "v = PMap fs" "(k, x) \<in> set fs" for fs k x using less size_field [OF that(2)] that(1) by simp
  qed
qed

lemma encode_n_number:
  assumes "encode_n v = Inr s"
  obtains n c e where "number_decimal v = Some (Finite n c e)" "fits c e" "s = decimal_str (Finite n c e)"
  using assms by (auto simp: encode_n_def context_fix_def split: option.splits sum.splits decimal.splits if_splits)

lemma encode_n_raw: "encode_n v = Inr s \<Longrightarrow> raw_number (PUni s)"
  by (erule encode_n_number) (simp add: raw_number_def decimal_str_parses del: decimal_str.simps)

lemma encode_b_raw: "encode_b v = Inr s \<Longrightarrow> raw_binary (PUni s)"
  by (auto simp: encode_b_def raw_binary_def a2b_b64encode split: pyval.splits)

lemma encode_scalar_raw:
  assumes "encode_scalar t v = Inr x" "t = ''BOOL'' \<longrightarrow> v \<in> {PBool True, PBool False}"
  shows "raw_scalar t x"
proof -
  have all: "\<forall>y \<in> set (map PUni ts). P y" if "res_map f vs = Inr ts" "\<And>v s. f v = Inr s \<Longrightarrow> P (PUni s)" for f ts vs P
    using that(2) by (auto dest: res_map_source [OF that(1)])
  show ?thesis using assms encode_n_raw encode_b_raw all [where P = raw_number and f = encode_n] all [where P = raw_binary and f = encode_b]
    by (auto simp: encode_scalar_def raw_scalar_def raw_text_def Let_def res_bind_Inr_iff split: if_splits)
qed

lemma get_type_cases:
  assumes "get_dynamodb_type ub v = Inr t"
  shows "(t = ''M'') = (\<exists>fs. v = PMap fs)" "(t = ''L'') = (\<exists>xs. v = PList xs)" "t = ''BOOL'' \<Longrightarrow> v \<in> {PBool True, PBool False}"
  using assms by (auto simp: get_dynamodb_type_def is_num_def number_decimal_def is_str_def split: pyval.splits if_splits)

lemma encode_typed: "encode ub v = Inr r \<Longrightarrow> raw_ok r"
proof (induction v arbitrary: r rule: value_induct)
  case (1 v)
  from "1.prems" obtain t where t: "get_dynamodb_type ub v = Inr t" by (subst (asm) encode.simps) (auto simp: res_bind_Inr_iff)
  note ty = get_type_cases [OF t]
  show ?case
  proof (cases "(\<exists>fs. v = PMap fs) \<or> (\<exists>xs. v = PList xs)")
    case False
    then obtain x where "encode_scalar t v = Inr x" "r = PMap [(t, x)]"
      using "1.prems" t by (subst (asm) encode.simps) (auto simp: res_bind_Inr_iff split: pyval.splits)
    then show ?thesis using encode_scalar_raw ty False by (subst raw_ok.simps) auto
  next
    case True
    then show ?thesis
    proof
      assume "\<exists>fs. v = PMap fs"
      then obtain fs where fs: "v = PMap fs" by blast
      then obtain gs where gs: "res_map (\<lambda>(k, x). res_bind (encode ub x) (\<lambda>y. Inr (k, y))) fs = Inr gs" "r = PMap [(''M'', PMap gs)]"
        using "1.prems" t ty by (subst (asm) encode.simps) (auto simp: res_bind_Inr_iff)
      have "raw_ok y" if ky: "(k, y) \<in> set gs" for k y
      proof -
        obtain x where "(k, x) \<in> set fs" "encode ub x = Inr y" using res_map_source [OF gs(1) ky] by (auto simp: res_bind_Inr_iff)
        then show ?thesis using "1.IH"(2) [OF fs] by blast
      qed
      then show ?thesis by (subst raw_ok.simps) (auto simp: gs(2))
    next
      assume "\<exists>xs. v = PList xs"
      then obtain xs where xs: "v = PList xs" by blast
      then obtain ys where ys: "res_map (encode ub) xs = Inr ys" "r = PMap [(''L'', PList ys)]"
        using "1.prems" t ty by (subst (asm) encode.simps) (auto simp: res_bind_Inr_iff)
      have "raw_ok y" if y: "y \<in> set ys" for y
      proof -
        obtain x where "x \<in> set xs" "encode ub x = Inr y" using res_map_source [OF ys(1) y] by blast
        then show ?thesis using "1.IH"(1) [OF xs] by blast
      qed
      then show ?thesis by (subst raw_ok.simps) (auto simp: ys(2))
    qed
  qed
qed

section \<open>What is sent is read back\<close>

text \<open>
  The value that comes back: numbers are decimals, byte strings are text.  In a set, and without booleans, a boolean is a
  number.
\<close>

definition canon_scalar :: "bool \<Rightarrow> pyval \<Rightarrow> pyval" where
  "canon_scalar ub v =
     (case v of
        PBool b \<Rightarrow> if ub then v else PDec (decimal_of_int (if b then 1 else 0))
      | PStr s \<Rightarrow> PUni s
      | _ \<Rightarrow> (case number_decimal v of Some d \<Rightarrow> PDec d | None \<Rightarrow> v))"

function canon :: "bool \<Rightarrow> pyval \<Rightarrow> pyval" where
  "canon ub v =
     (case v of
        PSet xs \<Rightarrow> PSet (map (canon_scalar False) xs)
      | PList xs \<Rightarrow> PList (map (canon ub) xs)
      | PMap fs \<Rightarrow> PMap (map (\<lambda>(k, x). (k, canon ub x)) fs)
      | _ \<Rightarrow> canon_scalar ub v)"
  by pat_completeness auto
termination
  by (relation "measure (size \<circ> snd)") (auto dest!: size_element size_field)

declare canon.simps [simp del]

text \<open>The elements of each set stay different when they are read back.\<close>

function sets_kept :: "pyval \<Rightarrow> bool" where
  "sets_kept v =
     (case v of
        PSet xs \<Rightarrow> fold set_add (map (canon_scalar False) xs) [] = map (canon_scalar False) xs
      | PList xs \<Rightarrow> \<forall>x \<in> set xs. sets_kept x
      | PMap fs \<Rightarrow> \<forall>(k, x) \<in> set fs. sets_kept x
      | _ \<Rightarrow> True)"
  by pat_completeness auto
termination
  by (relation "measure size") (auto dest!: size_element size_field)

declare sets_kept.simps [simp del]

lemma decode_number: "encode_n v = Inr s \<Longrightarrow> decode_n (PUni s) = Inr (canon_scalar False v)"
  by (erule encode_n_number)
    (auto simp: decode_n_def create_from_string_def decimal_str_parses context_fix_def canon_scalar_def number_decimal_def
      simp del: decimal_str.simps split: pyval.splits)

lemma decode_text: "encode_s v = Inr s \<Longrightarrow> PUni s = canon_scalar False v"
  by (auto simp: encode_s_def canon_scalar_def number_decimal_def split: pyval.splits if_splits)

lemma b64_ascii: "ascii_text (b64encode s)"
proof -
  have char: "(of_char (b64_char d) :: nat) < 128" if "d < 64" for d
  proof -
    have "b64_val (b64_char d) \<noteq> None" using b64_val_char [OF that] by simp
    then show ?thesis by (auto simp: b64_val_def is_upper_case_def is_lower_case_def is_digit_def split: if_splits)
  qed
  have byte: "(of_char x :: nat) < 256" for x using of_char_less [of x] by simp
  show ?thesis
  proof (induction s rule: b64encode.induct)
    case (2 a)
    define x :: nat where "x = of_char a"
    have x: "x < 256" using of_char_less [of a] by (simp add: x_def)
    then have "x * 16 div 64 < 64" by (simp add: less_mult_imp_div_less)
    then show ?case using char by (simp add: ascii_text_def Let_def x_def [symmetric])
  next
    case (3 a b)
    define x :: nat where "x = of_char a * 256 + of_char b"
    have x: "x < 65536" using byte [of a] byte [of b] unfolding x_def by linarith
    then have "x * 4 div 4096 < 64" by (simp add: less_mult_imp_div_less)
    then show ?case using char by (simp add: ascii_text_def Let_def x_def [symmetric])
  next
    case (4 a b c s)
    define x :: nat where "x = (of_char a * 256 + of_char b) * 256 + of_char c"
    define y :: nat where "y = of_char a * 256 + of_char b"
    have "y < 65536" using byte [of a] byte [of b] unfolding y_def by linarith
    then have x: "x < 16777216" using byte [of c] unfolding x_def y_def [symmetric] by linarith
    then have "x div 262144 < 64" by (simp add: less_mult_imp_div_less)
    then show ?case using char 4 unfolding b64encode.simps Let_def x_def [symmetric] by (simp add: ascii_text_def)
  qed (simp add: ascii_text_def)
qed

lemma decode_bytes: "encode_b v = Inr s \<Longrightarrow> convert_binary (PUni s) = Inr (canon_scalar False v)"
  by (auto simp: encode_b_def convert_binary_def b64_ascii a2b_b64encode canon_scalar_def number_decimal_def split: pyval.splits)

lemma res_map_through:
  assumes "res_map f xs = Inr ts" "\<And>v s. f v = Inr s \<Longrightarrow> g (PUni s) = Inr (h v)"
  shows "res_map g (map PUni ts) = Inr (map h xs)"
  using assms(1) by (induction xs arbitrary: ts) (auto simp: res_bind_Inr_iff assms(2))

lemma hashable_canon: "hashable (canon_scalar False v)" if "is_num v \<or> is_str v \<or> is_binary v"
  using that by (auto simp: is_num_def is_str_def is_binary_def number_decimal_def canon_scalar_def split: pyval.splits)

lemma res_map_all: "(\<And>x. x \<in> set xs \<Longrightarrow> f x = Inr (g x)) \<Longrightarrow> res_map f xs = Inr (map g xs)"
  by (induction xs) simp_all

lemma res_map_back:
  "res_map f xs = Inr ys \<Longrightarrow> \<forall>x \<in> set xs. \<forall>y. f x = Inr y \<longrightarrow> g y = Inr (h x) \<Longrightarrow> res_map g ys = Inr (map h xs)"
  by (induction xs arbitrary: ys) (auto simp: res_bind_Inr_iff)

lemma decode_texts:
  assumes "res_map f xs = Inr ts" "\<And>v s. f v = Inr s \<Longrightarrow> g (PUni s) = Inr (canon_scalar False v)"
    and "sets_kept (PSet xs)" "\<forall>x \<in> set xs. is_num x \<or> is_str x \<or> is_binary x"
  shows "decode_set g (PList (map PUni ts)) = Inr (canon ub (PSet xs))"
proof -
  have "res_map g (map PUni ts) = Inr (map (canon_scalar False) xs)" using assms(1,2) by (rule res_map_through)
  moreover have "\<forall>x \<in> set (map (canon_scalar False) xs). hashable x" using assms(4) hashable_canon by auto
  moreover have "fold set_add (map (canon_scalar False) xs) [] = map (canon_scalar False) xs" using assms(3) by (subst (asm) sets_kept.simps) simp
  ultimately show ?thesis by (simp add: decode_set_def iterate_def py_set_def canon.simps [of ub "PSet xs"] del: set_map)
qed

lemma str_lower_tags:
  "str_lower ''NULL'' = ''null''" "str_lower ''BOOL'' = ''bool''" "str_lower ''N'' = ''n''" "str_lower ''S'' = ''s''" "str_lower ''B'' = ''b''"
  "str_lower ''NS'' = ''ns''" "str_lower ''SS'' = ''ss''" "str_lower ''BS'' = ''bs''" "str_lower ''M'' = ''m''" "str_lower ''L'' = ''l''"
  by (simp_all add: str_lower_def lower_char_def char_eval)

lemma decode_tag:
  assumes "t \<in> {''NULL'', ''BOOL'', ''N'', ''S'', ''B'', ''NS'', ''SS'', ''BS''}"
  shows "decode (PMap [(t, x)]) = decode_scalar (PMap [(t, x)]) (str_lower t) x"
  using assms by (subst decode.simps) (auto simp: str_lower_tags)

lemma scalar_roundtrip:
  assumes t: "get_dynamodb_type ub v = Inr t" and x: "encode_scalar t v = Inr x" and plain: "\<nexists>fs. v = PMap fs" "\<nexists>xs. v = PList xs" and kept: "sets_kept v"
  shows "decode (PMap [(t, x)]) = Inr (canon ub v)"
proof (cases "\<exists>xs. v = PSet xs")
  case True
  then obtain xs where v: "v = PSet xs" by blast
  have kind: "t = ''NS'' \<and> (\<forall>x \<in> set xs. is_num x) \<or> t = ''SS'' \<and> (\<forall>x \<in> set xs. is_str x) \<or> t = ''BS'' \<and> (\<forall>x \<in> set xs. is_binary x)"
    using t by (auto simp: v get_dynamodb_type_def is_num_def number_decimal_def is_str_def split: if_splits)
  then show ?thesis
  proof (elim disjE conjE)
    assume ty: "t = ''NS''" "\<forall>x \<in> set xs. is_num x"
    then obtain ts where ts: "res_map encode_n xs = Inr ts" "x = PList (map PUni ts)" using x by (auto simp: v encode_scalar_def elements_def res_bind_Inr_iff)
    show ?thesis using decode_texts [where f = encode_n and g = decode_n, OF ts(1) decode_number kept [unfolded v]] ty by (simp add: decode_tag str_lower_tags decode_scalar_def ts(2) v)
  next
    assume ty: "t = ''SS''" "\<forall>x \<in> set xs. is_str x"
    then obtain ts where ts: "res_map encode_s xs = Inr ts" "x = PList (map PUni ts)" using x by (auto simp: v encode_scalar_def elements_def res_bind_Inr_iff)
    have "Inr (PUni s) = Inr (canon_scalar False v)" if "encode_s v = Inr s" for v s using decode_text [OF that] by simp
    from decode_texts [where f = encode_s and g = Inr, OF ts(1) this kept [unfolded v]] ty show ?thesis by (simp add: decode_tag str_lower_tags decode_scalar_def ts(2) v)
  next
    assume ty: "t = ''BS''" "\<forall>x \<in> set xs. is_binary x"
    then obtain ts where ts: "res_map encode_b xs = Inr ts" "x = PList (map PUni ts)" using x by (auto simp: v encode_scalar_def elements_def res_bind_Inr_iff)
    show ?thesis using decode_texts [where f = encode_b and g = convert_binary, OF ts(1) decode_bytes kept [unfolded v]] ty by (simp add: decode_tag str_lower_tags decode_scalar_def ts(2) v)
  qed
next
  case False
  then have canon: "canon ub v = canon_scalar ub v" using plain by (subst canon.simps) (auto split: pyval.splits)
  consider "v = PNone" "t = ''NULL''" | b where "v = PBool b" "ub" "t = ''BOOL''" | "is_num v" "t = ''N''" "canon_scalar ub v = canon_scalar False v"
    | "is_str v" "t = ''S''" "canon_scalar ub v = canon_scalar False v" | "is_binary v" "t = ''B''" "canon_scalar ub v = canon_scalar False v"
    using t plain False
    by (cases v) (auto simp: get_dynamodb_type_def is_num_def number_decimal_def is_str_def is_binary_def canon_scalar_def split: if_splits)
  then show ?thesis
  proof cases
    case 1
    then show ?thesis using x canon by (simp add: encode_scalar_def decode_tag str_lower_tags decode_scalar_def canon_scalar_def number_decimal_def)
  next
    case (2 b)
    then have "x = PBool b" using x by (simp add: encode_scalar_def)
    then show ?thesis using 2 canon by (simp add: decode_tag str_lower_tags decode_scalar_def canon_scalar_def)
  next
    case 3
    then obtain s where "encode_n v = Inr s" "x = PUni s" using x by (auto simp: encode_scalar_def Let_def res_bind_Inr_iff)
    then show ?thesis using decode_number 3 by (simp add: decode_tag str_lower_tags decode_scalar_def canon)
  next
    case 4
    then obtain s where "encode_s v = Inr s" "x = PUni s" using x by (auto simp: encode_scalar_def Let_def res_bind_Inr_iff)
    then show ?thesis using decode_text 4 by (simp add: decode_tag str_lower_tags decode_scalar_def canon)
  next
    case 5
    then obtain s where "encode_b v = Inr s" "x = PUni s" using x by (auto simp: encode_scalar_def Let_def res_bind_Inr_iff)
    then show ?thesis using decode_bytes 5 by (simp add: decode_tag str_lower_tags decode_scalar_def canon)
  qed
qed

lemma decode_encode: "encode ub v = Inr r \<Longrightarrow> sets_kept v \<Longrightarrow> decode r = Inr (canon ub v)"
proof (induction v arbitrary: r rule: value_induct)
  case (1 v)
  from "1.prems" obtain t where t: "get_dynamodb_type ub v = Inr t" by (subst (asm) encode.simps) (auto simp: res_bind_Inr_iff)
  note ty = get_type_cases [OF t]
  consider fs where "v = PMap fs" | xs where "v = PList xs" | "\<nexists>fs. v = PMap fs" "\<nexists>xs. v = PList xs" by blast
  then show ?case
  proof cases
    case fs: 1
    then have m: "t = ''M''" using ty by simp
    obtain gs where gs: "res_map (\<lambda>(k, x). res_bind (encode ub x) (\<lambda>y. Inr (k, y))) fs = Inr gs" "r = PMap [(''M'', PMap gs)]"
      using "1.prems" t m by (subst (asm) encode.simps) (auto simp: fs res_bind_Inr_iff)
    have kept: "\<forall>(k, x) \<in> set fs. sets_kept x" using "1.prems"(2) by (subst (asm) sets_kept.simps) (simp add: fs)
    have "res_map (\<lambda>(k, x). res_bind (decode x) (\<lambda>y. Inr (k, y))) gs = Inr (map (\<lambda>(k, x). (k, canon ub x)) fs)"
      by (rule res_map_back [OF gs(1)]) (use "1.IH"(2) [OF fs] kept in \<open>fastforce simp: res_bind_Inr_iff\<close>)
    then show ?thesis unfolding gs(2) by (subst decode.simps, subst canon.simps) (simp add: fs str_lower_tags)
  next
    case xs: 2
    then have m: "t = ''L''" using ty by simp
    obtain ys where ys: "res_map (encode ub) xs = Inr ys" "r = PMap [(''L'', PList ys)]"
      using "1.prems" t m by (subst (asm) encode.simps) (auto simp: xs res_bind_Inr_iff)
    have kept: "\<forall>x \<in> set xs. sets_kept x" using "1.prems"(2) by (subst (asm) sets_kept.simps) (simp add: xs)
    have "res_map decode ys = Inr (map (canon ub) xs)"
      by (rule res_map_back [OF ys(1)]) (use "1.IH"(1) [OF xs] kept in blast)
    then show ?thesis unfolding ys(2) by (subst decode.simps, subst canon.simps) (simp add: xs str_lower_tags)
  next
    case 3
    then obtain x where "encode_scalar t v = Inr x" "r = PMap [(t, x)]"
      using "1.prems" t by (subst (asm) encode.simps) (auto simp: res_bind_Inr_iff split: pyval.splits)
    then show ?thesis using scalar_roundtrip [OF t _ 3] "1.prems"(2) by simp
  qed
qed


text \<open>
  C16: whatever value is encoded, what is sent has the types of DynamoDB: one entry that names its type, numbers within
  38 digits and the exponents of DynamoDB, texts, Base64, and lists and dictionaries of such values.
\<close>

theorem encode_is_typed:
  assumes "encode use_boolean v = Inr r"
  shows "raw_ok r"
  by (rule encode_typed [OF assms])

theorem encode_is_typed_witness:
  "raw_ok (PMap [(''M'', PMap [(''a'', PMap [(''L'', PList [PMap [(''N'', PUni ''-1'')], PMap [(''BOOL'', PBool True)]])])])])"
proof -
  have "encode True (PMap [(''a'', PList [PInt (-1), PBool True])])
     = Inr (PMap [(''M'', PMap [(''a'', PMap [(''L'', PList [PMap [(''N'', PUni ''-1'')], PMap [(''BOOL'', PBool True)]])])])])"
    by (simp add: encode.simps get_dynamodb_type_def is_num_def is_str_def number_decimal_def encode_scalar_def encode_n_def decimal_of_int_def
      context_fix_def fits_def nat_str.simps digit_char_def Let_def char_eval)
  then show ?thesis by (rule encode_is_typed)
qed

text \<open>
  C17: decoding what was encoded gives the value again, with decimals of the same digits and exponent for numbers and
  text for byte strings, in lists and dictionaries of any depth.
\<close>

theorem dynamizer_roundtrip:
  assumes "encode use_boolean v = Inr r" and "sets_kept v"
  shows "decode r = Inr (canon use_boolean v)"
  by (rule decode_encode [OF assms])

theorem dynamizer_roundtrip_witness:
  "decode (PMap [(''L'', PList [PMap [(''N'', PUni ''1E+3'')], PMap [(''SS'', PList [PUni ''x'', PUni ''y''])], PMap [(''N'', PUni ''0.5'')]])])
     = Inr (PList [PDec (Finite False 1 3), PSet [PUni ''x'', PUni ''y''], PDec (Finite False 5 (-1))])"
proof -
  let ?v = "PList [PDec (Finite False 1 3), PSet [PStr ''x'', PStr ''y''], PFloat (Ratio False 1 1)]"
  have "encode True ?v
     = Inr (PMap [(''L'', PList [PMap [(''N'', PUni ''1E+3'')], PMap [(''SS'', PList [PUni ''x'', PUni ''y''])], PMap [(''N'', PUni ''0.5'')]])])"
    by (simp add: encode.simps get_dynamodb_type_def is_num_def is_str_def number_decimal_def encode_scalar_def encode_n_def encode_s_def elements_def
      context_fix_def fits_def nat_str.simps digit_char_def Let_def exponent_str_def str_int_def in_range_def char_eval)
  moreover have "sets_kept ?v"
    by (simp add: sets_kept.simps canon_scalar_def set_add_def py_eq.simps scalar_eq_def number_decimal_def)
  ultimately have "decode (PMap [(''L'', PList [PMap [(''N'', PUni ''1E+3'')], PMap [(''SS'', PList [PUni ''x'', PUni ''y''])], PMap [(''N'', PUni ''0.5'')]])])
     = Inr (canon True ?v)" by (rule dynamizer_roundtrip)
  then show ?thesis by (simp add: canon.simps canon_scalar_def number_decimal_def)
qed

end
