(* ===== verification/DDB_Table.thy ===== *)
theory DDB_Table
  imports DDB_Types
begin

text \<open>
  Tables of DynamoDB, \<^verbatim>\<open>boto/dynamodb2/table.py\<close> and \<^verbatim>\<open>fields.py\<close>: the schema and its introspection, keys, filters, and the
  requests of \<^verbatim>\<open>layer1.py\<close> that write.

  The service is a parameter: what \<open>make_request\<close> returns or raises for an action and its parameters, and the state of the
  service after it.
\<close>

section \<open>JSON values\<close>

definition truthy :: "pyval \<Rightarrow> bool" where
  "truthy v = (case v of PNone \<Rightarrow> False | PBool b \<Rightarrow> b | PInt n \<Rightarrow> n \<noteq> 0
     | PFloat f \<Rightarrow> (case f of Ratio s n k \<Rightarrow> n \<noteq> 0 | _ \<Rightarrow> True)
     | PDec d \<Rightarrow> (case d of Finite s c e \<Rightarrow> c \<noteq> 0 | _ \<Rightarrow> True)
     | PStr s \<Rightarrow> s \<noteq> [] | PUni s \<Rightarrow> s \<noteq> [] | PBinary s \<Rightarrow> True
     | PSet xs \<Rightarrow> xs \<noteq> [] | PMap fs \<Rightarrow> fs \<noteq> [] | PList xs \<Rightarrow> xs \<noteq> [] | PTuple xs \<Rightarrow> xs \<noteq> [])"

definition len_of :: "pyval \<Rightarrow> nat res" where
  "len_of v = (case v of PStr s \<Rightarrow> Inr (length s) | PUni s \<Rightarrow> Inr (length (text_chars s)) | PSet xs \<Rightarrow> Inr (length xs)
     | PMap fs \<Rightarrow> Inr (length fs) | PList xs \<Rightarrow> Inr (length xs) | PTuple xs \<Rightarrow> Inr (length xs) | _ \<Rightarrow> Inl TypeError)"

definition subscript :: "pyval \<Rightarrow> string \<Rightarrow> pyval res" where
  "subscript v k = (case v of PMap fs \<Rightarrow> (case map_of fs k of Some x \<Rightarrow> Inr x | None \<Rightarrow> Inl KeyError) | _ \<Rightarrow> Inl TypeError)"

definition dict_get :: "pyval \<Rightarrow> string \<Rightarrow> pyval \<Rightarrow> pyval res" where
  "dict_get v k d = (case v of PMap fs \<Rightarrow> Inr (case map_of fs k of Some x \<Rightarrow> x | None \<Rightarrow> d) | _ \<Rightarrow> Inl AttributeError)"

definition dict_items :: "pyval \<Rightarrow> (string, pyval) dict res" where
  "dict_items v = (case v of PMap fs \<Rightarrow> Inr fs | _ \<Rightarrow> Inl AttributeError)"

text \<open>A name in a response is a text.\<close>

definition name_of :: "pyval \<Rightarrow> string res" where
  "name_of v = (case v of PUni s \<Rightarrow> Inr s | PStr s \<Rightarrow> Inr s | _ \<Rightarrow> Inl TypeError)"

definition int_of :: "pyval \<Rightarrow> int res" where
  "int_of v = (case v of PInt n \<Rightarrow> Inr n | PBool b \<Rightarrow> Inr (if b then 1 else 0) | PStr s \<Rightarrow> py_int s | PUni s \<Rightarrow> py_int s
     | PFloat f \<Rightarrow> (case f of Ratio s n k \<Rightarrow> Inr (if s then - int (n div 2 ^ k) else int (n div 2 ^ k)) | _ \<Rightarrow> Inl ValueError)
     | _ \<Rightarrow> Inl TypeError)"

section \<open>Requests\<close>

text \<open>\<open>make_request\<close>: an action with its parameters.\<close>

type_synonym 'w ddb_service = "string \<Rightarrow> (string, pyval) dict \<Rightarrow> ('w, pyval) py"

text \<open>An optional argument is in the request when it is not \<open>None\<close>; \<open>names\<close> pairs arguments with parameters, in their order.\<close>

definition optional :: "(string, pyval) dict \<Rightarrow> (string \<times> string) list \<Rightarrow> (string, pyval) dict" where
  "optional kwargs names = concat (map (\<lambda>(a, p). case map_of kwargs a of None \<Rightarrow> [] | Some v \<Rightarrow> if v = PNone then [] else [(p, v)]) names)"

definition layer1_put_item :: "'w ddb_service \<Rightarrow> string \<Rightarrow> pyval \<Rightarrow> (string, pyval) dict \<Rightarrow> ('w, pyval) py" where
  "layer1_put_item S table_name item kwargs =
     S ''PutItem'' ([(''TableName'', PStr table_name), (''Item'', item)] @ optional kwargs
       [(''expected'', ''Expected''), (''return_values'', ''ReturnValues''), (''return_consumed_capacity'', ''ReturnConsumedCapacity''),
        (''return_item_collection_metrics'', ''ReturnItemCollectionMetrics''), (''conditional_operator'', ''ConditionalOperator''),
        (''condition_expression'', ''ConditionExpression''), (''expression_attribute_names'', ''ExpressionAttributeNames''),
        (''expression_attribute_values'', ''ExpressionAttributeValues'')])"

definition layer1_update_item :: "'w ddb_service \<Rightarrow> string \<Rightarrow> pyval \<Rightarrow> (string, pyval) dict \<Rightarrow> ('w, pyval) py" where
  "layer1_update_item S table_name key kwargs =
     S ''UpdateItem'' ([(''TableName'', PStr table_name), (''Key'', key)] @ optional kwargs
       [(''attribute_updates'', ''AttributeUpdates''), (''expected'', ''Expected''), (''conditional_operator'', ''ConditionalOperator''),
        (''return_values'', ''ReturnValues''), (''return_consumed_capacity'', ''ReturnConsumedCapacity''),
        (''return_item_collection_metrics'', ''ReturnItemCollectionMetrics''), (''update_expression'', ''UpdateExpression''),
        (''condition_expression'', ''ConditionExpression''), (''expression_attribute_names'', ''ExpressionAttributeNames''),
        (''expression_attribute_values'', ''ExpressionAttributeValues'')])"

definition layer1_get_item :: "'w ddb_service \<Rightarrow> string \<Rightarrow> pyval \<Rightarrow> (string, pyval) dict \<Rightarrow> ('w, pyval) py" where
  "layer1_get_item S table_name key kwargs =
     S ''GetItem'' ([(''TableName'', PStr table_name), (''Key'', key)] @ optional kwargs
       [(''attributes_to_get'', ''AttributesToGet''), (''consistent_read'', ''ConsistentRead''), (''return_consumed_capacity'', ''ReturnConsumedCapacity''),
        (''projection_expression'', ''ProjectionExpression''), (''expression_attribute_names'', ''ExpressionAttributeNames'')])"

definition layer1_delete_item :: "'w ddb_service \<Rightarrow> string \<Rightarrow> pyval \<Rightarrow> (string, pyval) dict \<Rightarrow> ('w, pyval) py" where
  "layer1_delete_item S table_name key kwargs =
     S ''DeleteItem'' ([(''TableName'', PStr table_name), (''Key'', key)] @ optional kwargs
       [(''expected'', ''Expected''), (''conditional_operator'', ''ConditionalOperator''), (''return_values'', ''ReturnValues''),
        (''return_consumed_capacity'', ''ReturnConsumedCapacity''), (''return_item_collection_metrics'', ''ReturnItemCollectionMetrics''),
        (''condition_expression'', ''ConditionExpression''), (''expression_attribute_names'', ''ExpressionAttributeNames''),
        (''expression_attribute_values'', ''ExpressionAttributeValues'')])"

definition layer1_batch_write_item :: "'w ddb_service \<Rightarrow> pyval \<Rightarrow> (string, pyval) dict \<Rightarrow> ('w, pyval) py" where
  "layer1_batch_write_item S request_items kwargs =
     S ''BatchWriteItem'' ([(''RequestItems'', request_items)] @ optional kwargs
       [(''return_consumed_capacity'', ''ReturnConsumedCapacity''), (''return_item_collection_metrics'', ''ReturnItemCollectionMetrics'')])"

definition layer1_batch_get_item :: "'w ddb_service \<Rightarrow> pyval \<Rightarrow> (string, pyval) dict \<Rightarrow> ('w, pyval) py" where
  "layer1_batch_get_item S request_items kwargs =
     S ''BatchGetItem'' ([(''RequestItems'', request_items)] @ optional kwargs [(''return_consumed_capacity'', ''ReturnConsumedCapacity'')])"

definition layer1_describe_table :: "'w ddb_service \<Rightarrow> string \<Rightarrow> ('w, pyval) py" where
  "layer1_describe_table S table_name = S ''DescribeTable'' [(''TableName'', PStr table_name)]"

section \<open>Tables\<close>

datatype schema_field = HashKey string string | RangeKey string string

primrec field_name :: "schema_field \<Rightarrow> string" where
  "field_name (HashKey n t) = n"
| "field_name (RangeKey n t) = n"

text \<open>An index by its projection: \<open>ALL\<close>, \<open>KEYS_ONLY\<close> or \<open>INCLUDE\<close> with the attributes included.\<close>

record ddb_index =
  ix_projection :: string
  ix_name :: string
  ix_parts :: "schema_field list"
  ix_includes :: pyval

text \<open>\<open>None\<close> and the empty list are both an empty schema, or no indexes.  The dynamizer is told by its use of booleans.\<close>

record ddb_table =
  tb_name :: string
  tb_boolean :: bool
  tb_schema :: "schema_field list"
  tb_indexes :: "ddb_index list"
  tb_global :: "ddb_index list"
  tb_read :: int
  tb_write :: int

definition table_init :: "string \<Rightarrow> schema_field list \<Rightarrow> (int \<times> int) option \<Rightarrow> ddb_index list \<Rightarrow> ddb_index list \<Rightarrow> ddb_table" where
  "table_init name schema throughput indexes global_indexes =
     (let (r, w) = (case throughput of None \<Rightarrow> (5, 5) | Some t \<Rightarrow> t)
      in \<lparr>tb_name = name, tb_boolean = False, tb_schema = schema, tb_indexes = indexes, tb_global = global_indexes, tb_read = r, tb_write = w\<rparr>)"

definition use_boolean :: "ddb_table \<Rightarrow> ddb_table" where
  "use_boolean t = t\<lparr>tb_boolean := True\<rparr>"

text \<open>The table object and the service.\<close>

record 'w ddb =
  db_table :: ddb_table
  db_world :: 'w

type_synonym ('w, 'z, 'a) ddb_py = "(('w, 'z) ddb_scheme, 'a) py"

definition on_service :: "('w, 'a) py \<Rightarrow> ('w, 'z, 'a) ddb_py" where
  "on_service f s = (case f (db_world s) of (r, w) \<Rightarrow> (r, s\<lparr>db_world := w\<rparr>))"

definition set_table :: "(ddb_table \<Rightarrow> ddb_table) \<Rightarrow> ('w, 'z, unit) ddb_py" where
  "set_table f s = (Inr (), s\<lparr>db_table := f (db_table s)\<rparr>)"

definition with_table :: "(ddb_table \<Rightarrow> ('w, 'z, 'a) ddb_py) \<Rightarrow> ('w, 'z, 'a) ddb_py" where
  "with_table f s = f (db_table s) s"

section \<open>The description of a table\<close>

definition attribute_type :: "pyval \<Rightarrow> (string \<times> string) res" where
  "attribute_type field =
     res_bind (subscript field ''AttributeName'') (\<lambda>n. res_bind (subscript field ''AttributeType'') (\<lambda>t.
       res_bind (name_of n) (\<lambda>n. res_bind (name_of t) (\<lambda>t. Inr (n, t)))))"

definition schema_part :: "(string, string) dict \<Rightarrow> pyval \<Rightarrow> schema_field res" where
  "schema_part sane_attributes field =
     res_bind (res_bind (subscript field ''AttributeName'') name_of) (\<lambda>n.
       res_bind (res_bind (subscript field ''KeyType'') name_of) (\<lambda>k.
         let data_type = (case map_of sane_attributes n of Some t \<Rightarrow> t | None \<Rightarrow> ''S'')
         in if k = ''HASH'' then Inr (HashKey n data_type)
            else if k = ''RANGE'' then Inr (RangeKey n data_type)
            else Inl (Boto_Error ''UnknownSchemaFieldError'')))"

definition introspect_schema :: "pyval \<Rightarrow> pyval \<Rightarrow> schema_field list res" where
  "introspect_schema raw_schema raw_attributes =
     res_bind (if truthy raw_attributes then res_bind (iterate raw_attributes) (res_map attribute_type) else Inr []) (\<lambda>ats.
       res_bind (iterate raw_schema) (res_map (schema_part (fold (\<lambda>(k, v). AList.update k v) ats []))))"

definition introspect_index :: "pyval \<Rightarrow> ddb_index res" where
  "introspect_index field =
     res_bind (subscript field ''Projection'') (\<lambda>p.
       res_bind (res_bind (subscript p ''ProjectionType'') name_of) (\<lambda>t.
         res_bind (if t \<in> {''ALL'', ''KEYS_ONLY''} then Inr PNone
                   else if t = ''INCLUDE'' then subscript p ''NonKeyAttributes''
                   else Inl (Boto_Error ''UnknownIndexFieldError'')) (\<lambda>includes.
           res_bind (res_bind (subscript field ''IndexName'') name_of) (\<lambda>n.
             res_bind (res_bind (subscript field ''KeySchema'') (\<lambda>s. introspect_schema s PNone)) (\<lambda>parts.
               Inr \<lparr>ix_projection = t, ix_name = n, ix_parts = parts, ix_includes = includes\<rparr>)))))"

definition introspect_indexes :: "pyval \<Rightarrow> ddb_index list res" where
  "introspect_indexes raw = res_bind (iterate raw) (res_map introspect_index)"

definition describe :: "'w ddb_service \<Rightarrow> ('w, 'z, pyval) ddb_py" where
  "describe S =
     with_table (\<lambda>t.
     py_bind (on_service (layer1_describe_table S (tb_name t))) (\<lambda>result.
     py_bind (py_lift (subscript result ''Table'')) (\<lambda>r.
     py_bind (py_lift (subscript r ''ProvisionedThroughput'')) (\<lambda>raw.
     py_bind (py_lift (res_bind (subscript raw ''ReadCapacityUnits'') int_of)) (\<lambda>n.
     py_bind (set_table (\<lambda>t. t\<lparr>tb_read := n\<rparr>)) (\<lambda>_.
     py_bind (py_lift (res_bind (subscript raw ''WriteCapacityUnits'') int_of)) (\<lambda>n.
     py_bind (set_table (\<lambda>t. t\<lparr>tb_write := n\<rparr>)) (\<lambda>_.
     py_bind (if tb_schema t = []
              then py_bind (py_lift (res_bind (dict_get r ''KeySchema'' (PList [])) (\<lambda>s.
                       res_bind (dict_get r ''AttributeDefinitions'' (PList [])) (introspect_schema s))))
                     (\<lambda>schema. set_table (\<lambda>t. t\<lparr>tb_schema := schema\<rparr>))
              else py_ret ()) (\<lambda>_.
     py_bind (if tb_indexes t = []
              then py_bind (py_lift (res_bind (dict_get r ''LocalSecondaryIndexes'' (PList [])) introspect_indexes))
                     (\<lambda>ixs. set_table (\<lambda>t. t\<lparr>tb_indexes := ixs\<rparr>))
              else py_ret ()) (\<lambda>_.
     py_bind (py_lift (res_bind (dict_get r ''GlobalSecondaryIndexes'' (PList [])) introspect_indexes)) (\<lambda>ixs.
     py_bind (set_table (\<lambda>t. t\<lparr>tb_global := ixs\<rparr>)) (\<lambda>_. py_ret result))))))))))))"

definition get_key_fields :: "'w ddb_service \<Rightarrow> ('w, 'z, string list) ddb_py" where
  "get_key_fields S =
     py_bind (with_table (\<lambda>t. if tb_schema t = [] then py_bind (describe S) (\<lambda>_. py_ret ()) else py_ret ()))
       (\<lambda>_. with_table (\<lambda>t. py_ret (map field_name (tb_schema t))))"

definition count :: "'w ddb_service \<Rightarrow> ('w, 'z, pyval) ddb_py" where
  "count S = py_bind (describe S) (\<lambda>info. py_lift (res_bind (subscript info ''Table'') (\<lambda>t. dict_get t ''ItemCount'' (PInt 0))))"

section \<open>Keys, filters and single writes\<close>

definition encode_keys :: "bool \<Rightarrow> (string, pyval) dict \<Rightarrow> pyval res" where
  "encode_keys ub keys = res_bind (res_map (\<lambda>(k, v). res_bind (encode ub v) (\<lambda>r. Inr (k, r))) keys) (\<lambda>fs. Inr (PMap fs))"

definition decode_keys :: "(string, pyval) dict \<Rightarrow> (string, pyval) dict res" where
  "decode_keys = res_map (\<lambda>(k, r). res_bind (decode r) (\<lambda>v. Inr (k, v)))"

fun split_dunder :: "string \<Rightarrow> string list" where
  "split_dunder [] = [[]]"
| "split_dunder [c] = [[c]]"
| "split_dunder (c # d # s) =
     (if c = CHR ''_'' \<and> d = CHR ''_'' then [] # split_dunder s
      else case split_dunder (d # s) of x # xs \<Rightarrow> (c # x) # xs | [] \<Rightarrow> [[c]])"

definition query_operators :: "(string \<times> string) list" where
  "query_operators = [(''eq'', ''EQ''), (''lte'', ''LE''), (''lt'', ''LT''), (''gte'', ''GE''), (''gt'', ''GT''),
     (''beginswith'', ''BEGINS_WITH''), (''between'', ''BETWEEN'')]"

definition filter_operators :: "(string \<times> string) list" where
  "filter_operators = [(''eq'', ''EQ''), (''ne'', ''NE''), (''lte'', ''LE''), (''lt'', ''LT''), (''gte'', ''GE''), (''gt'', ''GT''),
     (''nnull'', ''NOT_NULL''), (''null'', ''NULL''), (''contains'', ''CONTAINS''), (''ncontains'', ''NOT_CONTAINS''),
     (''beginswith'', ''BEGINS_WITH''), (''in'', ''IN''), (''between'', ''BETWEEN'')]"

text \<open>The values a filter compares with; \<open>null\<close> has none.\<close>

definition filter_values :: "bool \<Rightarrow> string \<Rightarrow> pyval \<Rightarrow> pyval list res" where
  "filter_values ub op v =
     (if op = ''between'' then
        res_bind (len_of v) (\<lambda>n.
          if n = 2 then (case v of PList xs \<Rightarrow> res_map (encode ub) xs | PTuple xs \<Rightarrow> res_map (encode ub) xs | _ \<Rightarrow> Inr []) else Inr [])
      else if op = ''in'' then res_bind (iterate v) (res_map (encode ub))
      else res_bind (case v of PList xs \<Rightarrow> py_set xs | PTuple xs \<Rightarrow> py_set xs | _ \<Rightarrow> Inr v) (\<lambda>v. res_bind (encode ub v) (\<lambda>r. Inr [r])))"

definition build_filter :: "bool \<Rightarrow> (string \<times> string) list \<Rightarrow> string \<Rightarrow> pyval \<Rightarrow> (string \<times> pyval) res" where
  "build_filter ub operators field_and_op v =
     (let bits = split_dunder field_and_op; fieldname = str_join ''__'' (butlast bits); op = last bits
      in case map_of operators op of
           None \<Rightarrow> Inl (Boto_Error ''UnknownFilterTypeError'')
         | Some c \<Rightarrow>
             if op = ''null'' then Inr (fieldname, PMap [(''ComparisonOperator'', PStr (if v = PBool False then ''NOT_NULL'' else ''NULL''))])
             else res_bind (filter_values ub op v) (\<lambda>rs.
               Inr (fieldname, PMap [(''AttributeValueList'', PList rs), (''ComparisonOperator'', PStr c)])))"

definition build_filters :: "bool \<Rightarrow> (string \<times> string) list \<Rightarrow> (string, pyval) dict option \<Rightarrow> pyval res" where
  "build_filters ub operators filter_kwargs =
     (case filter_kwargs of
        None \<Rightarrow> Inr PNone
      | Some kw \<Rightarrow> res_bind (res_map (\<lambda>(k, v). build_filter ub operators k v) kw) (\<lambda>fs. Inr (PMap (fold (\<lambda>(f, l). AList.update f l) fs []))))"

definition table_put :: "'w ddb_service \<Rightarrow> (string, pyval) dict \<Rightarrow> pyval \<Rightarrow> ('w, 'z, bool) ddb_py" where
  "table_put S item_data expects =
     with_table (\<lambda>t. py_bind (on_service (layer1_put_item S (tb_name t) (PMap item_data) [(''expected'', expects)])) (\<lambda>_. py_ret True))"

definition table_update :: "'w ddb_service \<Rightarrow> (string, pyval) dict \<Rightarrow> (string, pyval) dict \<Rightarrow> pyval \<Rightarrow> ('w, 'z, bool) ddb_py" where
  "table_update S key item_data expects =
     with_table (\<lambda>t.
       py_bind (py_lift (encode_keys (tb_boolean t) key)) (\<lambda>raw_key.
       py_bind (on_service (layer1_update_item S (tb_name t) raw_key [(''attribute_updates'', PMap item_data), (''expected'', expects)]))
         (\<lambda>_. py_ret True)))"

definition conditional_failed :: py_exc where
  "conditional_failed = Boto_Error ''ConditionalCheckFailedException''"

definition table_delete_item ::
  "'w ddb_service \<Rightarrow> (string, pyval) dict option \<Rightarrow> pyval \<Rightarrow> (string, pyval) dict \<Rightarrow> ('w, 'z, bool) ddb_py" where
  "table_delete_item S expected conditional_operator key =
     with_table (\<lambda>t.
       py_bind (py_lift (build_filters (tb_boolean t) filter_operators expected)) (\<lambda>expected.
       py_bind (py_lift (encode_keys (tb_boolean t) key)) (\<lambda>raw_key s.
         case on_service (layer1_delete_item S (tb_name t) raw_key [(''expected'', expected), (''conditional_operator'', conditional_operator)]) s of
           (Inl e, s) \<Rightarrow> if e = conditional_failed then (Inr False, s) else (Inl e, s)
         | (Inr _, s) \<Rightarrow> (Inr True, s))))"

end
