(* ===== verification/DDB_Items.thy ===== *)
theory DDB_Items
  imports DDB_Table
begin

text \<open>
  Items of DynamoDB tables, \<^verbatim>\<open>boto/dynamodb2/items.py\<close>, and the operations of \<^verbatim>\<open>table.py\<close> on single items.

  An item keeps its data and the data as it was when loaded or last saved; saving sends all data or only what has changed,
  with the expectation that nobody else has changed the item.
\<close>

section \<open>Items\<close>

record item =
  it_data :: "(string, pyval) dict"
  it_orig :: "(string, pyval) dict"
  it_loaded :: bool

definition item_init :: "(string, pyval) dict option \<Rightarrow> bool \<Rightarrow> item" where
  "item_init data loaded =
     (let d = (case data of None \<Rightarrow> [] | Some d \<Rightarrow> d) in \<lparr>it_data = d, it_orig = (if loaded then d else []), it_loaded = loaded\<rparr>)"

definition item_get :: "item \<Rightarrow> string \<Rightarrow> pyval" where
  "item_get i k = (case map_of (it_data i) k of None \<Rightarrow> PNone | Some v \<Rightarrow> v)"

definition item_set :: "string \<Rightarrow> pyval \<Rightarrow> item \<Rightarrow> item" where
  "item_set k v i = i\<lparr>it_data := AList.update k v (it_data i)\<rparr>"

definition item_del :: "string \<Rightarrow> item \<Rightarrow> item" where
  "item_del k i = (if map_of (it_data i) k = None then i else i\<lparr>it_data := AList.delete k (it_data i)\<rparr>)"

text \<open>\<open>None\<close> and what is empty cannot be stored; zero and \<open>False\<close> can.\<close>

definition is_storable :: "pyval \<Rightarrow> bool" where
  "is_storable v = (if \<not> truthy v then list_ex (py_eq v) [PInt 0, PFloat (Ratio False 0 0), PBool False] else True)"

record alterations =
  al_adds :: "(string, pyval) dict"
  al_changes :: "(string, pyval) dict"
  al_deletes :: "string list"

definition changed_in :: "(string, pyval) dict \<Rightarrow> string \<times> pyval \<Rightarrow> bool" where
  "changed_in d = (\<lambda>(k, v). case map_of d k of None \<Rightarrow> False | Some w \<Rightarrow> \<not> py_eq v w)"

definition determine_alterations :: "item \<Rightarrow> alterations" where
  "determine_alterations i =
     \<lparr>al_adds = filter (\<lambda>(k, v). map_of (it_orig i) k = None \<and> is_storable v) (it_data i),
      al_changes = filter (\<lambda>(k, v). changed_in (it_orig i) (k, v) \<and> is_storable v) (it_data i),
      al_deletes = map fst (filter (\<lambda>(k, v). changed_in (it_orig i) (k, v) \<and> \<not> is_storable v) (it_data i))
        @ map fst (filter (\<lambda>(k, v). map_of (it_data i) k = None) (it_orig i))\<rparr>"

definition needs_save :: "item \<Rightarrow> bool" where
  "needs_save i = (let a = determine_alterations i in al_adds a \<noteq> [] \<or> al_changes a \<noteq> [] \<or> al_deletes a \<noteq> [])"

definition mark_clean :: "item \<Rightarrow> item" where
  "mark_clean i = i\<lparr>it_orig := it_data i\<rparr>"

text \<open>\<open>load\<close>: the values of the answer are decoded into the data.\<close>

definition item_load :: "pyval \<Rightarrow> item res" where
  "item_load answer =
     res_bind (res_bind (dict_get answer ''Item'' (PMap [])) dict_items) (\<lambda>fs.
       res_bind (decode_keys fs) (\<lambda>d. Inr \<lparr>it_data = d, it_orig = d, it_loaded = True\<rparr>))"

text \<open>The expectation about one field, as the service is told it.\<close>

definition expectation :: "bool \<Rightarrow> item \<Rightarrow> string \<Rightarrow> pyval res" where
  "expectation ub i k =
     (let orig = map_of (it_orig i) k; current = map_of (it_data i) k;
          (there, value) = (case (orig, current) of
              (Some v, Some w) \<Rightarrow> if py_eq v w then (True, w) else (True, v)
            | (None, Some w) \<Rightarrow> (False, PNone)
            | (Some v, None) \<Rightarrow> (True, v)
            | (None, None) \<Rightarrow> (True, PNone))
      in if orig = None \<and> current = None then Inl ValueError
         else if value = PNone then Inr (PMap [(''Exists'', PBool there)])
         else res_bind (encode ub value) (\<lambda>r. Inr (PMap [(''Exists'', PBool there), (''Value'', r)])))"

definition build_expects :: "bool \<Rightarrow> item \<Rightarrow> string list option \<Rightarrow> (string, pyval) dict res" where
  "build_expects ub i names =
     (let names = (case names of None \<Rightarrow> map fst (it_data i) @ map fst (it_orig i) | Some ns \<Rightarrow> ns)
      in res_map (\<lambda>k. res_bind (expectation ub i k) (\<lambda>e. Inr (k, e))) (remdups names))"

definition prepare_full :: "bool \<Rightarrow> item \<Rightarrow> (string, pyval) dict res" where
  "prepare_full ub i = res_map (\<lambda>(k, v). res_bind (encode ub v) (\<lambda>r. Inr (k, r))) (filter (is_storable \<circ> snd) (it_data i))"

definition put_action :: "bool \<Rightarrow> string \<times> pyval \<Rightarrow> (string \<times> pyval) res" where
  "put_action ub = (\<lambda>(k, v). res_bind (encode ub v) (\<lambda>r. Inr (k, PMap [(''Action'', PStr ''PUT''), (''Value'', r)])))"

definition delete_action :: "string \<Rightarrow> string \<times> pyval" where
  "delete_action k = (k, PMap [(''Action'', PStr ''DELETE'')])"

definition prepare_partial :: "bool \<Rightarrow> item \<Rightarrow> ((string, pyval) dict \<times> string list) res" where
  "prepare_partial ub i =
     (let a = determine_alterations i
      in res_bind (res_map (put_action ub) (al_adds a @ al_changes a)) (\<lambda>puts.
           let final_data = puts @ map delete_action (al_deletes a) in Inr (final_data, map fst final_data)))"

section \<open>Saving\<close>

text \<open>The state of an item's method: the table, the service and the item.\<close>

record 'w item_ddb = "'w ddb" +
  db_item :: item

type_synonym ('w, 'z, 'a) item_py = "('w, 'z item_ddb_ext, 'a) ddb_py"

definition with_item :: "(bool \<Rightarrow> item \<Rightarrow> (('w, 'z) item_ddb_scheme, 'a) py) \<Rightarrow> (('w, 'z) item_ddb_scheme, 'a) py" where
  "with_item f s = f (tb_boolean (db_table s)) (db_item s) s"

definition clean_item :: "(('w, 'z) item_ddb_scheme, unit) py" where
  "clean_item s = (Inr (), s\<lparr>db_item := mark_clean (db_item s)\<rparr>)"

definition get_keys :: "'w ddb_service \<Rightarrow> (('w, 'z) item_ddb_scheme, (string, pyval) dict) py" where
  "get_keys S = py_bind (get_key_fields S) (\<lambda>key_fields. with_item (\<lambda>ub i.
     py_ret (fold (\<lambda>k. AList.update k (item_get i k)) key_fields [])))"

definition get_raw_keys :: "'w ddb_service \<Rightarrow> (('w, 'z) item_ddb_scheme, pyval) py" where
  "get_raw_keys S = py_bind (get_keys S) (\<lambda>keys. with_item (\<lambda>ub i. py_lift (encode_keys ub keys)))"

definition partial_save :: "'w ddb_service \<Rightarrow> (('w, 'z) item_ddb_scheme, bool) py" where
  "partial_save S =
     py_bind (get_keys S) (\<lambda>key.
     with_item (\<lambda>ub i.
     py_bind (py_lift (prepare_partial ub i)) (\<lambda>(final_data, names).
       if final_data = [] then py_ret False
       else let final_data = filter (\<lambda>(k, u). k \<notin> fst ` set key) final_data;
                names = filter (\<lambda>k. k \<notin> fst ` set key) names
            in py_bind (py_lift (build_expects ub i (Some names))) (\<lambda>expects.
               py_bind (table_update S key final_data (PMap expects)) (\<lambda>returned.
               py_bind clean_item (\<lambda>_. py_ret returned))))))"

definition save :: "'w ddb_service \<Rightarrow> bool \<Rightarrow> (('w, 'z) item_ddb_scheme, bool) py" where
  "save S overwrite =
     with_item (\<lambda>ub i.
       if \<not> needs_save i \<and> \<not> overwrite then py_ret False
       else py_bind (py_lift (prepare_full ub i)) (\<lambda>final_data.
            py_bind (if \<not> overwrite then py_bind (py_lift (build_expects ub i None)) (\<lambda>e. py_ret (PMap e)) else py_ret PNone) (\<lambda>expects.
            py_bind (table_put S final_data expects) (\<lambda>returned.
            py_bind clean_item (\<lambda>_. py_ret returned)))))"

definition item_delete :: "'w ddb_service \<Rightarrow> (('w, 'z) item_ddb_scheme, bool) py" where
  "item_delete S = py_bind (get_keys S) (\<lambda>key. table_delete_item S None PNone key)"

section \<open>Operations of the table on single items\<close>

definition table_get_item :: "'w ddb_service \<Rightarrow> bool \<Rightarrow> pyval \<Rightarrow> (string, pyval) dict \<Rightarrow> ('w, 'z, item) ddb_py" where
  "table_get_item S consistent attributes key =
     with_table (\<lambda>t.
       py_bind (py_lift (encode_keys (tb_boolean t) key)) (\<lambda>raw_key.
       py_bind (on_service (layer1_get_item S (tb_name t) raw_key [(''attributes_to_get'', attributes), (''consistent_read'', PBool consistent)])) (\<lambda>answer.
       py_lift (res_bind (dict_items answer) (\<lambda>fs.
         if map_of fs ''Item'' = None then Inl (Boto_Error ''ItemNotFound'') else item_load answer)))))"

text \<open>\<open>json_error\<close> tells which exceptions are \<open>JSONResponseError\<close>s.\<close>

definition has_item :: "'w ddb_service \<Rightarrow> (py_exc \<Rightarrow> bool) \<Rightarrow> (string, pyval) dict \<Rightarrow> ('w, 'z, bool) ddb_py" where
  "has_item S json_error key s =
     (case table_get_item S False PNone key s of
        (Inl e, s) \<Rightarrow> if json_error e \<or> e = Boto_Error ''ItemNotFound'' then (Inr False, s) else (Inl e, s)
      | (Inr _, s) \<Rightarrow> (Inr True, s))"

text \<open>Positional arguments are paired with the fields of the schema.\<close>

definition by_schema :: "string list \<Rightarrow> pyval list \<Rightarrow> (string, pyval) dict \<Rightarrow> (string, pyval) dict res" where
  "by_schema names args d =
     (if length names < length args then Inl IndexError else Inr (fold (\<lambda>(k, v). AList.update k v) (zip names args) d))"

definition lookup :: "'w ddb_service \<Rightarrow> bool \<Rightarrow> pyval \<Rightarrow> pyval list \<Rightarrow> (string, pyval) dict \<Rightarrow> ('w, 'z, item option) ddb_py" where
  "lookup S consistent attributes args kwargs =
     py_bind (get_key_fields S) (\<lambda>names.
     py_bind (py_lift (by_schema names args kwargs)) (\<lambda>key.
     py_bind (table_get_item S consistent attributes key) (\<lambda>i. py_ret (if it_data i = [] then None else Some i))))"

definition new_item :: "'w ddb_service \<Rightarrow> pyval list \<Rightarrow> ('w, 'z, item) ddb_py" where
  "new_item S args =
     py_bind (get_key_fields S) (\<lambda>names. py_bind (py_lift (by_schema names args [])) (\<lambda>d. py_ret (item_init (Some d) False)))"

text \<open>\<open>Table.put_item\<close> saves a new item.\<close>

definition table_put_item :: "'w ddb_service \<Rightarrow> (string, pyval) dict \<Rightarrow> bool \<Rightarrow> ('w ddb, bool) py" where
  "table_put_item S data overwrite s =
     (case save S overwrite \<lparr>db_table = db_table s, db_world = db_world s, db_item = item_init (Some data) False\<rparr> of
        (r, t) \<Rightarrow> (r, \<lparr>db_table = db_table t, db_world = db_world t\<rparr>))"
section \<open>A table that keeps the documented protocol\<close>

text \<open>
  The items of one table by their keys; \<open>same\<close> compares a stored value with an expected one.  An expectation is that an
  attribute exists with a value, or does not exist.
\<close>

type_synonym ddb_store = "pyval option list \<Rightarrow> (string, pyval) dict option"

definition validation_failed :: py_exc where
  "validation_failed = Boto_Error ''ValidationException''"

definition meets :: "(pyval \<Rightarrow> pyval \<Rightarrow> bool) \<Rightarrow> (string, pyval) dict \<Rightarrow> string \<times> pyval \<Rightarrow> unit res" where
  "meets same d = (\<lambda>(k, e).
     case e of
       PMap [(x, PBool there)] \<Rightarrow> if there then Inl validation_failed else if map_of d k = None then Inr () else Inl conditional_failed
     | PMap [(x, PBool there), (y, v)] \<Rightarrow>
         if \<not> there then Inl validation_failed
         else (case map_of d k of None \<Rightarrow> Inl conditional_failed | Some w \<Rightarrow> if same w v then Inr () else Inl conditional_failed)
     | _ \<Rightarrow> Inl validation_failed)"

definition check_expected :: "(pyval \<Rightarrow> pyval \<Rightarrow> bool) \<Rightarrow> (string, pyval) dict \<Rightarrow> pyval option \<Rightarrow> unit res" where
  "check_expected same d expected =
     (case expected of None \<Rightarrow> Inr ()
      | Some (PMap es) \<Rightarrow> res_bind (res_map (meets same d) es) (\<lambda>_. Inr ())
      | Some _ \<Rightarrow> Inl validation_failed)"

definition apply_update :: "string \<times> pyval \<Rightarrow> (string, pyval) dict \<Rightarrow> (string, pyval) dict" where
  "apply_update = (\<lambda>(k, u) d.
     case u of PMap [(x, PStr a), (y, v)] \<Rightarrow> if a = ''PUT'' then AList.update k v d else d
     | PMap [(x, PStr a)] \<Rightarrow> if a = ''DELETE'' then AList.delete k d else d
     | _ \<Rightarrow> d)"

definition fields_of :: "pyval option \<Rightarrow> (string, pyval) dict" where
  "fields_of v = (case v of Some (PMap fs) \<Rightarrow> fs | _ \<Rightarrow> [])"

definition stored_at :: "ddb_store \<Rightarrow> pyval option list \<Rightarrow> (string, pyval) dict" where
  "stored_at st key = (case st key of None \<Rightarrow> [] | Some d \<Rightarrow> d)"

definition ddb_protocol :: "(pyval \<Rightarrow> pyval \<Rightarrow> bool) \<Rightarrow> string list \<Rightarrow> ddb_store ddb_service" where
  "ddb_protocol same names action params st =
     (let given = (if action = ''PutItem'' then ''Item'' else ''Key''); attributes = fields_of (map_of params given);
          key = map (map_of attributes) names; old = stored_at st key
      in if action = ''GetItem'' then (Inr (PMap (case st key of None \<Rightarrow> [] | Some d \<Rightarrow> [(''Item'', PMap d)])), st)
         else case check_expected same old (map_of params ''Expected'') of
                Inl e \<Rightarrow> (Inl e, st)
              | Inr _ \<Rightarrow>
                  if action = ''PutItem'' then (Inr (PMap []), st(key \<mapsto> attributes))
                  else if action = ''UpdateItem''
                  then (Inr (PMap []), st(key \<mapsto> fold apply_update (fields_of (map_of params ''AttributeUpdates'')) (if st key = None then attributes else old)))
                  else if action = ''DeleteItem'' then (Inr (PMap []), st(key := None))
                  else (Inl validation_failed, st))"

section \<open>Lemmas on values and dictionaries\<close>

lemma map_of_res_map:
  assumes "res_map (\<lambda>(k, v). res_bind (f k v) (\<lambda>r. Inr (k, r))) kvs = Inr rs"
  shows "map_of rs k = (case map_of kvs k of None \<Rightarrow> None | Some v \<Rightarrow> (case f k v of Inr r \<Rightarrow> Some r | Inl e \<Rightarrow> None))"
  using assms by (induction kvs arbitrary: rs) (auto simp: res_bind_Inr_iff)

lemma map_of_filter_pred:
  assumes "distinct (map fst d)"
  shows "map_of (filter P d) k = (case map_of d k of None \<Rightarrow> None | Some v \<Rightarrow> if P (k, v) then Some v else None)"
  using assms by (induction d) (auto split: option.splits simp: map_of_eq_None_iff)

lemma res_map_image: "res_map f xs = Inr ys \<Longrightarrow> x \<in> set xs \<Longrightarrow> \<exists>y \<in> set ys. f x = Inr y"
  by (induction xs arbitrary: ys) (auto simp: res_bind_Inr_iff)

lemma res_map_total: "(\<And>x. x \<in> set xs \<Longrightarrow> \<exists>y. f x = Inr y) \<Longrightarrow> \<exists>ys. res_map f xs = Inr ys"
proof (induction xs)
  case (Cons x xs)
  obtain y where "f x = Inr y" using Cons.prems [of x] by auto
  moreover obtain ys where "res_map f xs = Inr ys" using Cons.IH Cons.prems by auto
  ultimately show ?case by simp
qed simp

lemma scalar_eq_number: "encode_n v = Inr s \<Longrightarrow> scalar_eq v v"
  by (erule encode_n_number) (auto simp: scalar_eq_def decimal_value_def number_decimal_def split: pyval.splits)

lemma scalar_eq_other: "\<not> is_num v \<Longrightarrow> v = PNone \<or> is_str v \<or> is_binary v \<Longrightarrow> scalar_eq v v"
  by (auto simp: scalar_eq_def is_num_def is_str_def is_binary_def split: pyval.splits)

lemma py_eq_scalar:
  "v \<notin> range PSet \<union> range PMap \<union> range PList \<union> range PTuple \<Longrightarrow> py_eq v v = scalar_eq v v"
  by (subst py_eq.simps) (auto split: pyval.splits)

lemma py_eq_element:
  assumes "is_num x \<and> (\<exists>s. encode_n x = Inr s) \<or> is_str x \<or> is_binary x"
  shows "py_eq x x"
proof -
  have "x \<notin> range PSet \<union> range PMap \<union> range PList \<union> range PTuple"
    using assms by (auto simp: is_num_def number_decimal_def is_str_def is_binary_def)
  moreover have "scalar_eq x x"
    using assms scalar_eq_number [of x] scalar_eq_other [of x] by (auto simp: is_num_def number_decimal_def is_str_def is_binary_def split: pyval.splits)
  ultimately show ?thesis by (simp add: py_eq_scalar)
qed

lemma py_eq_refl: "encode ub v = Inr r \<Longrightarrow> py_eq v v"
proof (induction v arbitrary: r rule: value_induct)
  case (1 v)
  from "1.prems" obtain t where t: "get_dynamodb_type ub v = Inr t" by (subst (asm) encode.simps) (auto simp: res_bind_Inr_iff)
  consider (map) fs where "v = PMap fs" | (list) xs where "v = PList xs" | (set) xs where "v = PSet xs" | (scalar) "v = PNone \<or> is_num v \<or> is_str v \<or> is_binary v"
    using t by (cases v) (auto simp: get_dynamodb_type_def is_num_def is_str_def is_binary_def number_decimal_def)
  then show ?case
  proof cases
    case map
    then obtain gs where gs: "res_map (\<lambda>(k, x). res_bind (encode ub x) (\<lambda>y. Inr (k, y))) fs = Inr gs"
      using "1.prems" by (subst (asm) encode.simps) (auto simp: res_bind_Inr_iff)
    have "\<exists>y. encode ub x = Inr y" if "(k, x) \<in> set fs" for k x
      using res_map_image [OF gs that] by (auto simp: res_bind_Inr_iff)
    then have "py_eq x x" if "(k, x) \<in> set fs" for k x using that "1.IH"(2) [OF map] by blast
    then show ?thesis unfolding map by (subst py_eq.simps) fastforce
  next
    case list
    then obtain ys where ys: "res_map (encode ub) xs = Inr ys" using "1.prems" by (subst (asm) encode.simps) (auto simp: res_bind_Inr_iff)
    have "\<exists>y. encode ub x = Inr y" if "x \<in> set xs" for x
      using res_map_image [OF ys that] by blast
    then have "py_eq x x" if "x \<in> set xs" for x using that "1.IH"(1) [OF list] by blast
    then show ?thesis unfolding list by (subst py_eq.simps) (auto simp: in_set_zip)
  next
    case set
    have "is_num x \<and> (\<exists>s. encode_n x = Inr s) \<or> is_str x \<or> is_binary x" if x: "x \<in> set xs" for x
    proof -
      have some: "\<exists>s. encode_n x = Inr s" if "res_map encode_n xs = Inr ss" for ss
        using res_map_image [OF that x] by blast
      show ?thesis using t "1.prems" set x some
        by (subst (asm) encode.simps)
           (auto simp: res_bind_Inr_iff get_dynamodb_type_def encode_scalar_def elements_def is_num_def is_str_def number_decimal_def split: if_splits)
    qed
    then have "py_eq x x" if "x \<in> set xs" for x using that py_eq_element by blast
    then show ?thesis unfolding set by (subst py_eq.simps) auto
  next
    case scalar
    have "\<exists>s. encode_n v = Inr s \<or> v = PBool True \<or> v = PBool False" if "is_num v"
      using that t "1.prems" by (subst (asm) encode.simps)
        (auto simp: res_bind_Inr_iff get_dynamodb_type_def encode_scalar_def is_num_def number_decimal_def split: if_splits pyval.splits)
    moreover have "py_eq (PBool b) (PBool b)" "py_eq PNone PNone" for b
      by (subst py_eq.simps, simp add: scalar_eq_def number_decimal_def decimal_value_def decimal_of_int_def)+
    ultimately show ?thesis using scalar py_eq_element [of v] by auto
  qed
qed
lemma fold_update_distinct:
  "distinct ks \<Longrightarrow> fst ` set d \<inter> set ks = {} \<Longrightarrow> fold (\<lambda>k. AList.update k (f k)) ks d = d @ map (\<lambda>k. (k, f k)) ks"
proof (induction ks arbitrary: d)
  case (Cons k ks)
  have "AList.update k (f k) d = d @ [(k, f k)]" using Cons.prems(2) by (intro update_absent) auto
  then show ?case using Cons by auto
qed simp

section \<open>Saving changes or everything\<close>

definition enc :: "bool \<Rightarrow> (string, pyval) dict \<Rightarrow> string \<Rightarrow> pyval option" where
  "enc ub d k = (case map_of d k of None \<Rightarrow> None | Some v \<Rightarrow> (case encode ub v of Inr r \<Rightarrow> Some r | Inl e \<Rightarrow> None))"

text \<open>The schema is known and names fields of the item.\<close>

definition item_ready :: "string list \<Rightarrow> ('w, 'z) item_ddb_scheme \<Rightarrow> bool" where
  "item_ready names s \<longleftrightarrow> names \<noteq> [] \<and> distinct names \<and> map field_name (tb_schema (db_table s)) = names
     \<and> distinct (map fst (it_data (db_item s))) \<and> distinct (map fst (it_orig (db_item s)))
     \<and> (\<forall>n \<in> set names. \<exists>v. map_of (it_data (db_item s)) n = Some v \<and> is_storable v)"

text \<open>
  What the item was loaded as is what the table has; a value that compares equal to the original one is the original one.
\<close>

definition in_step :: "bool \<Rightarrow> item \<Rightarrow> (string, pyval) dict \<Rightarrow> bool" where
  "in_step ub i d \<longleftrightarrow> (\<forall>k. map_of d k = enc ub (it_orig i) k)
     \<and> (\<forall>(k, v) \<in> set (it_orig i). is_storable v \<and> (\<exists>r. encode ub v = Inr r))
     \<and> (\<forall>k v w. map_of (it_orig i) k = Some v \<and> map_of (it_data i) k = Some w \<and> (py_eq v w \<or> py_eq w v) \<longrightarrow> w = v)"

definition kept_by_key :: "string list \<Rightarrow> ddb_store \<Rightarrow> bool" where
  "kept_by_key names st \<longleftrightarrow> (\<forall>key d. st key = Some d \<longrightarrow> map (map_of d) names = key)"

lemma storable_not_None: "is_storable v \<Longrightarrow> v \<noteq> PNone"
  by (auto simp: is_storable_def truthy_def py_eq.simps scalar_eq_def number_decimal_def)

lemma get_keys_ready:
  assumes "item_ready names s"
  shows "get_keys S s = (Inr (map (\<lambda>n. (n, item_get (db_item s) n)) names), s)"
proof -
  have "get_key_fields S s = (Inr names, s)"
    using assms by (auto simp: get_key_fields_def with_table_def py_simps item_ready_def)
  moreover have "fold (\<lambda>k. AList.update k (item_get (db_item s) k)) names [] = map (\<lambda>n. (n, item_get (db_item s) n)) names"
    using assms fold_update_distinct [of names "[]"] by (simp add: item_ready_def)
  ultimately show ?thesis by (simp add: get_keys_def py_simps with_item_def)
qed

lemma prepare_full_lookup:
  assumes "prepare_full ub i = Inr raw" "distinct (map fst (it_data i))"
  shows "map_of raw k = (case map_of (it_data i) k of None \<Rightarrow> None | Some v \<Rightarrow> if is_storable v then enc ub (it_data i) k else None)"
  using map_of_res_map [OF assms(1) [unfolded prepare_full_def], of k] map_of_filter_pred [OF assms(2), of "is_storable \<circ> snd" k]
  by (auto simp: enc_def split: option.splits)

lemma prepare_full_encodes:
  assumes "prepare_full ub i = Inr raw" "map_of (it_data i) k = Some v" "is_storable v"
  shows "\<exists>r. encode ub v = Inr r"
proof -
  have "(k, v) \<in> set (filter (is_storable \<circ> snd) (it_data i))" using assms(2,3) map_of_SomeD by fastforce
  from res_map_image [OF assms(1) [unfolded prepare_full_def] this] show ?thesis by (auto simp: res_bind_Inr_iff)
qed

lemma encode_keys_ready:
  assumes "item_ready names s" "prepare_full ub (db_item s) = Inr raw"
  obtains ks where "encode_keys ub (map (\<lambda>n. (n, item_get (db_item s) n)) names) = Inr (PMap ks)"
    "\<And>k. map_of ks k = (if k \<in> set names then enc ub (it_data (db_item s)) k else None)"
proof -
  let ?kvs = "map (\<lambda>n. (n, item_get (db_item s) n)) names"
  have "\<exists>r. encode ub v = Inr r" if kv: "(k, v) \<in> set ?kvs" for k v
  proof -
    have "\<forall>n \<in> set names. \<exists>v. map_of (it_data (db_item s)) n = Some v \<and> is_storable v" using assms(1) unfolding item_ready_def by blast
    then obtain w where "map_of (it_data (db_item s)) k = Some w" "is_storable w" using kv by auto
    then show ?thesis using kv prepare_full_encodes [OF assms(2)] by (auto simp: item_get_def)
  qed
  then have "\<exists>r. (\<lambda>(k, v). res_bind (encode ub v) (\<lambda>r. Inr (k, r))) kv = Inr r" if "kv \<in> set ?kvs" for kv using that by (cases kv) fastforce
  then have "\<exists>ks. res_map (\<lambda>(k, v). res_bind (encode ub v) (\<lambda>r. Inr (k, r))) ?kvs = Inr ks" by (rule res_map_total)
  then obtain ks where ks: "res_map (\<lambda>(k, v). res_bind (encode ub v) (\<lambda>r. Inr (k, r))) ?kvs = Inr ks" by blast
  have "map_of ?kvs k = (if k \<in> set names then Some (item_get (db_item s) k) else None)" for k by (simp add: map_of_map_restrict)
  then have "map_of ks k = (if k \<in> set names then enc ub (it_data (db_item s)) k else None)" for k
    using map_of_res_map [OF ks, of k] assms(1) by (auto simp: enc_def item_get_def item_ready_def split: option.splits) 
  then show thesis using that ks by (simp add: encode_keys_def)
qed

lemma in_step_orig:
  assumes "in_step ub i d" "map_of (it_orig i) k = Some v"
  obtains r where "encode ub v = Inr r" "map_of d k = Some r" "is_storable v"
  using assms map_of_SomeD [OF assms(2)] by (fastforce simp: in_step_def enc_def)

lemma expectation_met:
  assumes "in_step ub i d" and "k \<in> fst ` set (it_data i) \<union> fst ` set (it_orig i)" and same: "\<forall>r. same r r"
  shows "\<exists>e. expectation ub i k = Inr e \<and> meets same d (k, e) = Inr ()"
proof (cases "map_of (it_orig i) k")
  case None
  then have "map_of (it_data i) k \<noteq> None" using assms(2) by (simp add: map_of_eq_None_iff)
  moreover have "map_of d k = None" using assms(1) None by (simp add: in_step_def enc_def)
  ultimately show ?thesis using None by (auto simp: expectation_def meets_def)
next
  case (Some v)
  obtain r where r: "encode ub v = Inr r" "map_of d k = Some r" "is_storable v" using in_step_orig [OF assms(1) Some] by blast
  have "w = v" if "map_of (it_data i) k = Some w" "py_eq v w" for w using assms(1) Some that by (auto simp: in_step_def)
  then show ?thesis using Some r storable_not_None [OF r(3)] same
    by (auto simp: expectation_def meets_def Let_def split: option.splits)
qed

lemma expectations_met:
  assumes "\<forall>k \<in> set ks. \<exists>e. expectation ub i k = Inr e \<and> meets same d (k, e) = Inr ()"
  shows "\<exists>es us. res_map (\<lambda>k. res_bind (expectation ub i k) (\<lambda>e. Inr (k, e))) ks = Inr es \<and> res_map (meets same d) es = Inr us"
  using assms
proof (induction ks)
  case (Cons k ks)
  then obtain es us where "res_map (\<lambda>k. res_bind (expectation ub i k) (\<lambda>e. Inr (k, e))) ks = Inr es" "res_map (meets same d) es = Inr us" by auto
  moreover obtain e where "expectation ub i k = Inr e" "meets same d (k, e) = Inr ()" using Cons.prems by auto
  ultimately show ?case by simp
qed simp

lemma build_expects_met:
  assumes "in_step ub i d" and "\<forall>r. same r r"
    and "\<forall>k \<in> set ns. k \<in> fst ` set (it_data i) \<union> fst ` set (it_orig i)"
  shows "\<exists>es. build_expects ub i (Some ns) = Inr es \<and> check_expected same d (Some (PMap es)) = Inr ()"
proof -
  have "\<forall>k \<in> set (remdups ns). \<exists>e. expectation ub i k = Inr e \<and> meets same d (k, e) = Inr ()"
    using expectation_met [where same = same, OF assms(1) _ assms(2)] assms(3) by auto
  from expectations_met [OF this] obtain es us where
    "res_map (\<lambda>k. res_bind (expectation ub i k) (\<lambda>e. Inr (k, e))) (remdups ns) = Inr es" "res_map (meets same d) es = Inr us" by blast
  then show ?thesis by (auto simp: build_expects_def check_expected_def)
qed

lemma build_expects_all: "build_expects ub i None = build_expects ub i (Some (map fst (it_data i) @ map fst (it_orig i)))"
  by (simp add: build_expects_def)

lemma protocol_put:
  assumes "check_expected same (stored_at st (map (map_of raw) names)) (if e = PNone then None else Some e) = Inr ()"
  shows "layer1_put_item (ddb_protocol same names) t (PMap raw) [(''expected'', e)] st = (Inr (PMap []), st(map (map_of raw) names \<mapsto> raw))"
  using assms by (simp add: layer1_put_item_def ddb_protocol_def optional_def fields_of_def Let_def split: if_splits)

lemma protocol_update:
  assumes "check_expected same (stored_at st (map (map_of key) names)) (Some (PMap es)) = Inr ()"
  shows "layer1_update_item (ddb_protocol same names) t (PMap key) [(''attribute_updates'', PMap us), (''expected'', PMap es)] st
     = (Inr (PMap []), st(map (map_of key) names \<mapsto> fold apply_update us (if st (map (map_of key) names) = None then key else stored_at st (map (map_of key) names))))"
  using assms by (simp add: layer1_update_item_def ddb_protocol_def optional_def fields_of_def Let_def)

lemma protocol_get:
  "layer1_get_item (ddb_protocol same names) t (PMap key) kwargs st
     = (Inr (PMap (case st (map (map_of key) names) of None \<Rightarrow> [] | Some d \<Rightarrow> [(''Item'', PMap d)])), st)"
  by (simp add: layer1_get_item_def ddb_protocol_def fields_of_def Let_def)

lemma save_puts:
  assumes "prepare_full (tb_boolean (db_table s)) (db_item s) = Inr raw" and "overwrite \<or> needs_save (db_item s)"
    and "\<not> overwrite \<Longrightarrow> in_step (tb_boolean (db_table s)) (db_item s) (stored_at (db_world s) (map (map_of raw) names))"
    and "\<forall>r. same r r"
  shows "save (ddb_protocol same names) overwrite s
     = (Inr True, s\<lparr>db_world := (db_world s)(map (map_of raw) names \<mapsto> raw), db_item := mark_clean (db_item s)\<rparr>)"
proof (cases overwrite)
  case True
  have "layer1_put_item (ddb_protocol same names) t (PMap raw) [(''expected'', PNone)] (db_world s)
      = (Inr (PMap []), (db_world s)(map (map_of raw) names \<mapsto> raw))" for t
    by (rule protocol_put) (simp add: check_expected_def)
  then show ?thesis using True assms(1)
    by (simp add: save_def with_item_def py_simps table_put_def with_table_def on_service_def clean_item_def)
next
  case False
  have "\<exists>es. build_expects (tb_boolean (db_table s)) (db_item s) None = Inr es
      \<and> check_expected same (stored_at (db_world s) (map (map_of raw) names)) (Some (PMap es)) = Inr ()"
    unfolding build_expects_all by (rule build_expects_met [where same = same, OF assms(3) [OF False] assms(4)]) auto
  then obtain es where
    es: "build_expects (tb_boolean (db_table s)) (db_item s) None = Inr es"
        "check_expected same (stored_at (db_world s) (map (map_of raw) names)) (Some (PMap es)) = Inr ()" by blast
  have "layer1_put_item (ddb_protocol same names) t (PMap raw) [(''expected'', PMap es)] (db_world s)
      = (Inr (PMap []), (db_world s)(map (map_of raw) names \<mapsto> raw))" for t
    by (rule protocol_put) (simp add: es)
  then show ?thesis using False assms(1,2) es(1)
    by (simp add: save_def with_item_def py_simps table_put_def with_table_def on_service_def clean_item_def)
qed

text \<open>What a partial update leaves, attribute by attribute.\<close>

lemma apply_update_simps [simp]:
  "apply_update (k, PMap [(x, PStr ''PUT''), (y, v)]) d = AList.update k v d"
  "apply_update (delete_action k) d = AList.delete k d"
  by (simp_all add: apply_update_def delete_action_def)

lemma apply_puts:
  assumes "res_map (put_action ub) kvs = Inr ps" and "\<forall>(k, v) \<in> set kvs. map_of d k = Some v"
  shows "map_of (fold apply_update (filter (\<lambda>(k, u). P k) ps) b) k = (if k \<in> fst ` set kvs \<and> P k then enc ub d k else map_of b k)"
  using assms
proof (induction kvs arbitrary: ps b)
  case (Cons kv kvs)
  obtain x v where kv: "kv = (x, v)" by (cases kv)
  obtain r qs where r: "encode ub v = Inr r" and ps: "ps = (x, PMap [(''Action'', PStr ''PUT''), (''Value'', r)]) # qs"
    and qs: "res_map (put_action ub) kvs = Inr qs" using Cons.prems(1) by (auto simp: kv put_action_def res_bind_Inr_iff)
  have x: "enc ub d x = Some r" using Cons.prems(2) r by (simp add: kv enc_def)
  have IH: "map_of (fold apply_update (filter (\<lambda>(k, u). P k) qs) b) k = (if k \<in> fst ` set kvs \<and> P k then enc ub d k else map_of b k)" for b
    by (rule Cons.IH [OF qs]) (use Cons.prems(2) in auto)
  show ?case using x by (auto simp: ps kv IH update_conv')
qed simp

lemma apply_deletes:
  "map_of (fold apply_update (filter (\<lambda>(k, u). P k) (map delete_action ks)) b) k = (if k \<in> set ks \<and> P k then None else map_of b k)"
proof (induction ks arbitrary: b)
  case (Cons x ks)
  have "filter (\<lambda>(k, u). P k) (map delete_action (x # ks))
      = (if P x then [delete_action x] else []) @ filter (\<lambda>(k, u). P k) (map delete_action ks)"
    by (simp add: delete_action_def)
  then show ?case using Cons.IH by (auto simp: delete_conv')
qed simp

lemma keys_of_filter:
  assumes "distinct (map fst d)"
  shows "k \<in> fst ` set (filter P d) \<longleftrightarrow> (\<exists>v. map_of d k = Some v \<and> P (k, v))"
  using assms by (force simp: image_iff)

lemma put_keys:
  assumes "distinct (map fst (it_data i))"
  shows "k \<in> fst ` set (al_adds (determine_alterations i) @ al_changes (determine_alterations i)) \<longleftrightarrow>
           (\<exists>w. map_of (it_data i) k = Some w \<and> is_storable w \<and> (\<forall>v. map_of (it_orig i) k = Some v \<longrightarrow> \<not> py_eq w v))"
proof -
  have "k \<in> fst ` set (al_adds (determine_alterations i) @ al_changes (determine_alterations i))
      \<longleftrightarrow> (\<exists>w. map_of (it_data i) k = Some w \<and> map_of (it_orig i) k = None \<and> is_storable w)
        \<or> (\<exists>w. map_of (it_data i) k = Some w \<and> changed_in (it_orig i) (k, w) \<and> is_storable w)"
    using keys_of_filter [OF assms, of k] by (simp add: determine_alterations_def image_Un)
  also have "\<dots> \<longleftrightarrow> (\<exists>w. map_of (it_data i) k = Some w \<and> is_storable w \<and> (\<forall>v. map_of (it_orig i) k = Some v \<longrightarrow> \<not> py_eq w v))"
    by (cases "map_of (it_orig i) k") (auto simp: changed_in_def)
  finally show ?thesis .
qed

lemma delete_keys:
  assumes "distinct (map fst (it_data i))" "distinct (map fst (it_orig i))"
  shows "k \<in> set (al_deletes (determine_alterations i)) \<longleftrightarrow>
           (\<exists>v. map_of (it_orig i) k = Some v \<and> (\<forall>w. map_of (it_data i) k = Some w \<longrightarrow> \<not> py_eq w v \<and> \<not> is_storable w))"
proof -
  have "k \<in> set (al_deletes (determine_alterations i))
      \<longleftrightarrow> (\<exists>w. map_of (it_data i) k = Some w \<and> changed_in (it_orig i) (k, w) \<and> \<not> is_storable w)
        \<or> (\<exists>v. map_of (it_orig i) k = Some v \<and> map_of (it_data i) k = None)"
    using keys_of_filter [OF assms(1), of k] keys_of_filter [OF assms(2), of k] by (simp add: determine_alterations_def)
  also have "\<dots> \<longleftrightarrow> (\<exists>v. map_of (it_orig i) k = Some v \<and> (\<forall>w. map_of (it_data i) k = Some w \<longrightarrow> \<not> py_eq w v \<and> \<not> is_storable w))"
    by (cases "map_of (it_orig i) k"; cases "map_of (it_data i) k") (auto simp: changed_in_def)
  finally show ?thesis .
qed

lemma put_action_keys: "res_map (put_action ub) kvs = Inr ps \<Longrightarrow> map fst ps = map fst kvs"
  by (induction kvs arbitrary: ps) (auto simp: put_action_def res_bind_Inr_iff)

lemma raw_key:
  assumes "item_ready names s" "prepare_full ub (db_item s) = Inr raw" "n \<in> set names"
  shows "map_of raw n = enc ub (it_data (db_item s)) n"
proof -
  have "distinct (map fst (it_data (db_item s)))" "\<exists>v. map_of (it_data (db_item s)) n = Some v \<and> is_storable v"
    using assms(1,3) unfolding item_ready_def by blast+
  then show ?thesis using prepare_full_lookup [OF assms(2), of n] by auto
qed

lemma prepare_partial_ready:
  assumes "prepare_full ub i = Inr raw" "distinct (map fst (it_data i))" "needs_save i"
  obtains ps where "prepare_partial ub i
      = Inr (ps @ map delete_action (al_deletes (determine_alterations i)), map fst (ps @ map delete_action (al_deletes (determine_alterations i))))"
    "res_map (put_action ub) (al_adds (determine_alterations i) @ al_changes (determine_alterations i)) = Inr ps"
    "ps @ map delete_action (al_deletes (determine_alterations i)) \<noteq> []"
    "map fst ps = map fst (al_adds (determine_alterations i) @ al_changes (determine_alterations i))"
proof -
  let ?kvs = "al_adds (determine_alterations i) @ al_changes (determine_alterations i)"
  have "\<exists>y. put_action ub kv = Inr y" if kv: "kv \<in> set ?kvs" for kv
  proof -
    obtain k v where [simp]: "kv = (k, v)" by (cases kv)
    have "(k, v) \<in> set (it_data i)" "is_storable v" using kv by (auto simp: determine_alterations_def)
    then have "\<exists>r. encode ub v = Inr r" using prepare_full_encodes [OF assms(1)] assms(2) by simp
    then show ?thesis by (auto simp: put_action_def)
  qed
  then obtain ps where ps: "res_map (put_action ub) ?kvs = Inr ps" using res_map_total by blast
  have names: "map fst ps = map fst ?kvs" by (rule put_action_keys [OF ps])
  have "?kvs \<noteq> [] \<or> al_deletes (determine_alterations i) \<noteq> []" using assms(3) by (auto simp: needs_save_def Let_def)
  then have "ps @ map delete_action (al_deletes (determine_alterations i)) \<noteq> []" using arg_cong [OF names, of length] by auto
  with ps names show thesis by (intro that) (simp_all add: prepare_partial_def Let_def)
qed

lemma partial_lookup:
  assumes ready: "item_ready names s" and raw: "prepare_full ub (db_item s) = Inr raw" and step: "in_step ub (db_item s) d"
    and ps: "res_map (put_action ub) (al_adds (determine_alterations (db_item s)) @ al_changes (determine_alterations (db_item s))) = Inr ps"
    and base: "\<And>k. k \<in> set names \<Longrightarrow> map_of b k = map_of raw k" "\<And>k. k \<notin> set names \<Longrightarrow> map_of b k = map_of d k"
  shows "map_of (fold apply_update (filter (\<lambda>(k, u). k \<notin> set names) (ps @ map delete_action (al_deletes (determine_alterations (db_item s))))) b) k
     = map_of raw k"
proof -
  let ?i = "db_item s" and ?a = "determine_alterations (db_item s)"
  have d: "distinct (map fst (it_data ?i))" "distinct (map fst (it_orig ?i))" using ready by (auto simp: item_ready_def)
  have from_data: "\<forall>(k, v) \<in> set (al_adds ?a @ al_changes ?a). map_of (it_data ?i) k = Some v"
    using d(1) by (auto simp: determine_alterations_def)
  note result = apply_puts [OF ps from_data, of "\<lambda>k. k \<notin> set names" b k]
    apply_deletes [of "\<lambda>k. k \<notin> set names" "al_deletes ?a" "fold apply_update (filter (\<lambda>(k, u). k \<notin> set names) ps) b" k]
  show ?thesis
  proof (cases "k \<in> set names")
    case True
    then show ?thesis using result base(1) by simp
  next
    case False
    have orig: "map_of d k = enc ub (it_orig ?i) k" using step by (simp add: in_step_def)
    have unchanged: "w = v" if "map_of (it_orig ?i) k = Some v" "map_of (it_data ?i) k = Some w" "py_eq w v" for v w
      using step that by (auto simp: in_step_def)
    have storable: "is_storable v" if "map_of (it_orig ?i) k = Some v" for v using in_step_orig [OF step that] by blast
    have "map_of (fold apply_update (filter (\<lambda>(k, u). k \<notin> set names) (ps @ map delete_action (al_deletes ?a))) b) k
        = (if k \<in> set (al_deletes ?a) then None else if k \<in> fst ` set (al_adds ?a @ al_changes ?a) then enc ub (it_data ?i) k else map_of d k)"
      using result False base(2) by simp
    also have "\<dots> = map_of raw k"
      using unchanged storable unfolding put_keys [OF d(1)] delete_keys [OF d] prepare_full_lookup [OF raw d(1)] orig
      by (cases "map_of (it_orig ?i) k"; cases "map_of (it_data ?i) k") (auto simp: enc_def)
    finally show ?thesis .
  qed
qed

text \<open>
  C9: for an item in step with its table, saving only what has changed and saving everything both succeed and leave the
  same attributes with the same values in the table, and the same item.
\<close>

theorem partial_save_equals_save:
  assumes ready: "item_ready names s" and kept: "kept_by_key names (db_world s)"
    and raw: "prepare_full (tb_boolean (db_table s)) (db_item s) = Inr raw"
    and step: "in_step (tb_boolean (db_table s)) (db_item s) (stored_at (db_world s) (map (map_of raw) names))"
    and needs: "needs_save (db_item s)" and same: "\<forall>r. same r r"
  shows "\<exists>d. map_of d = map_of raw
     \<and> partial_save (ddb_protocol same names) s
         = (Inr True, s\<lparr>db_world := (db_world s)(map (map_of raw) names \<mapsto> d), db_item := mark_clean (db_item s)\<rparr>)
     \<and> save (ddb_protocol same names) False s
         = (Inr True, s\<lparr>db_world := (db_world s)(map (map_of raw) names \<mapsto> raw), db_item := mark_clean (db_item s)\<rparr>)"
proof -
  define ub i key dels where "ub = tb_boolean (db_table s)" and "i = db_item s" and "key = map (map_of raw) names"
    and "dels = map delete_action (al_deletes (determine_alterations i))"
  note defs = ub_def [symmetric] i_def [symmetric] key_def [symmetric]
  have dist: "distinct (map fst (it_data i))" "distinct (map fst (it_orig i))" using ready by (auto simp: item_ready_def i_def)
  obtain ps where ps: "prepare_partial ub i = Inr (ps @ dels, map fst (ps @ dels))"
      "res_map (put_action ub) (al_adds (determine_alterations i) @ al_changes (determine_alterations i)) = Inr ps"
      "ps @ dels \<noteq> []" "map fst ps = map fst (al_adds (determine_alterations i) @ al_changes (determine_alterations i))"
    unfolding dels_def by (rule prepare_partial_ready [OF raw [unfolded defs] dist(1) needs [unfolded defs]]) 
  obtain ks where ks: "encode_keys ub (map (\<lambda>n. (n, item_get i n)) names) = Inr (PMap ks)"
      "\<And>k. map_of ks k = (if k \<in> set names then enc ub (it_data i) k else None)"
    unfolding i_def by (rule encode_keys_ready [OF ready raw [folded ub_def]]) (blast intro: that)
  have key: "map (map_of ks) names = key" using ks(2) raw_key [OF ready raw] by (auto simp: key_def ub_def i_def)
  define final where "final = filter (\<lambda>(k, u). k \<notin> set names) (ps @ dels)"
  define ns where "ns = filter (\<lambda>k. k \<notin> set names) (map fst (ps @ dels))"
  define b where "b = (if db_world s key = None then ks else stored_at (db_world s) key)"
  have "k \<in> fst ` set (it_data i) \<union> fst ` set (it_orig i)" if "k \<in> set ns" for k
  proof -
    have "k \<in> set (map fst ps) \<or> k \<in> set (al_deletes (determine_alterations i))"
      using that by (auto simp: ns_def dels_def delete_action_def)
    then show ?thesis unfolding ps(4) by (auto simp: determine_alterations_def)
  qed
  then have "\<exists>es. build_expects ub i (Some ns) = Inr es \<and> check_expected same (stored_at (db_world s) key) (Some (PMap es)) = Inr ()"
    by (intro build_expects_met [where same = same, OF step [unfolded defs] same]) blast
  then obtain es where es: "build_expects ub i (Some ns) = Inr es" "check_expected same (stored_at (db_world s) key) (Some (PMap es)) = Inr ()"
    by blast
  define d where "d = fold apply_update final b"
  have update: "layer1_update_item (ddb_protocol same names) t (PMap ks) [(''attribute_updates'', PMap final), (''expected'', PMap es)] (db_world s)
      = (Inr (PMap []), (db_world s)(key \<mapsto> d))" for t
    using protocol_update [of same "db_world s" ks names es t final] es(2) by (simp add: key b_def d_def)
  have partial: "partial_save (ddb_protocol same names) s
      = (Inr True, s\<lparr>db_world := (db_world s)(key \<mapsto> d), db_item := mark_clean i\<rparr>)"
    using get_keys_ready [OF ready, of "ddb_protocol same names"] ps(1,3) es(1) ks(1) update
    by (simp add: partial_save_def py_simps with_item_def defs table_update_def with_table_def on_service_def clean_item_def
        final_def [symmetric] ns_def [symmetric] Let_def image_image del: filter_append map_append)
  have "map_of d k = map_of raw k" for k
    unfolding d_def final_def dels_def i_def
  proof (rule partial_lookup [OF ready raw step ps(2) [unfolded ub_def i_def]])
    show "map_of b k = map_of raw k" if k: "k \<in> set names" for k
    proof (cases "db_world s key")
      case None
      then show ?thesis using k raw_key [OF ready raw k] by (simp add: b_def ks(2) ub_def i_def)
    next
      case (Some d0)
      then have "map (map_of d0) names = map (map_of raw) names" using kept by (auto simp: kept_by_key_def key_def)
      then show ?thesis using k Some by (simp add: b_def stored_at_def)
    qed
    show "map_of b k = map_of (stored_at (db_world s) (map (map_of raw) names)) k" if "k \<notin> set names" for k
      using that by (auto simp: b_def ks(2) key_def stored_at_def split: option.splits)
  qed
  then have "map_of d = map_of raw" by (rule ext)
  moreover have "save (ddb_protocol same names) False s = (Inr True, s\<lparr>db_world := (db_world s)(key \<mapsto> raw), db_item := mark_clean i\<rparr>)"
    unfolding key_def i_def by (rule save_puts [where same = same, OF raw _ step same]) (use needs in simp_all)
  ultimately show ?thesis using partial unfolding key_def i_def by (intro exI [of _ d]) simp
qed

section \<open>What is saved is loaded\<close>

lemma decode_keys_encoded:
  assumes "res_map (\<lambda>(k, v). res_bind (encode ub v) (\<lambda>r. Inr (k, r))) kvs = Inr rs" "\<forall>(k, v) \<in> set kvs. sets_kept v"
  shows "decode_keys rs = Inr (map (\<lambda>(k, v). (k, canon ub v)) kvs)"
  using assms by (induction kvs arbitrary: rs) (auto simp: decode_keys_def res_bind_Inr_iff decode_encode)

lemma py_eq_zero:
  assumes "is_num v" "\<not> truthy v"
  shows "py_eq v (PInt 0)"
proof -
  have "py_eq v (PInt 0) = scalar_eq v (PInt 0)" by (subst py_eq.simps) (simp split: pyval.splits)
  then show ?thesis using assms
    by (cases v) (auto simp: is_num_def number_decimal_def truthy_def scalar_eq_def decimal_value_def decimal_of_int_def
      split: pyfloat.splits decimal.splits)
qed

lemma unstorable_cases:
  assumes "\<not> is_storable v"
  shows "v \<in> {PNone, PStr [], PUni [], PSet [], PMap [], PList [], PTuple []}"
proof -
  have "\<not> truthy v" "\<not> is_num v" using assms py_eq_zero [of v] by (auto simp: is_storable_def split: if_splits)
  then show ?thesis by (cases v) (auto simp: truthy_def is_num_def number_decimal_def)
qed

lemma unstorable_refl: "\<not> is_storable v \<Longrightarrow> py_eq v v"
  using unstorable_cases [of v] by (subst py_eq.simps) (auto simp: scalar_eq_def)

lemma clean_after_save:
  assumes "prepare_full ub i = Inr raw" "distinct (map fst (it_data i))"
  shows "\<not> needs_save (mark_clean i)"
proof -
  have "py_eq v v \<and> map_of (it_data i) k = Some v" if "(k, v) \<in> set (it_data i)" for k v
  proof -
    have "map_of (it_data i) k = Some v" using that assms(2) by simp
    then show ?thesis using prepare_full_encodes [OF assms(1)] py_eq_refl unstorable_refl by blast
  qed
  then show ?thesis
    by (auto simp: needs_save_def Let_def determine_alterations_def mark_clean_def changed_in_def filter_empty_conv)
qed

text \<open>
  C10: a saved item is clean, and loading it by its keys gives its fields that can be stored, with the values as DynamoDB
  returns them.
\<close>

theorem saved_item_is_loaded:
  assumes "item_ready names s" and "prepare_full (tb_boolean (db_table s)) (db_item s) = Inr raw"
    and "overwrite \<or> needs_save (db_item s)"
    and "overwrite \<or> in_step (tb_boolean (db_table s)) (db_item s) (stored_at (db_world s) (map (map_of raw) names))"
    and "\<forall>(k, v) \<in> set (it_data (db_item s)). sets_kept v" and "\<forall>r. same r r"
  shows "\<exists>t u. save (ddb_protocol same names) overwrite s = (Inr True, t) \<and> \<not> needs_save (db_item t)
     \<and> get_keys (ddb_protocol same names) t = (Inr (map (\<lambda>n. (n, item_get (db_item s) n)) names), t)
     \<and> table_get_item (ddb_protocol same names) consistent PNone (map (\<lambda>n. (n, item_get (db_item s) n)) names) t
         = (Inr (item_init (Some (map (\<lambda>(k, v). (k, canon (tb_boolean (db_table s)) v)) (filter (is_storable \<circ> snd) (it_data (db_item s))))) True), u)"
proof -
  let ?S = "ddb_protocol same names" and ?ub = "tb_boolean (db_table s)" and ?keys = "map (\<lambda>n. (n, item_get (db_item s) n)) names"
  define t where "t = s\<lparr>db_world := (db_world s)(map (map_of raw) names \<mapsto> raw), db_item := mark_clean (db_item s)\<rparr>"
  have saved: "save ?S overwrite s = (Inr True, t)"
    unfolding t_def by (rule save_puts [where same = same, OF assms(2,3) _ assms(6)]) (use assms(4) in simp)
  have clean: "\<not> needs_save (db_item t)" unfolding t_def using clean_after_save [OF assms(2)] assms(1) by (simp add: item_ready_def)
  have "item_ready names t" using assms(1) by (auto simp: item_ready_def t_def mark_clean_def)
  then have keys: "get_keys ?S t = (Inr ?keys, t)" using get_keys_ready [of names t ?S] by (simp add: t_def mark_clean_def item_get_def)
  obtain ks where ks: "encode_keys ?ub ?keys = Inr (PMap ks)" "\<And>k. map_of ks k = (if k \<in> set names then enc ?ub (it_data (db_item s)) k else None)"
    by (rule encode_keys_ready [OF assms(1,2)]) (blast intro: that)
  have key: "map (map_of ks) names = map (map_of raw) names" using ks(2) raw_key [OF assms(1,2)] by auto
  have "decode_keys raw = Inr (map (\<lambda>(k, v). (k, canon ?ub v)) (filter (is_storable \<circ> snd) (it_data (db_item s))))"
    by (rule decode_keys_encoded [OF assms(2) [unfolded prepare_full_def]]) (use assms(5) in auto)
  then have "table_get_item ?S consistent PNone ?keys t
     = (Inr (item_init (Some (map (\<lambda>(k, v). (k, canon ?ub v)) (filter (is_storable \<circ> snd) (it_data (db_item s))))) True), t)"
    by (simp add: table_get_item_def with_table_def py_simps t_def ks(1) on_service_def protocol_get key dict_items_def item_load_def dict_get_def item_init_def Let_def)
  then show ?thesis using saved clean keys by blast
qed

text \<open>A table of users with one user, whose loaded item has been changed.\<close>

definition example_table :: ddb_table where
  "example_table = table_init ''users'' [HashKey ''name'' ''S''] None [] []"

definition example_item :: item where
  "example_item = \<lparr>it_data = [(''name'', PUni ''jane''), (''age'', PInt 7)], it_orig = [(''name'', PUni ''jane''), (''old'', PUni ''x'')], it_loaded = True\<rparr>"

definition raw_text_of :: "string \<Rightarrow> pyval" where
  "raw_text_of s = PMap [(''S'', PUni s)]"

definition example_state :: "(ddb_store, \<lparr>db_item :: item\<rparr>) ddb_scheme" where
  "example_state = \<lparr>db_table = example_table,
     db_world = [[Some (raw_text_of ''jane'')] \<mapsto> [(''name'', raw_text_of ''jane''), (''old'', raw_text_of ''x'')]], db_item = example_item\<rparr>"

lemma encode_text: "encode ub (PUni s) = Inr (raw_text_of s)"
  by (simp add: encode.simps get_dynamodb_type_def is_num_def is_str_def number_decimal_def encode_scalar_def encode_s_def raw_text_of_def)

lemma encode_seven: "encode ub (PInt 7) = Inr (PMap [(''N'', PUni ''7'')])"
  by (simp add: encode.simps get_dynamodb_type_def is_num_def is_str_def number_decimal_def encode_scalar_def encode_n_def decimal_of_int_def
      context_fix_def fits_def nat_str.simps digit_char_def Let_def char_eval)

lemma example_in_step:
  "in_step ub example_item [(''name'', raw_text_of ''jane''), (''old'', raw_text_of ''x'')]"
  by (auto simp: in_step_def example_item_def enc_def encode_text is_storable_def truthy_def)

lemma example_ready:
  "item_ready [''name''] example_state" "kept_by_key [''name''] (db_world example_state)" "needs_save (db_item example_state)"
  "prepare_full (tb_boolean (db_table example_state)) (db_item example_state) = Inr [(''name'', raw_text_of ''jane''), (''age'', PMap [(''N'', PUni ''7'')])]"
  "\<forall>(k, v) \<in> set (it_data (db_item example_state)). sets_kept v"
  by (auto simp: item_ready_def example_state_def example_table_def example_item_def table_init_def is_storable_def truthy_def kept_by_key_def needs_save_def
      determine_alterations_def prepare_full_def encode_text encode_seven sets_kept.simps Let_def)

lemma example_stored:
  "in_step (tb_boolean (db_table example_state)) (db_item example_state)
     (stored_at (db_world example_state) (map (map_of [(''name'', raw_text_of ''jane''), (''age'', PMap [(''N'', PUni ''7'')])]) [''name'']))"
proof -
  have "stored_at (db_world example_state) [Some (raw_text_of ''jane'')] = [(''name'', raw_text_of ''jane''), (''old'', raw_text_of ''x'')]"
    "db_item example_state = example_item" by (simp_all add: stored_at_def example_state_def)
  then show ?thesis by (simp add: example_in_step)
qed

theorem partial_save_equals_save_witness:
  "\<exists>d. map_of d = map_of [(''name'', raw_text_of ''jane''), (''age'', PMap [(''N'', PUni ''7'')])]
     \<and> partial_save (ddb_protocol (=) [''name'']) example_state
         = (Inr True, example_state\<lparr>db_world := (db_world example_state)
             (map (map_of [(''name'', raw_text_of ''jane''), (''age'', PMap [(''N'', PUni ''7'')])]) [''name''] \<mapsto> d), db_item := mark_clean (db_item example_state)\<rparr>)
     \<and> save (ddb_protocol (=) [''name'']) False example_state
         = (Inr True, example_state\<lparr>db_world := (db_world example_state)
             (map (map_of [(''name'', raw_text_of ''jane''), (''age'', PMap [(''N'', PUni ''7'')])]) [''name'']
                \<mapsto> [(''name'', raw_text_of ''jane''), (''age'', PMap [(''N'', PUni ''7'')])]), db_item := mark_clean (db_item example_state)\<rparr>)"
  by (rule partial_save_equals_save [OF example_ready(1,2,4) example_stored example_ready(3)]) simp

theorem saved_item_is_loaded_witness:
  "\<exists>t u. save (ddb_protocol (=) [''name'']) False example_state = (Inr True, t) \<and> \<not> needs_save (db_item t)
     \<and> get_keys (ddb_protocol (=) [''name'']) t = (Inr (map (\<lambda>n. (n, item_get (db_item example_state) n)) [''name'']), t)
     \<and> table_get_item (ddb_protocol (=) [''name'']) True PNone (map (\<lambda>n. (n, item_get (db_item example_state) n)) [''name'']) t
         = (Inr (item_init (Some (map (\<lambda>(k, v). (k, canon (tb_boolean (db_table example_state)) v)) (filter (is_storable \<circ> snd) (it_data (db_item example_state))))) True), u)"
  by (rule saved_item_is_loaded [OF example_ready(1,4) disjI2 [OF example_ready(3)] disjI2 [OF example_stored] example_ready(5)]) simp

section \<open>An empty value is expected to be there\<close>

lemma res_map_Inl: "x \<in> set xs \<Longrightarrow> \<forall>y. f x \<noteq> Inr y \<Longrightarrow> \<exists>e. res_map f xs = Inl e"
proof (induction xs)
  case (Cons a xs)
  then show ?case by (cases "f a"; cases "res_map f xs") auto
qed simp

lemma save_fails:
  assumes "needs_save (db_item s)"
    and "\<And>raw es. prepare_full (tb_boolean (db_table s)) (db_item s) = Inr raw \<Longrightarrow> build_expects (tb_boolean (db_table s)) (db_item s) None = Inr es
      \<Longrightarrow> \<exists>e. check_expected same (stored_at (db_world s) (map (map_of raw) names)) (Some (PMap es)) = Inl e"
  shows "\<exists>e. save (ddb_protocol same names) False s = (Inl e, s)"
proof (cases "prepare_full (tb_boolean (db_table s)) (db_item s)")
  case (Inr raw)
  show ?thesis
  proof (cases "build_expects (tb_boolean (db_table s)) (db_item s) None")
    case es: (Inr es)
    obtain e where "check_expected same (stored_at (db_world s) (map (map_of raw) names)) (Some (PMap es)) = Inl e"
      using assms(2) [OF Inr es] by blast
    then have "layer1_put_item (ddb_protocol same names) t (PMap raw) [(''expected'', PMap es)] (db_world s) = (Inl e, db_world s)" for t
      by (simp add: layer1_put_item_def ddb_protocol_def optional_def fields_of_def Let_def)
    then show ?thesis using assms(1) Inr es
      by (simp add: save_def with_item_def py_simps table_put_def with_table_def on_service_def)
  qed (use assms(1) Inr in \<open>simp add: save_def with_item_def py_simps\<close>)
qed (use assms(1) in \<open>simp add: save_def with_item_def py_simps\<close>)

lemma absent_not_met:
  assumes "expectation ub i k = Inr e" "map_of (it_orig i) k = Some v" "map_of (it_data i) k = Some v" "map_of d k = None"
  shows "meets same d (k, e) \<noteq> Inr u"
  using assms by (auto simp: expectation_def meets_def Let_def res_bind_Inr_iff split: if_splits)

lemma absent_blocks:
  assumes "build_expects ub i None = Inr es" "map_of (it_orig i) k = Some v" "map_of (it_data i) k = Some v" "map_of d k = None"
  shows "\<exists>e. check_expected same d (Some (PMap es)) = Inl e"
proof -
  have "k \<in> set (remdups (map fst (it_data i) @ map fst (it_orig i)))" using map_of_SomeD [OF assms(2)] by force
  from res_map_image [OF assms(1) [unfolded build_expects_all build_expects_def option.case Let_def] this]
  obtain e where e: "expectation ub i k = Inr e" "(k, e) \<in> set es" by (auto simp: res_bind_Inr_iff)
  have "\<exists>e. res_map (meets same d) es = Inl e" by (rule res_map_Inl [OF e(2)]) (use absent_not_met [OF e(1) assms(2-4)] in blast)
  then show ?thesis by (auto simp: check_expected_def)
qed

text \<open>
  C18: a field with an empty value is not stored, but the next save expects it to be there: once an item with an empty
  value or \<open>None\<close> has been saved, saving it without overwriting after a change of another field raises an exception and
  stores nothing.
\<close>

theorem empty_value_blocks_saves:
  assumes "item_ready names s" and "prepare_full (tb_boolean (db_table s)) (db_item s) = Inr raw"
    and "overwrite \<or> needs_save (db_item s)"
    and "overwrite \<or> in_step (tb_boolean (db_table s)) (db_item s) (stored_at (db_world s) (map (map_of raw) names))"
    and "map_of (it_data (db_item s)) k = Some v" and "\<not> is_storable v" and "j \<noteq> k" and "j \<notin> set names"
    and "needs_save (item_set j w (mark_clean (db_item s)))" and "\<forall>r. same r r"
  shows "\<exists>t e. save (ddb_protocol same names) overwrite s = (Inr True, t)
     \<and> save (ddb_protocol same names) False (t\<lparr>db_item := item_set j w (db_item t)\<rparr>) = (Inl e, t\<lparr>db_item := item_set j w (db_item t)\<rparr>)"
proof -
  let ?S = "ddb_protocol same names" and ?ub = "tb_boolean (db_table s)"
  define t where "t = s\<lparr>db_world := (db_world s)(map (map_of raw) names \<mapsto> raw), db_item := mark_clean (db_item s)\<rparr>"
  define i where "i = item_set j w (mark_clean (db_item s))"
  have saved: "save ?S overwrite s = (Inr True, t)"
    unfolding t_def by (rule save_puts [where same = same, OF assms(2,3) _ assms(10)]) (use assms(4) in simp)
  have dist: "distinct (map fst (it_data (db_item s)))" using assms(1) by (auto simp: item_ready_def)
  have i: "map_of (it_orig i) k = Some v" "map_of (it_data i) k = Some v" "\<And>n. n \<noteq> j \<Longrightarrow> map_of (it_data i) n = map_of (it_data (db_item s)) n"
    "distinct (map fst (it_data i))"
    using assms(5,7) dist by (simp_all add: i_def item_set_def mark_clean_def update_conv' distinct_update)
  have gone: "map_of raw k = None" using prepare_full_lookup [OF assms(2) dist, of k] assms(5,6) by simp
  have "\<exists>e. check_expected same (stored_at (db_world t) (map (map_of raw2) names)) (Some (PMap es)) = Inl e"
    if raw2: "prepare_full ?ub i = Inr raw2" and es: "build_expects ?ub i None = Inr es" for raw2 es
  proof -
    have "map_of raw2 n = map_of raw n" if "n \<in> set names" for n
      using prepare_full_lookup [OF raw2 i(4), of n] prepare_full_lookup [OF assms(2) dist, of n] i(3) [of n] that assms(8)
      by (auto simp: enc_def split: option.splits)
    then have "map (map_of raw2) names = map (map_of raw) names" by simp
    then show ?thesis using absent_blocks [OF es i(1,2) gone, of same] by (simp add: t_def stored_at_def)
  qed
  then have "\<exists>e. save ?S False (t\<lparr>db_item := i\<rparr>) = (Inl e, t\<lparr>db_item := i\<rparr>)"
    by (intro save_fails) (use assms(9) in \<open>simp_all add: t_def i_def\<close>)
  then show ?thesis using saved by (auto simp: t_def i_def)
qed

definition empty_state :: "(ddb_store, \<lparr>db_item :: item\<rparr>) ddb_scheme" where
  "empty_state = \<lparr>db_table = example_table, db_world = (\<lambda>key. None),
     db_item = \<lparr>it_data = [(''name'', PUni ''jane''), (''nick'', PStr [])], it_orig = [], it_loaded = False\<rparr>\<rparr>"

theorem empty_value_blocks_saves_witness:
  "\<exists>t e. save (ddb_protocol (=) [''name'']) True empty_state = (Inr True, t)
     \<and> save (ddb_protocol (=) [''name'']) False (t\<lparr>db_item := item_set ''age'' (PInt 7) (db_item t)\<rparr>) = (Inl e, t\<lparr>db_item := item_set ''age'' (PInt 7) (db_item t)\<rparr>)"
proof (rule empty_value_blocks_saves)
  show "item_ready [''name''] empty_state" "map_of (it_data (db_item empty_state)) ''nick'' = Some (PStr [])"
    by (simp_all add: item_ready_def empty_state_def example_table_def table_init_def is_storable_def truthy_def)
  show bad: "\<not> is_storable (PStr [])" by (simp add: is_storable_def truthy_def py_eq.simps scalar_eq_def number_decimal_def)
  have "is_storable (PUni ''jane'')" by (simp add: is_storable_def truthy_def)
  then show "prepare_full (tb_boolean (db_table empty_state)) (db_item empty_state) = Inr [(''name'', raw_text_of ''jane'')]"
    using bad by (simp add: prepare_full_def empty_state_def encode_text)
  have "is_storable (PInt 7)" by (simp add: is_storable_def truthy_def)
  then show "needs_save (item_set ''age'' (PInt 7) (mark_clean (db_item empty_state)))"
    by (simp add: needs_save_def determine_alterations_def item_set_def mark_clean_def empty_state_def)
qed simp_all

text \<open>A boolean in place of the equal number is no change.\<close>

lemma true_for_one_not_saved:
  "\<not> needs_save \<lparr>it_data = [(k, PBool True)], it_orig = [(k, PDec (Finite False 1 0))], it_loaded = True\<rparr>"
  by (simp add: needs_save_def determine_alterations_def changed_in_def py_eq.simps scalar_eq_def number_decimal_def decimal_of_int_def decimal_value_def)

end
