(* ===== verification/DDB_Results.thy ===== *)
theory DDB_Results
  imports Py_Prelude
begin

text \<open>
  Iterating over pages of results, \<^verbatim>\<open>boto/dynamodb2/results.py\<close>.

  The callable is a parameter: what it answers to a page size and a start key, or to a list of keys, and the state \<open>'w\<close> that
  it leaves.  A loop that fetches pages is a partial function, \<open>None\<close> when it does not return.
\<close>

section \<open>Result sets\<close>

record ('a, 'k) result_set =
  rs_results :: "'a list"
  rs_offset :: int
  rs_left :: bool
  rs_last :: "'k option"
  rs_fetches :: nat
  rs_page :: "int option"
  rs_limit :: "int option"

definition result_set_init :: "int option \<Rightarrow> ('a, 'k) result_set" where
  "result_set_init max_page_size = \<lparr>rs_results = [], rs_offset = -1, rs_left = True, rs_last = None, rs_fetches = 0,
     rs_page = max_page_size, rs_limit = None\<rparr>"

definition rs_reset :: "('a, 'k, 'z) result_set_scheme \<Rightarrow> ('a, 'k, 'z) result_set_scheme" where
  "rs_reset r = r\<lparr>rs_results := [], rs_offset := 0\<rparr>"

text \<open>\<open>to_call\<close>: the limit counts results, not the items of a page; a negative one is none.\<close>

definition to_call :: "int option \<Rightarrow> ('a, 'k, 'z) result_set_scheme \<Rightarrow> ('a, 'k, 'z) result_set_scheme" where
  "to_call limit r = r\<lparr>rs_limit := (case limit of None \<Rightarrow> None | Some l \<Rightarrow> if l < 0 then None else Some l)\<rparr>"

text \<open>The callable of a result set: page size and start key to results and last key.\<close>

type_synonym ('a, 'k, 'w) page_call = "int option \<Rightarrow> 'k option \<Rightarrow> ('w, 'a list \<times> 'k option) py"

definition clamp_page :: "('a, 'k) result_set \<Rightarrow> ('a, 'k) result_set" where
  "clamp_page r = (case (rs_limit r, rs_page r) of
       (Some l, Some p) \<Rightarrow> if l \<noteq> 0 \<and> p \<noteq> 0 \<and> l < p then r\<lparr>rs_page := Some l\<rparr> else r
     | _ \<Rightarrow> r)"

definition take_page :: "'a list \<Rightarrow> 'k option \<Rightarrow> ('a, 'k) result_set \<Rightarrow> ('a, 'k) result_set" where
  "take_page xs key r =
     (let over = (case rs_limit r of None \<Rightarrow> False | Some l \<Rightarrow> 0 \<le> l \<and> l - int (length xs) \<le> 0)
      in r\<lparr>rs_fetches := Suc (rs_fetches r), rs_last := key, rs_results := xs, rs_left := rs_left r \<and> \<not> over \<and> key \<noteq> None\<rparr>)"

definition fetch_more :: "('a, 'k, 'w) page_call \<Rightarrow> (('a, 'k) result_set \<times> 'w, unit) py" where
  "fetch_more call = (\<lambda>(r, w).
     let r = clamp_page (rs_reset r); size = (case rs_page r of Some p \<Rightarrow> Some p | None \<Rightarrow> rs_limit r)
     in case call size (rs_last r) w of
          (Inl e, w) \<Rightarrow> (Inl e, (r, w))
        | (Inr (xs, key), w) \<Rightarrow> (Inr (), (take_page xs key r, w)))"

text \<open>\<open>__next__\<close>, for a result set with any way of fetching.\<close>

partial_function (option) fetch_until ::
  "((('a, 'k, 'z) result_set_scheme \<times> 'w, unit) py) \<Rightarrow> ('a, 'k, 'z) result_set_scheme \<times> 'w \<Rightarrow> (unit res \<times> ('a, 'k, 'z) result_set_scheme \<times> 'w) option"
where
  "fetch_until fetch s =
     (case fetch s of
        (Inl e, s) \<Rightarrow> Some (Inl e, s)
      | (Inr _, s) \<Rightarrow> if rs_results (fst s) = [] \<and> rs_left (fst s) then fetch_until fetch s else Some (Inr (), s))"

definition give :: "('a, 'k, 'z) result_set_scheme \<times> 'w \<Rightarrow> 'a res \<times> ('a, 'k, 'z) result_set_scheme \<times> 'w" where
  "give = (\<lambda>(r, w).
     if rs_offset r < int (length (rs_results r))
     then (case rs_limit r of
             None \<Rightarrow> (Inr (rs_results r ! nat (rs_offset r)), (r, w))
           | Some l \<Rightarrow> (if l - 1 < 0 then Inl StopIteration else Inr (rs_results r ! nat (rs_offset r)), (r\<lparr>rs_limit := Some (l - 1)\<rparr>, w)))
     else (Inl StopIteration, (r, w)))"

definition rs_next ::
  "((('a, 'k, 'z) result_set_scheme \<times> 'w, unit) py) \<Rightarrow> ('a, 'k, 'z) result_set_scheme \<times> 'w \<Rightarrow> ('a res \<times> ('a, 'k, 'z) result_set_scheme \<times> 'w) option"
where
  "rs_next fetch = (\<lambda>(r, w).
     let r = r\<lparr>rs_offset := rs_offset r + 1\<rparr>
     in if int (length (rs_results r)) \<le> rs_offset r
        then if \<not> rs_left r then Some (Inl StopIteration, (r, w))
             else (case fetch_until fetch (r, w) of
                     None \<Rightarrow> None
                   | Some (Inl e, s) \<Rightarrow> Some (Inl e, s)
                   | Some (Inr _, s) \<Rightarrow> Some (give s))
        else Some (give (r, w)))"

text \<open>A \<open>for\<close> loop or \<open>list()\<close> over a result set: the results up to \<open>StopIteration\<close>.\<close>

partial_function (option) collect ::
  "((('a, 'k, 'z) result_set_scheme \<times> 'w, unit) py) \<Rightarrow> ('a, 'k, 'z) result_set_scheme \<times> 'w \<Rightarrow> ('a list res \<times> ('a, 'k, 'z) result_set_scheme \<times> 'w) option"
where
  "collect fetch s =
     (case rs_next fetch s of
        None \<Rightarrow> None
      | Some (Inl e, s) \<Rightarrow> if e = StopIteration then Some (Inr [], s) else Some (Inl e, s)
      | Some (Inr x, s) \<Rightarrow>
          Option.bind (collect fetch s) (\<lambda>(r, s). Some (case r of Inl e \<Rightarrow> Inl e | Inr xs \<Rightarrow> Inr (x # xs), s)))"

section \<open>Result sets of batches of keys\<close>

record ('a, 'k) batch_set = "('a, 'k) result_set" +
  bs_keys :: "'k list"
  bs_max :: nat

type_synonym ('a, 'k, 'w) keys_call = "'k list \<Rightarrow> ('w, 'a list \<times> 'k list) py"

definition batch_set_init :: "'k list \<Rightarrow> nat \<Rightarrow> ('a, 'k) batch_set" where
  "batch_set_init keys max_batch_get = result_set.extend (result_set_init None) \<lparr>bs_keys = keys, bs_max = max_batch_get\<rparr>"

definition take_batch :: "'a list \<Rightarrow> 'k list \<Rightarrow> ('a, 'k) batch_set \<Rightarrow> ('a, 'k) batch_set" where
  "take_batch xs unprocessed r =
     (if xs = [] then r
      else let keys = unprocessed @ bs_keys r in r\<lparr>rs_results := xs, bs_keys := keys, rs_left := rs_left r \<or> keys \<noteq> []\<rparr>)"

definition fetch_batch :: "('a, 'k, 'w) keys_call \<Rightarrow> (('a, 'k) batch_set \<times> 'w, unit) py" where
  "fetch_batch call = (\<lambda>(r, w).
     let r = rs_reset r; keys = take (bs_max r) (bs_keys r);
         r = r\<lparr>bs_keys := drop (bs_max r) (bs_keys r)\<rparr>;
         r = r\<lparr>rs_left := rs_left r \<and> bs_keys r \<noteq> []\<rparr>
     in case call keys w of
          (Inl e, w) \<Rightarrow> (Inl e, (r, w))
        | (Inr (xs, unprocessed), w) \<Rightarrow> (Inr (), (take_batch xs unprocessed r, w)))"

section \<open>All pages, in order\<close>

text \<open>
  A service that pages through \<open>xs\<close>: from a start key, a position, it evaluates as many items as \<open>sz\<close> says, at least one,
  and answers those that pass the filter, with the position of the next page if there is one.
\<close>

definition paged :: "'a list \<Rightarrow> ('a \<Rightarrow> bool) \<Rightarrow> ('w \<Rightarrow> nat \<Rightarrow> int option \<Rightarrow> nat) \<Rightarrow> ('w \<Rightarrow> 'w) \<Rightarrow> ('a, nat, 'w) page_call" where
  "paged xs P sz tick page key w =
     (let pos = (case key of None \<Rightarrow> 0 | Some k \<Rightarrow> k); n = sz w pos page
      in (Inr (filter P (take n (drop pos xs)), if pos + n < length xs then Some (pos + n) else None), tick w))"

definition position :: "('a, nat, 'z) result_set_scheme \<Rightarrow> nat" where
  "position r = (case rs_last r of None \<Rightarrow> 0 | Some k \<Rightarrow> k)"

definition future :: "'a list \<Rightarrow> ('a \<Rightarrow> bool) \<Rightarrow> ('a, nat, 'z) result_set_scheme \<Rightarrow> 'a list" where
  "future xs P r = (if rs_left r then filter P (drop (position r) xs) else [])"

definition cut :: "int option \<Rightarrow> 'a list \<Rightarrow> 'a list" where
  "cut limit ys = (case limit of None \<Rightarrow> ys | Some l \<Rightarrow> take (nat l) ys)"

lemma fetch_page:
  assumes sz: "\<forall>w pos size. 1 \<le> sz w pos size" and left: "rs_left r"
  obtains r' where "fetch_more (paged xs P sz tick) (r, w) = (Inr (), (r', tick w))" "rs_offset r' = 0" "rs_limit r' = rs_limit r"
    "cut (rs_limit r) (rs_results r' @ future xs P r') = cut (rs_limit r) (future xs P r)"
    "rs_left r' \<Longrightarrow> position r < position r' \<and> position r' < length xs" "length (rs_results r') \<le> length xs"
proof -
  define r1 where "r1 = clamp_page (rs_reset r)"
  have r1: "rs_limit r1 = rs_limit r" "rs_last r1 = rs_last r" "rs_left r1 = rs_left r" "rs_offset r1 = 0"
    by (auto simp: r1_def clamp_page_def rs_reset_def split: option.splits)
  define n where "n = sz w (position r) (case rs_page r1 of Some p \<Rightarrow> Some p | None \<Rightarrow> rs_limit r1)"
  define ys key where "ys = filter P (take n (drop (position r) xs))" and "key = (if position r + n < length xs then Some (position r + n) else None)"
  define r' where "r' = take_page ys key r1"
  have n: "0 < n" using sz by (simp add: n_def Suc_le_eq)
  have "fetch_more (paged xs P sz tick) (r, w) = (Inr (), (r', tick w))"
    unfolding r'_def ys_def key_def n_def position_def r1_def
    by (simp add: fetch_more_def paged_def Let_def r1(2) [unfolded r1_def])
  moreover have "rs_offset r' = 0" "rs_limit r' = rs_limit r" "rs_results r' = ys" by (simp_all add: r'_def take_page_def Let_def r1)
  moreover have "cut (rs_limit r) (ys @ future xs P r') = cut (rs_limit r) (future xs P r)"
  proof -
    have all: "future xs P r = ys @ (case key of None \<Rightarrow> [] | Some k \<Rightarrow> filter P (drop k xs))"
    proof -
      have "drop (position r) xs = take n (drop (position r) xs) @ drop (n + position r) xs" by (metis append_take_drop_id drop_drop)
      then have "filter P (drop (position r) xs) = ys @ filter P (drop (n + position r) xs)" by (metis filter_append ys_def)
      then show ?thesis using left by (auto simp: future_def key_def add.commute)
    qed
    show ?thesis
    proof (cases "rs_left r'")
      case True
      then show ?thesis using all by (auto simp: future_def r'_def take_page_def position_def Let_def split: option.splits)
    next
      case False
      then have stop: "key = None \<or> (\<exists>l. rs_limit r = Some l \<and> nat l \<le> length ys)"
        using left by (auto simp: r'_def take_page_def Let_def r1 split: option.splits if_splits)
      have none: "future xs P r' = []" using False by (simp add: future_def)
      from stop show ?thesis
      proof
        assume "key = None"
        then have "future xs P r = ys" using all by simp
        then show ?thesis using none by simp
      next
        assume "\<exists>l. rs_limit r = Some l \<and> nat l \<le> length ys"
        then show ?thesis using none unfolding all by (auto simp: cut_def)
      qed
    qed
  qed
  moreover have "position r < position r' \<and> position r' < length xs" if "rs_left r'"
    using that n by (auto simp: r'_def take_page_def Let_def position_def key_def split: if_splits)
  moreover have "length (rs_results r') \<le> length xs"
    by (simp add: \<open>rs_results r' = ys\<close> ys_def order_trans [OF length_filter_le])
  ultimately show thesis using that [of r'] by simp
qed

lemma fetch_until_page:
  assumes sz: "\<forall>w pos size. 1 \<le> sz w pos size" and "rs_left r"
  shows "\<exists>r' w'. fetch_until (fetch_more (paged xs P sz tick)) (r, w) = Some (Inr (), (r', w')) \<and> rs_offset r' = 0 \<and> rs_limit r' = rs_limit r
     \<and> cut (rs_limit r) (rs_results r' @ future xs P r') = cut (rs_limit r) (future xs P r)
     \<and> (rs_results r' = [] \<longrightarrow> \<not> rs_left r') \<and> (rs_left r' \<longrightarrow> position r < position r' \<and> position r' < length xs) \<and> length (rs_results r') \<le> length xs"
  using assms(2)
proof (induction "length xs - position r" arbitrary: r w rule: less_induct)
  case less
  obtain r' where r': "fetch_more (paged xs P sz tick) (r, w) = (Inr (), (r', tick w))" "rs_offset r' = 0" "rs_limit r' = rs_limit r"
    "cut (rs_limit r) (rs_results r' @ future xs P r') = cut (rs_limit r) (future xs P r)"
    "rs_left r' \<Longrightarrow> position r < position r' \<and> position r' < length xs" "length (rs_results r') \<le> length xs"
    using fetch_page [where xs = xs and P = P and tick = tick and w = w, OF sz less.prems] by metis
  show ?case
  proof (cases "rs_results r' = [] \<and> rs_left r'")
    case True
    then have "length xs - position r' < length xs - position r" using r'(5) by auto
    from less.hyps [OF this, of "tick w"] True obtain r2 w2 where
      "fetch_until (fetch_more (paged xs P sz tick)) (r', tick w) = Some (Inr (), (r2, w2))" "rs_offset r2 = 0" "rs_limit r2 = rs_limit r'"
      "cut (rs_limit r') (rs_results r2 @ future xs P r2) = cut (rs_limit r') (future xs P r')"
      "rs_results r2 = [] \<longrightarrow> \<not> rs_left r2" "rs_left r2 \<longrightarrow> position r' < position r2 \<and> position r2 < length xs"
      "length (rs_results r2) \<le> length xs" by blast
    then show ?thesis using True r' by (intro exI [of _ r2] exI [of _ w2]) (subst fetch_until.simps, auto)
  next
    case False
    then show ?thesis using r' by (intro exI [of _ r'] exI [of _ "tick w"]) (subst fetch_until.simps, auto)
  qed
qed

definition pending :: "('a, 'k, 'z) result_set_scheme \<Rightarrow> 'a list" where
  "pending r = drop (nat (rs_offset r + 1)) (rs_results r)"

lemma cut_Nil: "cut limit [] = []"
  by (simp add: cut_def split: option.splits)

lemma give_here:
  assumes "rs_offset r = int k" "k < length (rs_results r)" "\<forall>l. rs_limit r = Some l \<longrightarrow> 0 \<le> l"
  shows "fst (give (r, w)) = (if rs_limit r = Some 0 then Inl StopIteration else Inr (rs_results r ! k))"
    and "snd (give (r, w)) = (r\<lparr>rs_limit := map_option (\<lambda>l. l - 1) (rs_limit r)\<rparr>, w)"
  using assms by (auto simp: give_def split: option.splits)

lemma cut_step:
  "\<forall>l. limit = Some l \<longrightarrow> 0 \<le> l \<Longrightarrow> cut limit (x # ys) = (if limit = Some 0 then [] else x # cut (map_option (\<lambda>l. l - 1) limit) ys)"
  by (auto simp: cut_def take_Cons' nat_diff_distrib split: option.splits)

text \<open>The result handed out next, in either case, and the rest.\<close>

lemma collect_give:
  assumes "rs_next fetch s = Some (give (r, w))" and "rs_offset r = int k" "k < length (rs_results r)" "\<forall>l. rs_limit r = Some l \<longrightarrow> 0 \<le> l"
    and rest: "rs_limit r \<noteq> Some 0 \<Longrightarrow>
      \<exists>t. collect fetch (r\<lparr>rs_limit := map_option (\<lambda>l. l - 1) (rs_limit r)\<rparr>, w) = Some (Inr (cut (map_option (\<lambda>l. l - 1) (rs_limit r)) ys), t)"
  shows "\<exists>t. collect fetch s = Some (Inr (cut (rs_limit r) (rs_results r ! k # ys)), t)"
proof (cases "rs_limit r = Some 0")
  case True
  then obtain t where "give (r, w) = (Inl StopIteration, t)" using give_here(1) [OF assms(2-4), of w] by (cases "give (r, w)") simp
  with assms(1) show ?thesis using True by (subst collect.simps) (simp add: cut_def)
next
  case False
  have "give (r, w) = (Inr (rs_results r ! k), (r\<lparr>rs_limit := map_option (\<lambda>l. l - 1) (rs_limit r)\<rparr>, w))"
    using give_here [OF assms(2-4), of w] False by (simp add: prod_eq_iff)
  with assms(1) show ?thesis using rest [OF False] cut_step [OF assms(4), of "rs_results r ! k" ys] False by (subst collect.simps) auto
qed

lemma collect_stop: "rs_next fetch s = Some (Inl StopIteration, t) \<Longrightarrow> collect fetch s = Some (Inr [], t)"
  by (subst collect.simps) simp

lemma collect_pages:
  assumes sz: "\<forall>w pos size. 1 \<le> sz w pos size"
    and "-1 \<le> rs_offset r" and "\<forall>l. rs_limit r = Some l \<longrightarrow> 0 \<le> l"
  shows "\<exists>t. collect (fetch_more (paged xs P sz tick)) (r, w) = Some (Inr (cut (rs_limit r) (pending r @ future xs P r)), t)"
  using assms(2,3)
proof (induction "length (pending r) + (if rs_left r then Suc (length xs) * Suc (length xs - position r) else 0)" arbitrary: r w rule: less_induct)
  case less
  let ?fetch = "fetch_more (paged xs P sz tick)"
  define k where "k = nat (rs_offset r + 1)"
  define r1 where "r1 = r\<lparr>rs_offset := int k\<rparr>"
  have k: "rs_offset r + 1 = int k" using less.prems(1) by (simp add: k_def)
  have lower: "\<forall>l. map_option (\<lambda>l. l - 1) (rs_limit r) = Some l \<longrightarrow> 0 \<le> l" if "rs_limit r \<noteq> Some 0"
    using less.prems(2) that by (auto simp: order_le_less)
  show ?case
  proof (cases "k < length (rs_results r)")
    case True
    define r2 where "r2 = r1\<lparr>rs_limit := map_option (\<lambda>l. l - 1) (rs_limit r)\<rparr>"
    have pend: "pending r = rs_results r ! k # pending r2" using True k
      by (simp add: pending_def k_def [symmetric] r2_def r1_def nat_add_distrib Cons_nth_drop_Suc)
    have fut: "future xs P r2 = future xs P r" by (simp add: r2_def r1_def future_def position_def)
    have "\<exists>t. collect ?fetch (r, w) = Some (Inr (cut (rs_limit r1) (rs_results r1 ! k # pending r2 @ future xs P r2)), t)"
    proof (rule collect_give)
      show "rs_next ?fetch (r, w) = Some (give (r1, w))" using True k by (simp add: rs_next_def r1_def Let_def)
      show "\<exists>t. collect ?fetch (r1\<lparr>rs_limit := map_option (\<lambda>l. l - 1) (rs_limit r1)\<rparr>, w)
          = Some (Inr (cut (map_option (\<lambda>l. l - 1) (rs_limit r1)) (pending r2 @ future xs P r2)), t)" if "rs_limit r1 \<noteq> Some 0"
        using less.hyps [of r2 w] lower that pend by (simp add: r2_def r1_def position_def)
    qed (use True less.prems(2) in \<open>simp_all add: r1_def\<close>)
    then show ?thesis by (simp add: pend fut r1_def)
  next
    case False
    then have pend: "pending r = []" by (simp add: pending_def k_def [symmetric])
    show ?thesis
    proof (cases "rs_left r")
      case False
      then have "rs_next ?fetch (r, w) = Some (Inl StopIteration, (r1, w))" using k \<open>\<not> k < length (rs_results r)\<close> by (simp add: rs_next_def r1_def Let_def)
      from collect_stop [OF this] show ?thesis using False pend by (simp add: future_def cut_def split: option.splits)
    next
      case True
      have r1: "rs_left r1" "position r1 = position r" "future xs P r1 = future xs P r" "rs_limit r1 = rs_limit r"
        using True by (simp_all add: r1_def position_def future_def)
      obtain r' w' where r': "fetch_until ?fetch (r1, w) = Some (Inr (), (r', w'))" "rs_offset r' = 0" "rs_limit r' = rs_limit r"
          "cut (rs_limit r) (rs_results r' @ future xs P r') = cut (rs_limit r) (future xs P r)"
          "rs_results r' = [] \<longrightarrow> \<not> rs_left r'" "rs_left r' \<longrightarrow> position r < position r' \<and> position r' < length xs" "length (rs_results r') \<le> length xs"
        using fetch_until_page [where xs = xs and P = P and tick = tick and w = w, OF sz r1(1)] unfolding r1 by blast
      have nxt: "rs_next ?fetch (r, w) = Some (give (r', w'))"
        using \<open>\<not> k < length (rs_results r)\<close> k True r'(1) by (simp add: rs_next_def r1_def Let_def)
      show ?thesis
      proof (cases "rs_results r'")
        case Nil
        then have "give (r', w') = (Inl StopIteration, (r', w'))" by (simp add: give_def r'(2))
        then have stop: "collect ?fetch (r, w) = Some (Inr [], (r', w'))" using nxt by (intro collect_stop) simp
        have "future xs P r' = []" using r'(5) Nil by (simp add: future_def)
        then have "cut (rs_limit r) (future xs P r) = []" using r'(4) Nil by (metis append_Nil cut_Nil)
        then show ?thesis using stop pend by simp
      next
        case (Cons x ys)
        define r2 where "r2 = r'\<lparr>rs_limit := map_option (\<lambda>l. l - 1) (rs_limit r')\<rparr>"
        have r2: "pending r2 = ys" "future xs P r2 = future xs P r'" "rs_left r2 = rs_left r'" "position r2 = position r'"
          using Cons r'(2) by (simp_all add: r2_def pending_def future_def position_def)
        have smaller: "length (pending r2) + (if rs_left r2 then Suc (length xs) * Suc (length xs - position r2) else 0)
            < length (pending r) + (if rs_left r then Suc (length xs) * Suc (length xs - position r) else 0)"
        proof -
          have "Suc (length xs) * Suc (length xs - position r') \<le> Suc (length xs) * (length xs - position r)" if "rs_left r'"
            using r'(6) that by (intro mult_le_mono2) auto
          then show ?thesis using True r'(7) Cons unfolding r2 pend by (auto simp del: mult_Suc simp: mult_Suc_right)
        qed
        have "\<exists>t. collect ?fetch (r, w) = Some (Inr (cut (rs_limit r') (rs_results r' ! 0 # pending r2 @ future xs P r2)), t)"
        proof (rule collect_give [OF nxt])
          show "\<exists>t. collect ?fetch (r'\<lparr>rs_limit := map_option (\<lambda>l. l - 1) (rs_limit r')\<rparr>, w')
              = Some (Inr (cut (map_option (\<lambda>l. l - 1) (rs_limit r')) (pending r2 @ future xs P r2)), t)" if "rs_limit r' \<noteq> Some 0"
            using less.hyps [OF smaller, of w'] lower that r'(2,3) by (simp add: r2_def)
        qed (use Cons r'(2,3) less.prems(2) in simp_all)
        then show ?thesis using r'(3,4) Cons pend unfolding r2 by simp
      qed
    qed
  qed
qed

text \<open>
  C12: iterating over a result set gives the results of all pages in their order, as many as the limit says, whatever the
  page size, however few items the service evaluates for a page, and also when pages have no results; the iteration ends.
\<close>

theorem result_set_collects:
  fixes xs :: "'a list"
  assumes "\<forall>w pos page. 1 \<le> sz w pos page"
  shows "\<exists>t. collect (fetch_more (paged xs P sz tick)) (to_call limit (result_set_init max_page_size), w)
     = Some (Inr (case limit of None \<Rightarrow> filter P xs | Some l \<Rightarrow> if l < 0 then filter P xs else take (nat l) (filter P xs)), t)"
proof -
  define r where "r = (to_call limit (result_set_init max_page_size) :: ('a, nat) result_set)"
  have "cut (rs_limit r) (pending r @ future xs P r)
      = (case limit of None \<Rightarrow> filter P xs | Some l \<Rightarrow> if l < 0 then filter P xs else take (nat l) (filter P xs))"
    by (simp add: r_def to_call_def result_set_init_def pending_def future_def position_def cut_def split: option.splits)
  moreover have "-1 \<le> rs_offset r" "\<forall>l. rs_limit r = Some l \<longrightarrow> 0 \<le> l"
    by (auto simp: r_def to_call_def result_set_init_def split: option.splits if_splits)
  ultimately show ?thesis using collect_pages [OF assms, of r xs P tick w] by (simp add: r_def)
qed

theorem result_set_collects_witness:
  "\<exists>t. collect (fetch_more (paged [1, 2, 3, 4, 5, 6, 7 :: nat] even (\<lambda>w pos page. 2) (\<lambda>w. w))) (to_call (Some 2) (result_set_init (Some 10)), ())
     = Some (Inr [2, 4], t)"
  using result_set_collects [of "\<lambda>w pos page. 2" "[1, 2, 3, 4, 5, 6, 7 :: nat]" even "\<lambda>w. w" "Some 2" "Some 10" "()"] by simp

section \<open>Batches of keys\<close>

text \<open>A service that looks up some of the keys, the first \<open>sz\<close> of them, and returns the others as unprocessed.\<close>

definition serve_keys :: "('k \<Rightarrow> 'a option) \<Rightarrow> ('w \<Rightarrow> nat) \<Rightarrow> ('w \<Rightarrow> 'w) \<Rightarrow> ('a, 'k, 'w) keys_call" where
  "serve_keys locate sz tick keys w = (Inr (List.map_filter locate (take (sz w) keys), drop (sz w) keys), tick w)"

lemma map_filter_there: "\<forall>k \<in> set ks. locate k \<noteq> None \<Longrightarrow> List.map_filter locate ks = map (the \<circ> locate) ks"
  by (induction ks) (auto simp: map_filter_simps)

lemma fetch_keys:
  assumes "\<forall>w. 1 \<le> sz w" "1 \<le> bs_max r" "bs_keys r \<noteq> []" "\<forall>k \<in> set (bs_keys r). locate k \<noteq> None"
  obtains r' where "fetch_batch (serve_keys locate sz tick) (r, w) = (Inr (), (r', tick w))" "rs_offset r' = 0" "rs_limit r' = rs_limit r"
    "bs_max r' = bs_max r" "map (the \<circ> locate) (bs_keys r) = rs_results r' @ map (the \<circ> locate) (bs_keys r')" "rs_results r' \<noteq> []"
    "rs_left r' = (bs_keys r' \<noteq> [])" "set (bs_keys r') \<subseteq> set (bs_keys r)"
proof -
  define batch where "batch = take (bs_max r) (bs_keys r)"
  define xs keys where "xs = map (the \<circ> locate) (take (sz w) batch)" and "keys = drop (sz w) batch @ drop (bs_max r) (bs_keys r)"
  have "set batch \<subseteq> set (bs_keys r)" by (auto simp: batch_def dest: in_set_takeD)
  then have found: "List.map_filter locate (take (sz w) batch) = xs"
    unfolding xs_def by (intro map_filter_there) (use assms(4) in \<open>auto dest: in_set_takeD\<close>)
  have some: "xs \<noteq> []" using assms(1) [rule_format, of w] assms(2,3) by (auto simp: xs_def batch_def)
  have all: "bs_keys r = take (sz w) batch @ keys" by (metis append_assoc append_take_drop_id batch_def keys_def)
  define r1 where "r1 = (rs_reset r)\<lparr>bs_keys := drop (bs_max r) (bs_keys r)\<rparr>"
  define r' where "r' = take_batch xs (drop (sz w) batch) (r1\<lparr>rs_left := rs_left r1 \<and> bs_keys r1 \<noteq> []\<rparr>)"
  have "fetch_batch (serve_keys locate sz tick) (r, w) = (Inr (), (r', tick w))"
    by (simp add: fetch_batch_def serve_keys_def rs_reset_def r'_def r1_def Let_def batch_def [symmetric] found del: take_take)
  moreover have "map (the \<circ> locate) (bs_keys r) = xs @ map (the \<circ> locate) keys" by (subst all) (simp add: xs_def)
  moreover have "set keys \<subseteq> set (bs_keys r)" by (metis Un_upper2 all set_append)
  ultimately show thesis
    using some by (intro that [of r']) (auto simp: r'_def r1_def take_batch_def rs_reset_def keys_def Let_def)
qed

lemma no_limit: "rs_limit r = None \<Longrightarrow> r\<lparr>rs_limit := map_option f (rs_limit r)\<rparr> = r"
  by (cases r) simp

lemma collect_keys:
  assumes "\<forall>w. 1 \<le> sz w" and "1 \<le> bs_max r" "\<forall>k \<in> set (bs_keys r). locate k \<noteq> None" "rs_limit r = None" "-1 \<le> rs_offset r" "rs_left r = (bs_keys r \<noteq> [])"
  shows "\<exists>t. collect (fetch_batch (serve_keys locate sz tick)) (r, w) = Some (Inr (pending r @ map (the \<circ> locate) (bs_keys r)), t)"
  using assms(2-)
proof (induction "length (pending r) + 2 * length (bs_keys r)" arbitrary: r w rule: less_induct)
  case less
  let ?fetch = "fetch_batch (serve_keys locate sz tick)"
  define k where "k = nat (rs_offset r + 1)"
  define r1 where "r1 = r\<lparr>rs_offset := int k\<rparr>"
  have k: "rs_offset r + 1 = int k" using less.prems(4) by (simp add: k_def)
  show ?case
  proof (cases "k < length (rs_results r)")
    case True
    have pend: "pending r = rs_results r ! k # pending r1" using True k
      by (simp add: pending_def k_def [symmetric] r1_def nat_add_distrib Cons_nth_drop_Suc)
    have same: "r1\<lparr>rs_limit := map_option (\<lambda>l. l - 1) (rs_limit r1)\<rparr> = r1" using less.prems(3) by (intro no_limit) (simp add: r1_def)
    have "\<exists>t. collect ?fetch (r, w) = Some (Inr (cut (rs_limit r1) (rs_results r1 ! k # pending r1 @ map (the \<circ> locate) (bs_keys r1))), t)"
    proof (rule collect_give)
      show "rs_next ?fetch (r, w) = Some (give (r1, w))" using True k by (simp add: rs_next_def r1_def Let_def)
      show "\<exists>t. collect ?fetch (r1\<lparr>rs_limit := map_option (\<lambda>l. l - 1) (rs_limit r1)\<rparr>, w)
          = Some (Inr (cut (map_option (\<lambda>l. l - 1) (rs_limit r1)) (pending r1 @ map (the \<circ> locate) (bs_keys r1))), t)"
        unfolding same using less.hyps [of r1 w] less.prems pend by (simp add: r1_def cut_def)
    qed (use True less.prems(3) in \<open>simp_all add: r1_def\<close>)
    then show ?thesis using less.prems(3) by (simp add: pend r1_def cut_def)
  next
    case False
    then have pend: "pending r = []" by (simp add: pending_def k_def [symmetric])
    show ?thesis
    proof (cases "bs_keys r = []")
      case True
      then have "rs_next ?fetch (r, w) = Some (Inl StopIteration, (r1, w))" using k False less.prems(5) by (simp add: rs_next_def r1_def Let_def)
      from collect_stop [OF this] show ?thesis using True pend by simp
    next
      case keys: False
      have r1: "1 \<le> bs_max r1" "bs_keys r1 \<noteq> []" "\<forall>k \<in> set (bs_keys r1). locate k \<noteq> None" using keys less.prems by (simp_all add: r1_def)
      obtain r' where r': "?fetch (r1, w) = (Inr (), (r', tick w))" "rs_offset r' = 0" "rs_limit r' = rs_limit r1" "bs_max r' = bs_max r1"
          "map (the \<circ> locate) (bs_keys r1) = rs_results r' @ map (the \<circ> locate) (bs_keys r')" "rs_results r' \<noteq> []"
          "rs_left r' = (bs_keys r' \<noteq> [])" "set (bs_keys r') \<subseteq> set (bs_keys r1)"
        using fetch_keys [where tick = tick and w = w, OF assms(1) r1] by metis
      obtain x ys where x: "rs_results r' = x # ys" using r'(6) by (cases "rs_results r'") auto
      have nxt: "rs_next ?fetch (r, w) = Some (give (r', tick w))"
      proof -
        have "fetch_until ?fetch (r1, w) = Some (Inr (), (r', tick w))" by (subst fetch_until.simps) (simp add: r'(1,6))
        then show ?thesis using False k less.prems(5) keys by (simp add: rs_next_def r1_def Let_def)
      qed
      have smaller: "length (pending r') + 2 * length (bs_keys r') < length (pending r) + 2 * length (bs_keys r)"
        using arg_cong [OF r'(5), of length] x pend by (simp add: pending_def r'(2) r1_def)
      have same: "r'\<lparr>rs_limit := map_option (\<lambda>l. l - 1) (rs_limit r')\<rparr> = r'" using less.prems(3) r'(3) by (intro no_limit) (simp add: r1_def)
      have "\<exists>t. collect ?fetch (r, w) = Some (Inr (cut (rs_limit r') (rs_results r' ! 0 # pending r' @ map (the \<circ> locate) (bs_keys r'))), t)"
      proof (rule collect_give [OF nxt])
        show "\<exists>t. collect ?fetch (r'\<lparr>rs_limit := map_option (\<lambda>l. l - 1) (rs_limit r')\<rparr>, tick w)
            = Some (Inr (cut (map_option (\<lambda>l. l - 1) (rs_limit r')) (pending r' @ map (the \<circ> locate) (bs_keys r'))), t)"
        proof -
          have there: "\<forall>k \<in> set (bs_keys r'). locate k \<noteq> None" using less.prems(2) r'(8) unfolding r1_def by auto
          show ?thesis unfolding same using less.hyps [OF smaller, of "tick w", OF _ there] less.prems r' by (auto simp: r1_def cut_def)
        qed
      qed (use x r'(2,3) less.prems(3) in \<open>simp_all add: r1_def\<close>)
      then show ?thesis using r'(2,3,5) x pend less.prems(3) by (simp add: pending_def r1_def cut_def)
    qed
  qed
qed

text \<open>
  When all keys exist, a batch result set gives the item of every key, once and in the order of the keys, however many
  keys the service leaves unprocessed each time and whatever the size of a batch.
\<close>

theorem batch_get_collects:
  fixes locate :: "'k \<Rightarrow> 'a option"
  assumes "\<forall>w. 1 \<le> sz w" and "1 \<le> max_batch_get" and "keys \<noteq> []" and "\<forall>k \<in> set keys. locate k \<noteq> None"
  shows "\<exists>t. collect (fetch_batch (serve_keys locate sz tick)) (batch_set_init keys max_batch_get, w) = Some (Inr (map (the \<circ> locate) keys), t)"
proof -
  define r where "r = (batch_set_init keys max_batch_get :: ('a, 'k) batch_set)"
  have r: "pending r = []" "bs_keys r = keys" "rs_limit r = None" "rs_offset r = -1" "rs_left r" "bs_max r = max_batch_get"
    by (simp_all add: r_def batch_set_init_def result_set_init_def result_set.defs pending_def)
  have "\<exists>t. collect (fetch_batch (serve_keys locate sz tick)) (r, w) = Some (Inr (pending r @ map (the \<circ> locate) (bs_keys r)), t)"
    by (rule collect_keys [OF assms(1)]) (use assms in \<open>simp_all add: r\<close>)
  then show ?thesis by (simp add: r(1,2) r_def [symmetric])
qed

theorem batch_get_collects_witness:
  "\<exists>t. collect (fetch_batch (serve_keys (\<lambda>k::nat. Some (k * k)) (\<lambda>w. 2) (\<lambda>w. w))) (batch_set_init [1, 2, 3, 4, 5] 3, ()) = Some (Inr [1, 4, 9, 16, 25], t)"
  using batch_get_collects [of "\<lambda>w. 2" 3 "[1, 2, 3, 4, 5]" "\<lambda>k::nat. Some (k * k)" "\<lambda>w. w" "()"] by simp

text \<open>
  C19: when none of the keys that the service processed exists, the keys it returns as unprocessed are forgotten: their
  items are never fetched, although they exist.
\<close>

theorem batch_get_drops_keys:
  assumes "keys = missing @ others" and "length keys \<le> max_batch_get" and "sz w = length missing" and "\<forall>k \<in> set missing. locate k = None"
  shows "collect (fetch_batch (serve_keys locate sz tick)) (batch_set_init keys max_batch_get, w)
     = Some (Inr [], ((batch_set_init keys max_batch_get)\<lparr>rs_offset := 0, rs_left := False, bs_keys := []\<rparr>, tick w))"
proof -
  have "List.map_filter locate missing = []" using assms(4) by (induction missing) (auto simp: map_filter_simps)
  then have "fetch_batch (serve_keys locate sz tick) ((batch_set_init keys max_batch_get)\<lparr>rs_offset := 0\<rparr>, w)
      = (Inr (), ((batch_set_init keys max_batch_get)\<lparr>rs_offset := 0, rs_left := False, bs_keys := []\<rparr>, tick w))"
    using assms(1-3) by (simp add: fetch_batch_def serve_keys_def take_batch_def batch_set_init_def result_set_init_def result_set.defs rs_reset_def Let_def)
  then have "rs_next (fetch_batch (serve_keys locate sz tick)) (batch_set_init keys max_batch_get, w)
      = Some (Inl StopIteration, ((batch_set_init keys max_batch_get)\<lparr>rs_offset := 0, rs_left := False, bs_keys := []\<rparr>, tick w))"
    by (simp add: rs_next_def Let_def batch_set_init_def result_set_init_def result_set.defs) (subst fetch_until.simps, simp add: give_def)
  then show ?thesis by (rule collect_stop)
qed

theorem batch_get_drops_keys_witness:
  "collect (fetch_batch (serve_keys (\<lambda>k::nat. if k = 0 then None else Some (k * k)) (\<lambda>w. 1) (\<lambda>w. w))) (batch_set_init [0, 2, 3] 100, ())
     = Some (Inr [], ((batch_set_init [0, 2, 3] 100)\<lparr>rs_offset := 0, rs_left := False, bs_keys := []\<rparr>, ()))"
  using batch_get_drops_keys [of "[0, 2, 3]" "[0]" "[2, 3]" 100 "\<lambda>w. 1" "()" "\<lambda>k::nat. if k = 0 then None else Some (k * k)" "\<lambda>w. w"] by simp

end
