(* ===== verification/DDB_Query.thy ===== *)
theory DDB_Query
  imports DDB_Items DDB_Results
begin

text \<open>
  Queries, scans and fetching many items of a table, \<^verbatim>\<open>boto/dynamodb2/table.py\<close>: one page of each as a callable for the result
  sets of \<open>DDB_Results\<close>, and counting the matches of a query.
\<close>

section \<open>Requests\<close>

definition layer1_query :: "'w ddb_service \<Rightarrow> string \<Rightarrow> pyval \<Rightarrow> (string, pyval) dict \<Rightarrow> ('w, pyval) py" where
  "layer1_query S table_name key_conditions kwargs =
     S ''Query'' ([(''TableName'', PStr table_name), (''KeyConditions'', key_conditions)] @ optional kwargs
       [(''index_name'', ''IndexName''), (''select'', ''Select''), (''attributes_to_get'', ''AttributesToGet''), (''limit'', ''Limit''),
        (''consistent_read'', ''ConsistentRead''), (''query_filter'', ''QueryFilter''), (''conditional_operator'', ''ConditionalOperator''),
        (''scan_index_forward'', ''ScanIndexForward''), (''exclusive_start_key'', ''ExclusiveStartKey''),
        (''return_consumed_capacity'', ''ReturnConsumedCapacity''), (''projection_expression'', ''ProjectionExpression''),
        (''filter_expression'', ''FilterExpression''), (''expression_attribute_names'', ''ExpressionAttributeNames''),
        (''expression_attribute_values'', ''ExpressionAttributeValues'')])"

definition layer1_scan :: "'w ddb_service \<Rightarrow> string \<Rightarrow> (string, pyval) dict \<Rightarrow> ('w, pyval) py" where
  "layer1_scan S table_name kwargs =
     S ''Scan'' ([(''TableName'', PStr table_name)] @ optional kwargs
       [(''attributes_to_get'', ''AttributesToGet''), (''limit'', ''Limit''), (''select'', ''Select''), (''scan_filter'', ''ScanFilter''),
        (''conditional_operator'', ''ConditionalOperator''), (''exclusive_start_key'', ''ExclusiveStartKey''),
        (''return_consumed_capacity'', ''ReturnConsumedCapacity''), (''total_segments'', ''TotalSegments''), (''segment'', ''Segment''),
        (''projection_expression'', ''ProjectionExpression''), (''filter_expression'', ''FilterExpression''),
        (''expression_attribute_names'', ''ExpressionAttributeNames''), (''expression_attribute_values'', ''ExpressionAttributeValues'')])"

section \<open>One page\<close>

type_synonym key_data = "(string, pyval) dict"

definition load_items :: "pyval \<Rightarrow> item list res" where
  "load_items raw = res_bind (iterate raw) (res_map (\<lambda>raw_item. item_load (PMap [(''Item'', raw_item)])))"

definition read_page :: "pyval \<Rightarrow> (item list \<times> key_data option) res" where
  "read_page raw_results =
     res_bind (res_bind (dict_get raw_results ''Items'' (PList [])) load_items) (\<lambda>results.
       res_bind (dict_get raw_results ''LastEvaluatedKey'' PNone) (\<lambda>k.
         if truthy k then res_bind (res_bind (dict_items k) decode_keys) (\<lambda>last_key. Inr (results, Some last_key)) else Inr (results, None)))"

definition start_key :: "bool \<Rightarrow> key_data option \<Rightarrow> (string, pyval) dict res" where
  "start_key ub exclusive_start_key =
     (case exclusive_start_key of None \<Rightarrow> Inr []
      | Some k \<Rightarrow> if k = [] then Inr [] else res_bind (encode_keys ub k) (\<lambda>r. Inr [(''exclusive_start_key'', r)]))"

definition int_arg :: "int option \<Rightarrow> pyval" where
  "int_arg l = (case l of None \<Rightarrow> PNone | Some n \<Rightarrow> PInt n)"

text \<open>The arguments of a query that are the same for every page.\<close>

record query_args =
  qa_index :: pyval
  qa_reverse :: bool
  qa_consistent :: bool
  qa_select :: pyval
  qa_attributes :: pyval
  qa_query_filter :: "(string, pyval) dict option"
  qa_conditional_operator :: pyval
  qa_filter_kwargs :: "(string, pyval) dict"

definition query_page :: "'w ddb_service \<Rightarrow> query_args \<Rightarrow> (item, key_data, 'w ddb) page_call" where
  "query_page S q limit exclusive_start_key =
     with_table (\<lambda>t.
       py_bind (py_lift (start_key (tb_boolean t) exclusive_start_key)) (\<lambda>start.
       py_bind (py_lift (build_filters (tb_boolean t) query_operators (Some (qa_filter_kwargs q)))) (\<lambda>key_conditions.
       py_bind (py_lift (build_filters (tb_boolean t) filter_operators (qa_query_filter q))) (\<lambda>query_filter.
       py_bind (on_service (layer1_query S (tb_name t) key_conditions
           ([(''limit'', int_arg limit), (''index_name'', qa_index q), (''consistent_read'', PBool (qa_consistent q)), (''select'', qa_select q),
             (''attributes_to_get'', qa_attributes q), (''conditional_operator'', qa_conditional_operator q)]
            @ (if qa_reverse q then [(''scan_index_forward'', PBool False)] else []) @ start @ [(''query_filter'', query_filter)]))) (\<lambda>raw_results.
       py_lift (read_page raw_results))))))"

record scan_args =
  sa_segment :: pyval
  sa_total_segments :: pyval
  sa_attributes :: pyval
  sa_conditional_operator :: pyval
  sa_filter_kwargs :: "(string, pyval) dict"

definition scan_page :: "'w ddb_service \<Rightarrow> scan_args \<Rightarrow> (item, key_data, 'w ddb) page_call" where
  "scan_page S q limit exclusive_start_key =
     with_table (\<lambda>t.
       py_bind (py_lift (start_key (tb_boolean t) exclusive_start_key)) (\<lambda>start.
       py_bind (py_lift (build_filters (tb_boolean t) filter_operators (Some (sa_filter_kwargs q)))) (\<lambda>scan_filter.
       py_bind (on_service (layer1_scan S (tb_name t)
           ([(''limit'', int_arg limit), (''segment'', sa_segment q), (''total_segments'', sa_total_segments q), (''attributes_to_get'', sa_attributes q),
             (''conditional_operator'', sa_conditional_operator q)] @ start @ [(''scan_filter'', scan_filter)]))) (\<lambda>raw_results.
       py_lift (read_page raw_results)))))"

definition batch_get_page :: "'w ddb_service \<Rightarrow> bool \<Rightarrow> pyval \<Rightarrow> (item, key_data, 'w ddb) keys_call" where
  "batch_get_page S consistent attributes keys =
     with_table (\<lambda>t.
       py_bind (py_lift (res_map (encode_keys (tb_boolean t)) keys)) (\<lambda>raw_keys.
       py_bind (on_service (layer1_batch_get_item S (PMap [(tb_name t, PMap ([(''Keys'', PList raw_keys)]
           @ (if consistent then [(''ConsistentRead'', PBool True)] else []) @ (if attributes \<noteq> PNone then [(''AttributesToGet'', attributes)] else [])))]) []))
         (\<lambda>raw_results.
       py_lift
        (res_bind (res_bind (res_bind (subscript raw_results ''Responses'') (\<lambda>r. dict_get r (tb_name t) (PList []))) load_items) (\<lambda>results.
         res_bind (res_bind (dict_get raw_results ''UnprocessedKeys'' (PMap [])) (\<lambda>u. dict_get u (tb_name t) (PMap []))) (\<lambda>u.
         res_bind (res_bind (dict_get u ''Keys'' (PList [])) iterate) (\<lambda>ks.
         res_bind (res_map (\<lambda>k. res_bind (dict_items k) decode_keys) ks) (\<lambda>unprocessed_keys. Inr (results, unprocessed_keys)))))))))"

section \<open>Result sets of a table\<close>

text \<open>A query of a table with one key field and no global index needs a second condition.\<close>

definition query_2 ::
  "'w ddb_service \<Rightarrow> int option \<Rightarrow> pyval \<Rightarrow> bool \<Rightarrow> bool \<Rightarrow> pyval \<Rightarrow> int option \<Rightarrow> (string, pyval) dict option \<Rightarrow> pyval \<Rightarrow> (string, pyval) dict
     \<Rightarrow> ddb_table \<Rightarrow> ((((item, key_data) result_set \<times> 'w ddb, unit) py) \<times> (item, key_data) result_set) res"
where
  "query_2 S limit index reverse consistent attributes max_page_size query_filter conditional_operator filter_kwargs t =
     (if length (tb_schema t) = 1 \<and> length filter_kwargs \<le> 1 \<and> tb_global t = [] then Inl (Boto_Error ''QueryError'')
      else Inr (fetch_more (query_page S \<lparr>qa_index = index, qa_reverse = reverse, qa_consistent = consistent,
                  qa_select = (if attributes \<noteq> PNone then PStr ''SPECIFIC_ATTRIBUTES'' else PNone), qa_attributes = attributes,
                  qa_query_filter = query_filter, qa_conditional_operator = conditional_operator, qa_filter_kwargs = filter_kwargs\<rparr>),
                to_call limit (result_set_init max_page_size)))"

definition table_query ::
  "'w ddb_service \<Rightarrow> int option \<Rightarrow> pyval \<Rightarrow> bool \<Rightarrow> bool \<Rightarrow> pyval \<Rightarrow> int option \<Rightarrow> (string, pyval) dict
     \<Rightarrow> ddb_table \<Rightarrow> ((((item, key_data) result_set \<times> 'w ddb, unit) py) \<times> (item, key_data) result_set) res"
where
  "table_query S limit index reverse consistent attributes max_page_size filter_kwargs =
     query_2 S limit index (\<not> reverse) consistent attributes max_page_size None PNone filter_kwargs"

definition table_scan ::
  "'w ddb_service \<Rightarrow> int option \<Rightarrow> pyval \<Rightarrow> pyval \<Rightarrow> int option \<Rightarrow> pyval \<Rightarrow> pyval \<Rightarrow> (string, pyval) dict
     \<Rightarrow> (((item, key_data) result_set \<times> 'w ddb, unit) py) \<times> (item, key_data) result_set"
where
  "table_scan S limit segment total_segments max_page_size attributes conditional_operator filter_kwargs =
     (fetch_more (scan_page S \<lparr>sa_segment = segment, sa_total_segments = total_segments, sa_attributes = attributes,
        sa_conditional_operator = conditional_operator, sa_filter_kwargs = filter_kwargs\<rparr>), to_call limit (result_set_init max_page_size))"

definition batch_get ::
  "'w ddb_service \<Rightarrow> key_data list \<Rightarrow> bool \<Rightarrow> pyval \<Rightarrow> (((item, key_data) batch_set \<times> 'w ddb, unit) py) \<times> (item, key_data) batch_set"
where
  "batch_get S keys consistent attributes =
     (fetch_batch (batch_get_page S consistent attributes), to_call None (batch_set_init keys 100))"

section \<open>Counting\<close>

definition count_args ::
  "pyval \<Rightarrow> bool \<Rightarrow> pyval \<Rightarrow> pyval \<Rightarrow> bool \<Rightarrow> pyval \<Rightarrow> pyval \<Rightarrow> (string, pyval) dict"
where
  "count_args index consistent query_filter conditional_operator scan_index_forward limit last_evaluated_key =
     [(''index_name'', index), (''consistent_read'', PBool consistent), (''select'', PStr ''COUNT''), (''query_filter'', query_filter),
      (''conditional_operator'', conditional_operator), (''limit'', limit), (''scan_index_forward'', PBool scan_index_forward),
      (''exclusive_start_key'', last_evaluated_key)]"

text \<open>The loop of \<open>query_count\<close>: \<open>ask\<close> is the request for one page, from a start key.\<close>

partial_function (option) count_loop :: "(pyval \<Rightarrow> ('w, pyval) py) \<Rightarrow> int \<Rightarrow> pyval \<Rightarrow> 'w \<Rightarrow> (int res \<times> 'w) option" where
  "count_loop ask count_buffer last_evaluated_key w =
     (case ask last_evaluated_key w of
        (Inl e, w) \<Rightarrow> Some (Inl e, w)
      | (Inr raw, w) \<Rightarrow>
          (case res_bind (dict_get raw ''Count'' (PInt 0)) (\<lambda>c. res_bind (int_of c) (\<lambda>n. res_bind (dict_get raw ''LastEvaluatedKey'' PNone) (\<lambda>k. Inr (n, k)))) of
             Inl e \<Rightarrow> Some (Inl e, w)
           | Inr (n, k) \<Rightarrow>
               if \<not> truthy k \<or> count_buffer + n < 1 then Some (Inr (count_buffer + n), w)
               else count_loop ask (count_buffer + n) k w))"

definition query_count ::
  "'w ddb_service \<Rightarrow> pyval \<Rightarrow> bool \<Rightarrow> pyval \<Rightarrow> (string, pyval) dict option \<Rightarrow> bool \<Rightarrow> pyval \<Rightarrow> pyval \<Rightarrow> (string, pyval) dict
     \<Rightarrow> 'w ddb \<Rightarrow> (int res \<times> 'w ddb) option"
where
  "query_count S index consistent conditional_operator query_filter scan_index_forward limit exclusive_start_key filter_kwargs s =
     (let t = db_table s; ub = tb_boolean t
      in case res_bind (build_filters ub query_operators (Some filter_kwargs)) (\<lambda>k. res_bind (build_filters ub filter_operators query_filter) (\<lambda>q. Inr (k, q))) of
           Inl e \<Rightarrow> Some (Inl e, s)
         | Inr (key_conditions, built) \<Rightarrow>
             count_loop (\<lambda>last_key. on_service (layer1_query S (tb_name t) key_conditions
               (count_args index consistent built conditional_operator scan_index_forward limit last_key))) 0 exclusive_start_key s)"

text \<open>
  A service that counts: the page after a start key has so many matches, and there is a last key unless it is the last page.
  A page can have no match, when a filter drops what was evaluated.
\<close>

definition page_key :: "nat \<Rightarrow> pyval" where
  "page_key i = PMap [(''page'', PInt (int i))]"

definition page_number :: "pyval option \<Rightarrow> nat" where
  "page_number k = (case k of Some (PMap [(x, PInt i)]) \<Rightarrow> nat i | _ \<Rightarrow> 0)"

definition counting :: "nat list \<Rightarrow> 'w ddb_service" where
  "counting ns action params w =
     (let i = page_number (map_of params ''ExclusiveStartKey'')
      in (Inr (PMap ([(''Count'', PInt (int (ns ! i)))] @ (if Suc i < length ns then [(''LastEvaluatedKey'', page_key (Suc i))] else []))), w))"

lemma counting_answer:
  assumes "page_number (if k = PNone then None else Some k) = i"
  shows "on_service (layer1_query (counting ns) t kc (count_args index consistent built conditional_operator scan_index_forward limit k)) s
     = (Inr (PMap ([(''Count'', PInt (int (ns ! i)))] @ (if Suc i < length ns then [(''LastEvaluatedKey'', page_key (Suc i))] else []))), s)"
proof -
  have "map_of (optional (count_args index consistent built conditional_operator scan_index_forward limit k)
      [(''index_name'', ''IndexName''), (''select'', ''Select''), (''attributes_to_get'', ''AttributesToGet''), (''limit'', ''Limit''),
        (''consistent_read'', ''ConsistentRead''), (''query_filter'', ''QueryFilter''), (''conditional_operator'', ''ConditionalOperator''),
        (''scan_index_forward'', ''ScanIndexForward''), (''exclusive_start_key'', ''ExclusiveStartKey''),
        (''return_consumed_capacity'', ''ReturnConsumedCapacity''), (''projection_expression'', ''ProjectionExpression''),
        (''filter_expression'', ''FilterExpression''), (''expression_attribute_names'', ''ExpressionAttributeNames''),
        (''expression_attribute_values'', ''ExpressionAttributeValues'')]) ''ExclusiveStartKey'' = (if k = PNone then None else Some k)"
    by (simp add: optional_def count_args_def)
  then show ?thesis using assms by (simp add: layer1_query_def counting_def on_service_def Let_def)
qed

lemma count_step:
  assumes "page_number (if k = PNone then None else Some k) = i" "i < length ns"
  shows "count_loop (\<lambda>last_key. on_service (layer1_query (counting ns) t kc (count_args index consistent built conditional_operator scan_index_forward limit last_key))) c k s
     = (if Suc i < length ns \<and> 1 \<le> c + int (ns ! i)
        then count_loop (\<lambda>last_key. on_service (layer1_query (counting ns) t kc (count_args index consistent built conditional_operator scan_index_forward limit last_key)))
          (c + int (ns ! i)) (page_key (Suc i)) s
        else Some (Inr (c + int (ns ! i)), s))"
  by (subst count_loop.simps)
     (auto simp: counting_answer [OF assms(1)] dict_get_def int_of_def truthy_def page_key_def)

lemma count_rest:
  assumes "page_number (if k = PNone then None else Some k) = i" "i < length ns" "1 \<le> c"
  shows "count_loop (\<lambda>last_key. on_service (layer1_query (counting ns) t kc (count_args index consistent built conditional_operator scan_index_forward limit last_key))) c k s
     = Some (Inr (c + int (sum_list (drop i ns))), s)"
  using assms
proof (induction "length ns - i" arbitrary: i c k)
  case (Suc m)
  have d: "drop i ns = ns ! i # drop (Suc i) ns" using Suc.prems(2) by (simp add: Cons_nth_drop_Suc)
  show ?case
  proof (cases "Suc i < length ns")
    case True
    have key: "page_number (if page_key (Suc i) = PNone then None else Some (page_key (Suc i))) = Suc i" by (simp add: page_key_def page_number_def)
    show ?thesis using Suc.hyps(1) [OF _ key True] Suc.hyps(2) Suc.prems(3) True
      by (simp add: count_step [OF Suc.prems(1,2)] d)
  next
    case False
    then show ?thesis using Suc.prems(3) by (simp add: count_step [OF Suc.prems(1,2)] d)
  qed
qed simp

text \<open>
  C21: \<open>query_count\<close> gives the sum of the counts of all pages, except when the first page has no match: then it gives 0, and
  the matches of all other pages are not counted.
\<close>

theorem query_count_first_page:
  assumes "ns \<noteq> []"
    and "build_filters (tb_boolean (db_table s)) query_operators (Some filter_kwargs) = Inr key_conditions"
    and "build_filters (tb_boolean (db_table s)) filter_operators query_filter = Inr built"
  shows "query_count (counting ns) index consistent conditional_operator query_filter scan_index_forward limit PNone filter_kwargs s
     = Some (Inr (if hd ns = 0 then 0 else int (sum_list ns)), s)"
proof -
  have first: "page_number (if PNone = PNone then None else Some PNone) = 0" by (simp add: page_number_def)
  have key: "page_number (if page_key 1 = PNone then None else Some (page_key 1)) = 1" by (simp add: page_key_def page_number_def)
  obtain m ms where ns: "ns = m # ms" using assms(1) by (cases ns) auto
  show ?thesis
  proof (cases "0 < m \<and> ms \<noteq> []")
    case True
    then show ?thesis using count_rest [OF key, of ns "int m"] assms(2,3)
      by (simp add: query_count_def count_step [OF first] ns)
  next
    case False
    then show ?thesis using assms(2,3) by (auto simp: query_count_def count_step [OF first] ns)
  qed
qed

theorem query_count_first_page_witness:
  "query_count (counting [0, 7, 5]) PNone False PNone None True PNone PNone [(''name__eq'', PUni ''jane'')] \<lparr>db_table = example_table, db_world = ()\<rparr>
     = Some (Inr 0, \<lparr>db_table = example_table, db_world = ()\<rparr>)"
proof -
  have "build_filters (tb_boolean example_table) query_operators (Some [(''name__eq'', PUni ''jane'')])
      = Inr (PMap [(''name'', PMap [(''AttributeValueList'', PList [raw_text_of ''jane'']), (''ComparisonOperator'', PStr ''EQ'')])])"
    by (simp add: build_filters_def build_filter_def query_operators_def filter_values_def encode_text Let_def)
  then show ?thesis
    using query_count_first_page [of "[0, 7, 5]" "\<lparr>db_table = example_table, db_world = ()\<rparr>" "[(''name__eq'', PUni ''jane'')]" _ None PNone]
    by (simp add: build_filters_def)
qed

section \<open>Conditions\<close>

definition condition_field :: "string \<Rightarrow> string" where
  "condition_field k = str_join ''__'' (butlast (split_dunder k))"

lemma build_filter_field: "build_filter ub ops k v = Inr (f, l) \<Longrightarrow> f = condition_field k"
  by (auto simp: build_filter_def condition_field_def Let_def res_bind_Inr_iff split: option.splits if_splits)

lemma res_map_append: "res_map f (xs @ ys) = res_bind (res_map f xs) (\<lambda>as. res_bind (res_map f ys) (\<lambda>bs. Inr (as @ bs)))"
  by (induction xs) (auto simp: res_bind_def split: sum.splits)

lemma fold_update_last:
  "map_of (fold (\<lambda>(f, l). AList.update f l) fs d) x = (case map_of (rev fs) x of None \<Rightarrow> map_of d x | Some l \<Rightarrow> Some l)"
  by (induction fs arbitrary: d) (auto simp: update_conv' map_add_def split: option.splits)

text \<open>
  Of several conditions on one attribute only the last is sent, and the others are dropped without an error.
\<close>

theorem last_condition_sent:
  assumes "build_filters ub operators (Some (conditions @ (k, v) # others)) = Inr r"
    and "\<forall>(j, w) \<in> set others. condition_field j \<noteq> condition_field k"
  shows "\<exists>fs l. r = PMap fs \<and> build_filter ub operators k v = Inr (condition_field k, l) \<and> map_of fs (condition_field k) = Some l \<and> distinct (map fst fs)"
proof -
  obtain bs where bs: "res_map (\<lambda>(k, v). build_filter ub operators k v) (conditions @ (k, v) # others) = Inr bs"
    and r: "r = PMap (fold (\<lambda>(f, l). AList.update f l) bs [])"
    using assms(1) by (auto simp: build_filters_def res_bind_Inr_iff)
  obtain as b cs where parts: "bs = as @ b # cs" "build_filter ub operators k v = Inr b"
      "res_map (\<lambda>(k, v). build_filter ub operators k v) others = Inr cs"
    using bs by (auto simp: res_map_append res_bind_Inr_iff)
  obtain l where b: "b = (condition_field k, l)" using build_filter_field parts(2) by (cases b) auto
  have "condition_field k \<notin> fst ` set cs"
  proof
    assume "condition_field k \<in> fst ` set cs"
    then obtain y where "(condition_field k, y) \<in> set cs" by auto
    from res_map_source [OF parts(3) this] obtain j w where j: "(j, w) \<in> set others" "build_filter ub operators j w = Inr (condition_field k, y)"
      by auto
    then show False using assms(2) build_filter_field [OF j(2)] by auto
  qed
  then have "map_of (rev cs) (condition_field k) = None" by (simp add: map_of_eq_None_iff)
  then have "map_of (fold (\<lambda>(f, l). AList.update f l) bs []) (condition_field k) = Some l"
    unfolding fold_update_last by (simp add: parts(1) b map_add_def)
  moreover have "distinct (map fst (fold (\<lambda>(f, l). AList.update f l) bs d))" if "distinct (map fst d)" for d :: "(string, pyval) dict"
    using that by (induction bs arbitrary: d) (auto simp: distinct_update)
  ultimately show ?thesis using parts(2) b r by auto
qed

theorem last_condition_sent_witness:
  "\<exists>fs l. build_filters False query_operators (Some [(''age__gte'', PUni ''1''), (''age__lte'', PUni ''5'')]) = Inr (PMap fs)
     \<and> build_filter False query_operators ''age__lte'' (PUni ''5'') = Inr (''age'', l) \<and> map_of fs ''age'' = Some l \<and> distinct (map fst fs)"
proof -
  obtain r where r: "build_filters False query_operators (Some ([(''age__gte'', PUni ''1'')] @ (''age__lte'', PUni ''5'') # [])) = Inr r"
    by (simp add: build_filters_def build_filter_def query_operators_def filter_values_def encode_text Let_def)
  have "condition_field ''age__lte'' = ''age''" by (simp add: condition_field_def)
  then show ?thesis using last_condition_sent [OF r] r by auto
qed

end
