(* ===== verification/DDB_Batch.thy ===== *)
theory DDB_Batch
  imports DDB_Items "HOL-Library.Multiset"
begin

text \<open>
  Batched writes, \<open>BatchTable\<close> of \<^verbatim>\<open>boto/dynamodb2/table.py\<close>: writes are collected, sent in batches of 25, and what the service
  leaves unprocessed is sent again at the end of the \<open>with\<close> block.
\<close>

section \<open>The batch\<close>

record 'w batch_ddb = "'w ddb" +
  bt_put :: "(string, pyval) dict list"
  bt_delete :: "(string, pyval) dict list"
  bt_unprocessed :: "pyval list"

definition batch_init :: "'w ddb \<Rightarrow> 'w batch_ddb" where
  "batch_init s = ddb.extend s \<lparr>bt_put = [], bt_delete = [], bt_unprocessed = []\<rparr>"

definition should_flush :: "('w, 'z) batch_ddb_scheme \<Rightarrow> bool" where
  "should_flush s = (length (bt_put s) + length (bt_delete s) = 25)"

definition put_request :: "bool \<Rightarrow> (string, pyval) dict \<Rightarrow> pyval res" where
  "put_request ub d = res_bind (prepare_full ub (item_init (Some d) False)) (\<lambda>raw. Inr (PMap [(''PutRequest'', PMap [(''Item'', PMap raw)])]))"

definition delete_request :: "bool \<Rightarrow> (string, pyval) dict \<Rightarrow> pyval res" where
  "delete_request ub key = res_bind (encode_keys ub key) (\<lambda>k. Inr (PMap [(''DeleteRequest'', PMap [(''Key'', k)])]))"

definition handle_unprocessed :: "pyval \<Rightarrow> (('w, 'z) batch_ddb_scheme, unit) py" where
  "handle_unprocessed resp =
     with_table (\<lambda>t.
       py_bind (py_lift (res_bind (dict_get resp ''UnprocessedItems'' (PList [])) (\<lambda>u. res_bind (len_of u) (\<lambda>n.
           if n = 0 then Inr [] else res_bind (dict_get u (tb_name t) (PList [])) iterate)))) (\<lambda>unprocessed s.
       (Inr (), s\<lparr>bt_unprocessed := bt_unprocessed s @ unprocessed\<rparr>)))"

definition write_batch :: "'w ddb_service \<Rightarrow> pyval list \<Rightarrow> (('w, 'z) batch_ddb_scheme, unit) py" where
  "write_batch S requests =
     with_table (\<lambda>t. py_bind (on_service (layer1_batch_write_item S (PMap [(tb_name t, PList requests)]) [])) handle_unprocessed)"

definition flush :: "'w ddb_service \<Rightarrow> (('w, 'z) batch_ddb_scheme, unit) py" where
  "flush S =
     (\<lambda>s. py_bind (py_lift (res_map (put_request (tb_boolean (db_table s))) (bt_put s))) (\<lambda>puts.
          py_bind (py_lift (res_map (delete_request (tb_boolean (db_table s))) (bt_delete s))) (\<lambda>deletes.
          py_bind (write_batch S (puts @ deletes)) (\<lambda>_ s.
          (Inr (), s\<lparr>bt_put := [], bt_delete := []\<rparr>)))) s)"

definition batch_put_item :: "'w ddb_service \<Rightarrow> (string, pyval) dict \<Rightarrow> (('w, 'z) batch_ddb_scheme, unit) py" where
  "batch_put_item S data s = (let s = s\<lparr>bt_put := bt_put s @ [data]\<rparr> in if should_flush s then flush S s else (Inr (), s))"

definition batch_delete_item :: "'w ddb_service \<Rightarrow> (string, pyval) dict \<Rightarrow> (('w, 'z) batch_ddb_scheme, unit) py" where
  "batch_delete_item S key s = (let s = s\<lparr>bt_delete := bt_delete s @ [key]\<rparr> in if should_flush s then flush S s else (Inr (), s))"

text \<open>Sending again until nothing is left, which may never be.\<close>

partial_function (option) resend_unprocessed :: "'w ddb_service \<Rightarrow> ('w, 'z) batch_ddb_scheme \<Rightarrow> (unit res \<times> ('w, 'z) batch_ddb_scheme) option" where
  "resend_unprocessed S s =
     (if bt_unprocessed s = [] then Some (Inr (), s)
      else case write_batch S (take 25 (bt_unprocessed s)) (s\<lparr>bt_unprocessed := drop 25 (bt_unprocessed s)\<rparr>) of
             (Inl e, s) \<Rightarrow> Some (Inl e, s)
           | (Inr _, s) \<Rightarrow> resend_unprocessed S s)"

definition batch_exit :: "'w ddb_service \<Rightarrow> ('w, 'z) batch_ddb_scheme \<Rightarrow> (unit res \<times> ('w, 'z) batch_ddb_scheme) option" where
  "batch_exit S s =
     (case (if bt_put s \<noteq> [] \<or> bt_delete s \<noteq> [] then flush S s else (Inr (), s)) of
        (Inl e, s) \<Rightarrow> Some (Inl e, s)
      | (Inr _, s) \<Rightarrow> resend_unprocessed S s)"

text \<open>A \<open>with\<close> block of puts and deletes; the exit is run also when the block has raised an exception.\<close>

datatype batch_op = BatchPut "(string, pyval) dict" | BatchDelete "(string, pyval) dict"

primrec batch_step :: "'w ddb_service \<Rightarrow> batch_op \<Rightarrow> (('w, 'z) batch_ddb_scheme, unit) py" where
  "batch_step S (BatchPut d) = batch_put_item S d"
| "batch_step S (BatchDelete k) = batch_delete_item S k"

definition batch_write :: "'w ddb_service \<Rightarrow> batch_op list \<Rightarrow> 'w ddb \<Rightarrow> (unit res \<times> 'w batch_ddb) option" where
  "batch_write S ops s =
     (case py_for ops (batch_step S) (batch_init s) of
        (Inl e, s) \<Rightarrow> (case batch_exit S s of None \<Rightarrow> None | Some (Inl e', s) \<Rightarrow> Some (Inl e', s) | Some (Inr _, s) \<Rightarrow> Some (Inl e, s))
      | (Inr _, s) \<Rightarrow> batch_exit S s)"

section \<open>Every write is done once\<close>

text \<open>
  A service that does the first \<open>sz\<close> writes of each batch and returns the others as unprocessed.  It records what it has done
  and the batches that it was sent.
\<close>

type_synonym batch_log = "pyval list \<times> pyval list list"

definition batch_service :: "string \<Rightarrow> (batch_log \<Rightarrow> nat) \<Rightarrow> batch_log ddb_service" where
  "batch_service name sz action params w =
     (case map_of params ''RequestItems'' of
        Some (PMap [(t, PList rs)]) \<Rightarrow>
          (Inr (PMap [(''UnprocessedItems'', PMap (if length rs \<le> sz w then [] else [(name, PList (drop (sz w) rs))]))]),
           (fst w @ take (sz w) rs, snd w @ [rs]))
      | _ \<Rightarrow> (Inl (Boto_Error ''ValidationException''), w))"

primrec request_of :: "bool \<Rightarrow> batch_op \<Rightarrow> pyval res" where
  "request_of ub (BatchPut d) = put_request ub d"
| "request_of ub (BatchDelete k) = delete_request ub k"

lemma write_batch_logs:
  assumes "tb_name (db_table s) = name"
  shows "write_batch (batch_service name sz) rs s
     = (Inr (), s\<lparr>db_world := (fst (db_world s) @ take (sz (db_world s)) rs, snd (db_world s) @ [rs]),
          bt_unprocessed := bt_unprocessed s @ drop (sz (db_world s)) rs\<rparr>)"
  using assms
  by (auto simp: write_batch_def with_table_def py_simps on_service_def layer1_batch_write_item_def optional_def batch_service_def
      handle_unprocessed_def dict_get_def len_of_def iterate_def)

definition batch_ok :: "bool \<Rightarrow> string \<Rightarrow> pyval multiset \<Rightarrow> batch_log batch_ddb \<Rightarrow> bool" where
  "batch_ok ub name requests s \<longleftrightarrow> tb_name (db_table s) = name \<and> tb_boolean (db_table s) = ub
     \<and> (\<forall>b \<in> set (snd (db_world s)). b \<noteq> [] \<and> length b \<le> 25)
     \<and> (\<exists>ps ds. res_map (put_request ub) (bt_put s) = Inr ps \<and> res_map (delete_request ub) (bt_delete s) = Inr ds
          \<and> mset (fst (db_world s)) + mset (bt_unprocessed s) + mset ps + mset ds = requests)"

lemma res_map_length: "res_map f xs = Inr ys \<Longrightarrow> length ys = length xs"
  by (auto simp: res_map_Inr list_all2_lengthD)

lemma mset_take_drop: "mset (take n xs) + mset (drop n xs) = mset xs"
  by (metis append_take_drop_id mset_append)

lemma batch_flush_ok:
  assumes "batch_ok ub name requests s" and "bt_put s \<noteq> [] \<or> bt_delete s \<noteq> []" and "length (bt_put s) + length (bt_delete s) \<le> 25"
  shows "\<exists>t. flush (batch_service name sz) s = (Inr (), t) \<and> batch_ok ub name requests t \<and> bt_put t = [] \<and> bt_delete t = []"
proof -
  obtain ps ds where ps: "res_map (put_request ub) (bt_put s) = Inr ps" "res_map (delete_request ub) (bt_delete s) = Inr ds"
      "mset (fst (db_world s)) + mset (bt_unprocessed s) + mset ps + mset ds = requests"
    and s: "tb_name (db_table s) = name" "tb_boolean (db_table s) = ub" "\<forall>b \<in> set (snd (db_world s)). b \<noteq> [] \<and> length b \<le> 25"
    using assms(1) by (auto simp: batch_ok_def)
  let ?n = "sz (db_world s)" and ?rs = "ps @ ds"
  define t where "t = s\<lparr>db_world := (fst (db_world s) @ take ?n ?rs, snd (db_world s) @ [?rs]), bt_unprocessed := bt_unprocessed s @ drop ?n ?rs,
      bt_put := [], bt_delete := []\<rparr>"
  have "flush (batch_service name sz) s = (Inr (), t)"
    using write_batch_logs [OF s(1), of sz ?rs] by (simp add: flush_def py_simps s(2) ps(1,2) t_def)
  moreover have "?rs \<noteq> [] \<and> length ?rs \<le> 25" using assms(2,3) res_map_length [OF ps(1)] res_map_length [OF ps(2)] by auto
  moreover have "mset (fst (db_world t)) + mset (bt_unprocessed t) = requests"
  proof -
    have "mset (fst (db_world t)) + mset (bt_unprocessed t) = mset (fst (db_world s)) + mset (bt_unprocessed s) + (mset (take ?n ?rs) + mset (drop ?n ?rs))"
      by (simp add: t_def del: take_append drop_append)
    also have "\<dots> = requests" using ps(3) unfolding mset_take_drop by (simp add: add.assoc)
    finally show ?thesis .
  qed
  ultimately show ?thesis using s by (intro exI [of _ t]) (auto simp: batch_ok_def t_def)
qed

lemma batch_step_ok:
  assumes "batch_ok ub name requests s" and "request_of ub op = Inr r" and "length (bt_put s) + length (bt_delete s) < 25"
  shows "\<exists>t. batch_step (batch_service name sz) op s = (Inr (), t) \<and> batch_ok ub name (add_mset r requests) t
     \<and> length (bt_put t) + length (bt_delete t) < 25"
proof -
  define s' where "s' = (case op of BatchPut d \<Rightarrow> s\<lparr>bt_put := bt_put s @ [d]\<rparr> | BatchDelete k \<Rightarrow> s\<lparr>bt_delete := bt_delete s @ [k]\<rparr>)"
  obtain ps ds where ps: "res_map (put_request ub) (bt_put s) = Inr ps" "res_map (delete_request ub) (bt_delete s) = Inr ds"
      "mset (fst (db_world s)) + mset (bt_unprocessed s) + mset ps + mset ds = requests"
    and s: "tb_name (db_table s) = name" "tb_boolean (db_table s) = ub" "\<forall>b \<in> set (snd (db_world s)). b \<noteq> [] \<and> length b \<le> 25"
    using assms(1) by (auto simp: batch_ok_def)
  have snoc: "res_map f (xs @ [x]) = Inr (ys @ [y])" if "res_map f xs = Inr ys" "f x = Inr y" for f :: "(string, pyval) dict \<Rightarrow> pyval res" and xs x ys y
    using that by (induction xs arbitrary: ys) (auto simp: res_bind_Inr_iff)
  have ok: "batch_ok ub name (add_mset r requests) s'"
  proof (cases op)
    case (BatchPut d)
    then have "res_map (put_request ub) (bt_put s') = Inr (ps @ [r])" using snoc [OF ps(1)] assms(2) by (simp add: s'_def)
    then show ?thesis using BatchPut s ps(2,3) by (auto simp: batch_ok_def s'_def)
  next
    case (BatchDelete k)
    then have "res_map (delete_request ub) (bt_delete s') = Inr (ds @ [r])" using snoc [OF ps(2)] assms(2) by (simp add: s'_def)
    then show ?thesis using BatchDelete s ps(1,3) by (auto simp: batch_ok_def s'_def)
  qed
  have step: "batch_step (batch_service name sz) op s = (if should_flush s' then flush (batch_service name sz) s' else (Inr (), s'))"
    by (cases op) (simp_all add: s'_def batch_put_item_def batch_delete_item_def Let_def)
  have size: "length (bt_put s') + length (bt_delete s') \<le> 25" using assms(3) by (cases op) (simp_all add: s'_def)
  show ?thesis
  proof (cases "should_flush s'")
    case True
    then have "bt_put s' \<noteq> [] \<or> bt_delete s' \<noteq> []" by (auto simp: should_flush_def)
    from batch_flush_ok [OF ok this size, of sz] obtain t where
      "flush (batch_service name sz) s' = (Inr (), t)" "batch_ok ub name (add_mset r requests) t" "bt_put t = []" "bt_delete t = []" by blast
    then show ?thesis using step True by simp
  next
    case False
    then show ?thesis using step ok size by (auto simp: should_flush_def)
  qed
qed

lemma batch_steps_ok:
  assumes "batch_ok ub name requests s" and "list_all2 (\<lambda>op r. request_of ub op = Inr r) ops rs" and "length (bt_put s) + length (bt_delete s) < 25"
  shows "\<exists>t. py_for ops (batch_step (batch_service name sz)) s = (Inr (), t) \<and> batch_ok ub name (requests + mset rs) t
     \<and> length (bt_put t) + length (bt_delete t) < 25"
  using assms
proof (induction ops arbitrary: rs s requests)
  case (Cons op ops)
  obtain r rs' where rs: "rs = r # rs'" "request_of ub op = Inr r" "list_all2 (\<lambda>op r. request_of ub op = Inr r) ops rs'"
    using Cons.prems(2) by (auto simp: list_all2_Cons1)
  obtain t where t: "batch_step (batch_service name sz) op s = (Inr (), t)" "batch_ok ub name (add_mset r requests) t" "length (bt_put t) + length (bt_delete t) < 25"
    using batch_step_ok [OF Cons.prems(1) rs(2) Cons.prems(3)] by blast
  show ?case using Cons.IH [OF t(2) rs(3) t(3)] t(1) by (simp add: rs(1))
qed simp

lemma resend_ok:
  assumes "batch_ok ub name requests s" and "bt_put s = []" "bt_delete s = []" and sz: "\<forall>w. 1 \<le> sz w"
  shows "\<exists>t. resend_unprocessed (batch_service name sz) s = Some (Inr (), t) \<and> batch_ok ub name requests t
     \<and> bt_unprocessed t = [] \<and> bt_put t = [] \<and> bt_delete t = []"
  using assms(1-3)
proof (induction "length (bt_unprocessed s)" arbitrary: s rule: less_induct)
  case less
  show ?case
  proof (cases "bt_unprocessed s = []")
    case True
    then show ?thesis using less.prems by (subst resend_unprocessed.simps) auto
  next
    case False
    let ?n = "sz (db_world s)" and ?un = "bt_unprocessed s"
    define t where "t = s\<lparr>db_world := (fst (db_world s) @ take ?n (take 25 ?un), snd (db_world s) @ [take 25 ?un]),
        bt_unprocessed := drop 25 ?un @ drop ?n (take 25 ?un)\<rparr>"
    have s: "tb_name (db_table s) = name" using less.prems(1) by (simp add: batch_ok_def)
    have wrote: "write_batch (batch_service name sz) (take 25 ?un) (s\<lparr>bt_unprocessed := drop 25 ?un\<rparr>) = (Inr (), t)"
      using write_batch_logs [of "s\<lparr>bt_unprocessed := drop 25 ?un\<rparr>" name sz "take 25 ?un"] s by (simp add: t_def del: take_take)
    have "1 \<le> ?n" using sz by blast
    then have smaller: "length (bt_unprocessed t) < length ?un" using False by (cases ?un) (auto simp: t_def min_def)
    have "mset (fst (db_world t)) + mset (bt_unprocessed t) = mset (fst (db_world s)) + mset ?un"
    proof -
      have "mset (fst (db_world t)) + mset (bt_unprocessed t)
          = mset (fst (db_world s)) + (mset (take ?n (take 25 ?un)) + mset (drop ?n (take 25 ?un)) + mset (drop 25 ?un))"
        by (simp add: t_def del: take_take)
      then show ?thesis unfolding mset_take_drop .
    qed
    then have ok: "batch_ok ub name requests t" using less.prems False by (auto simp: batch_ok_def t_def)
    show ?thesis using less.hyps [OF smaller ok] less.prems(2,3) False wrote
      by (subst resend_unprocessed.simps) (simp add: t_def)
  qed
qed

text \<open>
  C11: in a \<open>with\<close> block of any puts and deletes every write is sent until the service has done it, and is done exactly once;
  no batch is empty or has more than 25 writes; and the block ends, over a service that does at least one write of every
  batch, however few it does each time, and returns the others as unprocessed.
\<close>

theorem batch_writes_once:
  assumes "list_all2 (\<lambda>op r. request_of (tb_boolean t) op = Inr r) ops requests" and "\<forall>w. 1 \<le> sz w"
  shows "\<exists>s. batch_write (batch_service (tb_name t) sz) ops \<lparr>db_table = t, db_world = ([], [])\<rparr> = Some (Inr (), s)
     \<and> mset (fst (db_world s)) = mset requests \<and> (\<forall>b \<in> set (snd (db_world s)). b \<noteq> [] \<and> length b \<le> 25) \<and> bt_unprocessed s = []"
proof -
  let ?S = "batch_service (tb_name t) sz" and ?ub = "tb_boolean t"
  define s0 where "s0 = batch_init \<lparr>db_table = t, db_world = (([], []) :: batch_log)\<rparr>"
  have s0: "batch_ok ?ub (tb_name t) {#} s0" "length (bt_put s0) + length (bt_delete s0) < 25"
    by (simp_all add: s0_def batch_init_def ddb.defs batch_ok_def)
  from batch_steps_ok [OF s0(1) assms(1) s0(2), of sz] obtain s1 where s1: "py_for ops (batch_step ?S) s0 = (Inr (), s1)"
      "batch_ok ?ub (tb_name t) (mset requests) s1" "length (bt_put s1) + length (bt_delete s1) < 25" by auto
  have "\<exists>s2. (if bt_put s1 \<noteq> [] \<or> bt_delete s1 \<noteq> [] then flush ?S s1 else (Inr (), s1)) = (Inr (), s2)
      \<and> batch_ok ?ub (tb_name t) (mset requests) s2 \<and> bt_put s2 = [] \<and> bt_delete s2 = []"
    using batch_flush_ok [OF s1(2), of sz] s1(2,3) by auto
  then obtain s2 where s2: "(if bt_put s1 \<noteq> [] \<or> bt_delete s1 \<noteq> [] then flush ?S s1 else (Inr (), s1)) = (Inr (), s2)"
      "batch_ok ?ub (tb_name t) (mset requests) s2" "bt_put s2 = []" "bt_delete s2 = []" by blast
  obtain s3 where s3: "resend_unprocessed ?S s2 = Some (Inr (), s3)" "batch_ok ?ub (tb_name t) (mset requests) s3" "bt_unprocessed s3 = []"
      "bt_put s3 = []" "bt_delete s3 = []" using resend_ok [OF s2(2-4) assms(2)] by blast
  have "batch_write ?S ops \<lparr>db_table = t, db_world = ([], [])\<rparr> = Some (Inr (), s3)"
    using s1(1) s2(1) s3(1) by (simp add: batch_write_def s0_def [symmetric] batch_exit_def)
  then show ?thesis using s3(2-5) by (auto simp: batch_ok_def)
qed

theorem batch_writes_once_witness:
  "\<exists>s. batch_write (batch_service (tb_name example_table) (\<lambda>w. 1)) [BatchPut [(''name'', PUni ''jane'')], BatchDelete [(''name'', PUni ''joe'')]]
        \<lparr>db_table = example_table, db_world = ([], [])\<rparr> = Some (Inr (), s)
     \<and> mset (fst (db_world s)) = mset [PMap [(''PutRequest'', PMap [(''Item'', PMap [(''name'', raw_text_of ''jane'')])])],
          PMap [(''DeleteRequest'', PMap [(''Key'', PMap [(''name'', raw_text_of ''joe'')])])]]
     \<and> (\<forall>b \<in> set (snd (db_world s)). b \<noteq> [] \<and> length b \<le> 25) \<and> bt_unprocessed s = []"
proof (rule batch_writes_once)
  show "list_all2 (\<lambda>op r. request_of (tb_boolean example_table) op = Inr r) [BatchPut [(''name'', PUni ''jane'')], BatchDelete [(''name'', PUni ''joe'')]]
      [PMap [(''PutRequest'', PMap [(''Item'', PMap [(''name'', raw_text_of ''jane'')])])],
       PMap [(''DeleteRequest'', PMap [(''Key'', PMap [(''name'', raw_text_of ''joe'')])])]]"
    by (simp add: put_request_def delete_request_def prepare_full_def item_init_def is_storable_def truthy_def encode_text encode_keys_def)
qed simp

section \<open>After a failed flush\<close>

lemma write_batch_lists: "write_batch S rs s = (r, t) \<Longrightarrow> bt_put t = bt_put s \<and> bt_delete t = bt_delete s"
  by (auto simp: write_batch_def with_table_def py_simps on_service_def handle_unprocessed_def split: prod.splits sum.splits)

lemma flush_failed: "flush S s = (Inl e, t) \<Longrightarrow> bt_put t = bt_put s \<and> bt_delete t = bt_delete s"
  by (auto simp: flush_def py_simps split: prod.splits sum.splits dest!: write_batch_lists)

text \<open>
  C20: when a full batch could not be sent and the exception is handled inside the block, no further put sends anything: the
  batch grows past 25, is never full again, and the exit of the block sends it in one request.
\<close>

theorem failed_flush_stalls:
  assumes "batch_put_item S d s = (Inl e, t)"
  shows "py_for (map BatchPut ds) (batch_step S) t = (Inr (), t\<lparr>bt_put := bt_put t @ ds\<rparr>)
     \<and> length (bt_put t @ ds) + length (bt_delete t) = 25 + length ds"
proof -
  have full: "length (bt_put t) + length (bt_delete t) = 25"
    using assms flush_failed by (fastforce simp: batch_put_item_def should_flush_def Let_def split: if_splits)
  then have "py_for (map BatchPut ds) (batch_step S) t = (Inr (), t\<lparr>bt_put := bt_put t @ ds\<rparr>)"
  proof (induction ds rule: rev_induct)
    case (snoc x ds)
    then show ?case by (simp add: py_for_append batch_put_item_def should_flush_def Let_def)
  qed simp
  then show ?thesis using full by simp
qed

definition full_batch :: "unit batch_ddb" where
  "full_batch = (batch_init \<lparr>db_table = example_table, db_world = ()\<rparr>)\<lparr>bt_put := replicate 24 []\<rparr>"

theorem failed_flush_stalls_witness:
  "py_for (map BatchPut [[(''a'', PInt 1)]]) (batch_step (\<lambda>action params w. (Inl (IOError ''timed out''), w))) (full_batch\<lparr>bt_put := replicate 25 []\<rparr>)
       = (Inr (), full_batch\<lparr>bt_put := replicate 25 []\<rparr>\<lparr>bt_put := bt_put (full_batch\<lparr>bt_put := replicate 25 []\<rparr>) @ [[(''a'', PInt 1)]]\<rparr>)
     \<and> length (bt_put (full_batch\<lparr>bt_put := replicate 25 []\<rparr>) @ [[(''a'', PInt 1)]]) + length (bt_delete (full_batch\<lparr>bt_put := replicate 25 []\<rparr>)) = 25 + length [[(''a'', PInt 1)]]"
proof (rule failed_flush_stalls)
  have many: "replicate 24 [] @ [[]] = replicate 25 ([] :: (string, pyval) dict)"
    using replicate_append_same [of 24 "[] :: (string, pyval) dict"] by (simp add: numeral_eq_Suc)
  have puts: "res_map (put_request False) (replicate n []) = Inr (replicate n (PMap [(''PutRequest'', PMap [(''Item'', PMap [])])]))" for n
    by (induction n) (simp_all add: put_request_def prepare_full_def item_init_def)
  show "batch_put_item (\<lambda>action params w. (Inl (IOError ''timed out''), w)) [] full_batch = (Inl (IOError ''timed out''), full_batch\<lparr>bt_put := replicate 25 []\<rparr>)"
    unfolding batch_put_item_def full_batch_def Let_def
    by (simp add: many should_flush_def flush_def py_simps puts write_batch_def with_table_def on_service_def layer1_batch_write_item_def
        batch_init_def ddb.defs example_table_def table_init_def del: replicate.simps)
qed

end
