(* ===== verification/DDB_Request.thy ===== *)
theory DDB_Request
  imports DDB_Table Conn_Mexe
begin

text \<open>
  How DynamoDB requests are sent, \<open>make_request\<close> and its retry handler of \<^verbatim>\<open>boto/dynamodb2/layer1.py\<close>, over the loop of
  \<open>Conn_Mexe\<close>: throttled requests are repeated after growing pauses, other errors are raised, and responses with a wrong
  checksum are asked for again.

  JSON and CRC-32 are library code and parameters, as is the header \<^verbatim>\<open>x-amz-crc32\<close> of the response in a round.
\<close>

record ddb_env =
  de_json :: "string \<Rightarrow> pyval res"
  de_crc32 :: "string \<Rightarrow> int"
  de_crc_header :: "nat \<Rightarrow> string option"
  de_validate :: bool
  de_max_delay :: "string option" \<comment> \<open>the option \<open>max_retry_delay\<close>, a text when it is set\<close>

definition number_retries :: nat where
  "number_retries = 10"

text \<open>In Python 2 every number is less than a text, so that a configured limit is none.\<close>

definition truncated_exponential_time :: "ddb_env \<Rightarrow> nat \<Rightarrow> real" where
  "truncated_exponential_time D i =
     (if i = 0 then 0 else case de_max_delay D of None \<Rightarrow> min (5 / 100 * 2 ^ i) 60 | Some s \<Rightarrow> 5 / 100 * 2 ^ i)"

definition ddb_error :: "string \<Rightarrow> mexe_exc" where
  "ddb_error name = Raised (Boto_Error name)"

text \<open>The type that a body names, and \<open>in\<close> on what JSON can hold there.\<close>

definition error_type :: "ddb_env \<Rightarrow> string \<Rightarrow> pyval res" where
  "error_type D body =
     (if \<not> utf8_valid body then Inl UnicodeDecodeError
      else res_bind (de_json D body) (\<lambda>data. dict_get data ''__type'' PNone))"

definition mentions :: "pyval \<Rightarrow> string \<Rightarrow> bool res" where
  "mentions v w =
     (case v of
        PUni s \<Rightarrow> Inr (str_contains s w)
      | PStr s \<Rightarrow> Inr (str_contains s w)
      | PList vs \<Rightarrow> Inr (PUni w \<in> set vs)
      | PMap fs \<Rightarrow> Inr (w \<in> fst ` set fs)
      | _ \<Rightarrow> Inl TypeError)"

text \<open>
  The last attempt raises the exception of DynamoDB; the pause was computed before the attempt was counted.
\<close>

definition handle_400 :: "ddb_env \<Rightarrow> string \<Rightarrow> nat \<Rightarrow> mexe_exc + (string option \<times> nat \<times> real)" where
  "handle_400 D body i =
     (case res_bind (error_type D body) (\<lambda>t. res_bind (mentions t ''ProvisionedThroughputExceededException'') (\<lambda>throughput.
             res_bind (mentions t ''ConditionalCheckFailedException'') (\<lambda>condition.
             res_bind (mentions t ''ValidationException'') (\<lambda>validation. Inr (throughput, condition, validation))))) of
        Inl e \<Rightarrow> Inl (Raised e)
      | Inr (throughput, condition, validation) \<Rightarrow>
          if throughput
          then if Suc i = number_retries then Inl (ddb_error ''ProvisionedThroughputExceededException'')
               else Inr (Some (''ProvisionedThroughputExceededException, retry attempt '' @ nat_str i), Suc i, truncated_exponential_time D i)
          else if condition then Inl (ddb_error ''ConditionalCheckFailedException'')
          else if validation then Inl (ddb_error ''ValidationException'')
          else Inl (ddb_error ''JSONResponseError''))"

definition check_crc :: "ddb_env \<Rightarrow> nat \<Rightarrow> string \<Rightarrow> nat \<Rightarrow> (string option \<times> nat \<times> real) option \<Rightarrow> mexe_exc + (string option \<times> nat \<times> real) option" where
  "check_crc D n body i status =
     (case de_crc_header D n of
        None \<Rightarrow> Inr status
      | Some expected \<Rightarrow>
          if \<not> de_validate D then Inr status
          else case py_int expected of
                 Inl e \<Rightarrow> Inl (Raised e)
               | Inr c \<Rightarrow>
                   if de_crc32 D body \<noteq> c
                   then Inr (Some (Some (''The calculated checksum '' @ str_int (de_crc32 D body) @ '' did not match the expected checksum '' @ str_int c),
                          Suc i, truncated_exponential_time D i))
                   else Inr status)"

definition ddb_retry_handler :: "ddb_env \<Rightarrow> nat \<Rightarrow> response \<Rightarrow> nat \<Rightarrow> real \<Rightarrow> mexe_exc + (string option \<times> nat \<times> real) option" where
  "ddb_retry_handler D n r i delay =
     (if resp_status r = 400
      then (case handle_400 D (resp_body r) i of
              Inl e \<Rightarrow> Inl e
            | Inr status \<Rightarrow> check_crc D n (resp_body r) (Suc i) (Some status))
      else check_crc D n (resp_body r) i None)"

text \<open>The exceptions by the type that a body names exactly; lists and maps are no keys.\<close>

definition ddb_faults :: "string list" where
  "ddb_faults = [''ProvisionedThroughputExceededException'', ''LimitExceededException'', ''ConditionalCheckFailedException'', ''ResourceInUseException'',
     ''ResourceNotFoundException'', ''InternalServerError'', ''ItemCollectionSizeLimitExceededException'']"

definition read_response :: "ddb_env \<Rightarrow> response \<Rightarrow> mexe_exc + pyval" where
  "read_response D r =
     (if \<not> utf8_valid (resp_body r) then Inl (Raised UnicodeDecodeError)
      else if resp_status r = 200
      then if resp_body r = [] then Inr PNone else (case de_json D (resp_body r) of Inl e \<Rightarrow> Inl (Raised e) | Inr v \<Rightarrow> Inr v)
      else Inl (case res_bind (de_json D (resp_body r)) (\<lambda>j. dict_get j ''__type'' PNone) of
              Inl e \<Rightarrow> Raised e
            | Inr (PUni s) \<Rightarrow> ddb_error (if s \<in> set ddb_faults then s else ''JSONResponseError'')
            | Inr (PList vs) \<Rightarrow> Raised TypeError
            | Inr (PMap fs) \<Rightarrow> Raised TypeError
            | Inr _ \<Rightarrow> ddb_error ''JSONResponseError''))"

definition ddb_headers :: "string \<Rightarrow> string \<Rightarrow> string \<Rightarrow> headers" where
  "ddb_headers action h body =
     [(''X-Amz-Target'', HStr (''DynamoDB_20120810.'' @ action)), (''Host'', HStr h), (''Content-Type'', HStr ''application/x-amz-json-1.0''),
      (''Content-Length'', HStr (nat_str (length body)))]"

definition ddb_make_request ::
  "ddb_env \<Rightarrow> mexe_env \<Rightarrow> aws_conn \<Rightarrow> nat \<Rightarrow> http_conn conn_pool \<Rightarrow> nat \<Rightarrow> string \<Rightarrow> string \<Rightarrow> ((mexe_exc + pyval) \<times> mexe_state option) option"
where
  "ddb_make_request D E c ticks pool first_id action body =
     (case build_base_http_request (gae E) (py_version E) c ''POST'' ''/'' (Some ''/'') (Some []) (Some (ddb_headers action (host c) body)) body (host c) of
        Inl e \<Rightarrow> Some (Inl (Raised e), None)
      | Inr req \<Rightarrow>
          (case mexe (E\<lparr>retry_handler := Some (ddb_retry_handler D)\<rparr>) (Some number_retries) None c ticks pool first_id req of
             None \<Rightarrow> None
           | Some (Inl e, s) \<Rightarrow> Some (Inl e, Some s)
           | Some (Inr r, s) \<Rightarrow> Some (read_response D r, Some s)))"

section \<open>Throttled requests\<close>

definition throttled :: "ddb_env \<Rightarrow> response \<Rightarrow> bool" where
  "throttled D r \<longleftrightarrow> resp_status r = 400 \<and> (\<exists>t. error_type D (resp_body r) = Inr (PUni t) \<and> str_contains t ''ProvisionedThroughputExceededException'')"

definition pauses :: "ddb_env \<Rightarrow> nat \<Rightarrow> real list" where
  "pauses D k = map (truncated_exponential_time D) [0..<k]"

lemma throttled_handler:
  assumes "throttled D r" "\<forall>n. de_crc_header D n = None"
  shows "ddb_retry_handler D n r i d
     = (if Suc i = number_retries then Inl (ddb_error ''ProvisionedThroughputExceededException'')
        else Inr (Some (Some (''ProvisionedThroughputExceededException, retry attempt '' @ nat_str i), Suc i, truncated_exponential_time D i)))"
  using assms by (auto simp: throttled_def ddb_retry_handler_def handle_400_def mentions_def check_crc_def)

text \<open>
  A throttled answer with a wrong checksum counts as two attempts, so that at the ninth attempt the check for the last one
  is passed over.
\<close>

lemma wrong_checksum_counts_twice:
  assumes "throttled D r" "de_crc_header D n = Some x" "de_validate D" "py_int x = Inr c" "de_crc32 D (resp_body r) \<noteq> c"
  shows "\<exists>m. ddb_retry_handler D n r 8 d = Inr (Some (m, number_retries, truncated_exponential_time D 9))"
  using assms by (auto simp: throttled_def ddb_retry_handler_def handle_400_def mentions_def check_crc_def number_retries_def)

text \<open>Without an option a pause takes at most a minute, with one of one second the pause before the tenth attempt is 25.6 seconds.\<close>

lemma pause_bounded: "de_max_delay D = None \<Longrightarrow> truncated_exponential_time D i \<le> 60"
  by (simp add: truncated_exponential_time_def)

lemma option_bounds_nothing: "de_max_delay D = Some ''1'' \<Longrightarrow> truncated_exponential_time D 9 = 256 / 10"
  by (simp add: truncated_exponential_time_def)

lemma throttled_round:
  assumes "authorizes E" "\<forall>n. de_crc_header D n = None" "retry_handler E = Some (ddb_retry_handler D)"
    and "\<And>con q. \<exists>r. answer E (length (m_sent s)) con q = Inr r \<and> throttled D r"
  shows "if Suc (m_i s) = number_retries
     then \<exists>t. mexe_round E s = Raise (ddb_error ''ProvisionedThroughputExceededException'') t \<and> length (m_sent t) = Suc (length (m_sent s)) \<and> m_sleeps t = m_sleeps s
     else \<exists>t. mexe_round E s = Continue t \<and> m_i t = Suc (m_i s) \<and> length (m_sent t) = Suc (length (m_sent s))
       \<and> m_sleeps t = m_sleeps s @ [truncated_exponential_time D (m_i s)]"
proof -
  obtain q where q: "prepared E s = Inr q" using prepared_works [OF assms(1)] by blast
  obtain r where r: "answer E (length (m_sent s)) (m_connection s) q = Inr r" "throttled D r" using assms(4) by blast
  show ?thesis using q r(1) assms(3) throttled_handler [OF r(2) assms(2)]
    by (auto simp: mexe_round_def after_response_def handle_exc_def ddb_error_def Let_def)
qed

lemma throttled_loop:
  assumes "authorizes E" "\<forall>n. de_crc_header D n = None" "retry_handler E = Some (ddb_retry_handler D)"
    and "\<forall>j con q. j < k \<longrightarrow> (\<exists>r. answer E j con q = Inr r \<and> throttled D r)"
    and "k < number_retries" "j \<le> k" "m_i s = j" "length (m_sent s) = j" "m_sleeps s = pauses D j"
  shows "\<exists>t. mexe_loop E number_retries s = mexe_loop E number_retries t \<and> m_i t = k \<and> length (m_sent t) = k \<and> m_sleeps t = pauses D k"
  using assms(6-)
proof (induction "k - j" arbitrary: s j)
  case 0
  then show ?case by (intro exI [of _ s]) simp
next
  case (Suc d)
  have "\<exists>r. answer E (length (m_sent s)) con q = Inr r \<and> throttled D r" for con q
    using assms(4) [THEN spec, THEN spec, THEN spec, of j con q] Suc by simp
  note round = throttled_round [OF assms(1-3) this]
  have "Suc (m_i s) \<noteq> number_retries" using Suc assms(5) by simp
  then obtain t where t: "mexe_round E s = Continue t" "m_i t = Suc j" "length (m_sent t) = Suc j"
    "m_sleeps t = pauses D (Suc j)" using round Suc.prems by (auto simp: pauses_def)
  have "mexe_loop E number_retries s = mexe_loop E number_retries t" using t(1) Suc assms(5) by (subst mexe_loop.simps) simp
  moreover have "\<exists>u. mexe_loop E number_retries t = mexe_loop E number_retries u \<and> m_i u = k \<and> length (m_sent u) = k \<and> m_sleeps u = pauses D k"
    using Suc.hyps(1) [of "Suc j" t] t(2-4) Suc.hyps(2) by simp
  ultimately show ?case by simp
qed

text \<open>
  A request that is throttled \<open>k\<close> times is sent again after pauses that double, and gives what the next response holds;
  from ten throttled attempts on the exception of DynamoDB is raised, after ten requests and nine pauses.
\<close>

theorem throttled_requests_retried:
  assumes "build_base_http_request (gae E) (py_version E) c ''POST'' ''/'' (Some ''/'') (Some []) (Some (ddb_headers action (host c) body)) body (host c) = Inr req"
    and "authorizes E" and "\<not> use_proxy c" and "\<forall>n. de_crc_header D n = None"
    and "\<forall>j con q. j < k \<longrightarrow> (\<exists>r. answer E j con q = Inr r \<and> throttled D r)"
    and "\<forall>con q. answer E k con q = Inr r" and "final_response r" and "resp_status r \<noteq> 400"
  shows "\<exists>s. ddb_make_request D E c ticks pool first_id action body
       = Some (if k < number_retries then read_response D r else Inl (ddb_error ''ProvisionedThroughputExceededException''), Some s)
     \<and> length (m_sent s) = min (Suc k) number_retries \<and> m_sleeps s = pauses D (min k 9)"
proof -
  define F where "F = E\<lparr>retry_handler := Some (ddb_retry_handler D)\<rparr>"
  have F: "authorizes F" "retry_handler F = Some (ddb_retry_handler D)" "answer F = answer E" using assms(2) by (simp_all add: F_def authorizes_def)
  from mexe_enters [OF assms(3)] obtain s where s: "mexe F (Some number_retries) None c ticks pool first_id req = mexe_loop F number_retries s"
    "m_sent s = []" "m_i s = 0" "m_sleeps s = []" by blast
  define m where "m = min k 9"
  have "\<forall>j con q. j < m \<longrightarrow> (\<exists>r. answer F j con q = Inr r \<and> throttled D r)"
    using assms(5) unfolding F(3) m_def by simp
  moreover have "m < number_retries" by (simp add: m_def number_retries_def)
  ultimately have "\<exists>t. mexe_loop F number_retries s = mexe_loop F number_retries t \<and> m_i t = m \<and> length (m_sent t) = m \<and> m_sleeps t = pauses D m"
    using s(2-4) by (intro throttled_loop [OF F(1) assms(4) F(2), where j = 0]) (simp_all add: pauses_def)
  then obtain t where t:
    "mexe_loop F number_retries s = mexe_loop F number_retries t" "m_i t = m" "length (m_sent t) = m" "m_sleeps t = pauses D m"
    by blast
  have request: "ddb_make_request D E c ticks pool first_id action body
      = (case mexe_loop F number_retries t of None \<Rightarrow> None | Some (Inl e, s) \<Rightarrow> Some (Inl e, Some s) | Some (Inr r, s) \<Rightarrow> Some (read_response D r, Some s))"
    using assms(1) s(1) t(1) by (simp add: ddb_make_request_def F_def)
  have go_on: "\<not> number_retries < m_i t" by (simp add: t(2) m_def number_retries_def)
  show ?thesis
  proof (cases "k < number_retries")
    case True
    then have m: "m = k" by (simp add: m_def number_retries_def)
    obtain q where q: "prepared F t = Inr q" using prepared_works [OF F(1)] by blast
    have "answer F (length (m_sent t)) (m_connection t) q = Inr r"
      using assms(6) [THEN spec, THEN spec, of "m_connection t" q] by (simp add: F(3) t(3) m)
    then have "\<exists>u. mexe_round F t = Return r u \<and> length (m_sent u) = Suc k \<and> m_sleeps u = m_sleeps t"
      using q assms(4,7,8) t(3) put_conn_same [of "t\<lparr>m_request := q, m_sent := m_sent t @ [(m_connection t, q)], m_response := Some r\<rparr>" F]
      by (auto simp: m mexe_round_def after_response_def handle_response_def final_response_def Let_def same_call_def F(2)
          ddb_retry_handler_def check_crc_def)
    then obtain u where u: "mexe_round F t = Return r u" "length (m_sent u) = Suc k" "m_sleeps u = m_sleeps t" by blast
    have "mexe_loop F number_retries t = Some (Inr r, u)" using u(1) go_on by (subst mexe_loop.simps) simp
    then show ?thesis using request u(2,3) t(4) True m by (intro exI [of _ u]) (simp add: m_def)
  next
    case False
    then have m: "m = 9" by (simp add: m_def number_retries_def)
    have "\<exists>r. answer F (length (m_sent t)) con q = Inr r \<and> throttled D r" for con q
      using assms(5) [THEN spec, THEN spec, THEN spec, of 9 con q] False unfolding F(3) t(3) m by (simp add: number_retries_def)
    from throttled_round [OF F(1) assms(4) F(2) this] obtain u where
      u: "mexe_round F t = Raise (ddb_error ''ProvisionedThroughputExceededException'') u" "length (m_sent u) = 10" "m_sleeps u = m_sleeps t"
      by (auto simp: t(2,3) m number_retries_def)
    have "mexe_loop F number_retries t = Some (Inl (ddb_error ''ProvisionedThroughputExceededException''), u)"
      using u(1) go_on by (subst mexe_loop.simps) simp
    then show ?thesis using request u(2,3) t(4) False by (intro exI [of _ u]) (simp add: m_def number_retries_def)
  qed
qed

definition throttled_response :: response where
  "throttled_response = \<lparr>resp_status = 400, resp_reason = ''Bad Request'', resp_location = None, resp_connection = None, resp_body = ''T''\<rparr>"

definition example_ddb :: ddb_env where
  "example_ddb = \<lparr>de_json = (\<lambda>body. Inr (PMap [(''__type'', PUni ''a.b#ProvisionedThroughputExceededException'')])), de_crc32 = (\<lambda>body. 0),
     de_crc_header = (\<lambda>n. None), de_validate = True, de_max_delay = None\<rparr>"

theorem throttled_requests_retried_witness:
  "\<exists>s. ddb_make_request example_ddb (basic_env (\<lambda>n con q. Inr (if n < 3 then throttled_response else answer_with 200 None))) (direct_conn ''h'' True) 0 conn_pool_init 0 ''GetItem'' ''x''
       = Some (if (3::nat) < number_retries then read_response example_ddb (answer_with 200 None)
               else Inl (ddb_error ''ProvisionedThroughputExceededException''), Some s)
     \<and> length (m_sent s) = min (Suc 3) number_retries \<and> m_sleeps s = pauses example_ddb (min 3 9)"
proof -
  let ?E = "basic_env (\<lambda>n con q. Inr (if n < 3 then throttled_response else answer_with 200 None))"
  let ?c = "direct_conn ''h'' True"
  have "\<exists>req. build_base_http_request (gae ?E) (py_version ?E) ?c ''POST'' ''/'' (Some ''/'') (Some []) (Some (ddb_headers ''GetItem'' (host ?c) ''x'')) ''x'' (host ?c) = Inr req"
    by (simp add: build_base_http_request_def direct_conn_def basic_env_def get_path_def Let_def)
  then obtain req where req: "build_base_http_request (gae ?E) (py_version ?E) ?c ''POST'' ''/'' (Some ''/'') (Some []) (Some (ddb_headers ''GetItem'' (host ?c) ''x'')) ''x'' (host ?c) = Inr req" by blast
  show ?thesis
  proof (rule throttled_requests_retried [OF req])
    show "\<forall>j con q. j < 3 \<longrightarrow> (\<exists>r. answer ?E j con q = Inr r \<and> throttled example_ddb r)"
      by (simp add: throttled_def throttled_response_def example_ddb_def error_type_def dict_get_def in_range_def char_eval str_startswith_def)
    show "final_response (answer_with 200 None)" by (simp add: final_response_def answer_with_def retried_status_def is_redirect_def)
  qed (simp_all add: example_ddb_def answer_with_def)
qed

end
