(* ===== verification/Spec2Isabelle.thy ===== *)
theory Spec2Isabelle
  imports Py_Prelude Py_Net Utils_LRU Utils_Headers Conn_Pool Conn_Request Conn_Mexe Auth_Hmac Auth_V4 Auth_Query Auth_Detect
    Glacier_Utils Glacier_Layer1 Glacier_Writer Glacier_Vault Glacier_Concurrent
    Transfer_Base GS_Upload GS_Lossy S3_Key S3_Object S3_Download S3_Conn Py_Base64 S3_Hash S3_Send
    DDB_Types DDB_Table DDB_Items DDB_Results DDB_Query DDB_Batch DDB_Request
begin

text \<open>
  A verification development for boto 2.49.0, the Python interface to Amazon Web Services and Google
  Storage (sources under \<^verbatim>\<open>src/boto\<close>; the model follows the language of the project, Python 2.7).

  \<^bold>\<open>The program.\<close>  Every service of boto is a client of the same core: a connection object builds an
  \<open>HTTPRequest\<close>, has it signed by a handler of \<^verbatim>\<open>auth.py\<close>, takes an HTTP connection from a pool and
  runs the request in a loop with retries and redirects.  On top of the core each service adds its API
  calls and, where it transfers data, its own protocol: parts, hashes, resumption, threads.

  \<^bold>\<open>Conventions.\<close>  A Python \<open>str\<close> is a byte string, type \<open>string\<close>; a dictionary is an association list
  in insertion order (\<open>AList.update\<close>, \<open>AList.delete\<close>, \<open>map_of\<close>); an exception is the left side of a sum
  (\<open>Py_Prelude.py_exc\<close>, \<open>Conn_Mexe.mexe_exc\<close>, \<open>Transfer_Base.transfer_exc\<close>); a method that changes its
  object is a function from the object's record to a result and the changed record.  What is not boto's
  code is a parameter: the network and the services (what the \<open>n\<close>-th request is answered, or operations
  on a state \<open>'w\<close> of the service), hash functions (\<open>H\<close>, \<open>crypto\<close>), the clock, random numbers, the
  decoded JSON of a response.  What boto uses of the standard library is defined in \<open>Py_Prelude\<close> (strings,
  numbers, lists, hexadecimal), \<open>Py_Net\<close> (quoting, Base64, URLs, UTF-8) and \<open>Py_Base64\<close> (decoding Base64).

  \<^bold>\<open>Theories and what they show.\<close>

  \<^item> \<open>Utils_LRU\<close> (\<open>LRUCache\<close> of \<^verbatim>\<open>utils.py\<close>): the doubly linked items in a store.  Lemmas on the linked
    segments lead to a simulation of a list ordered by recency; the locale \<open>cache\<close> is the contract.
  \<^item> \<open>Utils_Headers\<close> (\<^verbatim>\<open>utils.py\<close>: \<open>canonical_string\<close>, \<open>merge_meta\<close>, \<open>get_aws_metadata\<close>, \<open>parse_host\<close>,
    matching headers): the string to sign of S3 equals the documented one, whose resource is specified on its own.
  \<^item> \<open>Conn_Pool\<close> (\<open>HostConnectionPool\<close>, \<open>ConnectionPool\<close> of \<^verbatim>\<open>connection.py\<close>): in every run what
    the pool holds and has handed out was put there (locale \<open>conn_store\<close>); freshness of what is handed out.
  \<^item> \<open>Conn_Request\<close> (\<open>AWSAuthConnection\<close> and \<open>HTTPRequest\<close>): set-up, proxies, paths, header values and the
    round trip of metadata.
  \<^item> \<open>Conn_Mexe\<close> (\<open>_mexe\<close>): one round of the retry loop as a function, the loop as a partial function whose
    value is \<open>None\<close> when it does not return; success after transient failures, termination when redirects
    stop, divergence when they do not, transport security and signing of every request.
  \<^item> \<open>Auth_Hmac\<close>, \<open>Auth_V4\<close>, \<open>Auth_Query\<close>, \<open>Auth_Detect\<close> (\<^verbatim>\<open>auth.py\<close>): versions 1 to 4, the query
    signatures, and the choice of version 4 by region or host.  What is signed is what is sent; signing
    again for a retry equals signing afresh; the query strings parse back.
  \<^item> \<open>Glacier_Utils\<close>, \<open>Glacier_Layer1\<close>, \<open>Glacier_Writer\<close>, \<open>Glacier_Vault\<close>, \<open>Glacier_Concurrent\<close>
    (\<^verbatim>\<open>glacier/\<close>): part sizes and tree hashes (equal to a Merkle root; a collision gives a collision of the
    hash function), the requests of layer 1, the partitioner and the writer (locales \<open>part_sink\<close>,
    \<open>accepting_sink\<close>), vaults and jobs with paging, resumption and verified downloads, and the thread pools
    as a step relation over all interleavings (locale \<open>part_pool\<close>, interpreted for upload and download).
  \<^item> \<open>Transfer_Base\<close>, \<open>GS_Upload\<close>, \<open>GS_Lossy\<close> (\<^verbatim>\<open>gs/resumable_upload_handler.py\<close>): the handler's state
    machine over a service given as a record of operations; \<open>GS_Lossy\<close> instantiates it with a service that
    keeps the documented protocol over connections that break, and shows that the upload completes, with any connection
    object.  (A file of one byte and a break after one byte are the exceptions, see \<open>upload_aborts_after_one_byte\<close>.)

  \<^item> \<open>S3_Key\<close>, \<open>S3_Object\<close>, \<open>S3_Download\<close> (\<^verbatim>\<open>s3/key.py\<close>, \<^verbatim>\<open>s3/keyfile.py\<close>,
    \<^verbatim>\<open>s3/resumable_download_handler.py\<close>): responses with their lengths and what reading them gives when the
    connection ends or is reset; \<open>get_file\<close> of a key; \<open>KeyFile\<close> as a refinement of bytes with two positions; the
    retry loop of downloads over a service with one object whose requests fail as a plan says; a download without a
    callback that finds a start of the object raises an exception, and a reset connection cuts a download off.
  \<^item> \<open>S3_Conn\<close>, \<open>S3_Hash\<close>, \<open>S3_Send\<close> (\<^verbatim>\<open>s3/connection.py\<close>, \<open>compute_hash\<close> of \<^verbatim>\<open>utils.py\<close>, \<^verbatim>\<open>s3/key.py\<close>): where
    bucket and key go in hosts and paths, signed URLs and forms; hashes of files and the two forms of a key's MD5
    (decoding Base64 inverts encoding); \<open>send_file\<close>, whose closure \<open>sender\<close> answers the requests of \<open>_mexe\<close>, over a
    service that cuts and refuses requests as a plan says.
  \<^item> \<open>DDB_Types\<close> (\<^verbatim>\<open>dynamodb/types.py\<close>): Python values, decimal numbers under the context of DynamoDB, and the
    \<open>Dynamizer\<close>: what is sent is well typed and reads back as it was.
  \<^item> \<open>DDB_Table\<close>, \<open>DDB_Items\<close>, \<open>DDB_Results\<close>, \<open>DDB_Query\<close>, \<open>DDB_Batch\<close> (\<^verbatim>\<open>dynamodb2/table.py\<close>, \<^verbatim>\<open>items.py\<close>,
    \<^verbatim>\<open>results.py\<close>, \<^verbatim>\<open>layer1.py\<close>): requests and filters; items, whose partial saves equal full saves on a table that keeps
    the documented protocol of expectations; paging with limits, over a service that pages as it likes; counting; batches,
    in which every write is done once.  The service is a function from an action and its parameters.
  \<^item> \<open>DDB_Request\<close> (\<open>make_request\<close> of \<^verbatim>\<open>dynamodb2/layer1.py\<close>): how these requests are sent over \<open>Conn_Mexe\<close>, with the retry
    handler for throttled requests and checksums; a request that is throttled is sent again up to ten times.

  \<^bold>\<open>Bounds and fuel.\<close>  Loops that end are functions with a measure (bytes or parts left).  \<open>mexe_loop\<close>,
  \<open>upload_loop\<close>, \<open>download_loop\<close> and the paging loops of Glacier as well as \<open>fetch_until\<close>, \<open>collect\<close> and \<open>resend_unprocessed\<close> of DynamoDB are \<open>partial_function (option)\<close>, and the properties that
  they return state \<open>Some\<close>.  The iterator of \<open>LRUCache\<close> has the number of items as its fuel, which the
  invariant shows to be enough.

  \<^bold>\<open>Not modelled.\<close>  Debug output and logging; the XML parsers and the result objects that they build, which are most
  of EC2, RDS, IAM, S3 bucket configuration and SimpleDB; loading of plugins and configuration files; the generated API
  bindings, each of whose operations only forwards its arguments; SQS, SWF and the other services whose operations are
  single requests; installation scripts, instance management tools and vendored code.
\<close>

end
